(* ===== verification/Prelude.thy ===== *)
theory Prelude
  imports Main "HOL-Library.Word" "HOL-Library.Multiset"
begin

unbundle bit_operations_syntax

section \<open>Shared vocabulary and lemmas\<close>

text \<open>
  What every component theory uses: the fault values of the model, the machine integer
  types, the loop that scans indices for the first one satisfying a test, the interface of
  a FIFO and of a slot allocator, and the list, map and word lemmas the proofs share.
\<close>

subsection \<open>Faults, results and machine integers\<close>

text \<open>
  A \<^verbatim>\<open>LOGF\<close> (fatal log, which aborts the process), an \<^verbatim>\<open>assert\<close>, an out-of-range
  vector access, a null dereference, a shift that C++ leaves undefined, a call of
  \<^verbatim>\<open>std::terminate\<close> (a thread object overwritten while joinable), a use of an object that
  has been deleted and a release of memory that is not allocated are the ways in which the code can
  stop being a function of its inputs.  Each is a value here.
\<close>

datatype fault =
    LogFatal | AssertFailed | OutOfBounds | UndefinedShift | NullPointer | StdTerminate | UseAfterFree | BadFree

type_synonym 'a result = "fault + 'a"

type_synonym u8 = "8 word"
type_synonym u32 = "32 word"
type_synonym u64 = "64 word"

named_theorems step_defs \<open>the one-step definitions a component unfolds\<close>

text \<open>A \<^verbatim>\<open>for\<close> loop over a container whose body may fault.\<close>

fun foldM :: "('a \<Rightarrow> 's \<Rightarrow> 's result) \<Rightarrow> 'a list \<Rightarrow> 's \<Rightarrow> 's result" where
  "foldM f [] s = Inr s"
| "foldM f (x # xs) s = (case f x s of Inl e \<Rightarrow> Inl e | Inr s' \<Rightarrow> foldM f xs s')"

lemma foldM_append:
  "foldM f (xs @ ys) s = (case foldM f xs s of Inl e \<Rightarrow> Inl e | Inr s' \<Rightarrow> foldM f ys s')"
  by (induction xs arbitrary: s) (auto split: sum.splits)

text \<open>A loop invariant indexed by the elements already visited.\<close>

lemma foldM_inv:
  assumes "I [] s"
    and "\<And>done x rest s. xs = done @ x # rest \<Longrightarrow> I done s \<Longrightarrow> \<exists>s'. f x s = Inr s' \<and> I (done @ [x]) s'"
  shows "\<exists>s'. foldM f xs s = Inr s' \<and> I xs s'"
proof -
  have "\<exists>s'. foldM f ys s = Inr s' \<and> I (done @ ys) s'" if "xs = done @ ys" "I done s" for "done" ys s
    using that
  proof (induction ys arbitrary: "done" s)
    case (Cons y ys)
    from assms(2) [OF Cons.prems] obtain s1 where "f y s = Inr s1" "I (done @ [y]) s1" by blast
    with Cons.IH [of "done @ [y]" s1] Cons.prems(1) show ?case by simp
  qed simp
  from this [of "[]" xs s] assms(1) show ?thesis by simp
qed

text \<open>\<^verbatim>\<open>1UL << id\<close> on a 64-bit unsigned: undefined from 64 on.\<close>

definition one_shl :: "u64 \<Rightarrow> u64 result" where
  "one_shl i = (if unat i \<ge> 64 then Inl UndefinedShift else Inr (push_bit (unat i) 1))"

subsection \<open>Scanning a range of indices\<close>

text \<open>\<^verbatim>\<open>for (i = lo; i < lo + n; i++) if (p(i)) return i;\<close>\<close>

fun scan :: "(nat \<Rightarrow> bool) \<Rightarrow> nat \<Rightarrow> nat \<Rightarrow> nat option" where
  "scan p lo 0 = None"
| "scan p lo (Suc n) = (if p lo then Some lo else scan p (Suc lo) n)"

lemma scan_Some_iff:
  "scan p lo n = Some i \<longleftrightarrow> lo \<le> i \<and> i < lo + n \<and> p i \<and> (\<forall>j. lo \<le> j \<and> j < i \<longrightarrow> \<not> p j)"
proof (induction n arbitrary: lo)
  case 0
  then show ?case by simp
next
  case (Suc n)
  show ?case
  proof (cases "p lo")
    case True
    then show ?thesis by (auto simp: not_less le_eq_less_or_eq)
  next
    case False
    then have "scan p lo (Suc n) = Some i \<longleftrightarrow>
        Suc lo \<le> i \<and> i < Suc lo + n \<and> p i \<and> (\<forall>j. Suc lo \<le> j \<and> j < i \<longrightarrow> \<not> p j)"
      using Suc.IH [of "Suc lo"] by simp
    also have "\<dots> \<longleftrightarrow> lo \<le> i \<and> i < lo + Suc n \<and> p i \<and> (\<forall>j. lo \<le> j \<and> j < i \<longrightarrow> \<not> p j)"
      using False by (metis Suc_leI Suc_le_lessD add_Suc add_Suc_right le_eq_less_or_eq)
    finally show ?thesis .
  qed
qed

lemma scan_None_iff: "scan p lo n = None \<longleftrightarrow> (\<forall>i. lo \<le> i \<and> i < lo + n \<longrightarrow> \<not> p i)"
proof -
  have "\<exists>j. scan p lo n = Some j" if "lo \<le> i" "i < lo + n" "p i" for i
    using that
  proof (induction n arbitrary: lo)
    case (Suc n)
    then show ?case by (cases "lo = i") auto
  qed simp
  then have "scan p lo n = None \<Longrightarrow> \<forall>i. lo \<le> i \<and> i < lo + n \<longrightarrow> \<not> p i" by fastforce
  moreover have "\<forall>i. lo \<le> i \<and> i < lo + n \<longrightarrow> \<not> p i \<Longrightarrow> scan p lo n = None"
    by (metis option.exhaust scan_Some_iff)
  ultimately show ?thesis by blast
qed

lemma scan_SomeD:
  assumes "scan p lo n = Some i"
  shows "lo \<le> i" and "i < lo + n" and "p i" and "\<And>j. lo \<le> j \<Longrightarrow> j < i \<Longrightarrow> \<not> p j"
  using assms by (auto simp: scan_Some_iff)

lemma scan_cong:
  "(\<And>i. lo \<le> i \<Longrightarrow> i < lo + n \<Longrightarrow> p i = q i) \<Longrightarrow> scan p lo n = scan q lo n"
proof (induction n arbitrary: lo)
  case 0
  then show ?case by simp
next
  case (Suc n)
  have "scan p (Suc lo) n = scan q (Suc lo) n"
    by (rule Suc.IH) (simp add: Suc.prems)
  moreover have "p lo = q lo" using Suc.prems [of lo] by simp
  ultimately show ?case by simp
qed

subsection \<open>Lists and maps\<close>

lemma take_Suc_snoc: "i < length xs \<Longrightarrow> take (Suc i) xs = take i xs @ [xs ! i]"
  by (rule take_Suc_conv_app_nth)

text \<open>Taking one element out of a collection that any thread may serve.\<close>

definition remove_nth :: "nat \<Rightarrow> 'a list \<Rightarrow> 'a list" where
  "remove_nth k xs = take k xs @ drop (Suc k) xs"

lemma remove_nth_split:
  assumes "k < length xs"
  shows "mset xs = add_mset (xs ! k) (mset (remove_nth k xs))"
proof -
  have "mset xs = mset (take k xs @ xs ! k # drop (Suc k) xs)" by (simp only: id_take_nth_drop [OF assms, symmetric])
  then show ?thesis by (simp add: remove_nth_def)
qed

lemma set_remove_nth: "k < length xs \<Longrightarrow> set xs = insert (xs ! k) (set (remove_nth k xs))"
  using arg_cong [OF remove_nth_split, of k xs set_mset] by simp

lemma sum_remove_nth: "k < length xs \<Longrightarrow> sum_list (map f xs) = f (xs ! k) + sum_list (map f (remove_nth k xs))"
  for f :: "'a \<Rightarrow> 'b::comm_monoid_add"
  using arg_cong [OF remove_nth_split, of k xs "\<lambda>m. sum_mset (image_mset f m)"]
  by (simp add: sum_mset_sum_list flip: mset_map)

lemma length_remove_nth: "k < length xs \<Longrightarrow> length xs = Suc (length (remove_nth k xs))"
  using arg_cong [OF remove_nth_split, of k xs size] by simp

lemma sum_list_update:
  "i < length xs \<Longrightarrow> sum_list (map f (xs[i := y])) + f (xs ! i) = sum_list (map f xs) + f y"
  for f :: "'a \<Rightarrow> 'b::comm_monoid_add"
proof (induction xs arbitrary: i)
  case (Cons x xs)
  then show ?case by (cases i) (auto simp: ac_simps)
qed simp

lemma int_card_remove:
  "finite A \<Longrightarrow> int (card (A - {x})) = int (card A) - (if x \<in> A then 1 else 0)"
  using card_Suc_Diff1 [of A x] by (cases "x \<in> A") auto

lemma inj_on_map_upd:
  assumes "inj_on m (dom m)" and "Some v \<notin> range m"
  shows "inj_on (m(k \<mapsto> v)) (dom (m(k \<mapsto> v)))"
proof (rule inj_onI)
  fix x y assume x: "x \<in> dom (m(k \<mapsto> v))" and y: "y \<in> dom (m(k \<mapsto> v))"
    and eq: "(m(k \<mapsto> v)) x = (m(k \<mapsto> v)) y"
  have fresh: "m z \<noteq> Some v" for z using assms(2) by (metis rangeI)
  show "x = y"
  proof (cases "x = k \<or> y = k")
    case True
    with eq fresh show ?thesis by (metis fun_upd_apply)
  next
    case False
    with x y eq have "x \<in> dom m" "y \<in> dom m" "m x = m y" by auto
    with assms(1) show ?thesis by (auto dest: inj_onD)
  qed
qed

lemma inj_on_map_del: "inj_on m (dom m) \<Longrightarrow> inj_on (m(k := None)) (dom (m(k := None)))"
  by (auto simp: inj_on_def)

subsection \<open>Bits of a mask\<close>

text \<open>\<^verbatim>\<open>mask | (1 << i)\<close>, \<^verbatim>\<open>mask & (1 << i)\<close> on \<^verbatim>\<open>uint64_t\<close>, for an in-range \<open>i\<close>.\<close>

lemma bit_one_shl: "bit (2 ^ i :: 'a::len word) j \<longleftrightarrow> i = j \<and> j < LENGTH('a)"
  by (auto simp: bit_simps)

lemma word_nonzero_iff: "(w :: 'a::len word) \<noteq> 0 \<longleftrightarrow> (\<exists>i. bit w i)"
proof
  assume "w \<noteq> 0"
  then show "\<exists>i. bit w i" using bit_eqI [of w 0] by auto
qed auto

lemma mask_subset_iff:
  "(m AND p) = (p :: 'a::len word) \<longleftrightarrow> (\<forall>i < LENGTH('a). bit p i \<longrightarrow> bit m i)"
  by (auto simp: bit_eq_iff bit_simps dest: bit_imp_le_length)

lemma bit_or_one_shl:
  "bit (m OR (2 ^ i :: 'a::len word)) j \<longleftrightarrow> bit m j \<or> (i = j \<and> j < LENGTH('a))"
  by (auto simp: bit_simps)

subsection \<open>The interface of a FIFO\<close>

text \<open>
  A FIFO accepts or refuses an element, and gives back the oldest one or nothing.
  \<open>fifo_run\<close> is any interleaving of producer and consumer calls, with the elements that
  were accepted and those that were handed out, each in order.
\<close>

datatype 'a qop = Enq 'a | Deq

fun fifo_run ::
  "('q \<Rightarrow> 'a \<Rightarrow> bool \<times> 'q) \<Rightarrow> ('q \<Rightarrow> 'a option \<times> 'q) \<Rightarrow> 'q \<Rightarrow> 'a qop list
     \<Rightarrow> 'q \<times> 'a list \<times> 'a list" where
  "fifo_run enq deq q [] = (q, [], [])"
| "fifo_run enq deq q (Enq x # ops) =
     (let (acc, q1) = enq q x; (q2, ins, outs) = fifo_run enq deq q1 ops
      in (q2, (if acc then x # ins else ins), outs))"
| "fifo_run enq deq q (Deq # ops) =
     (let (r, q1) = deq q; (q2, ins, outs) = fifo_run enq deq q1 ops
      in (q2, ins, (case r of None \<Rightarrow> outs | Some x \<Rightarrow> x # outs)))"

locale fifo =
  fixes enq :: "'q \<Rightarrow> 'a \<Rightarrow> bool \<times> 'q"
    and deq :: "'q \<Rightarrow> 'a option \<times> 'q"
    and content :: "'q \<Rightarrow> 'a list"
    and ok :: "'q \<Rightarrow> bool"
  assumes enq_accept: "ok q \<Longrightarrow> enq q x = (True, q') \<Longrightarrow> content q' = content q @ [x]"
    and enq_reject: "ok q \<Longrightarrow> enq q x = (False, q') \<Longrightarrow> content q' = content q"
    and enq_ok: "ok q \<Longrightarrow> ok (snd (enq q x))"
    and deq_some: "ok q \<Longrightarrow> deq q = (Some x, q') \<Longrightarrow> content q = x # content q'"
    and deq_none: "ok q \<Longrightarrow> deq q = (None, q') \<Longrightarrow> content q = [] \<and> content q' = []"
    and deq_ok: "ok q \<Longrightarrow> ok (snd (deq q))"
begin

lemma run_ok: "ok q \<Longrightarrow> ok (fst (fifo_run enq deq q ops))"
proof (induction ops arbitrary: q)
  case Nil
  then show ?case by simp
next
  case (Cons a ops)
  show ?case
  proof (cases a)
    case (Enq x)
    have "ok (fst (fifo_run enq deq (snd (enq q x)) ops))"
      using Cons.prems by (intro Cons.IH enq_ok)
    with Enq show ?thesis by (simp add: case_prod_beta Let_def)
  next
    case Deq
    have "ok (fst (fifo_run enq deq (snd (deq q)) ops))"
      using Cons.prems by (intro Cons.IH deq_ok)
    with Deq show ?thesis by (simp add: case_prod_beta Let_def)
  qed
qed

lemma run_content:
  "ok q \<Longrightarrow> fifo_run enq deq q ops = (q', ins, outs) \<Longrightarrow> content q @ ins = outs @ content q'"
proof (induction ops arbitrary: q q' ins outs)
  case Nil
  then show ?case by simp
next
  case (Cons a ops)
  show ?case
  proof (cases a)
    case (Enq x)
    obtain acc q1 where e: "enq q x = (acc, q1)" by fastforce
    obtain q2 ins1 outs1 where r: "fifo_run enq deq q1 ops = (q2, ins1, outs1)"
      by (metis prod.exhaust)
    have "ok q1" using enq_ok [OF Cons.prems(1), of x] e by simp
    then have IH: "content q1 @ ins1 = outs1 @ content q2" using Cons.IH r by blast
    have "content q1 = (if acc then content q @ [x] else content q)"
      using enq_accept enq_reject Cons.prems(1) e by (cases acc) auto
    with IH Cons.prems(2) Enq e r show ?thesis by (auto split: if_splits)
  next
    case Deq
    obtain d q1 where e: "deq q = (d, q1)" by fastforce
    obtain q2 ins1 outs1 where r: "fifo_run enq deq q1 ops = (q2, ins1, outs1)"
      by (metis prod.exhaust)
    have "ok q1" using deq_ok [OF Cons.prems(1)] e by simp
    then have IH: "content q1 @ ins1 = outs1 @ content q2" using Cons.IH r by blast
    show ?thesis
    proof (cases d)
      case None
      with deq_none Cons.prems(1) e have "content q = content q1" by metis
      with IH Cons.prems(2) Deq e r None show ?thesis by auto
    next
      case (Some x)
      with deq_some Cons.prems(1) e have "content q = x # content q1" by metis
      with IH Cons.prems(2) Deq e r Some show ?thesis by auto
    qed
  qed
qed

end

text \<open>A bounded FIFO refuses exactly when it is full.\<close>

locale bounded_fifo = fifo enq deq content ok
  for enq :: "'q \<Rightarrow> 'a \<Rightarrow> bool \<times> 'q" and deq and content and ok +
  fixes capacity :: "'q \<Rightarrow> nat"
  assumes enq_iff: "ok q \<Longrightarrow> fst (enq q x) \<longleftrightarrow> length (content q) < capacity q"
    and ok_bound: "ok q \<Longrightarrow> length (content q) \<le> capacity q"
    and enq_capacity: "capacity (snd (enq q x)) = capacity q"
    and deq_capacity: "capacity (snd (deq q)) = capacity q"
begin

lemma run_capacity: "capacity (fst (fifo_run enq deq q ops)) = capacity q"
proof (induction ops arbitrary: q)
  case Nil
  then show ?case by simp
next
  case (Cons a ops)
  then show ?case
    by (cases a) (simp_all add: case_prod_beta Let_def enq_capacity deq_capacity)
qed

lemma run_bound: "ok q \<Longrightarrow> length (content (fst (fifo_run enq deq q ops))) \<le> capacity q"
  using ok_bound [OF run_ok] by (simp add: run_capacity)

end

subsection \<open>The interface of a slot allocator\<close>

text \<open>
  An allocator of small indices: \<open>alloc\<close> hands out the least free slot below the limit, or
  nothing when all are taken.  Its client takes several slots in a row.
\<close>

fun alloc_many :: "('s \<Rightarrow> nat option \<times> 's) \<Rightarrow> nat \<Rightarrow> 's \<Rightarrow> nat option list \<times> 's" where
  "alloc_many alloc 0 s = ([], s)"
| "alloc_many alloc (Suc n) s =
     (let (r, s1) = alloc s; (rs, s2) = alloc_many alloc n s1 in (r # rs, s2))"

locale slot_alloc =
  fixes alloc :: "'s \<Rightarrow> nat option \<times> 's"
    and used :: "'s \<Rightarrow> nat set"
    and limit :: nat
    and ok :: "'s \<Rightarrow> bool"
  assumes alloc_some: "ok s \<Longrightarrow> alloc s = (Some i, s') \<Longrightarrow> i < limit \<and> i \<notin> used s \<and> used s' = insert i (used s)"
    and alloc_none: "ok s \<Longrightarrow> alloc s = (None, s') \<Longrightarrow> {..<limit} \<subseteq> used s \<and> used s' = used s"
    and alloc_ok: "ok s \<Longrightarrow> ok (snd (alloc s))"
    and used_limit: "ok s \<Longrightarrow> used s \<subseteq> {..<limit}"
begin

lemma alloc_total:
  assumes "ok s" and "card (used s) < limit"
  shows "\<exists>i s'. alloc s = (Some i, s')"
proof (cases "alloc s")
  case (Pair r s')
  show ?thesis
  proof (cases r)
    case None
    with Pair alloc_none assms(1) have "{..<limit} \<subseteq> used s" by blast
    then have "limit \<le> card (used s)"
      using used_limit [OF assms(1)] by (metis card_lessThan subset_antisym le_refl)
    with assms(2) show ?thesis by simp
  next
    case (Some i)
    with Pair show ?thesis by blast
  qed
qed

lemma alloc_many_distinct:
  "ok s \<Longrightarrow> card (used s) + n \<le> limit \<Longrightarrow> alloc_many alloc n s = (rs, s') \<Longrightarrow>
   \<exists>is. rs = map Some is \<and> length is = n \<and> distinct is \<and> set is \<inter> used s = {} \<and>
        set is \<subseteq> {..<limit} \<and> used s' = used s \<union> set is"
proof (induction n arbitrary: s rs s')
  case 0
  then show ?case by simp
next
  case (Suc n)
  obtain i s1 where a: "alloc s = (Some i, s1)"
    using alloc_total Suc.prems(1,2) by fastforce
  from alloc_some [OF Suc.prems(1) a]
  have i: "i < limit" "i \<notin> used s" and u: "used s1 = insert i (used s)" by auto
  obtain rs1 s2 where r: "alloc_many alloc n s1 = (rs1, s2)" by fastforce
  have fin: "finite (used s)" using used_limit [OF Suc.prems(1)] finite_subset by blast
  have "ok s1" using alloc_ok [OF Suc.prems(1)] a by simp
  moreover have "card (used s1) + n \<le> limit" using Suc.prems(2) u i fin by simp
  ultimately obtain "is" where "is": "rs1 = map Some is" "length is = n" "distinct is"
    "set is \<inter> used s1 = {}" "set is \<subseteq> {..<limit}" "used s2 = used s1 \<union> set is"
    using Suc.IH r by blast
  have "rs = map Some (i # is)" "s' = s2" using Suc.prems(3) a r "is"(1) by auto
  moreover have "distinct (i # is)" "set (i # is) \<inter> used s = {}" "set (i # is) \<subseteq> {..<limit}"
    using "is" u i by auto
  moreover have "used s' = used s \<union> set (i # is)" using "is"(6) u calculation(2) by auto
  ultimately show ?case using "is"(2) by (intro exI [of _ "i # is"]) simp
qed

end

end
