(* ===== verification/Queues.thy ===== *)
theory Queues
  imports Prelude
begin

section \<open>Queues: ThreadSafeQueue, Conveyor, Connector\<close>

text \<open>
  \<^verbatim>\<open>framework/include/util/unistream_queue.hpp\<close>, \<^verbatim>\<open>framework/src/conveyor.cpp\<close> and
  \<^verbatim>\<open>framework/src/connector.cpp\<close>.  Every method body runs under the object's mutex, so a
  method is one atomic function on the object's state.  A \<^verbatim>\<open>wait_for\<close> re-evaluates its
  predicate under the lock when it returns; the functions below are what runs from that
  point on, on the queue as it then is.  A plain \<^verbatim>\<open>wait\<close> that cannot return is \<open>None\<close>.
\<close>

subsection \<open>ThreadSafeQueue\<close>

record 'a ThreadSafeQueue =
  tsq_items :: "'a list"

definition ThreadSafeQueue_TryPop :: "'a ThreadSafeQueue \<Rightarrow> 'a option \<times> 'a ThreadSafeQueue" where
  "ThreadSafeQueue_TryPop q =
     (case tsq_items q of [] \<Rightarrow> (None, q) | x # xs \<Rightarrow> (Some x, q\<lparr>tsq_items := xs\<rparr>))"

text \<open>The caller sleeps until the queue is non-empty: \<open>None\<close> is "still blocked".\<close>

definition ThreadSafeQueue_WaitAndPop ::
  "'a ThreadSafeQueue \<Rightarrow> ('a \<times> 'a ThreadSafeQueue) option" where
  "ThreadSafeQueue_WaitAndPop q =
     (if tsq_items q = [] then None else Some (hd (tsq_items q), q\<lparr>tsq_items := tl (tsq_items q)\<rparr>))"

definition ThreadSafeQueue_WaitAndTryPop ::
  "'a ThreadSafeQueue \<Rightarrow> 'a option \<times> 'a ThreadSafeQueue" where
  "ThreadSafeQueue_WaitAndTryPop q =
     (if tsq_items q \<noteq> [] then (Some (hd (tsq_items q)), q\<lparr>tsq_items := tl (tsq_items q)\<rparr>) else (None, q))"

definition ThreadSafeQueue_Push :: "'a ThreadSafeQueue \<Rightarrow> 'a \<Rightarrow> 'a ThreadSafeQueue" where
  "ThreadSafeQueue_Push q x = q\<lparr>tsq_items := tsq_items q @ [x]\<rparr>"

definition ThreadSafeQueue_Empty :: "'a ThreadSafeQueue \<Rightarrow> bool" where
  "ThreadSafeQueue_Empty q \<longleftrightarrow> tsq_items q = []"

definition ThreadSafeQueue_Size :: "'a ThreadSafeQueue \<Rightarrow> u32" where
  "ThreadSafeQueue_Size q = of_nat (length (tsq_items q))"

lemma TryPop_eq_WaitAndTryPop: "ThreadSafeQueue_TryPop q = ThreadSafeQueue_WaitAndTryPop q"
  by (cases "tsq_items q") (auto simp: ThreadSafeQueue_TryPop_def ThreadSafeQueue_WaitAndTryPop_def)

lemma WaitAndPop_iff:
  "ThreadSafeQueue_WaitAndPop q = Some (x, q') \<longleftrightarrow> ThreadSafeQueue_TryPop q = (Some x, q')"
  by (cases "tsq_items q") (auto simp: ThreadSafeQueue_TryPop_def ThreadSafeQueue_WaitAndPop_def)

text \<open>An unbounded FIFO: \<^verbatim>\<open>Push\<close> always succeeds.\<close>

interpretation tsq: fifo "\<lambda>q x. (True, ThreadSafeQueue_Push q x)" ThreadSafeQueue_TryPop tsq_items
  "\<lambda>_. True"
  by unfold_locales
    (auto simp: ThreadSafeQueue_Push_def ThreadSafeQueue_TryPop_def split: list.splits)

subsection \<open>Conveyor\<close>

record 'a Conveyor =
  dataq :: "'a list"
  max_size :: nat
  fail_time :: u64

definition Conveyor_new :: "nat \<Rightarrow> 'a Conveyor" where
  "Conveyor_new n = \<lparr>dataq = [], max_size = n, fail_time = 0\<rparr>"

definition Conveyor_GetBufferSize :: "'a Conveyor \<Rightarrow> u32" where
  "Conveyor_GetBufferSize c = of_nat (length (dataq c))"

definition Conveyor_PushDataBuffer :: "'a Conveyor \<Rightarrow> 'a \<Rightarrow> bool \<times> 'a Conveyor" where
  "Conveyor_PushDataBuffer c x =
     (if length (dataq c) < max_size c
      then (True, c\<lparr>dataq := dataq c @ [x], fail_time := 0\<rparr>)
      else (False, c\<lparr>fail_time := fail_time c + 1\<rparr>))"

definition Conveyor_GetFailTime :: "'a Conveyor \<Rightarrow> u64" where
  "Conveyor_GetFailTime c = fail_time c"

definition Conveyor_PopDataBuffer :: "'a Conveyor \<Rightarrow> 'a option \<times> 'a Conveyor" where
  "Conveyor_PopDataBuffer c =
     (if dataq c \<noteq> [] then (Some (hd (dataq c)), c\<lparr>dataq := tl (dataq c)\<rparr>) else (None, c))"

text \<open>\<^verbatim>\<open>while (!dataq_.empty()) { ... vec_data.push_back(data); }\<close>\<close>

fun pop_all :: "'a list \<Rightarrow> 'a list \<Rightarrow> 'a list \<times> 'a list" where
  "pop_all [] vec = ([], vec)"
| "pop_all (x # q) vec = pop_all q (vec @ [x])"

definition Conveyor_PopAllDataBuffer :: "'a Conveyor \<Rightarrow> 'a list \<times> 'a Conveyor" where
  "Conveyor_PopAllDataBuffer c =
     (case pop_all (dataq c) [] of (q, vec) \<Rightarrow> (vec, c\<lparr>dataq := q\<rparr>))"

lemma pop_all_eq: "pop_all q vec = ([], vec @ q)"
  by (induction q vec rule: pop_all.induct) auto

lemma PopAllDataBuffer_eq: "Conveyor_PopAllDataBuffer c = (dataq c, c\<lparr>dataq := []\<rparr>)"
  by (simp add: Conveyor_PopAllDataBuffer_def pop_all_eq)

definition conveyor_ok :: "'a Conveyor \<Rightarrow> bool" where
  "conveyor_ok c \<longleftrightarrow> length (dataq c) \<le> max_size c"

lemmas conveyor_defs = Conveyor_PushDataBuffer_def Conveyor_PopDataBuffer_def conveyor_ok_def

interpretation cvr: bounded_fifo Conveyor_PushDataBuffer Conveyor_PopDataBuffer dataq
  conveyor_ok max_size
  by unfold_locales (auto simp: conveyor_defs split: if_splits)

lemma conveyor_new_ok [simp]: "conveyor_ok (Conveyor_new n)"
  by (simp add: conveyor_ok_def Conveyor_new_def)

text \<open>The failure counter is the number of refused pushes since the last accepted one.\<close>

fun push_many :: "'a Conveyor \<Rightarrow> 'a list \<Rightarrow> 'a Conveyor" where
  "push_many c [] = c"
| "push_many c (x # xs) = push_many (snd (Conveyor_PushDataBuffer c x)) xs"

lemma push_many_append: "push_many c (xs @ ys) = push_many (push_many c xs) ys"
  by (induction xs arbitrary: c) auto

lemma push_many_room:
  "length (dataq c) + length xs \<le> max_size c \<Longrightarrow>
   dataq (push_many c xs) = dataq c @ xs \<and> max_size (push_many c xs) = max_size c \<and>
   (xs \<noteq> [] \<longrightarrow> fail_time (push_many c xs) = 0)"
proof (induction xs arbitrary: c)
  case (Cons x xs)
  let ?c = "snd (Conveyor_PushDataBuffer c x)"
  have "?c = c\<lparr>dataq := dataq c @ [x], fail_time := 0\<rparr>"
    using Cons.prems by (simp add: Conveyor_PushDataBuffer_def)
  with Cons.IH [of ?c] Cons.prems show ?case by (cases xs) auto
qed simp

lemma push_many_full:
  "length (dataq c) = max_size c \<Longrightarrow>
   push_many c xs = c\<lparr>fail_time := fail_time c + of_nat (length xs)\<rparr>"
proof (induction xs arbitrary: c)
  case (Cons x xs)
  then show ?case by (simp add: Conveyor_PushDataBuffer_def)
qed simp

lemma push_many_overflow:
  assumes "length (dataq c) + length xs = max_size c" and "xs \<noteq> []"
  shows "dataq (push_many c (xs @ ys)) = dataq c @ xs \<and>
    Conveyor_GetFailTime (push_many c (xs @ ys)) = of_nat (length ys)"
proof -
  have "dataq (push_many c xs) = dataq c @ xs \<and> max_size (push_many c xs) = max_size c \<and>
      fail_time (push_many c xs) = 0"
    using push_many_room [of c xs] assms by simp
  with push_many_full [of "push_many c xs" ys] assms(1) show ?thesis
    by (simp add: push_many_append Conveyor_GetFailTime_def)
qed

subsection \<open>Connector\<close>

text \<open>
  A connector holds one conveyor per parallel worker of a node.  \<^verbatim>\<open>fail_times_\<close> is reserved
  by the constructor and never used again; the failure counters live in the conveyors.
\<close>

record 'a Connector =
  conveyors :: "'a Conveyor list"
  conveyor_capacity :: nat
  fail_times :: "u64 list"
  stop :: bool

definition Connector_new :: "nat \<Rightarrow> nat \<Rightarrow> 'a Connector" where
  "Connector_new cnt cap =
     \<lparr>conveyors = map (\<lambda>_. Conveyor_new cap) [0..<cnt], conveyor_capacity = cap,
      fail_times = [], stop = False\<rparr>"

definition Connector_GetConveyorCount :: "'a Connector \<Rightarrow> nat" where
  "Connector_GetConveyorCount c = length (conveyors c)"

definition Connector_GetConveyorByIdx :: "'a Connector \<Rightarrow> int \<Rightarrow> 'a Conveyor result" where
  "Connector_GetConveyorByIdx c idx =
     (if idx < 0 then Inl LogFatal
      else if idx \<ge> int (length (conveyors c)) then Inl LogFatal
      else Inr (conveyors c ! nat idx))"

definition Connector_GetConveyorSize :: "'a Connector \<Rightarrow> int \<Rightarrow> u32 result" where
  "Connector_GetConveyorSize c idx =
     map_sum id Conveyor_GetBufferSize (Connector_GetConveyorByIdx c idx)"

definition Connector_IsConveyorEmpty :: "'a Connector \<Rightarrow> int \<Rightarrow> bool result" where
  "Connector_IsConveyorEmpty c idx =
     map_sum id (\<lambda>v. Conveyor_GetBufferSize v = 0) (Connector_GetConveyorByIdx c idx)"

definition Connector_IsConveyorFull :: "'a Connector \<Rightarrow> int \<Rightarrow> bool result" where
  "Connector_IsConveyorFull c idx =
     map_sum id (\<lambda>v. unat (Conveyor_GetBufferSize v) \<ge> conveyor_capacity c)
       (Connector_GetConveyorByIdx c idx)"

definition Connector_GetFailTime :: "'a Connector \<Rightarrow> int \<Rightarrow> u64 result" where
  "Connector_GetFailTime c idx =
     map_sum id Conveyor_GetFailTime (Connector_GetConveyorByIdx c idx)"

definition Connector_PopDataBufferFromConveyor ::
  "'a Connector \<Rightarrow> int \<Rightarrow> ('a option \<times> 'a Connector) result" where
  "Connector_PopDataBufferFromConveyor c idx =
     (case Connector_GetConveyorByIdx c idx of
        Inl e \<Rightarrow> Inl e
      | Inr v \<Rightarrow> (case Conveyor_PopDataBuffer v of
          (r, v') \<Rightarrow> Inr (r, c\<lparr>conveyors := (conveyors c)[nat idx := v']\<rparr>)))"

definition Connector_PushDataBufferToConveyor ::
  "'a Connector \<Rightarrow> int \<Rightarrow> 'a \<Rightarrow> (bool \<times> 'a Connector) result" where
  "Connector_PushDataBufferToConveyor c idx x =
     (case Connector_GetConveyorByIdx c idx of
        Inl e \<Rightarrow> Inl e
      | Inr v \<Rightarrow> (case Conveyor_PushDataBuffer v x of
          (r, v') \<Rightarrow> Inr (r, c\<lparr>conveyors := (conveyors c)[nat idx := v']\<rparr>)))"

definition Connector_Start :: "'a Connector \<Rightarrow> 'a Connector" where
  "Connector_Start c = c\<lparr>stop := False\<rparr>"

definition Connector_Stop :: "'a Connector \<Rightarrow> 'a Connector" where
  "Connector_Stop c = c\<lparr>stop := True\<rparr>"

definition Connector_IsStopped :: "'a Connector \<Rightarrow> bool" where
  "Connector_IsStopped c = stop c"

text \<open>\<^verbatim>\<open>EmptyDataQueue\<close> walks the conveyors by index and pops each one empty.\<close>

definition Connector_EmptyDataQueue :: "'a Connector \<Rightarrow> 'a Connector" where
  "Connector_EmptyDataQueue c =
     fold (\<lambda>i c. c\<lparr>conveyors := (conveyors c)
              [i := snd (Conveyor_PopAllDataBuffer (conveyors c ! i))]\<rparr>)
       [0..<Connector_GetConveyorCount c] c"

definition connector_ok :: "'a Connector \<Rightarrow> bool" where
  "connector_ok c \<longleftrightarrow> conveyor_capacity c < 2 ^ 32 \<and>
     (\<forall>v \<in> set (conveyors c). conveyor_ok v \<and> max_size v = conveyor_capacity c)"

lemma GetConveyorByIdx_Inr:
  "Connector_GetConveyorByIdx c idx = Inr v \<longleftrightarrow>
     0 \<le> idx \<and> nat idx < length (conveyors c) \<and> v = conveyors c ! nat idx"
  by (auto simp: Connector_GetConveyorByIdx_def)

lemma connector_new_ok: "cap < 2 ^ 32 \<Longrightarrow> connector_ok (Connector_new n cap)"
  by (auto simp: connector_ok_def Connector_new_def conveyor_ok_def Conveyor_new_def)

lemma connector_ok_upd:
  assumes "connector_ok c" and "conveyor_ok v" and "max_size v = conveyor_capacity c"
  shows "connector_ok (c\<lparr>conveyors := (conveyors c)[i := v]\<rparr>)"
  using assms set_update_subset_insert [of "conveyors c" i v]
  by (auto simp: connector_ok_def)

lemma Push_connector_ok:
  assumes "connector_ok c" and "Connector_PushDataBufferToConveyor c idx x = Inr (r, c')"
  shows "connector_ok c'"
proof -
  obtain v v' where v: "Connector_GetConveyorByIdx c idx = Inr v"
    and p: "Conveyor_PushDataBuffer v x = (r, v')"
    and c': "c' = c\<lparr>conveyors := (conveyors c)[nat idx := v']\<rparr>"
    using assms(2) by (auto simp: Connector_PushDataBufferToConveyor_def split: sum.splits prod.splits)
  have mem: "v \<in> set (conveyors c)" using v by (auto simp: GetConveyorByIdx_Inr)
  then have "conveyor_ok v" "max_size v = conveyor_capacity c"
    using assms(1) by (auto simp: connector_ok_def)
  then have "conveyor_ok v'" "max_size v' = conveyor_capacity c"
    using p cvr.enq_ok [of v x] cvr.enq_capacity [of v x] by auto
  with assms(1) c' show ?thesis by (auto intro: connector_ok_upd)
qed

text \<open>On a well-formed connector \<^verbatim>\<open>IsConveyorFull\<close> tells exactly whether a push is refused.\<close>

lemma IsConveyorFull_iff:
  assumes "connector_ok c" and "Connector_IsConveyorFull c idx = Inr full"
    and "Connector_PushDataBufferToConveyor c idx x = Inr (acc, c')"
  shows "full \<longleftrightarrow> \<not> acc"
proof -
  obtain v where v: "Connector_GetConveyorByIdx c idx = Inr v"
    and full: "full \<longleftrightarrow> unat (Conveyor_GetBufferSize v) \<ge> conveyor_capacity c"
    using assms(2) by (auto simp: Connector_IsConveyorFull_def map_sum_def split: sum.splits)
  have acc: "acc = fst (Conveyor_PushDataBuffer v x)"
    using assms(3) v by (auto simp: Connector_PushDataBufferToConveyor_def split: prod.splits)
  have "v \<in> set (conveyors c)" using v by (auto simp: GetConveyorByIdx_Inr)
  then have ok: "conveyor_ok v" and cap: "max_size v = conveyor_capacity c"
    "conveyor_capacity c < 2 ^ 32"
    using assms(1) by (auto simp: connector_ok_def)
  then have "length (dataq v) < 2 ^ 32" by (auto simp: conveyor_ok_def)
  then have "unat (Conveyor_GetBufferSize v) = length (dataq v)"
    by (simp add: Conveyor_GetBufferSize_def unat_of_nat)
  with full acc cap ok show ?thesis by (auto simp: conveyor_defs split: if_splits)
qed

lemma fold_clear_conveyors:
  "n \<le> length (conveyors c) \<Longrightarrow>
   fold (\<lambda>i c. c\<lparr>conveyors := (conveyors c)
              [i := snd (Conveyor_PopAllDataBuffer (conveyors c ! i))]\<rparr>) [0..<n] c =
   c\<lparr>conveyors := map (\<lambda>v. v\<lparr>dataq := []\<rparr>) (take n (conveyors c)) @ drop n (conveyors c)\<rparr>"
proof (induction n)
  case (Suc n)
  let ?cs = "conveyors c"
  have split: "drop n ?cs = ?cs ! n # drop (Suc n) ?cs"
    using Suc.prems by (simp add: Cons_nth_drop_Suc)
  have nth: "(map (\<lambda>v. v\<lparr>dataq := []\<rparr>) (take n ?cs) @ drop n ?cs) ! n = ?cs ! n"
    using Suc.prems by (simp add: nth_append)
  show ?case
    using Suc nth
    by (simp add: PopAllDataBuffer_eq split list_update_append take_Suc_conv_app_nth)
qed simp

lemma EmptyDataQueue_eq:
  "Connector_EmptyDataQueue c = c\<lparr>conveyors := map (\<lambda>v. v\<lparr>dataq := []\<rparr>) (conveyors c)\<rparr>"
  by (simp add: Connector_EmptyDataQueue_def Connector_GetConveyorCount_def fold_clear_conveyors)

lemma EmptyDataQueue_empties:
  "v \<in> set (conveyors (Connector_EmptyDataQueue c)) \<Longrightarrow> dataq v = []"
  by (auto simp: EmptyDataQueue_eq)

subsection \<open>Properties\<close>

text \<open>
  C7. A conveyor is a bounded FIFO: in every interleaving of pushes and pops on a new conveyor,
  the frames accepted are, in order, the frames handed out followed by those still queued, and
  never more than the capacity are queued.
\<close>

theorem conveyor_fifo:
  "case fifo_run Conveyor_PushDataBuffer Conveyor_PopDataBuffer (Conveyor_new n) ops of
     (c, accepted, popped) \<Rightarrow> accepted = popped @ dataq c \<and> length (dataq c) \<le> n"
proof -
  obtain c ins outs where r: "fifo_run Conveyor_PushDataBuffer Conveyor_PopDataBuffer (Conveyor_new n) ops = (c, ins, outs)"
    by (metis prod.exhaust)
  show ?thesis
    using cvr.run_content [OF conveyor_new_ok r] cvr.run_bound [OF conveyor_new_ok, of n ops] r
    by (simp add: Conveyor_new_def)
qed

text \<open>
  The failure counter of a conveyor counts the refused pushes since the last accepted one:
  when the pushes of a list overflow a conveyor, the first ones fill it in order, the others are
  refused and change only the counter, which then equals their number (modulo 2 to the 64).
\<close>

theorem conveyor_fail_time:
  assumes "length (dataq c) + length xs = max_size c" and "xs \<noteq> []"
  shows "dataq (push_many c (xs @ ys)) = dataq c @ xs \<and>
    Conveyor_GetFailTime (push_many c (xs @ ys)) = of_nat (length ys)"
  by (rule push_many_overflow [OF assms])

theorem conveyor_fail_time_witness:
  "dataq (push_many (Conveyor_new 2) [5::nat, 6, 7]) = [5, 6] \<and>
   Conveyor_GetFailTime (push_many (Conveyor_new 2) [5::nat, 6, 7]) = 1"
  using conveyor_fail_time [of "Conveyor_new 2" "[5, 6]" "[7]"] by (simp add: Conveyor_new_def)

end
