(* ===== verification/IdxManager.thy ===== *)
theory IdxManager
  imports Prelude
begin

section \<open>Stream and module indices: IdxManager\<close>

text \<open>
  \<^verbatim>\<open>framework/include/private/unistream_module_pri.hpp\<close> (the class) and
  \<^verbatim>\<open>framework/src/unistream_pipeline.cpp\<close> (its methods).  A pipeline hands every stream an
  index below 128, kept in a map and a bitset, and every module an index below 64, kept as the
  set bits of a 64-bit mask.  Each method holds \<^verbatim>\<open>id_lock\<close>, so it is one atomic function.
\<close>

definition kMaxStreamNum :: nat where "kMaxStreamNum = 128"
definition kInvalidStreamIdx :: u32 where "kInvalidStreamIdx = - 1"
definition kInvalidModuleId :: u64 where "kInvalidModuleId = - 1"

definition GetMaxStreamNumber :: nat where "GetMaxStreamNumber = kMaxStreamNum"
definition GetMaxModuleNumber :: nat where "GetMaxModuleNumber = 8 * 8"

lemmas idx_consts = kMaxStreamNum_def kInvalidStreamIdx_def kInvalidModuleId_def
  GetMaxStreamNumber_def GetMaxModuleNumber_def

record IdxManager =
  stream_idx_map :: "string \<rightharpoonup> u32"
  stream_bitset :: "bool list"
  module_id_mask :: u64

definition IdxManager_new :: IdxManager where
  "IdxManager_new =
     \<lparr>stream_idx_map = Map.empty, stream_bitset = replicate kMaxStreamNum False,
      module_id_mask = 0\<rparr>"

subsection \<open>The four methods\<close>

definition IdxManager_GetStreamIndex :: "IdxManager \<Rightarrow> string \<Rightarrow> u32 \<times> IdxManager" where
  "IdxManager_GetStreamIndex m sid =
     (case stream_idx_map m sid of
        Some i \<Rightarrow> (i, m)
      | None \<Rightarrow>
          (case scan (\<lambda>i. \<not> stream_bitset m ! i) 0 GetMaxStreamNumber of
             Some i \<Rightarrow> (of_nat i, m\<lparr>stream_bitset := (stream_bitset m)[i := True],
                                  stream_idx_map := (stream_idx_map m)(sid \<mapsto> of_nat i)\<rparr>)
           | None \<Rightarrow> (kInvalidStreamIdx, m)))"

definition IdxManager_ReturnStreamIndex :: "IdxManager \<Rightarrow> string \<Rightarrow> IdxManager" where
  "IdxManager_ReturnStreamIndex m sid =
     (case stream_idx_map m sid of
        None \<Rightarrow> m
      | Some i \<Rightarrow>
          (if unat i \<ge> GetMaxStreamNumber then m
           else m\<lparr>stream_bitset := (stream_bitset m)[unat i := False],
                  stream_idx_map := (stream_idx_map m)(sid := None)\<rparr>))"

definition IdxManager_GetModuleIdx :: "IdxManager \<Rightarrow> u64 \<times> IdxManager" where
  "IdxManager_GetModuleIdx m =
     (case scan (\<lambda>i. module_id_mask m AND push_bit i 1 = 0) 0 GetMaxModuleNumber of
        Some i \<Rightarrow> (of_nat i, m\<lparr>module_id_mask := module_id_mask m OR push_bit i 1\<rparr>)
      | None \<Rightarrow> (kInvalidModuleId, m))"

text \<open>
  \<^verbatim>\<open>~(1 << id_)\<close> shifts an \<^verbatim>\<open>int\<close>: a shift by 32 or more is undefined, the complement is
  a 32-bit value, and the \<^verbatim>\<open>&=\<close> converts it to \<^verbatim>\<open>uint64_t\<close> by sign extension.
\<close>

definition int_one_shl :: "nat \<Rightarrow> u32 option" where
  "int_one_shl n = (if n < 32 then Some (push_bit n 1) else None)"

definition IdxManager_ReturnModuleIdx :: "IdxManager \<Rightarrow> u64 \<Rightarrow> IdxManager result" where
  "IdxManager_ReturnModuleIdx m idv =
     (if unat idv \<ge> GetMaxModuleNumber then Inr m
      else (case int_one_shl (unat idv) of
              None \<Rightarrow> Inl UndefinedShift
            | Some b \<Rightarrow> Inr (m\<lparr>module_id_mask := module_id_mask m AND scast (NOT b)\<rparr>)))"

subsection \<open>Stream indices\<close>

text \<open>
  The invariant of the stream side: the map is injective, its values are below 128, and the
  bitset marks exactly the values the map holds.
\<close>

definition stream_inv :: "IdxManager \<Rightarrow> bool" where
  "stream_inv m \<longleftrightarrow> length (stream_bitset m) = kMaxStreamNum \<and>
     inj_on (stream_idx_map m) (dom (stream_idx_map m)) \<and>
     (\<forall>sid i. stream_idx_map m sid = Some i \<longrightarrow> unat i < kMaxStreamNum) \<and>
     (\<forall>n < kMaxStreamNum. stream_bitset m ! n \<longleftrightarrow> (\<exists>sid. stream_idx_map m sid = Some (of_nat n)))"

lemma stream_inv_new: "stream_inv IdxManager_new"
  by (simp add: stream_inv_def IdxManager_new_def)

lemma of_nat_stream_inj:
  "i < kMaxStreamNum \<Longrightarrow> j < kMaxStreamNum \<Longrightarrow> (of_nat i :: u32) = of_nat j \<longleftrightarrow> i = j"
  by (auto simp: kMaxStreamNum_def word_of_nat_eq_iff take_bit_nat_eq_self)

lemma unat_stream_idx: "i < kMaxStreamNum \<Longrightarrow> unat (of_nat i :: u32) = i"
  by (simp add: kMaxStreamNum_def unat_of_nat)

lemma GetStreamIndex_cases:
  assumes "IdxManager_GetStreamIndex m sid = (i, m')"
  obtains (old) "stream_idx_map m sid = Some i" "m' = m"
  | (full) "stream_idx_map m sid = None" "i = kInvalidStreamIdx" "m' = m"
      "\<And>n. n < kMaxStreamNum \<Longrightarrow> stream_bitset m ! n"
  | (fresh) n where "stream_idx_map m sid = None" "n < kMaxStreamNum" "\<not> stream_bitset m ! n"
      "i = of_nat n" "\<And>k. k < n \<Longrightarrow> stream_bitset m ! k"
      "m' = m\<lparr>stream_bitset := (stream_bitset m)[n := True],
              stream_idx_map := (stream_idx_map m)(sid \<mapsto> of_nat n)\<rparr>"
proof (cases "stream_idx_map m sid")
  case (Some j)
  with assms show ?thesis by (intro old) (auto simp: IdxManager_GetStreamIndex_def)
next
  case none: None
  show ?thesis
  proof (cases "scan (\<lambda>i. \<not> stream_bitset m ! i) 0 GetMaxStreamNumber")
    case None
    with assms none have "i = kInvalidStreamIdx" "m' = m"
      by (simp_all add: IdxManager_GetStreamIndex_def)
    with None none show ?thesis
      by (intro full) (simp_all add: scan_None_iff GetMaxStreamNumber_def)
  next
    case (Some n)
    with assms none show ?thesis
      using scan_SomeD [OF Some]
      by (intro fresh [of n]) (auto simp add: IdxManager_GetStreamIndex_def GetMaxStreamNumber_def)
  qed
qed

lemma GetStreamIndex_inv:
  assumes "stream_inv m"
  shows "stream_inv (snd (IdxManager_GetStreamIndex m sid))"
proof -
  obtain i m' where e: "IdxManager_GetStreamIndex m sid = (i, m')" by fastforce
  from e have "stream_inv m'"
  proof (cases rule: GetStreamIndex_cases)
    case (fresh n)
    have "Some (of_nat n) \<notin> range (stream_idx_map m)"
      using assms fresh(2,3) by (auto simp: stream_inv_def image_iff)
    then have "inj_on (stream_idx_map m') (dom (stream_idx_map m'))"
      using assms inj_on_map_upd [of "stream_idx_map m" "of_nat n" sid] fresh(6)
      by (simp add: stream_inv_def)
    moreover have "stream_bitset m' ! k \<longleftrightarrow> (\<exists>s. stream_idx_map m' s = Some (of_nat k))"
      if k: "k < kMaxStreamNum" for k
    proof (cases "k = n")
      case True
      with assms fresh(2,6) show ?thesis by (auto simp: stream_inv_def)
    next
      case False
      then have "(of_nat n :: u32) \<noteq> of_nat k" using of_nat_stream_inj fresh(2) k by blast
      then have "(\<exists>s. stream_idx_map m' s = Some (of_nat k)) \<longleftrightarrow>
          (\<exists>s. stream_idx_map m s = Some (of_nat k))"
        using fresh(1,6) by (auto split: if_splits) (metis option.distinct(1))
      with assms False k fresh(6) show ?thesis by (auto simp: stream_inv_def)
    qed
    ultimately show ?thesis
      using assms fresh(2,6) by (auto simp: stream_inv_def unat_stream_idx)
  qed (use assms in auto)
  with e show ?thesis by simp
qed

lemma ReturnStreamIndex_inv:
  assumes "stream_inv m"
  shows "stream_inv (IdxManager_ReturnStreamIndex m sid)"
proof (cases "stream_idx_map m sid")
  case None
  with assms show ?thesis by (simp add: IdxManager_ReturnStreamIndex_def)
next
  case (Some i)
  then have i: "unat i < kMaxStreamNum" using assms by (auto simp: stream_inv_def)
  let ?m = "IdxManager_ReturnStreamIndex m sid"
  have m: "?m = m\<lparr>stream_bitset := (stream_bitset m)[unat i := False],
      stream_idx_map := (stream_idx_map m)(sid := None)\<rparr>"
    using Some i by (simp add: IdxManager_ReturnStreamIndex_def GetMaxStreamNumber_def)
  have other: "stream_idx_map m s = Some i \<Longrightarrow> s = sid" for s
    using assms Some by (metis (full_types) domI inj_onD stream_inv_def)
  have "stream_bitset ?m ! k \<longleftrightarrow> (\<exists>s. stream_idx_map ?m s = Some (of_nat k))"
    if k: "k < kMaxStreamNum" for k
  proof (cases "k = unat i")
    case True
    have "\<nexists>s. stream_idx_map ?m s = Some i"
      unfolding m using other by (simp add: fun_upd_apply) blast
    moreover have "\<not> stream_bitset ?m ! k"
      unfolding m using True assms k by (simp add: stream_inv_def)
    ultimately show ?thesis using True by simp
  next
    case False
    then have "i \<noteq> of_nat k" using unat_stream_idx [OF k] by auto
    then have "stream_idx_map ?m s = Some (of_nat k) \<longleftrightarrow> stream_idx_map m s = Some (of_nat k)"
      for s
      unfolding m using Some by (cases "s = sid") simp_all
    moreover have "stream_bitset ?m ! k = stream_bitset m ! k" unfolding m using False by simp
    ultimately show ?thesis using assms k by (simp add: stream_inv_def)
  qed
  moreover have "inj_on (stream_idx_map ?m) (dom (stream_idx_map ?m))"
    using assms m inj_on_map_del [of "stream_idx_map m" sid] by (simp add: stream_inv_def)
  moreover have "length (stream_bitset ?m) = kMaxStreamNum"
    using assms m by (simp add: stream_inv_def)
  moreover have "unat j < kMaxStreamNum" if "stream_idx_map ?m s = Some j" for s j
    using that assms m by (auto simp: stream_inv_def split: if_splits)
  ultimately show ?thesis unfolding stream_inv_def by blast
qed

text \<open>Any sequence of calls, as the sources of a pipeline make them.\<close>

datatype stream_call = GetIdx string | ReturnIdx string

fun stream_calls :: "IdxManager \<Rightarrow> stream_call list \<Rightarrow> IdxManager" where
  "stream_calls m [] = m"
| "stream_calls m (GetIdx s # cs) = stream_calls (snd (IdxManager_GetStreamIndex m s)) cs"
| "stream_calls m (ReturnIdx s # cs) = stream_calls (IdxManager_ReturnStreamIndex m s) cs"

lemma stream_calls_inv: "stream_inv m \<Longrightarrow> stream_inv (stream_calls m cs)"
  by (induction m cs rule: stream_calls.induct)
    (auto intro: GetStreamIndex_inv ReturnStreamIndex_inv)

lemma GetStreamIndex_valid_iff:
  assumes "stream_inv m" and "IdxManager_GetStreamIndex m sid = (i, m')"
  shows "unat i < kMaxStreamNum \<longleftrightarrow> stream_idx_map m' sid = Some i"
  using assms(2)
proof (cases rule: GetStreamIndex_cases)
  case old
  with assms(1) show ?thesis by (auto simp: stream_inv_def)
next
  case full
  then show ?thesis by (simp add: idx_consts unsigned_minus_1_eq_mask mask_eq_exp_minus_1)
next
  case (fresh n)
  then show ?thesis by (simp add: unat_stream_idx)
qed

lemma GetStreamIndex_Return:
  assumes "stream_inv m" and "stream_idx_map m sid = None"
    and "IdxManager_GetStreamIndex m sid = (i, m')"
  shows "IdxManager_ReturnStreamIndex m' sid = m"
  using assms(3)
proof (cases rule: GetStreamIndex_cases)
  case old
  with assms(2) show ?thesis by simp
next
  case full
  then show ?thesis by (simp add: IdxManager_ReturnStreamIndex_def)
next
  case (fresh n)
  have "(stream_bitset m)[n := False] = stream_bitset m"
    using fresh(3) by (metis list_update_id)
  moreover have "(stream_idx_map m)(sid := None) = stream_idx_map m" using fresh(1) by auto
  ultimately show ?thesis
    using fresh by (simp add: IdxManager_ReturnStreamIndex_def GetMaxStreamNumber_def unat_stream_idx)
qed

subsection \<open>Module indices\<close>

definition module_alloc :: "IdxManager \<Rightarrow> nat option \<times> IdxManager" where
  "module_alloc m = (case IdxManager_GetModuleIdx m of
     (i, m') \<Rightarrow> (if i = kInvalidModuleId then None else Some (unat i), m'))"

definition module_used :: "IdxManager \<Rightarrow> nat set" where
  "module_used m = {i. bit (module_id_mask m) i}"

lemma module_used_limit: "module_used m \<subseteq> {..<64}"
  by (auto simp: module_used_def dest: bit_imp_le_length)

lemma free_module_bit: "i < 64 \<Longrightarrow> (w :: u64) AND push_bit i 1 = 0 \<longleftrightarrow> \<not> bit w i"
  by (simp add: and_exp_eq_0_iff_not_bit)

lemma unat_module_idx: "i < 64 \<Longrightarrow> unat (of_nat i :: u64) = i"
  by (simp add: unat_of_nat)

lemma module_idx_valid: "i < 64 \<Longrightarrow> (of_nat i :: u64) \<noteq> kInvalidModuleId"
  using unat_module_idx [of i]
  by (auto simp: kInvalidModuleId_def unsigned_minus_1_eq_mask mask_eq_exp_minus_1)

lemma GetModuleIdx_cases:
  assumes "IdxManager_GetModuleIdx m = (i, m')"
  obtains (full) "i = kInvalidModuleId" "m' = m" "{..<64} \<subseteq> module_used m"
  | (fresh) n where "n < 64" "i = of_nat n" "\<not> bit (module_id_mask m) n"
      "\<And>k. k < n \<Longrightarrow> bit (module_id_mask m) k"
      "m' = m\<lparr>module_id_mask := module_id_mask m OR 2 ^ n\<rparr>"
proof (cases "scan (\<lambda>i. module_id_mask m AND push_bit i 1 = 0) 0 GetMaxModuleNumber")
  case None
  with assms have "i = kInvalidModuleId" "m' = m"
    by (simp_all add: IdxManager_GetModuleIdx_def)
  with None show ?thesis
    by (intro full) (auto simp: scan_None_iff GetMaxModuleNumber_def module_used_def
        and_exp_eq_0_iff_not_bit)
next
  case (Some n)
  then show ?thesis
    using assms scan_SomeD [OF Some]
    by (intro fresh [of n])
      (auto simp: IdxManager_GetModuleIdx_def GetMaxModuleNumber_def and_exp_eq_0_iff_not_bit)
qed

lemma module_used_set:
  "n < 64 \<Longrightarrow> module_used (m\<lparr>module_id_mask := module_id_mask m OR 2 ^ n\<rparr>) = insert n (module_used m)"
  by (auto simp: module_used_def bit_or_one_shl)

interpretation modules: slot_alloc module_alloc module_used 64 "\<lambda>_. True"
proof (unfold_locales, goal_cases)
  case (1 s i s')
  obtain w m' where e: "IdxManager_GetModuleIdx s = (w, m')" by fastforce
  with 1 have i: "w \<noteq> kInvalidModuleId" "i = unat w" "s' = m'"
    by (auto simp: module_alloc_def split: if_splits)
  from e show ?case
  proof (cases rule: GetModuleIdx_cases)
    case (fresh n)
    with i show ?thesis
      using module_used_set [of n s] by (simp add: unat_module_idx) (simp add: module_used_def)
  qed (use i in simp)
next
  case (2 s s')
  obtain w m' where e: "IdxManager_GetModuleIdx s = (w, m')" by fastforce
  with 2 have i: "w = kInvalidModuleId" "s' = m'"
    by (auto simp: module_alloc_def split: if_splits)
  from e show ?case
  proof (cases rule: GetModuleIdx_cases)
    case (fresh n)
    with i module_idx_valid [of n] show ?thesis by simp
  qed (use i in simp)
next
  case (4 s)
  show ?case by (rule module_used_limit)
qed simp

text \<open>
  Returning an index below 31 frees exactly that index.  At 31 the sign extension is lost and
  every index from 31 up is freed; from 32 on the shift is undefined.
\<close>

lemma bit_scast_not_one_shl:
  assumes "n < 32" and "k < 64"
  shows "bit (scast (NOT (2 ^ n :: u32)) :: u64) k \<longleftrightarrow> (if n = 31 then k < 31 else k \<noteq> n)"
  using assms by (auto simp: bit_simps min_def)

lemma ReturnModuleIdx_low:
  assumes "n < 31"
  shows "\<exists>m'. IdxManager_ReturnModuleIdx m (of_nat n) = Inr m' \<and>
    module_used m' = module_used m - {n} \<and>
    stream_idx_map m' = stream_idx_map m \<and> stream_bitset m' = stream_bitset m"
proof -
  have n: "unat (of_nat n :: u64) = n" using assms by (simp add: unat_of_nat)
  let ?m = "m\<lparr>module_id_mask := module_id_mask m AND scast (NOT (2 ^ n :: u32))\<rparr>"
  have "IdxManager_ReturnModuleIdx m (of_nat n) = Inr ?m"
    using assms n by (simp add: IdxManager_ReturnModuleIdx_def int_one_shl_def GetMaxModuleNumber_def)
  moreover have "module_used ?m = module_used m - {n}"
  proof (rule set_eqI)
    fix k
    show "k \<in> module_used ?m \<longleftrightarrow> k \<in> module_used m - {n}"
      using assms bit_scast_not_one_shl [of n k] bit_imp_le_length [of "module_id_mask m" k]
      by (auto simp: module_used_def bit_and_iff)
  qed
  ultimately show ?thesis by (intro exI [of _ ?m]) simp
qed

lemma ReturnModuleIdx_31:
  "\<exists>m'. IdxManager_ReturnModuleIdx m 31 = Inr m' \<and> module_used m' = module_used m \<inter> {..<31}"
proof -
  let ?m = "m\<lparr>module_id_mask := module_id_mask m AND scast (NOT (2 ^ 31 :: u32))\<rparr>"
  have "IdxManager_ReturnModuleIdx m 31 = Inr ?m"
    by (simp add: IdxManager_ReturnModuleIdx_def int_one_shl_def GetMaxModuleNumber_def)
  moreover have "module_used ?m = module_used m \<inter> {..<31}"
  proof (rule set_eqI)
    fix k
    show "k \<in> module_used ?m \<longleftrightarrow> k \<in> module_used m \<inter> {..<31}"
      using bit_scast_not_one_shl [of 31 k] bit_imp_le_length [of "module_id_mask m" k]
      by (auto simp: module_used_def bit_and_iff)
  qed
  ultimately show ?thesis by (intro exI [of _ ?m]) simp
qed

lemma ReturnModuleIdx_high:
  assumes "32 \<le> n" and "n < 64"
  shows "IdxManager_ReturnModuleIdx m (of_nat n) = Inl UndefinedShift"
  using assms
  by (simp add: IdxManager_ReturnModuleIdx_def int_one_shl_def GetMaxModuleNumber_def unat_of_nat)

subsection \<open>Properties\<close>

text \<open>
  C8. Stream indices: after any sequence of requests and returns the indices in use are distinct
  and below 128, the bitset marks exactly those, and a further request gives an index below 128
  exactly when the stream then owns that index (otherwise all 128 are taken and it is refused).
\<close>

theorem stream_indices_valid:
  "case IdxManager_GetStreamIndex (stream_calls IdxManager_new cs) sid of
     (i, m') \<Rightarrow> stream_inv m' \<and> (unat i < kMaxStreamNum \<longleftrightarrow> stream_idx_map m' sid = Some i)"
proof -
  let ?m = "stream_calls IdxManager_new cs"
  have inv: "stream_inv ?m" by (rule stream_calls_inv [OF stream_inv_new])
  obtain i m' where g: "IdxManager_GetStreamIndex ?m sid = (i, m')" by fastforce
  show ?thesis
    using GetStreamIndex_valid_iff [OF inv g] GetStreamIndex_inv [OF inv, of sid] g by simp
qed

text \<open>
  Requesting an index for a new stream and returning it restores the manager, whether or not
  an index was left.
\<close>

theorem stream_index_roundtrip:
  assumes "stream_inv m" and "stream_idx_map m sid = None"
  shows "IdxManager_ReturnStreamIndex (snd (IdxManager_GetStreamIndex m sid)) sid = m"
  by (cases "IdxManager_GetStreamIndex m sid") (simp add: GetStreamIndex_Return [OF assms])

theorem stream_index_roundtrip_witness:
  "IdxManager_ReturnStreamIndex (snd (IdxManager_GetStreamIndex IdxManager_new ''cam'')) ''cam'' = IdxManager_new"
  by (rule stream_index_roundtrip [OF stream_inv_new]) (simp add: IdxManager_new_def)

text \<open>
  Returning a module index frees exactly that index as long as it is below 31; returning index
  31 frees every index from 31 to 63 (the complement of a 32-bit shift is sign-extended), and
  returning an index from 32 to 63 is an undefined shift.
\<close>

lemma return_module_index:
  "(n < 31 \<longrightarrow> (\<exists>m'. IdxManager_ReturnModuleIdx m (of_nat n) = Inr m' \<and> module_used m' = module_used m - {n})) \<and>
   (\<exists>m'. IdxManager_ReturnModuleIdx m 31 = Inr m' \<and> module_used m' = module_used m \<inter> {..<31}) \<and>
   (32 \<le> n \<and> n < 64 \<longrightarrow> IdxManager_ReturnModuleIdx m (of_nat n) = Inl UndefinedShift)"
  using ReturnModuleIdx_low [of n m] ReturnModuleIdx_31 [of m] ReturnModuleIdx_high [of n m] by blast

lemma return_module_index_witness:
  "(\<exists>m'. IdxManager_ReturnModuleIdx (IdxManager_new\<lparr>module_id_mask := - 1\<rparr>) 31 = Inr m' \<and>
     module_used m' = {..<31}) \<and>
   IdxManager_ReturnModuleIdx IdxManager_new 40 = Inl UndefinedShift"
proof -
  have "module_used (IdxManager_new\<lparr>module_id_mask := - 1\<rparr>) \<inter> {..<31} = {..<31}"
    by (auto simp: module_used_def bit_minus_1_iff)
  with return_module_index [of 40 "IdxManager_new\<lparr>module_id_mask := - 1\<rparr>"] return_module_index [of 40 IdxManager_new]
  show ?thesis by simp
qed

end
