(* ===== verification/Dag.thy ===== *)
theory Dag
  imports Prelude
begin

section \<open>The DAG of a pipeline: DAGAlgorithm\<close>

text \<open>
  \<^verbatim>\<open>framework/src/unistream_graph.hpp\<close> (class \<^verbatim>\<open>DAGAlgorithm\<close>) and
  \<^verbatim>\<open>framework/src/unistream_graph.cpp\<close>.  A vertex is the index \<^verbatim>\<open>AddVertex\<close> returned, so a
  natural number; an ordered \<^verbatim>\<open>std::set<int>\<close> of successors is a sorted list; in-degrees are
  C++ \<^verbatim>\<open>int\<close>s because \<^verbatim>\<open>TopoSort\<close> stores -1 for a removed vertex.
\<close>

record DAGAlgorithm =
  edges :: "nat list list"
  indegrees :: "int list"

definition DAG_empty :: DAGAlgorithm where
  "DAG_empty = \<lparr>edges = [], indegrees = []\<rparr>"

definition DAG_AddVertex :: "DAGAlgorithm \<Rightarrow> nat \<times> DAGAlgorithm" where
  "DAG_AddVertex d = (length (edges d), \<lparr>edges = edges d @ [[]], indegrees = indegrees d @ [0]\<rparr>)"

definition DAG_AddEdge :: "DAGAlgorithm \<Rightarrow> nat \<Rightarrow> nat \<Rightarrow> bool \<times> DAGAlgorithm" where
  "DAG_AddEdge d a b =
     (let n = length (edges d)
      in if a \<ge> n \<or> b \<ge> n then (False, d)
         else if b \<in> set (edges d ! a) then (False, d)
         else (True, d\<lparr>edges := (edges d)[a := insort b (edges d ! a)],
                       indegrees := (indegrees d)[b := indegrees d ! b + 1]\<rparr>))"

definition DAG_GetIndegree :: "DAGAlgorithm \<Rightarrow> nat \<Rightarrow> int" where
  "DAG_GetIndegree d v = (if length (indegrees d) > v then indegrees d ! v else - 1)"

definition DAG_GetOutdegree :: "DAGAlgorithm \<Rightarrow> nat \<Rightarrow> int" where
  "DAG_GetOutdegree d v = (if length (edges d) > v then int (length (edges d ! v)) else - 1)"

definition DAG_GetHeads :: "DAGAlgorithm \<Rightarrow> nat list" where
  "DAG_GetHeads d = filter (\<lambda>v. 0 = DAG_GetIndegree d v) [0..<length (edges d)]"

definition DAG_GetTails :: "DAGAlgorithm \<Rightarrow> nat list" where
  "DAG_GetTails d = filter (\<lambda>v. 0 = DAG_GetOutdegree d v) [0..<length (edges d)]"

subsection \<open>Well-formed graphs\<close>

definition edge_rel :: "DAGAlgorithm \<Rightarrow> (nat \<times> nat) set" where
  "edge_rel d = {(u, v). u < length (edges d) \<and> v \<in> set (edges d ! u)}"

definition preds :: "DAGAlgorithm \<Rightarrow> nat \<Rightarrow> nat set" where
  "preds d v = {u. (u, v) \<in> edge_rel d}"

definition dag_wf :: "DAGAlgorithm \<Rightarrow> bool" where
  "dag_wf d \<longleftrightarrow> length (indegrees d) = length (edges d) \<and>
     (\<forall>u < length (edges d). sorted (edges d ! u) \<and> distinct (edges d ! u) \<and>
        set (edges d ! u) \<subseteq> {..<length (edges d)}) \<and>
     (\<forall>v < length (edges d). indegrees d ! v = int (card (preds d v)))"

lemma preds_subset: "preds d v \<subseteq> {..<length (edges d)}"
  by (auto simp: preds_def edge_rel_def)

lemma finite_preds [simp]: "finite (preds d v)"
  by (rule finite_subset [OF preds_subset]) simp

lemma edge_rel_bounds:
  "dag_wf d \<Longrightarrow> (u, v) \<in> edge_rel d \<Longrightarrow> u < length (edges d) \<and> v < length (edges d)"
  by (auto simp: edge_rel_def dag_wf_def)

lemma finite_edge_rel: "dag_wf d \<Longrightarrow> finite (edge_rel d)"
  by (rule finite_subset [of _ "{..<length (edges d)} \<times> {..<length (edges d)}"])
    (auto dest: edge_rel_bounds)

lemma dag_wf_empty: "dag_wf DAG_empty"
  by (simp add: dag_wf_def DAG_empty_def)

lemma edge_rel_AddVertex: "edge_rel (snd (DAG_AddVertex d)) = edge_rel d"
  by (auto simp: edge_rel_def DAG_AddVertex_def nth_append less_Suc_eq)

lemma dag_wf_AddVertex:
  assumes "dag_wf d"
  shows "dag_wf (snd (DAG_AddVertex d))"
proof -
  let ?d = "snd (DAG_AddVertex d)"
  have p: "preds ?d v = preds d v" for v
    by (simp add: preds_def edge_rel_AddVertex)
  have len: "length (edges ?d) = Suc (length (edges d))" by (simp add: DAG_AddVertex_def)
  have "preds d (length (edges d)) = {}"
    using assms edge_rel_bounds by (auto simp: preds_def)
  then have "indegrees ?d ! v = int (card (preds ?d v))" if "v < length (edges ?d)" for v
    using assms that unfolding p len
    by (auto simp: DAG_AddVertex_def nth_append dag_wf_def less_Suc_eq)
  moreover have "sorted (edges ?d ! u) \<and> distinct (edges ?d ! u) \<and>
      set (edges ?d ! u) \<subseteq> {..<length (edges ?d)}" if "u < length (edges ?d)" for u
    using assms that unfolding len
    by (fastforce simp: DAG_AddVertex_def nth_append dag_wf_def less_Suc_eq)
  moreover have "length (indegrees ?d) = length (edges ?d)"
    using assms by (simp add: DAG_AddVertex_def dag_wf_def)
  ultimately show ?thesis by (auto simp: dag_wf_def)
qed

lemma edge_rel_AddEdge:
  "fst (DAG_AddEdge d a b) \<Longrightarrow> edge_rel (snd (DAG_AddEdge d a b)) = insert (a, b) (edge_rel d)"
  by (auto simp: edge_rel_def DAG_AddEdge_def Let_def nth_list_update set_insort_key
      split: if_splits)

lemma AddEdge_False: "\<not> fst (DAG_AddEdge d a b) \<Longrightarrow> snd (DAG_AddEdge d a b) = d"
  by (auto simp: DAG_AddEdge_def Let_def split: if_splits)

lemma AddEdge_iff:
  "fst (DAG_AddEdge d a b) \<longleftrightarrow>
     a < length (edges d) \<and> b < length (edges d) \<and> (a, b) \<notin> edge_rel d"
  by (auto simp: DAG_AddEdge_def Let_def edge_rel_def)

lemma dag_wf_AddEdge:
  assumes "dag_wf d"
  shows "dag_wf (snd (DAG_AddEdge d a b))"
proof (cases "fst (DAG_AddEdge d a b)")
  case False
  with assms show ?thesis by (simp add: AddEdge_False)
next
  case True
  let ?d = "snd (DAG_AddEdge d a b)"
  have ab: "a < length (edges d)" "b < length (edges d)" "(a, b) \<notin> edge_rel d"
    using True by (auto simp: AddEdge_iff)
  have d: "?d = d\<lparr>edges := (edges d)[a := insort b (edges d ! a)],
                  indegrees := (indegrees d)[b := indegrees d ! b + 1]\<rparr>"
    using ab by (auto simp: DAG_AddEdge_def Let_def edge_rel_def)
  have len: "length (edges ?d) = length (edges d)" using d by simp
  have p: "preds ?d v = (if v = b then insert a (preds d v) else preds d v)" for v
    using edge_rel_AddEdge [OF True] by (auto simp: preds_def)
  have "a \<notin> preds d b" using ab by (simp add: preds_def)
  then have "int (card (insert a (preds d b))) = int (card (preds d b)) + 1" by simp
  then have "indegrees ?d ! v = int (card (preds ?d v))" if "v < length (edges d)" for v
    using assms that ab unfolding p by (auto simp: d dag_wf_def)
  moreover have "sorted (edges ?d ! u) \<and> distinct (edges ?d ! u) \<and>
      set (edges ?d ! u) \<subseteq> {..<length (edges d)}" if "u < length (edges d)" for u
    using assms that ab
    by (auto simp: d dag_wf_def nth_list_update set_insort_key sorted_insort distinct_insort
        edge_rel_def)
  moreover have "length (indegrees ?d) = length (edges d)"
    using assms by (simp add: d dag_wf_def)
  ultimately show ?thesis unfolding dag_wf_def len by blast
qed

text \<open>Graphs as the callers build them.\<close>

datatype dag_call = AddVertexCall | AddEdgeCall nat nat

fun dag_build :: "DAGAlgorithm \<Rightarrow> dag_call list \<Rightarrow> DAGAlgorithm" where
  "dag_build d [] = d"
| "dag_build d (AddVertexCall # cs) = dag_build (snd (DAG_AddVertex d)) cs"
| "dag_build d (AddEdgeCall a b # cs) = dag_build (snd (DAG_AddEdge d a b)) cs"

lemma dag_build_wf: "dag_wf d \<Longrightarrow> dag_wf (dag_build d cs)"
  by (induction d cs rule: dag_build.induct) (auto intro: dag_wf_AddVertex dag_wf_AddEdge)

lemma set_GetHeads: "dag_wf d \<Longrightarrow> set (DAG_GetHeads d) = {v. v < length (edges d) \<and> preds d v = {}}"
  by (auto simp: DAG_GetHeads_def DAG_GetIndegree_def dag_wf_def)

lemma set_GetTails:
  "set (DAG_GetTails d) = {u. u < length (edges d) \<and> (\<forall>v. (u, v) \<notin> edge_rel d)}"
  by (auto simp: DAG_GetTails_def DAG_GetOutdegree_def edge_rel_def)

subsection \<open>Topological sort\<close>

text \<open>The inner loop: \<^verbatim>\<open>for (auto end_vertex : edges_[v]) indegrees[end_vertex]--;\<close>\<close>

fun dec_all :: "int list \<Rightarrow> nat list \<Rightarrow> int list" where
  "dec_all ind [] = ind"
| "dec_all ind (w # ws) = dec_all (ind[w := ind ! w - 1]) ws"

text \<open>One iteration of the \<^verbatim>\<open>for\<close> loop, one run of it, and the \<^verbatim>\<open>while\<close> around it.\<close>

definition topo_visit ::
  "DAGAlgorithm \<Rightarrow> nat \<Rightarrow> nat list \<times> int list \<times> bool \<Rightarrow> nat list \<times> int list \<times> bool" where
  "topo_visit d v st =
     (case st of (srt, ind, removed) \<Rightarrow>
        if 0 = ind ! v then (srt @ [v], (dec_all ind (edges d ! v))[v := - 1], True) else st)"

definition topo_pass ::
  "DAGAlgorithm \<Rightarrow> nat list \<Rightarrow> int list \<Rightarrow> nat list \<times> int list \<times> bool" where
  "topo_pass d srt ind = fold (topo_visit d) [0..<length ind] (srt, ind, False)"

definition nonneg :: "int list \<Rightarrow> nat set" where
  "nonneg ind = {i. i < length ind \<and> 0 \<le> ind ! i}"

lemma finite_nonneg [simp]: "finite (nonneg ind)"
  by (simp add: nonneg_def)

lemma length_dec_all [simp]: "length (dec_all ind ws) = length ind"
  by (induction ind ws rule: dec_all.induct) auto

lemma dec_all_le: "dec_all ind ws ! i \<le> ind ! i"
proof (induction ind ws rule: dec_all.induct)
  case (2 ind w ws)
  have "ind[w := ind ! w - 1] ! i \<le> ind ! i"
    by (cases "w < length ind"; cases "w = i") (auto simp: list_update_beyond)
  with 2 show ?case by simp
qed simp

lemma length_topo_visit [simp]: "length (fst (snd (topo_visit d v st))) = length (fst (snd st))"
  by (auto simp: topo_visit_def split: prod.splits)

lemma topo_visit_nonneg:
  assumes "v < length (fst (snd st))" and "topo_visit d v st = (srt', ind', r')"
  shows "nonneg ind' \<subseteq> nonneg (fst (snd st)) \<and>
    (r' \<longrightarrow> snd (snd st) \<or> nonneg ind' \<noteq> nonneg (fst (snd st)))"
proof -
  obtain srt ind r where st: "st = (srt, ind, r)" by (metis prod.exhaust)
  show ?thesis
  proof (cases "0 = ind ! v")
    case False
    with assms st show ?thesis by (auto simp: topo_visit_def)
  next
    case True
    then have ind': "ind' = (dec_all ind (edges d ! v))[v := - 1]"
      using assms st by (auto simp: topo_visit_def)
    have v: "v < length ind" using assms(1) st by simp
    have "nonneg ind' \<subseteq> nonneg ind"
    proof
      fix i assume "i \<in> nonneg ind'"
      then have "i \<noteq> v" "i < length ind" "0 \<le> dec_all ind (edges d ! v) ! i"
        using v by (auto simp: ind' nonneg_def nth_list_update split: if_splits)
      with dec_all_le [of ind "edges d ! v" i] show "i \<in> nonneg ind" by (simp add: nonneg_def)
    qed
    moreover have "v \<in> nonneg ind" using assms(1) st True by (simp add: nonneg_def)
    moreover have "v \<notin> nonneg ind'" using assms(1) st by (simp add: ind' nonneg_def)
    ultimately show ?thesis using st by auto
  qed
qed

lemma topo_fold_nonneg:
  assumes "set vs \<subseteq> {..<length (fst (snd st))}" and "fold (topo_visit d) vs st = (srt', ind', r')"
  shows "nonneg ind' \<subseteq> nonneg (fst (snd st)) \<and> length ind' = length (fst (snd st)) \<and>
    (r' \<longrightarrow> snd (snd st) \<or> nonneg ind' \<noteq> nonneg (fst (snd st)))"
  using assms
proof (induction vs arbitrary: st)
  case (Cons v vs)
  obtain srt1 ind1 r1 where s1: "topo_visit d v st = (srt1, ind1, r1)" by (metis prod.exhaust)
  have len: "length ind1 = length (fst (snd st))" using length_topo_visit [of d v st] s1 by simp
  have a: "nonneg ind1 \<subseteq> nonneg (fst (snd st)) \<and>
      (r1 \<longrightarrow> snd (snd st) \<or> nonneg ind1 \<noteq> nonneg (fst (snd st)))"
    using topo_visit_nonneg [OF _ s1] Cons.prems(1) by simp
  have b: "nonneg ind' \<subseteq> nonneg ind1 \<and> length ind' = length ind1 \<and>
      (r' \<longrightarrow> r1 \<or> nonneg ind' \<noteq> nonneg ind1)"
    using Cons.IH [of "(srt1, ind1, r1)"] Cons.prems s1 len by simp
  from a b len show ?case by auto
qed simp

lemma topo_pass_nonneg:
  assumes "(srt', ind', True) = topo_pass d srt ind"
  shows "card (nonneg ind') < card (nonneg ind)"
proof -
  from assms have "fold (topo_visit d) [0..<length ind] (srt, ind, False) = (srt', ind', True)"
    by (simp add: topo_pass_def)
  from topo_fold_nonneg [OF _ this] have "nonneg ind' \<subset> nonneg ind"
    by (simp add: atLeast0LessThan psubset_eq)
  then show ?thesis by (simp add: psubset_card_mono)
qed

function topo_loop :: "DAGAlgorithm \<Rightarrow> nat list \<Rightarrow> int list \<Rightarrow> nat list \<times> int list" where
  "topo_loop d srt ind =
     (case topo_pass d srt ind of (srt', ind', removed) \<Rightarrow>
        if removed then topo_loop d srt' ind' else (srt', ind'))"
  by pat_completeness auto
termination
  by (relation "measure (\<lambda>(d, srt, ind). card (nonneg ind))") (auto intro: topo_pass_nonneg)

declare topo_loop.simps [simp del]

definition DAG_TopoSort :: "DAGAlgorithm \<Rightarrow> nat list \<times> nat list" where
  "DAG_TopoSort d =
     (case topo_loop d [] (indegrees d) of
        (srt, ind) \<Rightarrow> (srt, filter (\<lambda>v. - 1 \<noteq> ind ! v) [0..<length ind]))"

end
