(* ===== verification/DagTopo.thy ===== *)
theory DagTopo
  imports Dag
begin

section \<open>Correctness of DAGAlgorithm::TopoSort\<close>

text \<open>
  The loop invariant: the sorted part is duplicate free and closed under predecessors of each
  of its prefixes, and the working in-degree of a vertex is -1 when it is sorted and otherwise
  the number of its predecessors that are not sorted yet.
\<close>

definition open_preds :: "DAGAlgorithm \<Rightarrow> nat set \<Rightarrow> nat \<Rightarrow> nat set" where
  "open_preds d S v = preds d v - S"

definition topo_inv :: "DAGAlgorithm \<Rightarrow> nat list \<Rightarrow> int list \<Rightarrow> bool" where
  "topo_inv d srt ind \<longleftrightarrow> distinct srt \<and> set srt \<subseteq> {..<length (edges d)} \<and>
     length ind = length (edges d) \<and>
     (\<forall>i < length srt. preds d (srt ! i) \<subseteq> set (take i srt)) \<and>
     (\<forall>v < length (edges d).
        ind ! v = (if v \<in> set srt then - 1 else int (card (open_preds d (set srt) v))))"

lemma topo_inv_init: "dag_wf d \<Longrightarrow> topo_inv d [] (indegrees d)"
  by (simp add: topo_inv_def dag_wf_def open_preds_def)

lemma topo_inv_preds:
  assumes "topo_inv d srt ind" and "v \<in> set srt"
  shows "preds d v \<subseteq> set srt"
proof -
  from assms(2) obtain i where i: "i < length srt" "v = srt ! i" by (auto simp: in_set_conv_nth)
  then have "preds d v \<subseteq> set (take i srt)" using assms(1) by (auto simp: topo_inv_def)
  then show ?thesis by (meson order_trans set_take_subset)
qed

lemma dec_all_nth:
  "distinct ws \<Longrightarrow> set ws \<subseteq> {..<length ind} \<Longrightarrow>
   dec_all ind ws ! i = ind ! i - (if i \<in> set ws then 1 else 0)"
proof (induction ind ws rule: dec_all.induct)
  case (2 ind w ws)
  then show ?case by (cases "i = w") auto
qed simp

lemma topo_visit_inv:
  assumes wf: "dag_wf d" and inv: "topo_inv d srt ind" and v: "v < length (edges d)"
    and vis: "topo_visit d v (srt, ind, r) = (srt', ind', r')"
  shows "topo_inv d srt' ind' \<and> (\<not> r' \<longrightarrow> \<not> r \<and> srt' = srt \<and> ind' = ind \<and> ind ! v \<noteq> 0)"
proof (cases "0 = ind ! v")
  case False
  with inv vis show ?thesis by (auto simp: topo_visit_def)
next
  case True
  then have eqs: "srt' = srt @ [v]" "ind' = (dec_all ind (edges d ! v))[v := - 1]" "r'"
    using vis by (auto simp: topo_visit_def)
  have len: "length ind = length (edges d)" using inv by (simp add: topo_inv_def)
  have unsorted: "v \<notin> set srt" using True v inv by (auto simp: topo_inv_def)
  then have op: "open_preds d (set srt) v = {}"
    using True v inv by (auto simp: topo_inv_def open_preds_def)
  then have closed: "preds d v \<subseteq> set srt" by (auto simp: open_preds_def)
  have Ev: "distinct (edges d ! v)" "set (edges d ! v) \<subseteq> {..<length ind}"
    using wf v len by (auto simp: dag_wf_def)
  have val: "ind' ! w = (if w \<in> set srt' then - 1 else int (card (open_preds d (set srt') w)))"
    if w: "w < length (edges d)" for w
  proof (cases "w = v")
    case True
    then show ?thesis using v len eqs by simp
  next
    case False
    then have i: "ind' ! w = ind ! w - (if w \<in> set (edges d ! v) then 1 else 0)"
      using eqs dec_all_nth [OF Ev] by simp
    have edge: "w \<in> set (edges d ! v) \<longleftrightarrow> v \<in> preds d w"
      using v by (simp add: preds_def edge_rel_def)
    show ?thesis
    proof (cases "w \<in> set srt")
      case True
      then have "v \<notin> preds d w" using topo_inv_preds [OF inv True] unsorted by blast
      with True i edge w inv eqs False show ?thesis by (auto simp: topo_inv_def)
    next
      case nw: False
      have "open_preds d (set srt') w = open_preds d (set srt) w - {v}"
        using eqs by (auto simp: open_preds_def)
      moreover have "v \<in> open_preds d (set srt) w \<longleftrightarrow> v \<in> preds d w"
        using unsorted by (auto simp: open_preds_def)
      moreover have "finite (open_preds d (set srt) w)" by (simp add: open_preds_def)
      ultimately have "int (card (open_preds d (set srt') w)) =
          int (card (open_preds d (set srt) w)) - (if v \<in> preds d w then 1 else 0)"
        by (simp add: int_card_remove)
      with nw i edge w inv eqs False show ?thesis by (auto simp: topo_inv_def)
    qed
  qed
  have "\<forall>i < length srt'. preds d (srt' ! i) \<subseteq> set (take i srt')"
    using inv closed eqs by (auto simp: topo_inv_def nth_append less_Suc_eq)
  then have "topo_inv d srt' ind'"
    using inv unsorted v val eqs len by (auto simp: topo_inv_def)
  with eqs show ?thesis by simp
qed

lemma topo_fold_inv:
  assumes "dag_wf d" and "topo_inv d srt ind" and "set vs \<subseteq> {..<length (edges d)}"
    and "fold (topo_visit d) vs (srt, ind, r) = (srt', ind', r')"
  shows "topo_inv d srt' ind' \<and>
    (\<not> r' \<longrightarrow> \<not> r \<and> srt' = srt \<and> ind' = ind \<and> (\<forall>v \<in> set vs. ind ! v \<noteq> 0))"
  using assms(2-)
proof (induction vs arbitrary: srt ind r)
  case (Cons v vs)
  obtain srt1 ind1 r1 where s1: "topo_visit d v (srt, ind, r) = (srt1, ind1, r1)"
    by (metis prod.exhaust)
  have a: "topo_inv d srt1 ind1 \<and> (\<not> r1 \<longrightarrow> \<not> r \<and> srt1 = srt \<and> ind1 = ind \<and> ind ! v \<noteq> 0)"
    using topo_visit_inv [OF assms(1) Cons.prems(1) _ s1] Cons.prems(2) by simp
  have "fold (topo_visit d) vs (srt1, ind1, r1) = (srt', ind', r')" using Cons.prems s1 by simp
  moreover have "topo_inv d srt1 ind1" "set vs \<subseteq> {..<length (edges d)}"
    using a Cons.prems by simp_all
  ultimately have "topo_inv d srt' ind' \<and>
      (\<not> r' \<longrightarrow> \<not> r1 \<and> srt' = srt1 \<and> ind' = ind1 \<and> (\<forall>v \<in> set vs. ind1 ! v \<noteq> 0))"
    by (intro Cons.IH)
  moreover have "\<not> r1 \<longrightarrow> (\<forall>v \<in> set vs. ind1 ! v \<noteq> 0) \<longrightarrow> (\<forall>x \<in> set (v # vs). ind ! x \<noteq> 0)"
    using a by simp
  ultimately show ?case using a by blast
qed simp

lemma topo_loop_inv:
  "dag_wf d \<Longrightarrow> topo_inv d srt ind \<Longrightarrow> topo_loop d srt ind = (srt', ind') \<Longrightarrow>
   topo_inv d srt' ind' \<and> (\<forall>v < length (edges d). ind' ! v \<noteq> 0)"
proof (induction d srt ind rule: topo_loop.induct)
  case (1 d srt ind)
  obtain srt1 ind1 r1 where p: "topo_pass d srt ind = (srt1, ind1, r1)" by (metis prod.exhaust)
  have len: "length ind = length (edges d)" using "1.prems"(2) by (simp add: topo_inv_def)
  have a: "topo_inv d srt1 ind1 \<and> (\<not> r1 \<longrightarrow> srt1 = srt \<and> ind1 = ind \<and>
      (\<forall>v \<in> set [0..<length ind]. ind ! v \<noteq> 0))"
    using topo_fold_inv [OF "1.prems"(1,2), of "[0..<length ind]" False srt1 ind1 r1] p len
    by (simp add: topo_pass_def atLeast0LessThan)
  show ?case
  proof (cases r1)
    case True
    then have "topo_loop d srt1 ind1 = (srt', ind')"
      using "1.prems"(3) p by (simp add: topo_loop.simps [of d srt ind])
    with "1.IH" [OF p [symmetric]] True a "1.prems"(1) show ?thesis by blast
  next
    case False
    then have "srt' = srt1" "ind' = ind1"
      using "1.prems"(3) p by (simp_all add: topo_loop.simps [of d srt ind])
    with a False len show ?thesis by auto
  qed
qed

lemma TopoSort_inv:
  assumes "dag_wf d" and "DAG_TopoSort d = (srt, unsrt)"
  shows "\<exists>ind. topo_inv d srt ind \<and> (\<forall>v < length (edges d). ind ! v \<noteq> 0) \<and>
    unsrt = filter (\<lambda>v. v \<notin> set srt) [0..<length (edges d)]"
proof -
  obtain s ind where l: "topo_loop d [] (indegrees d) = (s, ind)" by fastforce
  note inv = topo_loop_inv [OF assms(1) topo_inv_init [OF assms(1)] l]
  have s: "s = srt" and u: "unsrt = filter (\<lambda>v. - 1 \<noteq> ind ! v) [0..<length ind]"
    using assms(2) l by (auto simp: DAG_TopoSort_def)
  have len: "length ind = length (edges d)" using inv by (simp add: topo_inv_def)
  have "- 1 \<noteq> ind ! v \<longleftrightarrow> v \<notin> set srt" if "v < length (edges d)" for v
    using inv that s by (auto simp: topo_inv_def)
  then have "unsrt = filter (\<lambda>v. v \<notin> set srt) [0..<length (edges d)]"
    unfolding u len by (intro filter_cong) auto
  with inv s show ?thesis by blast
qed

subsection \<open>What the result means\<close>

lemma TopoSort_partition:
  assumes "dag_wf d" and "DAG_TopoSort d = (srt, unsrt)"
  shows "distinct (srt @ unsrt) \<and> set (srt @ unsrt) = {..<length (edges d)}"
  using TopoSort_inv [OF assms] by (auto simp: topo_inv_def)

lemma TopoSort_order:
  assumes "dag_wf d" and "DAG_TopoSort d = (srt, unsrt)"
    and "j < length srt" and "(u, srt ! j) \<in> edge_rel d"
  shows "\<exists>i < j. srt ! i = u"
proof -
  obtain ind where "topo_inv d srt ind" using TopoSort_inv [OF assms(1,2)] by blast
  then have "preds d (srt ! j) \<subseteq> set (take j srt)" using assms(3) by (simp add: topo_inv_def)
  then have "u \<in> set (take j srt)" using assms(4) by (auto simp: preds_def)
  then show ?thesis using assms(3) by (auto simp: in_set_conv_nth)
qed

lemma TopoSort_unsorted_pred:
  assumes "dag_wf d" and "DAG_TopoSort d = (srt, unsrt)" and "v \<in> set unsrt"
  shows "\<exists>u \<in> set unsrt. (u, v) \<in> edge_rel d"
proof -
  obtain ind where inv: "topo_inv d srt ind" and nz: "\<forall>v < length (edges d). ind ! v \<noteq> 0"
    and u: "unsrt = filter (\<lambda>v. v \<notin> set srt) [0..<length (edges d)]"
    using TopoSort_inv [OF assms(1,2)] by blast
  have v: "v < length (edges d)" "v \<notin> set srt" using assms(3) u by auto
  then have "open_preds d (set srt) v \<noteq> {}" using inv nz by (auto simp: topo_inv_def)
  then obtain w where "w \<in> preds d v" "w \<notin> set srt" by (auto simp: open_preds_def)
  then show ?thesis
    using edge_rel_bounds [OF assms(1)] u by (force simp: preds_def)
qed

text \<open>\<^verbatim>\<open>Init\<close> of the graph refuses a configuration exactly when its edges have a ring.\<close>

lemma TopoSort_acyclic_iff:
  assumes "dag_wf d" and "DAG_TopoSort d = (srt, unsrt)"
  shows "unsrt = [] \<longleftrightarrow> acyclic (edge_rel d)"
proof
  assume "acyclic (edge_rel d)"
  then have wf: "wf (edge_rel d)"
    using finite_edge_rel [OF assms(1)] by (rule finite_acyclic_wf [rotated])
  show "unsrt = []"
  proof (rule ccontr)
    assume "unsrt \<noteq> []"
    then obtain v0 where "v0 \<in> set unsrt" by (meson list.set_sel(1))
    from wfE_min [OF wf this] obtain z where "z \<in> set unsrt"
      "\<And>y. (y, z) \<in> edge_rel d \<Longrightarrow> y \<notin> set unsrt" by blast
    with TopoSort_unsorted_pred [OF assms] show False by blast
  qed
next
  assume nil: "unsrt = []"
  define pos where "pos v = length (takeWhile (\<lambda>x. x \<noteq> v) srt)" for v
  have pos: "pos (srt ! i) = i" if "i < length srt" for i
  proof -
    have "distinct srt" using TopoSort_partition [OF assms] by simp
    then have "takeWhile (\<lambda>x. x \<noteq> srt ! i) srt = take i srt"
      using that by (intro takeWhile_eq_take_P_nth) (auto simp: nth_eq_iff_index_eq)
    then show ?thesis using that by (simp add: pos_def)
  qed
  have "edge_rel d \<subseteq> measure pos"
  proof (rule subrelI)
    fix u v assume e: "(u, v) \<in> edge_rel d"
    then have "v \<in> set srt"
      using TopoSort_partition [OF assms] edge_rel_bounds [OF assms(1) e] nil by auto
    then obtain j where j: "j < length srt" "v = srt ! j" by (auto simp: in_set_conv_nth)
    with TopoSort_order [OF assms, of j u] e obtain i where "i < j" "srt ! i = u" by blast
    with j pos show "(u, v) \<in> measure pos" by auto
  qed
  then show "acyclic (edge_rel d)" by (rule acyclic_subset [rotated]) (simp add: wf_acyclic)
qed

subsection \<open>Properties\<close>



end
