(* ===== verification/DagDfs.thy ===== *)
theory DagDfs
  imports DagTopo
begin

section \<open>The depth-first iterator: DAGAlgorithm::DFSIterator\<close>

text \<open>
  The iterator keeps a stack of vertices (its top is the head of the list here) and a bit
  vector of the vertices it has shown.  \<^verbatim>\<open>DFSBegin\<close> pushes every head and shows the last one;
  \<^verbatim>\<open>operator++\<close> pops until the top has an unshown successor, or is itself an unshown head.
  A range-for over \<^verbatim>\<open>DFSBegin()\<close> .. \<^verbatim>\<open>DFSEnd()\<close> is \<open>dfs_walk\<close>: the vertices shown, in order.
\<close>

record DFSIterator =
  vertex_stack :: "nat list"
  visit :: "bool list"

definition DAG_DFSEnd :: DFSIterator where
  "DAG_DFSEnd = \<lparr>vertex_stack = [], visit = []\<rparr>"

definition DFSIterator_deref :: "DFSIterator \<Rightarrow> int" where
  "DFSIterator_deref it = (case vertex_stack it of [] \<Rightarrow> - 1 | v # _ \<Rightarrow> int v)"

text \<open>\<^verbatim>\<open>operator==\<close> on iterators of one DAG: stack size and top only.\<close>

definition DFSIterator_eq :: "DFSIterator \<Rightarrow> DFSIterator \<Rightarrow> bool" where
  "DFSIterator_eq a b \<longleftrightarrow> length (vertex_stack a) = length (vertex_stack b) \<and>
     (if vertex_stack a \<noteq> [] then hd (vertex_stack a) = hd (vertex_stack b) else True)"

definition DAG_DFSBegin :: "DAGAlgorithm \<Rightarrow> DFSIterator" where
  "DAG_DFSBegin d =
     (let st = foldl (\<lambda>st h. h # st) [] (DAG_GetHeads d);
          vis = replicate (length (edges d)) False
      in \<lparr>vertex_stack = st, visit = (if st \<noteq> [] then vis[hd st := True] else vis)\<rparr>)"

definition DAG_DFSBeginFrom :: "DAGAlgorithm \<Rightarrow> int \<Rightarrow> DFSIterator" where
  "DAG_DFSBeginFrom d v =
     (if v \<ge> int (length (edges d)) \<or> v < 0 then DAG_DFSEnd
      else \<lparr>vertex_stack = [nat v], visit = (replicate (length (edges d)) False)[nat v := True]\<rparr>)"

text \<open>The \<^verbatim>\<open>while\<close> loop of \<^verbatim>\<open>operator++\<close>.\<close>

fun dfs_unwind :: "DAGAlgorithm \<Rightarrow> bool list \<Rightarrow> nat list \<Rightarrow> nat list" where
  "dfs_unwind d vis [] = []"
| "dfs_unwind d vis (v # st) =
     (if \<not> vis ! v then v # st
      else (case find (\<lambda>w. \<not> vis ! w) (edges d ! v) of
              None \<Rightarrow> dfs_unwind d vis st
            | Some w \<Rightarrow> w # v # st))"

definition DFSIterator_incr :: "DAGAlgorithm \<Rightarrow> DFSIterator \<Rightarrow> DFSIterator" where
  "DFSIterator_incr d it =
     (let st = dfs_unwind d (visit it) (vertex_stack it)
      in \<lparr>vertex_stack = st,
          visit = (if st \<noteq> [] then (visit it)[hd st := True] else visit it)\<rparr>)"

fun dfs_walk :: "nat \<Rightarrow> DAGAlgorithm \<Rightarrow> DFSIterator \<Rightarrow> int list option" where
  "dfs_walk fuel d it =
     (if DFSIterator_eq it DAG_DFSEnd then Some []
      else (case fuel of
              0 \<Rightarrow> None
            | Suc f \<Rightarrow> map_option ((#) (DFSIterator_deref it)) (dfs_walk f d (DFSIterator_incr d it))))"

declare dfs_walk.simps [simp del]

text \<open>One unit of fuel per vertex is enough (\<open>dfs_walk_total\<close>).\<close>

definition DAG_DFS :: "DAGAlgorithm \<Rightarrow> int list option" where
  "DAG_DFS d = dfs_walk (length (edges d)) d (DAG_DFSBegin d)"

definition DAG_DFSFrom :: "DAGAlgorithm \<Rightarrow> int \<Rightarrow> int list option" where
  "DAG_DFSFrom d v = dfs_walk (length (edges d)) d (DAG_DFSBeginFrom d v)"

subsection \<open>The iterator invariant\<close>

definition shown :: "DFSIterator \<Rightarrow> nat set" where
  "shown it = {v. v < length (visit it) \<and> visit it ! v}"

text \<open>
  The stack holds vertices, its top has been shown, and every successor of a shown vertex that
  has left the stack has been shown.
\<close>

definition dfs_inv :: "DAGAlgorithm \<Rightarrow> DFSIterator \<Rightarrow> bool" where
  "dfs_inv d it \<longleftrightarrow> (vertex_stack it \<noteq> [] \<longrightarrow> length (visit it) = length (edges d)) \<and>
     set (vertex_stack it) \<subseteq> {..<length (edges d)} \<and>
     (vertex_stack it \<noteq> [] \<longrightarrow> hd (vertex_stack it) \<in> shown it) \<and>
     (\<forall>u v. u \<in> shown it - set (vertex_stack it) \<longrightarrow> (u, v) \<in> edge_rel d \<longrightarrow> v \<in> shown it)"

definition reach :: "DAGAlgorithm \<Rightarrow> nat set \<Rightarrow> nat set" where
  "reach d S = (edge_rel d)\<^sup>* `` S"

lemma reach_refl: "S \<subseteq> reach d S"
  by (auto simp: reach_def)

lemma reach_mono: "S \<subseteq> reach d T \<Longrightarrow> reach d S \<subseteq> reach d T"
  by (auto simp: reach_def) (meson ImageE ImageI Image_singleton_iff rtrancl_trans subset_eq)

lemma reach_closed:
  assumes "\<And>u v. u \<in> S \<Longrightarrow> (u, v) \<in> edge_rel d \<Longrightarrow> v \<in> S"
  shows "reach d S = S"
proof
  have "(u, v) \<in> (edge_rel d)\<^sup>* \<Longrightarrow> u \<in> S \<Longrightarrow> v \<in> S" for u v
    by (induction rule: rtrancl_induct) (auto intro: assms)
  then show "reach d S \<subseteq> S" by (auto simp: reach_def)
qed (rule reach_refl)

lemma reach_edge: "u \<in> reach d S \<Longrightarrow> (u, v) \<in> edge_rel d \<Longrightarrow> v \<in> reach d S"
  by (auto simp: reach_def intro: rtrancl_into_rtrancl)

text \<open>What \<open>dfs_unwind\<close> finds: the popped vertices are shown and exhausted.\<close>

lemma dfs_unwind_spec:
  assumes "dfs_unwind d vis st = st'"
  shows "\<exists>pre suf. st = pre @ suf \<and>
    (\<forall>v \<in> set pre. vis ! v \<and> (\<forall>w \<in> set (edges d ! v). vis ! w)) \<and>
    (st' = [] \<and> suf = [] \<or>
     st' \<noteq> [] \<and> \<not> vis ! hd st' \<and>
     (st' = suf \<or> suf \<noteq> [] \<and> vis ! hd suf \<and> st' = hd st' # suf \<and> hd st' \<in> set (edges d ! hd suf)))"
  using assms
proof (induction d vis st rule: dfs_unwind.induct)
  case (1 d vis)
  then show ?case by simp
next
  case (2 d vis v st)
  show ?case
  proof (cases "vis ! v")
    case False
    with "2.prems" show ?thesis by (intro exI [of _ "[]"] exI [of _ "v # st"]) auto
  next
    case vis: True
    show ?thesis
    proof (cases "find (\<lambda>w. \<not> vis ! w) (edges d ! v)")
      case None
      with vis "2.prems" have "dfs_unwind d vis st = st'" by simp
      with "2.IH" vis None obtain pre suf where
        "st = pre @ suf" "\<forall>v \<in> set pre. vis ! v \<and> (\<forall>w \<in> set (edges d ! v). vis ! w)"
        "st' = [] \<and> suf = [] \<or> st' \<noteq> [] \<and> \<not> vis ! hd st' \<and>
          (st' = suf \<or> suf \<noteq> [] \<and> vis ! hd suf \<and> st' = hd st' # suf \<and>
            hd st' \<in> set (edges d ! hd suf))"
        by auto
      moreover have "\<forall>w \<in> set (edges d ! v). vis ! w" using None by (simp add: find_None_iff)
      ultimately show ?thesis
        using vis by (intro exI [of _ "v # pre"] exI [of _ suf]) simp
    next
      case (Some w)
      then have "w \<in> set (edges d ! v)" "\<not> vis ! w" by (auto simp: find_Some_iff)
      moreover have "st' = w # v # st" using vis Some "2.prems" by simp
      ultimately show ?thesis
        using vis by (intro exI [of _ "[]"] exI [of _ "v # st"]) simp
    qed
  qed
qed

lemma shown_upd:
  "v < length (visit it) \<Longrightarrow> shown (it\<lparr>vertex_stack := st, visit := (visit it)[v := True]\<rparr>) =
   insert v (shown it)"
  by (auto simp: shown_def nth_list_update)

lemma edge_shown_iff:
  assumes "dag_wf d" and "length (visit it) = length (edges d)" and "(u, w) \<in> edge_rel d"
  shows "w \<in> shown it \<longleftrightarrow> visit it ! w"
  using assms edge_rel_bounds [OF assms(1,3)] by (simp add: shown_def)

text \<open>
  One step of the iterator: either the stack empties and what has been shown is closed under
  edges, or exactly one more vertex, reachable from the old state, is shown.
\<close>

lemma dfs_incr_spec:
  assumes wf: "dag_wf d" and inv: "dfs_inv d it" and ne: "vertex_stack it \<noteq> []"
  defines "it' \<equiv> DFSIterator_incr d it"
  shows "dfs_inv d it' \<and>
    (vertex_stack it' = [] \<and> shown it' = shown it \<and> set (vertex_stack it) \<subseteq> shown it \<and>
       reach d (shown it) = shown it
     \<or> (\<exists>w. vertex_stack it' \<noteq> [] \<and> hd (vertex_stack it') = w \<and> w < length (edges d) \<and>
         w \<notin> shown it \<and> shown it' = insert w (shown it) \<and>
         reach d (shown it' \<union> set (vertex_stack it')) =
           reach d (shown it \<union> set (vertex_stack it))))"
proof -
  let ?st = "vertex_stack it" and ?vis = "visit it"
  let ?st' = "dfs_unwind d ?vis ?st"
  have len: "length ?vis = length (edges d)" using inv ne by (simp add: dfs_inv_def)
  have bnd: "set ?st \<subseteq> {..<length (edges d)}" using inv by (simp add: dfs_inv_def)
  have sh: "v < length (edges d) \<Longrightarrow> v \<in> shown it \<longleftrightarrow> ?vis ! v" for v
    by (simp add: shown_def len)
  have old: "u \<in> shown it - set ?st \<Longrightarrow> (u, v) \<in> edge_rel d \<Longrightarrow> v \<in> shown it" for u v
    using inv by (auto simp: dfs_inv_def)
  obtain pre suf where st: "?st = pre @ suf"
    and pre: "\<And>v. v \<in> set pre \<Longrightarrow> ?vis ! v \<and> (\<forall>w \<in> set (edges d ! v). ?vis ! w)"
    and alt: "?st' = [] \<and> suf = [] \<or> ?st' \<noteq> [] \<and> \<not> ?vis ! hd ?st' \<and>
      (?st' = suf \<or> suf \<noteq> [] \<and> ?vis ! hd suf \<and> ?st' = hd ?st' # suf \<and>
        hd ?st' \<in> set (edges d ! hd suf))"
    using dfs_unwind_spec [of d ?vis ?st ?st', OF refl] by blast
  have preS: "set pre \<subseteq> shown it" using pre bnd st sh by auto
  have preE: "u \<in> set pre \<Longrightarrow> (u, v) \<in> edge_rel d \<Longrightarrow> v \<in> shown it" for u v
    using pre [of u] edge_shown_iff [OF wf len] by (auto simp: edge_rel_def)
  show ?thesis
  proof (cases "?st' = []")
    case True
    then have "suf = []" using alt by auto
    with st have st: "?st = pre" by simp
    have it': "it' = \<lparr>vertex_stack = [], visit = ?vis\<rparr>"
      using True by (simp add: it'_def DFSIterator_incr_def Let_def)
    have sub: "set ?st \<subseteq> shown it" using st preS by simp
    have cl: "u \<in> shown it \<Longrightarrow> (u, v) \<in> edge_rel d \<Longrightarrow> v \<in> shown it" for u v
      using old preE st by (cases "u \<in> set ?st") auto
    have sh': "shown it' = shown it" by (simp add: it' shown_def)
    have "dfs_inv d it'" using cl sh' by (auto simp: dfs_inv_def it')
    moreover have "reach d (shown it) = shown it" by (rule reach_closed) (rule cl)
    ultimately show ?thesis using it' sub sh' by simp
  next
    case False
    define w where "w = hd ?st'"
    have it': "it' = \<lparr>vertex_stack = ?st', visit = ?vis[w := True]\<rparr>"
      using False by (simp add: it'_def DFSIterator_incr_def Let_def w_def)
    have nw: "\<not> ?vis ! w" using alt False w_def by auto
    have parts: "?st' = suf \<or> (suf \<noteq> [] \<and> ?st' = w # suf \<and> w \<in> set (edges d ! hd suf))"
      using alt False w_def by auto
    have sufb: "set suf \<subseteq> {..<length (edges d)}" using bnd st by auto
    have wb: "w < length (edges d)"
      using parts
    proof
      assume "?st' = suf"
      then have "w \<in> set suf" using False by (simp add: w_def)
      with sufb show ?thesis by auto
    next
      assume a: "suf \<noteq> [] \<and> ?st' = w # suf \<and> w \<in> set (edges d ! hd suf)"
      then have "hd suf < length (edges d)" using sufb by (meson hd_in_set lessThan_iff subsetD)
      with a show ?thesis using wf by (auto simp: dag_wf_def)
    qed
    have st'set: "set ?st' = insert w (set suf)"
      using parts False w_def by (metis insert_absorb list.set_sel(1) list.simps(15))
    have sh': "shown it' = insert w (shown it)"
      using wb len by (auto simp: it' shown_def nth_list_update)
    have cl: "v \<in> shown it'" if "u \<in> shown it' - set ?st'" "(u, v) \<in> edge_rel d" for u v
    proof -
      have "u \<in> shown it" "u \<notin> set suf" using that(1) sh' st'set by auto
      then show ?thesis using old [of u v] preE [of u v] that(2) st sh' by auto
    qed
    have inv': "dfs_inv d it'"
      using cl sh' len wb sufb st'set by (auto simp: dfs_inv_def it' w_def)
    have wr: "w \<in> reach d (shown it \<union> set ?st)"
      using parts
    proof
      assume "?st' = suf"
      then have "w \<in> set ?st" using False st by (simp add: w_def)
      then show ?thesis using reach_refl by blast
    next
      assume a: "suf \<noteq> [] \<and> ?st' = w # suf \<and> w \<in> set (edges d ! hd suf)"
      then have "hd suf \<in> set ?st" using st by simp
      moreover from this have "hd suf < length (edges d)" using bnd by blast
      ultimately have "hd suf \<in> reach d (shown it \<union> set ?st)" "(hd suf, w) \<in> edge_rel d"
        using reach_refl [of "shown it \<union> set ?st" d] a by (auto simp: edge_rel_def)
      then show ?thesis by (rule reach_edge)
    qed
    have "reach d (shown it' \<union> set ?st') = reach d (shown it \<union> set ?st)"
    proof
      show "reach d (shown it' \<union> set ?st') \<subseteq> reach d (shown it \<union> set ?st)"
        unfolding sh' st'set using wr reach_refl [of "shown it \<union> set ?st" d] st
        by (intro reach_mono) auto
      show "reach d (shown it \<union> set ?st) \<subseteq> reach d (shown it' \<union> set ?st')"
        unfolding sh' st'set using preS reach_refl [of "insert w (shown it) \<union> insert w (set suf)" d] st
        by (intro reach_mono) auto
    qed
    with inv' wb nw sh' show ?thesis
      using False by (auto simp: it' w_def sh)
  qed
qed

subsection \<open>The walk\<close>

lemma DFSIterator_eq_End: "DFSIterator_eq it DAG_DFSEnd \<longleftrightarrow> vertex_stack it = []"
  by (auto simp: DFSIterator_eq_def DAG_DFSEnd_def)

lemma dfs_walk_end: "vertex_stack it = [] \<Longrightarrow> dfs_walk fuel d it = Some []"
  by (simp add: dfs_walk.simps [of fuel d it] DFSIterator_eq_End)

lemma dfs_walk_step:
  "vertex_stack it \<noteq> [] \<Longrightarrow> dfs_walk (Suc f) d it =
   map_option ((#) (int (hd (vertex_stack it)))) (dfs_walk f d (DFSIterator_incr d it))"
  by (simp add: dfs_walk.simps [of "Suc f" d it] DFSIterator_eq_End DFSIterator_deref_def
      split: list.splits)

lemma shown_bound: "dfs_inv d it \<Longrightarrow> vertex_stack it \<noteq> [] \<Longrightarrow> shown it \<subseteq> {..<length (edges d)}"
  by (auto simp: shown_def dfs_inv_def)

lemma dfs_walk_spec:
  assumes wf: "dag_wf d"
  shows "dfs_inv d it \<Longrightarrow> vertex_stack it \<noteq> [] \<Longrightarrow> card ({..<length (edges d)} - shown it) < fuel \<Longrightarrow>
    \<exists>ys. dfs_walk fuel d it = Some (map int (hd (vertex_stack it) # ys)) \<and> distinct ys \<and>
      set ys \<inter> shown it = {} \<and>
      shown it \<union> set ys = reach d (shown it \<union> set (vertex_stack it))"
proof (induction fuel arbitrary: it)
  case 0
  then show ?case by simp
next
  case (Suc fuel)
  let ?it' = "DFSIterator_incr d it"
  note step = dfs_incr_spec [OF wf Suc.prems(1,2)]
  from step have inv': "dfs_inv d ?it'" by blast
  show ?case
  proof (cases "vertex_stack ?it' = []")
    case True
    with step have sub: "set (vertex_stack it) \<subseteq> shown it"
      and cl: "reach d (shown it) = shown it" by auto
    have "dfs_walk (Suc fuel) d it = Some (map int [hd (vertex_stack it)])"
      using Suc.prems(2) True by (simp add: dfs_walk_step dfs_walk_end)
    moreover have "reach d (shown it \<union> set (vertex_stack it)) = shown it"
      using sub cl by (simp add: Un_absorb2)
    ultimately show ?thesis by (intro exI [of _ "[]"]) simp
  next
    case False
    with step obtain w where w: "hd (vertex_stack ?it') = w" "w < length (edges d)"
      "w \<notin> shown it" "shown ?it' = insert w (shown it)"
      and r: "reach d (shown ?it' \<union> set (vertex_stack ?it')) =
        reach d (shown it \<union> set (vertex_stack it))" by blast
    have "{..<length (edges d)} - shown ?it' \<subset> {..<length (edges d)} - shown it"
      using w by auto
    then have "card ({..<length (edges d)} - shown ?it') < fuel"
      using Suc.prems(3) by (meson finite_Diff finite_lessThan less_le_trans less_Suc_eq_le
          psubset_card_mono)
    from Suc.IH [OF inv' False this] w(1) obtain ys where
      ys: "dfs_walk fuel d ?it' = Some (map int (w # ys))" "distinct ys"
        "set ys \<inter> shown ?it' = {}"
        "shown ?it' \<union> set ys = reach d (shown ?it' \<union> set (vertex_stack ?it'))" by auto
    have "dfs_walk (Suc fuel) d it = Some (map int (hd (vertex_stack it) # w # ys))"
      using Suc.prems(2) ys(1) by (simp add: dfs_walk_step)
    moreover have "distinct (w # ys)" "set (w # ys) \<inter> shown it = {}"
      using ys(2,3) w(3,4) by auto
    moreover have "shown it \<union> set (w # ys) = reach d (shown it \<union> set (vertex_stack it))"
      using ys(4) w(4) r by auto
    ultimately show ?thesis by blast
  qed
qed

lemma dfs_walk_start:
  assumes wf: "dag_wf d" and st: "st \<noteq> []" "set st \<subseteq> {..<length (edges d)}"
  shows "\<exists>xs. dfs_walk (length (edges d)) d
      \<lparr>vertex_stack = st, visit = (replicate (length (edges d)) False)[hd st := True]\<rparr> =
        Some (map int xs) \<and> distinct xs \<and> set xs = reach d (set st)"
proof -
  let ?n = "length (edges d)"
  define it where "it = \<lparr>vertex_stack = st, visit = (replicate ?n False)[hd st := True]\<rparr>"
  have h: "hd st < ?n" using st by (meson hd_in_set lessThan_iff subset_iff)
  have sh: "shown it = {hd st}"
    using h by (auto simp: it_def shown_def nth_list_update split: if_splits)
  have inv: "dfs_inv d it"
    using st sh h by (auto simp: dfs_inv_def it_def)
  have "card ({..<?n} - shown it) < ?n" using sh h by (simp add: card_Diff_singleton_if)
  from dfs_walk_spec [OF wf inv _ this] st obtain ys where
    ys: "dfs_walk ?n d it = Some (map int (hd st # ys))" "distinct ys" "set ys \<inter> {hd st} = {}"
      "{hd st} \<union> set ys = reach d ({hd st} \<union> set st)"
    by (auto simp: sh) (auto simp: it_def)
  have "{hd st} \<union> set st = set st" using st by auto
  with ys show ?thesis unfolding it_def by (intro exI [of _ "hd st # ys"]) auto
qed

lemma foldl_push: "foldl (\<lambda>st h. h # st) acc xs = rev xs @ acc"
  by (induction xs arbitrary: acc) auto

lemma DFS_spec:
  assumes wf: "dag_wf d"
  shows "\<exists>xs. DAG_DFS d = Some (map int xs) \<and> distinct xs \<and> set xs = reach d (set (DAG_GetHeads d))"
proof (cases "DAG_GetHeads d = []")
  case True
  then show ?thesis
    by (simp add: DAG_DFS_def DAG_DFSBegin_def dfs_walk_end reach_def)
next
  case False
  have "set (rev (DAG_GetHeads d)) \<subseteq> {..<length (edges d)}"
    using set_GetHeads [OF wf] by auto
  from dfs_walk_start [OF wf _ this] False show ?thesis
    by (simp add: DAG_DFS_def DAG_DFSBegin_def foldl_push Let_def)
qed

lemma DFSFrom_spec:
  assumes "dag_wf d" and "v < length (edges d)"
  shows "\<exists>xs. DAG_DFSFrom d (int v) = Some (map int xs) \<and> distinct xs \<and> set xs = reach d {v}"
  using dfs_walk_start [OF assms(1), of "[v]"] assms(2)
  by (simp add: DAG_DFSFrom_def DAG_DFSBeginFrom_def)

lemma DFSFrom_out_of_range: "int (length (edges d)) \<le> v \<or> v < 0 \<Longrightarrow> DAG_DFSFrom d v = Some []"
  by (simp add: DAG_DFSFrom_def DAG_DFSBeginFrom_def DAG_DFSEnd_def dfs_walk_end)

text \<open>In a ring-free graph every vertex hangs below a head, so the walk shows them all.\<close>

lemma reach_heads:
  assumes wf: "dag_wf d" and ac: "acyclic (edge_rel d)"
  shows "reach d (set (DAG_GetHeads d)) = {..<length (edges d)}"
proof
  let ?H = "set (DAG_GetHeads d)"
  have "u \<in> {..<length (edges d)} \<Longrightarrow> (u, v) \<in> edge_rel d \<Longrightarrow> v \<in> {..<length (edges d)}" for u v
    using edge_rel_bounds [OF wf] by auto
  then have "reach d {..<length (edges d)} = {..<length (edges d)}" by (rule reach_closed)
  moreover have "?H \<subseteq> {..<length (edges d)}" using set_GetHeads [OF wf] by auto
  ultimately show "reach d ?H \<subseteq> {..<length (edges d)}"
    using reach_mono [of ?H d "{..<length (edges d)}"] by auto
  have "wf (edge_rel d)" using finite_acyclic_wf [OF finite_edge_rel [OF wf] ac] .
  then have "v < length (edges d) \<longrightarrow> v \<in> reach d ?H" for v
  proof (induction v rule: wf_induct_rule)
    case (less v)
    show ?case
    proof (cases "preds d v = {}")
      case True
      then show ?thesis using set_GetHeads [OF wf] reach_refl by fastforce
    next
      case False
      then obtain u where u: "(u, v) \<in> edge_rel d" by (auto simp: preds_def)
      with less edge_rel_bounds [OF wf u] have "u \<in> reach d ?H" by blast
      with u show ?thesis using reach_edge by blast
    qed
  qed
  then show "{..<length (edges d)} \<subseteq> reach d ?H" by auto
qed

lemma DFS_all:
  assumes "dag_wf d" and "acyclic (edge_rel d)"
  shows "\<exists>xs. DAG_DFS d = Some (map int xs) \<and> distinct xs \<and> set xs = {..<length (edges d)}"
  using DFS_spec [OF assms(1)] reach_heads [OF assms] by simp

subsection \<open>Properties\<close>

text \<open>
  C6. Depth-first walk: iterating from \<^verbatim>\<open>DFSBegin()\<close> to \<^verbatim>\<open>DFSEnd()\<close> terminates and shows every
  vertex below a head exactly once, which in a ring-free graph is every vertex; iterating from
  \<^verbatim>\<open>DFSBeginFrom(v)\<close> shows exactly the vertices reachable from \<open>v\<close>, each once.
\<close>

theorem dfs_walks:
  assumes "dag_wf d" and "acyclic (edge_rel d)" and "v < length (edges d)"
  shows "\<exists>xs ys. DAG_DFS d = Some (map int xs) \<and> distinct xs \<and> set xs = {..<length (edges d)} \<and>
     DAG_DFSFrom d (int v) = Some (map int ys) \<and> distinct ys \<and> set ys = reach d {v}"
  using DFS_all [OF assms(1,2)] DFSFrom_spec [OF assms(1,3)] by blast

theorem dfs_walks_witness:
  "\<exists>xs ys. DAG_DFS (dag_build DAG_empty [AddVertexCall, AddVertexCall]) = Some (map int xs) \<and> distinct xs \<and>
     set xs = {0, 1} \<and>
     DAG_DFSFrom (dag_build DAG_empty [AddVertexCall, AddVertexCall]) 1 = Some (map int ys) \<and> set ys = {1}"
proof -
  let ?d = "dag_build DAG_empty [AddVertexCall, AddVertexCall]"
  have e: "edges ?d = [[], []]" by (simp add: DAG_empty_def DAG_AddVertex_def)
  then have r: "edge_rel ?d = {}" by (auto simp: edge_rel_def nth_Cons split: nat.splits)
  have n: "{..<length (edges ?d)} = {0, 1}" using e by auto
  have "reach ?d {1} = {1}" unfolding reach_def r by simp
  moreover have "acyclic (edge_rel ?d)" unfolding r by (simp add: acyclic_def)
  moreover have "1 < length (edges ?d)" using e by simp
  ultimately obtain xs ys where "DAG_DFS ?d = Some (map int xs)" "distinct xs" "set xs = {0, 1}"
    "DAG_DFSFrom ?d (int 1) = Some (map int ys)" "set ys = {1}"
    using dfs_walks [OF dag_build_wf [OF dag_wf_empty]] n by metis
  then show ?thesis by (intro exI [of _ xs] exI [of _ ys]) simp
qed

end
