(* ===== verification/Frame.thy ===== *)
theory Frame
  imports Prelude
begin

section \<open>Frames and the stream tables: unistream_frame\<close>

text \<open>
  \<^verbatim>\<open>framework/include/unistream_frame.hpp\<close> and \<^verbatim>\<open>framework/src/unistream_frame.cpp\<close>.  A frame
  carries its stream, its flags and the mask of the modules that have processed it.  Two
  process-wide tables, each behind its own lock, tell whether the EOS frame of a stream has been
  destroyed and whether a stream has been removed.  Of the payload (the frame of a parent
  pipeline) the framework reads the presence and the stream id only, so that is what is kept.
\<close>

record UNIFrameInfo =
  stream_id :: string
  timestamp :: u64
  flags :: u64
  payload :: "string option"
  channel_idx :: u32
  modules_mask :: u64

definition UNI_FRAME_FLAG_EOS :: u64 where "UNI_FRAME_FLAG_EOS = push_bit 0 1"
definition UNI_FRAME_FLAG_INVALID :: u64 where "UNI_FRAME_FLAG_INVALID = push_bit 1 1"
definition UNI_FRAME_FLAG_REMOVED :: u64 where "UNI_FRAME_FLAG_REMOVED = push_bit 2 1"

lemmas flag_defs = UNI_FRAME_FLAG_EOS_def UNI_FRAME_FLAG_INVALID_def UNI_FRAME_FLAG_REMOVED_def

definition IsEos :: "UNIFrameInfo \<Rightarrow> bool" where
  "IsEos f \<longleftrightarrow> flags f AND UNI_FRAME_FLAG_EOS \<noteq> 0"

definition IsRemoved :: "UNIFrameInfo \<Rightarrow> bool" where
  "IsRemoved f \<longleftrightarrow> flags f AND UNI_FRAME_FLAG_REMOVED \<noteq> 0"

definition IsInvalid :: "UNIFrameInfo \<Rightarrow> bool" where
  "IsInvalid f \<longleftrightarrow> flags f AND UNI_FRAME_FLAG_INVALID \<noteq> 0"

text \<open>\<^verbatim>\<open>data->flags |= flag\<close>\<close>

definition set_flag :: "u64 \<Rightarrow> UNIFrameInfo \<Rightarrow> UNIFrameInfo" where
  "set_flag b f = f\<lparr>flags := flags f OR b\<rparr>"

lemma IsEos_bit: "IsEos f \<longleftrightarrow> bit (flags f) 0"
  by (simp add: IsEos_def flag_defs and_exp_eq_0_iff_not_bit [of _ 0, simplified])

lemma IsInvalid_bit: "IsInvalid f \<longleftrightarrow> bit (flags f) 1"
  using and_exp_eq_0_iff_not_bit [of "flags f" 1] by (simp add: IsInvalid_def flag_defs)

lemma IsRemoved_bit: "IsRemoved f \<longleftrightarrow> bit (flags f) 2"
  using and_exp_eq_0_iff_not_bit [of "flags f" 2] by (simp add: IsRemoved_def flag_defs)

lemma set_removed_flag:
  "IsRemoved (set_flag UNI_FRAME_FLAG_REMOVED f)"
  "IsEos (set_flag UNI_FRAME_FLAG_REMOVED f) = IsEos f"
  "IsInvalid (set_flag UNI_FRAME_FLAG_REMOVED f) = IsInvalid f"
  by (auto simp: IsRemoved_bit IsEos_bit IsInvalid_bit set_flag_def flag_defs bit_simps)

subsection \<open>The modules mask\<close>

definition SetModulesMask :: "u64 \<Rightarrow> UNIFrameInfo \<Rightarrow> UNIFrameInfo" where
  "SetModulesMask m f = f\<lparr>modules_mask := m\<rparr>"

text \<open>\<^verbatim>\<open>modules_mask_ |= (uint64_t)1 << module->GetId()\<close>, a shift that is undefined from 64 on.\<close>

definition MarkPassed :: "u64 \<Rightarrow> UNIFrameInfo \<Rightarrow> (u64 \<times> UNIFrameInfo) result" where
  "MarkPassed mid f =
     (if unat mid \<ge> 64 then Inl UndefinedShift
      else let m = modules_mask f OR push_bit (unat mid) 1 in Inr (m, f\<lparr>modules_mask := m\<rparr>))"

subsection \<open>The process-wide tables\<close>

record StreamTables =
  stream_eos_map :: "string \<rightharpoonup> bool"
  stream_removed_map :: "string \<rightharpoonup> bool"

definition StreamTables_new :: StreamTables where
  "StreamTables_new = \<lparr>stream_eos_map = Map.empty, stream_removed_map = Map.empty\<rparr>"

definition SetStreamRemoved :: "string \<Rightarrow> bool \<Rightarrow> StreamTables \<Rightarrow> StreamTables" where
  "SetStreamRemoved sid b g =
     (case stream_removed_map g sid of
        Some _ \<Rightarrow> (if b \<noteq> True then g\<lparr>stream_removed_map := (stream_removed_map g)(sid := None)\<rparr>
                  else g\<lparr>stream_removed_map := (stream_removed_map g)(sid \<mapsto> True)\<rparr>)
      | None \<Rightarrow> g\<lparr>stream_removed_map := (stream_removed_map g)(sid \<mapsto> b)\<rparr>)"

definition IsStreamRemoved :: "StreamTables \<Rightarrow> string \<Rightarrow> bool" where
  "IsStreamRemoved g sid = (case stream_removed_map g sid of Some b \<Rightarrow> b | None \<Rightarrow> False)"

text \<open>\<^verbatim>\<open>UNIFrameInfo::Create\<close>: an empty stream id is refused.\<close>

definition UNIFrameInfo_Create ::
  "string \<Rightarrow> bool \<Rightarrow> string option \<Rightarrow> StreamTables \<Rightarrow> UNIFrameInfo option \<times> StreamTables" where
  "UNIFrameInfo_Create sid eos pl g =
     (if sid = [] then (None, g)
      else let f = \<lparr>stream_id = sid, timestamp = - 1, flags = 0, payload = pl,
                    channel_idx = - 1, modules_mask = 0\<rparr>
           in if eos then
                (Some (set_flag UNI_FRAME_FLAG_EOS f),
                 if pl = None then g\<lparr>stream_eos_map := (stream_eos_map g)(sid \<mapsto> False)\<rparr> else g)
              else (Some f, g))"

text \<open>The destructor, run when the last reference goes.\<close>

definition UNIFrameInfo_destroy :: "UNIFrameInfo \<Rightarrow> StreamTables \<Rightarrow> StreamTables" where
  "UNIFrameInfo_destroy f g =
     (if IsEos f then
        (if payload f = None then g\<lparr>stream_eos_map := (stream_eos_map g)(stream_id f \<mapsto> True)\<rparr> else g)
      else g)"

text \<open>
  \<^verbatim>\<open>CheckStreamEosReached\<close>: with \<^verbatim>\<open>sync = false\<close> one look at the table; with \<^verbatim>\<open>sync = true\<close>
  a look every 20 ms, between which other threads act.  \<open>env\<close> lists what they do before each
  look; \<open>None\<close> is "still waiting after these".
\<close>

definition CheckStreamEosReached_async ::
  "StreamTables \<Rightarrow> string \<Rightarrow> bool \<times> StreamTables" where
  "CheckStreamEosReached_async g sid =
     (case stream_eos_map g sid of
        Some True \<Rightarrow> (True, g\<lparr>stream_eos_map := (stream_eos_map g)(sid := None)\<rparr>)
      | _ \<Rightarrow> (False, g))"

fun CheckStreamEosReached_sync ::
  "(StreamTables \<Rightarrow> StreamTables) list \<Rightarrow> StreamTables \<Rightarrow> string \<Rightarrow> (bool \<times> StreamTables) option" where
  "CheckStreamEosReached_sync [] g sid = None"
| "CheckStreamEosReached_sync (e # env) g sid =
     (case stream_eos_map (e g) sid of
        Some True \<Rightarrow> Some (True, (e g)\<lparr>stream_eos_map := (stream_eos_map (e g))(sid := None)\<rparr>)
      | Some False \<Rightarrow> CheckStreamEosReached_sync env (e g) sid
      | None \<Rightarrow> Some (False, e g))"

subsection \<open>The removed table is a set of streams\<close>

lemma IsStreamRemoved_Set:
  "IsStreamRemoved (SetStreamRemoved sid b g) s = (if s = sid then b else IsStreamRemoved g s)"
  by (auto simp: IsStreamRemoved_def SetStreamRemoved_def split: option.splits)

lemma SetStreamRemoved_eos [simp]: "stream_eos_map (SetStreamRemoved sid b g) = stream_eos_map g"
  by (auto simp: SetStreamRemoved_def split: option.splits)

text \<open>The abstract view: the set of removed streams; every call refines set insertion or removal.\<close>

definition removed_set :: "StreamTables \<Rightarrow> string set" where
  "removed_set g = {s. IsStreamRemoved g s}"

lemma removed_set_Set:
  "removed_set (SetStreamRemoved sid b g) =
     (if b then insert sid (removed_set g) else removed_set g - {sid})"
  by (auto simp: removed_set_def IsStreamRemoved_Set)

fun set_removed_all :: "(string \<times> bool) list \<Rightarrow> StreamTables \<Rightarrow> StreamTables" where
  "set_removed_all [] g = g"
| "set_removed_all ((s, b) # cs) g = set_removed_all cs (SetStreamRemoved s b g)"

lemma set_removed_all_last:
  "IsStreamRemoved (set_removed_all cs g) s =
     (case find (\<lambda>c. fst c = s) (rev cs) of Some c \<Rightarrow> snd c | None \<Rightarrow> IsStreamRemoved g s)"
proof (induction cs arbitrary: g)
  case (Cons c cs)
  have f: "find P (xs @ [y]) = (case find P xs of Some z \<Rightarrow> Some z | None \<Rightarrow> if P y then Some y else None)"
    for P and xs :: "(string \<times> bool) list" and y
    by (induction xs) auto
  obtain s' b where c: "c = (s', b)" by fastforce
  show ?case
    using Cons.IH [of "SetStreamRemoved s' b g"]
    by (auto simp: c f IsStreamRemoved_Set split: option.splits)
qed simp

subsection \<open>The life of an EOS frame\<close>

lemma Create_Some:
  "UNIFrameInfo_Create sid eos pl g = (Some f, g') \<Longrightarrow>
   sid \<noteq> [] \<and> stream_id f = sid \<and> payload f = pl \<and> (IsEos f \<longleftrightarrow> eos) \<and> \<not> IsInvalid f \<and>
   modules_mask f = 0 \<and>
   stream_eos_map g' = (if eos \<and> pl = None then (stream_eos_map g)(sid \<mapsto> False) else stream_eos_map g) \<and>
   stream_removed_map g' = stream_removed_map g"
  by (auto simp: UNIFrameInfo_Create_def set_flag_def IsEos_bit IsInvalid_bit flag_defs bit_simps Let_def
      split: if_splits)

lemma destroy_eos:
  "IsEos f \<Longrightarrow> payload f = None \<Longrightarrow>
   stream_eos_map (UNIFrameInfo_destroy f g) = (stream_eos_map g)(stream_id f \<mapsto> True)"
  by (simp add: UNIFrameInfo_destroy_def)

text \<open>
  While the other threads leave the entry alone the waiting loop keeps waiting; as soon as the
  frame is destroyed it returns true and clears the entry.
\<close>

lemma sync_waits:
  "stream_eos_map g sid = Some False \<Longrightarrow> \<forall>e\<in>set env. \<forall>g. stream_eos_map (e g) sid = stream_eos_map g sid \<Longrightarrow>
   CheckStreamEosReached_sync (env @ rest) g sid = CheckStreamEosReached_sync rest (fold (\<lambda>e. e) env g) sid \<and>
   stream_eos_map (fold (\<lambda>e. e) env g) sid = Some False"
proof (induction env arbitrary: g)
  case (Cons e env)
  have "stream_eos_map (e g) sid = Some False" using Cons.prems by simp
  with Cons.IH [of "e g"] Cons.prems(2) show ?case by simp
qed simp

lemma sync_returns:
  assumes "stream_eos_map g sid = Some False" and "IsEos f" and "payload f = None" and "stream_id f = sid"
    and "\<forall>e\<in>set env. \<forall>g. stream_eos_map (e g) sid = stream_eos_map g sid"
  shows "\<exists>g'. CheckStreamEosReached_sync (env @ [UNIFrameInfo_destroy f]) g sid = Some (True, g') \<and>
    stream_eos_map g' sid = None"
  using sync_waits [OF assms(1,5), of "[UNIFrameInfo_destroy f]"] destroy_eos [OF assms(2,3)] assms(4)
  by auto

subsection \<open>Properties\<close>

text \<open>
  Waiting for the end of a stream: after the EOS frame of a stream was created, a synchronous
  \<^verbatim>\<open>CheckStreamEosReached\<close> keeps waiting as long as the other threads leave the stream's entry
  alone, and returns true, clearing the entry, at the first look after the frame is destroyed.
\<close>

lemma eos_wait_ends_with_frame:
  assumes "UNIFrameInfo_Create sid True None g0 = (Some f, g)"
    and "\<forall>e\<in>set env. \<forall>g. stream_eos_map (e g) sid = stream_eos_map g sid"
  shows "CheckStreamEosReached_sync env g sid = None \<and>
    (\<exists>g'. CheckStreamEosReached_sync (env @ [UNIFrameInfo_destroy f]) g sid = Some (True, g') \<and>
       stream_eos_map g' sid = None)"
proof -
  from Create_Some [OF assms(1)]
  have c: "stream_id f = sid" "payload f = None" "IsEos f" "stream_eos_map g sid = Some False" by auto
  have "CheckStreamEosReached_sync env g sid = None"
    using sync_waits [OF c(4) assms(2), of "[]"] by simp
  with sync_returns [OF c(4,3,2,1) assms(2)] show ?thesis by blast
qed

theorem eos_wait_ends_with_frame_witness:
  "\<exists>f g. UNIFrameInfo_Create ''s'' True None StreamTables_new = (Some f, g) \<and>
     CheckStreamEosReached_sync [SetStreamRemoved ''s'' True] g ''s'' = None \<and>
     (\<exists>g'. CheckStreamEosReached_sync [SetStreamRemoved ''s'' True, UNIFrameInfo_destroy f] g ''s'' = Some (True, g'))"
proof -
  obtain f g where c: "UNIFrameInfo_Create ''s'' True None StreamTables_new = (Some f, g)"
    by (simp add: UNIFrameInfo_Create_def Let_def)
  from eos_wait_ends_with_frame [OF c, of "[SetStreamRemoved ''s'' True]"] c show ?thesis by auto
qed

end
