(* ===== verification/EventBus.thy ===== *)
theory EventBus
  imports Queues
begin

section \<open>Events and stream messages: EventBus, DefaultBusWatch, StreamMsgHandleFunc\<close>

text \<open>
  \<^verbatim>\<open>framework/include/unistream_eventbus.hpp\<close>, \<^verbatim>\<open>framework/src/unistream_eventbus.cpp\<close> and the
  message half of \<^verbatim>\<open>framework/src/unistream_pipeline.cpp\<close>.  Modules and the pipeline post events
  from any thread; one bus thread hands each event to the watchers.  The watcher of the pipeline
  itself turns events into stream messages, which a second thread hands to the observer.  A
  watcher acts on a state \<open>'s\<close> (for the pipeline's own watcher: the message queue).
\<close>

datatype EventType =
    EVENT_INVALID | EVENT_ERROR | EVENT_WARNING | EVENT_EOS | EVENT_STOP | EVENT_STREAM_ERROR
  | EVENT_TYPE_END

datatype EventHandleFlag =
    EVENT_HANDLE_NULL | EVENT_HANDLE_INTERCEPTION | EVENT_HANDLE_SYNCED | EVENT_HANDLE_STOP

record Event =
  ev_type :: EventType
  ev_stream_id :: string
  ev_message :: string
  ev_module_name :: string
  ev_thread_id :: nat

type_synonym 's BusWatcher = "Event \<Rightarrow> 's \<Rightarrow> EventHandleFlag \<times> 's"

text \<open>
  \<open>bus_loop\<close> is the bus thread: \<open>Some flag\<close> while it is in its loop, with the loop's local
  variable \<^verbatim>\<open>flag\<close>; \<open>bus_joinable\<close> tells whether \<^verbatim>\<open>event_thread_\<close> holds a thread not yet joined.
\<close>

record 's EventBus =
  bus_running :: bool
  bus_queue :: "Event ThreadSafeQueue"
  bus_watchers :: "'s BusWatcher list"
  bus_loop :: "EventHandleFlag option"
  bus_joinable :: bool

definition EventBus_new :: "'s EventBus" where
  "EventBus_new = \<lparr>bus_running = False, bus_queue = \<lparr>tsq_items = []\<rparr>, bus_watchers = [],
                   bus_loop = None, bus_joinable = False\<rparr>"

text \<open>Assigning to a \<^verbatim>\<open>std::thread\<close> that is still joinable calls \<^verbatim>\<open>std::terminate\<close>.\<close>

definition EventBus_Start :: "'s EventBus \<Rightarrow> (bool \<times> 's EventBus) result" where
  "EventBus_Start b =
     (if bus_joinable b then Inl StdTerminate
      else Inr (True, b\<lparr>bus_running := True, bus_loop := Some EVENT_HANDLE_NULL, bus_joinable := True\<rparr>))"

text \<open>\<^verbatim>\<open>join\<close> returns when the bus thread has left its loop, which it does once it sees
  \<^verbatim>\<open>running_\<close> false.\<close>

definition EventBus_Stop :: "'s EventBus \<Rightarrow> 's EventBus" where
  "EventBus_Stop b =
     (if bus_running b then b\<lparr>bus_running := False, bus_loop := None, bus_joinable := False\<rparr> else b)"

definition EventBus_AddBusWatch :: "'s BusWatcher \<Rightarrow> 's EventBus \<Rightarrow> u32 \<times> 's EventBus" where
  "EventBus_AddBusWatch w b =
     (of_nat (length (w # bus_watchers b)), b\<lparr>bus_watchers := w # bus_watchers b\<rparr>)"

definition EventBus_ClearAllWatchers :: "'s EventBus \<Rightarrow> 's EventBus" where
  "EventBus_ClearAllWatchers b = b\<lparr>bus_watchers := []\<rparr>"

definition EventBus_PostEvent :: "Event \<Rightarrow> 's EventBus \<Rightarrow> bool \<times> 's EventBus" where
  "EventBus_PostEvent e b =
     (if \<not> bus_running b then (False, b)
      else (True, b\<lparr>bus_queue := ThreadSafeQueue_Push (bus_queue b) e\<rparr>))"

text \<open>
  \<^verbatim>\<open>PollEvent\<close>: \<open>None\<close> is one more round of waiting.  \<open>stopped\<close> tells whether another thread
  clears \<^verbatim>\<open>running_\<close> between the test of the loop and the final test; an event popped in that
  window is returned as \<open>EVENT_STOP\<close>, that is, lost.
\<close>

definition EventBus_PollEvent :: "bool \<Rightarrow> 's EventBus \<Rightarrow> (Event \<times> 's EventBus) option" where
  "EventBus_PollEvent stopped b =
     (let inv = \<lparr>ev_type = EVENT_INVALID, ev_stream_id = [], ev_message = [], ev_module_name = [],
                 ev_thread_id = 0\<rparr>
      in if \<not> bus_running b then Some (inv\<lparr>ev_type := EVENT_STOP\<rparr>, b)
         else let (r, q) = ThreadSafeQueue_WaitAndTryPop (bus_queue b);
                  b' = b\<lparr>bus_queue := q, bus_running := \<not> stopped\<rparr>
              in case r of
                   Some e \<Rightarrow> Some (if stopped then e\<lparr>ev_type := EVENT_STOP\<rparr> else e, b')
                 | None \<Rightarrow> (if stopped then Some (inv\<lparr>ev_type := EVENT_STOP\<rparr>, b') else None))"

fun bus_dispatch ::
  "'s BusWatcher list \<Rightarrow> Event \<Rightarrow> EventHandleFlag \<Rightarrow> 's \<Rightarrow> EventHandleFlag \<times> 's" where
  "bus_dispatch [] e flag s = (flag, s)"
| "bus_dispatch (w # ws) e flag s =
     (let (flag', s') = w e s
      in if flag' = EVENT_HANDLE_INTERCEPTION \<or> flag' = EVENT_HANDLE_STOP then (flag', s')
         else bus_dispatch ws e flag' s')"

text \<open>
  One iteration of \<^verbatim>\<open>EventLoop\<close>; the third component is the event handed to the watchers, if
  any.  Nothing happens when the thread is not in its loop.
\<close>

definition EventBus_EventLoop_iter ::
  "bool \<Rightarrow> 's EventBus \<times> 's \<Rightarrow> ('s EventBus \<times> 's) \<times> Event option" where
  "EventBus_EventLoop_iter stopped st =
     (case st of (b, s) \<Rightarrow>
        case bus_loop b of
          None \<Rightarrow> (st, None)
        | Some flag \<Rightarrow>
            (if \<not> bus_running b then ((b\<lparr>bus_loop := None\<rparr>, s), None)
             else case EventBus_PollEvent stopped b of
                 None \<Rightarrow> (st, None)
               | Some (e, b1) \<Rightarrow>
                   (if ev_type e = EVENT_INVALID then ((b1\<lparr>bus_loop := None\<rparr>, s), None)
                    else if ev_type e = EVENT_STOP then ((b1\<lparr>bus_loop := None\<rparr>, s), None)
                    else let (flag', s') = bus_dispatch (bus_watchers b1) e flag s
                         in if flag' = EVENT_HANDLE_STOP
                            then ((b1\<lparr>bus_loop := None\<rparr>, s'), Some e)
                            else ((b1\<lparr>bus_loop := Some flag'\<rparr>, s'), Some e))))"

subsection \<open>Stream messages\<close>

datatype StreamMsgType =
    EOS_MSG | ERROR_MSG | STREAM_ERR_MSG | FRAME_ERR_MSG
  | USER_MSG0 | USER_MSG1 | USER_MSG2 | USER_MSG3 | USER_MSG4
  | USER_MSG5 | USER_MSG6 | USER_MSG7 | USER_MSG8 | USER_MSG9

record StreamMsg =
  msg_type :: StreamMsgType
  msg_stream_id :: string
  msg_module_name :: string
  msg_pts :: int

definition Pipeline_UpdateByStreamMsg ::
  "StreamMsg \<Rightarrow> StreamMsg ThreadSafeQueue \<Rightarrow> StreamMsg ThreadSafeQueue" where
  "Pipeline_UpdateByStreamMsg m q = ThreadSafeQueue_Push q m"

definition Pipeline_DefaultBusWatch :: "StreamMsg ThreadSafeQueue BusWatcher" where
  "Pipeline_DefaultBusWatch e q =
     (let smsg = (\<lambda>t. \<lparr>msg_type = t, msg_stream_id = ev_stream_id e,
                       msg_module_name = ev_module_name e, msg_pts = - 1\<rparr>)
      in case ev_type e of
           EVENT_ERROR \<Rightarrow> (EVENT_HANDLE_STOP, Pipeline_UpdateByStreamMsg (smsg ERROR_MSG) q)
         | EVENT_WARNING \<Rightarrow> (EVENT_HANDLE_SYNCED, q)
         | EVENT_STOP \<Rightarrow> (EVENT_HANDLE_STOP, q)
         | EVENT_EOS \<Rightarrow> (EVENT_HANDLE_SYNCED, q)
         | EVENT_STREAM_ERROR \<Rightarrow>
             (EVENT_HANDLE_SYNCED, Pipeline_UpdateByStreamMsg (smsg STREAM_ERR_MSG) q)
         | EVENT_INVALID \<Rightarrow> (EVENT_HANDLE_NULL, q)
         | EVENT_TYPE_END \<Rightarrow> (EVENT_HANDLE_NULL, q))"

text \<open>
  One round of \<^verbatim>\<open>StreamMsgHandleFunc\<close>: \<open>exiting\<close> is \<^verbatim>\<open>exit_msg_loop_\<close> as tested after the wait.
  Every message type of the enumeration is passed to the observer, when there is one.
\<close>

definition Pipeline_StreamMsgHandle_iter ::
  "bool \<Rightarrow> bool \<Rightarrow> StreamMsg ThreadSafeQueue \<Rightarrow> StreamMsg option \<times> StreamMsg ThreadSafeQueue" where
  "Pipeline_StreamMsgHandle_iter exiting has_observer q =
     (case ThreadSafeQueue_WaitAndTryPop q of
        (None, q') \<Rightarrow> (None, q')
      | (Some m, q') \<Rightarrow> (if exiting then None else if has_observer then Some m else None, q'))"

subsection \<open>Runs of the bus\<close>

text \<open>
  Any interleaving of posts, iterations of the bus thread and stops.  \<open>bus_run\<close> also returns the
  events that \<^verbatim>\<open>PostEvent\<close> accepted, those the bus thread took from the queue, and those it
  handed to the watchers.
\<close>

datatype bus_op = PostOp Event | IterOp bool | StopOp

definition popped :: "'s EventBus \<Rightarrow> 's EventBus \<Rightarrow> Event list" where
  "popped b b' = take (length (tsq_items (bus_queue b)) - length (tsq_items (bus_queue b')))
                   (tsq_items (bus_queue b))"

fun bus_run ::
  "bus_op list \<Rightarrow> 's EventBus \<times> 's \<Rightarrow>
     ('s EventBus \<times> 's) \<times> Event list \<times> Event list \<times> Event list" where
  "bus_run [] st = (st, [], [], [])"
| "bus_run (PostOp e # ops) (b, s) =
     (let (ok, b1) = EventBus_PostEvent e b;
          (st', acc, pop, del) = bus_run ops (b1, s)
      in (st', (if ok then e # acc else acc), pop, del))"
| "bus_run (IterOp stopped # ops) st =
     (let (st1, d) = EventBus_EventLoop_iter stopped st;
          (st', acc, pop, del) = bus_run ops st1
      in (st', acc, popped (fst st) (fst st1) @ pop, (case d of Some e \<Rightarrow> e # del | None \<Rightarrow> del)))"
| "bus_run (StopOp # ops) (b, s) = bus_run ops (EventBus_Stop b, s)"

lemma iter_cases:
  assumes "EventBus_EventLoop_iter stopped (b, s) = ((b', s'), d)"
  obtains (idle) "b' = b" "s' = s" "d = None"
        "bus_loop b = None \<or> (bus_running b \<and> tsq_items (bus_queue b) = [] \<and> \<not> stopped)"
  | (leave) "bus_queue b' = bus_queue b" "s' = s" "d = None" "bus_loop b' = None" "bus_loop b \<noteq> None"
        "\<not> bus_running b'" "bus_watchers b' = bus_watchers b"
  | (drop) e where "tsq_items (bus_queue b) = e # tsq_items (bus_queue b')" "s' = s" "d = None"
        "bus_loop b' = None" "bus_watchers b' = bus_watchers b" "bus_running b" "bus_loop b \<noteq> None"
        "stopped \<or> ev_type e = EVENT_INVALID \<or> ev_type e = EVENT_STOP"
  | (deliver) e flag flag' where "tsq_items (bus_queue b) = e # tsq_items (bus_queue b')" "d = Some e"
        "bus_loop b = Some flag" "bus_dispatch (bus_watchers b) e flag s = (flag', s')"
        "bus_loop b' = (if flag' = EVENT_HANDLE_STOP then None else Some flag')"
        "bus_running b" "bus_running b'" "bus_watchers b' = bus_watchers b"
        "ev_type e \<noteq> EVENT_INVALID" "ev_type e \<noteq> EVENT_STOP"
proof (cases "bus_loop b")
  case None
  with assms idle show thesis by (simp add: EventBus_EventLoop_iter_def)
next
  case (Some flag)
  show thesis
  proof (cases "bus_running b")
    case False
    with assms Some leave show thesis by (auto simp: EventBus_EventLoop_iter_def)
  next
    case running: True
    show thesis
    proof (cases "tsq_items (bus_queue b)")
      case Nil
      show thesis
      proof (cases stopped)
        case True
        with assms Some running Nil show thesis
          by (intro leave)
            (auto simp: EventBus_EventLoop_iter_def EventBus_PollEvent_def
              ThreadSafeQueue_WaitAndTryPop_def Let_def)
      next
        case False
        with assms Some running Nil show thesis
          by (intro idle)
            (auto simp: EventBus_EventLoop_iter_def EventBus_PollEvent_def
              ThreadSafeQueue_WaitAndTryPop_def Let_def)
      qed
    next
      case (Cons e q)
      show thesis
      proof (cases "stopped \<or> ev_type e = EVENT_INVALID \<or> ev_type e = EVENT_STOP")
        case True
        with assms Some running Cons show thesis
          by (intro drop [of e])
            (auto simp: EventBus_EventLoop_iter_def EventBus_PollEvent_def
              ThreadSafeQueue_WaitAndTryPop_def Let_def split: if_splits)
      next
        case False
        obtain flag' s1 where disp: "bus_dispatch (bus_watchers b) e flag s = (flag', s1)"
          by fastforce
        with False assms Some running Cons show thesis
          by (intro deliver [of e flag flag'])
            (auto simp: EventBus_EventLoop_iter_def EventBus_PollEvent_def
              ThreadSafeQueue_WaitAndTryPop_def Let_def split: if_splits)
      qed
    qed
  qed
qed

text \<open>A bus thread that has left its loop does nothing until the next \<^verbatim>\<open>Start\<close>.\<close>

lemma bus_run_dead:
  "bus_loop b = None \<Longrightarrow> bus_run ops (b, s) = ((b', s'), acc, pop, del) \<Longrightarrow>
   pop = [] \<and> del = [] \<and> s' = s \<and> bus_loop b' = None \<and> bus_watchers b' = bus_watchers b \<and>
   tsq_items (bus_queue b') = tsq_items (bus_queue b) @ acc"
proof (induction ops arbitrary: b acc pop del)
  case (Cons a ops)
  show ?case
  proof (cases a)
    case (PostOp e)
    obtain b1 ok where p: "EventBus_PostEvent e b = (ok, b1)" by fastforce
    obtain b2 s2 acc2 pop2 del2 where r: "bus_run ops (b1, s) = ((b2, s2), acc2, pop2, del2)"
      by (metis prod.exhaust)
    have "bus_loop b1 = None" "bus_watchers b1 = bus_watchers b"
      "tsq_items (bus_queue b1) = tsq_items (bus_queue b) @ (if ok then [e] else [])"
      using p Cons.prems(1) by (auto simp: EventBus_PostEvent_def ThreadSafeQueue_Push_def split: if_splits)
    with Cons.IH [of b1 acc2 pop2 del2] Cons.prems(2) PostOp p r show ?thesis by (auto split: if_splits)
  next
    case (IterOp st)
    have i: "EventBus_EventLoop_iter st (b, s) = ((b, s), None)"
      using Cons.prems(1) by (simp add: EventBus_EventLoop_iter_def)
    obtain b2 s2 acc2 pop2 del2 where r: "bus_run ops (b, s) = ((b2, s2), acc2, pop2, del2)"
      by (metis prod.exhaust)
    show ?thesis using Cons.IH [OF Cons.prems(1)] Cons.prems IterOp i r by (auto simp: popped_def)
  next
    case StopOp
    have "bus_loop (EventBus_Stop b) = None" "bus_watchers (EventBus_Stop b) = bus_watchers b"
      "bus_queue (EventBus_Stop b) = bus_queue b"
      using Cons.prems(1) by (auto simp: EventBus_Stop_def)
    with Cons.IH [of "EventBus_Stop b" acc pop del] Cons.prems(2) StopOp show ?thesis by simp
  qed
qed simp

lemma popped_drop: "tsq_items (bus_queue b) = xs @ tsq_items (bus_queue b') \<Longrightarrow> popped b b' = xs"
  by (simp add: popped_def)

lemma bus_run_queue:
  "bus_run ops (b, s) = ((b', s'), acc, pop, del) \<Longrightarrow>
   tsq_items (bus_queue b) @ acc = pop @ tsq_items (bus_queue b') \<and>
   (pop = del \<or> (\<exists>e. pop = del @ [e] \<and> bus_loop b' = None))"
proof (induction ops arbitrary: b s acc pop del)
  case (Cons a ops)
  show ?case
  proof (cases a)
    case (PostOp e)
    obtain b1 ok where p: "EventBus_PostEvent e b = (ok, b1)" by fastforce
    obtain b2 s2 acc2 pop2 del2 where r: "bus_run ops (b1, s) = ((b2, s2), acc2, pop2, del2)"
      by (metis prod.exhaust)
    have "tsq_items (bus_queue b1) = tsq_items (bus_queue b) @ (if ok then [e] else [])"
      using p by (auto simp: EventBus_PostEvent_def ThreadSafeQueue_Push_def split: if_splits)
    with Cons.IH [of b1 s acc2 pop2 del2] Cons.prems PostOp p r show ?thesis by (auto split: if_splits)
  next
    case (IterOp st)
    obtain b1 s1 d where i: "EventBus_EventLoop_iter st (b, s) = ((b1, s1), d)" by (metis prod.exhaust)
    obtain b2 s2 acc2 pop2 del2 where r: "bus_run ops (b1, s1) = ((b2, s2), acc2, pop2, del2)"
      by (metis prod.exhaust)
    have eq: "b2 = b'" "s2 = s'" "acc2 = acc" "pop = popped b b1 @ pop2" "del = (case d of Some e \<Rightarrow> e # del2 | None \<Rightarrow> del2)"
      using Cons.prems IterOp i r by (auto split: option.splits)
    have IH: "tsq_items (bus_queue b1) @ acc = pop2 @ tsq_items (bus_queue b') \<and>
        (pop2 = del2 \<or> (\<exists>e. pop2 = del2 @ [e] \<and> bus_loop b' = None))"
      using Cons.IH [of b1 s1 acc pop2 del2] r eq by simp
    from i show ?thesis
    proof (cases rule: iter_cases)
      case idle
      with IH eq show ?thesis by (simp add: popped_def)
    next
      case leave
      with IH eq show ?thesis by (simp add: popped_def)
    next
      case (drop e)
      have "pop2 = [] \<and> del2 = [] \<and> bus_loop b' = None"
        using bus_run_dead [OF drop(4) r] eq by simp
      moreover have "popped b b1 = [e]" using drop(1) by (simp add: popped_def)
      ultimately show ?thesis using drop IH eq by simp
    next
      case (deliver e flag flag')
      have "popped b b1 = [e]" using deliver(1) by (simp add: popped_def)
      with deliver IH eq show ?thesis by auto
    qed
  next
    case StopOp
    have "bus_queue (EventBus_Stop b) = bus_queue b" by (simp add: EventBus_Stop_def)
    with Cons.IH [of "EventBus_Stop b" s acc pop del] Cons.prems StopOp show ?thesis by simp
  qed
qed simp

subsection \<open>Dispatching\<close>

text \<open>What the watchers before the last one do when none of them ends the round.\<close>

fun bus_through :: "'s BusWatcher list \<Rightarrow> Event \<Rightarrow> 's \<Rightarrow> 's" where
  "bus_through [] e s = s"
| "bus_through (w # ws) e s = bus_through ws e (snd (w e s))"

definition passes :: "Event \<Rightarrow> 's BusWatcher \<Rightarrow> bool" where
  "passes e w \<longleftrightarrow> (\<forall>s. fst (w e s) \<noteq> EVENT_HANDLE_INTERCEPTION \<and> fst (w e s) \<noteq> EVENT_HANDLE_STOP)"

lemma bus_dispatch_through:
  "\<forall>w\<in>set ws. passes e w \<Longrightarrow>
   bus_dispatch (ws @ w # ws') e flag s =
     (let (f, s') = w e (bus_through ws e s)
      in if f = EVENT_HANDLE_INTERCEPTION \<or> f = EVENT_HANDLE_STOP then (f, s')
         else bus_dispatch ws' e f s')"
proof (induction ws arbitrary: flag s)
  case (Cons a ws)
  then have "fst (a e s) \<noteq> EVENT_HANDLE_INTERCEPTION" "fst (a e s) \<noteq> EVENT_HANDLE_STOP"
    by (auto simp: passes_def)
  with Cons show ?case by (simp add: case_prod_beta Let_def)
qed simp

text \<open>\<^verbatim>\<open>push_front\<close>: a later watcher runs earlier, so the one the constructor adds runs last.\<close>

lemma AddBusWatch_order:
  "bus_watchers (fold (\<lambda>w b. snd (EventBus_AddBusWatch w b)) ws b) = rev ws @ bus_watchers b"
  by (induction ws arbitrary: b) (auto simp: EventBus_AddBusWatch_def)

lemma iter_deliver:
  assumes "bus_running b" and "bus_loop b = Some flag" and "tsq_items (bus_queue b) = e # q"
    and "ev_type e \<noteq> EVENT_INVALID" and "ev_type e \<noteq> EVENT_STOP"
    and "bus_dispatch (bus_watchers b) e flag s = (flag', s')"
  shows "EventBus_EventLoop_iter False (b, s) =
    ((b\<lparr>bus_queue := (bus_queue b)\<lparr>tsq_items := q\<rparr>,
        bus_loop := if flag' = EVENT_HANDLE_STOP then None else Some flag'\<rparr>, s'), Some e)"
  using assms
  by (cases b) (simp add: EventBus_EventLoop_iter_def EventBus_PollEvent_def ThreadSafeQueue_WaitAndTryPop_def)

fun posts :: "bus_op list \<Rightarrow> Event list" where
  "posts [] = []"
| "posts (PostOp e # ops) = e # posts ops"
| "posts (IterOp _ # ops) = posts ops"
| "posts (StopOp # ops) = posts ops"

lemma bus_run_dead_posts:
  "bus_loop b = None \<Longrightarrow> bus_running b \<Longrightarrow> StopOp \<notin> set ops \<Longrightarrow> fst (snd (bus_run ops (b, s))) = posts ops"
proof (induction ops arbitrary: b)
  case (Cons a ops)
  show ?case
  proof (cases a)
    case (PostOp e)
    let ?b = "snd (EventBus_PostEvent e b)"
    have "EventBus_PostEvent e b = (True, ?b)" "bus_loop ?b = None" "bus_running ?b"
      using Cons.prems by (auto simp: EventBus_PostEvent_def)
    with Cons.IH [of ?b] Cons.prems PostOp show ?thesis
      by (cases "EventBus_PostEvent e b") (simp add: case_prod_beta Let_def)
  next
    case (IterOp st)
    have "EventBus_EventLoop_iter st (b, s) = ((b, s), None)"
      using Cons.prems(1) by (simp add: EventBus_EventLoop_iter_def)
    with Cons.IH [of b] Cons.prems IterOp show ?thesis by (simp add: case_prod_beta Let_def)
  next
    case StopOp
    with Cons.prems(3) show ?thesis by simp
  qed
qed simp

subsection \<open>Properties\<close>

text \<open>
  C9. Delivery order of the event bus: in every interleaving of posts, bus-thread iterations and
  stops, the events taken from the queue are exactly the accepted ones in order (what was queued,
  then what was accepted, equals what was taken, then what is still queued), and every event
  taken is handed to the watchers except at most the last one, taken as the bus thread leaves.
\<close>

theorem bus_delivery_order:
  "case bus_run ops (b, s) of ((b', s'), acc, pop, del) \<Rightarrow>
     tsq_items (bus_queue b) @ acc = pop @ tsq_items (bus_queue b') \<and>
     (pop = del \<or> (\<exists>e. pop = del @ [e] \<and> bus_loop b' = None))"
  using bus_run_queue [of ops b s] by (auto split: prod.splits)

text \<open>
  An error event ends event handling: with the pipeline's own watcher registered first (so
  run last) and no other watcher intercepting, the bus thread pushes exactly one \<^verbatim>\<open>ERROR_MSG\<close> and
  leaves its loop; whatever happens next short of a stop, \<^verbatim>\<open>PostEvent\<close> keeps accepting events
  and none of them reaches a watcher.
\<close>

theorem bus_error_event_last:
  assumes "bus_running b" and "bus_loop b = Some flag" and "tsq_items (bus_queue b) = e # q"
    and "ev_type e = EVENT_ERROR" and "bus_watchers b = ws @ [Pipeline_DefaultBusWatch]"
    and "\<forall>w\<in>set ws. passes e w" and "StopOp \<notin> set ops"
  shows "case bus_run (IterOp False # ops) (b, s) of ((b', s'), acc, pop, del) \<Rightarrow>
     del = [e] \<and> acc = posts ops \<and> tsq_items (bus_queue b') = q @ posts ops \<and>
     tsq_items s' = tsq_items (bus_through ws e s) @
       [\<lparr>msg_type = ERROR_MSG, msg_stream_id = ev_stream_id e, msg_module_name = ev_module_name e,
         msg_pts = - 1\<rparr>]"
proof -
  let ?s = "snd (Pipeline_DefaultBusWatch e (bus_through ws e s))"
  let ?b = "b\<lparr>bus_queue := (bus_queue b)\<lparr>tsq_items := q\<rparr>, bus_loop := None\<rparr>"
  have dw: "Pipeline_DefaultBusWatch e t =
      (EVENT_HANDLE_STOP, t\<lparr>tsq_items := tsq_items t @
       [\<lparr>msg_type = ERROR_MSG, msg_stream_id = ev_stream_id e, msg_module_name = ev_module_name e,
         msg_pts = - 1\<rparr>]\<rparr>)" for t
    using assms(4) by (simp add: Pipeline_DefaultBusWatch_def Pipeline_UpdateByStreamMsg_def
        ThreadSafeQueue_Push_def)
  have "bus_dispatch (bus_watchers b) e flag s = (EVENT_HANDLE_STOP, ?s)"
    using bus_dispatch_through [OF assms(6), of "Pipeline_DefaultBusWatch" "[]" flag s]
    by (simp add: assms(5) dw)
  then have it: "EventBus_EventLoop_iter False (b, s) = ((?b, ?s), Some e)"
    using iter_deliver [OF assms(1-3)] assms(4) by fastforce
  obtain b2 s2 acc pop del where r: "bus_run ops (?b, ?s) = ((b2, s2), acc, pop, del)"
    by (metis prod.exhaust)
  have "acc = posts ops" using bus_run_dead_posts [of ?b ops ?s] assms(1,7) r by simp
  with bus_run_dead [OF _ r] it r show ?thesis by (simp add: dw)
qed

definition error_event :: Event where
  "error_event = \<lparr>ev_type = EVENT_ERROR, ev_stream_id = ''s0'', ev_message = [], ev_module_name = ''m0'',
                  ev_thread_id = 1\<rparr>"

definition error_bus :: "StreamMsg ThreadSafeQueue EventBus" where
  "error_bus = \<lparr>bus_running = True, bus_queue = \<lparr>tsq_items = [error_event]\<rparr>,
     bus_watchers = [Pipeline_DefaultBusWatch], bus_loop = Some EVENT_HANDLE_NULL, bus_joinable = True\<rparr>"

theorem bus_error_event_last_witness:
  "case bus_run [IterOp False, PostOp error_event, IterOp False] (error_bus, \<lparr>tsq_items = []\<rparr>) of
     ((b', s'), acc, pop, del) \<Rightarrow>
     del = [error_event] \<and> acc = [error_event] \<and> tsq_items (bus_queue b') = [error_event] \<and>
     tsq_items s' = [\<lparr>msg_type = ERROR_MSG, msg_stream_id = ''s0'', msg_module_name = ''m0'', msg_pts = - 1\<rparr>]"
  using bus_error_event_last [of error_bus EVENT_HANDLE_NULL error_event "[]" "[]"
      "[PostOp error_event, IterOp False]" "\<lparr>tsq_items = []\<rparr>"]
  by (simp add: error_bus_def error_event_def)

end
