(* ===== verification/Config.thy ===== *)
theory Config
  imports Prelude "HOL-Library.List_Lexorder" "HOL-Library.Char_ord"
begin

section \<open>Configurations: unistream_config\<close>

text \<open>
  \<^verbatim>\<open>framework/include/unistream_config.hpp\<close>, \<^verbatim>\<open>framework/src/unistream_config.cpp\<close> and the item
  names of \<^verbatim>\<open>framework/include/private/unistream_common_pri.hpp\<close>.  The JSON text is read and
  written by rapidjson, which is not part of the repository's own code: \<open>parse\<close> (text to value,
  \<open>None\<close> on a parse error) and \<open>write\<close> (value to text) are parameters, and what is proved of a
  nested configuration relies on \<open>parse (write v) = Some v\<close> for the values at hand.

  A parser of the source fills the members of its object and returns whether it succeeded.
  Every caller drops the object of a failed parse, so here the parsers give back the filled
  object or \<open>None\<close>; \<open>Inl AssertFailed\<close> is rapidjson's assertion that a value whose members are
  looked up is an object.
\<close>

datatype json =
    JNull
  | JBool bool
  | JInt int
  | JDouble string
  | JString string
  | JArray "json list"
  | JObject "(string \<times> json) list"

definition IsUint :: "json \<Rightarrow> bool" where
  "IsUint j = (case j of JInt i \<Rightarrow> 0 \<le> i \<and> i < 2 ^ 32 | _ \<Rightarrow> False)"

definition IsUint64 :: "json \<Rightarrow> bool" where
  "IsUint64 j = (case j of JInt i \<Rightarrow> 0 \<le> i \<and> i < 2 ^ 64 | _ \<Rightarrow> False)"

text \<open>\<^verbatim>\<open>int x = v.GetUint()\<close>: the 32 bits are read as a signed integer.\<close>

definition int_of_uint :: "json \<Rightarrow> int" where
  "int_of_uint j = (case j of JInt i \<Rightarrow> sint (word_of_int i :: u32) | _ \<Rightarrow> 0)"

text \<open>A \<^verbatim>\<open>std::string\<close> made from \<^verbatim>\<open>GetString()\<close>, a C string, ends at the first NUL.\<close>

definition c_str :: "string \<Rightarrow> string" where
  "c_str s = takeWhile (\<lambda>c. c \<noteq> CHR 0x00) s"

text \<open>\<^verbatim>\<open>std::set<std::string>::insert\<close> on the sorted sequence of the elements.\<close>

definition set_insert :: "'a::linorder \<Rightarrow> 'a list \<Rightarrow> 'a list" where
  "set_insert x xs = (if x \<in> set xs then xs else insort x xs)"

subsection \<open>Item names and paths\<close>

definition kProfilerConfigName :: string where "kProfilerConfigName = ''profiler_config''"
definition kSubgraphConfigPrefix :: string where "kSubgraphConfigPrefix = ''subgraph:''"
definition UNIS_JSON_DIR_PARAM_NAME :: string where "UNIS_JSON_DIR_PARAM_NAME = ''json_file_dir''"
definition UNIS_DATA_ROOT_PATH_PARAM_NAME :: string where
  "UNIS_DATA_ROOT_PATH_PARAM_NAME = ''data_root_path''"

definition IsProfilerItem :: "string \<Rightarrow> bool" where
  "IsProfilerItem s \<longleftrightarrow> kProfilerConfigName = s"

definition IsSubgraphItem :: "string \<Rightarrow> bool" where
  "IsSubgraphItem s \<longleftrightarrow> length s > length kSubgraphConfigPrefix \<and>
     kSubgraphConfigPrefix = take (length kSubgraphConfigPrefix) s"

definition NameIgnoreSubgraphPrefix :: "string \<Rightarrow> string" where
  "NameIgnoreSubgraphPrefix s = drop (length kSubgraphConfigPrefix) s"

definition IsNodeNameValid :: "string \<Rightarrow> bool" where
  "IsNodeNameValid s =
     (let t = (if IsSubgraphItem s then NameIgnoreSubgraphPrefix s else s)
      in CHR ''/'' \<notin> set t \<and> CHR '':'' \<notin> set t)"

text \<open>\<^verbatim>\<open>path.substr(0, path.rfind("/")) + "/"\<close>, or the empty string without a slash.\<close>

definition GetPathDir :: "string \<Rightarrow> string" where
  "GetPathDir p = (if CHR ''/'' \<notin> set p then [] else rev (dropWhile (\<lambda>c. c \<noteq> CHR ''/'') (rev p)))"

definition path_relative :: "string \<Rightarrow> string \<Rightarrow> string" where
  "path_relative dir p = (if length p > 0 \<and> hd p = CHR ''/'' then p else dir @ p)"

definition GetPathRelativeToTheJSONFile :: "string \<Rightarrow> (string \<rightharpoonup> string) \<Rightarrow> string" where
  "GetPathRelativeToTheJSONFile p ps =
     path_relative (case ps UNIS_JSON_DIR_PARAM_NAME of None \<Rightarrow> ''./'' | Some d \<Rightarrow> d) p"

definition GetPathRelativeToDataRootPath :: "string \<Rightarrow> (string \<rightharpoonup> string) \<Rightarrow> string" where
  "GetPathRelativeToDataRootPath p ps =
     path_relative (case ps UNIS_DATA_ROOT_PATH_PARAM_NAME of None \<Rightarrow> ''./'' | Some d \<Rightarrow> d) p"

subsection \<open>The configuration objects\<close>

record ProfilerConfig =
  enable_profiling :: bool
  enable_tracing :: bool
  trace_event_capacity :: u64

record UNIModuleConfig =
  mod_root_dir :: string
  mod_name :: string
  parameters :: "string \<rightharpoonup> string"
  parallelism :: int
  priority :: int
  max_input_queue_size :: int
  class_name :: string
  mod_next :: "string list"

record UNISubgraphConfig =
  sub_root_dir :: string
  sub_name :: string
  config_path :: string
  sub_next :: "string list"

record UNIGraphConfig =
  graph_root_dir :: string
  graph_name :: string
  profiler_config :: ProfilerConfig
  module_configs :: "UNIModuleConfig list"
  subgraph_configs :: "UNISubgraphConfig list"

definition ProfilerConfig_new :: ProfilerConfig where
  "ProfilerConfig_new = \<lparr>enable_profiling = False, enable_tracing = False, trace_event_capacity = 100000\<rparr>"

text \<open>
  A default-initialised \<^verbatim>\<open>UNIModuleConfig\<close> leaves its three integers indeterminate; a successful
  parse writes all three, so the zeros here are never read.
\<close>

definition UNIModuleConfig_new :: UNIModuleConfig where
  "UNIModuleConfig_new = \<lparr>mod_root_dir = [], mod_name = [], parameters = Map.empty, parallelism = 0,
     priority = 0, max_input_queue_size = 0, class_name = [], mod_next = []\<rparr>"

definition UNISubgraphConfig_new :: UNISubgraphConfig where
  "UNISubgraphConfig_new = \<lparr>sub_root_dir = [], sub_name = [], config_path = [], sub_next = []\<rparr>"

definition UNIGraphConfig_new :: UNIGraphConfig where
  "UNIGraphConfig_new = \<lparr>graph_root_dir = [], graph_name = [], profiler_config = ProfilerConfig_new,
     module_configs = [], subgraph_configs = []\<rparr>"

subsection \<open>Parsing\<close>

fun ProfilerConfig_members ::
  "(string \<times> json) list \<Rightarrow> ProfilerConfig \<Rightarrow> ProfilerConfig option" where
  "ProfilerConfig_members [] c = Some c"
| "ProfilerConfig_members ((k, v) # ms) c =
     (if ''enable_profiling'' = k then
        (case v of JBool b \<Rightarrow> ProfilerConfig_members ms (c\<lparr>enable_profiling := b\<rparr>) | _ \<Rightarrow> None)
      else if ''enable_tracing'' = k then
        (case v of JBool b \<Rightarrow> ProfilerConfig_members ms (c\<lparr>enable_tracing := b\<rparr>) | _ \<Rightarrow> None)
      else if ''trace_event_capacity'' = k then
        (case v of JInt i \<Rightarrow> if IsUint64 v
             then ProfilerConfig_members ms (c\<lparr>trace_event_capacity := word_of_int i\<rparr>) else None
         | _ \<Rightarrow> None)
      else None)"

definition json_members :: "json \<Rightarrow> (string \<times> json) list result" where
  "json_members j = (case j of JObject ms \<Rightarrow> Inr ms | _ \<Rightarrow> Inl AssertFailed)"

definition ProfilerConfig_ParseByJSONStr ::
  "(string \<Rightarrow> json option) \<Rightarrow> string \<Rightarrow> ProfilerConfig \<Rightarrow> ProfilerConfig option result" where
  "ProfilerConfig_ParseByJSONStr parse jstr c =
     (case parse (c_str jstr) of
        None \<Rightarrow> Inr None
      | Some doc \<Rightarrow> (case json_members doc of
          Inl e \<Rightarrow> Inl e
        | Inr ms \<Rightarrow> Inr (ProfilerConfig_members ms c)))"

text \<open>\<^verbatim>\<open>next_modules\<close>: an array of strings, inserted into the set one by one.\<close>

fun next_strings :: "json list \<Rightarrow> string list \<Rightarrow> string list option" where
  "next_strings [] acc = Some acc"
| "next_strings (v # vs) acc =
     (case v of JString s \<Rightarrow> next_strings vs (set_insert (c_str s) acc) | _ \<Rightarrow> None)"

definition parse_next :: "(string \<times> json) list \<Rightarrow> string list \<Rightarrow> string list option" where
  "parse_next ms old =
     (case map_of ms ''next_modules'' of
        None \<Rightarrow> Some []
      | Some (JArray vs) \<Rightarrow> next_strings vs old
      | Some _ \<Rightarrow> None)"

text \<open>An unsigned member with a default: \<open>None\<close> is a member of another type.\<close>

definition uint_member :: "(string \<times> json) list \<Rightarrow> string \<Rightarrow> int \<Rightarrow> int option" where
  "uint_member ms k dflt =
     (case map_of ms k of
        None \<Rightarrow> Some dflt
      | Some v \<Rightarrow> if IsUint v then Some (int_of_uint v) else None)"

text \<open>
  \<^verbatim>\<open>custom_params\<close>: every value becomes a string (a JSON string itself, any other value its
  text); \<^verbatim>\<open>std::map::insert\<close> keeps the first of two equal keys.
\<close>

fun param_members ::
  "(json \<Rightarrow> string) \<Rightarrow> (string \<times> json) list \<Rightarrow> (string \<rightharpoonup> string) \<Rightarrow> (string \<rightharpoonup> string)" where
  "param_members write [] ps = ps"
| "param_members write ((k, v) # ms) ps =
     param_members write ms
       (if ps (c_str k) = None
        then ps(c_str k \<mapsto> c_str (case v of JString s \<Rightarrow> s | _ \<Rightarrow> write v)) else ps)"

definition parse_params ::
  "(json \<Rightarrow> string) \<Rightarrow> (string \<times> json) list \<Rightarrow> string \<Rightarrow> (string \<rightharpoonup> string) option" where
  "parse_params write ms dir =
     (case map_of ms ''custom_params'' of
        None \<Rightarrow> Some Map.empty
      | Some (JObject ps) \<Rightarrow>
          Some ((param_members write ps Map.empty)(UNIS_JSON_DIR_PARAM_NAME \<mapsto> dir))
      | Some _ \<Rightarrow> None)"

definition UNIModuleConfig_members ::
  "(json \<Rightarrow> string) \<Rightarrow> (string \<times> json) list \<Rightarrow> UNIModuleConfig \<Rightarrow> UNIModuleConfig option" where
  "UNIModuleConfig_members write ms c =
     (case map_of ms ''class_name'' of
        Some (JString cls) \<Rightarrow>
          (case uint_member ms ''parallelism'' 1 of None \<Rightarrow> None | Some par \<Rightarrow>
           case uint_member ms ''priority'' (- 1) of None \<Rightarrow> None | Some pri \<Rightarrow>
           case uint_member ms ''max_input_queue_size'' 20 of None \<Rightarrow> None | Some qs \<Rightarrow>
           case parse_next ms (mod_next c) of None \<Rightarrow> None | Some nx \<Rightarrow>
           case parse_params write ms (mod_root_dir c) of None \<Rightarrow> None | Some ps \<Rightarrow>
             Some (c\<lparr>class_name := c_str cls, parallelism := par, priority := pri,
                     max_input_queue_size := qs, mod_next := nx, parameters := ps\<rparr>))
      | _ \<Rightarrow> None)"

definition UNIModuleConfig_ParseByJSONStr ::
  "(string \<Rightarrow> json option) \<Rightarrow> (json \<Rightarrow> string) \<Rightarrow> string \<Rightarrow> UNIModuleConfig \<Rightarrow>
     UNIModuleConfig option result" where
  "UNIModuleConfig_ParseByJSONStr parse write jstr c =
     (case parse (c_str jstr) of
        None \<Rightarrow> Inr None
      | Some doc \<Rightarrow> (case json_members doc of
          Inl e \<Rightarrow> Inl e
        | Inr ms \<Rightarrow> Inr (UNIModuleConfig_members write ms c)))"

definition UNISubgraphConfig_ParseByJSONStr ::
  "(string \<Rightarrow> json option) \<Rightarrow> string \<Rightarrow> UNISubgraphConfig \<Rightarrow> UNISubgraphConfig option result" where
  "UNISubgraphConfig_ParseByJSONStr parse jstr c =
     (case parse (c_str jstr) of
        None \<Rightarrow> Inr None
      | Some doc \<Rightarrow> (case json_members doc of
          Inl e \<Rightarrow> Inl e
        | Inr ms \<Rightarrow> Inr
            (case map_of ms ''config_path'' of
               Some (JString p) \<Rightarrow>
                 (case parse_next ms (sub_next c) of None \<Rightarrow> None | Some nx \<Rightarrow>
                    Some (c\<lparr>config_path := sub_root_dir c @ c_str p, sub_next := nx\<rparr>))
             | _ \<Rightarrow> None)))"

text \<open>One item of a graph configuration, and the loop over the items.\<close>

definition UNIGraphConfig_item ::
  "(string \<Rightarrow> json option) \<Rightarrow> (json \<Rightarrow> string) \<Rightarrow> string \<times> json \<Rightarrow> UNIGraphConfig \<Rightarrow>
     UNIGraphConfig option result" where
  "UNIGraphConfig_item parse write m g =
     (let item_name = c_str (fst m); item_value = c_str (write (snd m))
      in if IsProfilerItem item_name then
           map_sum id (map_option (\<lambda>p. g\<lparr>profiler_config := p\<rparr>))
             (ProfilerConfig_ParseByJSONStr parse item_value (profiler_config g))
         else if IsSubgraphItem item_name then
           map_sum id (map_option (\<lambda>c. g\<lparr>subgraph_configs := subgraph_configs g @
                 [c\<lparr>config_path := graph_root_dir g @ config_path c\<rparr>]\<rparr>))
             (UNISubgraphConfig_ParseByJSONStr parse item_value
                (UNISubgraphConfig_new\<lparr>sub_name := item_name\<rparr>))
         else
           map_sum id (map_option (\<lambda>c. g\<lparr>module_configs := module_configs g @ [c]\<rparr>))
             (UNIModuleConfig_ParseByJSONStr parse write item_value
                (UNIModuleConfig_new\<lparr>mod_root_dir := graph_root_dir g, mod_name := item_name\<rparr>)))"

fun UNIGraphConfig_items ::
  "(string \<Rightarrow> json option) \<Rightarrow> (json \<Rightarrow> string) \<Rightarrow> (string \<times> json) list \<Rightarrow> UNIGraphConfig \<Rightarrow>
     UNIGraphConfig option result" where
  "UNIGraphConfig_items parse write [] g = Inr (Some g)"
| "UNIGraphConfig_items parse write (m # ms) g =
     (case UNIGraphConfig_item parse write m g of
        Inl e \<Rightarrow> Inl e
      | Inr None \<Rightarrow> Inr None
      | Inr (Some g') \<Rightarrow> UNIGraphConfig_items parse write ms g')"

definition UNIGraphConfig_ParseByJSONStr ::
  "(string \<Rightarrow> json option) \<Rightarrow> (json \<Rightarrow> string) \<Rightarrow> string \<Rightarrow> UNIGraphConfig \<Rightarrow>
     UNIGraphConfig option result" where
  "UNIGraphConfig_ParseByJSONStr parse write jstr g =
     (case parse (c_str jstr) of
        None \<Rightarrow> Inr None
      | Some doc \<Rightarrow> (case json_members doc of
          Inl e \<Rightarrow> Inl e
        | Inr ms \<Rightarrow> UNIGraphConfig_items parse write ms g))"

text \<open>\<^verbatim>\<open>ParseByJSONFile\<close>: \<open>files\<close> gives the contents of the files that can be opened.\<close>

definition UNIGraphConfig_ParseByJSONFile ::
  "(string \<rightharpoonup> string) \<Rightarrow> (string \<Rightarrow> json option) \<Rightarrow> (json \<Rightarrow> string) \<Rightarrow> string \<Rightarrow> UNIGraphConfig \<Rightarrow>
     UNIGraphConfig option result" where
  "UNIGraphConfig_ParseByJSONFile files parse write jfile g =
     (case files jfile of
        None \<Rightarrow> Inr None
      | Some jstr \<Rightarrow>
          UNIGraphConfig_ParseByJSONStr parse write jstr (g\<lparr>graph_root_dir := GetPathDir jfile\<rparr>))"

subsection \<open>Reading back a module configuration\<close>

lemma c_str_id: "CHR 0x00 \<notin> set s \<Longrightarrow> c_str s = s"
  by (auto simp: c_str_def takeWhile_eq_all_conv)

lemma c_str_idem [simp]: "c_str (c_str s) = c_str s"
  by (simp add: c_str_def)

lemma set_set_insert [simp]: "set (set_insert x xs) = insert x (set xs)"
  by (auto simp: set_insert_def set_insort_key)

lemma set_insert_sorted: "sorted xs \<and> distinct xs \<Longrightarrow> sorted (set_insert x xs) \<and> distinct (set_insert x xs)"
  by (auto simp: set_insert_def sorted_insort distinct_insort)

lemma next_strings_sorted:
  "next_strings vs acc = Some nx \<Longrightarrow> sorted acc \<and> distinct acc \<Longrightarrow> sorted nx \<and> distinct nx"
proof (induction vs acc rule: next_strings.induct)
  case (2 v vs acc)
  then obtain s where "v = JString s" by (auto split: json.splits)
  with 2 set_insert_sorted [of acc "c_str s"] show ?case by auto
qed simp

lemma next_strings_set:
  "next_strings (map JString xs) acc = Some nx \<Longrightarrow> set nx = c_str ` set xs \<union> set acc"
  by (induction xs arbitrary: acc) auto

lemma next_strings_total: "\<exists>nx. next_strings (map JString xs) acc = Some nx"
  by (induction xs arbitrary: acc) auto

text \<open>A writer of module configurations, in the format the header documents.\<close>

definition module_json :: "UNIModuleConfig \<Rightarrow> (string \<times> string) list \<Rightarrow> (string \<times> json) list" where
  "module_json c ps =
     [(''class_name'', JString (class_name c)), (''parallelism'', JInt (parallelism c)),
      (''priority'', JInt (priority c)), (''max_input_queue_size'', JInt (max_input_queue_size c)),
      (''next_modules'', JArray (map JString (mod_next c))),
      (''custom_params'', JObject (map (\<lambda>(k, v). (k, JString v)) ps))]"

definition module_printable :: "UNIModuleConfig \<Rightarrow> (string \<times> string) list \<Rightarrow> bool" where
  "module_printable c ps \<longleftrightarrow> CHR 0x00 \<notin> set (class_name c) \<and>
     0 \<le> parallelism c \<and> parallelism c < 2 ^ 31 \<and> 0 \<le> priority c \<and> priority c < 2 ^ 31 \<and>
     0 \<le> max_input_queue_size c \<and> max_input_queue_size c < 2 ^ 31 \<and>
     sorted (mod_next c) \<and> distinct (mod_next c) \<and> (\<forall>s\<in>set (mod_next c). CHR 0x00 \<notin> set s) \<and>
     distinct (map fst ps) \<and> (\<forall>(k, v)\<in>set ps. CHR 0x00 \<notin> set k \<and> CHR 0x00 \<notin> set v) \<and>
     UNIS_JSON_DIR_PARAM_NAME \<notin> fst ` set ps \<and>
     parameters c = (map_of ps)(UNIS_JSON_DIR_PARAM_NAME \<mapsto> mod_root_dir c)"

lemma int_of_uint_small: "0 \<le> i \<Longrightarrow> i < 2 ^ 31 \<Longrightarrow> IsUint (JInt i) \<and> int_of_uint (JInt i) = i"
  by (simp add: IsUint_def int_of_uint_def signed_of_int signed_take_bit_int_eq_self)

lemma param_members_print:
  "\<forall>(k, v)\<in>set ps. CHR 0x00 \<notin> set k \<and> CHR 0x00 \<notin> set v \<Longrightarrow> distinct (map fst ps) \<Longrightarrow>
   dom m \<inter> fst ` set ps = {} \<Longrightarrow>
   param_members write (map (\<lambda>(k, v). (k, JString v)) ps) m = m ++ map_of ps"
proof (induction ps arbitrary: m)
  case (Cons p ps)
  obtain k v where p: "p = (k, v)" by fastforce
  have "map_of ps k = None" using Cons.prems(2) p by (auto simp: map_of_eq_None_iff)
  moreover have "m k = None" using Cons.prems(3) p by auto
  moreover have "dom (m(k \<mapsto> v)) \<inter> fst ` set ps = {}" using Cons.prems(2,3) p by auto
  ultimately show ?case
    using Cons p by (auto simp: c_str_id fun_eq_iff map_add_def split: option.splits)
qed simp

lemma next_strings_append:
  "\<forall>s\<in>set xs. CHR 0x00 \<notin> set s \<Longrightarrow> sorted (acc @ xs) \<Longrightarrow> distinct (acc @ xs) \<Longrightarrow>
   next_strings (map JString xs) acc = Some (acc @ xs)"
proof (induction xs arbitrary: acc)
  case (Cons x xs)
  have "insort x acc = acc @ [x]"
    using Cons.prems(2) by (induction acc) (auto simp: insort_is_Cons)
  then have "set_insert (c_str x) acc = acc @ [x]"
    using Cons.prems by (simp add: set_insert_def c_str_id)
  with Cons show ?case by simp
qed simp

lemma module_members_print:
  assumes "module_printable c ps" and "mod_root_dir c0 = mod_root_dir c" and "mod_name c0 = mod_name c"
    and "mod_next c0 = []"
  shows "UNIModuleConfig_members write (module_json c ps) c0 = Some c"
proof -
  have "parse_next (module_json c ps) (mod_next c0) = Some (mod_next c)"
    using assms(1) next_strings_append [of "mod_next c" "[]"]
    by (simp add: parse_next_def module_json_def module_printable_def assms(4))
  moreover have "parse_params write (module_json c ps) (mod_root_dir c0) = Some (parameters c)"
    using assms(1,2) param_members_print [of ps Map.empty "write"]
    by (auto simp: parse_params_def module_json_def module_printable_def)
  moreover have "uint_member (module_json c ps) ''parallelism'' 1 = Some (parallelism c)"
    "uint_member (module_json c ps) ''priority'' (- 1) = Some (priority c)"
    "uint_member (module_json c ps) ''max_input_queue_size'' 20 = Some (max_input_queue_size c)"
    using assms(1) int_of_uint_small
    by (auto simp: uint_member_def module_json_def module_printable_def)
  moreover have "map_of (module_json c ps) ''class_name'' = Some (JString (class_name c))"
    by (simp add: module_json_def)
  ultimately show ?thesis
    using assms by (simp add: UNIModuleConfig_members_def module_printable_def c_str_id)
qed

subsection \<open>The items of a graph configuration\<close>

definition is_module_item :: "string \<times> json \<Rightarrow> bool" where
  "is_module_item m \<longleftrightarrow> \<not> IsProfilerItem (c_str (fst m)) \<and> \<not> IsSubgraphItem (c_str (fst m))"

definition is_subgraph_item :: "string \<times> json \<Rightarrow> bool" where
  "is_subgraph_item m \<longleftrightarrow> \<not> IsProfilerItem (c_str (fst m)) \<and> IsSubgraphItem (c_str (fst m))"

lemma module_members_frame:
  "UNIModuleConfig_members write ms c = Some c' \<Longrightarrow> mod_name c' = mod_name c \<and> mod_root_dir c' = mod_root_dir c"
  by (auto simp: UNIModuleConfig_members_def split: option.splits json.splits)

lemma module_parse_frame:
  "UNIModuleConfig_ParseByJSONStr parse write j c = Inr (Some c') \<Longrightarrow>
   mod_name c' = mod_name c \<and> mod_root_dir c' = mod_root_dir c"
  by (auto simp: UNIModuleConfig_ParseByJSONStr_def split: option.splits sum.splits
      dest: module_members_frame)

lemma subgraph_parse_frame:
  "UNISubgraphConfig_ParseByJSONStr parse j c = Inr (Some c') \<Longrightarrow> sub_name c' = sub_name c"
  by (auto simp: UNISubgraphConfig_ParseByJSONStr_def split: option.splits sum.splits json.splits)

lemma graph_item_cases:
  assumes "UNIGraphConfig_item parse write m g = Inr (Some g')"
  shows "graph_root_dir g' = graph_root_dir g \<and> graph_name g' = graph_name g \<and>
    (\<exists>cs. module_configs g' = module_configs g @ cs \<and>
       (if is_module_item m then \<exists>c. cs = [c] \<and> mod_name c = c_str (fst m) \<and> mod_root_dir c = graph_root_dir g \<and>
          UNIModuleConfig_ParseByJSONStr parse write (c_str (write (snd m)))
            (UNIModuleConfig_new\<lparr>mod_root_dir := graph_root_dir g, mod_name := c_str (fst m)\<rparr>) = Inr (Some c)
        else cs = [])) \<and>
    (\<exists>ss. subgraph_configs g' = subgraph_configs g @ ss \<and>
       (if is_subgraph_item m then \<exists>c. ss = [c] \<and> sub_name c = c_str (fst m) else ss = []))"
  using assms
  by (auto simp: UNIGraphConfig_item_def is_module_item_def is_subgraph_item_def Let_def map_sum_def
      UNIModuleConfig_new_def UNISubgraphConfig_new_def
      split: if_splits sum.splits option.splits
      dest!: module_parse_frame subgraph_parse_frame)

lemma graph_items_names:
  "UNIGraphConfig_items parse write ms g = Inr (Some g') \<Longrightarrow>
   map mod_name (module_configs g') = map mod_name (module_configs g) @ map (c_str \<circ> fst) (filter is_module_item ms) \<and>
   map sub_name (subgraph_configs g') = map sub_name (subgraph_configs g) @ map (c_str \<circ> fst) (filter is_subgraph_item ms) \<and>
   graph_root_dir g' = graph_root_dir g"
proof (induction parse "write" ms g rule: UNIGraphConfig_items.induct)
  case (2 parse "write" m ms g)
  from 2(2) obtain g1 where i: "UNIGraphConfig_item parse write m g = Inr (Some g1)"
    and r: "UNIGraphConfig_items parse write ms g1 = Inr (Some g')"
    by (auto split: sum.splits option.splits)
  show ?case using 2(1) [OF i refl] r graph_item_cases [OF i] by (auto split: if_splits)
qed simp

text \<open>Every module configuration a graph parse adds comes from an item, with its directory.\<close>

lemma graph_items_modules:
  "UNIGraphConfig_items parse write ms g = Inr (Some g') \<Longrightarrow> c \<in> set (module_configs g') \<Longrightarrow>
   c \<in> set (module_configs g) \<or> (\<exists>m\<in>set ms. is_module_item m \<and>
     UNIModuleConfig_ParseByJSONStr parse write (c_str (write (snd m)))
       (UNIModuleConfig_new\<lparr>mod_root_dir := graph_root_dir g, mod_name := c_str (fst m)\<rparr>) = Inr (Some c))"
proof (induction parse "write" ms g rule: UNIGraphConfig_items.induct)
  case (2 parse "write" m ms g)
  from 2(2) obtain g1 where i: "UNIGraphConfig_item parse write m g = Inr (Some g1)"
    and r: "UNIGraphConfig_items parse write ms g1 = Inr (Some g')"
    by (auto split: sum.splits option.splits)
  show ?case using 2(1) [OF i refl r] 2(3) graph_item_cases [OF i] by (auto split: if_splits)
qed simp

lemma module_parse_values:
  assumes "UNIModuleConfig_ParseByJSONStr parse write j c = Inr (Some c')"
  shows "- (2 ^ 31) \<le> parallelism c' \<and> parallelism c' < 2 ^ 31 \<and>
    (sorted (mod_next c) \<and> distinct (mod_next c) \<longrightarrow> sorted (mod_next c') \<and> distinct (mod_next c'))"
proof -
  from assms obtain ms where "UNIModuleConfig_members write ms c = Some c'"
    by (auto simp: UNIModuleConfig_ParseByJSONStr_def split: option.splits sum.splits)
  then obtain par nx where u: "uint_member ms ''parallelism'' 1 = Some par" "parallelism c' = par"
    and n: "parse_next ms (mod_next c) = Some nx" "mod_next c' = nx"
    by (auto simp: UNIModuleConfig_members_def split: option.splits json.splits)
  have s: "- (2 ^ 31) \<le> sint (w :: u32) \<and> sint w < 2 ^ 31" for w
    using sint_greater_eq [of w] sint_less [of w] by simp
  have "- (2 ^ 31) \<le> par \<and> par < 2 ^ 31"
    using u(1) s by (auto simp: uint_member_def int_of_uint_def split: option.splits if_splits json.splits)
  with u(2) n next_strings_sorted show ?thesis
    by (auto simp: parse_next_def split: option.splits json.splits)
qed

subsection \<open>Properties\<close>

text \<open>
  C10. Configuration round trip: a module configuration whose integers fit and whose strings
  have no NUL, written in the documented format, is read back unchanged, parameters and
  downstream names included.
\<close>

theorem module_config_roundtrip:
  assumes "module_printable c ps" and "parse (c_str jstr) = Some (JObject (module_json c ps))"
  shows "UNIModuleConfig_ParseByJSONStr parse write jstr
      (UNIModuleConfig_new\<lparr>mod_root_dir := mod_root_dir c, mod_name := mod_name c\<rparr>) = Inr (Some c)"
  using assms module_members_print [OF assms(1), of _ "write"]
  by (simp add: UNIModuleConfig_ParseByJSONStr_def json_members_def UNIModuleConfig_new_def)

definition osd_config :: UNIModuleConfig where
  "osd_config = \<lparr>mod_root_dir = ''cfg/'', mod_name = ''osd'',
     parameters = [''label'' \<mapsto> ''a.txt'', UNIS_JSON_DIR_PARAM_NAME \<mapsto> ''cfg/''],
     parallelism = 4, priority = 0, max_input_queue_size = 20, class_name = ''unistream::Osd'',
     mod_next = [''enc'', ''sink'']\<rparr>"

theorem module_config_roundtrip_witness:
  "UNIModuleConfig_ParseByJSONStr
     (\<lambda>_. Some (JObject (module_json osd_config [(''label'', ''a.txt'')]))) (\<lambda>_. []) ''{..}''
     (UNIModuleConfig_new\<lparr>mod_root_dir := ''cfg/'', mod_name := ''osd''\<rparr>) = Inr (Some osd_config)"
proof -
  have "module_printable osd_config [(''label'', ''a.txt'')]"
    by (simp add: module_printable_def osd_config_def UNIS_JSON_DIR_PARAM_NAME_def less_char_def less_eq_char_def)
  from module_config_roundtrip [OF this, of "\<lambda>_. Some (JObject (module_json osd_config [(''label'', ''a.txt'')]))"
      "''{..}''" "\<lambda>_. []"]
  show ?thesis by (simp add: osd_config_def)
qed

text \<open>
  A graph configuration that parses has one module per item that is neither the profiler
  item nor named as a subgraph, one subgraph per item with the subgraph prefix, both in the order
  of the items, and every such module was parsed with the directory of the configuration file.
\<close>

lemma graph_config_items:
  assumes "UNIGraphConfig_ParseByJSONFile files parse write jfile UNIGraphConfig_new = Inr (Some g)"
  shows "\<exists>jstr ms. files jfile = Some jstr \<and> parse (c_str jstr) = Some (JObject ms) \<and>
    map mod_name (module_configs g) = map (c_str \<circ> fst) (filter is_module_item ms) \<and>
    map sub_name (subgraph_configs g) = map (c_str \<circ> fst) (filter is_subgraph_item ms) \<and>
    (\<forall>c\<in>set (module_configs g). mod_root_dir c = GetPathDir jfile \<and> sorted (mod_next c) \<and>
       distinct (mod_next c) \<and> - (2 ^ 31) \<le> parallelism c \<and> parallelism c < 2 ^ 31)"
proof -
  let ?g0 = "UNIGraphConfig_new\<lparr>graph_root_dir := GetPathDir jfile\<rparr>"
  from assms obtain jstr ms where f: "files jfile = Some jstr" "parse (c_str jstr) = Some (JObject ms)"
    and r: "UNIGraphConfig_items parse write ms ?g0 = Inr (Some g)"
    by (auto simp: UNIGraphConfig_ParseByJSONFile_def UNIGraphConfig_ParseByJSONStr_def json_members_def
        split: option.splits sum.splits json.splits)
  have "mod_root_dir c = GetPathDir jfile \<and> sorted (mod_next c) \<and> distinct (mod_next c) \<and>
      - (2 ^ 31) \<le> parallelism c \<and> parallelism c < 2 ^ 31" if "c \<in> set (module_configs g)" for c
  proof -
    from graph_items_modules [OF r that] obtain m where
      p: "UNIModuleConfig_ParseByJSONStr parse write (c_str (write (snd m)))
        (UNIModuleConfig_new\<lparr>mod_root_dir := GetPathDir jfile, mod_name := c_str (fst m)\<rparr>) = Inr (Some c)"
      by (auto simp: UNIGraphConfig_new_def)
    from module_parse_frame [OF p] module_parse_values [OF p] show ?thesis
      by (simp add: UNIModuleConfig_new_def)
  qed
  with f graph_items_names [OF r] show ?thesis
    by (auto simp: UNIGraphConfig_new_def)
qed

definition small_json :: json where
  "small_json = JObject [(''src'', JObject [(''class_name'', JString ''S'')])]"

definition small_parse :: "string \<Rightarrow> json option" where
  "small_parse s = (if s = ''A'' then Some small_json
     else if s = ''M'' then Some (JObject [(''class_name'', JString ''S'')]) else None)"

theorem graph_config_items_witness:
  "\<exists>g. UNIGraphConfig_ParseByJSONFile [''cfg/a.json'' \<mapsto> ''A''] small_parse (\<lambda>_. ''M'') ''cfg/a.json''
         UNIGraphConfig_new = Inr (Some g) \<and>
     map mod_name (module_configs g) = [''src''] \<and> mod_root_dir (hd (module_configs g)) = ''cfg/''"
proof -
  obtain g where g: "UNIGraphConfig_ParseByJSONFile [''cfg/a.json'' \<mapsto> ''A''] small_parse (\<lambda>_. ''M'')
      ''cfg/a.json'' UNIGraphConfig_new = Inr (Some g)"
    by (simp add: UNIGraphConfig_ParseByJSONFile_def UNIGraphConfig_ParseByJSONStr_def small_parse_def
        c_str_def small_json_def json_members_def UNIGraphConfig_item_def IsProfilerItem_def
        IsSubgraphItem_def kProfilerConfigName_def kSubgraphConfigPrefix_def
        UNIModuleConfig_ParseByJSONStr_def UNIModuleConfig_members_def uint_member_def parse_next_def
        parse_params_def)
  have d: "GetPathDir ''cfg/a.json'' = ''cfg/''" by (simp add: GetPathDir_def)
  from graph_config_items [OF g] have "map mod_name (module_configs g) = [''src'']"
      and "\<forall>c\<in>set (module_configs g). mod_root_dir c = ''cfg/''"
    by (auto simp: d small_parse_def small_json_def c_str_def is_module_item_def IsProfilerItem_def
        IsSubgraphItem_def kProfilerConfigName_def kSubgraphConfigPrefix_def)
  moreover from calculation(1) have "hd (module_configs g) \<in> set (module_configs g)"
    by (cases "module_configs g") auto
  ultimately show ?thesis using g by (intro exI [of _ g] conjI) simp_all
qed

end
