(* ===== verification/Module.thy ===== *)
theory Module
  imports IdxManager
begin

section \<open>Modules and their factory: Module, ModuleFactory\<close>

text \<open>
  \<^verbatim>\<open>framework/include/unistream_module.hpp\<close>, \<^verbatim>\<open>framework/src/unistream_module.cpp\<close> and the factory
  of \<^verbatim>\<open>framework/include/private/unistream_module_pri.hpp\<close>.  A module is user code behind the
  virtual functions \<^verbatim>\<open>Open\<close>, \<^verbatim>\<open>Close\<close>, \<^verbatim>\<open>Process\<close>, \<^verbatim>\<open>OnEos\<close>; the framework's part of the object
  is its name, its index in the container, whether it transmits by itself, and the container.
  Here the container is the one pipeline of the model, so a flag; the container's index manager is
  passed along.
\<close>

record Module =
  m_name :: string
  m_id :: u64
  hasTransmit :: bool
  m_priority :: int
  m_container :: bool
  m_observer :: bool

definition Module_new :: "string \<Rightarrow> Module" where
  "Module_new name = \<lparr>m_name = name, m_id = kInvalidModuleId, hasTransmit = False, m_priority = - 1,
     m_container = False, m_observer = False\<rparr>"

definition ModuleEx_new :: "string \<Rightarrow> Module" where
  "ModuleEx_new name = (Module_new name)\<lparr>hasTransmit := True\<rparr>"

definition Module_SetPriority :: "int \<Rightarrow> Module \<Rightarrow> Module" where
  "Module_SetPriority p m = (if p < 1 \<or> p > 99 then m else m\<lparr>m_priority := p\<rparr>)"

definition Module_GetId :: "Module \<Rightarrow> IdxManager \<Rightarrow> u64 \<times> Module \<times> IdxManager" where
  "Module_GetId m mgr =
     (if m_id m = kInvalidModuleId \<and> m_container m then
        (let (i, mgr') = IdxManager_GetModuleIdx mgr in (i, m\<lparr>m_id := i\<rparr>, mgr'))
      else (m_id m, m, mgr))"

text \<open>\<^verbatim>\<open>SetContainer\<close>: \<open>True\<close> is the pipeline, \<open>False\<close> the null pointer.\<close>

definition Module_SetContainer :: "bool \<Rightarrow> Module \<Rightarrow> IdxManager \<Rightarrow> Module \<times> IdxManager" where
  "Module_SetContainer c m mgr =
     (if c then snd (Module_GetId (m\<lparr>m_container := True\<rparr>) mgr)
      else (m\<lparr>m_container := False, m_id := kInvalidModuleId\<rparr>, mgr))"

definition Module_destroy :: "Module \<Rightarrow> IdxManager \<Rightarrow> IdxManager result" where
  "Module_destroy m mgr = (if m_container m then IdxManager_ReturnModuleIdx mgr (m_id m) else Inr mgr)"

subsection \<open>The factory\<close>

text \<open>A registered creator may return the null pointer.\<close>

type_synonym ModuleFactory = "string \<rightharpoonup> (string \<Rightarrow> Module option)"

definition ModuleFactory_Register ::
  "string \<Rightarrow> (string \<Rightarrow> Module option) option \<Rightarrow> ModuleFactory \<Rightarrow> bool \<times> ModuleFactory" where
  "ModuleFactory_Register cls f reg =
     (case f of
        None \<Rightarrow> (False, reg)
      | Some fn \<Rightarrow> (if reg cls = None then (True, reg(cls \<mapsto> fn)) else (False, reg)))"

definition ModuleFactory_Create :: "ModuleFactory \<Rightarrow> string \<Rightarrow> string \<Rightarrow> Module option" where
  "ModuleFactory_Create reg cls name = (case reg cls of None \<Rightarrow> None | Some fn \<Rightarrow> fn name)"

lemma Register_first: "fst (ModuleFactory_Register cls f reg) \<longleftrightarrow> f \<noteq> None \<and> reg cls = None"
  by (auto simp: ModuleFactory_Register_def split: option.splits)

lemma Register_keeps:
  "reg c = Some fn \<Longrightarrow> snd (ModuleFactory_Register cls f reg) c = Some fn"
  by (auto simp: ModuleFactory_Register_def split: option.splits)

subsection \<open>Module indices through the container\<close>

lemma GetId_valid:
  "m_id m \<noteq> kInvalidModuleId \<Longrightarrow> Module_GetId m mgr = (m_id m, m, mgr)"
  by (simp add: Module_GetId_def)

lemma SetContainer_fresh:
  assumes "m_id m = kInvalidModuleId" and "card (module_used mgr) < 64"
    and "Module_SetContainer True m mgr = (m', mgr')"
  shows "unat (m_id m') < 64 \<and> unat (m_id m') \<notin> module_used mgr \<and> m_container m' \<and>
    m_id m' \<noteq> kInvalidModuleId \<and> m_name m' = m_name m \<and> hasTransmit m' = hasTransmit m \<and>
    module_used mgr' = insert (unat (m_id m')) (module_used mgr)"
proof -
  obtain i s' where a: "module_alloc mgr = (Some i, s')"
    using modules.alloc_total assms(2) by blast
  from modules.alloc_some [OF TrueI a] have i: "i < 64" "i \<notin> module_used mgr"
    "module_used s' = insert i (module_used mgr)" by simp_all
  obtain w s1 where g: "IdxManager_GetModuleIdx mgr = (w, s1)" by fastforce
  with a have w: "w \<noteq> kInvalidModuleId" "unat w = i" "s1 = s'"
    by (simp_all add: module_alloc_def split: if_splits)
  have "m' = m\<lparr>m_container := True, m_id := w\<rparr>" "mgr' = s'"
    using assms(1,3) g w(3) by (simp_all add: Module_SetContainer_def Module_GetId_def)
  with i w show ?thesis by simp
qed

lemma SetContainer_full:
  assumes "m_id m = kInvalidModuleId" and "module_used mgr = {..<64}"
    and "Module_SetContainer True m mgr = (m', mgr')"
  shows "m_id m' = kInvalidModuleId \<and> m_container m' \<and> mgr' = mgr"
proof -
  obtain w s' where g: "IdxManager_GetModuleIdx mgr = (w, s')" by fastforce
  then have "w = kInvalidModuleId \<and> s' = mgr"
    using assms(2) by (cases rule: GetModuleIdx_cases) (auto simp: module_used_def)
  with g assms(1,3) show ?thesis
    by (auto simp: Module_SetContainer_def Module_GetId_def)
qed

end
