(* ===== verification/Build.thy ===== *)
theory Build
  imports Config Module Queues
begin

section \<open>Building a pipeline: CreateModules, GenerateModulesMask, CreateConnectors\<close>

text \<open>
  \<^verbatim>\<open>Pipeline::BuildPipeline\<close> of \<^verbatim>\<open>framework/src/unistream_pipeline.cpp\<close>.  The pipeline sees the
  graph through four things only: the nodes in the order of \<^verbatim>\<open>DFSBegin() .. DFSEnd()\<close>, the
  downstream nodes \<^verbatim>\<open>GetNext()\<close> of a node (a set of pointers, so in the order of their
  addresses), the heads \<^verbatim>\<open>GetHeads()\<close>, and the walk \<^verbatim>\<open>head->DFSBegin()\<close> from a head.  A
  \<open>GraphView\<close> is these four, with the configuration and the full name of each node; \<^verbatim>\<open>DagView\<close>
  provides it from the graph's DAG.
\<close>

record 'n GraphView =
  gv_nodes :: "'n list"
  gv_next :: "'n \<Rightarrow> 'n list"
  gv_heads :: "'n list"
  gv_from :: "'n \<Rightarrow> 'n list"
  gv_config :: "'n \<Rightarrow> UNIModuleConfig"
  gv_full_name :: "'n \<Rightarrow> string"

text \<open>What the construction promises of a view.\<close>

definition gv_edges :: "('n, 'x) GraphView_scheme \<Rightarrow> ('n \<times> 'n) set" where
  "gv_edges g = {(u, v). u \<in> set (gv_nodes g) \<and> v \<in> set (gv_next g u)}"

definition view_ok :: "('n, 'x) GraphView_scheme \<Rightarrow> bool" where
  "view_ok g \<longleftrightarrow> distinct (gv_nodes g) \<and>
     (\<forall>u\<in>set (gv_nodes g). distinct (gv_next g u) \<and> set (gv_next g u) \<subseteq> set (gv_nodes g)) \<and>
     set (gv_heads g) = {v \<in> set (gv_nodes g). \<forall>u. (u, v) \<notin> gv_edges g} \<and>
     distinct (gv_heads g) \<and>
     (\<forall>h\<in>set (gv_heads g). set (gv_from g h) = (gv_edges g)\<^sup>* `` {h}) \<and>
     acyclic (gv_edges g)"

record NodeContext =
  ctx_module :: "Module option"
  ctx_connector :: "nat Connector option"
  parent_nodes_mask :: u64
  route_mask :: u64

definition NodeContext_new :: NodeContext where
  "NodeContext_new = \<lparr>ctx_module = None, ctx_connector = None, parent_nodes_mask = 0, route_mask = 0\<rparr>"

record 'n PipelineBase =
  pipe_graph :: "'n GraphView"
  contexts :: "'n \<Rightarrow> NodeContext"
  all_modules_mask :: u64
  idxManager :: IdxManager

definition upd_ctx ::
  "'n \<Rightarrow> (NodeContext \<Rightarrow> NodeContext) \<Rightarrow> ('n, 'x) PipelineBase_scheme \<Rightarrow> ('n, 'x) PipelineBase_scheme" where
  "upd_ctx v f p = p\<lparr>contexts := (contexts p)(v := f (contexts p v))\<rparr>"

text \<open>\<^verbatim>\<open>node->data.module->GetId()\<close>, through the container's index manager.\<close>

definition node_GetId ::
  "'n \<Rightarrow> ('n, 'x) PipelineBase_scheme \<Rightarrow> (u64 \<times> ('n, 'x) PipelineBase_scheme) result" where
  "node_GetId v p =
     (case ctx_module (contexts p v) of
        None \<Rightarrow> Inl NullPointer
      | Some m \<Rightarrow> (let (i, m', mgr) = Module_GetId m (idxManager p)
                  in Inr (i, (upd_ctx v (\<lambda>c. c\<lparr>ctx_module := Some m'\<rparr>) p)\<lparr>idxManager := mgr\<rparr>)))"

text \<open>\<^verbatim>\<open>1UL << node->data.module->GetId()\<close>\<close>

definition node_bit ::
  "'n \<Rightarrow> ('n, 'x) PipelineBase_scheme \<Rightarrow> (u64 \<times> ('n, 'x) PipelineBase_scheme) result" where
  "node_bit v p =
     (case node_GetId v p of
        Inl e \<Rightarrow> Inl e
      | Inr (i, p') \<Rightarrow> (case one_shl i of Inl e \<Rightarrow> Inl e | Inr b \<Rightarrow> Inr (b, p')))"

text \<open>\<^verbatim>\<open>CreateModules\<close>: the boolean is its result, the state what it leaves behind either way.\<close>

fun create_loop ::
  "ModuleFactory \<Rightarrow> 'n list \<Rightarrow> ('n, 'x) PipelineBase_scheme \<Rightarrow>
     (bool \<times> ('n, 'x) PipelineBase_scheme) result" where
  "create_loop reg [] p = Inr (True, p)"
| "create_loop reg (v # vs) p =
     (let cfg = gv_config (pipe_graph p) v
      in case ModuleFactory_Create reg (class_name cfg) (gv_full_name (pipe_graph p) v) of
           None \<Rightarrow> Inr (False, p)
         | Some m0 \<Rightarrow>
             (let (m1, mgr) = Module_SetContainer True m0 (idxManager p);
                  m2 = Module_SetPriority (priority cfg) m1;
                  p1 = (upd_ctx v (\<lambda>c. c\<lparr>ctx_module := Some m2, parent_nodes_mask := 0,
                                         route_mask := 0\<rparr>) p)\<lparr>idxManager := mgr\<rparr>
              in case node_bit v p1 of
                   Inl e \<Rightarrow> Inl e
                 | Inr (b, p2) \<Rightarrow>
                     create_loop reg vs (p2\<lparr>all_modules_mask := all_modules_mask p2 OR b\<rparr>)))"

definition Pipeline_CreateModules ::
  "ModuleFactory \<Rightarrow> ('n, 'x) PipelineBase_scheme \<Rightarrow> (bool \<times> ('n, 'x) PipelineBase_scheme) result" where
  "Pipeline_CreateModules reg p =
     create_loop reg (gv_nodes (pipe_graph p)) (p\<lparr>all_modules_mask := 0\<rparr>)"

text \<open>The two loops of \<^verbatim>\<open>GenerateModulesMask\<close>.\<close>

definition add_parent ::
  "'n \<Rightarrow> 'n \<Rightarrow> ('n, 'x) PipelineBase_scheme \<Rightarrow> ('n, 'x) PipelineBase_scheme result" where
  "add_parent cur nx p =
     (case node_bit cur p of
        Inl e \<Rightarrow> Inl e
      | Inr (b, p') \<Rightarrow> Inr (upd_ctx nx (\<lambda>c. c\<lparr>parent_nodes_mask := parent_nodes_mask c OR b\<rparr>) p'))"

definition add_route ::
  "'n \<Rightarrow> 'n \<Rightarrow> ('n, 'x) PipelineBase_scheme \<Rightarrow> ('n, 'x) PipelineBase_scheme result" where
  "add_route head v p =
     (case node_bit v p of
        Inl e \<Rightarrow> Inl e
      | Inr (b, p') \<Rightarrow> Inr (upd_ctx head (\<lambda>c. c\<lparr>route_mask := route_mask c OR b\<rparr>) p'))"

definition parent_masks ::
  "('n, 'x) PipelineBase_scheme \<Rightarrow> ('n, 'x) PipelineBase_scheme result" where
  "parent_masks p =
     foldM (\<lambda>cur. foldM (add_parent cur) (gv_next (pipe_graph p) cur)) (gv_nodes (pipe_graph p)) p"

definition route_masks ::
  "('n, 'x) PipelineBase_scheme \<Rightarrow> ('n, 'x) PipelineBase_scheme result" where
  "route_masks p =
     foldM (\<lambda>h. foldM (add_route h) (gv_from (pipe_graph p) h)) (gv_heads (pipe_graph p)) p"

definition Pipeline_GenerateModulesMask ::
  "('n, 'x) PipelineBase_scheme \<Rightarrow> ('n, 'x) PipelineBase_scheme result" where
  "Pipeline_GenerateModulesMask p =
     (case parent_masks p of Inl e \<Rightarrow> Inl e | Inr p' \<Rightarrow> route_masks p')"

text \<open>
  \<^verbatim>\<open>CreateConnectors\<close>.  The two integers are positive where they reach \<^verbatim>\<open>Connector\<close>'s
  \<^verbatim>\<open>size_t\<close> parameters.
\<close>

fun connector_loop ::
  "'n list \<Rightarrow> ('n, 'x) PipelineBase_scheme \<Rightarrow> bool \<times> ('n, 'x) PipelineBase_scheme" where
  "connector_loop [] p = (True, p)"
| "connector_loop (v # vs) p =
     (if parent_nodes_mask (contexts p v) \<noteq> 0 then
        (let cfg = gv_config (pipe_graph p) v
         in if parallelism cfg \<le> 0 \<or> max_input_queue_size cfg \<le> 0 then (False, p)
            else connector_loop vs (upd_ctx v (\<lambda>c. c\<lparr>ctx_connector :=
                   Some (Connector_new (nat (parallelism cfg)) (nat (max_input_queue_size cfg)))\<rparr>) p))
      else connector_loop vs p)"

definition Pipeline_CreateConnectors ::
  "('n, 'x) PipelineBase_scheme \<Rightarrow> bool \<times> ('n, 'x) PipelineBase_scheme" where
  "Pipeline_CreateConnectors p = connector_loop (gv_nodes (pipe_graph p)) p"

text \<open>\<^verbatim>\<open>BuildPipeline\<close>: \<open>gr\<close> is what \<^verbatim>\<open>graph_->Init\<close> produced, \<open>None\<close> its failure.\<close>

definition Pipeline_BuildPipeline ::
  "ModuleFactory \<Rightarrow> 'n GraphView option \<Rightarrow> ('n, 'x) PipelineBase_scheme \<Rightarrow>
     (bool \<times> ('n, 'x) PipelineBase_scheme) result" where
  "Pipeline_BuildPipeline reg gr p =
     (case gr of
        None \<Rightarrow> Inr (False, p)
      | Some g \<Rightarrow>
          (case Pipeline_CreateModules reg (p\<lparr>pipe_graph := g, contexts := (\<lambda>_. NodeContext_new)\<rparr>) of
             Inl e \<Rightarrow> Inl e
           | Inr (False, p1) \<Rightarrow> Inr (False, p1)
           | Inr (True, p1) \<Rightarrow>
               (case Pipeline_GenerateModulesMask p1 of
                  Inl e \<Rightarrow> Inl e
                | Inr p2 \<Rightarrow> Inr (Pipeline_CreateConnectors p2))))"

subsection \<open>Module creation\<close>

definition node_id :: "('n, 'x) PipelineBase_scheme \<Rightarrow> 'n \<Rightarrow> nat" where
  "node_id p v = (case ctx_module (contexts p v) of None \<Rightarrow> 0 | Some m \<Rightarrow> unat (m_id m))"

definition module_set :: "('n, 'x) PipelineBase_scheme \<Rightarrow> 'n \<Rightarrow> bool" where
  "module_set p v \<longleftrightarrow> (\<exists>m. ctx_module (contexts p v) = Some m \<and> m_id m \<noteq> kInvalidModuleId \<and>
     unat (m_id m) < 64 \<and> m_container m)"

lemma upd_ctx_simps [simp]:
  "contexts (upd_ctx v f p) w = (if w = v then f (contexts p v) else contexts p w)"
  "pipe_graph (upd_ctx v f p) = pipe_graph p" "all_modules_mask (upd_ctx v f p) = all_modules_mask p"
  "idxManager (upd_ctx v f p) = idxManager p" "PipelineBase.more (upd_ctx v f p) = PipelineBase.more p"
  by (simp_all add: upd_ctx_def)

lemma upd_ctx_same: "f (contexts p v) = contexts p v \<Longrightarrow> upd_ctx v f p = p"
  by (simp add: upd_ctx_def fun_upd_idem)

lemma node_bit_set:
  assumes "module_set p v"
  shows "node_bit v p = Inr (2 ^ node_id p v, p)"
proof -
  obtain m where m: "ctx_module (contexts p v) = Some m" "m_id m \<noteq> kInvalidModuleId" "unat (m_id m) < 64"
    using assms by (auto simp: module_set_def)
  have "upd_ctx v (\<lambda>c. c\<lparr>ctx_module := Some m\<rparr>) p = p"
    using m(1) by (intro upd_ctx_same) simp
  with m show ?thesis
    by (simp add: node_bit_def node_GetId_def GetId_valid one_shl_def node_id_def)
qed

text \<open>What \<^verbatim>\<open>CreateModules\<close> has established after the nodes \<open>done\<close>.\<close>

definition created :: "'n list \<Rightarrow> ('n, 'x) PipelineBase_scheme \<Rightarrow> bool" where
  "created done p \<longleftrightarrow> (\<forall>v\<in>set done. module_set p v \<and> parent_nodes_mask (contexts p v) = 0 \<and>
       route_mask (contexts p v) = 0) \<and> inj_on (node_id p) (set done) \<and>
     module_used (idxManager p) = node_id p ` set done \<and>
     (\<forall>i. bit (all_modules_mask p) i \<longleftrightarrow> i \<in> node_id p ` set done)"

definition factory_ok :: "ModuleFactory \<Rightarrow> ('n, 'x) GraphView_scheme \<Rightarrow> 'n \<Rightarrow> bool" where
  "factory_ok reg g v \<longleftrightarrow> (\<exists>m. ModuleFactory_Create reg (class_name (gv_config g v)) (gv_full_name g v) = Some m \<and>
     m_id m = kInvalidModuleId)"

lemma node_id_upd: "node_id (p\<lparr>idxManager := x\<rparr>) = node_id p" "node_id (p\<lparr>all_modules_mask := y\<rparr>) = node_id p"
  by (simp_all add: node_id_def fun_eq_iff)

lemma create_step:
  fixes k :: int
  assumes cr: "created done p" and v: "v \<notin> set done" and lt: "length done < 64"
    and d: "distinct done" and m0: "m_id m0 = kInvalidModuleId"
    and sc: "Module_SetContainer True m0 (idxManager p) = (m1, mgr)"
  defines "p1 \<equiv> (upd_ctx v (\<lambda>c. c\<lparr>ctx_module := Some (Module_SetPriority k m1), parent_nodes_mask := 0,
                                  route_mask := 0\<rparr>) p)\<lparr>idxManager := mgr\<rparr>"
  shows "\<exists>b. node_bit v p1 = Inr (b, p1) \<and>
    created (done @ [v]) (p1\<lparr>all_modules_mask := all_modules_mask p1 OR b\<rparr>)"
proof -
  have used: "module_used (idxManager p) = node_id p ` set done" and inj: "inj_on (node_id p) (set done)"
    using cr by (auto simp: created_def)
  have "card (module_used (idxManager p)) < 64"
    using lt d by (simp add: used card_image [OF inj] distinct_card)
  from SetContainer_fresh [OF m0 this sc]
  have f: "unat (m_id m1) < 64" "unat (m_id m1) \<notin> module_used (idxManager p)" "m_container m1"
    "m_id m1 \<noteq> kInvalidModuleId" "module_used mgr = insert (unat (m_id m1)) (module_used (idxManager p))"
    by auto
  have pr: "m_id (Module_SetPriority k m1) = m_id m1" "m_container (Module_SetPriority k m1) = m_container m1"
    by (simp_all add: Module_SetPriority_def)
  have ms: "module_set p1 v" using f pr by (simp add: module_set_def p1_def)
  have idv: "node_id p1 v = unat (m_id m1)" by (simp add: node_id_def p1_def pr)
  have idd: "node_id p1 w = node_id p w" if "w \<in> set done" for w
    using that v by (auto simp: node_id_def p1_def)
  have im: "node_id p1 ` set (done @ [v]) = insert (unat (m_id m1)) (node_id p ` set done)"
    using idd idv by (auto simp: image_iff)
  let ?p = "p1\<lparr>all_modules_mask := all_modules_mask p1 OR 2 ^ node_id p1 v\<rparr>"
  have mss: "module_set ?p w \<and> parent_nodes_mask (contexts ?p w) = 0 \<and> route_mask (contexts ?p w) = 0"
    if "w \<in> set (done @ [v])" for w
    using that cr ms v by (cases "w = v") (auto simp: created_def module_set_def p1_def)
  have "created (done @ [v]) ?p"
    unfolding created_def
  proof (intro conjI ballI allI)
    show "inj_on (node_id ?p) (set (done @ [v]))"
    proof -
      have "inj_on (node_id p1) (set done)" using inj idd by (simp cong: inj_on_cong)
      moreover have "node_id p1 v \<notin> node_id p1 ` set done" using f(2) used idd idv by auto
      ultimately show ?thesis using v by (auto simp add: node_id_upd)
    qed
    show "module_used (idxManager ?p) = node_id ?p ` set (done @ [v])"
      using im f(5) used by (simp add: node_id_upd) (simp add: p1_def)
    show "bit (all_modules_mask ?p) i \<longleftrightarrow> i \<in> node_id ?p ` set (done @ [v])" for i
      using im cr f(1) idv by (auto simp: node_id_upd bit_or_one_shl created_def p1_def)
  qed (use mss in auto)
  then show ?thesis using node_bit_set [OF ms] by blast
qed

lemma create_loop_ok:
  "created done p \<Longrightarrow> distinct (done @ vs) \<Longrightarrow> length (done @ vs) \<le> 64 \<Longrightarrow>
   \<forall>v\<in>set vs. factory_ok reg (pipe_graph p) v \<Longrightarrow>
   \<exists>p'. create_loop reg vs p = Inr (True, p') \<and> created (done @ vs) p' \<and> pipe_graph p' = pipe_graph p \<and>
     (\<forall>v. ctx_connector (contexts p' v) = ctx_connector (contexts p v)) \<and>
     PipelineBase.more p' = PipelineBase.more p"
proof (induction vs arbitrary: "done" p)
  case (Cons v vs)
  let ?cfg = "gv_config (pipe_graph p) v"
  from Cons.prems(4) obtain m0 where
    m0: "ModuleFactory_Create reg (class_name ?cfg) (gv_full_name (pipe_graph p) v) = Some m0"
    "m_id m0 = kInvalidModuleId" by (auto simp: factory_ok_def)
  obtain m1 mgr where sc: "Module_SetContainer True m0 (idxManager p) = (m1, mgr)" by fastforce
  let ?p1 = "(upd_ctx v (\<lambda>c. c\<lparr>ctx_module := Some (Module_SetPriority (priority ?cfg) m1),
      parent_nodes_mask := 0, route_mask := 0\<rparr>) p)\<lparr>idxManager := mgr\<rparr>"
  have "v \<notin> set done" "length done < 64" "distinct done" using Cons.prems(2,3) by auto
  from create_step [OF Cons.prems(1) this m0(2) sc] obtain b where
    b: "node_bit v ?p1 = Inr (b, ?p1)"
    and c: "created (done @ [v]) (?p1\<lparr>all_modules_mask := all_modules_mask ?p1 OR b\<rparr>)" by blast
  let ?p2 = "?p1\<lparr>all_modules_mask := all_modules_mask ?p1 OR b\<rparr>"
  have g: "pipe_graph ?p2 = pipe_graph p" by simp
  have "distinct ((done @ [v]) @ vs)" "length ((done @ [v]) @ vs) \<le> 64"
    "\<forall>w\<in>set vs. factory_ok reg (pipe_graph ?p2) w" using Cons.prems(2-4) g by auto
  from Cons.IH [OF c this] obtain p' where
    "create_loop reg vs ?p2 = Inr (True, p')" "created (done @ v # vs) p'" "pipe_graph p' = pipe_graph p"
    "\<forall>w. ctx_connector (contexts p' w) = ctx_connector (contexts p w)"
    "PipelineBase.more p' = PipelineBase.more p"
    by (auto split: if_splits)
  with m0(1) sc b show ?case by (simp add: Let_def)
qed simp

subsection \<open>The masks\<close>

text \<open>What the mask loops leave alone.\<close>

definition same_modules ::
  "('n, 'x) PipelineBase_scheme \<Rightarrow> ('n, 'x) PipelineBase_scheme \<Rightarrow> bool" where
  "same_modules p p' \<longleftrightarrow> pipe_graph p' = pipe_graph p \<and> all_modules_mask p' = all_modules_mask p \<and>
     idxManager p' = idxManager p \<and> PipelineBase.more p' = PipelineBase.more p \<and>
     (\<forall>v. ctx_module (contexts p' v) = ctx_module (contexts p v) \<and>
          ctx_connector (contexts p' v) = ctx_connector (contexts p v))"

lemma same_modules_refl [simp]: "same_modules p p"
  by (simp add: same_modules_def)

lemma same_modules_trans [trans]: "same_modules p q \<Longrightarrow> same_modules q r \<Longrightarrow> same_modules p r"
  by (simp add: same_modules_def)

lemma same_modules_id: "same_modules p p' \<Longrightarrow> node_id p' = node_id p \<and> module_set p' = module_set p"
  by (simp add: same_modules_def node_id_def module_set_def fun_eq_iff)

lemma module_set_lt: "module_set p v \<Longrightarrow> node_id p v < 64"
  by (auto simp: module_set_def node_id_def)

lemma parents_inner:
  "module_set p cur \<Longrightarrow> \<exists>p'. foldM (add_parent cur) ns p = Inr p' \<and> same_modules p p' \<and>
     (\<forall>w. route_mask (contexts p' w) = route_mask (contexts p w)) \<and>
     (\<forall>w i. bit (parent_nodes_mask (contexts p' w)) i \<longleftrightarrow>
        bit (parent_nodes_mask (contexts p w)) i \<or> w \<in> set ns \<and> i = node_id p cur)"
proof (induction ns arbitrary: p)
  case (Cons n ns)
  let ?p1 = "upd_ctx n (\<lambda>c. c\<lparr>parent_nodes_mask := parent_nodes_mask c OR 2 ^ node_id p cur\<rparr>) p"
  have s: "same_modules p ?p1" by (simp add: same_modules_def)
  have step: "add_parent cur n p = Inr ?p1"
    using node_bit_set [OF Cons.prems] by (simp add: add_parent_def)
  have "module_set ?p1 cur" using Cons.prems same_modules_id [OF s] by simp
  from Cons.IH [OF this] obtain p' where p': "foldM (add_parent cur) ns ?p1 = Inr p'"
    "same_modules ?p1 p'" "\<forall>w. route_mask (contexts p' w) = route_mask (contexts ?p1 w)"
    "\<forall>w i. bit (parent_nodes_mask (contexts p' w)) i \<longleftrightarrow>
       bit (parent_nodes_mask (contexts ?p1 w)) i \<or> w \<in> set ns \<and> i = node_id p cur"
    using same_modules_id [OF s] by auto
  moreover have "same_modules p p'" using same_modules_trans [OF s p'(2)] .
  ultimately show ?case
    using step module_set_lt [OF Cons.prems] by (auto simp: bit_or_one_shl)
qed simp

lemma parents_outer:
  "\<forall>v\<in>set us. module_set p v \<Longrightarrow>
   \<exists>p'. foldM (\<lambda>cur. foldM (add_parent cur) (nx cur)) us p = Inr p' \<and> same_modules p p' \<and>
     (\<forall>w. route_mask (contexts p' w) = route_mask (contexts p w)) \<and>
     (\<forall>w i. bit (parent_nodes_mask (contexts p' w)) i \<longleftrightarrow>
        bit (parent_nodes_mask (contexts p w)) i \<or> (\<exists>u\<in>set us. w \<in> set (nx u) \<and> i = node_id p u))"
proof (induction us arbitrary: p)
  case (Cons u us)
  from parents_inner [of p u "nx u"] Cons.prems obtain p1 where p1:
    "foldM (add_parent u) (nx u) p = Inr p1" "same_modules p p1"
    "\<forall>w. route_mask (contexts p1 w) = route_mask (contexts p w)"
    "\<forall>w i. bit (parent_nodes_mask (contexts p1 w)) i \<longleftrightarrow>
       bit (parent_nodes_mask (contexts p w)) i \<or> w \<in> set (nx u) \<and> i = node_id p u"
    by auto
  have "\<forall>v\<in>set us. module_set p1 v" using Cons.prems same_modules_id [OF p1(2)] by simp
  from Cons.IH [OF this] obtain p' where p':
    "foldM (\<lambda>cur. foldM (add_parent cur) (nx cur)) us p1 = Inr p'" "same_modules p1 p'"
    "\<forall>w. route_mask (contexts p' w) = route_mask (contexts p1 w)"
    "\<forall>w i. bit (parent_nodes_mask (contexts p' w)) i \<longleftrightarrow>
        bit (parent_nodes_mask (contexts p1 w)) i \<or> (\<exists>u\<in>set us. w \<in> set (nx u) \<and> i = node_id p u)"
    using same_modules_id [OF p1(2)] by auto
  moreover have "same_modules p p'" using same_modules_trans [OF p1(2) p'(2)] .
  ultimately show ?case using p1 by auto
qed simp

lemma routes_inner:
  "\<forall>v\<in>set ns. module_set p v \<Longrightarrow> \<exists>p'. foldM (add_route h) ns p = Inr p' \<and> same_modules p p' \<and>
     (\<forall>w. parent_nodes_mask (contexts p' w) = parent_nodes_mask (contexts p w)) \<and>
     (\<forall>w i. bit (route_mask (contexts p' w)) i \<longleftrightarrow>
        bit (route_mask (contexts p w)) i \<or> w = h \<and> (\<exists>v\<in>set ns. i = node_id p v))"
proof (induction ns arbitrary: p)
  case (Cons n ns)
  let ?p1 = "upd_ctx h (\<lambda>c. c\<lparr>route_mask := route_mask c OR 2 ^ node_id p n\<rparr>) p"
  have s: "same_modules p ?p1" by (simp add: same_modules_def)
  have n: "module_set p n" using Cons.prems by simp
  have step: "add_route h n p = Inr ?p1"
    using node_bit_set [OF n] by (simp add: add_route_def)
  have "\<forall>v\<in>set ns. module_set ?p1 v" using Cons.prems same_modules_id [OF s] by simp
  from Cons.IH [OF this] obtain p' where p': "foldM (add_route h) ns ?p1 = Inr p'"
    "same_modules ?p1 p'" "\<forall>w. parent_nodes_mask (contexts p' w) = parent_nodes_mask (contexts ?p1 w)"
    "\<forall>w i. bit (route_mask (contexts p' w)) i \<longleftrightarrow>
       bit (route_mask (contexts ?p1 w)) i \<or> w = h \<and> (\<exists>v\<in>set ns. i = node_id p v)"
    using same_modules_id [OF s] by auto
  moreover have "same_modules p p'" using same_modules_trans [OF s p'(2)] .
  ultimately show ?case
    using step module_set_lt [OF n] by (auto simp: bit_or_one_shl)
qed simp

lemma routes_outer:
  "\<forall>h\<in>set hs. \<forall>v\<in>set (from h). module_set p v \<Longrightarrow>
   \<exists>p'. foldM (\<lambda>h. foldM (add_route h) (from h)) hs p = Inr p' \<and> same_modules p p' \<and>
     (\<forall>w. parent_nodes_mask (contexts p' w) = parent_nodes_mask (contexts p w)) \<and>
     (\<forall>w i. bit (route_mask (contexts p' w)) i \<longleftrightarrow>
        bit (route_mask (contexts p w)) i \<or> w \<in> set hs \<and> (\<exists>v\<in>set (from w). i = node_id p v))"
proof (induction hs arbitrary: p)
  case (Cons h hs)
  from routes_inner [of "from h" p h] Cons.prems obtain p1 where p1:
    "foldM (add_route h) (from h) p = Inr p1" "same_modules p p1"
    "\<forall>w. parent_nodes_mask (contexts p1 w) = parent_nodes_mask (contexts p w)"
    "\<forall>w i. bit (route_mask (contexts p1 w)) i \<longleftrightarrow>
       bit (route_mask (contexts p w)) i \<or> w = h \<and> (\<exists>v\<in>set (from h). i = node_id p v)"
    by auto
  have "\<forall>h\<in>set hs. \<forall>v\<in>set (from h). module_set p1 v" using Cons.prems same_modules_id [OF p1(2)] by simp
  from Cons.IH [OF this] obtain p' where p':
    "foldM (\<lambda>h. foldM (add_route h) (from h)) hs p1 = Inr p'" "same_modules p1 p'"
    "\<forall>w. parent_nodes_mask (contexts p' w) = parent_nodes_mask (contexts p1 w)"
    "\<forall>w i. bit (route_mask (contexts p' w)) i \<longleftrightarrow>
        bit (route_mask (contexts p1 w)) i \<or> w \<in> set hs \<and> (\<exists>v\<in>set (from w). i = node_id p v)"
    using same_modules_id [OF p1(2)] by auto
  moreover have "same_modules p p'" using same_modules_trans [OF p1(2) p'(2)] .
  ultimately show ?case using p1 by auto
qed simp

subsection \<open>The built pipeline\<close>

definition conn_valid :: "UNIModuleConfig \<Rightarrow> bool" where
  "conn_valid c \<longleftrightarrow> 0 < parallelism c \<and> 0 < max_input_queue_size c"

definition pipe_wf :: "('n, 'x) PipelineBase_scheme \<Rightarrow> bool" where
  "pipe_wf p \<longleftrightarrow>
     (let g = pipe_graph p; N = set (gv_nodes g)
      in view_ok g \<and> (\<forall>v\<in>N. module_set p v) \<and> inj_on (node_id p) N \<and>
         (\<forall>i. bit (all_modules_mask p) i \<longleftrightarrow> i \<in> node_id p ` N) \<and>
         (\<forall>v\<in>N. \<forall>i. bit (parent_nodes_mask (contexts p v)) i \<longleftrightarrow> (\<exists>u. (u, v) \<in> gv_edges g \<and> i = node_id p u)) \<and>
         (\<forall>h\<in>set (gv_heads g). \<forall>i. bit (route_mask (contexts p h)) i \<longleftrightarrow>
            (\<exists>v. (h, v) \<in> (gv_edges g)\<^sup>* \<and> i = node_id p v)) \<and>
         (\<forall>v\<in>N. parent_nodes_mask (contexts p v) \<noteq> 0 \<longrightarrow> (\<exists>c. ctx_connector (contexts p v) = Some c \<and>
            Connector_GetConveyorCount c > 0 \<and> \<not> stop c)))"

lemma connector_loop_spec:
  "connector_loop vs p = (r, p') \<Longrightarrow>
   (r \<longleftrightarrow> (\<forall>v\<in>set vs. parent_nodes_mask (contexts p v) \<noteq> 0 \<longrightarrow> conn_valid (gv_config (pipe_graph p) v))) \<and>
   pipe_graph p' = pipe_graph p \<and> all_modules_mask p' = all_modules_mask p \<and> idxManager p' = idxManager p \<and>
   PipelineBase.more p' = PipelineBase.more p \<and>
   (\<forall>w. ctx_module (contexts p' w) = ctx_module (contexts p w) \<and>
        parent_nodes_mask (contexts p' w) = parent_nodes_mask (contexts p w) \<and>
        route_mask (contexts p' w) = route_mask (contexts p w)) \<and>
   (r \<longrightarrow> (\<forall>w. ctx_connector (contexts p' w) =
        (if w \<in> set vs \<and> parent_nodes_mask (contexts p w) \<noteq> 0
         then Some (Connector_new (nat (parallelism (gv_config (pipe_graph p) w)))
                (nat (max_input_queue_size (gv_config (pipe_graph p) w))))
         else ctx_connector (contexts p w))))"
proof (induction vs arbitrary: p)
  case (Cons v vs)
  show ?case
  proof (cases "parent_nodes_mask (contexts p v) = 0")
    case True
    then have "connector_loop vs p = (r, p')" using Cons.prems by simp
    from Cons.IH [OF this] True show ?thesis by auto
  next
    case ne: False
    let ?cfg = "gv_config (pipe_graph p) v"
    show ?thesis
    proof (cases "conn_valid ?cfg")
      case False
      then have "r = False" "p' = p" using Cons.prems ne by (auto simp: conn_valid_def Let_def split: if_splits)
      with False ne show ?thesis by simp
    next
      case True
      let ?con = "Some (Connector_new (nat (parallelism ?cfg)) (nat (max_input_queue_size ?cfg)))"
      define p1 where "p1 = upd_ctx v (\<lambda>c. c\<lparr>ctx_connector := ?con\<rparr>) p"
      have "connector_loop vs p1 = (r, p')"
        using Cons.prems ne True by (auto simp: conn_valid_def Let_def p1_def split: if_splits)
      note IH = Cons.IH [OF this]
      have e: "parent_nodes_mask (contexts p1 w) = parent_nodes_mask (contexts p w)"
        "ctx_module (contexts p1 w) = ctx_module (contexts p w)"
        "route_mask (contexts p1 w) = route_mask (contexts p w)"
        "ctx_connector (contexts p1 w) = (if w = v then ?con else ctx_connector (contexts p w))" for w
        by (simp_all add: p1_def)
      have e': "pipe_graph p1 = pipe_graph p" "all_modules_mask p1 = all_modules_mask p"
        "idxManager p1 = idxManager p" "PipelineBase.more p1 = PipelineBase.more p"
        by (simp_all add: p1_def)
      have "ctx_connector (contexts p' w) =
          (if w \<in> set (v # vs) \<and> parent_nodes_mask (contexts p w) \<noteq> 0
           then Some (Connector_new (nat (parallelism (gv_config (pipe_graph p) w)))
                  (nat (max_input_queue_size (gv_config (pipe_graph p) w))))
           else ctx_connector (contexts p w))" if r for w
        using IH that ne unfolding e e' by (cases "w = v") simp_all
      with IH True ne show ?thesis unfolding e e' by simp
    qed
  qed
qed auto

lemma masks_ok:
  assumes cr: "created (gv_nodes (pipe_graph p)) p" and ok: "view_ok (pipe_graph p)"
  shows "\<exists>p'. Pipeline_GenerateModulesMask p = Inr p' \<and> same_modules p p' \<and>
    (\<forall>v i. bit (parent_nodes_mask (contexts p' v)) i \<longleftrightarrow>
       bit (parent_nodes_mask (contexts p v)) i \<or> (\<exists>u. (u, v) \<in> gv_edges (pipe_graph p) \<and> i = node_id p u)) \<and>
    (\<forall>h\<in>set (gv_heads (pipe_graph p)). \<forall>i. bit (route_mask (contexts p' h)) i \<longleftrightarrow>
       (\<exists>v. (h, v) \<in> (gv_edges (pipe_graph p))\<^sup>* \<and> i = node_id p v))"
proof -
  let ?g = "pipe_graph p"
  have ms: "\<forall>v\<in>set (gv_nodes ?g). module_set p v" using cr by (simp add: created_def)
  from parents_outer [OF ms, of "gv_next ?g"] obtain p1 where p1: "parent_masks p = Inr p1" "same_modules p p1"
    "\<forall>w. route_mask (contexts p1 w) = route_mask (contexts p w)"
    "\<forall>w i. bit (parent_nodes_mask (contexts p1 w)) i \<longleftrightarrow> bit (parent_nodes_mask (contexts p w)) i \<or>
       (\<exists>u\<in>set (gv_nodes ?g). w \<in> set (gv_next ?g u) \<and> i = node_id p u)"
    by (auto simp: parent_masks_def)
  have g1: "pipe_graph p1 = ?g" using p1(2) by (simp add: same_modules_def)
  have reach: "v \<in> set (gv_nodes ?g)" if "h \<in> set (gv_heads ?g)" "v \<in> set (gv_from ?g h)" for h v
  proof -
    have "h \<in> set (gv_nodes ?g)" "(h, v) \<in> (gv_edges ?g)\<^sup>*"
      using that ok by (auto simp: view_ok_def)
    from this(2,1) show ?thesis
      by (induction rule: rtrancl_induct) (use ok in \<open>auto simp: view_ok_def gv_edges_def\<close>)
  qed
  then have "\<forall>h\<in>set (gv_heads ?g). \<forall>v\<in>set (gv_from ?g h). module_set p1 v"
    using ms same_modules_id [OF p1(2)] by auto
  from routes_outer [OF this] obtain p' where p': "route_masks p1 = Inr p'" "same_modules p1 p'"
    "\<forall>w. parent_nodes_mask (contexts p' w) = parent_nodes_mask (contexts p1 w)"
    "\<forall>w i. bit (route_mask (contexts p' w)) i \<longleftrightarrow> bit (route_mask (contexts p1 w)) i \<or>
       w \<in> set (gv_heads ?g) \<and> (\<exists>v\<in>set (gv_from ?g w). i = node_id p1 v)"
    unfolding route_masks_def g1 by blast
  have idp: "node_id p1 = node_id p" using same_modules_id [OF p1(2)] by simp
  have r0: "route_mask (contexts p h) = 0" if "h \<in> set (gv_heads ?g)" for h
    using that ok cr by (auto simp: view_ok_def created_def)
  have "bit (route_mask (contexts p' h)) i \<longleftrightarrow> (\<exists>v. (h, v) \<in> (gv_edges ?g)\<^sup>* \<and> i = node_id p v)"
    if "h \<in> set (gv_heads ?g)" for h i
  proof -
    have "set (gv_from ?g h) = (gv_edges ?g)\<^sup>* `` {h}" using that ok by (simp add: view_ok_def)
    then show ?thesis using that p'(4) p1(3) r0 idp by auto
  qed
  moreover have "bit (parent_nodes_mask (contexts p' v)) i \<longleftrightarrow> bit (parent_nodes_mask (contexts p v)) i \<or>
       (\<exists>u. (u, v) \<in> gv_edges ?g \<and> i = node_id p u)" for v i
    using p1(4) p'(3) by (auto simp: gv_edges_def)
  moreover have "same_modules p p'" using same_modules_trans [OF p1(2) p'(2)] .
  moreover have "Pipeline_GenerateModulesMask p = Inr p'"
    using p1(1) p'(1) by (simp add: Pipeline_GenerateModulesMask_def)
  ultimately show ?thesis by blast
qed

lemma created_empty: "module_used (idxManager p) = {} \<Longrightarrow> created [] (p\<lparr>all_modules_mask := 0\<rparr>)"
  by (simp add: created_def)

lemma BuildPipeline_ok:
  assumes ok: "view_ok g" and len: "length (gv_nodes g) \<le> 64"
    and fac: "\<forall>v\<in>set (gv_nodes g). factory_ok reg g v" and free: "module_used (idxManager p) = {}"
  shows "\<exists>r p'. Pipeline_BuildPipeline reg (Some g) p = Inr (r, p') \<and> pipe_graph p' = g \<and>
    PipelineBase.more p' = PipelineBase.more p \<and>
    (r \<longleftrightarrow> (\<forall>v\<in>set (gv_nodes g). v \<notin> set (gv_heads g) \<longrightarrow> conn_valid (gv_config g v))) \<and>
    (r \<longrightarrow> pipe_wf p' \<and> (\<forall>v. ctx_connector (contexts p' v) =
       (if v \<in> set (gv_nodes g) \<and> v \<notin> set (gv_heads g)
        then Some (Connector_new (nat (parallelism (gv_config g v))) (nat (max_input_queue_size (gv_config g v))))
        else None)))"
proof -
  let ?p0 = "p\<lparr>pipe_graph := g, contexts := (\<lambda>_. NodeContext_new)\<rparr>"
  let ?N = "set (gv_nodes g)"
  have "created [] (?p0\<lparr>all_modules_mask := 0\<rparr>)" using free by (intro created_empty) simp
  from create_loop_ok [OF this, of "gv_nodes g" reg] ok len fac obtain p1 where
    p1: "Pipeline_CreateModules reg ?p0 = Inr (True, p1)" "created (gv_nodes g) p1" "pipe_graph p1 = g"
      "PipelineBase.more p1 = PipelineBase.more p" "\<forall>v. ctx_connector (contexts p1 v) = None"
    by (auto simp: Pipeline_CreateModules_def view_ok_def NodeContext_new_def)
  from masks_ok [of p1] p1(2,3) ok obtain p2 where
    p2: "Pipeline_GenerateModulesMask p1 = Inr p2" "same_modules p1 p2"
      "\<forall>v i. bit (parent_nodes_mask (contexts p2 v)) i \<longleftrightarrow> bit (parent_nodes_mask (contexts p1 v)) i \<or>
         (\<exists>u. (u, v) \<in> gv_edges g \<and> i = node_id p1 u)"
      "\<forall>h\<in>set (gv_heads g). \<forall>i. bit (route_mask (contexts p2 h)) i \<longleftrightarrow>
         (\<exists>v. (h, v) \<in> (gv_edges g)\<^sup>* \<and> i = node_id p1 v)"
    by auto
  obtain r p3 where p3: "Pipeline_CreateConnectors p2 = (r, p3)" by fastforce
  have g2: "pipe_graph p2 = g" using p1(3) p2(2) by (simp add: same_modules_def)
  note spec = connector_loop_spec [OF p3 [unfolded Pipeline_CreateConnectors_def], unfolded g2]
  have id3: "node_id p3 = node_id p1" "module_set p3 = module_set p1"
    using spec same_modules_id [OF p2(2)] by (auto simp: node_id_def module_set_def fun_eq_iff)
  have par: "bit (parent_nodes_mask (contexts p2 v)) i \<longleftrightarrow> (\<exists>u. (u, v) \<in> gv_edges g \<and> i = node_id p1 u)"
    if "v \<in> ?N" for v i
    using that p1(2) p2(3) by (simp add: created_def)
  have head: "parent_nodes_mask (contexts p2 v) \<noteq> 0 \<longleftrightarrow> v \<notin> set (gv_heads g)" if v: "v \<in> ?N" for v
  proof -
    have "parent_nodes_mask (contexts p2 v) \<noteq> 0 \<longleftrightarrow> (\<exists>i. bit (parent_nodes_mask (contexts p2 v)) i)"
      by (rule word_nonzero_iff)
    also have "\<dots> \<longleftrightarrow> (\<exists>u. (u, v) \<in> gv_edges g)" using par [OF v] by auto
    also have "\<dots> \<longleftrightarrow> v \<notin> set (gv_heads g)" using ok v by (auto simp: view_ok_def)
    finally show ?thesis .
  qed
  have r: "r \<longleftrightarrow> (\<forall>v\<in>?N. v \<notin> set (gv_heads g) \<longrightarrow> conn_valid (gv_config g v))"
    using spec head by auto
  have con: "ctx_connector (contexts p3 v) =
      (if v \<in> ?N \<and> v \<notin> set (gv_heads g)
       then Some (Connector_new (nat (parallelism (gv_config g v))) (nat (max_input_queue_size (gv_config g v))))
       else None)" if r for v
  proof -
    have "ctx_connector (contexts p2 v) = None" using p1(5) p2(2) by (simp add: same_modules_def)
    then show ?thesis using spec that head [of v] by (cases "v \<in> ?N") auto
  qed
  have "pipe_wf p3" if r
  proof -
    have all: "\<forall>i. bit (all_modules_mask p3) i \<longleftrightarrow> i \<in> node_id p1 ` ?N"
      using spec p2(2) p1(2) by (simp add: same_modules_def created_def)
    have "\<exists>c. ctx_connector (contexts p3 v) = Some c \<and> Connector_GetConveyorCount c > 0 \<and> \<not> stop c"
      if v: "v \<in> ?N" "parent_nodes_mask (contexts p3 v) \<noteq> 0" for v
    proof -
      have h: "v \<notin> set (gv_heads g)" using v head spec by simp
      then have "conn_valid (gv_config g v)" using r \<open>r\<close> v(1) by blast
      with con [OF \<open>r\<close>, of v] v(1) h show ?thesis
        by (simp add: Connector_GetConveyorCount_def Connector_new_def conn_valid_def)
    qed
    moreover have "\<forall>v\<in>?N. module_set p1 v" "inj_on (node_id p1) ?N" using p1(2) by (auto simp: created_def)
    moreover have "pipe_graph p3 = g" using spec by simp
    moreover have "\<forall>v\<in>?N. \<forall>i. bit (parent_nodes_mask (contexts p3 v)) i \<longleftrightarrow>
        (\<exists>u. (u, v) \<in> gv_edges g \<and> i = node_id p1 u)" using par spec by simp
    moreover have "\<forall>h\<in>set (gv_heads g). \<forall>i. bit (route_mask (contexts p3 h)) i \<longleftrightarrow>
        (\<exists>v. (h, v) \<in> (gv_edges g)\<^sup>* \<and> i = node_id p1 v)" using p2(4) spec by simp
    ultimately show ?thesis using ok all by (simp add: pipe_wf_def id3 Let_def)
  qed
  moreover have "Pipeline_BuildPipeline reg (Some g) p = Inr (r, p3)"
    using p1(1) p2(1) p3 by (simp add: Pipeline_BuildPipeline_def)
  moreover have "PipelineBase.more p3 = PipelineBase.more p" "pipe_graph p3 = g"
    using spec p2(2) p1(4) by (simp_all add: same_modules_def)
  ultimately show ?thesis using r con by blast
qed

subsection \<open>More nodes than module indices\<close>

lemma create_loop_append:
  "create_loop reg xs p = Inr (True, p') \<Longrightarrow> create_loop reg (xs @ ys) p = create_loop reg ys p'"
  by (induction reg xs p rule: create_loop.induct)
    (auto simp: Let_def split: option.splits prod.splits sum.splits)

lemma create_full:
  assumes cr: "created done p" and d: "distinct done" and len: "length done = 64"
    and fac: "factory_ok reg (pipe_graph p) v"
  shows "create_loop reg (v # vs) p = Inl UndefinedShift"
proof -
  have "module_used (idxManager p) = node_id p ` set done" "inj_on (node_id p) (set done)"
    using cr by (auto simp: created_def)
  then have "card (module_used (idxManager p)) = 64"
    using d len by (simp add: card_image distinct_card)
  then have full: "module_used (idxManager p) = {..<64}"
    using card_subset_eq [OF _ module_used_limit [of "idxManager p"]] by simp
  let ?cfg = "gv_config (pipe_graph p) v"
  from fac obtain m0 where
    m0: "ModuleFactory_Create reg (class_name ?cfg) (gv_full_name (pipe_graph p) v) = Some m0"
    "m_id m0 = kInvalidModuleId" by (auto simp: factory_ok_def)
  obtain m1 mgr where sc: "Module_SetContainer True m0 (idxManager p) = (m1, mgr)" by fastforce
  from SetContainer_full [OF m0(2) full sc]
  have m1: "m_id m1 = kInvalidModuleId" "m_container m1" "mgr = idxManager p" by auto
  have g: "IdxManager_GetModuleIdx (idxManager p) = (kInvalidModuleId, idxManager p)"
  proof -
    obtain w s where "IdxManager_GetModuleIdx (idxManager p) = (w, s)" by fastforce
    from this show ?thesis
    proof (cases rule: GetModuleIdx_cases)
      case (fresh n)
      then have "n \<in> module_used (idxManager p)" unfolding full by simp
      with fresh(3) show ?thesis by (simp add: module_used_def)
    qed (use \<open>IdxManager_GetModuleIdx (idxManager p) = (w, s)\<close> in simp)
  qed
  have inv: "one_shl kInvalidModuleId = Inl UndefinedShift"
    by (simp add: one_shl_def kInvalidModuleId_def unsigned_minus_1_eq_mask mask_eq_exp_minus_1)
  show ?thesis
    using m0(1) sc m1 g inv
    by (simp add: Let_def node_bit_def node_GetId_def Module_GetId_def Module_SetPriority_def)
qed

lemma CreateModules_too_many:
  assumes d: "distinct (gv_nodes (pipe_graph p))" and len: "64 < length (gv_nodes (pipe_graph p))"
    and fac: "\<forall>v\<in>set (gv_nodes (pipe_graph p)). factory_ok reg (pipe_graph p) v"
    and free: "module_used (idxManager p) = {}"
  shows "Pipeline_CreateModules reg p = Inl UndefinedShift"
proof -
  let ?ns = "gv_nodes (pipe_graph p)"
  have split: "?ns = take 64 ?ns @ ?ns ! 64 # drop 65 ?ns"
    using id_take_nth_drop [OF len] by simp
  have sub: "set (take 64 ?ns) \<subseteq> set ?ns" by (rule set_take_subset)
  from create_loop_ok [OF created_empty [OF free], of "take 64 ?ns" reg] d len fac sub
  obtain p1 where p1: "create_loop reg (take 64 ?ns) (p\<lparr>all_modules_mask := 0\<rparr>) = Inr (True, p1)"
    "created (take 64 ?ns) p1" "pipe_graph p1 = pipe_graph p" by auto
  have "factory_ok reg (pipe_graph p1) (?ns ! 64)" using p1(3) fac len by simp
  from create_full [OF p1(2) _ _ this] d len
  have "create_loop reg (?ns ! 64 # drop 65 ?ns) p1 = Inl UndefinedShift" by simp
  then show ?thesis
    using create_loop_append [OF p1(1), of "?ns ! 64 # drop 65 ?ns"] split
    by (simp add: Pipeline_CreateModules_def)
qed

end
