(* ===== verification/DagView.thy ===== *)
theory DagView
  imports Build DagDfs DagTopo
begin

section \<open>The view of a graph without subgraphs\<close>

text \<open>
  A \<^verbatim>\<open>UNIGraph\<close> whose configuration names modules only has one vertex per module and its
  iterators are those of its \<^verbatim>\<open>DAGAlgorithm\<close> (\<^verbatim>\<open>framework/src/unistream_graph.hpp\<close>:
  \<^verbatim>\<open>DFSBegin\<close>, \<^verbatim>\<open>UNINode::DFSBegin\<close>, \<^verbatim>\<open>FindHeadsAndTails\<close>, \<^verbatim>\<open>GetNext\<close>).  The downstream nodes
  form a \<^verbatim>\<open>std::set\<close> of pointers, walked in the order of the nodes' addresses \<open>addr\<close>.
\<close>

definition dfs_nodes :: "int list option \<Rightarrow> nat list" where
  "dfs_nodes r = (case r of None \<Rightarrow> [] | Some vs \<Rightarrow> map nat vs)"

definition dag_view ::
  "DAGAlgorithm \<Rightarrow> (nat \<Rightarrow> nat) \<Rightarrow> (nat \<Rightarrow> UNIModuleConfig) \<Rightarrow> string \<Rightarrow> nat GraphView" where
  "dag_view d addr cfg gname =
     \<lparr>gv_nodes = dfs_nodes (DAG_DFS d),
      gv_next = (\<lambda>u. if u < length (edges d) then sort_key addr (edges d ! u) else []),
      gv_heads = DAG_GetHeads d,
      gv_from = (\<lambda>h. dfs_nodes (DAG_DFSFrom d (int h))),
      gv_config = cfg,
      gv_full_name = (\<lambda>v. gname @ ''/'' @ mod_name (cfg v))\<rparr>"

lemma dfs_nodes_int: "dfs_nodes (Some (map int xs)) = xs"
  by (simp add: dfs_nodes_def comp_def)

lemma dag_view_nodes:
  assumes "dag_wf d" and "acyclic (edge_rel d)"
  shows "distinct (gv_nodes (dag_view d addr cfg gname))"
    and "set (gv_nodes (dag_view d addr cfg gname)) = {..<length (edges d)}"
proof -
  obtain xs where xs: "DAG_DFS d = Some (map int xs)" "distinct xs" "set xs = {..<length (edges d)}"
    using DFS_all [OF assms] by blast
  have "gv_nodes (dag_view d addr cfg gname) = xs"
    by (simp only: dag_view_def GraphView.simps xs(1) dfs_nodes_int)
  with xs show "distinct (gv_nodes (dag_view d addr cfg gname))"
    and "set (gv_nodes (dag_view d addr cfg gname)) = {..<length (edges d)}" by simp_all
qed

lemma dag_view_next:
  "u < length (edges d) \<Longrightarrow> set (gv_next (dag_view d addr cfg gname) u) = set (edges d ! u)"
  "u < length (edges d) \<Longrightarrow> distinct (gv_next (dag_view d addr cfg gname) u) = distinct (edges d ! u)"
  by (simp_all add: dag_view_def)

lemma dag_view_edges:
  assumes "dag_wf d" and "acyclic (edge_rel d)"
  shows "gv_edges (dag_view d addr cfg gname) = edge_rel d"
  unfolding gv_edges_def dag_view_nodes(2) [OF assms] edge_rel_def
  using dag_view_next(1) by fastforce

lemma reach_single: "reach d {v} = (edge_rel d)\<^sup>* `` {v}"
  by (auto simp: reach_def)

lemma dag_view_ok:
  assumes wf: "dag_wf d" and ac: "acyclic (edge_rel d)"
  shows "view_ok (dag_view d addr cfg gname)"
proof -
  let ?g = "dag_view d addr cfg gname"
  note nodes = dag_view_nodes [OF assms, of addr cfg gname] and es = dag_view_edges [OF assms, of addr cfg gname]
  have "distinct (gv_next ?g u) \<and> set (gv_next ?g u) \<subseteq> set (gv_nodes ?g)" if "u \<in> set (gv_nodes ?g)" for u
    using that wf unfolding nodes(2) by (simp add: dag_view_next dag_wf_def)
  moreover have "set (gv_heads ?g) = {v \<in> set (gv_nodes ?g). \<forall>u. (u, v) \<notin> gv_edges ?g}"
  proof -
    have "gv_heads ?g = DAG_GetHeads d" by (simp add: dag_view_def)
    then show ?thesis unfolding nodes(2) es using set_GetHeads [OF wf] by (auto simp: preds_def)
  qed
  moreover have "distinct (gv_heads ?g)" by (simp add: dag_view_def DAG_GetHeads_def)
  moreover have "set (gv_from ?g h) = (gv_edges ?g)\<^sup>* `` {h}" if "h \<in> set (gv_heads ?g)" for h
  proof -
    have "h < length (edges d)" using that set_GetHeads [OF wf] by (simp add: dag_view_def)
    from DFSFrom_spec [OF wf this] obtain xs where xs: "DAG_DFSFrom d (int h) = Some (map int xs)"
      "set xs = reach d {h}" by blast
    have "gv_from ?g h = xs"
      by (simp only: dag_view_def GraphView.simps xs(1) dfs_nodes_int)
    with xs(2) show ?thesis unfolding es by (simp add: reach_single)
  qed
  ultimately show ?thesis using nodes(1) ac unfolding view_ok_def es by blast
qed

lemma dag_view_length:
  assumes "dag_wf d" and "acyclic (edge_rel d)"
  shows "length (gv_nodes (dag_view d addr cfg gname)) = length (edges d)"
  using dag_view_nodes [OF assms, of addr cfg gname]
  by (metis card_lessThan distinct_card)

lemma built_masks:
  fixes p' :: "(nat, 'x) PipelineBase_scheme"
  assumes "dag_wf d" and "acyclic (edge_rel d)" and "pipe_wf p'" and "pipe_graph p' = dag_view d addr cfg gname"
  shows "inj_on (node_id p') {..<length (edges d)} \<and> (\<forall>v < length (edges d). node_id p' v < 64) \<and>
       (\<forall>i. bit (all_modules_mask p') i \<longleftrightarrow> (\<exists>v < length (edges d). i = node_id p' v)) \<and>
       (\<forall>v < length (edges d). \<forall>i. bit (parent_nodes_mask (contexts p' v)) i \<longleftrightarrow> (\<exists>u\<in>preds d v. i = node_id p' u)) \<and>
       (\<forall>h < length (edges d). preds d h = {} \<longrightarrow>
          (\<forall>i. bit (route_mask (contexts p' h)) i \<longleftrightarrow> (\<exists>v\<in>reach d {h}. i = node_id p' v)))"
proof -
  let ?g = "dag_view d addr cfg gname" and ?n = "length (edges d)"
  note N = dag_view_nodes(2) [OF assms(1,2), of addr cfg gname]
  note E = dag_view_edges [OF assms(1,2), of addr cfg gname]
  have heads: "v \<in> set (gv_heads ?g) \<longleftrightarrow> preds d v = {}" if "v < ?n" for v
    using that set_GetHeads [OF assms(1)] by (simp add: dag_view_def)
  note W = assms(3) [unfolded pipe_wf_def Let_def assms(4) N E]
  note W2 = conjunct2 [OF W]
  note ms = conjunct1 [OF W2] and W3 = conjunct2 [OF W2]
  note inj = conjunct1 [OF W3] and W4 = conjunct2 [OF W3]
  note am = conjunct1 [OF W4] and W5 = conjunct2 [OF W4]
  note pm = conjunct1 [OF W5] and rm = conjunct1 [OF conjunct2 [OF W5]]
  have "node_id p' v < 64" if "v < ?n" for v
    by (rule module_set_lt, rule bspec [OF ms]) (use that in simp)
  then have lt: "\<forall>v < ?n. node_id p' v < 64" by (intro allI impI)
  have "bit (all_modules_mask p') i \<longleftrightarrow> (\<exists>v < ?n. i = node_id p' v)" for i
    unfolding spec [OF am, of i] image_iff Bex_def lessThan_iff ..
  then have am': "\<forall>i. bit (all_modules_mask p') i \<longleftrightarrow> (\<exists>v < ?n. i = node_id p' v)" by (intro allI)
  have "bit (parent_nodes_mask (contexts p' v)) i \<longleftrightarrow> (\<exists>u\<in>preds d v. i = node_id p' u)" if "v < ?n" for v i
  proof -
    have "v \<in> {..<?n}" using that by simp
    from spec [OF bspec [OF pm this], of i] show ?thesis unfolding preds_def Bex_def mem_Collect_eq .
  qed
  then have pm': "\<forall>v < ?n. \<forall>i. bit (parent_nodes_mask (contexts p' v)) i \<longleftrightarrow> (\<exists>u\<in>preds d v. i = node_id p' u)"
    by (intro allI impI)
  have "bit (route_mask (contexts p' h)) i \<longleftrightarrow> (\<exists>v\<in>reach d {h}. i = node_id p' v)"
    if "h < ?n" "preds d h = {}" for h i
  proof -
    have "h \<in> set (gv_heads ?g)" using heads [OF that(1)] that(2) by (rule iffD2)
    from spec [OF bspec [OF rm this], of i] show ?thesis unfolding reach_single Bex_def Image_singleton_iff .
  qed
  then have rm': "\<forall>h < ?n. preds d h = {} \<longrightarrow>
        (\<forall>i. bit (route_mask (contexts p' h)) i \<longleftrightarrow> (\<exists>v\<in>reach d {h}. i = node_id p' v))"
    by (intro allI impI)
  show ?thesis by (intro conjI inj lt am' pm' rm')
qed

subsection \<open>Properties\<close>

text \<open>
  C4. Building a pipeline on a ring-free graph of at most 64 modules with registered classes: the
  build succeeds exactly when every node with a predecessor has a positive parallelism and queue
  size; then the modules have distinct indices below 64, the mask of all modules has exactly
  their bits, the parent mask of a node exactly those of its predecessors, the route mask of a
  head exactly those of the nodes reachable from it, and every node with a predecessor has a
  connector of the configured size.
\<close>

theorem build_pipeline_correct:
  fixes p :: "(nat, 'x) PipelineBase_scheme"
  assumes "dag_wf d" and "acyclic (edge_rel d)" and "length (edges d) \<le> 64"
    and "\<forall>v < length (edges d). factory_ok reg (dag_view d addr cfg gname) v"
    and "module_used (idxManager p) = {}"
  shows "\<exists>r p'. Pipeline_BuildPipeline reg (Some (dag_view d addr cfg gname)) p = Inr (r, p') \<and>
    (r \<longleftrightarrow> (\<forall>v < length (edges d). preds d v \<noteq> {} \<longrightarrow> conn_valid (cfg v))) \<and>
    (r \<longrightarrow> inj_on (node_id p') {..<length (edges d)} \<and>
       (\<forall>v < length (edges d). node_id p' v < 64) \<and>
       (\<forall>i. bit (all_modules_mask p') i \<longleftrightarrow> (\<exists>v < length (edges d). i = node_id p' v)) \<and>
       (\<forall>v < length (edges d). \<forall>i. bit (parent_nodes_mask (contexts p' v)) i \<longleftrightarrow> (\<exists>u\<in>preds d v. i = node_id p' u)) \<and>
       (\<forall>h < length (edges d). preds d h = {} \<longrightarrow>
          (\<forall>i. bit (route_mask (contexts p' h)) i \<longleftrightarrow> (\<exists>v\<in>reach d {h}. i = node_id p' v))) \<and>
       (\<forall>v < length (edges d). preds d v \<noteq> {} \<longrightarrow> ctx_connector (contexts p' v) =
          Some (Connector_new (nat (parallelism (cfg v))) (nat (max_input_queue_size (cfg v))))))"
proof -
  let ?g = "dag_view d addr cfg gname" and ?n = "length (edges d)"
  note N = dag_view_nodes(2) [OF assms(1,2), of addr cfg gname]
  note E = dag_view_edges [OF assms(1,2), of addr cfg gname]
  have heads: "v \<in> set (gv_heads ?g) \<longleftrightarrow> preds d v = {}" if "v < ?n" for v
    using that set_GetHeads [OF assms(1)] by (simp add: dag_view_def)
  have headlt: "h < ?n" if "h \<in> set (gv_heads ?g)" for h
    using that set_GetHeads [OF assms(1)] by (simp add: dag_view_def)
  have cfg: "gv_config ?g = cfg" by (simp add: dag_view_def)
  have "\<forall>v\<in>set (gv_nodes ?g). factory_ok reg ?g v" using assms(4) N by simp
  note fac = this
  have "length (gv_nodes ?g) \<le> 64" using assms(3) by (simp add: dag_view_length [OF assms(1,2)])
  from BuildPipeline_ok [OF dag_view_ok [OF assms(1,2)] this fac assms(5), unfolded N cfg]
  obtain r p' where b: "Pipeline_BuildPipeline reg (Some ?g) p = Inr (r, p')" "pipe_graph p' = ?g"
    and r: "r \<longleftrightarrow> (\<forall>v\<in>{..<?n}. v \<notin> set (gv_heads ?g) \<longrightarrow> conn_valid (cfg v))"
    and w: "r \<longrightarrow> pipe_wf p'" and c: "r \<longrightarrow> (\<forall>v. ctx_connector (contexts p' v) =
       (if v \<in> {..<?n} \<and> v \<notin> set (gv_heads ?g)
        then Some (Connector_new (nat (parallelism (cfg v))) (nat (max_input_queue_size (cfg v)))) else None))"
    by (elim exE conjE) (rule that, assumption, assumption, assumption, blast, blast)
  have r': "r \<longleftrightarrow> (\<forall>v < ?n. preds d v \<noteq> {} \<longrightarrow> conn_valid (cfg v))" using r heads by auto
  have masks: "inj_on (node_id p') {..<?n} \<and> (\<forall>v < ?n. node_id p' v < 64) \<and>
       (\<forall>i. bit (all_modules_mask p') i \<longleftrightarrow> (\<exists>v < ?n. i = node_id p' v)) \<and>
       (\<forall>v < ?n. \<forall>i. bit (parent_nodes_mask (contexts p' v)) i \<longleftrightarrow> (\<exists>u\<in>preds d v. i = node_id p' u)) \<and>
       (\<forall>h < ?n. preds d h = {} \<longrightarrow>
          (\<forall>i. bit (route_mask (contexts p' h)) i \<longleftrightarrow> (\<exists>v\<in>reach d {h}. i = node_id p' v)))" if r
    using built_masks [OF assms(1,2) _ b(2)] w that by blast
  have conns: "\<forall>v < ?n. preds d v \<noteq> {} \<longrightarrow> ctx_connector (contexts p' v) =
          Some (Connector_new (nat (parallelism (cfg v))) (nat (max_input_queue_size (cfg v))))" if r
    using c that heads by simp
  have "r \<longrightarrow> inj_on (node_id p') {..<?n} \<and> (\<forall>v < ?n. node_id p' v < 64) \<and>
       (\<forall>i. bit (all_modules_mask p') i \<longleftrightarrow> (\<exists>v < ?n. i = node_id p' v)) \<and>
       (\<forall>v < ?n. \<forall>i. bit (parent_nodes_mask (contexts p' v)) i \<longleftrightarrow> (\<exists>u\<in>preds d v. i = node_id p' u)) \<and>
       (\<forall>h < ?n. preds d h = {} \<longrightarrow>
          (\<forall>i. bit (route_mask (contexts p' h)) i \<longleftrightarrow> (\<exists>v\<in>reach d {h}. i = node_id p' v))) \<and>
       (\<forall>v < ?n. preds d v \<noteq> {} \<longrightarrow> ctx_connector (contexts p' v) =
          Some (Connector_new (nat (parallelism (cfg v))) (nat (max_input_queue_size (cfg v)))))"
    by (rule impI, frule masks, drule conns, elim conjE, intro conjI; assumption)
  then show ?thesis by (intro exI [of _ r] exI [of _ p'] conjI b(1) r')
qed

text \<open>
  A graph of more than 64 modules makes \<^verbatim>\<open>CreateModules\<close> shift by an invalid index: the module
  without an index is not refused, the behaviour is undefined.
\<close>

lemma too_many_modules:
  assumes "distinct (gv_nodes (pipe_graph p))" and "64 < length (gv_nodes (pipe_graph p))"
    and "\<forall>v\<in>set (gv_nodes (pipe_graph p)). factory_ok reg (pipe_graph p) v"
    and "module_used (idxManager p) = {}"
  shows "Pipeline_CreateModules reg p = Inl UndefinedShift"
  by (rule CreateModules_too_many [OF assms])

end
