(* ===== verification/Transmit.thy ===== *)
theory Transmit
  imports Build Frame EventBus
begin

section \<open>Moving frames through a running pipeline\<close>

text \<open>
  \<^verbatim>\<open>Pipeline::ProvideData\<close>, \<^verbatim>\<open>TransmitData\<close>, \<^verbatim>\<open>TaskLoop\<close> and the \<^verbatim>\<open>On...\<close> handlers of
  \<^verbatim>\<open>framework/src/unistream_pipeline.cpp\<close>, and \<^verbatim>\<open>DoProcess\<close>, \<^verbatim>\<open>DoTransmitData\<close>, \<^verbatim>\<open>TransmitData\<close>
  of \<^verbatim>\<open>framework/src/unistream_module.cpp\<close>, with profiling disabled.

  Frames are shared by pointer between the modules, so they live in a store and a frame is its
  key.  \<^verbatim>\<open>TransmitData\<close> ends with a loop that pushes the frame to the next nodes and waits while
  a conveyor is full; the functions below return the nodes still to push to, in order, and
  \<open>push_once\<close> is one attempt of that loop, so that other threads can act in between.
  What observers and the frame-done callback are told is kept in a log.
\<close>

datatype 'n Obs = Notified 'n nat | FrameDone nat

record 'n Pipeline = "'n PipelineBase" +
  pipe_running :: bool
  pipe_bus :: "StreamMsg ThreadSafeQueue EventBus"
  msgq :: "StreamMsg ThreadSafeQueue"
  frame_done_cb :: bool
  frames :: "nat \<rightharpoonup> UNIFrameInfo"
  tables :: StreamTables
  obs :: "'n Obs list"

definition node_name :: "'n Pipeline \<Rightarrow> 'n \<Rightarrow> string" where
  "node_name p v = (case ctx_module (contexts p v) of None \<Rightarrow> [] | Some m \<Rightarrow> m_name m)"

definition put_frame :: "nat \<Rightarrow> UNIFrameInfo \<Rightarrow> 'n Pipeline \<Rightarrow> 'n Pipeline" where
  "put_frame f d p = p\<lparr>frames := (frames p)(f \<mapsto> d)\<rparr>"

definition post_event :: "Event \<Rightarrow> 'n Pipeline \<Rightarrow> 'n Pipeline" where
  "post_event e p = p\<lparr>pipe_bus := snd (EventBus_PostEvent e (pipe_bus p))\<rparr>"

definition update_msg :: "StreamMsg \<Rightarrow> 'n Pipeline \<Rightarrow> 'n Pipeline" where
  "update_msg m p = p\<lparr>msgq := Pipeline_UpdateByStreamMsg m (msgq p)\<rparr>"

definition Module_NotifyObserver :: "'n \<Rightarrow> nat \<Rightarrow> 'n Pipeline \<Rightarrow> 'n Pipeline" where
  "Module_NotifyObserver v f p =
     (case ctx_module (contexts p v) of
        None \<Rightarrow> p
      | Some m \<Rightarrow> (if m_observer m then p\<lparr>obs := obs p @ [Notified v f]\<rparr> else p))"

subsection \<open>The handlers\<close>

text \<open>\<^verbatim>\<open>std::to_string(ret)\<close>\<close>

fun nat_digits :: "nat \<Rightarrow> string" where
  "nat_digits n = (if n < 10 then [char_of (48 + n)] else nat_digits (n div 10) @ [char_of (48 + n mod 10)])"

definition std_to_string :: "int \<Rightarrow> string" where
  "std_to_string i = (if i < 0 then ''-'' @ nat_digits (nat (- i)) else nat_digits (nat i))"

definition Pipeline_OnProcessEnd :: "'n \<Rightarrow> nat \<Rightarrow> 'n Pipeline \<Rightarrow> 'n Pipeline" where
  "Pipeline_OnProcessEnd v f p = Module_NotifyObserver v f p"

definition Pipeline_OnProcessFailed ::
  "nat \<Rightarrow> 'n \<Rightarrow> UNIFrameInfo \<Rightarrow> int \<Rightarrow> 'n Pipeline \<Rightarrow> 'n Pipeline" where
  "Pipeline_OnProcessFailed tid v d ret p =
     post_event \<lparr>ev_type = EVENT_ERROR, ev_stream_id = stream_id d,
       ev_message = node_name p v @ '' process failed, return number: '' @ std_to_string ret,
       ev_module_name = node_name p v, ev_thread_id = tid\<rparr> p"

definition Pipeline_OnDataInvalid :: "'n \<Rightarrow> UNIFrameInfo \<Rightarrow> 'n Pipeline \<Rightarrow> 'n Pipeline" where
  "Pipeline_OnDataInvalid v d p =
     update_msg \<lparr>msg_type = FRAME_ERR_MSG, msg_stream_id = stream_id d, msg_module_name = node_name p v,
       msg_pts = sint (timestamp d)\<rparr> p"

definition Pipeline_OnEos :: "nat \<Rightarrow> 'n \<Rightarrow> nat \<Rightarrow> UNIFrameInfo \<Rightarrow> 'n Pipeline \<Rightarrow> 'n Pipeline" where
  "Pipeline_OnEos tid v f d p =
     post_event \<lparr>ev_type = EVENT_EOS, ev_stream_id = stream_id d, ev_message = [],
       ev_module_name = node_name p v, ev_thread_id = tid\<rparr> (Module_NotifyObserver v f p)"

definition Pipeline_OnPassThrough :: "nat \<Rightarrow> UNIFrameInfo \<Rightarrow> 'n Pipeline \<Rightarrow> 'n Pipeline" where
  "Pipeline_OnPassThrough f d p =
     (let p1 = (if frame_done_cb p then p\<lparr>obs := obs p @ [FrameDone f]\<rparr> else p)
      in if IsEos d then
           update_msg \<lparr>msg_type = EOS_MSG, msg_stream_id = stream_id d, msg_module_name = [],
             msg_pts = - 1\<rparr> p1
         else p1)"

subsection \<open>TransmitData and ProvideData\<close>

definition PassedByAllParentNodes :: "NodeContext \<Rightarrow> u64 \<Rightarrow> bool" where
  "PassedByAllParentNodes c data_mask \<longleftrightarrow> data_mask AND parent_nodes_mask c = parent_nodes_mask c"

definition PassedByAllModules :: "'n Pipeline \<Rightarrow> u64 \<Rightarrow> bool" where
  "PassedByAllModules p cur_mask \<longleftrightarrow> cur_mask = all_modules_mask p"

definition transmit_targets :: "'n Pipeline \<Rightarrow> 'n \<Rightarrow> u64 \<Rightarrow> 'n list" where
  "transmit_targets p v cur_mask =
     filter (\<lambda>n. PassedByAllParentNodes (contexts p n) cur_mask) (gv_next (pipe_graph p) v)"

text \<open>\<^verbatim>\<open>TransmitData\<close> up to its push loop; the list is what the loop will push to.\<close>

definition Pipeline_TransmitData ::
  "nat \<Rightarrow> 'n \<Rightarrow> nat \<Rightarrow> 'n Pipeline \<Rightarrow> ('n list \<times> 'n Pipeline) result" where
  "Pipeline_TransmitData tid v f p =
     (case frames p f of
        None \<Rightarrow> Inl NullPointer
      | Some d \<Rightarrow>
          (if IsInvalid d then Inr ([], Pipeline_OnDataInvalid v d p)
           else
             let d1 = (if parent_nodes_mask (contexts p v) = 0
                       then SetModulesMask (all_modules_mask p XOR route_mask (contexts p v)) d else d);
                 p1 = put_frame f d1 p;
                 p2 = (if IsEos d1 then Pipeline_OnEos tid v f d1 p1 else Pipeline_OnProcessEnd v f p1)
             in if \<not> IsEos d1 \<and> IsStreamRemoved (tables p2) (stream_id d1) then Inr ([], p2)
                else case ctx_module (contexts p v) of
                    None \<Rightarrow> Inl NullPointer
                  | Some m \<Rightarrow>
                     (case MarkPassed (m_id m) d1 of
                        Inl e \<Rightarrow> Inl e
                      | Inr (cur_mask, d2) \<Rightarrow>
                          (let p3 = put_frame f d2 p2
                           in if PassedByAllModules p3 cur_mask
                              then Inr ([], Pipeline_OnPassThrough f d2 p3)
                              else Inr (transmit_targets p3 v cur_mask, p3)))))"

text \<open>
  One attempt of the push loop: \<open>True\<close> when the loop is done with this node, because the
  connector is stopped or took the frame.
\<close>

definition push_once :: "'n \<Rightarrow> nat \<Rightarrow> 'n Pipeline \<Rightarrow> (bool \<times> 'n Pipeline) result" where
  "push_once n f p =
     (case frames p f of
        None \<Rightarrow> Inl NullPointer
      | Some d \<Rightarrow>
         (case ctx_connector (contexts p n) of
            None \<Rightarrow> Inl NullPointer
          | Some c \<Rightarrow>
             (let conveyor_idx = int (unat (channel_idx d) mod Connector_GetConveyorCount c)
              in if Connector_IsStopped c then Inr (True, p)
                 else case Connector_PushDataBufferToConveyor c conveyor_idx f of
                     Inl e \<Rightarrow> Inl e
                   | Inr (ok, c') \<Rightarrow> Inr (ok, upd_ctx n (\<lambda>x. x\<lparr>ctx_connector := Some c'\<rparr>) p))))"

text \<open>
  The whole loop for one node: \<open>env\<close> lists what the other threads do during each sleep; the
  result is the sleeps in milliseconds and, unless the frame is still waiting, the final state.
\<close>

fun push_loop ::
  "int \<Rightarrow> ('n Pipeline \<Rightarrow> 'n Pipeline) list \<Rightarrow> 'n \<Rightarrow> nat \<Rightarrow> 'n Pipeline \<Rightarrow>
     (int list \<times> 'n Pipeline option) result" where
  "push_loop retry_cnt env n f p =
     (case push_once n f p of
        Inl e \<Rightarrow> Inl e
      | Inr (True, p') \<Rightarrow> Inr ([], Some p')
      | Inr (False, p') \<Rightarrow>
         (case env of
            [] \<Rightarrow> Inr ([5 * retry_cnt], None)
          | e # env' \<Rightarrow>
             (case push_loop (min (retry_cnt * 2) 10) env' n f (e p') of
                Inl x \<Rightarrow> Inl x
              | Inr (sleeps, r) \<Rightarrow> Inr (5 * retry_cnt # sleeps, r))))"

text \<open>
  \<^verbatim>\<open>ProvideData\<close>: the module is a node of the pipeline or the null pointer; a module of another
  container has \<open>m_container\<close> unset.
\<close>

definition Pipeline_ProvideData ::
  "nat \<Rightarrow> 'n option \<Rightarrow> nat \<Rightarrow> 'n Pipeline \<Rightarrow> (bool \<times> 'n list \<times> 'n Pipeline) result" where
  "Pipeline_ProvideData tid mo f p =
     (if \<not> pipe_running p then (if mo = None then Inl NullPointer else Inr (False, [], p))
      else case mo of
          None \<Rightarrow> Inr (False, [], p)
        | Some v \<Rightarrow>
            (case (ctx_module (contexts p v), frames p f) of
               (Some m, Some d) \<Rightarrow>
                 (if \<not> m_container m then Inr (False, [], p)
                  else if modules_mask d = 0 \<and> parent_nodes_mask (contexts p v) \<noteq> 0
                  then Inr (False, [], p)
                  else case Pipeline_TransmitData tid v f p of
                      Inl e \<Rightarrow> Inl e
                    | Inr (ns, p') \<Rightarrow> Inr (True, ns, p'))
             | _ \<Rightarrow> Inl NullPointer))"

subsection \<open>The module's side\<close>

text \<open>\<^verbatim>\<open>return container_->ProvideData(this, data);\<close> in a function that returns \<^verbatim>\<open>int\<close>.\<close>

definition Module_DoTransmitData ::
  "nat \<Rightarrow> 'n \<Rightarrow> nat \<Rightarrow> 'n Pipeline \<Rightarrow> (int \<times> 'n list \<times> 'n Pipeline) result" where
  "Module_DoTransmitData tid v f p =
     (case (ctx_module (contexts p v), frames p f) of
        (Some m, Some d) \<Rightarrow>
          (let p1 = (if IsEos d \<and> payload d \<noteq> None \<and> IsStreamRemoved (tables p) (stream_id d)
                     then p\<lparr>tables := SetStreamRemoved (stream_id d) False (tables p)\<rparr> else p)
           in if m_container m then
                (case Pipeline_ProvideData tid (Some v) f p1 of
                   Inl e \<Rightarrow> Inl e
                 | Inr (ok, ns, p2) \<Rightarrow> Inr (if ok then 1 else 0, ns, p2))
              else Inr (0, [], if hasTransmit m then Module_NotifyObserver v f p1 else p1))
      | _ \<Rightarrow> Inl NullPointer)"

definition Module_TransmitData ::
  "nat \<Rightarrow> 'n \<Rightarrow> nat \<Rightarrow> 'n Pipeline \<Rightarrow> (bool \<times> 'n list \<times> 'n Pipeline) result" where
  "Module_TransmitData tid v f p =
     (case ctx_module (contexts p v) of
        None \<Rightarrow> Inl NullPointer
      | Some m \<Rightarrow>
         (if \<not> hasTransmit m then Inr (True, [], p)
          else case Module_DoTransmitData tid v f p of
              Inl e \<Rightarrow> Inl e
            | Inr (r, ns, p') \<Rightarrow> Inr (if r = 0 then True else False, ns, p')))"

text \<open>
  \<^verbatim>\<open>DoProcess\<close>.  \<open>proc\<close> is the module's \<^verbatim>\<open>Process\<close>, \<open>on_eos\<close> its \<^verbatim>\<open>OnEos\<close>: user code, which may
  act on the pipeline.
\<close>

definition Module_DoProcess ::
  "nat \<Rightarrow> (nat \<Rightarrow> 'n Pipeline \<Rightarrow> int \<times> 'n Pipeline) \<Rightarrow> (string \<Rightarrow> 'n Pipeline \<Rightarrow> 'n Pipeline) \<Rightarrow>
     'n \<Rightarrow> nat \<Rightarrow> 'n Pipeline \<Rightarrow> (int \<times> 'n list \<times> 'n Pipeline) result" where
  "Module_DoProcess tid proc on_eos v f p =
     (case (ctx_module (contexts p v), frames p f) of
        (Some m, Some d) \<Rightarrow>
          (let removed0 = IsStreamRemoved (tables p) (stream_id d);
               parent_removed = (case payload d of None \<Rightarrow> False | Some s \<Rightarrow> IsStreamRemoved (tables p) s);
               p1 = (if \<not> removed0 \<and> parent_removed
                     then p\<lparr>tables := SetStreamRemoved (stream_id d) True (tables p)\<rparr> else p);
               removed = (removed0 \<or> parent_removed)
           in if \<not> hasTransmit m then
                (if \<not> IsEos d then
                   (let (ret, p2) = (if \<not> removed then proc f p1 else (0, p1))
                    in if ret \<noteq> 0 then Inr (ret, [], p2) else Module_DoTransmitData tid v f p2)
                 else Module_DoTransmitData tid v f (on_eos (stream_id d) p1))
              else
                (let p2 = (if removed then put_frame f (set_flag UNI_FRAME_FLAG_REMOVED d) p1 else p1);
                     (ret, p3) = proc f p2
                 in Inr (ret, [], p3)))
      | _ \<Rightarrow> Inl NullPointer)"

text \<open>
  \<^verbatim>\<open>TaskLoop\<close>: one look at the conveyor, and what follows a frame.  \<open>None\<close> in the first is the
  end of the loop.
\<close>

definition TaskLoop_pop ::
  "'n \<Rightarrow> nat \<Rightarrow> 'n Pipeline \<Rightarrow> (nat option \<times> 'n Pipeline) option result" where
  "TaskLoop_pop v idx p =
     (case ctx_connector (contexts p v) of
        None \<Rightarrow> Inl NullPointer
      | Some c \<Rightarrow>
         (if Connector_IsStopped c then Inr None
          else case Connector_PopDataBufferFromConveyor c (int idx) of
              Inl e \<Rightarrow> Inl e
            | Inr (r, c') \<Rightarrow> Inr (Some (r, upd_ctx v (\<lambda>x. x\<lparr>ctx_connector := Some c'\<rparr>) p))))"

definition TaskLoop_process ::
  "nat \<Rightarrow> (nat \<Rightarrow> 'n Pipeline \<Rightarrow> int \<times> 'n Pipeline) \<Rightarrow> (string \<Rightarrow> 'n Pipeline \<Rightarrow> 'n Pipeline) \<Rightarrow>
     'n \<Rightarrow> nat \<Rightarrow> 'n Pipeline \<Rightarrow> ('n list \<times> 'n Pipeline) result" where
  "TaskLoop_process tid proc on_eos v f p =
     (case Module_DoProcess tid proc on_eos v f p of
        Inl e \<Rightarrow> Inl e
      | Inr (ret, ns, p') \<Rightarrow>
         (case frames p' f of
            None \<Rightarrow> Inl NullPointer
          | Some d \<Rightarrow> Inr (ns, if ret < 0 then Pipeline_OnProcessFailed tid v d ret p' else p')))"

end
