(* ===== verification/Flow.thy ===== *)
theory Flow
  imports Transmit "HOL-Library.Multiset"
begin

section \<open>The flow of frames: interleavings of sources, workers and modules\<close>

text \<open>
  The threads of a running pipeline as a step relation.  A source thread provides new frames at
  a head node; for every node and conveyor a worker takes frames from the conveyor and processes
  them; a module that transmits by itself (\<^verbatim>\<open>ModuleEx\<close>) keeps a processed frame and transmits it
  later from a thread of its own; a thread that transmits pushes to the next nodes one by one,
  trying again while a conveyor is full.  The tables of removed streams, the event bus and the
  message queue may change at any moment.

  A task is a thread at work on a frame.  \<open>held\<close> are the frames a module keeps.  \<open>dropped\<close> and
  \<open>origin\<close> are history: where a frame was given up (its stream removed, \<^verbatim>\<open>Process\<close> failed, the
  module did not keep it) and the head that provided it.
\<close>

datatype 'n Owner = Worker 'n nat | Other

datatype 'n Stage = Processing | Pushing "'n list"

record 'n Task =
  owner :: "'n Owner"
  task_node :: 'n
  task_frame :: nat
  stage :: "'n Stage"

record 'n World =
  pipe :: "'n Pipeline"
  tasks :: "'n Task multiset"
  held :: "('n \<times> nat) multiset"
  dropped :: "('n \<times> nat) multiset"
  origin :: "nat \<rightharpoonup> 'n"

definition marked :: "'n Pipeline \<Rightarrow> nat \<Rightarrow> 'n \<Rightarrow> bool" where
  "marked p f v \<longleftrightarrow> (\<exists>d. frames p f = Some d \<and> bit (modules_mask d) (node_id p v))"

text \<open>A frame whose transmission did not mark the node was given up there.\<close>

definition settle :: "'n \<Rightarrow> nat \<Rightarrow> 'n Pipeline \<Rightarrow> ('n \<times> nat) multiset \<Rightarrow> ('n \<times> nat) multiset" where
  "settle v f p D = (if marked p f v then D else add_mset (v, f) D)"

definition new_frame :: "UNIFrameInfo \<Rightarrow> bool" where
  "new_frame d \<longleftrightarrow> modules_mask d = 0 \<and> \<not> IsInvalid d"

inductive step :: "'n World \<Rightarrow> 'n World \<Rightarrow> bool" where
  provide: "v \<in> set (gv_heads (pipe_graph (pipe w))) \<Longrightarrow> frames (pipe w) f = None \<Longrightarrow> new_frame d \<Longrightarrow>
    ctx_module (contexts (pipe w) v) = Some m \<Longrightarrow> hasTransmit m \<Longrightarrow>
    Module_TransmitData tid v f (put_frame f d (pipe w)) = Inr (r, ns, p') \<Longrightarrow>
    step w (w\<lparr>pipe := p', dropped := settle v f p' (dropped w), origin := (origin w)(f \<mapsto> v),
      tasks := add_mset \<lparr>owner = Other, task_node = v, task_frame = f, stage = Pushing ns\<rparr> (tasks w)\<rparr>)"
| pop: "v \<in> set (gv_nodes (pipe_graph (pipe w))) \<Longrightarrow> (\<forall>t\<in>#tasks w. owner t \<noteq> Worker v i) \<Longrightarrow>
    TaskLoop_pop v i (pipe w) = Inr (Some (Some f, p')) \<Longrightarrow>
    step w (w\<lparr>pipe := p',
      tasks := add_mset \<lparr>owner = Worker v i, task_node = v, task_frame = f, stage = Processing\<rparr> (tasks w)\<rparr>)"
| process: "tasks w = add_mset \<lparr>owner = ow, task_node = v, task_frame = f, stage = Processing\<rparr> T \<Longrightarrow>
    ctx_module (contexts (pipe w) v) = Some m \<Longrightarrow> \<not> hasTransmit m \<Longrightarrow>
    TaskLoop_process tid (\<lambda>_ p. (ret, p)) (\<lambda>_ p. p) v f (pipe w) = Inr (ns, p') \<Longrightarrow>
    step w (w\<lparr>pipe := p', dropped := settle v f p' (dropped w),
      tasks := add_mset \<lparr>owner = ow, task_node = v, task_frame = f, stage = Pushing ns\<rparr> T\<rparr>)"
| process_ex: "tasks w = add_mset \<lparr>owner = ow, task_node = v, task_frame = f, stage = Processing\<rparr> T \<Longrightarrow>
    ctx_module (contexts (pipe w) v) = Some m \<Longrightarrow> hasTransmit m \<Longrightarrow>
    TaskLoop_process tid (\<lambda>_ p. (ret, p)) (\<lambda>_ p. p) v f (pipe w) = Inr (ns, p') \<Longrightarrow>
    step w (w\<lparr>pipe := p',
      held := (if keep then add_mset (v, f) (held w) else held w),
      dropped := (if keep then dropped w else add_mset (v, f) (dropped w)),
      tasks := add_mset \<lparr>owner = ow, task_node = v, task_frame = f, stage = Pushing ns\<rparr> T\<rparr>)"
| transmit: "held w = add_mset (v, f) H \<Longrightarrow>
    ctx_module (contexts (pipe w) v) = Some m \<Longrightarrow> hasTransmit m \<Longrightarrow>
    Module_TransmitData tid v f (pipe w) = Inr (r, ns, p') \<Longrightarrow>
    step w (w\<lparr>pipe := p', held := H, dropped := settle v f p' (dropped w),
      tasks := add_mset \<lparr>owner = Other, task_node = v, task_frame = f, stage = Pushing ns\<rparr> (tasks w)\<rparr>)"
| push: "tasks w = add_mset \<lparr>owner = ow, task_node = v, task_frame = f, stage = Pushing (n # ns)\<rparr> T \<Longrightarrow>
    push_once n f (pipe w) = Inr (accepted, p') \<Longrightarrow>
    step w (w\<lparr>pipe := p', tasks := add_mset \<lparr>owner = ow, task_node = v, task_frame = f,
      stage = Pushing (if accepted then ns else n # ns)\<rparr> T\<rparr>)"
| finish: "tasks w = add_mset \<lparr>owner = ow, task_node = v, task_frame = f, stage = Pushing []\<rparr> T \<Longrightarrow>
    step w (w\<lparr>tasks := T\<rparr>)"
| env: "step w (w\<lparr>pipe := (pipe w)\<lparr>tables := g, pipe_bus := b, msgq := q\<rparr>\<rparr>)"

definition initial :: "'n World \<Rightarrow> bool" where
  "initial w \<longleftrightarrow> pipe_wf (pipe w) \<and> pipe_running (pipe w) \<and> frames (pipe w) = Map.empty \<and>
     obs (pipe w) = [] \<and> tasks w = {#} \<and> held w = {#} \<and> dropped w = {#} \<and> origin w = Map.empty \<and>
     (\<forall>v c. ctx_connector (contexts (pipe w) v) = Some c \<longrightarrow>
        connector_ok c \<and> conveyor_capacity c > 0 \<and> \<not> stop c \<and> (\<forall>q\<in>set (conveyors c). dataq q = []))"

inductive reachable :: "'n World \<Rightarrow> bool" where
  init: "initial w \<Longrightarrow> reachable w"
| more: "reachable w \<Longrightarrow> step w w' \<Longrightarrow> reachable w'"

subsection \<open>Counting where a frame is\<close>

definition stage_count :: "'n Task \<Rightarrow> 'n \<Rightarrow> nat \<Rightarrow> nat" where
  "stage_count t v f =
     (if task_frame t \<noteq> f then 0
      else case stage t of
          Processing \<Rightarrow> (if task_node t = v then 1 else 0)
        | Pushing ns \<Rightarrow> count_list ns v)"

definition queued :: "'n Pipeline \<Rightarrow> 'n \<Rightarrow> nat \<Rightarrow> nat" where
  "queued p v f =
     (case ctx_connector (contexts p v) of
        None \<Rightarrow> 0
      | Some c \<Rightarrow> (\<Sum>q\<leftarrow>conveyors c. count_list (dataq q) f))"

definition tok :: "'n World \<Rightarrow> 'n \<Rightarrow> nat \<Rightarrow> nat" where
  "tok w v f = queued (pipe w) v f + (\<Sum>t\<in>#tasks w. stage_count t v f) + count (held w) (v, f)"

definition lost :: "'n World \<Rightarrow> 'n \<Rightarrow> nat \<Rightarrow> nat" where
  "lost w v f = count (dropped w) (v, f)"

subsection \<open>What a transmission does\<close>

definition same_struct :: "'n Pipeline \<Rightarrow> 'n Pipeline \<Rightarrow> bool" where
  "same_struct p p' \<longleftrightarrow> pipe_graph p' = pipe_graph p \<and> contexts p' = contexts p \<and>
     all_modules_mask p' = all_modules_mask p \<and> pipe_running p' = pipe_running p \<and>
     frame_done_cb p' = frame_done_cb p"

lemma same_struct_refl [simp]: "same_struct p p"
  by (simp add: same_struct_def)

lemma same_struct_trans: "same_struct p q \<Longrightarrow> same_struct q r \<Longrightarrow> same_struct p r"
  by (simp add: same_struct_def)

lemma same_struct_id: "same_struct p p' \<Longrightarrow> node_id p' = node_id p"
  by (simp add: same_struct_def node_id_def fun_eq_iff)

lemma same_struct_wf: "same_struct p p' \<Longrightarrow> pipe_wf p' = pipe_wf p"
  using same_struct_id [of p p'] by (simp add: same_struct_def pipe_wf_def module_set_def)

lemma handlers_struct [simp]:
  "same_struct p (put_frame f d p)" "same_struct p (post_event e p)" "same_struct p (update_msg m p)"
  "same_struct p (Module_NotifyObserver v f p)"
  by (auto simp: same_struct_def put_frame_def post_event_def update_msg_def Module_NotifyObserver_def
      split: option.splits)

lemma on_handlers_struct [simp]:
  "same_struct p (Pipeline_OnProcessEnd v f p)" "same_struct p (Pipeline_OnEos tid v f d p)"
  "same_struct p (Pipeline_OnPassThrough f d p)" "same_struct p (Pipeline_OnProcessFailed tid v d ret p)"
  "same_struct p (Pipeline_OnDataInvalid v d p)"
  by (auto simp: same_struct_def Pipeline_OnProcessEnd_def Pipeline_OnEos_def Pipeline_OnPassThrough_def
      Pipeline_OnProcessFailed_def Pipeline_OnDataInvalid_def Let_def put_frame_def post_event_def
      update_msg_def Module_NotifyObserver_def split: option.splits)

lemma handlers_frames [simp]:
  "frames (put_frame f d p) = (frames p)(f \<mapsto> d)" "frames (Pipeline_OnProcessEnd v f p) = frames p"
  "frames (Pipeline_OnEos tid v f d p) = frames p" "frames (Pipeline_OnPassThrough f d p) = frames p"
  "frames (Pipeline_OnProcessFailed tid v d ret p) = frames p" "frames (Module_NotifyObserver v f p) = frames p"
  by (auto simp: put_frame_def Pipeline_OnProcessEnd_def Pipeline_OnEos_def Pipeline_OnPassThrough_def
      Pipeline_OnProcessFailed_def Let_def post_event_def update_msg_def Module_NotifyObserver_def
      split: option.splits)

lemma handlers_done [simp]:
  "count_list (obs (put_frame f d p)) (FrameDone g) = count_list (obs p) (FrameDone g)"
  "count_list (obs (Pipeline_OnProcessEnd v f p)) (FrameDone g) = count_list (obs p) (FrameDone g)"
  "count_list (obs (Pipeline_OnEos tid v f d p)) (FrameDone g) = count_list (obs p) (FrameDone g)"
  "count_list (obs (Pipeline_OnProcessFailed tid v d ret p)) (FrameDone g) = count_list (obs p) (FrameDone g)"
  "count_list (obs (Module_NotifyObserver v f p)) (FrameDone g) = count_list (obs p) (FrameDone g)"
  "count_list (obs (Pipeline_OnPassThrough f d p)) (FrameDone g) =
     count_list (obs p) (FrameDone g) + (if frame_done_cb p \<and> f = g then 1 else 0)"
  by (auto simp: put_frame_def Pipeline_OnProcessEnd_def Pipeline_OnEos_def Pipeline_OnPassThrough_def
      Pipeline_OnProcessFailed_def Let_def post_event_def update_msg_def Module_NotifyObserver_def
      split: option.splits)

text \<open>The mask a frame has before it is marked: a root node starts it.\<close>

definition start_mask :: "'n Pipeline \<Rightarrow> 'n \<Rightarrow> UNIFrameInfo \<Rightarrow> u64" where
  "start_mask p v d =
     (if parent_nodes_mask (contexts p v) = 0 then all_modules_mask p XOR route_mask (contexts p v)
      else modules_mask d)"

definition done_count :: "'n Pipeline \<Rightarrow> nat \<Rightarrow> nat" where
  "done_count p f = count_list (obs p) (FrameDone f)"

lemma flags_SetModulesMask [simp]:
  "IsInvalid (SetModulesMask m d) = IsInvalid d" "IsEos (SetModulesMask m d) = IsEos d"
  "stream_id (SetModulesMask m d) = stream_id d" "channel_idx (SetModulesMask m d) = channel_idx d"
  "modules_mask (SetModulesMask m d) = m"
  by (simp_all add: SetModulesMask_def IsInvalid_def IsEos_def)

lemma transmit_effect:
  assumes d: "frames p f = Some d" and inv: "\<not> IsInvalid d" and ms: "module_set p v"
  obtains ns p' d' where "Pipeline_TransmitData tid v f p = Inr (ns, p')" "same_struct p p'"
      "frames p' = (frames p)(f \<mapsto> d')" "\<not> IsInvalid d'" "stream_id d' = stream_id d"
      "channel_idx d' = channel_idx d" "\<forall>g. g \<noteq> f \<longrightarrow> done_count p' g = done_count p g"
      "(modules_mask d' = start_mask p v d \<and> ns = [] \<and> done_count p' f = done_count p f \<and> \<not> IsEos d \<and>
          IsStreamRemoved (tables p) (stream_id d)) \<or>
       (modules_mask d' = start_mask p v d OR 2 ^ node_id p v \<and>
          ns = (if modules_mask d' = all_modules_mask p then [] else transmit_targets p v (modules_mask d')) \<and>
          done_count p' f = done_count p f + (if frame_done_cb p \<and> modules_mask d' = all_modules_mask p then 1 else 0))"
proof -
  obtain m where m: "ctx_module (contexts p v) = Some m" "unat (m_id m) < 64"
    using ms by (auto simp: module_set_def)
  have id: "unat (m_id m) = node_id p v" using m by (simp add: node_id_def)
  define d1 where "d1 = (if parent_nodes_mask (contexts p v) = 0
      then SetModulesMask (all_modules_mask p XOR route_mask (contexts p v)) d else d)"
  have d1: "modules_mask d1 = start_mask p v d" "IsInvalid d1 = IsInvalid d" "IsEos d1 = IsEos d"
    "stream_id d1 = stream_id d" "channel_idx d1 = channel_idx d"
    by (simp_all add: d1_def start_mask_def)
  define p2 where "p2 = (if IsEos d1 then Pipeline_OnEos tid v f d1 (put_frame f d1 p)
      else Pipeline_OnProcessEnd v f (put_frame f d1 p))"
  have s2: "same_struct p p2"
    by (rule same_struct_trans [of _ "put_frame f d1 p"]) (simp_all add: p2_def)
  have f2: "frames p2 = (frames p)(f \<mapsto> d1)" by (simp add: p2_def)
  have c2: "done_count p2 g = done_count p g" for g by (simp add: p2_def done_count_def)
  have t2: "tables p2 = tables p"
    by (auto simp: p2_def Pipeline_OnEos_def Pipeline_OnProcessEnd_def post_event_def put_frame_def
        Module_NotifyObserver_def split: option.splits)
  have tr0: "Pipeline_TransmitData tid v f p =
      (if \<not> IsEos d1 \<and> IsStreamRemoved (tables p2) (stream_id d1) then Inr ([], p2)
       else case MarkPassed (m_id m) d1 of
           Inl e \<Rightarrow> Inl e
         | Inr (cur_mask, d2) \<Rightarrow> (let p3 = put_frame f d2 p2
             in if PassedByAllModules p3 cur_mask then Inr ([], Pipeline_OnPassThrough f d2 p3)
                else Inr (transmit_targets p3 v cur_mask, p3)))"
    using inv unfolding Pipeline_TransmitData_def d1_def p2_def Let_def d m(1) option.case
    by (simp only: if_False)
  show thesis
  proof (cases "\<not> IsEos d1 \<and> IsStreamRemoved (tables p2) (stream_id d1)")
    case True
    then have "Pipeline_TransmitData tid v f p = Inr ([], p2)" using tr0 by simp
    from that [OF this s2 f2] d1 inv True c2 t2 show thesis by auto
  next
    case False
    define d2 where "d2 = d1\<lparr>modules_mask := modules_mask d1 OR 2 ^ node_id p v\<rparr>"
    have mp: "MarkPassed (m_id m) d1 = Inr (modules_mask d2, d2)"
      using m(2) by (simp add: MarkPassed_def d2_def id Let_def)
    let ?p3 = "put_frame f d2 p2"
    have d2: "\<not> IsInvalid d2" "stream_id d2 = stream_id d" "channel_idx d2 = channel_idx d"
      "modules_mask d2 = start_mask p v d OR 2 ^ node_id p v"
      using inv d1 by (simp_all add: d2_def IsInvalid_def)
    have s3: "same_struct p ?p3" using same_struct_trans [OF s2] by simp
    have f3: "frames ?p3 = (frames p)(f \<mapsto> d2)" by (simp add: f2)
    have a3: "all_modules_mask ?p3 = all_modules_mask p" "frame_done_cb ?p3 = frame_done_cb p"
      "transmit_targets ?p3 v x = transmit_targets p v x" for x
      using s3 by (auto simp: same_struct_def transmit_targets_def)
    have tr: "Pipeline_TransmitData tid v f p =
        (if PassedByAllModules ?p3 (modules_mask d2) then Inr ([], Pipeline_OnPassThrough f d2 ?p3)
         else Inr (transmit_targets ?p3 v (modules_mask d2), ?p3))"
      unfolding tr0 if_not_P [OF False] by (simp add: mp Let_def)
    show thesis
    proof (cases "modules_mask d2 = all_modules_mask p")
      case True
      have "same_struct p (Pipeline_OnPassThrough f d2 ?p3)" using same_struct_trans [OF s3] by simp
      with tr True a3 that [of "[]" "Pipeline_OnPassThrough f d2 ?p3" d2] d2 f3 c2 show thesis
        by (simp add: PassedByAllModules_def done_count_def)
    next
      case False
      with tr a3 that [of "transmit_targets p v (modules_mask d2)" ?p3 d2] d2 s3 f3 c2 show thesis
        by (simp add: PassedByAllModules_def done_count_def)
    qed
  qed
qed

subsection \<open>Masks as sets of nodes\<close>

definition passed :: "'n Pipeline \<Rightarrow> UNIFrameInfo \<Rightarrow> 'n \<Rightarrow> bool" where
  "passed p d v \<longleftrightarrow> bit (modules_mask d) (node_id p v)"

lemma wf_node: "pipe_wf p \<Longrightarrow> v \<in> set (gv_nodes (pipe_graph p)) \<Longrightarrow> module_set p v"
  by (simp add: pipe_wf_def Let_def)

lemma wf_edge_nodes:
  "pipe_wf p \<Longrightarrow> (u, v) \<in> gv_edges (pipe_graph p) \<Longrightarrow>
   u \<in> set (gv_nodes (pipe_graph p)) \<and> v \<in> set (gv_nodes (pipe_graph p))"
  by (auto simp: pipe_wf_def Let_def view_ok_def gv_edges_def)

lemma wf_view: "pipe_wf p \<Longrightarrow> view_ok (pipe_graph p)"
  by (simp add: pipe_wf_def Let_def)

lemma wf_inj: "pipe_wf p \<Longrightarrow> inj_on (node_id p) (set (gv_nodes (pipe_graph p)))"
  by (simp add: pipe_wf_def Let_def)

lemma wf_head_iff:
  assumes "pipe_wf p" and "v \<in> set (gv_nodes (pipe_graph p))"
  shows "parent_nodes_mask (contexts p v) = 0 \<longleftrightarrow> v \<in> set (gv_heads (pipe_graph p))"
proof -
  have "parent_nodes_mask (contexts p v) = 0 \<longleftrightarrow> (\<forall>u. (u, v) \<notin> gv_edges (pipe_graph p))"
    using assms word_nonzero_iff [of "parent_nodes_mask (contexts p v)"]
    by (auto simp: pipe_wf_def Let_def)
  then show ?thesis using assms wf_view [OF assms(1)] by (simp add: view_ok_def)
qed

lemma PassedByAllParentNodes_iff:
  assumes "pipe_wf p" and "n \<in> set (gv_nodes (pipe_graph p))"
  shows "PassedByAllParentNodes (contexts p n) m \<longleftrightarrow>
    (\<forall>u. (u, n) \<in> gv_edges (pipe_graph p) \<longrightarrow> bit m (node_id p u))"
proof -
  have "bit (parent_nodes_mask (contexts p n)) i \<longleftrightarrow> (\<exists>u. (u, n) \<in> gv_edges (pipe_graph p) \<and> i = node_id p u)" for i
    using assms by (simp add: pipe_wf_def Let_def)
  moreover have "node_id p u < 64" if "(u, n) \<in> gv_edges (pipe_graph p)" for u
    using wf_edge_nodes [OF assms(1) that] module_set_lt [OF wf_node [OF assms(1)]] by blast
  ultimately show ?thesis
    by (auto simp: PassedByAllParentNodes_def mask_subset_iff)
qed

definition mask_of_nodes :: "'n Pipeline \<Rightarrow> u64 \<Rightarrow> bool" where
  "mask_of_nodes p m \<longleftrightarrow> (\<forall>i. bit m i \<longrightarrow> i \<in> node_id p ` set (gv_nodes (pipe_graph p)))"

lemma all_mask_iff:
  assumes "pipe_wf p" and "mask_of_nodes p m"
  shows "m = all_modules_mask p \<longleftrightarrow> (\<forall>v\<in>set (gv_nodes (pipe_graph p)). bit m (node_id p v))"
proof -
  have a: "bit (all_modules_mask p) i \<longleftrightarrow> i \<in> node_id p ` set (gv_nodes (pipe_graph p))" for i
    using assms(1) by (simp add: pipe_wf_def Let_def)
  show ?thesis
  proof
    assume "\<forall>v\<in>set (gv_nodes (pipe_graph p)). bit m (node_id p v)"
    with a assms(2) have "bit m i \<longleftrightarrow> bit (all_modules_mask p) i" for i
      by (auto simp: mask_of_nodes_def)
    then show "m = all_modules_mask p" by (intro bit_eqI)
  qed (simp add: a)
qed

lemma root_mask:
  assumes "pipe_wf p" and "h \<in> set (gv_heads (pipe_graph p))"
  shows "mask_of_nodes p (all_modules_mask p XOR route_mask (contexts p h))"
    and "v \<in> set (gv_nodes (pipe_graph p)) \<Longrightarrow>
      bit (all_modules_mask p XOR route_mask (contexts p h)) (node_id p v) \<longleftrightarrow>
      (h, v) \<notin> (gv_edges (pipe_graph p))\<^sup>*"
proof -
  let ?N = "set (gv_nodes (pipe_graph p))" and ?E = "gv_edges (pipe_graph p)"
  have a: "bit (all_modules_mask p) i \<longleftrightarrow> i \<in> node_id p ` ?N"
    and r: "bit (route_mask (contexts p h)) i \<longleftrightarrow> (\<exists>v. (h, v) \<in> ?E\<^sup>* \<and> i = node_id p v)" for i
    using assms by (simp_all add: pipe_wf_def Let_def)
  have h: "h \<in> ?N" using assms wf_view by (auto simp: view_ok_def)
  have reach: "v \<in> ?N" if "(h, v) \<in> ?E\<^sup>*" for v
    using that h by (induction rule: rtrancl_induct) (use wf_edge_nodes [OF assms(1)] in auto)
  show "mask_of_nodes p (all_modules_mask p XOR route_mask (contexts p h))"
    using a r reach by (auto simp: mask_of_nodes_def bit_xor_iff)
  show "bit (all_modules_mask p XOR route_mask (contexts p h)) (node_id p v) \<longleftrightarrow> (h, v) \<notin> ?E\<^sup>*"
    if v: "v \<in> ?N"
  proof -
    have "(\<exists>x. (h, x) \<in> ?E\<^sup>* \<and> node_id p v = node_id p x) \<longleftrightarrow> (h, v) \<in> ?E\<^sup>*"
      using inj_onD [OF wf_inj [OF assms(1)]] reach v by metis
    with a r v show ?thesis by (auto simp: bit_xor_iff)
  qed
qed

lemma bit_or_node:
  assumes "pipe_wf p" and "u \<in> set (gv_nodes (pipe_graph p))" and "v \<in> set (gv_nodes (pipe_graph p))"
  shows "bit (m OR (2 ^ node_id p u :: u64)) (node_id p v) \<longleftrightarrow> bit m (node_id p v) \<or> v = u"
  using inj_onD [OF wf_inj [OF assms(1)]] assms(2,3) module_set_lt [OF wf_node [OF assms(1,3)]]
  by (auto simp: bit_or_one_shl)

lemma mask_of_nodes_or:
  "mask_of_nodes p m \<Longrightarrow> u \<in> set (gv_nodes (pipe_graph p)) \<Longrightarrow> mask_of_nodes p (m OR 2 ^ node_id p u)"
  by (auto simp: mask_of_nodes_def bit_or_one_shl)

lemma count_list_distinct: "distinct xs \<Longrightarrow> count_list xs v = of_bool (v \<in> set xs)"
  by (induction xs) auto

lemma transmit_targets_spec:
  assumes "pipe_wf p" and "u \<in> set (gv_nodes (pipe_graph p))"
  shows "count_list (transmit_targets p u m) v =
    of_bool ((u, v) \<in> gv_edges (pipe_graph p) \<and> (\<forall>x. (x, v) \<in> gv_edges (pipe_graph p) \<longrightarrow> bit m (node_id p x)))"
proof -
  have d: "distinct (gv_next (pipe_graph p) u)" and s: "set (gv_next (pipe_graph p) u) \<subseteq> set (gv_nodes (pipe_graph p))"
    using wf_view [OF assms(1)] assms(2) by (auto simp: view_ok_def)
  have e: "(u, v) \<in> gv_edges (pipe_graph p) \<longleftrightarrow> v \<in> set (gv_next (pipe_graph p) u)"
    using assms(2) by (simp add: gv_edges_def)
  have "distinct (transmit_targets p u m)" using d by (simp add: transmit_targets_def)
  then have "count_list (transmit_targets p u m) v = of_bool (v \<in> set (transmit_targets p u m))"
    by (rule count_list_distinct)
  also have "v \<in> set (transmit_targets p u m) \<longleftrightarrow> (u, v) \<in> gv_edges (pipe_graph p) \<and>
      (\<forall>x. (x, v) \<in> gv_edges (pipe_graph p) \<longrightarrow> bit m (node_id p x))"
    using PassedByAllParentNodes_iff [OF assms(1)] s e by (auto simp: transmit_targets_def)
  finally show ?thesis .
qed

subsection \<open>The state of one frame\<close>

text \<open>
  A node is due for a frame when the frame will still come to it or is on its way: it lies below
  the head that provided the frame, has not marked it, and all its parents have.  The counts
  \<open>T\<close> and \<open>L\<close> say where the frame is and where it was lost; \<open>c\<close> is how often it was done.
\<close>

definition due :: "'n Pipeline \<Rightarrow> 'n \<Rightarrow> UNIFrameInfo \<Rightarrow> 'n \<Rightarrow> bool" where
  "due p h d v \<longleftrightarrow> (h, v) \<in> (gv_edges (pipe_graph p))\<^sup>+ \<and> \<not> passed p d v \<and>
     (\<forall>u. (u, v) \<in> gv_edges (pipe_graph p) \<longrightarrow> passed p d u)"

definition frame_ok ::
  "'n Pipeline \<Rightarrow> 'n \<Rightarrow> UNIFrameInfo \<Rightarrow> ('n \<Rightarrow> nat) \<Rightarrow> ('n \<Rightarrow> nat) \<Rightarrow> nat \<Rightarrow> bool" where
  "frame_ok p h d T L c \<longleftrightarrow>
     (let E = gv_edges (pipe_graph p); N = set (gv_nodes (pipe_graph p))
      in h \<in> set (gv_heads (pipe_graph p)) \<and> \<not> IsInvalid d \<and> mask_of_nodes p (modules_mask d) \<and>
         (\<forall>v\<in>N. (h, v) \<notin> E\<^sup>* \<longrightarrow> passed p d v) \<and>
         (\<forall>u v. (u, v) \<in> E \<longrightarrow> (h, v) \<in> E\<^sup>* \<longrightarrow> passed p d v \<longrightarrow> passed p d u) \<and>
         T h = 0 \<and> L h = of_bool (\<not> passed p d h) \<and>
         (\<forall>v. v \<noteq> h \<longrightarrow> T v + L v = of_bool (due p h d v)) \<and>
         c = of_bool (frame_done_cb p \<and> (\<forall>v\<in>N. passed p d v)))"

lemma frame_ok_struct:
  "same_struct p p' \<Longrightarrow> frame_ok p' h d T L c = frame_ok p h d T L c"
  using same_struct_id [of p p']
  by (simp add: same_struct_def frame_ok_def due_def passed_def mask_of_nodes_def)

lemma frame_okD:
  assumes "frame_ok p h d T L c"
  shows "h \<in> set (gv_heads (pipe_graph p))" "\<not> IsInvalid d" "mask_of_nodes p (modules_mask d)"
    "v \<in> set (gv_nodes (pipe_graph p)) \<Longrightarrow> (h, v) \<notin> (gv_edges (pipe_graph p))\<^sup>* \<Longrightarrow> passed p d v"
    "(u, v) \<in> gv_edges (pipe_graph p) \<Longrightarrow> (h, v) \<in> (gv_edges (pipe_graph p))\<^sup>* \<Longrightarrow> passed p d v \<Longrightarrow> passed p d u"
    "T h = 0" "L h = of_bool (\<not> passed p d h)" "v \<noteq> h \<Longrightarrow> T v + L v = of_bool (due p h d v)"
    "c = of_bool (frame_done_cb p \<and> (\<forall>v\<in>set (gv_nodes (pipe_graph p)). passed p d v))"
  using assms by (auto simp: frame_ok_def Let_def)

lemma frame_ok_due:
  assumes "frame_ok p h d T L c" and "T v > 0"
  shows "v \<noteq> h \<and> due p h d v \<and> T v = 1 \<and> L v = 0"
proof -
  have "v \<noteq> h" using frame_okD(6) [OF assms(1)] assms(2) by auto
  with frame_okD(8) [OF assms(1) this] assms(2) show ?thesis by (cases "due p h d v") auto
qed

text \<open>Marking a frame at a node it has come to, and pushing it on.\<close>

lemma mark_other:
  assumes wf: "pipe_wf p" and ok: "frame_ok p h d T L c" and tok: "T u > 0"
    and mask': "modules_mask d' = modules_mask d OR 2 ^ node_id p u" and inv: "\<not> IsInvalid d'"
    and ns: "ns = (if modules_mask d' = all_modules_mask p then [] else transmit_targets p u (modules_mask d'))"
    and T': "\<And>v. T' v = T v - of_bool (v = u) + count_list ns v"
    and c': "c' = c + (if frame_done_cb p \<and> modules_mask d' = all_modules_mask p then 1 else 0)"
  shows "frame_ok p h d' T' L c'"
proof -
  let ?E = "gv_edges (pipe_graph p)" and ?N = "set (gv_nodes (pipe_graph p))"
  note D = frame_okD [OF ok]
  from frame_ok_due [OF ok tok] have u: "u \<noteq> h" "due p h d u" "T u = 1" "L u = 0" by auto
  have hu: "(h, u) \<in> ?E\<^sup>+" and nu: "\<not> passed p d u" and pu: "\<And>x. (x, u) \<in> ?E \<Longrightarrow> passed p d x"
    using u(2) by (auto simp: due_def)
  have uN: "u \<in> ?N" using hu wf_edge_nodes [OF wf] by (metis tranclE)
  have ac: "acyclic ?E" using wf_view [OF wf] by (simp add: view_ok_def)
  have hnp: "(x, h) \<notin> ?E" for x using wf_view [OF wf] D(1) by (simp add: view_ok_def)
  have p': "passed p d' v \<longleftrightarrow> passed p d v \<or> v = u" if "v \<in> ?N" for v
    using bit_or_node [OF wf uN that] by (simp add: passed_def mask')
  have m': "mask_of_nodes p (modules_mask d')" using D(3) uN by (simp add: mask' mask_of_nodes_or)
  have all: "modules_mask d' = all_modules_mask p \<longleftrightarrow> (\<forall>v\<in>?N. passed p d' v)"
    using all_mask_iff [OF wf m'] by (simp add: passed_def)
  have down: "\<not> passed p d v" if "(u, v) \<in> ?E" for v
    using that D(5) nu hu by (meson rtrancl.rtrancl_into_rtrancl trancl_into_rtrancl)
  have cnt: "count_list ns v = of_bool ((u, v) \<in> ?E \<and> (\<forall>x. (x, v) \<in> ?E \<longrightarrow> passed p d' x))" for v
  proof (cases "modules_mask d' = all_modules_mask p")
    case True
    have "(u, v) \<notin> ?E"
    proof
      assume e: "(u, v) \<in> ?E"
      then have "v \<in> ?N" "v \<noteq> u" using wf_edge_nodes [OF wf e] ac by (auto simp: acyclic_def)
      with True all p' down [OF e] show False by blast
    qed
    with True ns show ?thesis by simp
  next
    case False
    with ns transmit_targets_spec [OF wf uN] show ?thesis by (simp add: passed_def)
  qed
  have due': "due p h d' v \<longleftrightarrow> (due p h d v \<and> v \<noteq> u) \<or> ((u, v) \<in> ?E \<and> (\<forall>x. (x, v) \<in> ?E \<longrightarrow> passed p d' x))" for v
  proof (cases "(u, v) \<in> ?E")
    case True
    have "v \<in> ?N" "v \<noteq> u" using wf_edge_nodes [OF wf True] ac True by (auto simp: acyclic_def)
    then have "\<not> passed p d' v" using p' down [OF True] by blast
    moreover have "(h, v) \<in> ?E\<^sup>+" using hu True by (rule trancl_into_trancl)
    moreover have "\<not> due p h d v" using True nu by (auto simp: due_def)
    ultimately show ?thesis using True by (auto simp: due_def)
  next
    case False
    have "passed p d' x \<longleftrightarrow> passed p d x" if "(x, v) \<in> ?E" for x
      using p' [of x] wf_edge_nodes [OF wf that] that False by blast
    moreover have "(h, v) \<in> ?E\<^sup>+ \<Longrightarrow> passed p d' v \<longleftrightarrow> passed p d v \<or> v = u"
      using p' wf_edge_nodes [OF wf] by (metis tranclE)
    ultimately show ?thesis using False pu by (auto simp: due_def)
  qed
  have excl: "\<not> (due p h d v \<and> (u, v) \<in> ?E)" for v using nu by (auto simp: due_def)
  have T'L: "T' v + L v = of_bool (due p h d' v)" if "v \<noteq> h" for v
  proof (cases "v = u")
    case True
    then show ?thesis using u cnt [of u] due' [of u] ac by (auto simp: T' acyclic_def)
  next
    case False
    then show ?thesis using D(8) [OF that] cnt [of v] due' [of v] excl [of v] by (auto simp: T' split: if_splits)
  qed
  have ph: "passed p d' h \<longleftrightarrow> passed p d h"
  proof -
    have "h \<in> ?N" using wf_view [OF wf] D(1) by (auto simp: view_ok_def)
    from p' [OF this] u(1) show ?thesis by auto
  qed
  have "T' h = 0" using D(6) cnt [of h] hnp by (simp add: T')
  moreover have "L h = of_bool (\<not> passed p d' h)" using D(7) ph by simp
  moreover have "c' = of_bool (frame_done_cb p \<and> (\<forall>v\<in>?N. passed p d' v))"
    using D(9) all uN nu by (auto simp: c')
  moreover have "passed p d' v" if "v \<in> ?N" "(h, v) \<notin> ?E\<^sup>*" for v
    using that D(4) p' by blast
  moreover have "passed p d' x" if "(x, v) \<in> ?E" "(h, v) \<in> ?E\<^sup>*" "passed p d' v" for x v
    using that wf_edge_nodes [OF wf that(1)] p' D(5) pu by metis
  ultimately show ?thesis
    using D(1) inv m' T'L by (auto simp: frame_ok_def Let_def)
qed

lemma drop_other:
  assumes ok: "frame_ok p h d T L c" and tok: "T u > 0"
    and mask': "modules_mask d' = modules_mask d" and inv: "\<not> IsInvalid d'"
    and T': "\<And>v. T' v = T v - of_bool (v = u)" and L': "\<And>v. L' v = L v + of_bool (v = u)"
  shows "frame_ok p h d' T' L' c"
proof -
  from frame_ok_due [OF ok tok] have u: "u \<noteq> h" "T u = 1" by auto
  note D = frame_okD [OF ok]
  have p: "passed p d' v = passed p d v" for v by (simp add: passed_def mask')
  have du: "due p h d' v = due p h d v" for v by (simp add: due_def p)
  have "T' v + L' v = T v + L v" for v using u by (simp add: T' L')
  with D(8) have S: "T' v + L' v = of_bool (due p h d' v)" if "v \<noteq> h" for v using that du by simp
  have "T' h = 0" "L' h = of_bool (\<not> passed p d' h)" using D(6,7) u(1) p by (simp_all add: T' L')
  with S D(1,3-5,9) inv show ?thesis unfolding frame_ok_def Let_def p mask' by blast
qed

text \<open>Providing a frame at a head.\<close>

lemma provide_mark:
  assumes wf: "pipe_wf p" and h: "h \<in> set (gv_heads (pipe_graph p))"
    and mask': "modules_mask d' = (all_modules_mask p XOR route_mask (contexts p h)) OR 2 ^ node_id p h"
    and inv: "\<not> IsInvalid d'"
    and ns: "ns = (if modules_mask d' = all_modules_mask p then [] else transmit_targets p h (modules_mask d'))"
    and c': "c' = (if frame_done_cb p \<and> modules_mask d' = all_modules_mask p then 1 else 0)"
  shows "frame_ok p h d' (count_list ns) (\<lambda>_. 0) c'"
proof -
  let ?E = "gv_edges (pipe_graph p)" and ?N = "set (gv_nodes (pipe_graph p))"
  have hN: "h \<in> ?N" and hnp: "\<And>x. (x, h) \<notin> ?E" and ac: "acyclic ?E"
    using wf_view [OF wf] h by (auto simp: view_ok_def)
  have p': "passed p d' v \<longleftrightarrow> (h, v) \<notin> ?E\<^sup>* \<or> v = h" if "v \<in> ?N" for v
    using bit_or_node [OF wf hN that] root_mask(2) [OF wf h that] by (simp add: passed_def mask')
  have m': "mask_of_nodes p (modules_mask d')"
    using root_mask(1) [OF wf h] hN by (simp add: mask' mask_of_nodes_or)
  have all: "modules_mask d' = all_modules_mask p \<longleftrightarrow> (\<forall>v\<in>?N. passed p d' v)"
    using all_mask_iff [OF wf m'] by (simp add: passed_def)
  have ph: "passed p d' h" using p' [OF hN] by simp
  have nx: "v \<in> ?N \<and> v \<noteq> h \<and> \<not> passed p d' v" if "(h, v) \<in> ?E" for v
  proof -
    have "v \<in> ?N" "v \<noteq> h" using wf_edge_nodes [OF wf that] that hnp by auto
    then show ?thesis using p' that by blast
  qed
  have cnt: "count_list ns v = of_bool ((h, v) \<in> ?E \<and> (\<forall>x. (x, v) \<in> ?E \<longrightarrow> passed p d' x))" for v
  proof (cases "modules_mask d' = all_modules_mask p")
    case True
    then have "(h, v) \<notin> ?E" using nx all by blast
    with True ns show ?thesis by simp
  next
    case False
    with ns transmit_targets_spec [OF wf hN] show ?thesis by (simp add: passed_def)
  qed
  have due': "due p h d' v \<longleftrightarrow> (h, v) \<in> ?E \<and> (\<forall>x. (x, v) \<in> ?E \<longrightarrow> passed p d' x)" for v
  proof
    assume due: "due p h d' v"
    then obtain u where u: "(h, u) \<in> ?E\<^sup>*" "(u, v) \<in> ?E" by (meson due_def tranclD2)
    have "passed p d' u" using due u(2) by (simp add: due_def)
    then have "u = h" using p' [of u] u wf_edge_nodes [OF wf u(2)] by blast
    with u(2) due show "(h, v) \<in> ?E \<and> (\<forall>x. (x, v) \<in> ?E \<longrightarrow> passed p d' x)" by (simp add: due_def)
  qed (use nx in \<open>auto simp: due_def\<close>)
  have up: "passed p d' x" if "(x, v) \<in> ?E" "(h, v) \<in> ?E\<^sup>*" "passed p d' v" for x v
  proof -
    have "v = h" using p' [of v] that wf_edge_nodes [OF wf that(1)] by blast
    with that(1) hnp show ?thesis by blast
  qed
  have "count_list ns h = 0" using cnt [of h] hnp by simp
  then show ?thesis
    using h inv m' p' up ph cnt due' all c' by (auto simp: frame_ok_def Let_def)
qed

lemma provide_drop:
  assumes wf: "pipe_wf p" and h: "h \<in> set (gv_heads (pipe_graph p))"
    and mask': "modules_mask d' = all_modules_mask p XOR route_mask (contexts p h)" and inv: "\<not> IsInvalid d'"
  shows "frame_ok p h d' (\<lambda>_. 0) (\<lambda>v. of_bool (v = h)) 0"
proof -
  let ?E = "gv_edges (pipe_graph p)" and ?N = "set (gv_nodes (pipe_graph p))"
  have hN: "h \<in> ?N" and hnp: "\<And>x. (x, h) \<notin> ?E" using wf_view [OF wf] h by (auto simp: view_ok_def)
  have p': "passed p d' v \<longleftrightarrow> (h, v) \<notin> ?E\<^sup>*" if "v \<in> ?N" for v
    using root_mask(2) [OF wf h that] by (simp add: passed_def mask')
  have m': "mask_of_nodes p (modules_mask d')" using root_mask(1) [OF wf h] by (simp add: mask')
  have nh: "\<not> passed p d' h" using p' [OF hN] by simp
  have "\<not> due p h d' v" for v
  proof
    assume due: "due p h d' v"
    then obtain u where u: "(h, u) \<in> ?E\<^sup>*" "(u, v) \<in> ?E" by (meson due_def tranclD2)
    have "passed p d' u" using due u(2) by (simp add: due_def)
    then show False using p' [of u] u wf_edge_nodes [OF wf u(2)] by blast
  qed
  moreover have "passed p d' x" if "(x, v) \<in> ?E" "(h, v) \<in> ?E\<^sup>*" "passed p d' v" for x v
    using p' [of v] that wf_edge_nodes [OF wf that(1)] by blast
  ultimately show ?thesis
    using h inv m' p' nh hN by (auto simp: frame_ok_def Let_def)
qed

subsection \<open>What each call does to the frames\<close>

definition outcome :: "'n Pipeline \<Rightarrow> 'n \<Rightarrow> nat \<Rightarrow> UNIFrameInfo \<Rightarrow> 'n list \<Rightarrow> 'n Pipeline \<Rightarrow> bool" where
  "outcome p v f d ns p' \<longleftrightarrow> same_struct p p' \<and>
     (\<exists>d'. frames p' = (frames p)(f \<mapsto> d') \<and> \<not> IsInvalid d' \<and> channel_idx d' = channel_idx d \<and>
        (\<forall>g. g \<noteq> f \<longrightarrow> done_count p' g = done_count p g) \<and>
        (modules_mask d' = start_mask p v d \<and> ns = [] \<and> done_count p' f = done_count p f \<or>
         modules_mask d' = start_mask p v d OR 2 ^ node_id p v \<and>
         ns = (if modules_mask d' = all_modules_mask p then [] else transmit_targets p v (modules_mask d')) \<and>
         done_count p' f = done_count p f +
           (if frame_done_cb p \<and> modules_mask d' = all_modules_mask p then 1 else 0)))"

lemma start_mask_nonhead:
  "parent_nodes_mask (contexts p v) \<noteq> 0 \<Longrightarrow> start_mask p v d = modules_mask d"
  by (simp add: start_mask_def)

text \<open>Only the tables changed.\<close>

definition tables_only :: "'n Pipeline \<Rightarrow> 'n Pipeline \<Rightarrow> bool" where
  "tables_only p p1 \<longleftrightarrow> same_struct p p1 \<and> frames p1 = frames p \<and> obs p1 = obs p"

lemma tables_only_simps [simp]: "tables_only p p" "tables_only p (p\<lparr>tables := g\<rparr>)"
  by (simp_all add: tables_only_def same_struct_def)

lemma outcome_tables:
  assumes "tables_only p p1" and "outcome p1 v f d ns p'"
  shows "outcome p v f d ns p'"
proof -
  have s: "same_struct p p1" and f: "frames p1 = frames p" and o: "done_count p1 = done_count p"
    using assms(1) by (auto simp: tables_only_def done_count_def fun_eq_iff)
  have e: "start_mask p1 v d = start_mask p v d" "node_id p1 = node_id p"
    "transmit_targets p1 v m = transmit_targets p v m" "all_modules_mask p1 = all_modules_mask p"
    "frame_done_cb p1 = frame_done_cb p" for m
    using s same_struct_id [OF s] by (auto simp: same_struct_def start_mask_def transmit_targets_def)
  show ?thesis
    using assms(2) unfolding outcome_def f o e
    by (rule conj_forward) (erule same_struct_trans [OF s], assumption)
qed

lemma outcome_keep:
  assumes "frames p f = Some d" and "\<not> IsInvalid d" and "parent_nodes_mask (contexts p v) \<noteq> 0"
    and "tables_only p p'"
  shows "outcome p v f d [] p'"
proof -
  have "frames p' = (frames p)(f \<mapsto> d)" "same_struct p p'" "done_count p' = done_count p"
    using assms(1,4) by (simp_all add: tables_only_def done_count_def fun_eq_iff)
  with assms(2,3) show ?thesis
    unfolding outcome_def by (intro conjI exI [of _ d]) (simp_all add: start_mask_nonhead)
qed

lemma TransmitData_outcome:
  assumes "frames p f = Some d" and "\<not> IsInvalid d" and "module_set p v"
  shows "\<exists>ns p'. Pipeline_TransmitData tid v f p = Inr (ns, p') \<and> outcome p v f d ns p'"
proof (rule transmit_effect [OF assms, of tid], goal_cases)
  case (1 ns p' d')
  note D = 1(8)
  have "outcome p v f d ns p'"
    unfolding outcome_def
  proof (intro conjI exI [of _ d'])
    show "modules_mask d' = start_mask p v d \<and> ns = [] \<and> done_count p' f = done_count p f \<or>
      modules_mask d' = start_mask p v d OR 2 ^ node_id p v \<and>
      ns = (if modules_mask d' = all_modules_mask p then [] else transmit_targets p v (modules_mask d')) \<and>
      done_count p' f = done_count p f +
        (if frame_done_cb p \<and> modules_mask d' = all_modules_mask p then 1 else 0)"
      using D by blast
  qed (fact 1(2) | fact 1(3) | fact 1(4) | fact 1(6) | fact 1(7))+
  with 1(1) show ?case by blast
qed

lemma DoTransmitData_outcome:
  assumes d: "frames p f = Some d" and inv: "\<not> IsInvalid d" and ms: "module_set p v" and run: "pipe_running p"
  shows "\<exists>r ns p'. Module_DoTransmitData tid v f p = Inr (r, ns, p') \<and> r \<ge> 0 \<and> outcome p v f d ns p'"
proof -
  obtain m where m: "ctx_module (contexts p v) = Some m" "m_container m"
    using ms by (auto simp: module_set_def)
  define p1 where "p1 = (if IsEos d \<and> payload d \<noteq> None \<and> IsStreamRemoved (tables p) (stream_id d)
      then p\<lparr>tables := SetStreamRemoved (stream_id d) False (tables p)\<rparr> else p)"
  have t1: "tables_only p p1" by (simp add: p1_def)
  have p1: "frames p1 f = Some d" "contexts p1 = contexts p" "pipe_running p1" "module_set p1 v"
    using d run ms by (auto simp: p1_def module_set_def)
  have eq: "Module_DoTransmitData tid v f p =
      (case Pipeline_ProvideData tid (Some v) f p1 of Inl e \<Rightarrow> Inl e
       | Inr (ok, ns, p2) \<Rightarrow> Inr (if ok then 1 else 0, ns, p2))"
    using d m by (simp add: Module_DoTransmitData_def p1_def Let_def)
  show ?thesis
  proof (cases "modules_mask d = 0 \<and> parent_nodes_mask (contexts p v) \<noteq> 0")
    case True
    then have "Pipeline_ProvideData tid (Some v) f p1 = Inr (False, [], p1)"
      using p1 m by (simp add: Pipeline_ProvideData_def)
    moreover have "outcome p v f d [] p1" using outcome_keep [OF d inv _ t1] True by simp
    ultimately show ?thesis by (simp add: eq)
  next
    case False
    from TransmitData_outcome [OF p1(1) inv p1(4), of tid] obtain ns p' where
      r: "Pipeline_TransmitData tid v f p1 = Inr (ns, p')" "outcome p1 v f d ns p'" by blast
    have "Pipeline_ProvideData tid (Some v) f p1 = Inr (True, ns, p')"
      using p1 m False r(1) by (auto simp: Pipeline_ProvideData_def)
    with outcome_tables [OF t1 r(2)] show ?thesis by (simp add: eq)
  qed
qed

lemma Module_TransmitData_outcome:
  assumes d: "frames p f = Some d" and inv: "\<not> IsInvalid d" and ms: "module_set p v" and run: "pipe_running p"
    and m: "ctx_module (contexts p v) = Some m" "hasTransmit m"
  shows "\<exists>r ns p'. Module_TransmitData tid v f p = Inr (r, ns, p') \<and> outcome p v f d ns p'"
  using DoTransmitData_outcome [OF assms(1-4), of tid] m by (auto simp: Module_TransmitData_def)

lemma outcome_failed:
  assumes "outcome p v f d ns p'"
  shows "outcome p v f d ns (Pipeline_OnProcessFailed tid v d' ret p')"
proof -
  have s: "same_struct p' (Pipeline_OnProcessFailed tid v d' ret p')" by simp
  have c: "done_count (Pipeline_OnProcessFailed tid v d' ret p') g = done_count p' g" for g
    by (simp add: done_count_def)
  have "same_struct p (Pipeline_OnProcessFailed tid v d' ret p')" if "same_struct p p'"
    by (rule same_struct_trans [OF that s])
  with assms show ?thesis by (auto simp: outcome_def c)
qed

lemma process_outcome:
  assumes d: "frames p f = Some d" and inv: "\<not> IsInvalid d" and ms: "module_set p v" and run: "pipe_running p"
    and nh: "parent_nodes_mask (contexts p v) \<noteq> 0"
  shows "\<exists>ns p'. TaskLoop_process tid (\<lambda>_ p. (ret, p)) (\<lambda>_ p. p) v f p = Inr (ns, p') \<and> outcome p v f d ns p' \<and>
    (\<forall>m. ctx_module (contexts p v) = Some m \<longrightarrow> hasTransmit m \<longrightarrow> ns = [] \<and>
       (\<exists>d'. frames p' f = Some d' \<and> modules_mask d' = modules_mask d))"
proof -
  obtain m where m: "ctx_module (contexts p v) = Some m" using ms by (auto simp: module_set_def)
  define p1 where "p1 = (if \<not> IsStreamRemoved (tables p) (stream_id d) \<and>
      (case payload d of None \<Rightarrow> False | Some s \<Rightarrow> IsStreamRemoved (tables p) s)
      then p\<lparr>tables := SetStreamRemoved (stream_id d) True (tables p)\<rparr> else p)"
  define removed where "removed \<longleftrightarrow> IsStreamRemoved (tables p) (stream_id d) \<or>
      (case payload d of None \<Rightarrow> False | Some s \<Rightarrow> IsStreamRemoved (tables p) s)"
  have t1: "tables_only p p1" by (simp add: p1_def)
  have p1: "frames p1 f = Some d" "contexts p1 = contexts p" "pipe_running p1" "module_set p1 v"
    using d run ms by (auto simp: p1_def module_set_def)
  from DoTransmitData_outcome [OF p1(1) inv p1(4,3), of tid] obtain r ns p2 where
    dt: "Module_DoTransmitData tid v f p1 = Inr (r, ns, p2)" "r \<ge> 0" "outcome p v f d ns p2"
    using outcome_tables [OF t1] by blast
  have keep: "outcome p v f d [] p1" by (rule outcome_keep [OF d inv nh t1])
  define prm where "prm = (if removed then put_frame f (set_flag UNI_FRAME_FLAG_REMOVED d) p1 else p1)"
  have prp: "outcome p v f d [] prm" "\<exists>d'. frames prm f = Some d' \<and> modules_mask d' = modules_mask d"
  proof -
    let ?d = "set_flag UNI_FRAME_FLAG_REMOVED d"
    have e: "\<not> IsInvalid ?d" "modules_mask ?d = modules_mask d" "channel_idx ?d = channel_idx d"
      using inv set_removed_flag(3) [of d] by (simp_all add: set_flag_def)
    have "outcome p1 v f d [] (put_frame f ?d p1)"
      unfolding outcome_def using e p1(1,2) nh
      by (intro conjI exI [of _ ?d]) (simp_all add: done_count_def start_mask_nonhead)
    then show "outcome p v f d [] prm" using outcome_tables [OF t1] keep by (simp add: prm_def)
    show "\<exists>d'. frames prm f = Some d' \<and> modules_mask d' = modules_mask d"
      using e p1(1) by (simp add: prm_def)
  qed
  have dp: "Module_DoProcess tid (\<lambda>_ p. (ret, p)) (\<lambda>_ p. p) v f p =
      (if \<not> hasTransmit m then
         (if \<not> IsEos d then (if \<not> removed \<and> ret \<noteq> 0 then Inr (ret, [], p1) else Module_DoTransmitData tid v f p1)
          else Module_DoTransmitData tid v f p1)
       else Inr (ret, [], prm))"
    using d m by (simp add: Module_DoProcess_def p1_def removed_def prm_def Let_def)
  define res where "res = (if hasTransmit m then (ret, [], prm)
      else if \<not> IsEos d \<and> \<not> removed \<and> ret \<noteq> 0 then (ret, [], p1) else (r, ns, p2))"
  have "Module_DoProcess tid (\<lambda>_ p. (ret, p)) (\<lambda>_ p. p) v f p = Inr res"
    unfolding dp res_def using dt(1) by auto
  moreover obtain rr nn pp where res: "res = (rr, nn, pp)" by (metis prod.exhaust)
  moreover have o: "outcome p v f d nn pp"
    using res keep prp(1) dt(3) by (auto simp: res_def split: if_splits)
  moreover obtain d' where d': "frames pp f = Some d'" using o by (auto simp: outcome_def)
  ultimately have tp: "TaskLoop_process tid (\<lambda>_ p. (ret, p)) (\<lambda>_ p. p) v f p =
      Inr (nn, if rr < 0 then Pipeline_OnProcessFailed tid v d' rr pp else pp)"
    by (simp add: TaskLoop_process_def)
  have "hasTransmit m \<Longrightarrow> nn = [] \<and> pp = prm" using res by (simp add: res_def)
  with tp o outcome_failed [OF o] prp(2) m show ?thesis by auto
qed

subsection \<open>Conveyors\<close>

definition conns_ok :: "'n Pipeline \<Rightarrow> bool" where
  "conns_ok p \<longleftrightarrow> (\<forall>v c. ctx_connector (contexts p v) = Some c \<longrightarrow>
     connector_ok c \<and> conveyor_capacity c > 0 \<and> \<not> stop c)"

text \<open>Everything but the contents of one node's connector is the same.\<close>

definition conn_only :: "'n \<Rightarrow> 'n Pipeline \<Rightarrow> 'n Pipeline \<Rightarrow> bool" where
  "conn_only n p p' \<longleftrightarrow> (\<exists>c c'. ctx_connector (contexts p n) = Some c \<and>
     Connector_GetConveyorCount c' = Connector_GetConveyorCount c \<and> stop c' = stop c \<and>
     conveyor_capacity c' = conveyor_capacity c \<and> (connector_ok c \<longrightarrow> connector_ok c') \<and>
     p' = upd_ctx n (\<lambda>x. x\<lparr>ctx_connector := Some c'\<rparr>) p)"

lemma conn_only_same:
  assumes "conn_only n p p'"
  shows "pipe_graph p' = pipe_graph p" "all_modules_mask p' = all_modules_mask p"
    "pipe_running p' = pipe_running p" "frame_done_cb p' = frame_done_cb p" "frames p' = frames p"
    "obs p' = obs p" "tables p' = tables p"
    "ctx_module (contexts p' v) = ctx_module (contexts p v)"
    "parent_nodes_mask (contexts p' v) = parent_nodes_mask (contexts p v)"
    "route_mask (contexts p' v) = route_mask (contexts p v)"
    "v \<noteq> n \<Longrightarrow> ctx_connector (contexts p' v) = ctx_connector (contexts p v)"
  using assms by (auto simp: conn_only_def upd_ctx_def)

lemma conn_only_id: "conn_only n p p' \<Longrightarrow> node_id p' = node_id p"
  by (simp add: node_id_def conn_only_same fun_eq_iff)

lemma conn_only_wf:
  assumes "conn_only n p p'" and "pipe_wf p"
  shows "pipe_wf p'"
proof -
  have c: "\<exists>c'. ctx_connector (contexts p' v) = Some c' \<and> 0 < Connector_GetConveyorCount c' \<and> \<not> stop c'"
    if "\<exists>c. ctx_connector (contexts p v) = Some c \<and> 0 < Connector_GetConveyorCount c \<and> \<not> stop c" for v
  proof (cases "v = n")
    case True
    then show ?thesis using assms(1) that by (auto simp: conn_only_def)
  next
    case False
    with conn_only_same(11) [OF assms(1)] that show ?thesis by simp
  qed
  have ms: "module_set p' = module_set p"
    using conn_only_same(8) [OF assms(1)] by (simp add: module_set_def fun_eq_iff)
  have last: "\<forall>v\<in>set (gv_nodes (pipe_graph p)). parent_nodes_mask (contexts p v) \<noteq> 0 \<longrightarrow>
      (\<exists>c. ctx_connector (contexts p' v) = Some c \<and> 0 < Connector_GetConveyorCount c \<and> \<not> stop c)"
    using assms(2) c by (simp add: pipe_wf_def Let_def)
  from assms(2) show ?thesis
    unfolding pipe_wf_def Let_def conn_only_same(1-10) [OF assms(1)] conn_only_id [OF assms(1)] ms
    by (elim conjE, intro conjI) (assumption | rule last)+
qed

lemma conn_only_conns:
  assumes "conn_only n p p'" and "conns_ok p"
  shows "conns_ok p'"
proof -
  from assms(1) obtain c c' where c: "ctx_connector (contexts p n) = Some c" "stop c' = stop c"
    "conveyor_capacity c' = conveyor_capacity c" "connector_ok c \<longrightarrow> connector_ok c'"
    "ctx_connector (contexts p' n) = Some c'" by (auto simp: conn_only_def)
  show ?thesis
    unfolding conns_ok_def
  proof (intro allI impI)
    fix v x assume x: "ctx_connector (contexts p' v) = Some x"
    show "connector_ok x \<and> conveyor_capacity x > 0 \<and> \<not> stop x"
    proof (cases "v = n")
      case True
      with x c assms(2) show ?thesis by (auto simp: conns_ok_def)
    next
      case False
      with conn_only_same(11) [OF assms(1)] x assms(2) show ?thesis by (simp add: conns_ok_def)
    qed
  qed
qed

lemma sum_list_update_nat:
  fixes f :: "'q \<Rightarrow> nat"
  assumes "i < length xs"
  shows "(\<Sum>q\<leftarrow>xs[i := y]. f q) + f (xs ! i) = (\<Sum>q\<leftarrow>xs. f q) + f y"
  using assms by (induction xs arbitrary: i) (auto split: nat.splits)

lemma count_list_snoc: "count_list (xs @ [x]) y = count_list xs y + of_bool (x = y)"
  by simp

lemma push_once_effect:
  assumes f: "frames p f = Some d" and c: "ctx_connector (contexts p n) = Some c"
    and ok: "connector_ok c" and cnt: "Connector_GetConveyorCount c > 0" and ns: "\<not> stop c"
  shows "\<exists>b p'. push_once n f p = Inr (b, p') \<and> conn_only n p p' \<and>
    (\<forall>v g. queued p' v g = queued p v g + of_bool (b \<and> v = n \<and> g = f)) \<and>
    (\<not> b \<longrightarrow> (\<exists>q\<in>set (conveyors c). length (dataq q) \<ge> conveyor_capacity c))"
proof -
  let ?i = "unat (channel_idx d) mod Connector_GetConveyorCount c"
  have i: "?i < length (conveyors c)" using cnt by (simp add: Connector_GetConveyorCount_def)
  let ?q = "conveyors c ! ?i"
  have q: "Connector_GetConveyorByIdx c (int ?i) = Inr ?q" using i by (simp add: GetConveyorByIdx_Inr)
  obtain b q' where b: "Conveyor_PushDataBuffer ?q f = (b, q')" by fastforce
  let ?c' = "c\<lparr>conveyors := (conveyors c)[?i := q']\<rparr>"
  let ?p' = "upd_ctx n (\<lambda>x. x\<lparr>ctx_connector := Some ?c'\<rparr>) p"
  have push: "Connector_PushDataBufferToConveyor c (int ?i) f = Inr (b, ?c')"
    using q b by (simp add: Connector_PushDataBufferToConveyor_def)
  have r: "push_once n f p = Inr (b, ?p')"
    using f c ns push by (simp add: push_once_def Connector_IsStopped_def Let_def)
  have co: "conn_only n p ?p'"
    unfolding conn_only_def
  proof (intro exI conjI)
    show "connector_ok c \<longrightarrow> connector_ok ?c'" using Push_connector_ok [OF _ push] by blast
  qed (simp_all add: c Connector_GetConveyorCount_def)
  have qok: "conveyor_ok ?q" "max_size ?q = conveyor_capacity c"
    using ok i by (auto simp: connector_ok_def)
  have dq: "dataq q' = (if b then dataq ?q @ [f] else dataq ?q)"
    using b by (auto simp: Conveyor_PushDataBuffer_def split: if_splits)
  have full: "\<not> b \<Longrightarrow> length (dataq ?q) \<ge> conveyor_capacity c"
    using b qok by (auto simp: Conveyor_PushDataBuffer_def split: if_splits)
  have "queued ?p' v g = queued p v g + of_bool (b \<and> v = n \<and> g = f)" for v g
  proof (cases "v = n")
    case True
    have "(\<Sum>q\<leftarrow>(conveyors c)[?i := q']. count_list (dataq q) g) + count_list (dataq ?q) g =
        (\<Sum>q\<leftarrow>conveyors c. count_list (dataq q) g) + count_list (dataq q') g"
      by (rule sum_list_update_nat [OF i])
    with True c show ?thesis by (cases b) (auto simp: queued_def dq)
  next
    case False
    then show ?thesis by (simp add: queued_def)
  qed
  with r co full i show ?thesis by (intro exI conjI) (auto intro: nth_mem)
qed

lemma pop_effect:
  assumes "TaskLoop_pop v i p = Inr (Some (Some f, p'))"
  shows "conn_only v p p' \<and> queued p v f > 0 \<and>
    (\<forall>u g. queued p' u g = queued p u g - of_bool (u = v \<and> g = f))"
proof -
  obtain c where c: "ctx_connector (contexts p v) = Some c" "\<not> stop c"
    using assms by (auto simp: TaskLoop_pop_def Connector_IsStopped_def split: option.splits if_splits)
  obtain c' where pop: "Connector_PopDataBufferFromConveyor c (int i) = Inr (Some f, c')"
    and p': "p' = upd_ctx v (\<lambda>x. x\<lparr>ctx_connector := Some c'\<rparr>) p"
    using assms c by (auto simp: TaskLoop_pop_def Connector_IsStopped_def split: sum.splits prod.splits)
  obtain q where q: "Connector_GetConveyorByIdx c (int i) = Inr q"
    using pop by (auto simp: Connector_PopDataBufferFromConveyor_def split: sum.splits)
  then have i: "i < length (conveyors c)" "q = conveyors c ! i" by (auto simp: GetConveyorByIdx_Inr)
  obtain q' where q': "Conveyor_PopDataBuffer q = (Some f, q')" "c' = c\<lparr>conveyors := (conveyors c)[i := q']\<rparr>"
    using pop q by (auto simp: Connector_PopDataBufferFromConveyor_def split: prod.splits)
  have dq: "dataq q = f # dataq q'" using q'(1) by (auto simp: Conveyor_PopDataBuffer_def split: list.splits if_splits)
  have s: "(\<Sum>q\<leftarrow>conveyors c'. count_list (dataq q) g) + of_bool (g = f) = (\<Sum>q\<leftarrow>conveyors c. count_list (dataq q) g)" for g
    using sum_list_update_nat [OF i(1), of "\<lambda>q. count_list (dataq q) g" q'] dq i(2) by (auto simp: q'(2))
  have cok: "connector_ok c'" if "connector_ok c"
  proof -
    have m: "conveyor_ok q" "max_size q = conveyor_capacity c" using that i by (auto simp: connector_ok_def)
    have "conveyor_ok q'" "max_size q' = max_size q"
      using cvr.deq_ok [OF m(1)] cvr.deq_capacity [of q] q'(1) by simp_all
    with that m show ?thesis unfolding q'(2) by (intro connector_ok_upd) simp_all
  qed
  have "conn_only v p p'"
    unfolding conn_only_def p' using c(1) cok
    by (intro exI conjI refl) (auto simp: q'(2) Connector_GetConveyorCount_def)
  moreover have "queued p v f > 0" using s [of f] c(1) by (simp add: queued_def)
  moreover have "queued p' u g = queued p u g - of_bool (u = v \<and> g = f)" for u g
    using s [of g] c(1) by (auto simp: queued_def p')
  ultimately show ?thesis by blast
qed

subsection \<open>The invariant of the flow\<close>

definition frame_inv :: "'n World \<Rightarrow> nat \<Rightarrow> bool" where
  "frame_inv w f \<longleftrightarrow>
     (case frames (pipe w) f of
        None \<Rightarrow> (\<forall>v. tok w v f = 0 \<and> lost w v f = 0) \<and> done_count (pipe w) f = 0
      | Some d \<Rightarrow> (\<exists>h. origin w f = Some h \<and>
          frame_ok (pipe w) h d (\<lambda>v. tok w v f) (\<lambda>v. lost w v f) (done_count (pipe w) f)))"

definition flow_inv :: "'n World \<Rightarrow> bool" where
  "flow_inv w \<longleftrightarrow> pipe_wf (pipe w) \<and> pipe_running (pipe w) \<and> conns_ok (pipe w) \<and> (\<forall>f. frame_inv w f)"

definition static_same :: "'n Pipeline \<Rightarrow> 'n Pipeline \<Rightarrow> bool" where
  "static_same p p' \<longleftrightarrow> pipe_graph p' = pipe_graph p \<and> node_id p' = node_id p \<and>
     frame_done_cb p' = frame_done_cb p"

lemma frame_ok_static:
  "static_same p p' \<Longrightarrow> frame_ok p' h d T L c = frame_ok p h d T L c"
  by (simp add: static_same_def frame_ok_def due_def passed_def mask_of_nodes_def)

lemma static_same_struct: "same_struct p p' \<Longrightarrow> static_same p p'"
  using same_struct_id [of p p'] by (simp add: static_same_def same_struct_def)

lemma static_same_conn: "conn_only n p p' \<Longrightarrow> static_same p p'"
  by (simp add: static_same_def conn_only_same conn_only_id)

lemma frame_inv_cong:
  assumes "static_same (pipe w) (pipe w')" and "frames (pipe w') f = frames (pipe w) f"
    and "origin w' f = origin w f" and "\<And>v. tok w' v f = tok w v f" and "\<And>v. lost w' v f = lost w v f"
    and "done_count (pipe w') f = done_count (pipe w) f"
  shows "frame_inv w' f = frame_inv w f"
  using assms frame_ok_static [OF assms(1)] by (simp add: frame_inv_def split: option.splits)

lemma queued_struct: "same_struct p p' \<Longrightarrow> queued p' = queued p"
  by (simp add: same_struct_def queued_def fun_eq_iff)

lemma conns_struct: "same_struct p p' \<Longrightarrow> conns_ok p' = conns_ok p"
  by (simp add: same_struct_def conns_ok_def)

lemma lost_settle:
  "dropped w' = settle u f p' (dropped w) \<Longrightarrow>
   lost w' v g = lost w v g + of_bool (v = u \<and> g = f \<and> \<not> marked p' f u)"
  by (auto simp: lost_def settle_def)

text \<open>A token means a frame in the store, due at its node.\<close>

lemma tok_frame:
  assumes "flow_inv w" and "tok w u f > 0"
  obtains d h where "frames (pipe w) f = Some d" "origin w f = Some h" "\<not> IsInvalid d"
    "frame_ok (pipe w) h d (\<lambda>v. tok w v f) (\<lambda>v. lost w v f) (done_count (pipe w) f)"
    "u \<noteq> h" "due (pipe w) h d u" "tok w u f = 1" "u \<in> set (gv_nodes (pipe_graph (pipe w)))"
    "parent_nodes_mask (contexts (pipe w) u) \<noteq> 0" "module_set (pipe w) u"
proof -
  have fi: "frame_inv w f" and wf: "pipe_wf (pipe w)" using assms(1) by (auto simp: flow_inv_def)
  obtain d where d: "frames (pipe w) f = Some d"
    using fi assms(2) by (cases "frames (pipe w) f") (auto simp: frame_inv_def)
  with fi obtain h where h: "origin w f = Some h"
    "frame_ok (pipe w) h d (\<lambda>v. tok w v f) (\<lambda>v. lost w v f) (done_count (pipe w) f)"
    by (auto simp: frame_inv_def)
  from frame_ok_due [OF h(2) assms(2)] have u: "u \<noteq> h" "due (pipe w) h d u" "tok w u f = 1" by auto
  then obtain x where x: "(x, u) \<in> gv_edges (pipe_graph (pipe w))" by (auto simp: due_def elim: tranclE)
  then have uN: "u \<in> set (gv_nodes (pipe_graph (pipe w)))" using wf_edge_nodes [OF wf] by blast
  have "u \<notin> set (gv_heads (pipe_graph (pipe w)))" using x wf_view [OF wf] by (auto simp: view_ok_def)
  then have "parent_nodes_mask (contexts (pipe w) u) \<noteq> 0" using wf_head_iff [OF wf uN] by simp
  with that d h u uN frame_okD(2) [OF h(2)] wf_node [OF wf uN] show thesis by blast
qed

text \<open>The heart of every processing and transmitting step.\<close>

lemma outcome_inv:
  assumes inv: "flow_inv w" and tu: "tok w u f > 0" and d: "frames (pipe w) f = Some d"
    and o: "outcome (pipe w) u f d ns (pipe w')" and org: "origin w' = origin w"
    and drp: "dropped w' = settle u f (pipe w') (dropped w)"
    and tk: "\<And>v g. tok w' v g = tok w v g - of_bool (v = u \<and> g = f) + (if g = f then count_list ns v else 0)"
  shows "flow_inv w'"
proof -
  let ?p = "pipe w" and ?p' = "pipe w'"
  from inv have wf: "pipe_wf ?p" and fi: "\<And>g. frame_inv w g" by (auto simp: flow_inv_def)
  from tok_frame [OF inv tu] d obtain h where h: "origin w f = Some h" "\<not> IsInvalid d"
    and ok: "frame_ok ?p h d (\<lambda>v. tok w v f) (\<lambda>v. lost w v f) (done_count ?p f)"
    and u: "due ?p h d u" "u \<in> set (gv_nodes (pipe_graph ?p))" "parent_nodes_mask (contexts ?p u) \<noteq> 0"
      "module_set ?p u" "u \<noteq> h"
    by (metis option.sel)
  from o obtain d' where s: "same_struct ?p ?p'" and f': "frames ?p' = (frames ?p)(f \<mapsto> d')"
    and d': "\<not> IsInvalid d'" and og: "\<forall>g. g \<noteq> f \<longrightarrow> done_count ?p' g = done_count ?p g"
    and alt: "modules_mask d' = modules_mask d \<and> ns = [] \<and> done_count ?p' f = done_count ?p f \<or>
         modules_mask d' = modules_mask d OR 2 ^ node_id ?p u \<and>
         ns = (if modules_mask d' = all_modules_mask ?p then [] else transmit_targets ?p u (modules_mask d')) \<and>
         done_count ?p' f = done_count ?p f +
           (if frame_done_cb ?p \<and> modules_mask d' = all_modules_mask ?p then 1 else 0)"
    unfolding outcome_def start_mask_nonhead [OF u(3)] by blast
  have st: "static_same ?p ?p'" using static_same_struct [OF s] .
  have mk: "marked ?p' f u \<longleftrightarrow> passed ?p d' u"
    using f' st by (simp add: marked_def passed_def static_same_def)
  have other: "frame_inv w' g" if "g \<noteq> f" for g
    using fi [of g] that st f' og tk lost_settle [OF drp] org
    by (subst frame_inv_cong) simp_all
  have "frame_ok ?p' h d' (\<lambda>v. tok w' v f) (\<lambda>v. lost w' v f) (done_count ?p' f)"
    using alt
  proof (elim disjE conjE)
    assume m: "modules_mask d' = modules_mask d" and n: "ns = []" and c: "done_count ?p' f = done_count ?p f"
    have "\<not> passed ?p d' u" using u(1) m by (simp add: due_def passed_def)
    then have L: "lost w' v f = lost w v f + of_bool (v = u)" for v
      using lost_settle [OF drp] mk by simp
    have T: "tok w' v f = tok w v f - of_bool (v = u)" for v using tk n by simp
    show ?thesis
      unfolding frame_ok_static [OF st] c
      by (rule drop_other [OF ok tu m d' T L])
  next
    assume m: "modules_mask d' = modules_mask d OR 2 ^ node_id ?p u"
      and n: "ns = (if modules_mask d' = all_modules_mask ?p then [] else transmit_targets ?p u (modules_mask d'))"
      and c: "done_count ?p' f = done_count ?p f +
           (if frame_done_cb ?p \<and> modules_mask d' = all_modules_mask ?p then 1 else 0)"
    have "passed ?p d' u" using bit_or_node [OF wf u(2,2)] m by (simp add: passed_def)
    then have L: "lost w' v f = lost w v f" for v
      using lost_settle [OF drp] mk by simp
    have T: "tok w' v f = tok w v f - of_bool (v = u) + count_list ns v" for v using tk by simp
    show ?thesis
      unfolding frame_ok_static [OF st] L
      by (rule mark_other [OF wf ok tu m d' n T c])
  qed
  then have "frame_inv w' f" using f' h(1) org by (simp add: frame_inv_def)
  with other have "frame_inv w' g" for g by (cases "g = f") auto
  moreover have "pipe_wf ?p'" "conns_ok ?p'" "pipe_running ?p'"
    using inv same_struct_wf [OF s] conns_struct [OF s] s by (auto simp: flow_inv_def same_struct_def)
  ultimately show ?thesis by (simp add: flow_inv_def)
qed

subsection \<open>Every step keeps it\<close>

lemma static_same_refl [simp]: "static_same p p"
  by (simp add: static_same_def)

lemma flow_inv_cong:
  assumes "flow_inv w" and "static_same (pipe w) (pipe w')" and "frames (pipe w') = frames (pipe w)"
    and "obs (pipe w') = obs (pipe w)" and "origin w' = origin w" and "\<And>v f. tok w' v f = tok w v f"
    and "dropped w' = dropped w" and "pipe_wf (pipe w')" and "conns_ok (pipe w')"
    and "pipe_running (pipe w')"
  shows "flow_inv w'"
proof -
  have "frame_inv w' f = frame_inv w f" for f
    using assms(2-7) by (intro frame_inv_cong) (simp_all add: lost_def done_count_def)
  with assms(1,8-10) show ?thesis by (simp add: flow_inv_def)
qed

lemma keep_frame:
  assumes "frame_ok p h d T L c" and "modules_mask d' = modules_mask d" and "\<not> IsInvalid d'"
  shows "frame_ok p h d' T L c"
proof -
  have p: "passed p d' = passed p d" by (simp add: passed_def assms(2) fun_eq_iff)
  from assms(1,3) show ?thesis
    unfolding frame_ok_def due_def p assms(2) Let_def by (elim conjE, intro conjI) assumption+
qed

lemma outcome_new:
  assumes wf: "pipe_wf p0" and h: "h \<in> set (gv_heads (pipe_graph p0))"
    and o: "outcome p0 h f d ns p'" and c: "done_count p0 f = 0"
  obtains d' where "frames p' f = Some d'"
    "frame_ok p' h d' (count_list ns) (\<lambda>v. of_bool (v = h \<and> \<not> marked p' f h)) (done_count p' f)"
proof -
  have hN: "h \<in> set (gv_nodes (pipe_graph p0))" using h wf_view [OF wf] by (auto simp: view_ok_def)
  have sm: "start_mask p0 h d = all_modules_mask p0 XOR route_mask (contexts p0 h)"
    using wf_head_iff [OF wf hN] h by (simp add: start_mask_def)
  from o obtain d' where s: "same_struct p0 p'" and f': "frames p' = (frames p0)(f \<mapsto> d')"
    and d': "\<not> IsInvalid d'"
    and alt: "modules_mask d' = all_modules_mask p0 XOR route_mask (contexts p0 h) \<and> ns = [] \<and>
         done_count p' f = done_count p0 f \<or>
       modules_mask d' = (all_modules_mask p0 XOR route_mask (contexts p0 h)) OR 2 ^ node_id p0 h \<and>
         ns = (if modules_mask d' = all_modules_mask p0 then [] else transmit_targets p0 h (modules_mask d')) \<and>
         done_count p' f = done_count p0 f +
           (if frame_done_cb p0 \<and> modules_mask d' = all_modules_mask p0 then 1 else 0)"
    unfolding outcome_def sm by blast
  have st: "static_same p0 p'" using static_same_struct [OF s] .
  have mk: "marked p' f h \<longleftrightarrow> passed p0 d' h"
    using f' st by (simp add: marked_def passed_def static_same_def)
  from alt have "frame_ok p0 h d' (count_list ns) (\<lambda>v. of_bool (v = h \<and> \<not> marked p' f h)) (done_count p' f)"
  proof (elim disjE conjE)
    assume m: "modules_mask d' = all_modules_mask p0 XOR route_mask (contexts p0 h)" and "ns = []"
      and "done_count p' f = done_count p0 f"
    moreover have "\<not> passed p0 d' h" using root_mask(2) [OF wf h hN] m by (simp add: passed_def)
    moreover have "count_list [] = (\<lambda>_ :: 'a. 0)" by (simp add: fun_eq_iff)
    ultimately show ?thesis using provide_drop [OF wf h m d'] mk c by simp
  next
    assume m: "modules_mask d' = (all_modules_mask p0 XOR route_mask (contexts p0 h)) OR 2 ^ node_id p0 h"
      and ns: "ns = (if modules_mask d' = all_modules_mask p0 then [] else transmit_targets p0 h (modules_mask d'))"
      and dc: "done_count p' f = done_count p0 f +
           (if frame_done_cb p0 \<and> modules_mask d' = all_modules_mask p0 then 1 else 0)"
    have "passed p0 d' h" using bit_or_node [OF wf hN hN] m by (simp add: passed_def)
    then show ?thesis using provide_mark [OF wf h m d' ns] mk dc c by simp
  qed
  then have "frame_ok p' h d' (count_list ns) (\<lambda>v. of_bool (v = h \<and> \<not> marked p' f h)) (done_count p' f)"
    by (simp add: frame_ok_static [OF st])
  with that f' show thesis by simp
qed

lemma provide_inv:
  assumes inv: "flow_inv w" and h: "h \<in> set (gv_heads (pipe_graph (pipe w)))"
    and fresh: "frames (pipe w) f = None" and nd: "new_frame d"
    and m: "ctx_module (contexts (pipe w) h) = Some m" "hasTransmit m"
    and tr: "Module_TransmitData tid h f (put_frame f d (pipe w)) = Inr (r, ns, p')"
  shows "flow_inv (w\<lparr>pipe := p', dropped := settle h f p' (dropped w), origin := (origin w)(f \<mapsto> h),
      tasks := add_mset \<lparr>owner = Other, task_node = h, task_frame = f, stage = Pushing ns\<rparr> (tasks w)\<rparr>)"
    (is "flow_inv ?w'")
proof -
  let ?p = "pipe w" and ?q = "put_frame f d (pipe w)"
  from inv have wf: "pipe_wf ?p" and run: "pipe_running ?p" and fi: "\<And>g. frame_inv w g"
    by (auto simp: flow_inv_def)
  have s0: "same_struct ?p ?q" by simp
  have wf0: "pipe_wf ?q" using same_struct_wf [OF s0] wf by simp
  have p0: "pipe_graph ?q = pipe_graph ?p" "contexts ?q = contexts ?p" "pipe_running ?q"
    using s0 run by (auto simp: same_struct_def)
  have hN: "h \<in> set (gv_nodes (pipe_graph ?q))" using h wf_view [OF wf] p0 by (auto simp: view_ok_def)
  have nd': "\<not> IsInvalid d" using nd by (simp add: new_frame_def)
  have "\<exists>r ns p'. Module_TransmitData tid h f ?q = Inr (r, ns, p') \<and> outcome ?q h f d ns p'"
    using Module_TransmitData_outcome [of ?q f d h m tid] nd' wf_node [OF wf0 hN] p0 m by simp
  with tr have o: "outcome ?q h f d ns p'" by auto
  have z: "tok w v f = 0" "lost w v f = 0" "done_count ?p f = 0" for v
    using fi [of f] fresh by (auto simp: frame_inv_def)
  have c0: "done_count ?q g = done_count ?p g" for g by (simp add: done_count_def)
  from outcome_new [OF wf0 _ o] h p0 c0 z(3) obtain d' where
    d': "frames p' f = Some d'"
      "frame_ok p' h d' (count_list ns) (\<lambda>v. of_bool (v = h \<and> \<not> marked p' f h)) (done_count p' f)" by auto
  have s: "same_struct ?p p'" using o same_struct_trans [OF s0] by (auto simp: outcome_def)
  have tk: "tok ?w' v g = tok w v g + (if g = f then count_list ns v else 0)" for v g
    using queued_struct [OF s] by (simp add: tok_def stage_count_def)
  have ls: "lost ?w' v g = lost w v g + of_bool (v = h \<and> g = f \<and> \<not> marked p' f h)" for v g
    by (rule lost_settle) simp
  have "frame_inv ?w' f" using d' tk ls z by (simp add: frame_inv_def)
  moreover have "frame_inv ?w' g" if "g \<noteq> f" for g
  proof -
    have "frames p' g = frames ?p g" "done_count p' g = done_count ?p g"
      using o that c0 by (auto simp: outcome_def)
    with fi [of g] that tk ls static_same_struct [OF s] show ?thesis
      by (subst frame_inv_cong) simp_all
  qed
  ultimately have "frame_inv ?w' g" for g by (cases "g = f") auto
  then show ?thesis
    using inv same_struct_wf [OF s] conns_struct [OF s] s by (simp add: flow_inv_def same_struct_def)
qed

lemma step_inv:
  assumes "step w w'" and inv: "flow_inv w"
  shows "flow_inv w'"
  using assms(1)
proof cases
  case (provide v f d m tid r ns p')
  then show ?thesis using provide_inv [OF inv] by simp
next
  case (pop v i f p')
  from pop_effect [OF pop(4)] have co: "conn_only v (pipe w) p'" and q: "queued (pipe w) v f > 0"
    "\<And>u g. queued p' u g = queued (pipe w) u g - of_bool (u = v \<and> g = f)" by auto
  have "tok w' u g = tok w u g" for u g
    using q by (auto simp: pop(1) tok_def stage_count_def)
  moreover have "pipe_wf (pipe w)" "conns_ok (pipe w)" "pipe_running (pipe w)"
    using inv by (auto simp: flow_inv_def)
  ultimately show ?thesis
    using conn_only_wf [OF co] conn_only_conns [OF co] static_same_conn [OF co] conn_only_same [OF co]
    by (intro flow_inv_cong [OF inv]) (simp_all add: pop(1))
next
  case (process ow v f T m tid ret ns p')
  have tk: "tok w u g = queued (pipe w) u g + of_bool (u = v \<and> g = f) + (\<Sum>t\<in>#T. stage_count t u g) +
      count (held w) (u, g)" for u g
    by (simp add: tok_def process(2) stage_count_def)
  then have tv: "tok w v f > 0" by simp
  from tok_frame [OF inv tv] obtain d where d: "frames (pipe w) f = Some d" "\<not> IsInvalid d"
    "parent_nodes_mask (contexts (pipe w) v) \<noteq> 0" "module_set (pipe w) v" by metis
  from process_outcome [OF d(1,2,4) _ d(3), of tid ret] process(5) inv
  have o: "outcome (pipe w) v f d ns p'" by (auto simp: flow_inv_def)
  then have s: "same_struct (pipe w) p'" by (simp add: outcome_def)
  have tk': "tok w' u g = queued (pipe w) u g + (if g = f then count_list ns u else 0) +
      (\<Sum>t\<in>#T. stage_count t u g) + count (held w) (u, g)" for u g
    using queued_struct [OF s] by (simp add: process(1) tok_def stage_count_def)
  show ?thesis
    by (rule outcome_inv [OF inv tv d(1), of ns]) (use o tk tk' in \<open>simp_all add: process(1)\<close>)
next
  case (process_ex ow v f T m tid ret ns p' keep)
  have tk: "tok w u g = queued (pipe w) u g + of_bool (u = v \<and> g = f) + (\<Sum>t\<in>#T. stage_count t u g) +
      count (held w) (u, g)" for u g
    by (simp add: tok_def process_ex(2) stage_count_def)
  then have tv: "tok w v f > 0" by simp
  from tok_frame [OF inv tv] obtain d h where d: "frames (pipe w) f = Some d" "\<not> IsInvalid d"
    "parent_nodes_mask (contexts (pipe w) v) \<noteq> 0" "module_set (pipe w) v" "origin w f = Some h"
    "due (pipe w) h d v"
    "frame_ok (pipe w) h d (\<lambda>v. tok w v f) (\<lambda>v. lost w v f) (done_count (pipe w) f)" by metis
  from process_outcome [OF d(1,2,4) _ d(3), of tid ret] process_ex(3-5) inv
  have o: "outcome (pipe w) v f d ns p'" and ns: "ns = []"
    and dm: "\<exists>d'. frames p' f = Some d' \<and> modules_mask d' = modules_mask d"
    by (auto simp: flow_inv_def)
  then have s: "same_struct (pipe w) p'" by (simp add: outcome_def)
  have nm: "\<not> marked p' f v"
    using d(6) dm same_struct_id [OF s] by (auto simp: marked_def due_def passed_def)
  have tk': "tok w' u g = queued (pipe w) u g + (\<Sum>t\<in>#T. stage_count t u g) + count (held w) (u, g) +
      of_bool (keep \<and> u = v \<and> g = f)" for u g
    using queued_struct [OF s] by (simp add: process_ex(1) tok_def stage_count_def ns)
  show ?thesis
  proof (cases keep)
    case False
    then show ?thesis
      by (intro outcome_inv [OF inv tv d(1), of ns])
        (use o tk tk' nm ns in \<open>simp_all add: process_ex(1) settle_def\<close>)
  next
    case True
    have same: "tok w' u g = tok w u g" for u g using tk tk' True by simp
    have lsame: "lost w' u g = lost w u g" for u g using True by (simp add: process_ex(1) lost_def)
    obtain d' where d': "frames p' = (frames (pipe w))(f \<mapsto> d')" "\<not> IsInvalid d'"
      "\<forall>g. g \<noteq> f \<longrightarrow> done_count p' g = done_count (pipe w) g" using o by (auto simp: outcome_def)
    have m': "modules_mask d' = modules_mask d" using dm d'(1) by auto
    have np: "modules_mask d \<noteq> modules_mask d OR 2 ^ node_id (pipe w) v"
    proof -
      have "bit (modules_mask d OR 2 ^ node_id (pipe w) v) (node_id (pipe w) v)"
        using module_set_lt [OF d(4)] by (simp add: bit_or_one_shl)
      moreover have "\<not> bit (modules_mask d) (node_id (pipe w) v)"
        using d(6) by (simp add: due_def passed_def)
      ultimately show ?thesis by metis
    qed
    have cf: "done_count p' f = done_count (pipe w) f"
      using o d'(1) m' np start_mask_nonhead [OF d(3)] by (auto simp: outcome_def dest!: map_upd_eqD1)
    have "frame_inv w' g" for g
    proof (cases "g = f")
      case True
      have "frame_ok p' h d' (\<lambda>v. tok w v f) (\<lambda>v. lost w v f) (done_count (pipe w) f)"
        using keep_frame [OF d(7) m' d'(2)] frame_ok_static [OF static_same_struct [OF s]] by simp
      then show ?thesis
        using True same lsame cf d'(1) d(5) by (simp add: frame_inv_def process_ex(1))
    next
      case False
      have "frame_inv w g" using inv by (simp add: flow_inv_def)
      then show ?thesis
        using False same lsame d' static_same_struct [OF s]
        by (subst frame_inv_cong) (simp_all add: process_ex(1))
    qed
    then show ?thesis
      using inv same_struct_wf [OF s] conns_struct [OF s] s
      by (simp add: flow_inv_def same_struct_def process_ex(1))
  qed
next
  case (transmit v f H m tid r ns p')
  have tk: "tok w u g = queued (pipe w) u g + (\<Sum>t\<in>#tasks w. stage_count t u g) + count H (u, g) +
      of_bool (u = v \<and> g = f)" for u g
    by (auto simp: tok_def transmit(2))
  then have tv: "tok w v f > 0" by simp
  from tok_frame [OF inv tv] obtain d where d: "frames (pipe w) f = Some d" "\<not> IsInvalid d"
    "module_set (pipe w) v" by metis
  from Module_TransmitData_outcome [OF d _ transmit(3,4), of tid] transmit(5) inv
  have o: "outcome (pipe w) v f d ns p'" by (auto simp: flow_inv_def)
  then have s: "same_struct (pipe w) p'" by (simp add: outcome_def)
  have tk': "tok w' u g = queued (pipe w) u g + (if g = f then count_list ns u else 0) +
      (\<Sum>t\<in>#tasks w. stage_count t u g) + count H (u, g)" for u g
    using queued_struct [OF s] by (simp add: transmit(1) tok_def stage_count_def)
  show ?thesis
    by (rule outcome_inv [OF inv tv d(1), of ns]) (use o tk tk' in \<open>simp_all add: transmit(1)\<close>)
next
  case (push ow v f n ns T accepted p')
  have tk: "tok w u g = queued (pipe w) u g + (if g = f then count_list (n # ns) u else 0) +
      (\<Sum>t\<in>#T. stage_count t u g) + count (held w) (u, g)" for u g
    by (simp add: tok_def push(2) stage_count_def)
  then have tn: "tok w n f > 0" by simp
  from tok_frame [OF inv tn] obtain d where d: "frames (pipe w) f = Some d"
    "n \<in> set (gv_nodes (pipe_graph (pipe w)))" "parent_nodes_mask (contexts (pipe w) n) \<noteq> 0" by metis
  then obtain c where c: "ctx_connector (contexts (pipe w) n) = Some c" "Connector_GetConveyorCount c > 0"
    "\<not> stop c" using inv by (auto simp: flow_inv_def pipe_wf_def Let_def)
  have "connector_ok c" using c(1) inv by (auto simp: flow_inv_def conns_ok_def)
  from push_once_effect [OF d(1) c(1) this c(2,3)] push(3)
  have co: "conn_only n (pipe w) p'" and q: "\<And>u g. queued p' u g = queued (pipe w) u g +
      of_bool (accepted \<and> u = n \<and> g = f)" by auto
  have "tok w' u g = tok w u g" for u g
    using q tk [of u g] by (auto simp: push(1) tok_def stage_count_def)
  moreover have "pipe_wf (pipe w)" "conns_ok (pipe w)" "pipe_running (pipe w)"
    using inv by (auto simp: flow_inv_def)
  ultimately show ?thesis
    using conn_only_wf [OF co] conn_only_conns [OF co] static_same_conn [OF co] conn_only_same [OF co]
    by (intro flow_inv_cong [OF inv]) (simp_all add: push(1))
next
  case (finish ow v f T)
  have "tok w' u g = tok w u g" for u g by (simp add: finish tok_def stage_count_def)
  then show ?thesis
    using inv by (intro flow_inv_cong [OF inv]) (simp_all add: finish flow_inv_def)
next
  case (env q b g)
  let ?p = "(pipe w)\<lparr>tables := g, pipe_bus := b, msgq := q\<rparr>"
  have s: "same_struct (pipe w) ?p" by (simp add: same_struct_def)
  have "tok w' u g = tok w u g" for u g
    using queued_struct [OF s] by (simp add: env tok_def)
  then show ?thesis
    using inv same_struct_wf [OF s] conns_struct [OF s] static_same_struct [OF s]
    by (intro flow_inv_cong [OF inv]) (simp_all add: env flow_inv_def)
qed

end
