(* ===== verification/FlowDemo.thy ===== *)
theory FlowDemo
  imports Flow DagView
begin

section \<open>A small running pipeline\<close>

text \<open>
  The invariant of \<open>Flow\<close> holds from the start, and a source with one sink is built, started and
  run for a frame, every call evaluated: the concrete input of the witnesses about running
  pipelines.
\<close>

lemma initial_inv: "initial w \<Longrightarrow> flow_inv w"
proof -
  assume i: "initial w"
  have q: "queued (pipe w) v f = 0" for v f
  proof (cases "ctx_connector (contexts (pipe w) v)")
    case (Some c)
    then have "\<forall>q\<in>set (conveyors c). dataq q = []" using i by (auto simp: initial_def)
    then have "(\<Sum>q\<leftarrow>conveyors c. count_list (dataq q) f) = 0" by (induction "conveyors c") auto
    with Some show ?thesis by (simp add: queued_def)
  qed (simp add: queued_def)
  have "frame_inv w f" for f
    using i q by (simp add: frame_inv_def initial_def tok_def lost_def done_count_def)
  moreover have "\<not> stop c" if "ctx_connector (contexts (pipe w) v) = Some c" for v c
    using i that by (auto simp: initial_def)
  ultimately show ?thesis using i by (simp add: flow_inv_def initial_def conns_ok_def)
qed

lemma reachable_inv: "reachable w \<Longrightarrow> flow_inv w"
  by (induction rule: reachable.induct) (auto intro: initial_inv step_inv)

lemma flow_frame: "flow_inv w \<Longrightarrow> frame_inv w f"
  by (simp add: flow_inv_def)

text \<open>A frame every node has marked is nowhere any more.\<close>

lemma all_marked_quiet:
  assumes inv: "flow_inv w" and all: "\<forall>v\<in>set (gv_nodes (pipe_graph (pipe w))). marked (pipe w) f v"
  shows "tok w v f = 0 \<and> lost w v f = 0"
proof (cases "frames (pipe w) f")
  case None
  with flow_frame [OF inv, of f] show ?thesis by (simp add: frame_inv_def)
next
  case (Some d)
  from inv have wf: "pipe_wf (pipe w)" and fi: "frame_inv w f" by (auto simp: flow_inv_def)
  from fi Some obtain h where
    ok: "frame_ok (pipe w) h d (\<lambda>v. tok w v f) (\<lambda>v. lost w v f) (done_count (pipe w) f)"
    by (auto simp: frame_inv_def)
  have p: "passed (pipe w) d v" if "v \<in> set (gv_nodes (pipe_graph (pipe w)))" for v
    using all that Some by (simp add: marked_def passed_def)
  have "h \<in> set (gv_nodes (pipe_graph (pipe w)))"
    using frame_okD(1) [OF ok] wf_view [OF wf] by (auto simp: view_ok_def)
  moreover have "\<not> due (pipe w) h d v" for v
  proof
    assume due: "due (pipe w) h d v"
    then obtain u where "(u, v) \<in> gv_edges (pipe_graph (pipe w))" by (meson due_def tranclE)
    from wf_edge_nodes [OF wf this] p due show False by (simp add: due_def)
  qed
  ultimately show ?thesis
    using frame_okD(6,7) [OF ok] frame_okD(8) [OF ok, of v] p by (cases "v = h") simp_all
qed

subsection \<open>A small pipeline\<close>

text \<open>A source feeding one sink: vertices 0 and 1, an edge, and a factory for both classes.\<close>

definition demo_dag :: DAGAlgorithm where
  "demo_dag = dag_build DAG_empty [AddVertexCall, AddVertexCall, AddEdgeCall 0 1]"

definition demo_config :: "nat \<Rightarrow> UNIModuleConfig" where
  "demo_config v = UNIModuleConfig_new\<lparr>mod_name := (if v = 0 then ''src'' else ''sink''),
     class_name := (if v = 0 then ''Src'' else ''Sink''), parallelism := 2, max_input_queue_size := 3\<rparr>"

definition demo_factory :: ModuleFactory where
  "demo_factory = [''Src'' \<mapsto> (\<lambda>n. Some (ModuleEx_new n)), ''Sink'' \<mapsto> (\<lambda>n. Some (Module_new n))]"

definition demo_pipeline :: "nat Pipeline" where
  "demo_pipeline = \<lparr>pipe_graph = dag_view demo_dag id demo_config ''p'', contexts = (\<lambda>_. NodeContext_new),
     all_modules_mask = 0, idxManager = IdxManager_new, pipe_running = True,
     pipe_bus = EventBus_new, msgq = \<lparr>tsq_items = []\<rparr>, frame_done_cb = True, frames = Map.empty,
     tables = StreamTables_new, obs = []\<rparr>"

lemma demo_dag_edges: "edges demo_dag = [[1], []]"
  by (simp add: demo_dag_def DAG_empty_def DAG_AddVertex_def DAG_AddEdge_def numeral_2_eq_2)

lemma demo_edge_rel: "edge_rel demo_dag = {(0, 1)}"
  by (auto simp: edge_rel_def demo_dag_edges less_Suc_eq numeral_2_eq_2)

lemma demo_wf: "dag_wf demo_dag" and demo_acyclic: "acyclic (edge_rel demo_dag)"
proof -
  show "dag_wf demo_dag" unfolding demo_dag_def by (rule dag_build_wf [OF dag_wf_empty])
  have "edge_rel demo_dag \<subseteq> measure id" by (simp add: demo_edge_rel)
  then show "acyclic (edge_rel demo_dag)" by (rule acyclic_subset [rotated]) (simp add: wf_acyclic)
qed

lemma demo_nodes:
  "set (gv_nodes (dag_view demo_dag id demo_config ''p'')) = {0, 1}"
  "length (gv_nodes (dag_view demo_dag id demo_config ''p'')) = 2"
proof -
  have "{..<length (edges demo_dag)} = {0, 1}" by (auto simp: demo_dag_edges)
  then show "set (gv_nodes (dag_view demo_dag id demo_config ''p'')) = {0, 1}"
    unfolding dag_view_nodes(2) [OF demo_wf demo_acyclic] .
  show "length (gv_nodes (dag_view demo_dag id demo_config ''p'')) = 2"
    unfolding dag_view_length [OF demo_wf demo_acyclic] by (simp add: demo_dag_edges)
qed

lemma demo_heads: "gv_heads (dag_view demo_dag id demo_config ''p'') = [0]"
  by (simp add: dag_view_def DAG_GetHeads_def DAG_GetIndegree_def demo_dag_def DAG_empty_def
      DAG_AddVertex_def DAG_AddEdge_def numeral_2_eq_2)

lemma demo_factory_ok: "factory_ok demo_factory (dag_view demo_dag id demo_config ''p'') v"
  by (simp add: factory_ok_def ModuleFactory_Create_def demo_factory_def dag_view_def demo_config_def
      ModuleEx_new_def Module_new_def)

text \<open>A freshly built pipeline, started, is an initial world.\<close>

definition world_of :: "'n Pipeline \<Rightarrow> 'n World" where
  "world_of p = \<lparr>pipe = p, tasks = {#}, held = {#}, dropped = {#}, origin = Map.empty\<rparr>"

lemma initial_world_of:
  assumes "pipe_wf p" and "pipe_running p" and "frames p = Map.empty" and "obs p = []"
    and "\<forall>v c. ctx_connector (contexts p v) = Some c \<longrightarrow>
       (\<exists>n cap. c = Connector_new n cap \<and> 0 < cap \<and> cap < 2 ^ 32)"
  shows "initial (world_of p)"
proof -
  have "connector_ok c \<and> conveyor_capacity c > 0 \<and> \<not> stop c \<and> (\<forall>q\<in>set (conveyors c). dataq q = [])"
    if "ctx_connector (contexts p v) = Some c" for v c
  proof -
    from assms(5) that obtain n cap where "c = Connector_new n cap" "0 < cap" "cap < 2 ^ 32" by blast
    then show ?thesis using connector_new_ok [of cap n] by (auto simp: Connector_new_def Conveyor_new_def)
  qed
  with assms(1-4) show ?thesis by (simp add: initial_def world_of_def)
qed

definition demo_built :: "nat Pipeline" where
  "demo_built = (case Pipeline_BuildPipeline demo_factory (Some (dag_view demo_dag id demo_config ''p'')) demo_pipeline of
     Inr (_, p) \<Rightarrow> p | Inl _ \<Rightarrow> demo_pipeline)"

lemma demo_built_wf:
  "pipe_wf demo_built" "pipe_graph demo_built = dag_view demo_dag id demo_config ''p''"
  "PipelineBase.more demo_built = PipelineBase.more demo_pipeline"
  "ctx_connector (contexts demo_built v) = (if v = 1 then Some (Connector_new 2 3) else None)"
proof -
  let ?g = "dag_view demo_dag id demo_config ''p''"
  have "module_used (idxManager demo_pipeline) = {}"
    by (simp add: demo_pipeline_def IdxManager_new_def module_used_def)
  from BuildPipeline_ok [OF dag_view_ok [OF demo_wf demo_acyclic], of id demo_config "''p''" demo_factory demo_pipeline]
    this demo_nodes demo_factory_ok obtain r p' where
    b: "Pipeline_BuildPipeline demo_factory (Some ?g) demo_pipeline = Inr (r, p')" "pipe_graph p' = ?g"
      "PipelineBase.more p' = PipelineBase.more demo_pipeline"
      "r \<longleftrightarrow> (\<forall>v\<in>{0, 1}. v \<notin> set (gv_heads ?g) \<longrightarrow> conn_valid (gv_config ?g v))"
      "r \<longrightarrow> pipe_wf p' \<and> (\<forall>v. ctx_connector (contexts p' v) = (if v \<in> {0, 1} \<and> v \<notin> set (gv_heads ?g)
        then Some (Connector_new (nat (parallelism (gv_config ?g v))) (nat (max_input_queue_size (gv_config ?g v))))
        else None))"
    unfolding demo_nodes by auto
  have c: "gv_config ?g = demo_config" by (simp add: dag_view_def)
  have r using b(4) by (simp add: c demo_heads demo_config_def conn_valid_def)
  moreover have "demo_built = p'" using b(1) by (simp add: demo_built_def)
  ultimately show "pipe_wf demo_built" "pipe_graph demo_built = ?g"
    "PipelineBase.more demo_built = PipelineBase.more demo_pipeline"
    "ctx_connector (contexts demo_built v) = (if v = 1 then Some (Connector_new 2 3) else None)"
    using b(2,3,5) by (auto simp: c demo_heads demo_config_def)
qed

lemma demo_src: "hasTransmit (the (ctx_module (contexts demo_built 0)))"
  by code_simp

lemma more_eq:
  fixes p q :: "'n Pipeline"
  assumes "PipelineBase.more p = PipelineBase.more q"
  shows "pipe_running p = pipe_running q" "frames p = frames q" "obs p = obs q"
    "frame_done_cb p = frame_done_cb q" "tables p = tables q"
  using assms by (cases p; cases q; simp)+

lemma demo_initial: "initial (world_of demo_built)"
proof (rule initial_world_of)
  show "pipe_wf demo_built" by (rule demo_built_wf)
  show "pipe_running demo_built" "frames demo_built = Map.empty" "obs demo_built = []"
    unfolding more_eq [OF demo_built_wf(3)] by (simp_all add: demo_pipeline_def)
  show "\<forall>v c. ctx_connector (contexts demo_built v) = Some c \<longrightarrow>
       (\<exists>n cap. c = Connector_new n cap \<and> 0 < cap \<and> cap < 2 ^ 32)"
    unfolding demo_built_wf(4)
    by (intro allI impI, rule exI [of _ 2], rule exI [of _ 3]) (simp split: if_splits)
qed

text \<open>A source can always provide a frame.\<close>

lemma provide_possible:
  assumes inv: "flow_inv w" and h: "h \<in> set (gv_heads (pipe_graph (pipe w)))"
    and fresh: "frames (pipe w) f = None" and nd: "new_frame d"
    and m: "ctx_module (contexts (pipe w) h) = Some m" "hasTransmit m"
  shows "\<exists>w'. step w w' \<and> origin w' = (origin w)(f \<mapsto> h) \<and> frames (pipe w') f \<noteq> None"
proof -
  let ?q = "put_frame f d (pipe w)"
  have wf: "pipe_wf (pipe w)" "pipe_running (pipe w)" using inv by (auto simp: flow_inv_def)
  have s: "same_struct (pipe w) ?q" by simp
  have q: "pipe_wf ?q" "pipe_running ?q" "contexts ?q = contexts (pipe w)" "pipe_graph ?q = pipe_graph (pipe w)"
    using same_struct_wf [OF s] wf s by (auto simp: same_struct_def)
  have "h \<in> set (gv_nodes (pipe_graph ?q))" using h q wf_view [OF q(1)] by (auto simp: view_ok_def)
  then obtain r ns p' where t: "Module_TransmitData 0 h f ?q = Inr (r, ns, p')" and o: "outcome ?q h f d ns p'"
    using Module_TransmitData_outcome [of ?q f d h m 0] wf_node [OF q(1)] q nd m by (auto simp: new_frame_def)
  from step.provide [OF h fresh nd m t] o show ?thesis by (fastforce simp: outcome_def)
qed

definition demo_frame :: UNIFrameInfo where
  "demo_frame = \<lparr>stream_id = ''s0'', timestamp = 0, flags = 0, payload = None, channel_idx = 0,
     modules_mask = 0\<rparr>"

lemma demo_new_frame: "new_frame demo_frame"
  by (simp add: new_frame_def demo_frame_def IsInvalid_def)

subsection \<open>One frame through it\<close>

definition demo_p1 :: "nat Pipeline" where
  "demo_p1 = (case Module_TransmitData 0 0 7 (put_frame 7 demo_frame demo_built) of
     Inr (_, _, p) \<Rightarrow> p | _ \<Rightarrow> demo_built)"

definition demo_p2 :: "nat Pipeline" where
  "demo_p2 = (case push_once 1 7 demo_p1 of Inr (_, p) \<Rightarrow> p | _ \<Rightarrow> demo_built)"

definition demo_p3 :: "nat Pipeline" where
  "demo_p3 = (case TaskLoop_pop 1 0 demo_p2 of Inr (Some (_, p)) \<Rightarrow> p | _ \<Rightarrow> demo_built)"

definition demo_p4 :: "nat Pipeline" where
  "demo_p4 = (case TaskLoop_process 0 (\<lambda>_ p. (0, p)) (\<lambda>_ p. p) 1 7 demo_p3 of
     Inr (_, p) \<Rightarrow> p | _ \<Rightarrow> demo_built)"

lemma demo_call1: "\<exists>r. Module_TransmitData 0 0 7 (put_frame 7 demo_frame demo_built) = Inr (r, [1], demo_p1)"
proof -
  have "(case Module_TransmitData 0 0 7 (put_frame 7 demo_frame demo_built) of
      Inr (_, ns, _) \<Rightarrow> ns = [1] | _ \<Rightarrow> False)" by code_simp
  then show ?thesis by (auto simp: demo_p1_def split: sum.splits)
qed

lemma demo_call2: "push_once 1 7 demo_p1 = Inr (True, demo_p2)"
proof -
  have "(case push_once 1 7 demo_p1 of Inr (b, _) \<Rightarrow> b | _ \<Rightarrow> False)" by code_simp
  then show ?thesis by (auto simp: demo_p2_def split: sum.splits)
qed

lemma demo_call3: "TaskLoop_pop 1 0 demo_p2 = Inr (Some (Some 7, demo_p3))"
proof -
  have "(case TaskLoop_pop 1 0 demo_p2 of Inr (Some (f, _)) \<Rightarrow> f = Some 7 | _ \<Rightarrow> False)" by code_simp
  then show ?thesis by (auto simp: demo_p3_def split: sum.splits option.splits)
qed

lemma demo_call4: "TaskLoop_process 0 (\<lambda>_ p. (0, p)) (\<lambda>_ p. p) 1 7 demo_p3 = Inr ([], demo_p4)"
proof -
  have "(case TaskLoop_process 0 (\<lambda>_ p. (0, p)) (\<lambda>_ p. p) 1 7 demo_p3 of
      Inr (ns, _) \<Rightarrow> ns = [] | _ \<Rightarrow> False)" by code_simp
  then show ?thesis by (auto simp: demo_p4_def split: sum.splits)
qed

lemma demo_marked: "marked demo_p1 7 0" "marked demo_p4 7 0" "marked demo_p4 7 1"
proof -
  have "(case frames demo_p1 7 of Some d \<Rightarrow> bit (modules_mask d) (node_id demo_p1 0) | None \<Rightarrow> False)"
    and "(case frames demo_p4 7 of Some d \<Rightarrow> bit (modules_mask d) (node_id demo_p4 0) \<and>
        bit (modules_mask d) (node_id demo_p4 1) | None \<Rightarrow> False)"
    by code_simp+
  then show "marked demo_p1 7 0" "marked demo_p4 7 0" "marked demo_p4 7 1"
    by (auto simp: marked_def split: option.splits)
qed

definition demo_w :: "nat Pipeline \<Rightarrow> nat Task multiset \<Rightarrow> nat World" where
  "demo_w p T = \<lparr>pipe = p, tasks = T, held = {#}, dropped = {#}, origin = [7 \<mapsto> 0]\<rparr>"

lemma demo_step1:
  "reachable (demo_w demo_p1 {#\<lparr>owner = Other, task_node = 0, task_frame = 7, stage = Pushing [1]\<rparr>#})"
proof -
  let ?w = "world_of demo_built"
  have h: "0 \<in> set (gv_heads (pipe_graph (pipe ?w)))"
    by (simp add: world_of_def demo_built_wf(2) demo_heads)
  have f: "frames (pipe ?w) 7 = None" using demo_initial by (simp add: initial_def)
  have "module_set demo_built 0"
    using wf_node [OF demo_built_wf(1)] by (simp add: demo_built_wf(2) demo_nodes)
  then obtain m where m: "ctx_module (contexts (pipe ?w) 0) = Some m" "hasTransmit m"
    using demo_src by (auto simp: module_set_def world_of_def)
  obtain r where c: "Module_TransmitData 0 0 7 (put_frame 7 demo_frame (pipe ?w)) = Inr (r, [1], demo_p1)"
    using demo_call1 by (auto simp: world_of_def)
  from reachable.more [OF reachable.init [OF demo_initial] step.provide [OF h f demo_new_frame m c]]
  show ?thesis using demo_marked(1) by (simp add: demo_w_def world_of_def settle_def)
qed

lemma demo_step2:
  "reachable (demo_w demo_p2 {#\<lparr>owner = Other, task_node = 0, task_frame = 7, stage = Pushing []\<rparr>#})"
  using reachable.more [OF demo_step1 step.push [where n = 1 and ns = "[]" and T = "{#}"
      and accepted = True and p' = demo_p2]] demo_call2
  by (simp add: demo_w_def)

lemma demo_step3:
  "reachable (demo_w demo_p3 {#\<lparr>owner = Worker 1 0, task_node = 1, task_frame = 7, stage = Processing\<rparr>#})"
proof -
  have "reachable (demo_w demo_p2 {#})"
    using reachable.more [OF demo_step2 step.finish [where T = "{#}"]] by (simp add: demo_w_def)
  moreover have "1 \<in> set (gv_nodes (pipe_graph demo_p2))" by code_simp
  ultimately show ?thesis
    using reachable.more [OF _ step.pop [where w = "demo_w demo_p2 {#}" and v = 1 and i = 0 and f = 7
        and p' = demo_p3]] demo_call3
    by (simp add: demo_w_def)
qed

lemma demo_sink: "\<exists>m. ctx_module (contexts demo_p3 1) = Some m \<and> \<not> hasTransmit m"
proof -
  have "(case ctx_module (contexts demo_p3 1) of Some m \<Rightarrow> \<not> hasTransmit m | None \<Rightarrow> False)" by code_simp
  then show ?thesis by (auto split: option.splits)
qed

text \<open>The frame has been processed by the sink and nothing is left of it.\<close>

definition demo_end :: "nat World" where
  "demo_end = demo_w demo_p4 {#}"

lemma demo_reachable: "reachable demo_end"
proof -
  obtain m where m: "ctx_module (contexts demo_p3 1) = Some m" "\<not> hasTransmit m" using demo_sink by blast
  have "reachable (demo_w demo_p4 {#\<lparr>owner = Worker 1 0, task_node = 1, task_frame = 7, stage = Pushing []\<rparr>#})"
    using reachable.more [OF demo_step3 step.process [where T = "{#}" and p' = demo_p4 and ns = "[]"
        and tid = 0 and ret = 0 and m = m]] demo_call4 m demo_marked(3)
    by (simp add: demo_w_def settle_def)
  from reachable.more [OF this step.finish [where T = "{#}"]] show ?thesis
    by (simp add: demo_w_def demo_end_def)
qed

lemma demo_end_quiet: "tok demo_end v 7 = 0" "lost demo_end v 7 = 0" "frames (pipe demo_end) 7 \<noteq> None"
  "frame_done_cb (pipe demo_end)"
proof -
  have "gv_nodes (pipe_graph demo_p4) = [0, 1]" by code_simp
  then have "\<forall>v\<in>set (gv_nodes (pipe_graph (pipe demo_end))). marked (pipe demo_end) 7 v"
    using demo_marked by (simp add: demo_end_def demo_w_def)
  from all_marked_quiet [OF reachable_inv [OF demo_reachable] this]
  show "tok demo_end v 7 = 0" "lost demo_end v 7 = 0" by simp_all
  have "frames demo_p4 7 \<noteq> None" using demo_marked(2) by (auto simp: marked_def)
  then show "frames (pipe demo_end) 7 \<noteq> None" by (simp add: demo_end_def demo_w_def)
  have "frame_done_cb demo_p4" by code_simp
  then show "frame_done_cb (pipe demo_end)" by (simp add: demo_end_def demo_w_def)
qed

subsection \<open>The construction on these inputs\<close>

theorem build_pipeline_correct_witness:
  "\<exists>r p'. Pipeline_BuildPipeline demo_factory (Some (dag_view demo_dag id demo_config ''p'')) demo_pipeline = Inr (r, p') \<and>
     r \<and> inj_on (node_id p') {..<2} \<and>
     (\<forall>i. bit (parent_nodes_mask (contexts p' 1)) i \<longleftrightarrow> i = node_id p' 0) \<and>
     ctx_connector (contexts p' 1) = Some (Connector_new 2 3)"
proof -
  have n: "length (edges demo_dag) = 2" by (simp add: demo_dag_edges)
  have preds: "preds demo_dag 0 = {}" "preds demo_dag 1 = {0}" by (auto simp: preds_def demo_edge_rel)
  have "module_used (idxManager demo_pipeline) = {}"
    by (simp add: demo_pipeline_def IdxManager_new_def module_used_def)
  note used = this
  have le: "2 \<le> (64 :: nat)" by simp
  have fac: "\<forall>v<2. factory_ok demo_factory (dag_view demo_dag id demo_config ''p'') v"
    by (simp add: demo_factory_ok)
  obtain r p' where
    b: "Pipeline_BuildPipeline demo_factory (Some (dag_view demo_dag id demo_config ''p'')) demo_pipeline = Inr (r, p')"
    and r: "r \<longleftrightarrow> (\<forall>v < 2. preds demo_dag v \<noteq> {} \<longrightarrow> conn_valid (demo_config v))"
    and p: "r \<longrightarrow> inj_on (node_id p') {..<2} \<and> (\<forall>v < 2. node_id p' v < 64) \<and>
       (\<forall>i. bit (all_modules_mask p') i \<longleftrightarrow> (\<exists>v < 2. i = node_id p' v)) \<and>
       (\<forall>v < 2. \<forall>i. bit (parent_nodes_mask (contexts p' v)) i \<longleftrightarrow> (\<exists>u\<in>preds demo_dag v. i = node_id p' u)) \<and>
       (\<forall>h < 2. preds demo_dag h = {} \<longrightarrow>
          (\<forall>i. bit (route_mask (contexts p' h)) i \<longleftrightarrow> (\<exists>v\<in>reach demo_dag {h}. i = node_id p' v))) \<and>
       (\<forall>v < 2. preds demo_dag v \<noteq> {} \<longrightarrow> ctx_connector (contexts p' v) =
          Some (Connector_new (nat (parallelism (demo_config v))) (nat (max_input_queue_size (demo_config v)))))"
    using build_pipeline_correct [OF demo_wf demo_acyclic, unfolded n, OF le fac used]
    by (elim exE conjE)
  have "conn_valid (demo_config v)" for v by (simp add: demo_config_def conn_valid_def)
  with r have r by simp
  moreover from this p have "inj_on (node_id p') {..<2}" by (rule_tac conjunct1) (rule mp)
  moreover from \<open>r\<close> p have "\<forall>v < 2. \<forall>i. bit (parent_nodes_mask (contexts p' v)) i \<longleftrightarrow> (\<exists>u\<in>preds demo_dag v. i = node_id p' u)"
    "\<forall>v < 2. preds demo_dag v \<noteq> {} \<longrightarrow> ctx_connector (contexts p' v) =
          Some (Connector_new (nat (parallelism (demo_config v))) (nat (max_input_queue_size (demo_config v))))"
    by simp_all
  note pm = this(1) [rule_format, of 1, unfolded preds(2)] and cn = this(2) [rule_format, of 1, unfolded preds(2)]
  have "\<forall>i. bit (parent_nodes_mask (contexts p' 1)) i \<longleftrightarrow> i = node_id p' 0" using pm by simp
  moreover have "ctx_connector (contexts p' 1) = Some (Connector_new 2 3)" using cn by (simp add: demo_config_def)
  ultimately show ?thesis using b by blast
qed

text \<open>A graph of 65 nodes without edges.\<close>

definition wide_view :: "nat GraphView" where
  "wide_view = \<lparr>gv_nodes = [0..<65], gv_next = (\<lambda>_. []), gv_heads = [0..<65], gv_from = (\<lambda>h. [h]),
     gv_config = demo_config, gv_full_name = (\<lambda>_. ''p/m'')\<rparr>"

theorem too_many_modules_witness:
  "Pipeline_CreateModules demo_factory (demo_pipeline\<lparr>pipe_graph := wide_view\<rparr>) = Inl UndefinedShift"
proof (rule too_many_modules)
  show "\<forall>v\<in>set (gv_nodes (pipe_graph (demo_pipeline\<lparr>pipe_graph := wide_view\<rparr>))).
      factory_ok demo_factory (pipe_graph (demo_pipeline\<lparr>pipe_graph := wide_view\<rparr>)) v"
    by (simp add: factory_ok_def ModuleFactory_Create_def demo_factory_def wide_view_def demo_config_def
        ModuleEx_new_def Module_new_def)
qed (simp_all add: wide_view_def demo_pipeline_def IdxManager_new_def module_used_def)

end
