(* ===== verification/FlowProps.thy ===== *)
theory FlowProps
  imports FlowDemo
begin

section \<open>Exactly-once delivery and frame completion\<close>

text \<open>
  What the invariant of \<open>Flow\<close> says of every reachable state of a running pipeline.
\<close>

lemma frame_complete:
  assumes wf: "pipe_wf p" and ok: "frame_ok p h d T L c" and z: "\<forall>v. T v = 0 \<and> L v = 0"
  shows "\<forall>v\<in>set (gv_nodes (pipe_graph p)). passed p d v"
proof (rule ccontr)
  let ?E = "gv_edges (pipe_graph p)" and ?N = "set (gv_nodes (pipe_graph p))"
  let ?B = "{v \<in> ?N. \<not> passed p d v}"
  assume "\<not> (\<forall>v\<in>?N. passed p d v)"
  then obtain v0 where v0: "v0 \<in> ?B" by blast
  have "finite ?E" by (rule finite_subset [of _ "?N \<times> ?N"]) (use wf_edge_nodes [OF wf] in auto)
  moreover have "acyclic ?E" using wf_view [OF wf] by (simp add: view_ok_def)
  ultimately have "wf ?E" by (rule finite_acyclic_wf)
  from wfE_min [OF this v0] obtain v where v: "v \<in> ?B" and min: "\<And>u. (u, v) \<in> ?E \<Longrightarrow> u \<notin> ?B" by blast
  have pu: "passed p d u" if "(u, v) \<in> ?E" for u
    using min [OF that] wf_edge_nodes [OF wf that] by blast
  have "v \<noteq> h" using v frame_okD(7) [OF ok] z by (auto split: if_splits)
  moreover have "(h, v) \<in> ?E\<^sup>*" using v frame_okD(4) [OF ok] by blast
  ultimately have "(h, v) \<in> ?E\<^sup>+" by (simp add: rtrancl_eq_or_trancl)
  then have "due p h d v" using v pu by (simp add: due_def)
  with frame_okD(8) [OF ok \<open>v \<noteq> h\<close>] z show False by simp
qed

subsection \<open>Properties\<close>

lemma delivery_count:
  assumes inv: "flow_inv w"
  shows "tok w v f + lost w v f \<le> 1"
proof (cases "frames (pipe w) f")
  case None
  with flow_frame [OF inv, of f] show ?thesis by (simp add: frame_inv_def)
next
  case (Some d)
  with flow_frame [OF inv, of f] obtain h where
    ok: "frame_ok (pipe w) h d (\<lambda>v. tok w v f) (\<lambda>v. lost w v f) (done_count (pipe w) f)"
    by (auto simp: frame_inv_def)
  show ?thesis
    using frame_okD(6,7) [OF ok] frame_okD(8) [OF ok, of v] by (cases "v = h") simp_all
qed

lemma delivery_parents:
  assumes inv: "flow_inv w" and tok: "tok w v f > 0"
  shows "\<not> marked (pipe w) f v \<and>
      (\<exists>h. origin w f = Some h \<and> (h, v) \<in> (gv_edges (pipe_graph (pipe w)))\<^sup>+) \<and>
      (\<forall>u. (u, v) \<in> gv_edges (pipe_graph (pipe w)) \<longrightarrow> marked (pipe w) f u)"
proof -
  from tok_frame [OF inv tok] obtain d h where d: "frames (pipe w) f = Some d"
    and h: "origin w f = Some h" and due: "due (pipe w) h d v" by metis
  have mk: "marked (pipe w) f = passed (pipe w) d" using d by (simp add: marked_def passed_def fun_eq_iff)
  show ?thesis unfolding mk using h due by (simp add: due_def)
qed




subsection \<open>Witnesses\<close>




end
