(* ===== verification/StdMap.thy ===== *)
theory StdMap
  imports Prelude "HOL-Library.List_Lexorder" "HOL-Library.Char_ord"
begin

section \<open>std::map\<close>

text \<open>
  A \<open>\<^verbatim>\<open>std::map\<close>\<close> as the list of its entries in the order the code iterates over them, that is
  sorted by key with distinct keys.  Lookup is \<open>map_of\<close>.  The contract of the three updates is a
  locale, so that clients reason with maps and not with the representation.
\<close>

definition smap_ok :: "('k::linorder \<times> 'v) list \<Rightarrow> bool" where
  "smap_ok m \<longleftrightarrow> sorted (map fst m) \<and> distinct (map fst m)"

text \<open>\<^verbatim>\<open>m[k] = v\<close>\<close>

definition smap_put :: "'k::linorder \<Rightarrow> 'v \<Rightarrow> ('k \<times> 'v) list \<Rightarrow> ('k \<times> 'v) list" where
  "smap_put k v m =
     (if map_of m k = None then insort_key fst (k, v) m
      else map (\<lambda>e. if fst e = k then (k, v) else e) m)"

text \<open>\<^verbatim>\<open>m.insert(make_pair(k, v))\<close> keeps an existing entry and says so.\<close>

definition smap_insert :: "'k::linorder \<Rightarrow> 'v \<Rightarrow> ('k \<times> 'v) list \<Rightarrow> bool \<times> ('k \<times> 'v) list" where
  "smap_insert k v m = (if map_of m k = None then (True, insort_key fst (k, v) m) else (False, m))"

definition smap_erase :: "'k::linorder \<Rightarrow> ('k \<times> 'v) list \<Rightarrow> ('k \<times> 'v) list" where
  "smap_erase k m = filter (\<lambda>e. fst e \<noteq> k) m"

subsection \<open>The contract\<close>

locale map_contract =
  fixes find :: "'m \<Rightarrow> 'k \<Rightarrow> 'v option"
    and put :: "'k \<Rightarrow> 'v \<Rightarrow> 'm \<Rightarrow> 'm"
    and erase :: "'k \<Rightarrow> 'm \<Rightarrow> 'm"
    and size_of :: "'m \<Rightarrow> nat"
    and ok :: "'m \<Rightarrow> bool"
  assumes find_put: "ok m \<Longrightarrow> find (put k v m) = (find m)(k \<mapsto> v)"
    and find_erase: "ok m \<Longrightarrow> find (erase k m) = (find m)(k := None)"
    and ok_put: "ok m \<Longrightarrow> ok (put k v m)"
    and ok_erase: "ok m \<Longrightarrow> ok (erase k m)"
    and size_card: "ok m \<Longrightarrow> finite (dom (find m)) \<and> size_of m = card (dom (find m))"
begin

lemma size_put_new: "ok m \<Longrightarrow> find m k = None \<Longrightarrow> size_of (put k v m) = Suc (size_of m)"
  using size_card [of m] size_card [of "put k v m"] by (simp add: ok_put find_put domIff)

lemma size_put_old: "ok m \<Longrightarrow> find m k \<noteq> None \<Longrightarrow> size_of (put k v m) = size_of m"
  using size_card [of m] size_card [of "put k v m"] by (simp add: ok_put find_put insert_absorb domIff)

lemma size_erase: "ok m \<Longrightarrow> find m k \<noteq> None \<Longrightarrow> Suc (size_of (erase k m)) = size_of m"
proof -
  assume m: "ok m" "find m k \<noteq> None"
  then have "k \<in> dom (find m)" by blast
  then have "Suc (card (dom (find m) - {k})) = card (dom (find m))"
    using size_card [OF m(1)] by (intro card_Suc_Diff1) auto
  then show ?thesis using size_card [OF m(1)] size_card [OF ok_erase [OF m(1)]] by (simp add: find_erase m(1))
qed

lemma put_erase: "ok m \<Longrightarrow> find m k = None \<Longrightarrow> find (erase k (put k v m)) = find m"
  by (simp add: find_erase find_put ok_put fun_upd_idem_iff)

end

subsection \<open>The representation meets it\<close>

lemma map_of_None_fst: "map_of m k = None \<longleftrightarrow> k \<notin> fst ` set m"
  by (simp add: map_of_eq_None_iff)

lemma map_of_insort:
  "k \<notin> fst ` set m \<Longrightarrow> map_of (insort_key fst (k, v) m) = (map_of m)(k \<mapsto> v)"
  by (induction m) (auto simp: fun_eq_iff)

lemma map_of_replace:
  "map_of (map (\<lambda>e. if fst e = k then (k, v) else e) m) =
     (if k \<in> fst ` set m then (map_of m)(k \<mapsto> v) else map_of m)"
  by (induction m) (auto simp: fun_eq_iff)

lemma map_of_smap_put [simp]: "map_of (smap_put k v m) = (map_of m)(k \<mapsto> v)"
  by (auto simp: smap_put_def map_of_insort map_of_None_fst map_of_replace)

lemma map_of_smap_erase [simp]: "map_of (smap_erase k m) = (map_of m)(k := None)"
  by (induction m) (auto simp: smap_erase_def fun_eq_iff)

lemma map_fst_replace [simp]: "map fst (map (\<lambda>e. if fst e = k then (k, v) else e) m) = map fst m"
  by (induction m) auto

lemma map_fst_insort: "map fst (insort_key fst (k, v) m) = insort k (map fst m)"
  by (induction m) auto

lemma smap_ok_Nil [simp]: "smap_ok []"
  by (simp add: smap_ok_def)

lemma smap_ok_put [simp]: "smap_ok m \<Longrightarrow> smap_ok (smap_put k v m)"
  unfolding smap_ok_def smap_put_def
  by (auto simp: map_fst_insort sorted_insort distinct_insort map_of_None_fst simp del: map_map)

lemma smap_ok_erase [simp]: "smap_ok m \<Longrightarrow> smap_ok (smap_erase k m)"
  unfolding smap_ok_def smap_erase_def
  by (simp add: distinct_map_filter sorted_filter)

lemma smap_insert_put:
  "smap_insert k v m = (if map_of m k = None then (True, smap_put k v m) else (False, m))"
  by (simp add: smap_insert_def smap_put_def)

lemma smap_length: "smap_ok m \<Longrightarrow> length m = card (dom (map_of m))"
  by (metis distinct_card dom_map_of_conv_image_fst length_map list.set_map smap_ok_def)

interpretation smap: map_contract map_of smap_put smap_erase length "smap_ok :: ('k::linorder \<times> 'v) list \<Rightarrow> bool"
  by unfold_locales (simp_all add: smap_length finite_dom_map_of)

lemma smap_mem: "smap_ok m \<Longrightarrow> (k, v) \<in> set m \<longleftrightarrow> map_of m k = Some v"
  by (simp add: smap_ok_def)

end
