(* ===== verification/Source.thy ===== *)
theory Source
  imports StdMap Transmit
begin

section \<open>Source modules and their handlers: unistream_source\<close>

text \<open>
  \<^verbatim>\<open>framework/include/unistream_source.hpp\<close> and \<^verbatim>\<open>framework/src/unistream_source.cpp\<close>.  A source
  module keeps one handler per stream in a map behind a lock.  A handler is user code behind the
  virtual functions \<^verbatim>\<open>Open\<close>, \<^verbatim>\<open>Stop\<close> and \<^verbatim>\<open>Close\<close>; they are a parameter of the model and may act
  on the stream tables (a closing handler sends the stream's EOS frame).  Which of them ran, and in
  which order, is kept in a log.
\<close>

datatype 'h HandlerCall = CallOpen 'h | CallStop 'h | CallClose 'h

record 'h HandlerOps =
  h_stream_id :: "'h \<Rightarrow> string"
  h_open :: "'h \<Rightarrow> StreamTables \<Rightarrow> bool \<times> StreamTables"
  h_stop :: "'h \<Rightarrow> StreamTables \<Rightarrow> StreamTables"
  h_close :: "'h \<Rightarrow> StreamTables \<Rightarrow> StreamTables"

record 'h SourceModule =
  source_map :: "(string \<times> 'h) list"
  src_tables :: StreamTables
  src_log :: "'h HandlerCall list"

definition src_call ::
  "('h \<Rightarrow> 'h HandlerCall) \<Rightarrow> ('h \<Rightarrow> StreamTables \<Rightarrow> StreamTables) \<Rightarrow> 'h \<Rightarrow> 'h SourceModule \<Rightarrow> 'h SourceModule" where
  "src_call tag act h s = s\<lparr>src_tables := act h (src_tables s), src_log := src_log s @ [tag h]\<rparr>"

definition src_set_removed :: "string \<Rightarrow> bool \<Rightarrow> 'h SourceModule \<Rightarrow> 'h SourceModule" where
  "src_set_removed sid b s = s\<lparr>src_tables := SetStreamRemoved sid b (src_tables s)\<rparr>"

text \<open>\<^verbatim>\<open>AddSource\<close>: the null handler is \<open>None\<close>.\<close>

definition SourceModule_AddSource ::
  "'h HandlerOps \<Rightarrow> 'h option \<Rightarrow> 'h SourceModule \<Rightarrow> int \<times> 'h SourceModule" where
  "SourceModule_AddSource ops handler s =
     (case handler of
        None \<Rightarrow> (- 1, s)
      | Some h \<Rightarrow>
          (let sid = h_stream_id ops h
           in if map_of (source_map s) sid \<noteq> None then (- 1, s)
              else if length (source_map s) \<ge> GetMaxStreamNumber then (- 1, s)
              else let s1 = src_set_removed sid False s;
                       (ok, t) = h_open ops h (src_tables s1);
                       s2 = src_call CallOpen (\<lambda>_ _. t) h s1
                   in if \<not> ok then (- 1, s2)
                      else (0, s2\<lparr>source_map := smap_put sid h (source_map s2)\<rparr>)))"

definition SourceModule_GetSourceHandler :: "string \<Rightarrow> 'h SourceModule \<Rightarrow> 'h option" where
  "SourceModule_GetSourceHandler sid s = map_of (source_map s) sid"

text \<open>
  \<^verbatim>\<open>RemoveSource(stream_id, force)\<close>: \<open>env\<close> lists what the other threads do to the tables while it
  waits for the EOS frame, \<open>mid\<close> what they do to the module between the wait and the second
  critical section.  \<open>None\<close> is still waiting.
\<close>

definition CheckStreamEosReached ::
  "bool \<Rightarrow> (StreamTables \<Rightarrow> StreamTables) list \<Rightarrow> StreamTables \<Rightarrow> string \<Rightarrow> (bool \<times> StreamTables) option" where
  "CheckStreamEosReached sync env g sid =
     (if sync then CheckStreamEosReached_sync env g sid else Some (CheckStreamEosReached_async g sid))"

definition SourceModule_RemoveSource ::
  "'h HandlerOps \<Rightarrow> (StreamTables \<Rightarrow> StreamTables) list \<Rightarrow> ('h SourceModule \<Rightarrow> 'h SourceModule) \<Rightarrow>
     string \<Rightarrow> bool \<Rightarrow> 'h SourceModule \<Rightarrow> (int \<times> 'h SourceModule) option" where
  "SourceModule_RemoveSource ops env mid sid force s =
     (let s1 = src_set_removed sid force s
      in case map_of (source_map s1) sid of
           None \<Rightarrow> Some (0, s1)
         | Some h \<Rightarrow>
             (let s2 = src_call CallClose (h_close ops) h s1
              in case CheckStreamEosReached force env (src_tables s2) sid of
                   None \<Rightarrow> None
                 | Some (_, t) \<Rightarrow>
                     (let s4 = mid (src_set_removed sid False (s2\<lparr>src_tables := t\<rparr>))
                      in if map_of (source_map s4) sid = None then Some (0, s4)
                         else Some (0, s4\<lparr>source_map := smap_erase sid (source_map s4)\<rparr>))))"

text \<open>\<^verbatim>\<open>RemoveSource(handler, force)\<close>\<close>

definition SourceModule_RemoveHandler ::
  "'h HandlerOps \<Rightarrow> (StreamTables \<Rightarrow> StreamTables) list \<Rightarrow> ('h SourceModule \<Rightarrow> 'h SourceModule) \<Rightarrow>
     'h option \<Rightarrow> bool \<Rightarrow> 'h SourceModule \<Rightarrow> (int \<times> 'h SourceModule) option" where
  "SourceModule_RemoveHandler ops env mid handler force s =
     (case handler of
        None \<Rightarrow> Some (- 1, s)
      | Some h \<Rightarrow> SourceModule_RemoveSource ops env mid (h_stream_id ops h) force s)"

text \<open>\<^verbatim>\<open>RemoveSources\<close>: the third loop waits for one stream after the other.\<close>

fun remove_wait ::
  "bool \<Rightarrow> (string \<Rightarrow> (StreamTables \<Rightarrow> StreamTables) list) \<Rightarrow> string list \<Rightarrow> StreamTables \<Rightarrow> StreamTables option" where
  "remove_wait force env [] g = Some g"
| "remove_wait force env (sid # sids) g =
     (case CheckStreamEosReached force (env sid) g sid of
        None \<Rightarrow> None
      | Some (_, g') \<Rightarrow> remove_wait force env sids (SetStreamRemoved sid False g'))"

definition SourceModule_RemoveSources ::
  "'h HandlerOps \<Rightarrow> (string \<Rightarrow> (StreamTables \<Rightarrow> StreamTables) list) \<Rightarrow> bool \<Rightarrow> 'h SourceModule \<Rightarrow>
     (int \<times> 'h SourceModule) option" where
  "SourceModule_RemoveSources ops env force s =
     (let sids = map fst (source_map s); hs = map snd (source_map s);
          s1 = fold (\<lambda>sid. src_set_removed sid force) sids s;
          s2 = fold (src_call CallClose (h_close ops)) hs (fold (src_call CallStop (h_stop ops)) hs s1)
      in case remove_wait force env sids (src_tables s2) of
           None \<Rightarrow> None
         | Some t \<Rightarrow> Some (0, s2\<lparr>src_tables := t, source_map := []\<rparr>))"

subsection \<open>Stream indices and frames of a handler\<close>

definition SourceModule_GetStreamIndex :: "bool \<Rightarrow> string \<Rightarrow> IdxManager \<Rightarrow> u32 \<times> IdxManager" where
  "SourceModule_GetStreamIndex container sid m =
     (if container then IdxManager_GetStreamIndex m sid else (kInvalidStreamIdx, m))"

definition SourceModule_ReturnStreamIndex :: "bool \<Rightarrow> string \<Rightarrow> IdxManager \<Rightarrow> IdxManager" where
  "SourceModule_ReturnStreamIndex container sid m =
     (if container then IdxManager_ReturnStreamIndex m sid else m)"

record SourceHandler =
  hd_module :: bool
  hd_stream_id :: string
  hd_stream_index :: u32

text \<open>The constructor and the destructor; \<open>md\<close> is whether the module pointer is set.\<close>

definition SourceHandler_new :: "bool \<Rightarrow> bool \<Rightarrow> string \<Rightarrow> IdxManager \<Rightarrow> SourceHandler \<times> IdxManager" where
  "SourceHandler_new md container sid m =
     (if md then let (i, m') = SourceModule_GetStreamIndex container sid m
                 in (\<lparr>hd_module = True, hd_stream_id = sid, hd_stream_index = i\<rparr>, m')
      else (\<lparr>hd_module = False, hd_stream_id = sid, hd_stream_index = kInvalidStreamIdx\<rparr>, m))"

definition SourceHandler_destroy :: "bool \<Rightarrow> SourceHandler \<Rightarrow> IdxManager \<Rightarrow> IdxManager" where
  "SourceHandler_destroy container h m =
     (if hd_module h then SourceModule_ReturnStreamIndex container (hd_stream_id h) m else m)"

definition SourceHandler_CreateFrameInfo ::
  "SourceHandler \<Rightarrow> bool \<Rightarrow> string option \<Rightarrow> StreamTables \<Rightarrow> UNIFrameInfo option \<times> StreamTables" where
  "SourceHandler_CreateFrameInfo h eos pl g =
     (case UNIFrameInfo_Create (hd_stream_id h) eos pl g of
        (None, g') \<Rightarrow> (None, g')
      | (Some d, g') \<Rightarrow> (Some (d\<lparr>channel_idx := hd_stream_index h\<rparr>), g'))"

text \<open>\<^verbatim>\<open>SourceModule::SendData\<close> and \<^verbatim>\<open>SourceHandler::SendData\<close> on frame \<open>f\<close> of source node \<open>v\<close>.\<close>

definition SourceModule_SendData ::
  "nat \<Rightarrow> 'n \<Rightarrow> nat \<Rightarrow> 'n Pipeline \<Rightarrow> (bool \<times> 'n list \<times> 'n Pipeline) result" where
  "SourceModule_SendData tid v f p =
     (case frames p f of
        None \<Rightarrow> Inl NullPointer
      | Some d \<Rightarrow> (if \<not> IsEos d \<and> IsStreamRemoved (tables p) (stream_id d) then Inr (False, [], p)
                  else Module_TransmitData tid v f p))"

definition SourceHandler_SendData ::
  "SourceHandler \<Rightarrow> nat \<Rightarrow> 'n \<Rightarrow> nat \<Rightarrow> 'n Pipeline \<Rightarrow> (bool \<times> 'n list \<times> 'n Pipeline) result" where
  "SourceHandler_SendData h tid v f p =
     (if hd_module h then SourceModule_SendData tid v f p else Inr (False, [], p))"

subsection \<open>The map of handlers\<close>

lemma src_call_map [simp]: "source_map (src_call tag act h s) = source_map s"
  by (simp add: src_call_def)

lemma src_set_removed_map [simp]: "source_map (src_set_removed sid b s) = source_map s"
  by (simp add: src_set_removed_def)

lemma fold_src_call_map [simp]: "source_map (fold (src_call tag act) hs s) = source_map s"
  by (induction hs arbitrary: s) simp_all

lemma fold_set_removed_map [simp]: "source_map (fold (\<lambda>sid. src_set_removed sid b) sids s) = source_map s"
  by (induction sids arbitrary: s) simp_all

definition source_inv :: "'h HandlerOps \<Rightarrow> 'h SourceModule \<Rightarrow> bool" where
  "source_inv ops s \<longleftrightarrow> smap_ok (source_map s) \<and> length (source_map s) \<le> GetMaxStreamNumber \<and>
     (\<forall>sid h. map_of (source_map s) sid = Some h \<longrightarrow> h_stream_id ops h = sid \<and> CallOpen h \<in> set (src_log s))"

lemma AddSource_cases:
  assumes "SourceModule_AddSource ops ho s = (r, s')"
  obtains (refused) "r = - 1" "source_map s' = source_map s" "set (src_log s) \<subseteq> set (src_log s')"
  | (added) h where "ho = Some h" "r = 0" "map_of (source_map s) (h_stream_id ops h) = None"
      "length (source_map s) < GetMaxStreamNumber"
      "source_map s' = smap_put (h_stream_id ops h) h (source_map s)"
      "src_log s' = src_log s @ [CallOpen h]"
  using assms by (auto simp: SourceModule_AddSource_def Let_def src_call_def src_set_removed_def subset_insertI
      split: option.splits if_splits prod.splits)

lemma source_inv_add:
  assumes "source_inv ops s" and "SourceModule_AddSource ops ho s = (r, s')"
  shows "source_inv ops s'"
  using assms(2)
proof (cases rule: AddSource_cases)
  case refused
  with assms(1) show ?thesis by (auto simp: source_inv_def)
next
  case (added h)
  have ok: "smap_ok (source_map s)" using assms(1) by (simp add: source_inv_def)
  with added assms(1) show ?thesis
    by (auto simp: source_inv_def smap.size_put_new)
qed

lemma source_inv_remove:
  assumes inv: "source_inv ops s" and r: "SourceModule_RemoveSource ops env id sid force s = Some (r, s')"
  shows "source_inv ops s' \<and> map_of (source_map s') sid = None \<and> r = 0"
proof (cases "map_of (source_map s) sid")
  case None
  with r inv show ?thesis
    by (auto simp: SourceModule_RemoveSource_def source_inv_def src_set_removed_def)
next
  case (Some h)
  have ok: "smap_ok (source_map s)" using inv by (simp add: source_inv_def)
  from r Some have s': "source_map s' = smap_erase sid (source_map s)" "r = 0"
    "src_log s' = src_log s @ [CallClose h]"
    by (auto simp: SourceModule_RemoveSource_def Let_def src_call_def src_set_removed_def split: option.splits)
  have "Suc (length (smap_erase sid (source_map s))) = length (source_map s)"
    by (rule smap.size_erase [OF ok]) (simp add: Some)
  with s' inv ok show ?thesis by (auto simp: source_inv_def)
qed

lemma source_inv_remove_all:
  assumes "SourceModule_RemoveSources ops env force s = Some (r, s')"
  shows "source_inv ops s'" and "source_map s' = []"
  using assms by (auto simp: SourceModule_RemoveSources_def source_inv_def Let_def split: option.splits)

text \<open>Any sequence of calls on a module; a call that is still waiting leaves the run there.\<close>

datatype 'h src_op =
    AddOp "'h option"
  | RemoveOp string bool "(StreamTables \<Rightarrow> StreamTables) list"
  | RemoveAllOp bool "string \<Rightarrow> (StreamTables \<Rightarrow> StreamTables) list"

fun src_run :: "'h HandlerOps \<Rightarrow> 'h src_op list \<Rightarrow> 'h SourceModule \<Rightarrow> 'h SourceModule option" where
  "src_run ops [] s = Some s"
| "src_run ops (AddOp h # os) s = src_run ops os (snd (SourceModule_AddSource ops h s))"
| "src_run ops (RemoveOp sid force env # os) s =
     (case SourceModule_RemoveSource ops env id sid force s of None \<Rightarrow> None | Some (_, s') \<Rightarrow> src_run ops os s')"
| "src_run ops (RemoveAllOp force env # os) s =
     (case SourceModule_RemoveSources ops env force s of None \<Rightarrow> None | Some (_, s') \<Rightarrow> src_run ops os s')"

lemma src_run_inv: "src_run ops os s = Some s' \<Longrightarrow> source_inv ops s \<Longrightarrow> source_inv ops s'"
proof (induction ops os s rule: src_run.induct)
  case (2 ops h os s)
  then show ?case using source_inv_add by (metis prod.collapse src_run.simps(2))
next
  case (3 ops sid force env os s)
  then show ?case using source_inv_remove by (fastforce split: option.splits prod.splits)
next
  case (4 ops force env os s)
  then show ?case using source_inv_remove_all by (fastforce split: option.splits prod.splits)
qed simp

definition SourceModule_new :: "StreamTables \<Rightarrow> 'h SourceModule" where
  "SourceModule_new g = \<lparr>source_map = [], src_tables = g, src_log = []\<rparr>"

subsection \<open>Properties\<close>

text \<open>
  C11. The handlers of a source module: after any sequence of additions and removals that has
  returned there are at most 128 handlers, each under its own stream id and each opened before it
  was stored.
\<close>

theorem source_handlers_valid:
  assumes "src_run ops os (SourceModule_new g) = Some s"
  shows "length (source_map s) \<le> 128 \<and> distinct (map fst (source_map s)) \<and>
    (\<forall>sid h. SourceModule_GetSourceHandler sid s = Some h \<longrightarrow>
       h_stream_id ops h = sid \<and> CallOpen h \<in> set (src_log s))"
proof -
  have "source_inv ops (SourceModule_new g)" by (simp add: source_inv_def SourceModule_new_def)
  from src_run_inv [OF assms this] show ?thesis
    by (auto simp: source_inv_def smap_ok_def idx_consts SourceModule_GetSourceHandler_def)
qed

text \<open>
  Removing a stream: a forced removal closes the handler and then waits as long as the stream's
  EOS frame is alive, returning once it has been destroyed; a removal that is not forced does not
  wait at all, even while frames of the stream are still on their way.
\<close>

lemma forced_removal_waits:
  assumes "map_of (source_map s) sid = Some h"
    and "stream_eos_map (h_close ops h (SetStreamRemoved sid True (src_tables s))) sid = Some False"
    and "IsEos d" and "payload d = None" and "stream_id d = sid"
  shows "SourceModule_RemoveSource ops [] id sid True s = None \<and>
    (\<exists>s'. SourceModule_RemoveSource ops [UNIFrameInfo_destroy d] id sid True s = Some (0, s') \<and>
       map_of (source_map s') sid = None \<and> \<not> IsStreamRemoved (src_tables s') sid) \<and>
    (\<exists>s'. SourceModule_RemoveSource ops [] id sid False s = Some (0, s') \<and>
       map_of (source_map s') sid = None \<and> src_log s' = src_log s @ [CallClose h])"
  using assms destroy_eos [of d]
  by (auto simp: SourceModule_RemoveSource_def CheckStreamEosReached_def CheckStreamEosReached_async_def Let_def
      src_call_def src_set_removed_def IsStreamRemoved_Set split: option.splits bool.splits)

text \<open>
  The result of sending: for a source node of the pipeline the boolean of \<^verbatim>\<open>SendData\<close> is
  inverted, false when the pipeline took the frame and true when it refused it because it is not
  running.
\<close>

theorem send_data_inverted:
  assumes "frames p f = Some d" and "ctx_module (contexts p v) = Some m" and "hasTransmit m" and "m_container m"
    and "\<not> IsStreamRemoved (tables p) (stream_id d)"
    and "parent_nodes_mask (contexts p v) = 0"
  shows "(\<not> pipe_running p \<longrightarrow> SourceModule_SendData tid v f p = Inr (True, [], p)) \<and>
    (pipe_running p \<longrightarrow> SourceModule_SendData tid v f p =
       map_sum id (\<lambda>(ns, p'). (False, ns, p')) (Pipeline_TransmitData tid v f p))"
  using assms
  by (auto simp: SourceModule_SendData_def Module_TransmitData_def Module_DoTransmitData_def
      Pipeline_ProvideData_def split: sum.splits prod.splits)

subsection \<open>Witnesses\<close>

text \<open>Handlers that are their stream id, open at once and leave an EOS frame behind when closed.\<close>

definition demo_handlers :: "string HandlerOps" where
  "demo_handlers = \<lparr>h_stream_id = id, h_open = (\<lambda>_ g. (True, g)), h_stop = (\<lambda>_ g. g),
     h_close = (\<lambda>sid g. snd (UNIFrameInfo_Create sid True None g))\<rparr>"

theorem source_handlers_valid_witness:
  "\<exists>s. src_run demo_handlers [AddOp (Some ''a''), AddOp (Some ''b''), RemoveOp ''a'' False []]
       (SourceModule_new StreamTables_new) = Some s \<and>
     map fst (source_map s) = [''b''] \<and> length (source_map s) \<le> 128 \<and> CallOpen ''b'' \<in> set (src_log s)"
proof -
  let ?r = "src_run demo_handlers [AddOp (Some ''a''), AddOp (Some ''b''), RemoveOp ''a'' False []]
       (SourceModule_new StreamTables_new)"
  have c: "case ?r of Some s \<Rightarrow> source_map s = [(''b'', ''b'')] | None \<Rightarrow> False" by code_simp
  then obtain s where s: "?r = Some s" "source_map s = [(''b'', ''b'')]" by (auto split: option.splits)
  from source_handlers_valid [OF s(1)] s show ?thesis
    by (auto simp: SourceModule_GetSourceHandler_def)
qed

definition demo_eos_frame :: UNIFrameInfo where
  "demo_eos_frame = \<lparr>stream_id = ''a'', timestamp = 0, flags = 1, payload = None, channel_idx = 0, modules_mask = 0\<rparr>"

lemma forced_removal_waits_witness:
  "SourceModule_RemoveSource demo_handlers [] id ''a'' True
      \<lparr>source_map = [(''a'', ''a'')], src_tables = StreamTables_new, src_log = []\<rparr> = None"
  by (rule forced_removal_waits [where d = demo_eos_frame and h = "''a''", THEN conjunct1])
    (simp_all add: demo_handlers_def UNIFrameInfo_Create_def SetStreamRemoved_def StreamTables_new_def
      demo_eos_frame_def IsEos_bit Let_def)

definition demo_source_pipe :: "bool \<Rightarrow> nat Pipeline" where
  "demo_source_pipe running = \<lparr>pipe_graph = \<lparr>gv_nodes = [0], gv_next = (\<lambda>_. []), gv_heads = [0], gv_from = (\<lambda>v. [v]),
       gv_config = (\<lambda>_. UNIModuleConfig_new), gv_full_name = (\<lambda>_. ''p/m'')\<rparr>,
     contexts = (\<lambda>_. NodeContext_new\<lparr>ctx_module := Some ((ModuleEx_new ''p/m'')\<lparr>m_container := True, m_id := 0\<rparr>)\<rparr>),
     all_modules_mask = 1, idxManager = IdxManager_new, pipe_running = running,
     pipe_bus = EventBus_new, msgq = \<lparr>tsq_items = []\<rparr>, frame_done_cb = True,
     frames = [5 \<mapsto> demo_eos_frame\<lparr>flags := 0\<rparr>], tables = StreamTables_new, obs = []\<rparr>"

theorem send_data_inverted_witness:
  "SourceModule_SendData 0 0 5 (demo_source_pipe False) = Inr (True, [], demo_source_pipe False) \<and>
   (\<exists>ns p'. SourceModule_SendData 0 0 5 (demo_source_pipe True) = Inr (False, ns, p'))"
proof -
  have ex: "\<exists>ns p'. Pipeline_TransmitData 0 0 5 (demo_source_pipe True) = Inr (ns, p')"
  proof -
    have "(case Pipeline_TransmitData 0 0 5 (demo_source_pipe True) of Inr _ \<Rightarrow> True | Inl _ \<Rightarrow> False)" by code_simp
    then show ?thesis by (auto split: sum.splits)
  qed
  have h: "frames (demo_source_pipe b) 5 = Some (demo_eos_frame\<lparr>flags := 0\<rparr>)"
    "ctx_module (contexts (demo_source_pipe b) 0) = Some ((ModuleEx_new ''p/m'')\<lparr>m_container := True, m_id := 0\<rparr>)"
    "\<not> IsStreamRemoved (tables (demo_source_pipe b)) (stream_id (demo_eos_frame\<lparr>flags := 0\<rparr>))"
    "parent_nodes_mask (contexts (demo_source_pipe b) 0) = 0" for b
    by (simp_all add: demo_source_pipe_def NodeContext_new_def ModuleEx_new_def Module_new_def
        StreamTables_new_def IsStreamRemoved_def)
  have m: "hasTransmit ((ModuleEx_new ''p/m'')\<lparr>m_container := True, m_id := 0\<rparr>)"
    "m_container ((ModuleEx_new ''p/m'')\<lparr>m_container := True, m_id := 0\<rparr>)"
    by (simp_all add: ModuleEx_new_def)
  have r: "pipe_running (demo_source_pipe b) = b" for b by (simp add: demo_source_pipe_def)
  from send_data_inverted [OF h(1,2) m h(3,4), of False 0] send_data_inverted [OF h(1,2) m h(3,4), of True 0] ex
  show ?thesis by (auto simp: r)
qed

end
