(* ===== verification/StartStop.thy ===== *)
theory StartStop
  imports Transmit
begin

section \<open>Starting and stopping a pipeline\<close>

text \<open>
  \<^verbatim>\<open>Pipeline::Start\<close> and \<^verbatim>\<open>Pipeline::Stop\<close> of \<^verbatim>\<open>framework/src/unistream_pipeline.cpp\<close>.  A module's
  \<^verbatim>\<open>Open\<close> and \<^verbatim>\<open>Close\<close> are user code: \<open>opens\<close> tells which modules open, and the calls are kept in a
  log.  A worker thread is the node and the conveyor index it was created with; the calls of
  \<^verbatim>\<open>setScheduling\<close> and \<^verbatim>\<open>setThreadName\<close> are kept with the position in \<^verbatim>\<open>threads_\<close> they are made on.
  Joining a worker returns because its loop ends at a stopped connector.
\<close>

datatype 'n ModCall = Opened 'n | OpenFailed 'n | Closed 'n

record 'n Lifecycle =
  lc_pipe :: "'n Pipeline"
  lc_threads :: "('n \<times> nat) list"
  lc_sched :: "(nat \<times> int) list"
  lc_names :: "(nat \<times> string) list"
  lc_calls :: "'n ModCall list"

subsection \<open>Start\<close>

text \<open>The loop that opens the modules: the first failure ends it.\<close>

fun open_loop :: "('n \<Rightarrow> bool) \<Rightarrow> 'n list \<Rightarrow> 'n list \<Rightarrow> bool \<times> 'n list \<times> 'n ModCall list" where
  "open_loop opens [] opened = (False, opened, [])"
| "open_loop opens (v # vs) opened =
     (if \<not> opens v then (True, opened, [OpenFailed v])
      else case open_loop opens vs (opened @ [v]) of
          (failed, os, cs) \<Rightarrow> (failed, os, Opened v # cs))"

fun start_connectors :: "'n list \<Rightarrow> 'n Pipeline \<Rightarrow> 'n Pipeline result" where
  "start_connectors [] p = Inr p"
| "start_connectors (v # vs) p =
     (if parent_nodes_mask (contexts p v) = 0 then start_connectors vs p
      else case ctx_connector (contexts p v) of
          None \<Rightarrow> Inl NullPointer
        | Some c \<Rightarrow> start_connectors vs (upd_ctx v (\<lambda>x. x\<lparr>ctx_connector := Some (Connector_Start c)\<rparr>) p))"

text \<open>The threads of one node; \<open>threads_[conveyor_idx]\<close> is checked against the vector's size.\<close>

fun spawn_node :: "'n \<Rightarrow> UNIModuleConfig \<Rightarrow> nat list \<Rightarrow> 'n Lifecycle \<Rightarrow> 'n Lifecycle result" where
  "spawn_node v cfg [] l = Inr l"
| "spawn_node v cfg (i # is) l =
     (let ts = lc_threads l @ [(v, i)]
      in if i \<ge> length ts then Inl OutOfBounds
         else spawn_node v cfg is
           (l\<lparr>lc_threads := ts,
              lc_sched := (if priority cfg \<ge> 1 \<and> priority cfg \<le> 99 then lc_sched l @ [(i, priority cfg)]
                           else lc_sched l),
              lc_names := lc_names l @ [(i, mod_name cfg)]\<rparr>))"

fun spawn_loop :: "'n list \<Rightarrow> 'n Lifecycle \<Rightarrow> 'n Lifecycle result" where
  "spawn_loop [] l = Inr l"
| "spawn_loop (v # vs) l =
     (let p = lc_pipe l; cfg = gv_config (pipe_graph p) v
      in if parent_nodes_mask (contexts p v) = 0 then spawn_loop vs l
         else case spawn_node v cfg [0..<nat (parallelism cfg)] l of
             Inl e \<Rightarrow> Inl e
           | Inr l' \<Rightarrow> spawn_loop vs l')"

definition Pipeline_Start :: "('n \<Rightarrow> bool) \<Rightarrow> 'n Lifecycle \<Rightarrow> (bool \<times> 'n Lifecycle) result" where
  "Pipeline_Start opens l =
     (if pipe_running (lc_pipe l) then Inr (False, l)
      else case open_loop opens (gv_nodes (pipe_graph (lc_pipe l))) [] of
          (True, opened, cs) \<Rightarrow> Inr (False, l\<lparr>lc_calls := lc_calls l @ cs @ map Closed opened\<rparr>)
        | (False, opened, cs) \<Rightarrow>
            (case EventBus_Start (pipe_bus (lc_pipe l)) of
               Inl e \<Rightarrow> Inl e
             | Inr (_, b) \<Rightarrow>
                 (case start_connectors (gv_nodes (pipe_graph (lc_pipe l)))
                         ((lc_pipe l)\<lparr>pipe_running := True, pipe_bus := b\<rparr>) of
                    Inl e \<Rightarrow> Inl e
                  | Inr p \<Rightarrow> map_sum id (Pair True) (spawn_loop (gv_nodes (pipe_graph p))
                        (l\<lparr>lc_pipe := p, lc_calls := lc_calls l @ cs\<rparr>)))))"

subsection \<open>Stop\<close>

fun stop_connectors :: "'n list \<Rightarrow> 'n Pipeline \<Rightarrow> 'n Pipeline" where
  "stop_connectors [] p = p"
| "stop_connectors (v # vs) p =
     (if parent_nodes_mask (contexts p v) = 0 then stop_connectors vs p
      else case ctx_connector (contexts p v) of
          None \<Rightarrow> stop_connectors vs p
        | Some c \<Rightarrow> stop_connectors vs (upd_ctx v
            (\<lambda>x. x\<lparr>ctx_connector := Some (Connector_EmptyDataQueue (Connector_Stop c))\<rparr>) p))"

definition Pipeline_Stop :: "'n Lifecycle \<Rightarrow> bool \<times> 'n Lifecycle" where
  "Pipeline_Stop l =
     (if \<not> pipe_running (lc_pipe l) then (True, l)
      else let nodes = gv_nodes (pipe_graph (lc_pipe l));
               p1 = (stop_connectors nodes (lc_pipe l))\<lparr>pipe_running := False\<rparr>;
               p2 = p1\<lparr>pipe_bus := EventBus_Stop (pipe_bus p1), frame_done_cb := False\<rparr>
           in (True, l\<lparr>lc_pipe := p2, lc_threads := [], lc_calls := lc_calls l @ map Closed nodes\<rparr>))"

subsection \<open>What the loops do\<close>

lemma open_loop_all:
  "\<forall>v\<in>set vs. opens v \<Longrightarrow> open_loop opens vs os = (False, os @ vs, map Opened vs)"
  by (induction opens vs os rule: open_loop.induct) auto

lemma open_loop_fail:
  "\<forall>v\<in>set vs. opens v \<Longrightarrow> \<not> opens x \<Longrightarrow>
   open_loop opens (vs @ x # ws) os = (True, os @ vs, map Opened vs @ [OpenFailed x])"
  by (induction vs arbitrary: os) auto

definition same_but_stop :: "bool \<Rightarrow> 'n set \<Rightarrow> 'n Pipeline \<Rightarrow> 'n Pipeline \<Rightarrow> bool" where
  "same_but_stop b V p p' \<longleftrightarrow> PipelineBase.more p' = PipelineBase.more p \<and> pipe_graph p' = pipe_graph p \<and>
     (\<forall>v. ctx_module (contexts p' v) = ctx_module (contexts p v) \<and>
          parent_nodes_mask (contexts p' v) = parent_nodes_mask (contexts p v) \<and>
          ctx_connector (contexts p' v) =
            (if v \<in> V \<and> parent_nodes_mask (contexts p v) \<noteq> 0
             then map_option (\<lambda>c. c\<lparr>stop := b\<rparr>) (ctx_connector (contexts p v)) else ctx_connector (contexts p v)))"

lemma start_connectors_ok:
  assumes "\<forall>v\<in>set vs. parent_nodes_mask (contexts p v) \<noteq> 0 \<longrightarrow> ctx_connector (contexts p v) \<noteq> None"
  shows "\<exists>p'. start_connectors vs p = Inr p' \<and> same_but_stop False (set vs) p p'"
  using assms
proof (induction vs arbitrary: p)
  case Nil
  then show ?case by (auto simp: same_but_stop_def)
next
  case (Cons v vs)
  show ?case
  proof (cases "parent_nodes_mask (contexts p v) = 0")
    case True
    with Cons obtain p' where "start_connectors vs p = Inr p'" "same_but_stop False (set vs) p p'" by fastforce
    with True show ?thesis by (auto simp: same_but_stop_def)
  next
    case False
    then obtain c where c: "ctx_connector (contexts p v) = Some c" using Cons.prems by auto
    let ?p = "upd_ctx v (\<lambda>x. x\<lparr>ctx_connector := Some (Connector_Start c)\<rparr>) p"
    have "\<forall>w\<in>set vs. parent_nodes_mask (contexts ?p w) \<noteq> 0 \<longrightarrow> ctx_connector (contexts ?p w) \<noteq> None"
      using Cons.prems by (auto simp: upd_ctx_def)
    from Cons.IH [OF this] obtain p' where p': "start_connectors vs ?p = Inr p'" "same_but_stop False (set vs) ?p p'"
      by blast
    then have "same_but_stop False (set (v # vs)) p p'" using c False
      by (auto simp: same_but_stop_def upd_ctx_def Connector_Start_def)
    with p' c False show ?thesis by simp
  qed
qed

lemma spawn_node_ok:
  assumes "i \<le> length (lc_threads l)"
  shows "\<exists>l'. spawn_node v cfg [i..<i + n] l = Inr l' \<and> lc_pipe l' = lc_pipe l \<and> lc_calls l' = lc_calls l \<and>
     lc_threads l' = lc_threads l @ map (Pair v) [i..<i + n] \<and>
     lc_names l' = lc_names l @ map (\<lambda>k. (k, mod_name cfg)) [i..<i + n]"
  using assms
proof (induction n arbitrary: i l)
  case (Suc n)
  have u: "[i..<i + Suc n] = i # [Suc i..<Suc i + n]" by (simp add: upt_rec)
  show ?case unfolding u spawn_node.simps Let_def
    using Suc.prems Suc.IH [of "Suc i" "l\<lparr>lc_threads := lc_threads l @ [(v, i)],
              lc_sched := (if priority cfg \<ge> 1 \<and> priority cfg \<le> 99 then lc_sched l @ [(i, priority cfg)]
                           else lc_sched l),
              lc_names := lc_names l @ [(i, mod_name cfg)]\<rparr>"]
    by auto
qed simp

definition workers_of :: "'n Pipeline \<Rightarrow> 'n \<Rightarrow> ('n \<times> nat) list" where
  "workers_of p v = (if parent_nodes_mask (contexts p v) = 0 then []
     else map (Pair v) [0..<nat (parallelism (gv_config (pipe_graph p) v))])"

lemma spawn_loop_ok:
  "\<exists>l'. spawn_loop vs l = Inr l' \<and> lc_pipe l' = lc_pipe l \<and> lc_calls l' = lc_calls l \<and>
     lc_threads l' = lc_threads l @ concat (map (workers_of (lc_pipe l)) vs)"
proof (induction vs arbitrary: l)
  case (Cons v vs)
  let ?n = "nat (parallelism (gv_config (pipe_graph (lc_pipe l)) v))"
  from spawn_node_ok [of 0 l v "gv_config (pipe_graph (lc_pipe l)) v" ?n]
  obtain l1 where l1: "spawn_node v (gv_config (pipe_graph (lc_pipe l)) v) [0..<?n] l = Inr l1"
    "lc_pipe l1 = lc_pipe l" "lc_calls l1 = lc_calls l" "lc_threads l1 = lc_threads l @ map (Pair v) [0..<?n]"
    by auto
  obtain l2 where l2: "spawn_loop vs l1 = Inr l2" "lc_pipe l2 = lc_pipe l1" "lc_calls l2 = lc_calls l1"
    "lc_threads l2 = lc_threads l1 @ concat (map (workers_of (lc_pipe l1)) vs)" using Cons.IH [of l1] by blast
  obtain l3 where l3: "spawn_loop vs l = Inr l3" "lc_pipe l3 = lc_pipe l" "lc_calls l3 = lc_calls l"
    "lc_threads l3 = lc_threads l @ concat (map (workers_of (lc_pipe l)) vs)" using Cons.IH [of l] by blast
  have w: "workers_of (lc_pipe l) v = (if parent_nodes_mask (contexts (lc_pipe l) v) = 0 then []
      else map (Pair v) [0..<?n])" by (simp add: workers_of_def)
  show ?case
    by (cases "parent_nodes_mask (contexts (lc_pipe l) v) = 0") (simp_all add: Let_def l1 l2 l3 w)
qed simp

definition stopped_from :: "'n set \<Rightarrow> 'n Pipeline \<Rightarrow> 'n Pipeline \<Rightarrow> bool" where
  "stopped_from V p p' \<longleftrightarrow> PipelineBase.more p' = PipelineBase.more p \<and> pipe_graph p' = pipe_graph p \<and>
     (\<forall>v. parent_nodes_mask (contexts p' v) = parent_nodes_mask (contexts p v) \<and>
          ctx_module (contexts p' v) = ctx_module (contexts p v) \<and>
          (v \<in> V \<and> parent_nodes_mask (contexts p v) \<noteq> 0 \<longrightarrow>
            (\<forall>c. ctx_connector (contexts p' v) = Some c \<longrightarrow> stop c \<and> (\<forall>q\<in>set (conveyors c). dataq q = []))) \<and>
          (v \<notin> V \<longrightarrow> ctx_connector (contexts p' v) = ctx_connector (contexts p v)) \<and>
          (ctx_connector (contexts p v) = None \<longrightarrow> ctx_connector (contexts p' v) = None))"

lemma stop_connectors_ok: "distinct vs \<Longrightarrow> stopped_from (set vs) p (stop_connectors vs p)"
proof (induction vs arbitrary: p)
  case Nil
  then show ?case by (simp add: stopped_from_def)
next
  case (Cons v vs)
  show ?case
  proof (cases "parent_nodes_mask (contexts p v) = 0 \<or> ctx_connector (contexts p v) = None")
    case True
    then have "stop_connectors (v # vs) p = stop_connectors vs p" by auto
    with Cons True show ?thesis by (fastforce simp: stopped_from_def)
  next
    case False
    then obtain c where c: "ctx_connector (contexts p v) = Some c" by auto
    let ?c = "Connector_EmptyDataQueue (Connector_Stop c)"
    let ?p = "upd_ctx v (\<lambda>x. x\<lparr>ctx_connector := Some ?c\<rparr>) p"
    have e: "stop ?c \<and> (\<forall>q\<in>set (conveyors ?c). dataq q = [])"
      using EmptyDataQueue_empties by (auto simp: EmptyDataQueue_eq Connector_Stop_def)
    have "stopped_from (set vs) ?p (stop_connectors vs ?p)" using Cons by simp
    moreover have "v \<notin> set vs" using Cons.prems by simp
    ultimately have s: "stopped_from (set vs) ?p (stop_connectors vs ?p)"
      and cv: "ctx_connector (contexts (stop_connectors vs ?p) v) = Some ?c"
      by (simp_all add: stopped_from_def upd_ctx_def)
    define q p1 where "q = stop_connectors vs ?p" and "p1 = ?p"
    note s = s [folded q_def, folded p1_def] and cv = cv [folded q_def]
    have other: "contexts p1 w = contexts p w" if "w \<noteq> v" for w
      using that by (simp add: upd_ctx_def p1_def)
    have here: "parent_nodes_mask (contexts p1 v) = parent_nodes_mask (contexts p v)"
      "ctx_module (contexts p1 v) = ctx_module (contexts p v)" by (simp_all add: upd_ctx_def p1_def)
    have g: "PipelineBase.more p1 = PipelineBase.more p" "pipe_graph p1 = pipe_graph p"
      by (simp_all add: upd_ctx_def p1_def)
    note at = s [unfolded stopped_from_def, THEN conjunct2, THEN conjunct2, THEN spec]
    have "stopped_from (set (v # vs)) p q"
      unfolding stopped_from_def
    proof (intro conjI allI, goal_cases)
      case (3 w) show ?case using at [of w] here other [of w] by (cases "w = v") simp_all
    next
      case (4 w) show ?case using at [of w] here other [of w] by (cases "w = v") simp_all
    next
      case (5 w) show ?case using at [of w] e cv other [of w] by (cases "w = v") simp_all
    next
      case (6 w) show ?case using at [of w] other [of w] by (cases "w = v") simp_all
    next
      case (7 w) show ?case using at [of w] c other [of w] by (cases "w = v") simp_all
    qed (use s g in \<open>simp_all add: stopped_from_def\<close>)
    then have "stopped_from (set (v # vs)) p (stop_connectors vs ?p)" by (simp add: q_def)
    with c False show ?thesis by simp
  qed
qed

subsection \<open>Properties\<close>

text \<open>
  C12. Starting: if every module opens, \<^verbatim>\<open>Start\<close> opens each module once, in the order of the graph's
  iterator, un-stops the connectors and creates exactly one worker thread for every conveyor of
  every node that has a parent.
\<close>

theorem start_runs_every_conveyor:
  assumes "\<not> pipe_running (lc_pipe l)" and "\<not> bus_joinable (pipe_bus (lc_pipe l))" and "lc_threads l = []"
    and "distinct (gv_nodes (pipe_graph (lc_pipe l)))"
    and "\<forall>v\<in>set (gv_nodes (pipe_graph (lc_pipe l))). opens v"
    and "\<forall>v\<in>set (gv_nodes (pipe_graph (lc_pipe l))). parent_nodes_mask (contexts (lc_pipe l) v) \<noteq> 0 \<longrightarrow>
      (\<exists>c. ctx_connector (contexts (lc_pipe l) v) = Some c \<and>
         Connector_GetConveyorCount c = nat (parallelism (gv_config (pipe_graph (lc_pipe l)) v)))"
  shows "\<exists>l'. Pipeline_Start opens l = Inr (True, l') \<and> pipe_running (lc_pipe l') \<and>
    bus_running (pipe_bus (lc_pipe l')) \<and>
    lc_calls l' = lc_calls l @ map Opened (gv_nodes (pipe_graph (lc_pipe l))) \<and>
    distinct (lc_threads l') \<and>
    set (lc_threads l') = {(v, i). v \<in> set (gv_nodes (pipe_graph (lc_pipe l))) \<and>
       parent_nodes_mask (contexts (lc_pipe l') v) \<noteq> 0 \<and>
       (\<exists>c. ctx_connector (contexts (lc_pipe l') v) = Some c \<and> \<not> stop c \<and> i < Connector_GetConveyorCount c)}"
proof -
  let ?vs = "gv_nodes (pipe_graph (lc_pipe l))"
  obtain b where b: "EventBus_Start (pipe_bus (lc_pipe l)) = Inr (True, b)" "bus_running b"
    using assms(2) by (simp add: EventBus_Start_def)
  let ?p = "(lc_pipe l)\<lparr>pipe_running := True, pipe_bus := b\<rparr>"
  have "\<forall>v\<in>set ?vs. parent_nodes_mask (contexts ?p v) \<noteq> 0 \<longrightarrow> ctx_connector (contexts ?p v) \<noteq> None"
    using assms(6) by fastforce
  from start_connectors_ok [OF this] obtain p1 where p1: "start_connectors ?vs ?p = Inr p1"
    and same: "same_but_stop False (set ?vs) ?p p1" by blast
  have g: "pipe_graph p1 = pipe_graph (lc_pipe l)" and m: "PipelineBase.more p1 = PipelineBase.more ?p"
    and pm: "parent_nodes_mask (contexts p1 v) = parent_nodes_mask (contexts (lc_pipe l) v)" for v
    using same by (simp_all add: same_but_stop_def)
  have run: "pipe_running p1" "pipe_bus p1 = b"
    using m by (cases p1; cases "lc_pipe l"; simp)+
  have cn: "\<exists>c. ctx_connector (contexts p1 v) = Some c \<and> \<not> stop c \<and>
      Connector_GetConveyorCount c = nat (parallelism (gv_config (pipe_graph (lc_pipe l)) v))"
    if vv: "v \<in> set ?vs" "parent_nodes_mask (contexts (lc_pipe l) v) \<noteq> 0" for v
  proof -
    obtain c where c: "ctx_connector (contexts (lc_pipe l) v) = Some c"
      "Connector_GetConveyorCount c = nat (parallelism (gv_config (pipe_graph (lc_pipe l)) v))"
      using assms(6) vv by blast
    have "ctx_connector (contexts p1 v) = Some (c\<lparr>stop := False\<rparr>)"
      using same vv c by (simp add: same_but_stop_def)
    with c show ?thesis by (simp add: Connector_GetConveyorCount_def)
  qed
  let ?l = "l\<lparr>lc_pipe := p1, lc_calls := lc_calls l @ map Opened ?vs\<rparr>"
  obtain l' where l': "spawn_loop ?vs ?l = Inr l'" "lc_pipe l' = p1" "lc_calls l' = lc_calls l @ map Opened ?vs"
    "lc_threads l' = concat (map (workers_of p1) ?vs)"
    using spawn_loop_ok [of ?vs ?l] assms(3) by auto
  have "Pipeline_Start opens l = Inr (True, l')"
    using assms(1) open_loop_all [OF assms(5), of "[]"] b p1 l'(1) by (simp add: Pipeline_Start_def g)
  moreover have "distinct (concat (map (workers_of p1) ws))" if "distinct ws" for ws
    using that by (induction ws) (auto simp: workers_of_def distinct_map inj_on_def)
  moreover have "set (concat (map (workers_of p1) ?vs)) = {(v, i). v \<in> set ?vs \<and>
       parent_nodes_mask (contexts p1 v) \<noteq> 0 \<and>
       (\<exists>c. ctx_connector (contexts p1 v) = Some c \<and> \<not> stop c \<and> i < Connector_GetConveyorCount c)}"
    using cn by (fastforce simp: workers_of_def g pm split: if_splits)
  ultimately show ?thesis using l' run b assms(4) by auto
qed

text \<open>
  C13. A failed start: when a module does not open, exactly the modules opened before it are closed
  again, in the order they were opened, the later ones are not touched and the pipeline is as before.
\<close>

theorem failed_start_closes_opened:
  assumes "\<not> pipe_running (lc_pipe l)" and "gv_nodes (pipe_graph (lc_pipe l)) = vs @ x # ws"
    and "\<forall>v\<in>set vs. opens v" and "\<not> opens x"
  shows "Pipeline_Start opens l =
    Inr (False, l\<lparr>lc_calls := lc_calls l @ map Opened vs @ [OpenFailed x] @ map Closed vs\<rparr>)"
  using assms(1) open_loop_fail [OF assms(3,4), of ws "[]"] by (simp add: Pipeline_Start_def assms(2))


subsection \<open>Witnesses\<close>

definition demo_life :: "bool \<Rightarrow> nat Lifecycle" where
  "demo_life running = \<lparr>lc_pipe = \<lparr>
     pipe_graph = \<lparr>gv_nodes = [0, 1], gv_next = (\<lambda>v. if v = 0 then [1] else []), gv_heads = [0],
       gv_from = (\<lambda>v. if v = 0 then [0, 1] else [v]),
       gv_config = (\<lambda>v. UNIModuleConfig_new\<lparr>parallelism := 2\<rparr>), gv_full_name = (\<lambda>_. ''p/m'')\<rparr>,
     contexts = (\<lambda>v. if v = 1 then NodeContext_new\<lparr>ctx_connector := Some (Connector_new 2 3), parent_nodes_mask := 1\<rparr>
                     else NodeContext_new),
     all_modules_mask = 3, idxManager = IdxManager_new, pipe_running = running,
     pipe_bus = EventBus_new, msgq = \<lparr>tsq_items = []\<rparr>, frame_done_cb = True,
     frames = Map.empty, tables = StreamTables_new, obs = []\<rparr>,
     lc_threads = [], lc_sched = [], lc_names = [], lc_calls = []\<rparr>"

lemma demo_life_conv: "gv_nodes (pipe_graph (lc_pipe (demo_life b))) = [0, 1]"
  "pipe_running (lc_pipe (demo_life b)) = b" "\<not> bus_joinable (pipe_bus (lc_pipe (demo_life b)))"
  "lc_threads (demo_life b) = []" "lc_calls (demo_life b) = []"
  "parent_nodes_mask (contexts (lc_pipe (demo_life b)) v) = (if v = 1 then 1 else 0)"
  "ctx_connector (contexts (lc_pipe (demo_life b)) v) = (if v = 1 then Some (Connector_new 2 3) else None)"
  "parallelism (gv_config (pipe_graph (lc_pipe (demo_life b))) v) = 2"
  by (simp_all add: demo_life_def NodeContext_new_def EventBus_new_def)

theorem start_runs_every_conveyor_witness:
  "\<exists>l'. Pipeline_Start (\<lambda>_. True) (demo_life False) = Inr (True, l') \<and> pipe_running (lc_pipe l') \<and>
     lc_calls l' = [Opened 0, Opened 1] \<and> distinct (lc_threads l')"
  using start_runs_every_conveyor [of "demo_life False" "\<lambda>_. True"]
  by (auto simp: demo_life_conv Connector_GetConveyorCount_def Connector_new_def)

theorem failed_start_closes_opened_witness:
  "Pipeline_Start (\<lambda>v. v = 0) (demo_life False) =
     Inr (False, (demo_life False)\<lparr>lc_calls := [Opened 0, OpenFailed 1, Closed 0]\<rparr>)"
  using failed_start_closes_opened [of "demo_life False" "[0]" 1 "[]" "\<lambda>v. v = 0"] by (simp add: demo_life_conv)


end
