(* ===== verification/Timer.thy ===== *)
theory Timer
  imports Prelude
begin

section \<open>Timers: easydk/src/infer_server/util/timer\<close>

text \<open>
  \<^verbatim>\<open>easydk/src/infer_server/util/timer.cpp\<close> and \<^verbatim>\<open>timer.h\<close>.  One process-wide thread, the
  \<^verbatim>\<open>TimeCounter\<close>, keeps the pending events in a multiset ordered by alarm time; a \<^verbatim>\<open>Timer\<close> holds the
  handle of one event, 0 for none.  Time is a number of milliseconds read from the clock, and a
  handle (the event's address) is a number that no other event has had.  The counter's loop releases its
  lock while it runs a notifier, so firing an event is a step of its own and the end of the notifier
  another.
\<close>

record 'n TimeEvent =
  te_id :: nat
  alarm_time :: nat
  te_d :: nat
  te_loop :: bool
  notifying :: bool
  te_task :: 'n

record 'n TimeCounter =
  tc_events :: "'n TimeEvent list"
  tc_fresh :: nat

definition TimeCounter_new :: "'n TimeCounter" where
  "TimeCounter_new = \<lparr>tc_events = [], tc_fresh = 1\<rparr>"

text \<open>\<^verbatim>\<open>events_.insert(e)\<close>: behind the events with the same alarm time.\<close>

definition te_insert :: "'n TimeEvent \<Rightarrow> 'n TimeEvent list \<Rightarrow> 'n TimeEvent list" where
  "te_insert e es = takeWhile (\<lambda>x. alarm_time x \<le> alarm_time e) es @ e #
     dropWhile (\<lambda>x. alarm_time x \<le> alarm_time e) es"

definition TimeCounter_Add :: "nat \<Rightarrow> u32 \<Rightarrow> 'n \<Rightarrow> bool \<Rightarrow> 'n TimeCounter \<Rightarrow> nat \<times> 'n TimeCounter" where
  "TimeCounter_Add now t_ms task loop tc =
     (let e = \<lparr>te_id = tc_fresh tc, alarm_time = now + unat t_ms, te_d = unat t_ms, te_loop = loop,
               notifying = False, te_task = task\<rparr>
      in (te_id e, tc\<lparr>tc_events := te_insert e (tc_events tc), tc_fresh := Suc (tc_fresh tc)\<rparr>))"

text \<open>\<^verbatim>\<open>Remove\<close> spins while the event is being notified, holding the lock: \<open>None\<close>.\<close>

definition TimeCounter_Remove :: "nat \<Rightarrow> 'n TimeCounter \<Rightarrow> 'n TimeCounter option" where
  "TimeCounter_Remove h tc =
     (case find (\<lambda>e. te_id e = h) (tc_events tc) of
        None \<Rightarrow> Some tc
      | Some e \<Rightarrow> (if notifying e then None
                  else Some (tc\<lparr>tc_events := filter (\<lambda>e. te_id e \<noteq> h) (tc_events tc)\<rparr>)))"

text \<open>One turn of \<^verbatim>\<open>Loop\<close> under the lock: what the thread does next.\<close>

datatype 'n LoopTurn = WaitEvent | WaitUntil nat | Fire "'n TimeEvent"

definition TimeCounter_Loop_iter :: "nat \<Rightarrow> 'n TimeCounter \<Rightarrow> 'n LoopTurn \<times> 'n TimeCounter" where
  "TimeCounter_Loop_iter now tc =
     (case tc_events tc of
        [] \<Rightarrow> (WaitEvent, tc)
      | e # es \<Rightarrow>
          (if now < alarm_time e then (WaitUntil (alarm_time e), tc)
           else if te_loop e then
             (let e' = e\<lparr>alarm_time := alarm_time e + te_d e, notifying := True\<rparr>
              in (Fire e', tc\<lparr>tc_events := te_insert e' es\<rparr>))
           else (Fire (e\<lparr>notifying := True\<rparr>), tc\<lparr>tc_events := es\<rparr>)))"

text \<open>The notifier has returned: the flag is cleared, a one-shot event is deleted.\<close>

definition TimeCounter_notified :: "'n TimeEvent \<Rightarrow> 'n TimeCounter \<Rightarrow> 'n TimeCounter" where
  "TimeCounter_notified e tc =
     tc\<lparr>tc_events := map (\<lambda>x. if te_id x = te_id e then x\<lparr>notifying := False\<rparr> else x) (tc_events tc)\<rparr>"

subsection \<open>A timer\<close>

text \<open>\<^verbatim>\<open>timer_id_\<close> is the state of a \<^verbatim>\<open>Timer\<close>.\<close>

definition Timer_Idle :: "nat \<Rightarrow> bool" where
  "Timer_Idle tid \<longleftrightarrow> tid = 0"

definition Timer_Start ::
  "nat \<Rightarrow> u32 \<Rightarrow> 'n \<Rightarrow> bool \<Rightarrow> nat \<Rightarrow> 'n TimeCounter \<Rightarrow> bool \<times> nat \<times> 'n TimeCounter" where
  "Timer_Start now t_ms task loop tid tc =
     (if Timer_Idle tid then let (h, tc') = TimeCounter_Add now t_ms task loop tc in (True, h, tc')
      else (False, tid, tc))"

definition Timer_Cancel :: "nat \<Rightarrow> 'n TimeCounter \<Rightarrow> (nat \<times> 'n TimeCounter) option" where
  "Timer_Cancel tid tc =
     (if \<not> Timer_Idle tid then map_option (Pair 0) (TimeCounter_Remove tid tc) else Some (tid, tc))"

text \<open>The task of a one-shot timer clears the handle after its notifier.\<close>

definition Timer_task_end :: "bool \<Rightarrow> nat \<Rightarrow> nat" where
  "Timer_task_end loop tid = (if \<not> loop then 0 else tid)"

subsection \<open>The order of events\<close>

definition tc_ok :: "'n TimeCounter \<Rightarrow> bool" where
  "tc_ok tc \<longleftrightarrow> sorted (map alarm_time (tc_events tc)) \<and> distinct (map te_id (tc_events tc)) \<and>
     (\<forall>e\<in>set (tc_events tc). 0 < te_id e \<and> te_id e < tc_fresh tc) \<and> 0 < tc_fresh tc"

lemma set_te_insert [simp]: "set (te_insert e es) = insert e (set es)"
  unfolding te_insert_def
  by (metis (mono_tags, lifting) Un_insert_right list.simps(15) set_append takeWhile_dropWhile_id)

lemma te_insert_perm: "distinct (map te_id (te_insert e es)) \<longleftrightarrow> te_id e \<notin> te_id ` set es \<and> distinct (map te_id es)"
proof -
  let ?P = "\<lambda>x. alarm_time x \<le> alarm_time e"
  have "map te_id es = map te_id (takeWhile ?P es) @ map te_id (dropWhile ?P es)"
    by (simp flip: map_append)
  moreover have "set es = set (takeWhile ?P es) \<union> set (dropWhile ?P es)"
    by (metis set_append takeWhile_dropWhile_id)
  ultimately show ?thesis by (auto simp: te_insert_def)
qed

lemma te_insert_sorted: "sorted (map alarm_time es) \<Longrightarrow> sorted (map alarm_time (te_insert e es))"
proof -
  assume s: "sorted (map alarm_time es)"
  let ?P = "\<lambda>x. alarm_time x \<le> alarm_time e"
  have split: "map alarm_time es = map alarm_time (takeWhile ?P es) @ map alarm_time (dropWhile ?P es)"
    by (simp flip: map_append)
  have s2: "sorted (map alarm_time (takeWhile ?P es) @ map alarm_time (dropWhile ?P es))"
    using s split by (rule back_subst [where P = sorted])
  have low: "\<forall>x\<in>set (takeWhile ?P es). ?P x" by (auto dest: set_takeWhileD)
  have high: "\<forall>x\<in>set (dropWhile ?P es). alarm_time e \<le> alarm_time x"
  proof (cases "dropWhile ?P es")
    case Nil
    show ?thesis unfolding Nil by simp
  next
    case (Cons y ys)
    have "\<not> ?P y" using hd_dropWhile [of ?P es] unfolding Cons by simp
    then have y: "alarm_time e \<le> alarm_time y" by linarith
    have "sorted (map alarm_time (y # ys))" using s2 unfolding Cons sorted_append by (elim conjE)
    then have "alarm_time y \<le> alarm_time x" if "x \<in> set ys" for x using that by simp
    with y have "alarm_time e \<le> alarm_time x" if "x \<in> set (y # ys)" for x
      using that by (metis order.trans set_ConsD)
    then show ?thesis unfolding Cons by (rule ballI)
  qed
  define A B where "A = takeWhile ?P es" and "B = dropWhile ?P es"
  note f = s2 [folded A_def B_def] low [folded A_def] high [folded B_def]
  from f have "sorted (map alarm_time (A @ e # B))" by (auto simp: sorted_append)
  then show ?thesis by (simp add: te_insert_def A_def B_def)
qed

lemma tc_ok_new [simp]: "tc_ok TimeCounter_new"
  by (simp add: tc_ok_def TimeCounter_new_def)

lemma tc_ok_Add: "tc_ok tc \<Longrightarrow> tc_ok (snd (TimeCounter_Add now t task loop tc))"
  by (auto simp: tc_ok_def TimeCounter_Add_def te_insert_perm te_insert_sorted less_Suc_eq Let_def)

lemma tc_ok_Remove: "tc_ok tc \<Longrightarrow> TimeCounter_Remove h tc = Some tc' \<Longrightarrow> tc_ok tc'"
  by (auto simp: tc_ok_def TimeCounter_Remove_def distinct_map_filter sorted_filter split: option.splits if_splits)

lemma map_notified [simp]: "map te_id (map (\<lambda>x. if te_id x = i then x\<lparr>notifying := False\<rparr> else x) es) = map te_id es"
  "map alarm_time (map (\<lambda>x. if te_id x = i then x\<lparr>notifying := False\<rparr> else x) es) = map alarm_time es"
  by (induction es) auto

lemma tc_ok_notified: "tc_ok tc \<Longrightarrow> tc_ok (TimeCounter_notified e tc)"
  unfolding tc_ok_def TimeCounter_notified_def by (auto simp del: map_map)

lemma tc_ok_Loop: "tc_ok tc \<Longrightarrow> tc_ok (snd (TimeCounter_Loop_iter now tc))"
  by (auto simp: tc_ok_def TimeCounter_Loop_iter_def te_insert_perm te_insert_sorted Let_def
      split: list.splits)

text \<open>What fires is due, and nothing that is still pending was due before it.\<close>

lemma Loop_fire:
  assumes "tc_ok tc" and "TimeCounter_Loop_iter now tc = (Fire e, tc')"
  shows "\<exists>e0\<in>set (tc_events tc). te_id e0 = te_id e \<and> te_task e0 = te_task e \<and> alarm_time e0 \<le> now \<and>
    (\<forall>x\<in>set (tc_events tc). alarm_time e0 \<le> alarm_time x) \<and>
    (if te_loop e0 then alarm_time e = alarm_time e0 + te_d e0 \<and> e \<in> set (tc_events tc') else te_id e \<notin> te_id ` set (tc_events tc'))"
  using assms by (fastforce simp: tc_ok_def TimeCounter_Loop_iter_def Let_def split: list.splits if_splits)

text \<open>
  Any sequence of what users and the thread do.  The clock reading of every call is part of it;
  \<open>NotifiedOp\<close> is the end of the notifier of the event fired last.
\<close>

datatype 'n tc_op = AddOp nat u32 'n bool | RemoveOp nat | LoopOp nat | NotifiedOp

fun tc_run :: "'n tc_op list \<Rightarrow> 'n TimeEvent option \<Rightarrow> 'n TimeCounter \<Rightarrow> (nat \<times> 'n TimeEvent) list \<times> 'n TimeCounter" where
  "tc_run [] cur tc = ([], tc)"
| "tc_run (AddOp now t task loop # os) cur tc = tc_run os cur (snd (TimeCounter_Add now t task loop tc))"
| "tc_run (RemoveOp h # os) cur tc =
     (case TimeCounter_Remove h tc of None \<Rightarrow> tc_run os cur tc | Some tc' \<Rightarrow> tc_run os cur tc')"
| "tc_run (LoopOp now # os) cur tc =
     (if cur \<noteq> None then tc_run os cur tc
      else case TimeCounter_Loop_iter now tc of
          (Fire e, tc') \<Rightarrow> (case tc_run os (Some e) tc' of (fs, tc'') \<Rightarrow> ((now, e) # fs, tc''))
        | (_, tc') \<Rightarrow> tc_run os cur tc')"
| "tc_run (NotifiedOp # os) cur tc =
     (case cur of None \<Rightarrow> tc_run os cur tc | Some e \<Rightarrow> tc_run os None (TimeCounter_notified e tc))"

text \<open>
  An event never fires before the delay it was added with is over.  The alarm of a looping event
  moves by its period when it fires, so its firing time is compared with the previous alarm.
\<close>

definition due_alarm :: "'n TimeEvent \<Rightarrow> nat" where
  "due_alarm e = (if te_loop e then alarm_time e - te_d e else alarm_time e)"

lemma Loop_fire_due:
  assumes "TimeCounter_Loop_iter now tc = (Fire e, tc')"
  shows "due_alarm e \<le> now"
  using assms by (auto simp: TimeCounter_Loop_iter_def Let_def due_alarm_def split: list.splits if_splits)

lemma tc_run_due: "(now, e) \<in> set (fst (tc_run os cur tc)) \<Longrightarrow> due_alarm e \<le> now"
proof (induction os cur tc rule: tc_run.induct)
  case (4 n os cur tc)
  then show ?case
    by (fastforce split: if_splits prod.splits LoopTurn.splits dest: Loop_fire_due)
qed (auto split: option.splits)

lemma tc_run_ok: "tc_ok tc \<Longrightarrow> tc_ok (snd (tc_run os cur tc))"
proof (induction os cur tc rule: tc_run.induct)
  case (2 now t task loop os cur tc)
  then show ?case by (simp add: tc_ok_Add)
next
  case (3 h os cur tc)
  then show ?case using tc_ok_Remove by (auto split: option.splits)
next
  case (4 now os cur tc)
  then show ?case using tc_ok_Loop [of tc now] by (auto split: prod.splits LoopTurn.splits)
next
  case (5 os cur tc)
  then show ?case using tc_ok_notified by (auto split: option.splits)
qed simp

subsection \<open>Properties\<close>

text \<open>
  C15. Timers: whatever is added, removed and waited for, every event fires when its alarm time has
  come and not before, a due event is fired before every event with a later alarm, a one-shot event
  is gone when it fires and a looping one is pending again exactly one period later.
\<close>

theorem timer_fires_due_events_in_order:
  shows "(\<forall>(now, e)\<in>set (fst (tc_run os None TimeCounter_new)). due_alarm e \<le> now) \<and>
    (case TimeCounter_Loop_iter now (snd (tc_run os None TimeCounter_new)) of
       (Fire e, tc') \<Rightarrow> (\<forall>x\<in>set (tc_events (snd (tc_run os None TimeCounter_new))). due_alarm e \<le> alarm_time x) \<and>
          (if te_loop e then e \<in> set (tc_events tc') else te_id e \<notin> te_id ` set (tc_events tc'))
     | (WaitUntil t, tc') \<Rightarrow> now < t \<and> (\<forall>x\<in>set (tc_events tc'). t \<le> alarm_time x)
     | (WaitEvent, tc') \<Rightarrow> tc_events tc' = [])"
proof -
  let ?tc = "snd (tc_run os None TimeCounter_new)"
  have ok: "tc_ok ?tc" by (simp add: tc_run_ok)
  have "case TimeCounter_Loop_iter now ?tc of
       (Fire e, tc') \<Rightarrow> (\<forall>x\<in>set (tc_events ?tc). due_alarm e \<le> alarm_time x) \<and>
          (if te_loop e then e \<in> set (tc_events tc') else te_id e \<notin> te_id ` set (tc_events tc'))
     | (WaitUntil t, tc') \<Rightarrow> now < t \<and> (\<forall>x\<in>set (tc_events tc'). t \<le> alarm_time x)
     | (WaitEvent, tc') \<Rightarrow> tc_events tc' = []"
  proof (cases "tc_events ?tc")
    case Nil
    then show ?thesis by (simp add: TimeCounter_Loop_iter_def)
  next
    case (Cons e es)
    with ok have "\<forall>x\<in>set es. alarm_time e \<le> alarm_time x" "te_id e \<notin> te_id ` set es"
      by (auto simp: tc_ok_def)
    with Cons show ?thesis by (auto simp: TimeCounter_Loop_iter_def Let_def due_alarm_def)
  qed
  then show ?thesis using tc_run_due by blast
qed

theorem timer_fires_due_events_in_order_witness:
  "fst (TimeCounter_Loop_iter 15 (snd (tc_run [AddOp 0 20 ''b'' False, AddOp 5 10 ''a'' True] None TimeCounter_new)))
     = Fire \<lparr>te_id = 2, alarm_time = 25, te_d = 10, te_loop = True, notifying = True, te_task = ''a''\<rparr> \<and>
   due_alarm \<lparr>te_id = 2, alarm_time = 25, te_d = 10, te_loop = True, notifying = True, te_task = ''a''\<rparr> \<le> 20"
proof -
  let ?os = "[AddOp 0 20 ''b'' False, AddOp 5 10 ''a'' True]"
  let ?e = "\<lparr>te_id = 2, alarm_time = 25, te_d = 10, te_loop = True, notifying = True, te_task = ''a''\<rparr>"
  have f: "fst (TimeCounter_Loop_iter 15 (snd (tc_run ?os None TimeCounter_new))) = Fire ?e"
    and m: "map alarm_time (tc_events (snd (tc_run ?os None TimeCounter_new))) = [15, 20]" by code_simp+
  have "20 \<in> alarm_time ` set (tc_events (snd (tc_run ?os None TimeCounter_new)))"
    using m by (metis list.set_intros(1,2) list.set_map)
  then obtain x where x: "x \<in> set (tc_events (snd (tc_run ?os None TimeCounter_new)))" "alarm_time x = 20" by auto
  obtain tc' where "TimeCounter_Loop_iter 15 (snd (tc_run ?os None TimeCounter_new)) = (Fire ?e, tc')"
    using f by (metis prod.collapse)
  with timer_fires_due_events_in_order [of ?os 15] x f show ?thesis by fastforce
qed

end
