(* ===== verification/Batcher.thy ===== *)
theory Batcher
  imports Timer
begin

section \<open>Priorities and batching: easydk/src/infer_server\<close>

text \<open>
  \<^verbatim>\<open>core/priority.h\<close> and \<^verbatim>\<open>util/batcher.h\<close>.  A batcher collects items until a batch is full or its
  timer fires, and hands the batch to a notifier.
\<close>

subsection \<open>Priorities\<close>

text \<open>A \<^verbatim>\<open>Priority\<close> is its \<^verbatim>\<open>major_\<close>; the results are shown to stay within 64 signed bits below.\<close>

definition Priority_BaseToMajor :: "int \<Rightarrow> int" where
  "Priority_BaseToMajor base = 10 * (if base < 0 then 0 else if base < 9 then base else 9)"

definition Priority_ShiftMajor :: "int \<Rightarrow> int" where
  "Priority_ShiftMajor m = m * 2 ^ 56"

definition Priority_new :: "int \<Rightarrow> int" where
  "Priority_new base = Priority_ShiftMajor (Priority_BaseToMajor base)"

definition Priority_Get :: "int \<Rightarrow> int \<Rightarrow> int" where
  "Priority_Get major bias = major + bias"

definition Priority_Offset :: "int \<Rightarrow> int \<Rightarrow> int" where
  "Priority_Offset p offset = p + Priority_ShiftMajor offset"

definition Priority_Next :: "int \<Rightarrow> int" where
  "Priority_Next p = Priority_Offset p 1"

lemmas priority_defs = Priority_BaseToMajor_def Priority_ShiftMajor_def Priority_new_def Priority_Get_def
  Priority_Offset_def Priority_Next_def

subsection \<open>The batcher\<close>

record 'a Batcher =
  b_cache :: "'a list"
  b_timeout :: u32
  b_batch_size :: u32
  b_first_item :: bool
  b_timer_id :: nat

definition Batcher_new :: "u32 \<Rightarrow> u32 \<Rightarrow> 'a Batcher result" where
  "Batcher_new timeout batch_size =
     (if batch_size = 0 then Inl LogFatal
      else Inr \<lparr>b_cache = [], b_timeout = timeout, b_batch_size = batch_size, b_first_item = True, b_timer_id = 0\<rparr>)"

text \<open>\<^verbatim>\<open>Notify\<close>: the batch for the notifier, unless the cache is empty.\<close>

definition Batcher_Notify :: "'a Batcher \<Rightarrow> 'a list option \<times> 'a Batcher" where
  "Batcher_Notify b =
     (if b_cache b = [] then (None, b) else (Some (b_cache b), b\<lparr>b_cache := [], b_first_item := True\<rparr>))"

definition Batcher_Emit :: "'a Batcher \<Rightarrow> 'a list option \<times> 'a Batcher" where
  "Batcher_Emit b = Batcher_Notify b"

definition Batcher_Size :: "'a Batcher \<Rightarrow> nat" where
  "Batcher_Size b = length (b_cache b)"

text \<open>\<^verbatim>\<open>AddItem\<close> at clock reading \<open>now\<close>; \<open>None\<close> is the spin of cancelling an event under notification.\<close>

definition Batcher_AddItem ::
  "nat \<Rightarrow> 'a \<Rightarrow> 'a Batcher \<times> unit TimeCounter \<Rightarrow> ('a list option \<times> 'a Batcher \<times> unit TimeCounter) option" where
  "Batcher_AddItem now item st =
     (case st of (b, tc) \<Rightarrow>
        (case (if b_timeout b \<noteq> 0 \<and> b_first_item b
               then (case Timer_Cancel (b_timer_id b) tc of
                       None \<Rightarrow> None
                     | Some (tid, tc1) \<Rightarrow>
                         (case Timer_Start now (b_timeout b) () False tid tc1 of
                            (_, tid', tc2) \<Rightarrow> Some (b\<lparr>b_timer_id := tid', b_first_item := False\<rparr>, tc2)))
               else Some (b, tc)) of
           None \<Rightarrow> None
         | Some (b1, tc') \<Rightarrow>
             (let b2 = b1\<lparr>b_cache := b_cache b1 @ [item]\<rparr>
              in if unat (b_batch_size b2 - 1) < length (b_cache b2)
                 then (case Batcher_Notify b2 of (batch, b3) \<Rightarrow> Some (batch, b3, tc'))
                 else Some (None, b2, tc'))))"

subsection \<open>A batcher and the timer thread\<close>

text \<open>
  \<open>bs_firing\<close> is the event whose notifier the timer thread is running, with whether its \<^verbatim>\<open>Emit\<close> has
  happened: \<^verbatim>\<open>Timer::Start\<close> wraps the notifier so that the handle is cleared after it, outside
  every lock, so the two are separate steps.
\<close>

record 'a BatchSys =
  bs_batcher :: "'a Batcher"
  bs_tc :: "unit TimeCounter"
  bs_firing :: "(unit TimeEvent \<times> bool) option"

datatype 'a batch_op = ItemOp nat 'a | EmitOp | TurnOp nat | NotifierOp | NotifierEndOp

fun batch_step :: "'a batch_op \<Rightarrow> 'a BatchSys \<Rightarrow> 'a list option \<times> 'a BatchSys" where
  "batch_step (ItemOp now x) s =
     (case Batcher_AddItem now x (bs_batcher s, bs_tc s) of
        None \<Rightarrow> (None, s)
      | Some (r, b, tc) \<Rightarrow> (r, s\<lparr>bs_batcher := b, bs_tc := tc\<rparr>))"
| "batch_step EmitOp s = (case Batcher_Emit (bs_batcher s) of (r, b) \<Rightarrow> (r, s\<lparr>bs_batcher := b\<rparr>))"
| "batch_step (TurnOp now) s =
     (if bs_firing s \<noteq> None then (None, s)
      else case TimeCounter_Loop_iter now (bs_tc s) of
          (Fire e, tc) \<Rightarrow> (None, s\<lparr>bs_tc := tc, bs_firing := Some (e, False)\<rparr>)
        | (_, tc) \<Rightarrow> (None, s\<lparr>bs_tc := tc\<rparr>))"
| "batch_step NotifierOp s =
     (case bs_firing s of
        Some (e, False) \<Rightarrow>
          (case Batcher_Emit (bs_batcher s) of (r, b) \<Rightarrow> (r, s\<lparr>bs_batcher := b, bs_firing := Some (e, True)\<rparr>))
      | _ \<Rightarrow> (None, s))"
| "batch_step NotifierEndOp s =
     (case bs_firing s of
        Some (e, True) \<Rightarrow> (None, s\<lparr>
            bs_batcher := (bs_batcher s)\<lparr>b_timer_id := Timer_task_end (te_loop e) (b_timer_id (bs_batcher s))\<rparr>,
            bs_tc := TimeCounter_notified e (bs_tc s), bs_firing := None\<rparr>)
      | _ \<Rightarrow> (None, s))"

fun batch_run :: "'a batch_op list \<Rightarrow> 'a BatchSys \<Rightarrow> 'a list list \<times> 'a BatchSys" where
  "batch_run [] s = ([], s)"
| "batch_run (x # xs) s =
     (case batch_step x s of (r, s1) \<Rightarrow> (case batch_run xs s1 of (rs, s2) \<Rightarrow>
        ((case r of None \<Rightarrow> [] | Some b \<Rightarrow> [b]) @ rs, s2)))"

fun items_of :: "'a batch_op list \<Rightarrow> 'a list" where
  "items_of [] = []"
| "items_of (ItemOp now x # os) = x # items_of os"
| "items_of (_ # os) = items_of os"

subsection \<open>The invariant\<close>

definition batch_inv :: "'a BatchSys \<Rightarrow> bool" where
  "batch_inv s \<longleftrightarrow> (let b = bs_batcher s in
     0 < b_batch_size b \<and> length (b_cache b) < unat (b_batch_size b) \<and>
     (\<forall>e\<in>set (tc_events (bs_tc s)). \<not> notifying e \<and> \<not> te_loop e) \<and>
     (case bs_firing s of None \<Rightarrow> True | Some (e, _) \<Rightarrow> \<not> te_loop e) \<and>
     (b_timeout b \<noteq> 0 \<longrightarrow> (b_first_item b \<longleftrightarrow> b_cache b = []) \<and>
        (b_cache b \<noteq> [] \<longrightarrow> tc_events (bs_tc s) \<noteq> [] \<or> (\<exists>e. bs_firing s = Some (e, False)))))"

lemma Cancel_ok:
  assumes "\<forall>e\<in>set (tc_events tc). \<not> notifying e \<and> \<not> te_loop e"
  shows "\<exists>tc'. Timer_Cancel tid tc = Some (0, tc') \<and> set (tc_events tc') \<subseteq> set (tc_events tc)"
  using assms by (auto simp: Timer_Cancel_def Timer_Idle_def TimeCounter_Remove_def find_Some_iff
      split: option.splits)

lemma unat_pred: "0 < (b :: u32) \<Longrightarrow> unat (b - 1) = unat b - 1"
  by (metis unat_minus_one word_neq_0_conv)

lemma AddItem_cases:
  assumes inv: "batch_inv s"
  obtains b1 tc r b2 where "Batcher_AddItem now x (bs_batcher s, bs_tc s) = Some (r, b2, tc)"
    "b_cache b1 = b_cache (bs_batcher s)" "b_batch_size b1 = b_batch_size (bs_batcher s)"
    "b_timeout b1 = b_timeout (bs_batcher s)"
    "b_timeout b1 \<noteq> 0 \<longrightarrow> \<not> b_first_item b1 \<and>
        (tc_events tc \<noteq> [] \<or> (\<exists>e. bs_firing s = Some (e, False) \<and> tc = bs_tc s))"
    "\<forall>e\<in>set (tc_events tc). \<not> notifying e \<and> \<not> te_loop e"
    "(if unat (b_batch_size b1) \<le> Suc (length (b_cache b1))
      then r = Some (b_cache b1 @ [x]) \<and> b2 = b1\<lparr>b_cache := [], b_first_item := True\<rparr>
      else r = None \<and> b2 = b1\<lparr>b_cache := b_cache b1 @ [x]\<rparr>)"
proof -
  let ?b = "bs_batcher s"
  have ev: "\<forall>e\<in>set (tc_events (bs_tc s)). \<not> notifying e \<and> \<not> te_loop e" and bs: "0 < b_batch_size ?b"
    using inv by (auto simp: batch_inv_def Let_def)
  have lt: "unat (b_batch_size ?b - 1) < Suc n \<longleftrightarrow> unat (b_batch_size ?b) \<le> Suc n" for n
    using unat_pred [OF bs] bs by (simp add: word_less_nat_alt) linarith
  show ?thesis
  proof (cases "b_timeout ?b \<noteq> 0 \<and> b_first_item ?b")
    case True
    obtain tc1 where c: "Timer_Cancel (b_timer_id ?b) (bs_tc s) = Some (0, tc1)"
      "set (tc_events tc1) \<subseteq> set (tc_events (bs_tc s))" using Cancel_ok [OF ev] by blast
    obtain tid tc2 where st: "Timer_Start now (b_timeout ?b) () False 0 tc1 = (True, tid, tc2)"
      and e2: "tc_events tc2 \<noteq> []" "\<forall>e\<in>set (tc_events tc2). \<not> notifying e \<and> \<not> te_loop e"
    proof -
      have "set (tc_events (snd (TimeCounter_Add now (b_timeout ?b) () False tc1))) =
          insert \<lparr>te_id = tc_fresh tc1, alarm_time = now + unat (b_timeout ?b), te_d = unat (b_timeout ?b),
            te_loop = False, notifying = False, te_task = ()\<rparr> (set (tc_events tc1))"
        by (simp add: TimeCounter_Add_def)
      with c ev show ?thesis
        by (intro that [of "fst (TimeCounter_Add now (b_timeout ?b) () False tc1)"
                "snd (TimeCounter_Add now (b_timeout ?b) () False tc1)"])
          (auto simp: Timer_Start_def Timer_Idle_def split: prod.splits)
    qed
    show ?thesis
      by (rule that [of "if unat (b_batch_size ?b) \<le> Suc (length (b_cache ?b)) then Some (b_cache ?b @ [x]) else None"
            "if unat (b_batch_size ?b) \<le> Suc (length (b_cache ?b))
             then ?b\<lparr>b_timer_id := tid, b_first_item := True, b_cache := []\<rparr>
             else ?b\<lparr>b_timer_id := tid, b_first_item := False, b_cache := b_cache ?b @ [x]\<rparr>" tc2
            "?b\<lparr>b_timer_id := tid, b_first_item := False\<rparr>"])
        (use True c st e2 in \<open>simp_all add: Batcher_AddItem_def Batcher_Notify_def Let_def lt\<close>)
  next
    case False
    show ?thesis
      by (rule that [of "if unat (b_batch_size ?b) \<le> Suc (length (b_cache ?b)) then Some (b_cache ?b @ [x]) else None"
            "if unat (b_batch_size ?b) \<le> Suc (length (b_cache ?b))
             then ?b\<lparr>b_cache := [], b_first_item := True\<rparr> else ?b\<lparr>b_cache := b_cache ?b @ [x]\<rparr>" "bs_tc s" ?b])
        (use False inv in \<open>auto simp: Batcher_AddItem_def Batcher_Notify_def Let_def lt batch_inv_def\<close>)
  qed
qed

lemma batch_inv_step:
  assumes inv: "batch_inv s" and st: "batch_step op s = (r, s')"
  shows "batch_inv s' \<and>
    (case r of None \<Rightarrow> [] | Some b \<Rightarrow> b) @ b_cache (bs_batcher s') = b_cache (bs_batcher s) @ items_of [op] \<and>
    (\<forall>b. r = Some b \<longrightarrow> b \<noteq> [] \<and> length b \<le> unat (b_batch_size (bs_batcher s))) \<and>
    b_batch_size (bs_batcher s') = b_batch_size (bs_batcher s) \<and> b_timeout (bs_batcher s') = b_timeout (bs_batcher s)"
proof (cases op)
  case (ItemOp now x)
  from inv have f: "0 < b_batch_size (bs_batcher s)" "length (b_cache (bs_batcher s)) < unat (b_batch_size (bs_batcher s))"
    "case bs_firing s of None \<Rightarrow> True | Some (e, _) \<Rightarrow> \<not> te_loop e" by (auto simp: batch_inv_def Let_def)
  obtain b1 tc r1 b2 where a: "Batcher_AddItem now x (bs_batcher s, bs_tc s) = Some (r1, b2, tc)"
    "b_cache b1 = b_cache (bs_batcher s)" "b_batch_size b1 = b_batch_size (bs_batcher s)"
    "b_timeout b1 = b_timeout (bs_batcher s)"
    "b_timeout b1 \<noteq> 0 \<longrightarrow> \<not> b_first_item b1 \<and>
        (tc_events tc \<noteq> [] \<or> (\<exists>e. bs_firing s = Some (e, False) \<and> tc = bs_tc s))"
    "\<forall>e\<in>set (tc_events tc). \<not> notifying e \<and> \<not> te_loop e"
    "(if unat (b_batch_size b1) \<le> Suc (length (b_cache b1))
      then r1 = Some (b_cache b1 @ [x]) \<and> b2 = b1\<lparr>b_cache := [], b_first_item := True\<rparr>
      else r1 = None \<and> b2 = b1\<lparr>b_cache := b_cache b1 @ [x]\<rparr>)"
    by (rule AddItem_cases [OF inv])
  have s': "r = r1" "s' = s\<lparr>bs_batcher := b2, bs_tc := tc\<rparr>" using st a(1) ItemOp by auto
  show ?thesis
  proof (cases "unat (b_batch_size b1) \<le> Suc (length (b_cache b1))")
    case True
    with a f show ?thesis unfolding s' ItemOp by (simp add: batch_inv_def Let_def)
  next
    case False
    with a f show ?thesis unfolding s' ItemOp by (auto simp: batch_inv_def Let_def)
  qed
next
  case EmitOp
  with inv st show ?thesis
    by (auto simp: Batcher_Emit_def Batcher_Notify_def batch_inv_def Let_def split: if_splits)
next
  case (TurnOp now)
  with inv st show ?thesis
    by (cases "tc_events (bs_tc s)")
      (auto simp: TimeCounter_Loop_iter_def batch_inv_def Let_def split: if_splits)
next
  case NotifierOp
  with inv st show ?thesis
    by (auto simp: Batcher_Emit_def Batcher_Notify_def batch_inv_def Let_def split: option.splits bool.splits if_splits)
next
  case NotifierEndOp
  show ?thesis
  proof (cases "\<exists>e. bs_firing s = Some (e, True)")
    case True
    then obtain e where e: "bs_firing s = Some (e, True)" by blast
    then have s': "r = None" "s' = s\<lparr>
        bs_batcher := (bs_batcher s)\<lparr>b_timer_id := Timer_task_end (te_loop e) (b_timer_id (bs_batcher s))\<rparr>,
        bs_tc := TimeCounter_notified e (bs_tc s), bs_firing := None\<rparr>"
      using st NotifierEndOp by simp_all
    show ?thesis unfolding s' NotifierEndOp
      using inv e by (simp add: TimeCounter_notified_def batch_inv_def Let_def) auto
  next
    case False
    then have "batch_step op s = (None, s)"
      using NotifierEndOp by (auto split: option.splits bool.splits)
    with st inv show ?thesis using NotifierEndOp by (simp add: batch_inv_def Let_def)
  qed
qed

lemma items_of_Cons: "items_of (x # xs) = items_of [x] @ items_of xs"
  by (cases x) auto

lemma batch_run_inv:
  assumes "batch_inv s" and "batch_run ops s = (bs, s')"
  shows "batch_inv s' \<and> concat bs @ b_cache (bs_batcher s') = b_cache (bs_batcher s) @ items_of ops \<and>
    (\<forall>b\<in>set bs. b \<noteq> [] \<and> length b \<le> unat (b_batch_size (bs_batcher s))) \<and>
    b_batch_size (bs_batcher s') = b_batch_size (bs_batcher s) \<and> b_timeout (bs_batcher s') = b_timeout (bs_batcher s)"
  using assms
proof (induction ops arbitrary: s bs)
  case (Cons x xs)
  obtain r s1 where s1: "batch_step x s = (r, s1)" by fastforce
  obtain rs where rs: "batch_run xs s1 = (rs, s')" "bs = (case r of None \<Rightarrow> [] | Some b \<Rightarrow> [b]) @ rs"
    using Cons.prems(2) s1 by (auto split: prod.splits)
  note a = batch_inv_step [OF Cons.prems(1) s1]
  with Cons.IH [of s1 rs] rs show ?case
    unfolding items_of_Cons [of x xs] by (auto split: option.splits)
qed simp

definition BatchSys_new :: "'a Batcher \<Rightarrow> 'a BatchSys" where
  "BatchSys_new b = \<lparr>bs_batcher = b, bs_tc = TimeCounter_new, bs_firing = None\<rparr>"

lemma batch_inv_new: "Batcher_new t n = Inr b \<Longrightarrow> batch_inv (BatchSys_new b)"
  by (auto simp: Batcher_new_def batch_inv_def BatchSys_new_def TimeCounter_new_def unat_gt_0 word_neq_0_conv
      split: if_splits)

subsection \<open>Properties\<close>

text \<open>
  Priorities: every priority the inference server forms stays within 64 signed bits; a package of
  a higher class goes before every stage of a package of a lower class; within a class and at the
  same stage the older request (smaller id) goes first, and a later stage goes before an earlier one.
\<close>

theorem priority_order:
  assumes "0 \<le> a" and "a < 2 ^ 56" and "0 \<le> b" and "b < 2 ^ 56" and "0 \<le> k" and "k \<le> 9" and "0 \<le> j" and "j \<le> 9"
  shows "- (2 ^ 63) \<le> Priority_Offset (Priority_Get (Priority_new p) (- a)) k \<and>
    Priority_Offset (Priority_Get (Priority_new p) (- a)) k < 2 ^ 63 \<and>
    (Priority_BaseToMajor p < Priority_BaseToMajor q \<longrightarrow>
       Priority_Offset (Priority_Get (Priority_new p) (- a)) k <
       Priority_Offset (Priority_Get (Priority_new q) (- b)) j) \<and>
    (a < b \<longrightarrow> Priority_Offset (Priority_Get (Priority_new p) (- b)) k <
       Priority_Offset (Priority_Get (Priority_new p) (- a)) k) \<and>
    (k < j \<longrightarrow> Priority_Offset (Priority_Get (Priority_new p) (- a)) k <
       Priority_Offset (Priority_Get (Priority_new p) (- b)) j)"
  using assms by (auto simp: priority_defs split: if_splits)

theorem priority_order_witness:
  "Priority_Offset (Priority_Get (Priority_new 1) (- 7)) 2 < Priority_Offset (Priority_Get (Priority_new 2) (- 9)) 0"
  using priority_order [of 7 9 2 0 1 2] by (simp add: Priority_BaseToMajor_def)

text \<open>
  C16. A batcher neither loses, repeats nor reorders items: whatever the interleaving of item
  additions, flushes and timer steps, the batches handed to the notifier followed by the items still
  cached are the items added, in order; every batch has at least one and at most the configured
  number of items; and with a timeout an item is never left in the cache without a pending or firing
  timer event.
\<close>

theorem batches_partition_items:
  assumes "Batcher_new timeout batch_size = Inr b" and "batch_run ops (BatchSys_new b) = (bs, s)"
  shows "concat bs @ b_cache (bs_batcher s) = items_of ops \<and>
    (\<forall>batch\<in>set bs. batch \<noteq> [] \<and> length batch \<le> unat batch_size) \<and>
    length (b_cache (bs_batcher s)) < unat batch_size \<and>
    (timeout \<noteq> 0 \<and> b_cache (bs_batcher s) \<noteq> [] \<longrightarrow>
       tc_events (bs_tc s) \<noteq> [] \<or> (\<exists>e. bs_firing s = Some (e, False)))"
proof -
  have b: "b_cache b = []" "b_batch_size b = batch_size" "b_timeout b = timeout"
    using assms(1) by (auto simp: Batcher_new_def split: if_splits)
  from batch_run_inv [OF batch_inv_new [OF assms(1)] assms(2)] b show ?thesis
    by (auto simp: batch_inv_def BatchSys_new_def Let_def)
qed

theorem batches_partition_items_witness:
  "\<exists>b s. Batcher_new 10 2 = Inr b \<and>
     batch_run [ItemOp 0 ''x'', ItemOp 1 ''y'', ItemOp 2 ''z'', TurnOp 13, NotifierOp] (BatchSys_new b) =
       ([[''x'', ''y''], [''z'']], s) \<and> b_cache (bs_batcher s) = []"
proof -
  obtain b :: "string Batcher" where b: "Batcher_new 10 2 = Inr b" by (simp add: Batcher_new_def)
  let ?ops = "[ItemOp 0 ''x'', ItemOp 1 ''y'', ItemOp 2 ''z'', TurnOp 13, NotifierOp]"
  have "case Batcher_new 10 2 of Inr b \<Rightarrow> fst (batch_run ?ops (BatchSys_new b)) = [[''x'', ''y''], [''z'']]
      | Inl _ \<Rightarrow> False" by code_simp
  with b obtain s where s: "batch_run ?ops (BatchSys_new b) = ([[''x'', ''y''], [''z'']], s)"
    by (auto simp: prod_eq_iff)
  from batches_partition_items [OF b s] have "b_cache (bs_batcher s) = []" by simp
  with b s show ?thesis by blast
qed

end
