(* ===== verification/InferRequest.thy ===== *)
theory InferRequest
  imports StdMap
begin

section \<open>Requests of the inference server: RequestControl\<close>

text \<open>
  \<^verbatim>\<open>easydk/src/infer_server/core/request_ctrl.h\<close> and \<^verbatim>\<open>request_ctrl.cpp\<close>.  A request of \<^verbatim>\<open>data_num\<close>
  items counts down as the items are done, keeps the first error, and calls its notifier when the
  last item is done.  The performance figures are floats; nothing but their \<open>+\<close> is used, so
  their type is a parameter.
\<close>

datatype Status = SUCCESS | ERROR_READWRITE | ERROR_MEMORY | INVALID_PARAM | WRONG_TYPE | ERROR_BACKEND
  | NOT_IMPLEMENTED | TIMEOUT | STATUS_COUNT

record ('o, 'f) RequestControl =
  rc_output :: "'o option list"
  rc_perf :: "(string \<times> 'f) list"
  rc_tag :: string
  rc_request_id :: nat
  rc_data_num :: u32
  rc_wait_num :: u32
  rc_status :: Status
  rc_discarded :: bool
  rc_process_finished :: bool

definition RequestControl_new :: "string \<Rightarrow> nat \<Rightarrow> u32 \<Rightarrow> ('o, 'f) RequestControl" where
  "RequestControl_new tag rid data_num =
     \<lparr>rc_output = replicate (unat data_num) None, rc_perf = [], rc_tag = tag, rc_request_id = rid,
      rc_data_num = data_num, rc_wait_num = data_num, rc_status = SUCCESS, rc_discarded = False,
      rc_process_finished = (data_num = 0)\<rparr>"

definition RequestControl_IsSuccess :: "('o, 'f) RequestControl \<Rightarrow> bool" where
  "RequestControl_IsSuccess c \<longleftrightarrow> rc_status c = SUCCESS"

definition RequestControl_Discard :: "('o, 'f) RequestControl \<Rightarrow> ('o, 'f) RequestControl" where
  "RequestControl_Discard c = c\<lparr>rc_discarded := True\<rparr>"

text \<open>The loop over the performance figures.\<close>

fun add_perf :: "(string \<times> 'f::plus) list \<Rightarrow> (string \<times> 'f) list \<Rightarrow> (string \<times> 'f) list" where
  "add_perf [] out = out"
| "add_perf ((k, x) # perf) out =
     add_perf perf (case map_of out k of None \<Rightarrow> smap_put k x out | Some y \<Rightarrow> smap_put k (y + x) out)"

text \<open>\<^verbatim>\<open>ProcessDone\<close>: the boolean tells whether the done notifier is called.\<close>

definition RequestControl_ProcessDone ::
  "Status \<Rightarrow> 'o option \<Rightarrow> u32 \<Rightarrow> (string \<times> 'f::plus) list \<Rightarrow> ('o, 'f) RequestControl \<Rightarrow>
     (bool \<times> ('o, 'f) RequestControl) result" where
  "RequestControl_ProcessDone status output index perf c =
     (if output \<noteq> None \<and> \<not> index < rc_data_num c then Inl LogFatal
      else let c1 = (case output of None \<Rightarrow> c | Some x \<Rightarrow> c\<lparr>rc_output := (rc_output c)[unat index := Some x]\<rparr>);
               c2 = c1\<lparr>rc_perf := add_perf perf (rc_perf c1)\<rparr>;
               c3 = (if status \<noteq> SUCCESS \<and> RequestControl_IsSuccess c2 then c2\<lparr>rc_status := status\<rparr> else c2)
           in if rc_wait_num c3 = 0 then Inl AssertFailed
              else let c4 = c3\<lparr>rc_wait_num := rc_wait_num c3 - 1\<rparr>
                   in if rc_wait_num c4 = 0 then Inr (True, c4\<lparr>rc_process_finished := True\<rparr>)
                      else Inr (False, c4))"

definition RequestControl_ProcessFailed ::
  "Status \<Rightarrow> ('o, 'f::plus) RequestControl \<Rightarrow> (bool \<times> ('o, 'f) RequestControl) result" where
  "RequestControl_ProcessFailed status c = RequestControl_ProcessDone status None 0 [] c"

text \<open>\<^verbatim>\<open>Response\<close>: what the response function is called with.\<close>

definition RequestControl_Response ::
  "('o, 'f) RequestControl \<Rightarrow> Status \<times> string \<times> 'o option list \<times> (string \<times> 'f) list" where
  "RequestControl_Response c = (rc_status c, rc_tag c, rc_output c, rc_perf c)"

subsection \<open>Counting down\<close>

type_synonym ('o, 'f) done_call = "Status \<times> 'o option \<times> u32 \<times> (string \<times> 'f) list"

fun done_run ::
  "('o, 'f::plus) done_call list \<Rightarrow> ('o, 'f) RequestControl \<Rightarrow> (bool list \<times> ('o, 'f) RequestControl) result" where
  "done_run [] c = Inr ([], c)"
| "done_run ((st, out, i, perf) # cs) c =
     (case RequestControl_ProcessDone st out i perf c of
        Inl e \<Rightarrow> Inl e
      | Inr (n, c') \<Rightarrow> (case done_run cs c' of Inl e \<Rightarrow> Inl e | Inr (ns, c'') \<Rightarrow> Inr (n # ns, c'')))"

definition call_ok :: "u32 \<Rightarrow> ('o, 'f) done_call \<Rightarrow> bool" where
  "call_ok n call \<longleftrightarrow> (case call of (_, out, i, _) \<Rightarrow> out \<noteq> None \<longrightarrow> i < n)"

definition first_failure :: "Status list \<Rightarrow> Status" where
  "first_failure ss = (case filter (\<lambda>s. s \<noteq> SUCCESS) ss of [] \<Rightarrow> SUCCESS | s # _ \<Rightarrow> s)"

fun stored :: "('o, 'f) done_call list \<Rightarrow> 'o option list \<Rightarrow> 'o option list" where
  "stored [] out = out"
| "stored ((_, Some x, i, _) # cs) out = stored cs (out[unat i := Some x])"
| "stored ((_, None, _, _) # cs) out = stored cs out"

lemma ProcessDone_ok:
  assumes "call_ok (rc_data_num c) (st, out, i, perf)" and "rc_wait_num c \<noteq> 0"
  shows "\<exists>c'. RequestControl_ProcessDone st out i perf c = Inr (rc_wait_num c = 1, c') \<and>
    rc_wait_num c' = rc_wait_num c - 1 \<and> rc_data_num c' = rc_data_num c \<and>
    rc_process_finished c' = (rc_process_finished c \<or> rc_wait_num c = 1) \<and>
    rc_status c' = (if rc_status c = SUCCESS then st else rc_status c) \<and>
    rc_output c' = stored [(st, out, i, perf)] (rc_output c)"
  using assms
  by (cases out) (auto simp: RequestControl_ProcessDone_def call_ok_def RequestControl_IsSuccess_def Let_def
      right_minus_eq)

lemma done_run_ok:
  assumes "length cs \<le> unat (rc_wait_num c)" and "\<forall>x\<in>set cs. call_ok (rc_data_num c) x"
    and "rc_process_finished c = (rc_wait_num c = 0)"
  shows "\<exists>c'. done_run cs c = Inr (map (\<lambda>k. Suc k = unat (rc_wait_num c)) [0..<length cs], c') \<and>
    rc_process_finished c' = (unat (rc_wait_num c) = length cs) \<and> rc_data_num c' = rc_data_num c \<and>
    unat (rc_wait_num c') = unat (rc_wait_num c) - length cs \<and>
    rc_status c' = (if rc_status c = SUCCESS then first_failure (map fst cs) else rc_status c) \<and>
    rc_output c' = stored cs (rc_output c)"
  using assms
proof (induction cs arbitrary: c)
  case Nil
  then show ?case by (auto simp: first_failure_def unat_eq_0)
next
  case (Cons x cs)
  obtain st out i perf where x: "x = (st, out, i, perf)" by (metis prod_cases4)
  have w: "rc_wait_num c \<noteq> 0" using Cons.prems(1) by (auto simp: unat_eq_0)
  from ProcessDone_ok [of c st out i perf] Cons.prems(2) w x obtain c1 where
    c1: "RequestControl_ProcessDone st out i perf c = Inr (rc_wait_num c = 1, c1)"
      "rc_wait_num c1 = rc_wait_num c - 1" "rc_data_num c1 = rc_data_num c"
      "rc_process_finished c1 = (rc_process_finished c \<or> rc_wait_num c = 1)"
      "rc_status c1 = (if rc_status c = SUCCESS then st else rc_status c)"
      "rc_output c1 = stored [(st, out, i, perf)] (rc_output c)" by auto
  have u: "unat (rc_wait_num c1) = unat (rc_wait_num c) - 1" using w c1(2) by (simp add: unat_minus_one)
  have p: "unat (rc_wait_num c) > 0" using w by (simp add: unat_gt_0)
  have "length cs \<le> unat (rc_wait_num c1)" using Cons.prems(1) u by simp
  moreover have "\<forall>y\<in>set cs. call_ok (rc_data_num c1) y" using Cons.prems(2) c1(3) by simp
  moreover have "rc_process_finished c1 = (rc_wait_num c1 = 0)"
    using c1(2,4) Cons.prems(3) w by (auto simp: right_minus_eq)
  ultimately obtain c' where c': "done_run cs c1 = Inr (map (\<lambda>k. Suc k = unat (rc_wait_num c1)) [0..<length cs], c')"
    "rc_process_finished c' = (unat (rc_wait_num c1) = length cs)" "rc_data_num c' = rc_data_num c1"
    "unat (rc_wait_num c') = unat (rc_wait_num c1) - length cs"
    "rc_status c' = (if rc_status c1 = SUCCESS then first_failure (map fst cs) else rc_status c1)"
    "rc_output c' = stored cs (rc_output c1)"
    using Cons.IH by blast
  have n: "map (\<lambda>k. Suc k = unat (rc_wait_num c)) [0..<length (x # cs)] =
      (rc_wait_num c = 1) # map (\<lambda>k. Suc k = unat (rc_wait_num c1)) [0..<length cs]"
  proof -
    have "[0..<length (x # cs)] = 0 # map Suc [0..<length cs]"
      by (metis length_Cons map_Suc_upt upt_conv_Cons zero_less_Suc)
    moreover have "(Suc 0 = unat (rc_wait_num c)) = (rc_wait_num c = 1)"
      by (metis One_nat_def unat_1 word_unat_eq_iff)
    moreover have "(Suc (Suc k) = unat (rc_wait_num c)) = (Suc k = unat (rc_wait_num c1))" for k
      using u p by linarith
    ultimately show ?thesis by (simp add: comp_def)
  qed
  have "stored (x # cs) (rc_output c) = rc_output c'" using c'(6) c1(6) x by (cases out) simp_all
  moreover have "(unat (rc_wait_num c1) = length cs) = (unat (rc_wait_num c) = length (x # cs))"
    using u p by auto
  ultimately show ?case
    using c1(1,3,5) c'(1-5) x u p unfolding n
    by (auto simp: first_failure_def)
qed

lemma done_run_append:
  "done_run (xs @ ys) c = (case done_run xs c of Inl e \<Rightarrow> Inl e | Inr (ns, c') \<Rightarrow>
     (case done_run ys c' of Inl e \<Rightarrow> Inl e | Inr (ms, c'') \<Rightarrow> Inr (ns @ ms, c'')))"
  by (induction xs c rule: done_run.induct) (auto split: sum.splits prod.splits)

subsection \<open>Properties\<close>

text \<open>
  C17. A request of n items is finished by exactly n calls of \<^verbatim>\<open>ProcessDone\<close>: none of the first n-1
  calls notifies, the n-th does, the status is the first failure reported (or success), the output
  holds what was stored last at each index, and one more call runs into the assertion.
\<close>

theorem request_countdown:
  assumes "length cs = unat n" and "n \<noteq> 0" and "\<forall>x\<in>set cs. call_ok n x"
  shows "\<exists>c'. done_run cs (RequestControl_new tag rid n) =
      Inr (replicate (unat n - 1) False @ [True], c') \<and> rc_process_finished c' \<and>
    rc_status c' = first_failure (map fst cs) \<and> rc_output c' = stored cs (replicate (unat n) None) \<and>
    done_run (cs @ [(st, None, 0, [])]) (RequestControl_new tag rid n) = Inl AssertFailed"
proof -
  let ?c = "RequestControl_new tag rid n"
  have "length cs \<le> unat (rc_wait_num ?c)" "\<forall>x\<in>set cs. call_ok (rc_data_num ?c) x"
    "rc_process_finished ?c = (rc_wait_num ?c = 0)"
    using assms by (simp_all add: RequestControl_new_def)
  from done_run_ok [OF this] assms(1) obtain c' where
    c': "done_run cs ?c = Inr (map (\<lambda>k. Suc k = unat n) [0..<unat n], c')" "rc_process_finished c'"
      "rc_wait_num c' = 0" "rc_status c' = first_failure (map fst cs)" "rc_output c' = stored cs (replicate (unat n) None)"
    by (auto simp: RequestControl_new_def unat_eq_0)
  have p: "unat n > 0" using assms(2) by (simp add: unat_gt_0)
  have "map (\<lambda>k. Suc k = unat n) [0..<unat n] = replicate (unat n - 1) False @ [True]"
  proof -
    obtain m where m: "unat n = Suc m" using p gr0_implies_Suc by blast
    have "map (\<lambda>k. Suc k = Suc m) [0..<m] = replicate m False" by (rule nth_equalityI) auto
    then show ?thesis by (simp add: m)
  qed
  with c' show ?thesis
    by (auto simp: done_run_append RequestControl_ProcessDone_def Let_def)
qed

theorem request_countdown_witness:
  "\<exists>c' :: (string, int) RequestControl.
     done_run [(SUCCESS, Some ''r'', 1, []), (ERROR_BACKEND, None, 0, [])] (RequestControl_new ''t'' 5 2) =
       Inr ([False, True], c') \<and> rc_status c' = ERROR_BACKEND \<and> rc_output c' = [None, Some ''r'']"
proof -
  let ?cs = "[(SUCCESS, Some ''r'', 1, []), (ERROR_BACKEND, None, 0, [])] :: (string, int) done_call list"
  have u: "unat (2 :: u32) = 2" by simp
  have a: "length ?cs = unat (2 :: u32)" "(2 :: u32) \<noteq> 0" "\<forall>x\<in>set ?cs. call_ok 2 x"
    by (simp_all add: u call_ok_def)
  obtain c' where "done_run ?cs (RequestControl_new ''t'' 5 2) = Inr (replicate (2 - 1) False @ [True], c')"
    "rc_status c' = first_failure (map fst ?cs)" "rc_output c' = stored ?cs (replicate 2 None)"
    using request_countdown [OF a, of "''t''" 5, unfolded u] by blast
  then show ?thesis by (intro exI [of _ c']) (simp add: first_failure_def numeral_2_eq_2)
qed

end
