(* ===== verification/InferCache.thy ===== *)
theory InferCache
  imports Batcher
begin

section \<open>The request caches of the inference server\<close>

text \<open>
  \<^verbatim>\<open>easydk/src/infer_server/core/cache.h\<close>.  Packages wait in a cache for the dispatch thread.  The
  static cache splits a request into batches of its own; the dynamic cache batches items across
  requests through a batcher.  When the front package holds an item of a discarded request, \<^verbatim>\<open>Pop\<close>
  first clears all discarded items out of the cache.  A request is its id; \<open>disc\<close> tells which
  requests are discarded.  A package made by \<^verbatim>\<open>new Package\<close> has an indeterminate priority, \<open>None\<close>.
\<close>

record 'd InferData =
  it_ctrl :: "nat option"
  it_index :: nat
  it_data :: 'd

record 'd Package =
  pk_data :: "'d InferData list"
  pk_predict_io :: bool
  pk_priority :: "int option"

record 'd CacheBase =
  cc_packs :: "'d Package list"
  cc_batch_size :: u32
  cc_priority :: int
  cc_running :: bool

definition CacheBase_new :: "u32 \<Rightarrow> int \<Rightarrow> 'd CacheBase" where
  "CacheBase_new batch_size priority =
     \<lparr>cc_packs = [], cc_batch_size = batch_size, cc_priority = priority, cc_running = False\<rparr>"

definition CacheBase_Start :: "('d, 'x) CacheBase_scheme \<Rightarrow> ('d, 'x) CacheBase_scheme" where
  "CacheBase_Start c = c\<lparr>cc_running := True\<rparr>"

definition CacheBase_Stop :: "('d, 'x) CacheBase_scheme \<Rightarrow> ('d, 'x) CacheBase_scheme" where
  "CacheBase_Stop c = c\<lparr>cc_running := False\<rparr>"

text \<open>\<^verbatim>\<open>Push\<close> with the subclass's \<^verbatim>\<open>Enqueue\<close>; \<open>None\<close> is the null pointer.\<close>

definition CacheBase_Push ::
  "('p \<Rightarrow> 'c \<Rightarrow> 'c result) \<Rightarrow> ('c \<Rightarrow> bool) \<Rightarrow> 'p option \<Rightarrow> 'c \<Rightarrow> (bool \<times> 'c) result" where
  "CacheBase_Push enqueue is_running pack c =
     (case pack of
        None \<Rightarrow> Inl LogFatal
      | Some p \<Rightarrow> (if \<not> is_running c then Inr (False, c) else map_sum id (Pair True) (enqueue p c)))"

definition discarded_item :: "(nat \<Rightarrow> bool) \<Rightarrow> 'd InferData \<Rightarrow> bool" where
  "discarded_item disc it = (case it_ctrl it of Some r \<Rightarrow> disc r | None \<Rightarrow> False)"

text \<open>
  \<^verbatim>\<open>Pop\<close> on the list of packages: \<open>None\<close> waits, otherwise the popped package (or the null
  pointer), the requests told \<^verbatim>\<open>ProcessFailed(SUCCESS)\<close>, once per item, and the packages left.
\<close>

definition CacheBase_Pop ::
  "('d Package list \<Rightarrow> (nat list \<times> 'd Package list) result) \<Rightarrow> (nat \<Rightarrow> bool) \<Rightarrow> bool \<Rightarrow> 'd Package list \<Rightarrow>
     ('d Package option \<times> nat list \<times> 'd Package list) option result" where
  "CacheBase_Pop clear disc is_running packs =
     (case packs of
        [] \<Rightarrow> (if is_running then Inr None else Inr (Some (None, [], [])))
      | pack # rest \<Rightarrow>
          (if \<exists>it\<in>set (pk_data pack). discarded_item disc it then
             (case clear packs of
                Inl e \<Rightarrow> Inl e
              | Inr (failed, []) \<Rightarrow> Inr (Some (None, failed, []))
              | Inr (failed, p # ps) \<Rightarrow> Inr (Some (Some p, failed, ps)))
           else Inr (Some (Some pack, [], rest))))"

subsection \<open>The static cache\<close>

definition static_pack :: "int \<Rightarrow> 'd InferData list \<Rightarrow> 'd Package" where
  "static_pack major items = \<lparr>pk_data = items, pk_predict_io = False,
     pk_priority = Some (Priority_Get major (- int (case items of it # _ \<Rightarrow> the (it_ctrl it) | [] \<Rightarrow> 0)))\<rparr>"

text \<open>The loop of \<^verbatim>\<open>CacheStatic::Enqueue\<close>; the second list is the batch being filled.\<close>

fun static_loop :: "u32 \<Rightarrow> int \<Rightarrow> 'd InferData list \<Rightarrow> 'd InferData list \<Rightarrow> 'd Package list result" where
  "static_loop bs major [] cur = Inr []"
| "static_loop bs major (it # its) cur =
     (if it_ctrl it = None then Inl LogFatal
      else let cur' = cur @ [it]
           in if unat (bs - 1) < length cur' \<or> its = []
              then map_sum id (Cons (static_pack major cur')) (static_loop bs major its [])
              else static_loop bs major its cur')"

definition CacheStatic_Enqueue :: "'d Package \<Rightarrow> 'd CacheBase \<Rightarrow> 'd CacheBase result" where
  "CacheStatic_Enqueue p c =
     (if pk_predict_io p then Inr (c\<lparr>cc_packs := cc_packs c @ [p]\<rparr>)
      else map_sum id (\<lambda>ps. c\<lparr>cc_packs := cc_packs c @ ps\<rparr>)
             (static_loop (cc_batch_size c) (cc_priority c) (pk_data p) []))"

fun CacheStatic_ClearDiscard ::
  "(nat \<Rightarrow> bool) \<Rightarrow> 'd Package list \<Rightarrow> (nat list \<times> 'd Package list) result" where
  "CacheStatic_ClearDiscard disc [] = Inr ([], [])"
| "CacheStatic_ClearDiscard disc (p # ps) =
     (case pk_data p of
        [] \<Rightarrow> Inl OutOfBounds
      | it # _ \<Rightarrow>
          (case CacheStatic_ClearDiscard disc ps of
             Inl e \<Rightarrow> Inl e
           | Inr (failed, kept) \<Rightarrow>
               (if \<not> discarded_item disc it then Inr (failed, p # kept)
                else Inr (map (\<lambda>x. the (it_ctrl x)) (pk_data p) @ failed, kept))))"

subsection \<open>The dynamic cache\<close>

record 'd CacheDynamic = "'d CacheBase" +
  cd_batcher :: "'d InferData Batcher"
  cd_tc :: "unit TimeCounter"

text \<open>The batcher's notifier.\<close>

definition CacheDynamic_notify :: "'d InferData list option \<Rightarrow> 'd CacheDynamic \<Rightarrow> 'd CacheDynamic" where
  "CacheDynamic_notify batch c =
     (case batch of None \<Rightarrow> c | Some items \<Rightarrow> c\<lparr>cc_packs := cc_packs c @ [static_pack (cc_priority c) items]\<rparr>)"

definition CacheDynamic_Flush :: "'d CacheDynamic \<Rightarrow> 'd CacheDynamic" where
  "CacheDynamic_Flush c =
     (case Batcher_Emit (cd_batcher c) of (batch, b) \<Rightarrow> CacheDynamic_notify batch (c\<lparr>cd_batcher := b\<rparr>))"

definition CacheDynamic_Stop :: "'d CacheDynamic \<Rightarrow> 'd CacheDynamic" where
  "CacheDynamic_Stop c = CacheDynamic_Flush (CacheBase_Stop c)"

text \<open>\<^verbatim>\<open>Enqueue\<close> of the items of a package, at clock reading \<open>now\<close>; \<open>None\<close> is the batcher's spin.\<close>

fun dynamic_items :: "nat \<Rightarrow> 'd InferData list \<Rightarrow> 'd CacheDynamic \<Rightarrow> 'd CacheDynamic option result" where
  "dynamic_items now [] c = Inr (Some c)"
| "dynamic_items now (it # its) c =
     (if it_ctrl it = None then Inl LogFatal
      else case Batcher_AddItem now it (cd_batcher c, cd_tc c) of
          None \<Rightarrow> Inr None
        | Some (batch, b, tc) \<Rightarrow>
            dynamic_items now its (CacheDynamic_notify batch (c\<lparr>cd_batcher := b, cd_tc := tc\<rparr>)))"

definition CacheDynamic_Enqueue :: "nat \<Rightarrow> 'd Package \<Rightarrow> 'd CacheDynamic \<Rightarrow> 'd CacheDynamic option result" where
  "CacheDynamic_Enqueue now p c = dynamic_items now (pk_data p) c"

text \<open>\<^verbatim>\<open>ClearDiscard\<close>: collect what is not discarded, then batch it again.\<close>

fun rebatch :: "u32 \<Rightarrow> 'd InferData list \<Rightarrow> 'd InferData list \<Rightarrow> 'd Package list" where
  "rebatch bs [] cur = []"
| "rebatch bs (it # its) cur =
     (let cur' = cur @ [it]
      in if length cur' \<ge> unat bs \<or> its = []
         then \<lparr>pk_data = cur', pk_predict_io = False, pk_priority = None\<rparr> # rebatch bs its []
         else rebatch bs its cur')"

definition CacheDynamic_ClearDiscard ::
  "u32 \<Rightarrow> (nat \<Rightarrow> bool) \<Rightarrow> 'd Package list \<Rightarrow> (nat list \<times> 'd Package list) result" where
  "CacheDynamic_ClearDiscard bs disc packs =
     (let items = concat (map pk_data packs)
      in Inr (map (\<lambda>x. the (it_ctrl x)) (filter (discarded_item disc) items),
              rebatch bs (filter (\<lambda>x. \<not> discarded_item disc x) items) []))"

subsection \<open>Clearing: the contract of the two caches\<close>

text \<open>
  What \<^verbatim>\<open>Pop\<close> needs of \<^verbatim>\<open>ClearDiscard\<close>: on well-formed packages it drops exactly the discarded
  items, keeps the order of the others, and reports every dropped item once.
\<close>

locale discard_contract =
  fixes clear :: "(nat \<Rightarrow> bool) \<Rightarrow> 'd Package list \<Rightarrow> (nat list \<times> 'd Package list) result"
    and pack_ok :: "'d Package \<Rightarrow> bool"
  assumes clear_drops: "\<forall>p\<in>set ps. pack_ok p \<Longrightarrow> \<exists>failed qs. clear disc ps = Inr (failed, qs) \<and>
      (\<forall>q\<in>set qs. pk_data q \<noteq> []) \<and>
      concat (map pk_data qs) = filter (\<lambda>x. \<not> discarded_item disc x) (concat (map pk_data ps)) \<and>
      failed = map (\<lambda>x. the (it_ctrl x)) (filter (discarded_item disc) (concat (map pk_data ps)))"
begin

lemma pop_waits: "CacheBase_Pop (clear disc) disc r ps = Inr None \<Longrightarrow> ps = [] \<and> r"
  by (auto simp: CacheBase_Pop_def split: list.splits if_splits sum.splits)

lemma pop_returns_live:
  assumes ok: "\<forall>p\<in>set ps. pack_ok p" and pop: "CacheBase_Pop (clear disc) disc r ps = Inr (Some (p, failed, left))"
  shows "(\<forall>q. p = Some q \<longrightarrow> (\<forall>it\<in>set (pk_data q). \<not> discarded_item disc it)) \<and>
    (p = None \<longrightarrow> left = [] \<and> (\<forall>it\<in>set (concat (map pk_data ps)). discarded_item disc it)) \<and>
    (failed = [] \<longrightarrow> (case p of None \<Rightarrow> [] | Some q \<Rightarrow> pk_data q) @ concat (map pk_data left) =
       concat (map pk_data ps)) \<and>
    (failed \<noteq> [] \<longrightarrow> (case p of None \<Rightarrow> [] | Some q \<Rightarrow> pk_data q) @ concat (map pk_data left) =
       filter (\<lambda>x. \<not> discarded_item disc x) (concat (map pk_data ps)) \<and>
       failed = map (\<lambda>x. the (it_ctrl x)) (filter (discarded_item disc) (concat (map pk_data ps))))"
proof (cases ps)
  case Nil
  with pop show ?thesis by (auto simp: CacheBase_Pop_def split: if_splits)
next
  case (Cons pk rest)
  show ?thesis
  proof (cases "\<exists>it\<in>set (pk_data pk). discarded_item disc it")
    case False
    with pop Cons show ?thesis by (auto simp: CacheBase_Pop_def)
  next
    case True
    obtain fl qs where c: "clear disc ps = Inr (fl, qs)" "\<forall>q\<in>set qs. pk_data q \<noteq> []"
      "concat (map pk_data qs) = filter (\<lambda>x. \<not> discarded_item disc x) (concat (map pk_data ps))"
      "fl = map (\<lambda>x. the (it_ctrl x)) (filter (discarded_item disc) (concat (map pk_data ps)))"
      using clear_drops [OF ok] by blast
    have ne: "fl \<noteq> []" using True Cons by (auto simp: c(4) filter_empty_conv)
    have live: "\<forall>q\<in>set qs. \<forall>it\<in>set (pk_data q). \<not> discarded_item disc it"
    proof (intro ballI)
      fix q it assume "q \<in> set qs" "it \<in> set (pk_data q)"
      then have "it \<in> set (concat (map pk_data qs))" by auto
      then show "\<not> discarded_item disc it" unfolding c(3) by simp
    qed
    show ?thesis
    proof (cases qs)
      case Nil
      then have "p = None" "failed = fl" "left = []" using pop c(1) Cons True by (auto simp: CacheBase_Pop_def)
      moreover have "filter (\<lambda>x. \<not> discarded_item disc x) (concat (map pk_data ps)) = []" using c(3) Nil by simp
      ultimately show ?thesis using ne c(4) by (auto simp: filter_empty_conv)
    next
      case (Cons q qs')
      then have "p = Some q" "failed = fl" "left = qs'"
        using pop c(1) \<open>ps = pk # rest\<close> True by (auto simp: CacheBase_Pop_def)
      then show ?thesis using ne c(3,4) live Cons by simp
    qed
  qed
qed

end

subsection \<open>Both caches meet it\<close>

lemma rebatch_concat: "concat (map pk_data (rebatch bs its cur)) = (if its = [] then [] else cur @ its)"
  by (induction bs its cur rule: rebatch.induct) (auto simp: Let_def)

lemma rebatch_nonempty: "q \<in> set (rebatch bs its cur) \<Longrightarrow> pk_data q \<noteq> [] \<and> pk_priority q = None"
  by (induction bs its cur rule: rebatch.induct) (auto simp: Let_def split: if_splits)

definition static_ok :: "'d Package \<Rightarrow> bool" where
  "static_ok p \<longleftrightarrow> (\<exists>r. pk_data p \<noteq> [] \<and> (\<forall>it\<in>set (pk_data p). it_ctrl it = Some r))"

lemma static_clear:
  "\<forall>p\<in>set ps. static_ok p \<Longrightarrow> \<exists>failed qs. CacheStatic_ClearDiscard disc ps = Inr (failed, qs) \<and>
      (\<forall>q\<in>set qs. pk_data q \<noteq> []) \<and>
      concat (map pk_data qs) = filter (\<lambda>x. \<not> discarded_item disc x) (concat (map pk_data ps)) \<and>
      failed = map (\<lambda>x. the (it_ctrl x)) (filter (discarded_item disc) (concat (map pk_data ps)))"
proof (induction ps)
  case (Cons p ps)
  then obtain failed qs where IH: "CacheStatic_ClearDiscard disc ps = Inr (failed, qs)" "\<forall>q\<in>set qs. pk_data q \<noteq> []"
      "concat (map pk_data qs) = filter (\<lambda>x. \<not> discarded_item disc x) (concat (map pk_data ps))"
      "failed = map (\<lambda>x. the (it_ctrl x)) (filter (discarded_item disc) (concat (map pk_data ps)))"
    by auto
  obtain r it its where p: "pk_data p = it # its" "\<forall>x\<in>set (pk_data p). it_ctrl x = Some r"
    using Cons.prems by (auto simp: static_ok_def neq_Nil_conv)
  then have d: "\<forall>x\<in>set (pk_data p). discarded_item disc x = disc r" by (auto simp: discarded_item_def)
  have f: "filter (discarded_item disc) (pk_data p) = (if disc r then pk_data p else [])"
    "filter (\<lambda>x. \<not> discarded_item disc x) (pk_data p) = (if disc r then [] else pk_data p)"
    using d by (auto simp: filter_id_conv filter_empty_conv)
  have i: "discarded_item disc it = disc r" using d p(1) by simp
  show ?case
  proof (cases "disc r")
    case True
    then show ?thesis using IH p(1) i f by (intro exI [of _ "map (\<lambda>x. the (it_ctrl x)) (pk_data p) @ failed"] exI [of _ qs]) simp
  next
    case False
    then show ?thesis using IH p(1) i f by (intro exI [of _ failed] exI [of _ "p # qs"]) simp
  qed
qed simp

interpretation static: discard_contract CacheStatic_ClearDiscard static_ok
  by unfold_locales (rule static_clear)

interpretation dynamic: discard_contract "CacheDynamic_ClearDiscard bs" "\<lambda>_. True" for bs
proof unfold_locales
  fix ps :: "'a Package list" and disc
  let ?live = "filter (\<lambda>x. \<not> discarded_item disc x) (concat (map pk_data ps))"
  have "CacheDynamic_ClearDiscard bs disc ps = Inr (map (\<lambda>x. the (it_ctrl x))
      (filter (discarded_item disc) (concat (map pk_data ps))), rebatch bs ?live [])"
    by (simp add: CacheDynamic_ClearDiscard_def Let_def)
  moreover have "\<forall>q\<in>set (rebatch bs ?live []). pk_data q \<noteq> []" using rebatch_nonempty by blast
  moreover have "concat (map pk_data (rebatch bs ?live [])) = ?live" by (simp add: rebatch_concat)
  ultimately show "\<exists>failed qs. CacheDynamic_ClearDiscard bs disc ps = Inr (failed, qs) \<and>
      (\<forall>q\<in>set qs. pk_data q \<noteq> []) \<and> concat (map pk_data qs) = ?live \<and>
      failed = map (\<lambda>x. the (it_ctrl x)) (filter (discarded_item disc) (concat (map pk_data ps)))"
    by blast
qed

subsection \<open>Splitting a request\<close>

lemma static_loop_ok:
  assumes "\<forall>it\<in>set its. it_ctrl it = Some r" and "\<forall>it\<in>set cur. it_ctrl it = Some r" and "0 < bs"
    and "length cur < unat bs"
  shows "\<exists>ps. static_loop bs major its cur = Inr ps \<and>
    concat (map pk_data ps) = (if its = [] then [] else cur @ its) \<and>
    (\<forall>p\<in>set ps. static_ok p \<and> length (pk_data p) \<le> unat bs \<and> pk_priority p = Some (Priority_Get major (- int r))) \<and>
    (\<forall>p\<in>set (butlast ps). length (pk_data p) = unat bs)"
  using assms
proof (induction its arbitrary: cur)
  case (Cons it its)
  have lt: "unat (bs - 1) < length (cur @ [it]) \<longleftrightarrow> length (cur @ [it]) = unat bs"
    using unat_pred [OF Cons.prems(3)] Cons.prems(3,4) by (auto simp: word_less_nat_alt)
  have ctrl: "it_ctrl it = Some r" "\<forall>x\<in>set (cur @ [it]). it_ctrl x = Some r" using Cons.prems by auto
  have hd: "\<And>x xs. cur @ [it] = x # xs \<Longrightarrow> it_ctrl x = Some r" using ctrl(2) by (metis list.set_intros(1))
  have pk: "static_ok (static_pack major (cur @ [it]))" "pk_data (static_pack major (cur @ [it])) = cur @ [it]"
    "pk_priority (static_pack major (cur @ [it])) = Some (Priority_Get major (- int r))"
    using ctrl hd by (auto simp: static_ok_def static_pack_def split: list.splits)
  show ?case
  proof (cases "unat (bs - 1) < length (cur @ [it]) \<or> its = []")
    case True
    have "0 < unat bs" using Cons.prems(4) by linarith
    then obtain ps where ps: "static_loop bs major its [] = Inr ps"
      "concat (map pk_data ps) = its"
      "\<forall>p\<in>set ps. static_ok p \<and> length (pk_data p) \<le> unat bs \<and> pk_priority p = Some (Priority_Get major (- int r))"
      "\<forall>p\<in>set (butlast ps). length (pk_data p) = unat bs"
      using Cons.IH [of "[]"] Cons.prems by auto
    have len: "length (cur @ [it]) \<le> unat bs" using Cons.prems(4) by simp
    have full: "ps \<noteq> [] \<longrightarrow> length (cur @ [it]) = unat bs"
    proof
      assume "ps \<noteq> []"
      then obtain q ps' where "ps = q # ps'" by (cases ps) auto
      with ps(3) have "pk_data q \<noteq> []" by (auto simp: static_ok_def)
      with ps(2) \<open>ps = q # ps'\<close> have "its \<noteq> []" by auto
      with True lt show "length (cur @ [it]) = unat bs" by simp
    qed
    have "static_loop bs major (it # its) cur = Inr (static_pack major (cur @ [it]) # ps)"
      using True ps(1) ctrl(1) by (simp add: Let_def)
    with ps pk len full show ?thesis
      by (intro exI [of _ "static_pack major (cur @ [it]) # ps"]) auto
  next
    case False
    then have "length (cur @ [it]) < unat bs" using lt Cons.prems(4) by (auto simp: Suc_le_eq le_less)
    from Cons.IH [OF _ ctrl(2) Cons.prems(3) this] Cons.prems(1) False ctrl show ?thesis by (auto simp: Let_def)
  qed
qed simp

subsection \<open>Properties\<close>

text \<open>
  The static cache splits a request of id r into batches: the new packages hold the request's
  items in order, none is empty or larger than the batch size, all but the last are full, and each
  has the priority of the request.
\<close>

lemma static_enqueue_splits:
  assumes "\<forall>it\<in>set (pk_data p). it_ctrl it = Some r" and "\<not> pk_predict_io p" and "0 < cc_batch_size c"
  shows "\<exists>ps. CacheStatic_Enqueue p c = Inr (c\<lparr>cc_packs := cc_packs c @ ps\<rparr>) \<and>
    concat (map pk_data ps) = pk_data p \<and>
    (\<forall>q\<in>set ps. pk_data q \<noteq> [] \<and> length (pk_data q) \<le> unat (cc_batch_size c) \<and>
       pk_priority q = Some (Priority_Get (cc_priority c) (- int r))) \<and>
    (\<forall>q\<in>set (butlast ps). length (pk_data q) = unat (cc_batch_size c))"
proof -
  have "0 < unat (cc_batch_size c)" using assms(3) by (simp add: word_less_nat_alt)
  with static_loop_ok [of "pk_data p" r "[]" "cc_batch_size c" "cc_priority c"] assms
  show ?thesis by (auto simp: CacheStatic_Enqueue_def static_ok_def)
qed

text \<open>
  Popping never hands out discarded work and never loses other work: in both caches the popped
  package has no item of a discarded request, the popped items and those left are, in order, the
  items that were in the cache, except that when the front package has a discarded item all
  discarded items are dropped and each is reported to its request exactly once.
\<close>

lemma pop_drops_discarded:
  assumes "clear = CacheDynamic_ClearDiscard bs disc \<or>
      (clear = CacheStatic_ClearDiscard disc \<and> (\<forall>p\<in>set packs. static_ok p))"
    and "CacheBase_Pop clear disc running packs = Inr (Some (p, failed, rest))"
  shows "(\<forall>q. p = Some q \<longrightarrow> (\<forall>it\<in>set (pk_data q). \<not> discarded_item disc it)) \<and>
    (failed = [] \<longrightarrow> (case p of None \<Rightarrow> [] | Some q \<Rightarrow> pk_data q) @ concat (map pk_data rest) =
       concat (map pk_data packs)) \<and>
    (failed \<noteq> [] \<longrightarrow> (case p of None \<Rightarrow> [] | Some q \<Rightarrow> pk_data q) @ concat (map pk_data rest) =
       filter (\<lambda>x. \<not> discarded_item disc x) (concat (map pk_data packs)) \<and>
       failed = map (\<lambda>x. the (it_ctrl x)) (filter (discarded_item disc) (concat (map pk_data packs))))"
  using assms(1)
proof
  assume "clear = CacheDynamic_ClearDiscard bs disc"
  with dynamic.pop_returns_live [of packs bs disc running p failed rest] assms(2) show ?thesis by simp
next
  assume "clear = CacheStatic_ClearDiscard disc \<and> (\<forall>p\<in>set packs. static_ok p)"
  with static.pop_returns_live [of packs disc running p failed rest] assms(2) show ?thesis by simp
qed

text \<open>
  Rebatching loses the priority: a package that the dynamic cache hands out after clearing
  discarded items was made without one, whatever the priorities of the requests.
\<close>

theorem rebatched_without_priority:
  assumes "CacheBase_Pop (CacheDynamic_ClearDiscard bs disc) disc running (pk # packs) = Inr (Some (Some q, failed, rest))"
    and "it \<in> set (pk_data pk)" and "discarded_item disc it"
  shows "pk_priority q = None \<and> (\<forall>p\<in>set rest. pk_priority p = None)"
proof -
  let ?qs = "rebatch bs (filter (\<lambda>x. \<not> discarded_item disc x) (concat (map pk_data (pk # packs)))) []"
  have front: "\<exists>x\<in>set (pk_data pk). discarded_item disc x" using assms(2,3) by blast
  have "?qs = q # rest"
    using assms(1) unfolding CacheBase_Pop_def list.case if_P [OF front] CacheDynamic_ClearDiscard_def Let_def
    by (auto split: list.splits)
  then have "q \<in> set ?qs" "set rest \<subseteq> set ?qs" by auto
  then show ?thesis using rebatch_nonempty by blast
qed

subsection \<open>Witnesses\<close>

definition demo_item :: "nat \<Rightarrow> nat \<Rightarrow> unit InferData" where
  "demo_item r i = \<lparr>it_ctrl = Some r, it_index = i, it_data = ()\<rparr>"

definition demo_pack :: "unit Package" where
  "demo_pack = \<lparr>pk_data = [demo_item 4 0, demo_item 4 1, demo_item 4 2], pk_predict_io = False, pk_priority = Some 0\<rparr>"

theorem static_enqueue_splits_witness:
  "\<exists>ps. CacheStatic_Enqueue demo_pack (CacheBase_new 2 0) =
      Inr ((CacheBase_new 2 0)\<lparr>cc_packs := cc_packs (CacheBase_new 2 0) @ ps\<rparr>) \<and>
     concat (map pk_data ps) = [demo_item 4 0, demo_item 4 1, demo_item 4 2]"
proof -
  have "\<forall>it\<in>set (pk_data demo_pack). it_ctrl it = Some 4" "\<not> pk_predict_io demo_pack"
    "0 < cc_batch_size (CacheBase_new 2 0 :: unit CacheBase)"
    by (simp_all add: demo_pack_def demo_item_def CacheBase_new_def)
  from static_enqueue_splits [OF this] show ?thesis by (auto simp: demo_pack_def)
qed

definition demo_front :: "unit Package" where
  "demo_front = \<lparr>pk_data = [demo_item 1 0, demo_item 2 0], pk_predict_io = False, pk_priority = Some (- 1)\<rparr>"

lemma demo_pop:
  "CacheBase_Pop (CacheDynamic_ClearDiscard 2 (\<lambda>r. r = 1)) (\<lambda>r. r = 1) True [demo_front] =
     Inr (Some (Some \<lparr>pk_data = [demo_item 2 0], pk_predict_io = False, pk_priority = None\<rparr>, [1], []))"
  by (simp add: CacheBase_Pop_def CacheDynamic_ClearDiscard_def demo_front_def demo_item_def discarded_item_def)

theorem pop_drops_discarded_witness:
  "\<exists>p. CacheBase_Pop (CacheDynamic_ClearDiscard 2 (\<lambda>r. r = 1)) (\<lambda>r. r = 1) True [demo_front] = Inr (Some (Some p, [1], [])) \<and>
     pk_data p = [demo_item 2 0]"
  using pop_drops_discarded [OF disjI1 [OF refl] demo_pop] demo_pop by (intro exI conjI) (assumption, simp)

theorem rebatched_without_priority_witness:
  "\<exists>p. CacheBase_Pop (CacheDynamic_ClearDiscard 2 (\<lambda>r. r = 1)) (\<lambda>r. r = 1) True [demo_front] = Inr (Some (Some p, [1], [])) \<and>
     pk_priority p = None \<and> pk_priority demo_front = Some (- 1)"
proof -
  have "demo_item 1 0 \<in> set (pk_data demo_front)" "discarded_item (\<lambda>r. r = 1) (demo_item 1 0)"
    "pk_priority demo_front = Some (- 1)"
    by (simp_all add: demo_front_def demo_item_def discarded_item_def)
  with rebatched_without_priority [OF demo_pop, of "demo_item 1 0"] demo_pop show ?thesis by blast
qed

end
