(* ===== verification/InferSession.thy ===== *)
theory InferSession
  imports InferRequest InferCache
begin

section \<open>Sessions: sending requests and answering them in order\<close>

text \<open>
  \<^verbatim>\<open>easydk/src/infer_server/core/session.cpp\<close> and \<^verbatim>\<open>session.h\<close>.  Several threads work on a session:
  senders, the engines that finish items, and at most one responder task in the thread pool.  Each
  stretch of code between two points where another thread can interfere is one step: the critical
  section of \<^verbatim>\<open>Send\<close>, the \<^verbatim>\<open>Upload\<close> after it, the report of one item, the critical section of
  \<^verbatim>\<open>CheckAndResponse\<close>, and the three stretches of the responder's loop.  \<open>ss_uploads\<close> are the sends
  between the first two, \<open>ss_out\<close> the items inside the executor, \<open>ss_checks\<close> the threads about to
  enter \<^verbatim>\<open>CheckAndResponse\<close>, \<open>ss_log\<close> what became of the requests already deleted.  The executor's two
  counters are kept here for the case of one session per executor.  A pointer to a request is the
  request's id, which the session never reuses.
\<close>

datatype Responder = RIdle | RRun nat | RPick | RStore

record ('d, 'f) Session =
  ss_running :: bool
  ss_static :: bool
  ss_batch_size :: nat
  ss_list :: "nat list"
  ss_next :: nat
  ss_in_response :: bool
  ss_ctrls :: "nat \<Rightarrow> ('d InferData, 'f) RequestControl option"
  ss_uploads :: "(nat \<times> 'd InferData list) list"
  ss_out :: "'d InferData list"
  ss_checks :: "nat list"
  ss_responder :: Responder
  ss_log :: "(nat \<times> (Status \<times> string \<times> 'd InferData option list \<times> (string \<times> 'f) list) option) list"
  processing_unit :: u32
  processing_req :: u32

definition Session_new :: "bool \<Rightarrow> nat \<Rightarrow> ('d, 'f) Session" where
  "Session_new static bs =
     \<lparr>ss_running = True, ss_static = static, ss_batch_size = bs, ss_list = [], ss_next = 0, ss_in_response = False,
      ss_ctrls = (\<lambda>_. None), ss_uploads = [], ss_out = [], ss_checks = [], ss_responder = RIdle, ss_log = [],
      processing_unit = 0, processing_req = 0\<rparr>"

subsection \<open>Sending\<close>

text \<open>The loop that tells the items their request and their index.\<close>

definition assign_items :: "nat \<Rightarrow> 'd InferData list \<Rightarrow> 'd InferData list" where
  "assign_items rid its = map2 (\<lambda>i it. it\<lparr>it_ctrl := Some rid, it_index := i\<rparr>) [0..<length its] its"

definition Session_Send :: "string \<Rightarrow> 'd Package \<Rightarrow> ('d, 'f) Session \<Rightarrow> nat option \<times> ('d, 'f) Session" where
  "Session_Send tag pack s =
     (if \<not> ss_running s then (None, s)
      else if pk_predict_io pack \<and> (\<not> ss_static s \<or> length (pk_data pack) > ss_batch_size s) then (None, s)
      else let rid = ss_next s;
               ctrl = RequestControl_new tag rid (of_nat (length (pk_data pack)))
           in (Some rid, s\<lparr>ss_next := Suc rid, ss_ctrls := (ss_ctrls s)(rid \<mapsto> ctrl), ss_list := ss_list s @ [rid],
                ss_uploads := ss_uploads s @ [(rid, assign_items rid (pk_data pack))]\<rparr>))"

definition Executor_Upload :: "nat \<Rightarrow> ('d, 'f) Session \<Rightarrow> ('d, 'f) Session" where
  "Executor_Upload data_num s =
     s\<lparr>processing_unit := processing_unit s + of_nat data_num, processing_req := processing_req s + 1\<rparr>"

text \<open>The part of \<^verbatim>\<open>Send\<close> after the critical section; an empty request is checked at once.\<close>

definition Session_upload :: "nat \<Rightarrow> ('d, 'f) Session \<Rightarrow> ('d, 'f) Session" where
  "Session_upload k s =
     (let (rid, its) = ss_uploads s ! k;
          s1 = Executor_Upload (length its)
                 (s\<lparr>ss_uploads := remove_nth k (ss_uploads s), ss_out := ss_out s @ its\<rparr>)
      in if its = [] then s1\<lparr>ss_checks := ss_checks s1 @ [rid]\<rparr> else s1)"

subsection \<open>Items that are done\<close>

definition item_done ::
  "nat \<Rightarrow> Status \<Rightarrow> 'd option \<Rightarrow> (string \<times> 'f::plus) list \<Rightarrow> ('d, 'f) Session \<Rightarrow> ('d, 'f) Session result" where
  "item_done k st out perf s =
     (let it = ss_out s ! k
      in case it_ctrl it of
           None \<Rightarrow> Inl NullPointer
         | Some rid \<Rightarrow>
             (case ss_ctrls s rid of
                None \<Rightarrow> Inl NullPointer
              | Some c \<Rightarrow>
                  (case (case out of
                           Some d \<Rightarrow> RequestControl_ProcessDone st (Some (it\<lparr>it_data := d\<rparr>)) (of_nat (it_index it)) perf c
                         | None \<Rightarrow> RequestControl_ProcessFailed st c) of
                     Inl e \<Rightarrow> Inl e
                   | Inr (notify, c') \<Rightarrow>
                       Inr (s\<lparr>ss_out := remove_nth k (ss_out s), ss_ctrls := (ss_ctrls s)(rid \<mapsto> c'),
                              ss_checks := (if notify then ss_checks s @ [rid] else ss_checks s)\<rparr>))))"

subsection \<open>Answering\<close>

definition Session_CheckAndResponse :: "nat \<Rightarrow> ('d, 'f) Session \<Rightarrow> ('d, 'f) Session result" where
  "Session_CheckAndResponse caller s =
     (case ss_list s of
        [] \<Rightarrow> Inr s
      | ctrl # rest \<Rightarrow>
          (case ss_ctrls s ctrl of
             None \<Rightarrow> Inl NullPointer
           | Some c \<Rightarrow>
               Inr (if caller \<noteq> ctrl \<and> \<not> rc_process_finished c then s
                    else if ss_in_response s then s
                    else s\<lparr>ss_in_response := True, ss_list := rest, ss_responder := RRun ctrl\<rparr>)))"

definition Executor_ReleaseCount :: "u32 \<Rightarrow> ('d, 'f) Session \<Rightarrow> ('d, 'f) Session" where
  "Executor_ReleaseCount data_num s =
     s\<lparr>processing_unit := processing_unit s - data_num, processing_req := processing_req s - 1\<rparr>"

text \<open>The body of the responder's loop: answer a request, look for the next one, store the flag.\<close>

definition respond_current :: "nat \<Rightarrow> ('d, 'f) Session \<Rightarrow> ('d, 'f) Session result" where
  "respond_current rid s =
     (case ss_ctrls s rid of
        None \<Rightarrow> Inl NullPointer
      | Some c \<Rightarrow>
          Inr (let answer = (if \<not> rc_discarded c then Some (RequestControl_Response c) else None);
                   s1 = Executor_ReleaseCount (rc_data_num c) (s\<lparr>ss_log := ss_log s @ [(rid, answer)]\<rparr>)
               in s1\<lparr>ss_ctrls := (ss_ctrls s1)(rid := None), ss_responder := RPick\<rparr>))"

definition respond_pick :: "('d, 'f) Session \<Rightarrow> ('d, 'f) Session result" where
  "respond_pick s =
     (case ss_list s of
        [] \<Rightarrow> Inr (s\<lparr>ss_in_response := False, ss_responder := RIdle\<rparr>)
      | next_id # rest \<Rightarrow>
          (case ss_ctrls s next_id of
             None \<Rightarrow> Inl NullPointer
           | Some c \<Rightarrow>
               Inr (if rc_process_finished c then s\<lparr>ss_list := rest, ss_responder := RRun next_id\<rparr>
                    else s\<lparr>ss_responder := RStore\<rparr>)))"

definition respond_store :: "('d, 'f) Session \<Rightarrow> ('d, 'f) Session" where
  "respond_store s = s\<lparr>ss_in_response := False, ss_responder := RIdle\<rparr>"

subsection \<open>Discarding and waiting\<close>

definition Session_DiscardTask :: "string \<Rightarrow> ('d, 'f) Session \<Rightarrow> ('d, 'f) Session" where
  "Session_DiscardTask tag s =
     s\<lparr>ss_ctrls := (\<lambda>rid. case ss_ctrls s rid of
         None \<Rightarrow> None
       | Some c \<Rightarrow> Some (if rid \<in> set (ss_list s) \<and> rc_tag c = tag then RequestControl_Discard c else c))\<rparr>"

text \<open>\<^verbatim>\<open>WaitTaskDone\<close>: the request whose response it waits for, and the loop on the response flag.\<close>

definition WaitTaskDone_target :: "string \<Rightarrow> ('d, 'f) Session \<Rightarrow> nat option" where
  "WaitTaskDone_target tag s =
     find (\<lambda>rid. case ss_ctrls s rid of Some c \<Rightarrow> rc_tag c = tag | None \<Rightarrow> False) (rev (ss_list s))"

definition WaitTaskDone_spins :: "('d, 'f) Session \<Rightarrow> bool" where
  "WaitTaskDone_spins s \<longleftrightarrow> ss_in_response s"

text \<open>What the destructor waits for.\<close>

definition Session_all_done :: "('d, 'f) Session \<Rightarrow> bool" where
  "Session_all_done s \<longleftrightarrow> ss_list s = [] \<and> \<not> ss_in_response s"

text \<open>\<^verbatim>\<open>WaitIfCacheFull\<close>: \<open>None\<close> is waiting; \<open>expired\<close> tells whether the timeout has passed.\<close>

definition Executor_idle :: "u32 \<Rightarrow> ('d, 'f) Session \<Rightarrow> bool" where
  "Executor_idle max_num s \<longleftrightarrow> processing_unit s < max_num \<and> processing_req s < max_num"

definition Executor_WaitIfCacheFull :: "u32 \<Rightarrow> int \<Rightarrow> bool \<Rightarrow> ('d, 'f) Session \<Rightarrow> bool option" where
  "Executor_WaitIfCacheFull max_num timeout expired s =
     (if Executor_idle max_num s then Some True else if 0 < timeout \<and> expired then Some False else None)"

subsection \<open>Runs\<close>

text \<open>
  A step that is not possible in a state leaves it unchanged.  An engine reports an item that is in
  the executor, either with its result or with a failure; success without a result is what a cache
  reports for the items of a discarded request.
\<close>

datatype ('d, 'f) sess_op =
    SendOp string "'d Package" | UploadOp nat | DoneOp nat 'd "(string \<times> 'f) list" | FailOp nat Status
  | CheckOp nat | ResponderOp | DiscardOp string

definition drop_allowed :: "nat \<Rightarrow> ('d, 'f) Session \<Rightarrow> bool" where
  "drop_allowed k s = (case it_ctrl (ss_out s ! k) of None \<Rightarrow> False
     | Some rid \<Rightarrow> (case ss_ctrls s rid of None \<Rightarrow> False | Some c \<Rightarrow> rc_discarded c))"

fun sess_step :: "('d, 'f::plus) sess_op \<Rightarrow> ('d, 'f) Session \<Rightarrow> ('d, 'f) Session result" where
  "sess_step (SendOp tag pack) s =
     Inr (if int (length (pk_data pack)) < 2 ^ 32 then snd (Session_Send tag pack s) else s)"
| "sess_step (UploadOp k) s = Inr (if k < length (ss_uploads s) then Session_upload k s else s)"
| "sess_step (DoneOp k d perf) s =
     (if k < length (ss_out s) then item_done k SUCCESS (Some d) perf s else Inr s)"
| "sess_step (FailOp k st) s =
     (if k < length (ss_out s) \<and> (st = SUCCESS \<longrightarrow> drop_allowed k s) then item_done k st None [] s else Inr s)"
| "sess_step (CheckOp k) s =
     (if k < length (ss_checks s)
      then Session_CheckAndResponse (ss_checks s ! k) (s\<lparr>ss_checks := remove_nth k (ss_checks s)\<rparr>) else Inr s)"
| "sess_step ResponderOp s =
     (case ss_responder s of RIdle \<Rightarrow> Inr s | RRun rid \<Rightarrow> respond_current rid s | RPick \<Rightarrow> respond_pick s
      | RStore \<Rightarrow> Inr (respond_store s))"
| "sess_step (DiscardOp tag) s = Inr (Session_DiscardTask tag s)"

abbreviation sess_run :: "('d, 'f::plus) sess_op list \<Rightarrow> ('d, 'f) Session \<Rightarrow> ('d, 'f) Session result" where
  "sess_run \<equiv> foldM sess_step"

subsection \<open>The invariant\<close>

definition current :: "('d, 'f) Session \<Rightarrow> nat list" where
  "current s = (case ss_responder s of RRun rid \<Rightarrow> [rid] | _ \<Rightarrow> [])"

definition pending :: "('d, 'f) Session \<Rightarrow> 'd InferData list" where
  "pending s = ss_out s @ concat (map snd (ss_uploads s))"

definition items_for :: "nat \<Rightarrow> 'd InferData list \<Rightarrow> nat" where
  "items_for rid its = length (filter (\<lambda>it. it_ctrl it = Some rid) its)"

definition ctrl_ok :: "'d InferData list \<Rightarrow> nat \<Rightarrow> ('d InferData, 'f) RequestControl \<Rightarrow> bool" where
  "ctrl_ok its rid c \<longleftrightarrow>
     unat (rc_wait_num c) = items_for rid its \<and>
     rc_process_finished c = (rc_wait_num c = 0) \<and>
     length (rc_output c) = unat (rc_data_num c) \<and>
     (\<forall>it\<in>set its. it_ctrl it = Some rid \<longrightarrow> it_index it < unat (rc_data_num c)) \<and>
     (\<not> rc_discarded c \<and> rc_status c = SUCCESS \<longrightarrow>
       (\<forall>i<unat (rc_data_num c). rc_output c ! i = None \<longrightarrow>
          (\<exists>it\<in>set its. it_ctrl it = Some rid \<and> it_index it = i)))"

definition ctrl_size :: "('d, 'f) Session \<Rightarrow> nat \<Rightarrow> u32" where
  "ctrl_size s rid = (case ss_ctrls s rid of Some c \<Rightarrow> rc_data_num c | None \<Rightarrow> 0)"

definition finished :: "('d, 'f) Session \<Rightarrow> nat \<Rightarrow> bool" where
  "finished s rid = (case ss_ctrls s rid of Some c \<Rightarrow> rc_process_finished c | None \<Rightarrow> True)"

text \<open>An answer that reports success carries the output of every item.\<close>

definition answer_ok :: "(Status \<times> string \<times> 'd InferData option list \<times> (string \<times> 'f) list) option \<Rightarrow> bool" where
  "answer_ok a = (case a of None \<Rightarrow> True | Some (st, tag, out, perf) \<Rightarrow> st = SUCCESS \<longrightarrow> None \<notin> set out)"

definition sess_inv :: "('d, 'f) Session \<Rightarrow> bool" where
  "sess_inv s \<longleftrightarrow>
     map fst (ss_log s) @ current s @ ss_list s = [0..<ss_next s] \<and>
     ss_in_response s = (ss_responder s \<noteq> RIdle) \<and>
     dom (ss_ctrls s) = set (current s @ ss_list s) \<and>
     (\<forall>rid c. ss_ctrls s rid = Some c \<longrightarrow> ctrl_ok (pending s) rid c) \<and>
     (\<forall>it\<in>set (pending s). \<exists>rid. it_ctrl it = Some rid \<and> rid \<in> dom (ss_ctrls s)) \<and>
     (\<forall>rid\<in>set (current s). finished s rid) \<and>
     (\<forall>rid\<in>set (ss_checks s). finished s rid \<and> rid < ss_next s) \<and>
     (\<forall>u\<in>set (ss_uploads s). fst u < ss_next s \<and> (snd u = [] \<longrightarrow> finished s (fst u))) \<and>
     processing_unit s = sum_list (map (ctrl_size s) (current s @ ss_list s)) -
       of_nat (sum_list (map (length \<circ> snd) (ss_uploads s))) \<and>
     processing_req s = of_nat (length (current s @ ss_list s)) - of_nat (length (ss_uploads s)) \<and>
     (\<forall>e\<in>set (ss_log s). answer_ok (snd e))"

subsection \<open>Pending items\<close>

lemma items_for_mset: "items_for rid xs = size (filter_mset (\<lambda>it. it_ctrl it = Some rid) (mset xs))"
  by (simp add: items_for_def flip: mset_filter)

lemma ctrl_ok_perm: "mset xs = mset ys \<Longrightarrow> ctrl_ok xs rid c = ctrl_ok ys rid c"
proof -
  assume m: "mset xs = mset ys"
  have "items_for rid xs = items_for rid ys" unfolding items_for_mset m ..
  moreover have "set xs = set ys" using m by (rule mset_eq_setD)
  ultimately show ?thesis by (simp only: ctrl_ok_def)
qed

lemma items_for_append: "items_for rid (xs @ ys) = items_for rid xs + items_for rid ys"
  by (simp add: items_for_def)

lemma items_for_0: "items_for rid xs = 0 \<longleftrightarrow> (\<forall>it\<in>set xs. it_ctrl it \<noteq> Some rid)"
  by (auto simp: items_for_def filter_empty_conv)

lemma items_for_remove:
  "k < length xs \<Longrightarrow> items_for rid xs = (if it_ctrl (xs ! k) = Some rid then 1 else 0) + items_for rid (remove_nth k xs)"
  by (simp add: items_for_mset remove_nth_split)

lemma assign_items_length [simp]: "length (assign_items rid its) = length its"
  by (simp add: assign_items_def)

lemma assign_items_set:
  "set (assign_items rid its) = (\<lambda>i. (its ! i)\<lparr>it_ctrl := Some rid, it_index := i\<rparr>) ` {..<length its}"
proof -
  have "assign_items rid its ! i = (its ! i)\<lparr>it_ctrl := Some rid, it_index := i\<rparr>" if "i < length its" for i
    using that by (simp add: assign_items_def)
  then have "set (assign_items rid its) = {(its ! i)\<lparr>it_ctrl := Some rid, it_index := i\<rparr> | i. i < length its}"
    by (simp add: set_conv_nth) (metis (no_types, lifting))
  then show ?thesis by auto
qed

lemma assign_items_for: "items_for rid' (assign_items rid its) = (if rid' = rid then length its else 0)"
proof (cases "rid' = rid")
  case True
  have "filter (\<lambda>it. it_ctrl it = Some rid) (assign_items rid its) = assign_items rid its"
    by (rule filter_True) (auto simp: assign_items_set)
  with True show ?thesis by (simp add: items_for_def)
next
  case False
  then show ?thesis by (auto simp: items_for_0 assign_items_set)
qed

subsection \<open>Every step keeps the invariant\<close>

lemma sess_inv_new: "sess_inv (Session_new static bs)"
  by (simp add: sess_inv_def Session_new_def current_def pending_def)

lemma sess_invD:
  assumes "sess_inv s"
  shows order: "map fst (ss_log s) @ current s @ ss_list s = [0..<ss_next s]"
    and flag: "ss_in_response s = (ss_responder s \<noteq> RIdle)"
    and live: "dom (ss_ctrls s) = set (current s @ ss_list s)"
    and ctrls: "\<And>rid c. ss_ctrls s rid = Some c \<Longrightarrow> ctrl_ok (pending s) rid c"
    and owned: "\<And>it. it \<in> set (pending s) \<Longrightarrow> \<exists>rid. it_ctrl it = Some rid \<and> rid \<in> dom (ss_ctrls s)"
    and cur_fin: "\<And>rid. rid \<in> set (current s) \<Longrightarrow> finished s rid"
    and chk_fin: "\<And>rid. rid \<in> set (ss_checks s) \<Longrightarrow> finished s rid \<and> rid < ss_next s"
    and ups: "\<And>u. u \<in> set (ss_uploads s) \<Longrightarrow> fst u < ss_next s \<and> (snd u = [] \<longrightarrow> finished s (fst u))"
    and units: "processing_unit s = sum_list (map (ctrl_size s) (current s @ ss_list s)) -
       of_nat (sum_list (map (length \<circ> snd) (ss_uploads s)))"
    and reqs: "processing_req s = of_nat (length (current s @ ss_list s)) - of_nat (length (ss_uploads s))"
    and answers: "\<And>e. e \<in> set (ss_log s) \<Longrightarrow> answer_ok (snd e)"
  using assms unfolding sess_inv_def by blast+

lemma live_lt:
  assumes "sess_inv s" and "rid \<in> dom (ss_ctrls s)"
  shows "rid < ss_next s"
proof -
  have "rid \<in> set [0..<ss_next s]" using assms live [OF assms(1)] order [OF assms(1)] by (metis Un_iff set_append)
  then show ?thesis by simp
qed

lemma fresh_ctrl: "sess_inv s \<Longrightarrow> ss_ctrls s (ss_next s) = None"
  using live_lt by fastforce

lemma sess_inv_upload:
  assumes inv: "sess_inv s" and k: "k < length (ss_uploads s)"
  shows "sess_inv (Session_upload k s)"
proof -
  obtain rid its where u: "ss_uploads s ! k = (rid, its)" by (cases "ss_uploads s ! k")
  define t where "t = Session_upload k s"
  have same: "ss_log t = ss_log s" "ss_responder t = ss_responder s" "ss_list t = ss_list s" "ss_next t = ss_next s"
    "ss_in_response t = ss_in_response s" "ss_ctrls t = ss_ctrls s"
    by (simp_all add: t_def Session_upload_def u Executor_Upload_def Let_def)
  have chg: "ss_uploads t = remove_nth k (ss_uploads s)" "ss_out t = ss_out s @ its"
    "ss_checks t = (if its = [] then ss_checks s @ [rid] else ss_checks s)"
    "processing_unit t = processing_unit s + of_nat (length its)" "processing_req t = processing_req s + 1"
    by (simp_all add: t_def Session_upload_def u Executor_Upload_def Let_def)
  have cur: "current t = current s" "finished t = finished s" "ctrl_size t = ctrl_size s"
    by (simp_all add: current_def same finished_def [abs_def] ctrl_size_def [abs_def])
  have "mset (pending t) = mset (pending s)"
    using arg_cong [OF remove_nth_split [OF k], of "\<lambda>m. sum_mset (image_mset (mset \<circ> snd) m)"]
    by (simp add: pending_def chg u mset_concat flip: sum_mset_sum_list mset_map)
  then have perm: "ctrl_ok (pending t) r c = ctrl_ok (pending s) r c" "set (pending t) = set (pending s)" for r c
    by (rule ctrl_ok_perm, rule mset_eq_setD)
  have mem: "(rid, its) \<in> set (ss_uploads s)" using k u by (metis nth_mem)
  have sub: "set (ss_uploads t) \<subseteq> set (ss_uploads s)" using set_remove_nth [OF k] chg(1) by auto
  have "sess_inv t"
    unfolding sess_inv_def same cur perm chg
    using sess_invD [OF inv] mem sub u k
    by (auto simp: chg sum_remove_nth [OF k] length_remove_nth [OF k])
  then show ?thesis by (simp add: t_def)
qed


lemma sess_inv_send:
  assumes inv: "sess_inv s" and n: "int (length (pk_data pack)) < 2 ^ 32"
  shows "sess_inv (snd (Session_Send tag pack s))"
proof (cases "ss_running s \<and> \<not> (pk_predict_io pack \<and> (\<not> ss_static s \<or> length (pk_data pack) > ss_batch_size s))")
  case False
  then show ?thesis using inv by (auto simp: Session_Send_def)
next
  case True
  define r where "r = ss_next s"
  define its where "its = assign_items r (pk_data pack)"
  define c where "c = (RequestControl_new tag r (of_nat (length (pk_data pack))) :: ('a InferData, 'b) RequestControl)"
  define t where "t = s\<lparr>ss_next := Suc r, ss_ctrls := (ss_ctrls s)(r \<mapsto> c), ss_list := ss_list s @ [r],
      ss_uploads := ss_uploads s @ [(r, its)]\<rparr>"
  have eq: "snd (Session_Send tag pack s) = t"
    using True by (auto simp: Session_Send_def Let_def t_def r_def its_def c_def)
  have t: "ss_next t = Suc r" "ss_ctrls t = (ss_ctrls s)(r \<mapsto> c)" "ss_list t = ss_list s @ [r]"
    "ss_uploads t = ss_uploads s @ [(r, its)]" "ss_log t = ss_log s" "current t = current s"
    "ss_in_response t = ss_in_response s" "ss_responder t = ss_responder s" "pending t = pending s @ its"
    "ss_checks t = ss_checks s" "processing_unit t = processing_unit s" "processing_req t = processing_req s"
    by (simp_all add: t_def current_def pending_def)
  have len: "length its = length (pk_data pack)" "unat (of_nat (length (pk_data pack)) :: u32) = length (pk_data pack)"
    using n by (simp_all add: its_def unat_of_nat)
  have old: "x \<in> dom (ss_ctrls s) \<Longrightarrow> x \<noteq> r" "x \<in> set (current s @ ss_list s) \<Longrightarrow> x \<noteq> r" for x
    using live_lt [OF inv] live [OF inv] by (auto simp: r_def)
  have fin: "finished t x = finished s x" if "x \<noteq> r" for x using that by (simp add: finished_def t)
  have fr: "finished t r = (pk_data pack = [])"
    using len by (auto simp: finished_def t c_def RequestControl_new_def unat_eq_0 [symmetric])
  have none: "items_for r (pending s) = 0"
    using owned [OF inv] old(1) by (fastforce simp: items_for_0)
  have its_r: "\<forall>it\<in>set its. it_ctrl it = Some r \<and> it_index it < length (pk_data pack)"
    "\<forall>i<length (pk_data pack). \<exists>it\<in>set its. it_ctrl it = Some r \<and> it_index it = i"
    by (auto simp: its_def assign_items_set)
  have new: "ctrl_ok (pending t) r c"
    unfolding ctrl_ok_def t items_for_append none
    using its_r len none
    by (auto simp: c_def RequestControl_new_def its_def assign_items_for items_for_0; blast)
  have ctrl: "ctrl_ok (pending t) x d" if x: "x \<noteq> r" and d: "ss_ctrls s x = Some d" for x d
    using ctrls [OF inv d] x its_r(1)
    unfolding ctrl_ok_def t items_for_append by (auto simp: its_def assign_items_for)
  have size: "map (ctrl_size t) (current s @ ss_list s) = map (ctrl_size s) (current s @ ss_list s)"
    using old(2) by (auto simp: ctrl_size_def t)
  have sz_r: "ctrl_size t r = of_nat (length (pk_data pack))"
    by (simp add: ctrl_size_def t c_def RequestControl_new_def)
  have "sess_inv t"
    unfolding sess_inv_def
  proof (intro conjI)
    show "map fst (ss_log t) @ current t @ ss_list t = [0..<ss_next t]"
      using order [OF inv] by (simp add: t r_def flip: append_assoc)
    show "ss_in_response t = (ss_responder t \<noteq> RIdle)" using flag [OF inv] by (simp add: t)
    show "dom (ss_ctrls t) = set (current t @ ss_list t)" using live [OF inv] by (auto simp: t)
    show "\<forall>rid c. ss_ctrls t rid = Some c \<longrightarrow> ctrl_ok (pending t) rid c"
      using new ctrl by (auto simp: t(2))
    show "\<forall>it\<in>set (pending t). \<exists>rid. it_ctrl it = Some rid \<and> rid \<in> dom (ss_ctrls t)"
      using owned [OF inv] its_r by (fastforce simp: t)
    show "\<forall>rid\<in>set (current t). finished t rid" using cur_fin [OF inv] old(2) fin by (auto simp: t)
    show "\<forall>rid\<in>set (ss_checks t). finished t rid \<and> rid < ss_next t"
      using chk_fin [OF inv] fin by (fastforce simp: t r_def)
    show "\<forall>u\<in>set (ss_uploads t). fst u < ss_next t \<and> (snd u = [] \<longrightarrow> finished t (fst u))"
      using ups [OF inv] fin fr len(1) by (fastforce simp: t r_def)
    show "processing_unit t = sum_list (map (ctrl_size t) (current t @ ss_list t)) -
       of_nat (sum_list (map (length \<circ> snd) (ss_uploads t)))"
      using units [OF inv] arg_cong [OF size, of sum_list] sz_r len(1) by (simp add: t)
    show "processing_req t = of_nat (length (current t @ ss_list t)) - of_nat (length (ss_uploads t))"
      using reqs [OF inv] by (simp add: t)
    show "\<forall>e\<in>set (ss_log t). answer_ok (snd e)" using answers [OF inv] by (simp add: t)
  qed
  then show ?thesis by (simp add: eq)
qed

lemma ProcessDone_discarded:
  "RequestControl_ProcessDone st out i perf c = Inr (n, c') \<Longrightarrow> rc_discarded c' = rc_discarded c \<and> rc_tag c' = rc_tag c"
  by (auto simp: RequestControl_ProcessDone_def Let_def split: if_splits option.splits)

text \<open>One report keeps a request's part of the invariant.\<close>

lemma ctrl_ok_done:
  assumes ok: "ctrl_ok its rid c" and k: "k < length its" and it: "its ! k = it" "it_ctrl it = Some rid"
    and call: "(out, i) = (None, 0) \<or> (out \<noteq> None \<and> i = of_nat (it_index it))"
    and drop: "out = None \<and> st = SUCCESS \<Longrightarrow> rc_discarded c"
  shows "\<exists>c'. RequestControl_ProcessDone st out i perf c = Inr (rc_process_finished c', c') \<and>
    ctrl_ok (remove_nth k its) rid c' \<and> rc_data_num c' = rc_data_num c \<and> \<not> rc_process_finished c"
proof -
  have cnt: "unat (rc_wait_num c) = Suc (items_for rid (remove_nth k its))"
    using ok items_for_remove [OF k] it by (simp add: ctrl_ok_def)
  then have w: "rc_wait_num c \<noteq> 0" by auto
  have mem: "it \<in> set its" using k it(1) by auto
  have lt: "it_index it < unat (rc_data_num c)" using ok mem it(2) by (auto simp: ctrl_ok_def)
  moreover have "unat (rc_data_num c) < 2 ^ 32" using unsigned_less [of "rc_data_num c"] by simp
  ultimately have idx: "unat (of_nat (it_index it) :: u32) = it_index it" "it_index it < unat (rc_data_num c)"
    by (simp_all add: unat_of_nat)
  have "call_ok (rc_data_num c) (st, out, i, perf)"
    using call idx by (auto simp: call_ok_def word_less_nat_alt)
  from ProcessDone_ok [OF this w] obtain c' where
    c': "RequestControl_ProcessDone st out i perf c = Inr (rc_wait_num c = 1, c')"
      "rc_wait_num c' = rc_wait_num c - 1" "rc_data_num c' = rc_data_num c"
      "rc_process_finished c' = (rc_process_finished c \<or> rc_wait_num c = 1)"
      "rc_status c' = (if rc_status c = SUCCESS then st else rc_status c)"
      "rc_output c' = stored [(st, out, i, perf)] (rc_output c)" by auto
  have nf: "\<not> rc_process_finished c" using ok w by (simp add: ctrl_ok_def)
  have disc: "rc_discarded c' = rc_discarded c" using ProcessDone_discarded [OF c'(1)] by simp
  have sub: "set (remove_nth k its) \<subseteq> set its" using set_remove_nth [OF k] by auto
  have "unat (rc_wait_num c') = items_for rid (remove_nth k its)" using cnt w c'(2) by (simp add: unat_minus_one)
  moreover have "rc_process_finished c' = (rc_wait_num c' = 0)" using nf c'(2,4) by (auto simp: right_minus_eq)
  moreover have "length (rc_output c') = unat (rc_data_num c')" using ok c'(3,6) by (cases out) (auto simp: ctrl_ok_def)
  moreover have "\<forall>x\<in>set (remove_nth k its). it_ctrl x = Some rid \<longrightarrow> it_index x < unat (rc_data_num c')"
    using ok sub c'(3) by (auto simp: ctrl_ok_def)
  moreover have "\<exists>x\<in>set (remove_nth k its). it_ctrl x = Some rid \<and> it_index x = j"
    if nd: "\<not> rc_discarded c'" "rc_status c' = SUCCESS" and j: "j < unat (rc_data_num c')" "rc_output c' ! j = None" for j
  proof -
    have st: "rc_status c = SUCCESS" "st = SUCCESS" using nd(2) c'(5) by (auto split: if_splits)
    then obtain x where x: "out = Some x" "i = of_nat (it_index it)" using drop nd(1) disc call by auto
    have out: "rc_output c' = (rc_output c)[it_index it := Some x]" using c'(6) x idx by simp
    have len: "length (rc_output c) = unat (rc_data_num c)" using ok by (simp add: ctrl_ok_def)
    have ne: "j \<noteq> it_index it" using j out len c'(3) by auto
    then have "rc_output c ! j = None" using j(2) out by simp
    then obtain y where "y \<in> set its" "it_ctrl y = Some rid" "it_index y = j"
      using ok nd disc st j(1) c'(3) by (auto simp: ctrl_ok_def)
    with ne set_remove_nth [OF k] it(1) show ?thesis by auto
  qed
  ultimately have "ctrl_ok (remove_nth k its) rid c'" unfolding ctrl_ok_def by blast
  moreover have "(rc_wait_num c = 1) = rc_process_finished c'" using nf c'(4) by simp
  ultimately show ?thesis using c'(1,3) nf by auto
qed


lemma sess_inv_item:
  assumes inv: "sess_inv s" and k: "k < length (ss_out s)"
    and drop: "out = None \<Longrightarrow> st = SUCCESS \<Longrightarrow> drop_allowed k s"
  shows "\<exists>t. item_done k st out perf s = Inr t \<and> sess_inv t"
proof -
  define it where "it = ss_out s ! k"
  have kp: "k < length (pending s)" "pending s ! k = it" using k by (simp_all add: pending_def it_def nth_append)
  then have mem: "it \<in> set (pending s)" by (metis nth_mem)
  then obtain rid c where rid: "it_ctrl it = Some rid" and c: "ss_ctrls s rid = Some c" using owned [OF inv] by blast
  have dr: "out = None \<Longrightarrow> st = SUCCESS \<Longrightarrow> rc_discarded c"
    using drop rid c by (auto simp: drop_allowed_def it_def)
  define call where "call = (case out of
      Some d \<Rightarrow> RequestControl_ProcessDone st (Some (it\<lparr>it_data := d\<rparr>)) (of_nat (it_index it)) perf c
    | None \<Rightarrow> RequestControl_ProcessFailed st c)"
  have "\<exists>c'. call = Inr (rc_process_finished c', c') \<and> ctrl_ok (remove_nth k (pending s)) rid c' \<and>
      rc_data_num c' = rc_data_num c \<and> \<not> rc_process_finished c"
  proof (cases out)
    case None
    then show ?thesis
      using ctrl_ok_done [OF ctrls [OF inv c] kp rid, of None 0 st "[]"] dr
      by (simp add: call_def RequestControl_ProcessFailed_def)
  next
    case (Some d)
    then show ?thesis
      using ctrl_ok_done [OF ctrls [OF inv c] kp rid, of "Some (it\<lparr>it_data := d\<rparr>)" "of_nat (it_index it)" st perf]
      by (simp add: call_def)
  qed
  then obtain c' where c': "call = Inr (rc_process_finished c', c')" "ctrl_ok (remove_nth k (pending s)) rid c'"
    "rc_data_num c' = rc_data_num c" and nf: "\<not> rc_process_finished c" by blast
  define t where "t = s\<lparr>ss_out := remove_nth k (ss_out s), ss_ctrls := (ss_ctrls s)(rid \<mapsto> c'),
      ss_checks := (if rc_process_finished c' then ss_checks s @ [rid] else ss_checks s)\<rparr>"
  have run: "item_done k st out perf s = Inr t"
    using c'(1) unfolding call_def by (simp add: item_done_def Let_def rid c t_def flip: it_def)
  have t: "ss_next t = ss_next s" "ss_ctrls t = (ss_ctrls s)(rid \<mapsto> c')" "ss_list t = ss_list s"
    "ss_uploads t = ss_uploads s" "ss_log t = ss_log s" "current t = current s"
    "ss_in_response t = ss_in_response s" "ss_responder t = ss_responder s" "pending t = remove_nth k (pending s)"
    "ss_checks t = (if rc_process_finished c' then ss_checks s @ [rid] else ss_checks s)"
    "processing_unit t = processing_unit s" "processing_req t = processing_req s"
    using k by (simp_all add: t_def current_def pending_def remove_nth_def)
  have fin: "finished s x \<Longrightarrow> finished t x" for x using nf c by (auto simp: finished_def t)
  have fin_rid: "finished t rid = rc_process_finished c'" by (simp add: finished_def t)
  have sub: "set (pending t) \<subseteq> set (pending s)" using set_remove_nth [OF kp(1)] by (auto simp: t)
  have other: "ctrl_ok (pending t) x d" if x: "x \<noteq> rid" and d: "ss_ctrls s x = Some d" for x d
  proof -
    have "items_for x (pending t) = items_for x (pending s)"
      using items_for_remove [OF kp(1), of x] kp(2) rid x by (simp add: t)
    moreover have "(y \<in> set (pending t) \<and> it_ctrl y = Some x) = (y \<in> set (pending s) \<and> it_ctrl y = Some x)" for y
      using set_remove_nth [OF kp(1)] kp(2) rid x by (auto simp: t)
    ultimately show ?thesis using ctrls [OF inv d] unfolding ctrl_ok_def by (metis (no_types, lifting))
  qed
  have size: "ctrl_size t = ctrl_size s" using c c'(3) by (auto simp: ctrl_size_def t)
  have lt: "rid < ss_next s" using live_lt [OF inv] c by blast
  have "sess_inv t"
    unfolding sess_inv_def size
  proof (intro conjI)
    show "map fst (ss_log t) @ current t @ ss_list t = [0..<ss_next t]" using order [OF inv] by (simp add: t)
    show "ss_in_response t = (ss_responder t \<noteq> RIdle)" using flag [OF inv] by (simp add: t)
    show "dom (ss_ctrls t) = set (current t @ ss_list t)" using live [OF inv] c by (auto simp: t)
    show "\<forall>rid c. ss_ctrls t rid = Some c \<longrightarrow> ctrl_ok (pending t) rid c"
      using c'(2) other by (auto simp: t(2,9))
    show "\<forall>it\<in>set (pending t). \<exists>rid. it_ctrl it = Some rid \<and> rid \<in> dom (ss_ctrls t)"
      using owned [OF inv] sub by (fastforce simp: t(2))
    show "\<forall>rid\<in>set (current t). finished t rid" using cur_fin [OF inv] fin by (simp add: t(6))
    show "\<forall>rid\<in>set (ss_checks t). finished t rid \<and> rid < ss_next t"
      using chk_fin [OF inv] fin fin_rid lt by (auto simp: t(1,10))
    show "\<forall>u\<in>set (ss_uploads t). fst u < ss_next t \<and> (snd u = [] \<longrightarrow> finished t (fst u))"
      using ups [OF inv] fin by (simp add: t(1,4))
    show "processing_unit t = sum_list (map (ctrl_size s) (current t @ ss_list t)) -
       of_nat (sum_list (map (length \<circ> snd) (ss_uploads t)))"
      using units [OF inv] by (simp add: t)
    show "processing_req t = of_nat (length (current t @ ss_list t)) - of_nat (length (ss_uploads t))"
      using reqs [OF inv] by (simp add: t)
    show "\<forall>e\<in>set (ss_log t). answer_ok (snd e)" using answers [OF inv] by (simp add: t)
  qed
  with run show ?thesis by blast
qed

text \<open>The steps that leave the items and the requests alone.\<close>

lemma sess_inv_same:
  assumes inv: "sess_inv s"
    and same: "ss_ctrls t = ss_ctrls s" "pending t = pending s" "ss_uploads t = ss_uploads s" "ss_next t = ss_next s"
      "ss_log t = ss_log s" "processing_unit t = processing_unit s" "processing_req t = processing_req s"
      "current t @ ss_list t = current s @ ss_list s" "set (ss_checks t) \<subseteq> set (ss_checks s)"
    and flag: "ss_in_response t = (ss_responder t \<noteq> RIdle)" and cur: "\<And>rid. rid \<in> set (current t) \<Longrightarrow> finished s rid"
  shows "sess_inv t"
proof -
  have f: "finished t = finished s" "ctrl_size t = ctrl_size s"
    by (simp_all add: finished_def [abs_def] ctrl_size_def [abs_def] same)
  show ?thesis
    unfolding sess_inv_def f same
    using sess_invD [OF inv] flag cur same(9) by blast
qed

lemma sess_inv_check:
  assumes inv: "sess_inv s" and k: "k < length (ss_checks s)"
  shows "\<exists>t. Session_CheckAndResponse (ss_checks s ! k) (s\<lparr>ss_checks := remove_nth k (ss_checks s)\<rparr>) = Inr t \<and> sess_inv t"
proof -
  let ?s = "s\<lparr>ss_checks := remove_nth k (ss_checks s)\<rparr>"
  have sub: "set (remove_nth k (ss_checks s)) \<subseteq> set (ss_checks s)" using set_remove_nth [OF k] by auto
  have s': "sess_inv ?s"
    by (rule sess_inv_same [OF inv]) (use sub flag [OF inv] cur_fin [OF inv] in \<open>simp_all add: pending_def current_def\<close>)
  show ?thesis
  proof (cases "ss_list s")
    case Nil
    with s' show ?thesis by (simp add: Session_CheckAndResponse_def)
  next
    case (Cons r rest)
    then obtain c where c: "ss_ctrls s r = Some c" using live [OF inv] by fastforce
    have cf: "finished s (ss_checks s ! k)" using chk_fin [OF inv] nth_mem [OF k] by blast
    show ?thesis
    proof (cases "(ss_checks s ! k \<noteq> r \<and> \<not> rc_process_finished c) \<or> ss_in_response s")
      case True
      with s' Cons c show ?thesis by (auto simp: Session_CheckAndResponse_def)
    next
      case False
      define t where "t = ?s\<lparr>ss_in_response := True, ss_list := rest, ss_responder := RRun r\<rparr>"
      have idle: "ss_responder s = RIdle" using False flag [OF inv] by simp
      have "finished s r" using False cf c by (auto simp: finished_def)
      then have "sess_inv t"
        by (intro sess_inv_same [OF inv]) (use sub idle Cons in \<open>auto simp: t_def pending_def current_def\<close>)
      moreover have "Session_CheckAndResponse (ss_checks s ! k) ?s = Inr t"
        using False Cons c by (auto simp: Session_CheckAndResponse_def t_def)
      ultimately show ?thesis by blast
    qed
  qed
qed


lemma sess_inv_respond:
  assumes inv: "sess_inv s" and r: "ss_responder s = RRun rid"
  shows "\<exists>t. respond_current rid s = Inr t \<and> sess_inv t"
proof -
  have cur: "current s = [rid]" by (simp add: current_def r)
  then obtain c where c: "ss_ctrls s rid = Some c" using live [OF inv] by fastforce
  have pf: "rc_process_finished c" using cur_fin [OF inv, of rid] c by (simp add: cur finished_def)
  have ok: "ctrl_ok (pending s) rid c" by (rule ctrls [OF inv c])
  then have "rc_wait_num c = 0" using pf by (simp add: ctrl_ok_def)
  moreover have "unat (rc_wait_num c) = items_for rid (pending s)" using ok unfolding ctrl_ok_def by blast
  ultimately have "items_for rid (pending s) = 0" by simp
  then have none: "it_ctrl it \<noteq> Some rid" if "it \<in> set (pending s)" for it
    using that by (simp add: items_for_0)
  have dist: "rid \<notin> set (ss_list s)"
  proof -
    have "distinct (map fst (ss_log s) @ current s @ ss_list s)" unfolding order [OF inv] by simp
    then show ?thesis by (simp add: cur)
  qed
  define a where "a = (if \<not> rc_discarded c then Some (RequestControl_Response c) else None)"
  have "answer_ok a"
  proof (cases "\<not> rc_discarded c \<and> rc_status c = SUCCESS")
    case True
    have "None \<notin> set (rc_output c)"
      using ok True none by (auto simp: ctrl_ok_def in_set_conv_nth)
    with True show ?thesis by (simp add: answer_ok_def a_def RequestControl_Response_def)
  qed (auto simp: answer_ok_def a_def RequestControl_Response_def)
  define t where "t = s\<lparr>ss_log := ss_log s @ [(rid, a)], processing_unit := processing_unit s - rc_data_num c,
      processing_req := processing_req s - 1, ss_ctrls := (ss_ctrls s)(rid := None), ss_responder := RPick\<rparr>"
  have run: "respond_current rid s = Inr t"
    by (simp add: respond_current_def c Executor_ReleaseCount_def Let_def t_def a_def)
  have t: "ss_next t = ss_next s" "ss_ctrls t = (ss_ctrls s)(rid := None)" "ss_list t = ss_list s"
    "ss_uploads t = ss_uploads s" "ss_log t = ss_log s @ [(rid, a)]" "current t = []"
    "ss_in_response t = ss_in_response s" "ss_responder t = RPick" "pending t = pending s" "ss_checks t = ss_checks s"
    "processing_unit t = processing_unit s - rc_data_num c" "processing_req t = processing_req s - 1"
    by (simp_all add: t_def current_def pending_def)
  have fin: "finished s x \<Longrightarrow> finished t x" for x by (simp add: finished_def t)
  have size: "map (ctrl_size t) (ss_list s) = map (ctrl_size s) (ss_list s)"
    using dist by (auto simp: ctrl_size_def t)
  have sz: "ctrl_size s rid = rc_data_num c" by (simp add: ctrl_size_def c)
  have "sess_inv t"
    unfolding sess_inv_def
  proof (intro conjI)
    show "map fst (ss_log t) @ current t @ ss_list t = [0..<ss_next t]" using order [OF inv] by (simp add: t cur)
    show "ss_in_response t = (ss_responder t \<noteq> RIdle)" using flag [OF inv] r by (simp add: t)
    show "dom (ss_ctrls t) = set (current t @ ss_list t)" using live [OF inv] dist by (auto simp: t cur)
    show "\<forall>rid c. ss_ctrls t rid = Some c \<longrightarrow> ctrl_ok (pending t) rid c"
      using ctrls [OF inv] by (simp add: t(2,9))
    show "\<forall>it\<in>set (pending t). \<exists>rid. it_ctrl it = Some rid \<and> rid \<in> dom (ss_ctrls t)"
      using owned [OF inv] none by (fastforce simp: t(2,9))
    show "\<forall>rid\<in>set (current t). finished t rid" by (simp add: t(6))
    show "\<forall>rid\<in>set (ss_checks t). finished t rid \<and> rid < ss_next t"
      using chk_fin [OF inv] fin by (simp add: t(1,10))
    show "\<forall>u\<in>set (ss_uploads t). fst u < ss_next t \<and> (snd u = [] \<longrightarrow> finished t (fst u))"
      using ups [OF inv] fin by (simp add: t(1,4))
    show "processing_unit t = sum_list (map (ctrl_size t) (current t @ ss_list t)) -
       of_nat (sum_list (map (length \<circ> snd) (ss_uploads t)))"
      using units [OF inv] arg_cong [OF size, of sum_list] sz by (simp add: t cur)
    show "processing_req t = of_nat (length (current t @ ss_list t)) - of_nat (length (ss_uploads t))"
      using reqs [OF inv] by (simp add: t cur)
    show "\<forall>e\<in>set (ss_log t). answer_ok (snd e)" using answers [OF inv] \<open>answer_ok a\<close> by (auto simp: t)
  qed
  with run show ?thesis by blast
qed

lemma sess_inv_pick:
  assumes inv: "sess_inv s" and r: "ss_responder s = RPick"
  shows "\<exists>t. respond_pick s = Inr t \<and> sess_inv t"
proof (cases "ss_list s")
  case Nil
  then have "sess_inv (s\<lparr>ss_in_response := False, ss_responder := RIdle\<rparr>)"
    by (intro sess_inv_same [OF inv]) (use r in \<open>auto simp: pending_def current_def\<close>)
  with Nil show ?thesis by (simp add: respond_pick_def)
next
  case (Cons n rest)
  then obtain c where c: "ss_ctrls s n = Some c" using live [OF inv] by fastforce
  show ?thesis
  proof (cases "rc_process_finished c")
    case True
    then have "sess_inv (s\<lparr>ss_list := rest, ss_responder := RRun n\<rparr>)"
      by (intro sess_inv_same [OF inv])
        (use r Cons flag [OF inv] c in \<open>auto simp: pending_def current_def finished_def\<close>)
    with Cons c True show ?thesis by (simp add: respond_pick_def)
  next
    case False
    have "sess_inv (s\<lparr>ss_responder := RStore\<rparr>)"
      by (intro sess_inv_same [OF inv]) (use r flag [OF inv] in \<open>auto simp: pending_def current_def\<close>)
    with Cons c False show ?thesis by (simp add: respond_pick_def)
  qed
qed

lemma sess_inv_store: "sess_inv s \<Longrightarrow> ss_responder s = RStore \<Longrightarrow> sess_inv (respond_store s)"
  by (rule sess_inv_same) (auto simp: respond_store_def pending_def current_def)

lemma sess_inv_discard:
  assumes inv: "sess_inv s"
  shows "sess_inv (Session_DiscardTask tag s)"
proof -
  define t where "t = Session_DiscardTask tag s"
  have t: "ss_next t = ss_next s" "ss_list t = ss_list s" "ss_uploads t = ss_uploads s" "ss_log t = ss_log s"
    "current t = current s" "ss_in_response t = ss_in_response s" "ss_responder t = ss_responder s"
    "pending t = pending s" "ss_checks t = ss_checks s" "processing_unit t = processing_unit s"
    "processing_req t = processing_req s"
    by (simp_all add: t_def Session_DiscardTask_def current_def pending_def)
  have c: "ss_ctrls t = (\<lambda>rid. case ss_ctrls s rid of None \<Rightarrow> None
      | Some c \<Rightarrow> Some (if rid \<in> set (ss_list s) \<and> rc_tag c = tag then RequestControl_Discard c else c))"
    by (simp add: t_def Session_DiscardTask_def)
  have f: "finished t = finished s" "ctrl_size t = ctrl_size s"
    by (auto simp: finished_def [abs_def] ctrl_size_def [abs_def] c RequestControl_Discard_def fun_eq_iff split: option.splits)
  have d: "dom (ss_ctrls t) = dom (ss_ctrls s)" by (auto simp: c dom_def split: option.splits)
  have ok: "ctrl_ok its rid (RequestControl_Discard x)" if "ctrl_ok its rid x" for its rid and x :: "('a InferData, 'b) RequestControl"
    using that by (simp add: ctrl_ok_def RequestControl_Discard_def)
  have "\<forall>rid x. ss_ctrls t rid = Some x \<longrightarrow> ctrl_ok (pending s) rid x"
    using ctrls [OF inv] ok by (auto simp: c split: option.splits)
  then have "sess_inv t"
    unfolding sess_inv_def f t d using sess_invD [OF inv] by blast
  then show ?thesis by (simp add: t_def)
qed

lemma sess_step_ok:
  assumes "sess_inv s"
  shows "\<exists>t. sess_step a s = Inr t \<and> sess_inv t"
proof (cases a)
  case (ResponderOp)
  then show ?thesis
    using sess_inv_respond [OF assms] sess_inv_pick [OF assms] sess_inv_store [OF assms] assms
    by (cases "ss_responder s") auto
next
  case (DoneOp k d perf)
  then show ?thesis using assms sess_inv_item [OF assms, of k "Some d"] by simp
next
  case (FailOp k st)
  then show ?thesis using assms sess_inv_item [OF assms, of k None st] by simp
qed (use assms sess_inv_send sess_inv_upload sess_inv_check [OF assms] sess_inv_discard in auto)

lemma sess_run_ok: "sess_inv s \<Longrightarrow> \<exists>t. sess_run as s = Inr t \<and> sess_inv t"
proof (induction as arbitrary: s)
  case (Cons a as)
  obtain t where "sess_step a s = Inr t" "sess_inv t" using sess_step_ok [OF Cons.prems] by blast
  with Cons.IH [of t] show ?case by simp
qed simp


subsection \<open>Progress\<close>

text \<open>
  A \<^verbatim>\<open>CheckAndResponse\<close> that comes between the responder's last look at the list and its store to
  \<^verbatim>\<open>in_response_\<close> finds the flag set and goes away.  A run without such a moment is race-free.
\<close>

fun race_free :: "('d, 'f::plus) sess_op list \<Rightarrow> ('d, 'f) Session \<Rightarrow> bool" where
  "race_free [] s = True"
| "race_free (a # as) s =
     (\<not> (ss_responder s = RStore \<and> (case a of CheckOp k \<Rightarrow> k < length (ss_checks s) | _ \<Rightarrow> False)) \<and>
      (case sess_step a s of Inl e \<Rightarrow> True | Inr t \<Rightarrow> race_free as t))"

definition front_noticed :: "('d, 'f) Session \<Rightarrow> bool" where
  "front_noticed s \<longleftrightarrow>
     (case ss_list s of [] \<Rightarrow> True
      | r # _ \<Rightarrow> finished s r \<and> ss_responder s \<in> {RIdle, RStore} \<longrightarrow>
          ss_checks s \<noteq> [] \<or> (\<exists>u\<in>set (ss_uploads s). u = (r, [])))"

lemma noticedI:
  "(\<And>r rest. ss_list s = r # rest \<Longrightarrow> finished s r \<Longrightarrow> ss_responder s \<in> {RIdle, RStore} \<Longrightarrow> ss_checks s = [] \<Longrightarrow>
     (r, []) \<in> set (ss_uploads s)) \<Longrightarrow> front_noticed s"
  by (fastforce simp: front_noticed_def split: list.splits)

lemma noticedD:
  "front_noticed s \<Longrightarrow> ss_list s = r # rest \<Longrightarrow> finished s r \<Longrightarrow> ss_responder s \<in> {RIdle, RStore} \<Longrightarrow>
     ss_checks s = [] \<Longrightarrow> (r, []) \<in> set (ss_uploads s)"
  by (auto simp: front_noticed_def)

lemma item_done_noticed:
  assumes inv: "sess_inv s" and n: "front_noticed s" and run: "item_done k st out perf s = Inr t"
  shows "front_noticed t"
proof -
  obtain rid c m c' where c: "ss_ctrls s rid = Some c" "ss_ctrls t = (ss_ctrls s)(rid \<mapsto> c')"
    "ss_list t = ss_list s" "ss_responder t = ss_responder s" "ss_uploads t = ss_uploads s"
    "ss_checks t = (if m then ss_checks s @ [rid] else ss_checks s)"
    and pd: "\<exists>o' i pf. RequestControl_ProcessDone st o' i pf c = Inr (m, c')"
    using run
    by (auto simp: item_done_def RequestControl_ProcessFailed_def Let_def split: option.splits sum.splits prod.splits; blast)
  show ?thesis
  proof (rule noticedI)
    fix r rest assume r: "ss_list t = r # rest" "finished t r" "ss_responder t \<in> {RIdle, RStore}" "ss_checks t = []"
    have "\<not> m" "ss_checks s = []" using r(4) c(6) by (auto split: if_splits)
    then have "finished s r" using r(2) pd c(1,2)
      by (auto simp: finished_def RequestControl_ProcessDone_def Let_def split: if_splits option.splits)
    then show "(r, []) \<in> set (ss_uploads t)" using noticedD [OF n, of r rest] r c \<open>ss_checks s = []\<close> by simp
  qed
qed

lemma noticed_step:
  assumes inv: "sess_inv s" and n: "front_noticed s" and step: "sess_step a s = Inr t"
    and rf: "race_free [a] s"
  shows "front_noticed t"
proof (cases a)
  case (SendOp tag pack)
  show ?thesis
  proof (cases "t = s")
    case False
    let ?n = "length (pk_data pack)"
    have t: "t = s\<lparr>ss_next := Suc (ss_next s),
        ss_ctrls := (ss_ctrls s)(ss_next s \<mapsto> RequestControl_new tag (ss_next s) (of_nat ?n)),
        ss_list := ss_list s @ [ss_next s], ss_uploads := ss_uploads s @ [(ss_next s, assign_items (ss_next s) (pk_data pack))]\<rparr>"
      and len: "int ?n < 2 ^ 32"
      using step SendOp False by (auto simp: Session_Send_def Let_def split: if_splits)
    show ?thesis
    proof (rule noticedI)
      fix r rest assume r: "ss_list t = r # rest" "finished t r" "ss_responder t \<in> {RIdle, RStore}" "ss_checks t = []"
      show "(r, []) \<in> set (ss_uploads t)"
      proof (cases "ss_list s")
        case Nil
        then have "r = ss_next s" using r(1) t by simp
        moreover from this have "pk_data pack = []"
          using r(2) len by (auto simp: t finished_def RequestControl_new_def simp flip: unat_eq_0) (simp add: unat_of_nat)
        ultimately show ?thesis by (simp add: t assign_items_def)
      next
        case (Cons x xs)
        then have x: "ss_list s = r # xs" using r(1) t by simp
        then have "r \<in> dom (ss_ctrls s)" using live [OF inv] by simp
        then have "r \<noteq> ss_next s" using live_lt [OF inv] by blast
        then have "finished s r" using r(2) by (simp add: t finished_def)
        with noticedD [OF n x] r(3,4) show ?thesis by (simp add: t)
      qed
    qed
  qed (simp add: n)
next
  case (UploadOp k)
  show ?thesis
  proof (cases "k < length (ss_uploads s)")
    case True
    obtain r0 its where u: "ss_uploads s ! k = (r0, its)" by (cases "ss_uploads s ! k")
    have t: "ss_list t = ss_list s" "ss_responder t = ss_responder s" "ss_ctrls t = ss_ctrls s"
      "ss_uploads t = remove_nth k (ss_uploads s)" "ss_checks t = (if its = [] then ss_checks s @ [r0] else ss_checks s)"
      using step UploadOp True by (auto simp: Session_upload_def u Let_def Executor_Upload_def)
    show ?thesis
    proof (rule noticedI)
      fix r rest assume r: "ss_list t = r # rest" "finished t r" "ss_responder t \<in> {RIdle, RStore}" "ss_checks t = []"
      then have "(r, []) \<in> set (ss_uploads s)" "its \<noteq> []"
        using noticedD [OF n, of r rest] by (auto simp: t finished_def split: if_splits)
      with set_remove_nth [OF True] u show "(r, []) \<in> set (ss_uploads t)" by (auto simp: t)
    qed
  qed (use step n UploadOp in simp)
next
  case (CheckOp k)
  show ?thesis
  proof (cases "k < length (ss_checks s)")
    case True
    have ns: "ss_responder s \<noteq> RStore" using rf CheckOp True by (auto split: sum.splits)
    have chk: "Session_CheckAndResponse (ss_checks s ! k) (s\<lparr>ss_checks := remove_nth k (ss_checks s)\<rparr>) = Inr t"
      using step CheckOp True by simp
    have cf: "finished s (ss_checks s ! k)" using chk_fin [OF inv] nth_mem [OF True] by blast
    show ?thesis
    proof (cases "ss_in_response s")
      case busy: True
      then have "ss_responder t = ss_responder s" "ss_responder s \<noteq> RIdle"
        using chk flag [OF inv] by (auto simp: Session_CheckAndResponse_def split: list.splits option.splits if_splits)
      with ns show ?thesis by (auto intro: noticedI)
    next
      case idle: False
      show ?thesis
      proof (rule noticedI)
        fix r rest assume r: "ss_list t = r # rest" "finished t r" "ss_responder t \<in> {RIdle, RStore}" "ss_checks t = []"
        obtain h hs where h: "ss_list s = h # hs"
          using chk r(1) by (cases "ss_list s") (auto simp: Session_CheckAndResponse_def)
        then obtain c where c: "ss_ctrls s h = Some c" using live [OF inv] by fastforce
        have "ss_checks s ! k \<noteq> h \<and> \<not> rc_process_finished c"
          using chk h c idle r(3) by (auto simp: Session_CheckAndResponse_def split: if_splits)
        then have "ss_list t = ss_list s" "finished t = finished s" "\<not> finished s h"
          using chk h c by (auto simp: Session_CheckAndResponse_def finished_def [abs_def])
        with r(1,2) h show "(r, []) \<in> set (ss_uploads t)" by simp
      qed
    qed
  qed (use step n CheckOp in simp)
next
  case (DoneOp k d perf)
  have "t = s \<or> item_done k SUCCESS (Some d) perf s = Inr t" using step DoneOp by (auto split: if_splits)
  then show ?thesis using n item_done_noticed [OF inv n] by blast
next
  case (FailOp k st)
  have "t = s \<or> item_done k st None [] s = Inr t" using step FailOp by (auto split: if_splits)
  then show ?thesis using n item_done_noticed [OF inv n] by blast
next
  case ResponderOp
  show ?thesis
  proof (cases "ss_responder s")
    case RIdle
    with step n ResponderOp show ?thesis by simp
  next
    case (RRun x)
    with step ResponderOp have "ss_responder t = RPick"
      by (auto simp: respond_current_def Let_def split: option.splits)
    then show ?thesis by (auto intro: noticedI)
  next
    case RPick
    have "respond_pick s = Inr t" using step ResponderOp RPick by simp
    then show ?thesis
      by (intro noticedI) (auto simp: respond_pick_def finished_def split: list.splits option.splits if_splits)
  next
    case RStore
    then have t: "t = respond_store s" using step ResponderOp by simp
    show ?thesis
      by (rule noticedI) (use noticedD [OF n] RStore in \<open>auto simp: t respond_store_def finished_def\<close>)
  qed
next
  case (DiscardOp tag)
  then have t: "t = Session_DiscardTask tag s" using step by simp
  have f: "finished t = finished s"
    by (auto simp: t Session_DiscardTask_def finished_def [abs_def] RequestControl_Discard_def fun_eq_iff split: option.splits)
  show ?thesis
    by (rule noticedI, unfold f) (use noticedD [OF n] in \<open>auto simp: t Session_DiscardTask_def\<close>)
qed


lemma race_free_split: "race_free (a # as) s \<Longrightarrow> race_free [a] s"
  by (auto split: sum.splits)

lemma noticed_run:
  assumes "sess_inv s" and "front_noticed s" and "sess_run as s = Inr t" and "race_free as s"
  shows "front_noticed t"
  using assms
proof (induction as arbitrary: s)
  case (Cons a as)
  obtain u where u: "sess_step a s = Inr u" "sess_inv u" using sess_step_ok [OF Cons.prems(1)] by blast
  have "front_noticed u" by (rule noticed_step [OF Cons.prems(1,2) u(1) race_free_split [OF Cons.prems(4)]])
  moreover have "sess_run as u = Inr t" "race_free as u" using Cons.prems(3,4) u(1) by auto
  ultimately show ?case using Cons.IH u(2) by blast
qed simp

lemma front_noticed_new: "front_noticed (Session_new static bs)"
  by (simp add: front_noticed_def Session_new_def)

subsection \<open>Properties\<close>

text \<open>
  C18. The requests of a session are answered in the order they were sent, each at most once: whatever
  the interleaving of senders, engines, checks and the responder, no step faults (no dangling
  request, no item reported twice), the requests dealt with, the one being answered and those
  waiting are the requests sent, in order, and an answer that reports success carries the output of
  every item of its request.
\<close>

theorem session_answers_in_order:
  "\<exists>s. sess_run ops (Session_new static bs) = Inr s \<and>
     map fst (ss_log s) @ current s @ ss_list s = [0..<ss_next s] \<and>
     (ss_in_response s \<longleftrightarrow> ss_responder s \<noteq> RIdle) \<and> list_all (\<lambda>e. answer_ok (snd e)) (ss_log s)"
proof -
  obtain s where s: "sess_run ops (Session_new static bs) = Inr s" "sess_inv s"
    using sess_run_ok [OF sess_inv_new] by blast
  then show ?thesis using order [OF s(2)] flag [OF s(2)] answers [OF s(2)] by (auto simp: list_all_iff)
qed

text \<open>
  C19. Without the race on the response flag nothing is left behind: when all items have been reported,
  no call of \<^verbatim>\<open>Send\<close> or \<^verbatim>\<open>CheckAndResponse\<close> is under way and the responder has ended, every request
  has been dealt with, so that the destructor of the session does not wait, and the executor's
  counters of units and requests in progress are back at zero.
\<close>

theorem session_completes_without_race:
  assumes "sess_run ops (Session_new static bs) = Inr s" and "race_free ops (Session_new static bs)"
    and "ss_out s = []" and "ss_uploads s = []" and "ss_checks s = []" and "ss_responder s = RIdle"
  shows "Session_all_done s \<and> map fst (ss_log s) = [0..<ss_next s] \<and> processing_unit s = 0 \<and> processing_req s = 0"
proof -
  have inv: "sess_inv s" using sess_run_ok [OF sess_inv_new, of ops static bs] assms(1) by auto
  have n: "front_noticed s" by (rule noticed_run [OF sess_inv_new front_noticed_new assms(1,2)])
  have p: "pending s = []" using assms(3,4) by (simp add: pending_def)
  have "finished s r" for r
  proof (cases "ss_ctrls s r")
    case (Some c)
    then have "unat (rc_wait_num c) = 0" "rc_process_finished c = (rc_wait_num c = 0)"
      using ctrls [OF inv Some] by (simp_all add: ctrl_ok_def p items_for_def)
    then show ?thesis by (simp add: finished_def Some unat_eq_0)
  qed (simp add: finished_def)
  then have l: "ss_list s = []" using noticedD [OF n] assms(4-6) by (cases "ss_list s") auto
  have c: "current s = []" using assms(6) by (simp add: current_def)
  show ?thesis
    using order [OF inv] flag [OF inv] units [OF inv] reqs [OF inv] assms(4,6) l c by (simp add: Session_all_done_def)
qed

subsection \<open>Witnesses and the race\<close>

definition demo_request :: "unit Package" where
  "demo_request = \<lparr>pk_data = [\<lparr>it_ctrl = None, it_index = 0, it_data = ()\<rparr>], pk_predict_io = False, pk_priority = None\<rparr>"

definition demo_ops :: "(unit, int) sess_op list" where
  "demo_ops = [SendOp ''a'' demo_request, UploadOp 0, SendOp ''a'' demo_request, UploadOp 0, DoneOp 0 () [], CheckOp 0,
     ResponderOp]"

text \<open>The second request finishes and is checked before, or after, the responder stores the flag.\<close>

definition demo_safe :: "(unit, int) sess_op list" where
  "demo_safe = demo_ops @ [ResponderOp, DoneOp 0 () [], ResponderOp, CheckOp 0, ResponderOp, ResponderOp]"

definition demo_race :: "(unit, int) sess_op list" where
  "demo_race = demo_ops @ [ResponderOp, DoneOp 0 () [], CheckOp 0, ResponderOp]"

theorem session_completes_without_race_witness:
  "\<exists>s. sess_run demo_safe (Session_new False 4) = Inr s \<and> Session_all_done s \<and> map fst (ss_log s) = [0, 1] \<and>
     processing_unit s = 0"
proof -
  let ?r = "sess_run demo_safe (Session_new False 4)"
  obtain s where s: "?r = Inr s" using session_answers_in_order by blast
  have "(case ?r of Inr s \<Rightarrow> ss_out s = [] \<and> ss_uploads s = [] \<and> ss_checks s = [] \<and> ss_responder s = RIdle \<and> ss_next s = 2
     | Inl e \<Rightarrow> False)" by code_simp
  then have e: "ss_out s = []" "ss_uploads s = []" "ss_checks s = []" "ss_responder s = RIdle" "ss_next s = 2"
    by (simp_all add: s)
  have "race_free demo_safe (Session_new False 4)" by code_simp
  from session_completes_without_race [OF s this e(1-4)] e(5) s show ?thesis by (auto simp: upt_rec)
qed

text \<open>
  The response that gets lost: there is a run in which a finished request is at the front of the
  list, no response task runs, nothing else is under way, and no step of the engines, of the
  checks or of the responder changes the state any more, so the request is not answered and the
  session's destructor waits, until another request happens to finish.
\<close>

lemma session_response_lost:
  "\<exists>s. sess_run demo_race (Session_new False 4) = Inr s \<and> ss_list s = [1] \<and> finished s 1 \<and> \<not> ss_in_response s \<and>
     \<not> Session_all_done s \<and> WaitTaskDone_target ''a'' s = Some 1 \<and>
     sess_step (UploadOp k) s = Inr s \<and> sess_step (DoneOp k d perf) s = Inr s \<and> sess_step (FailOp k st) s = Inr s \<and>
     sess_step (CheckOp k) s = Inr s \<and> sess_step ResponderOp s = Inr s"
proof -
  let ?r = "sess_run demo_race (Session_new False 4)"
  obtain s where s: "?r = Inr s" using sess_run_ok [OF sess_inv_new] by blast
  have "(case ?r of Inr s \<Rightarrow> ss_list s = [1] \<and> finished s 1 \<and> \<not> ss_in_response s \<and> \<not> Session_all_done s \<and>
      WaitTaskDone_target ''a'' s = Some 1 \<and> ss_out s = [] \<and> ss_uploads s = [] \<and> ss_checks s = [] \<and> ss_responder s = RIdle
     | Inl e \<Rightarrow> False)" by code_simp
  then show ?thesis by (simp add: s)
qed

end
