(* ===== verification/InferEngine.thy ===== *)
theory InferEngine
  imports InferRequest InferCache
begin

section \<open>Engines and the executor\<close>

text \<open>
  \<^verbatim>\<open>easydk/src/infer_server/core/engine.cpp\<close>, \<^verbatim>\<open>engine.h\<close> and the executor of \<^verbatim>\<open>session.cpp\<close>.  An
  engine is a chain of processors; a package goes through it as a chain of thread-pool tasks.  What
  a processor does to a package (\<^verbatim>\<open>Process\<close>) is the parameter \<open>proc\<close>; the time figures it records
  are left out.  The tasks in the pool that belong to an engine are kept with it.
\<close>

subsection \<open>Task nodes\<close>

type_synonym 'd processor = "'d Package \<Rightarrow> Status \<times> 'd Package"

text \<open>A report is a call of \<^verbatim>\<open>ProcessDone\<close>: the item, the status and whether the item is the output.\<close>

type_synonym 'd report = "'d InferData \<times> Status \<times> bool"

datatype 'd NodeResult = NextNode "'d Package" | Reports "'d report list"

definition TaskNode_Transmit :: "bool \<Rightarrow> 'd Package \<Rightarrow> 'd NodeResult result" where
  "TaskNode_Transmit has_downnode pack =
     (if has_downnode then Inr (NextNode (pack\<lparr>pk_priority := map_option Priority_Next (pk_priority pack)\<rparr>))
      else if \<exists>it\<in>set (pk_data pack). it_ctrl it = None then Inl NullPointer
      else Inr (Reports (map (\<lambda>it. (it, SUCCESS, True)) (pk_data pack))))"

definition TaskNode_Execute :: "'d processor \<Rightarrow> bool \<Rightarrow> 'd Package \<Rightarrow> 'd NodeResult result" where
  "TaskNode_Execute process has_downnode pack =
     (case process pack of
        (s, pack') \<Rightarrow>
          (if s \<noteq> SUCCESS
           then (if \<exists>it\<in>set (pk_data pack'). it_ctrl it = None then Inl NullPointer
                 else Inr (Reports (map (\<lambda>it. (it, s, False)) (pk_data pack'))))
           else TaskNode_Transmit has_downnode pack'))"

subsection \<open>Engines\<close>

record 'd Engine =
  en_nodes :: "'d processor list"
  en_task_num :: u32
  en_tasks :: "(nat \<times> 'd Package) list"

definition Engine_new :: "'d processor list \<Rightarrow> 'd Engine" where
  "Engine_new procs = \<lparr>en_nodes = procs, en_task_num = 0, en_tasks = []\<rparr>"

text \<open>\<^verbatim>\<open>Fork\<close>: each processor is forked by the parameter \<open>fork\<close>, a null result throws.\<close>

definition Engine_Fork :: "('d processor \<Rightarrow> 'd processor option) \<Rightarrow> 'd Engine \<Rightarrow> 'd Engine option" where
  "Engine_Fork fork e =
     (let ps = map fork (en_nodes e) in if None \<in> set ps then None else Some (Engine_new (map the ps)))"

definition Engine_Run :: "'d Package \<Rightarrow> 'd Engine \<Rightarrow> 'd Engine" where
  "Engine_Run pack e = e\<lparr>en_task_num := en_task_num e + 1, en_tasks := en_tasks e @ [(0, pack)]\<rparr>"

definition Engine_IsIdle :: "'d Engine \<Rightarrow> bool" where
  "Engine_IsIdle e \<longleftrightarrow> unat (en_task_num e) < length (en_nodes e)"

definition Engine_MaxLoad :: "'d Engine \<Rightarrow> nat" where
  "Engine_MaxLoad e = length (en_nodes e)"

text \<open>
  One task of the engine: the node's \<^verbatim>\<open>Execute\<close>, then either the task of the next node or the end,
  where the done notifier takes one off \<^verbatim>\<open>task_num_\<close>; the boolean is the call of that notifier.
\<close>

definition Engine_task :: "nat \<Rightarrow> 'd Engine \<Rightarrow> (bool \<times> 'd report list \<times> 'd Engine) result" where
  "Engine_task k e =
     (case en_tasks e ! k of
        (i, pack) \<Rightarrow>
          (let rest = remove_nth k (en_tasks e)
           in if i \<ge> length (en_nodes e) then Inl OutOfBounds
              else case TaskNode_Execute (en_nodes e ! i) (Suc i < length (en_nodes e)) pack of
                  Inl f \<Rightarrow> Inl f
                | Inr (NextNode p) \<Rightarrow> Inr (False, [], e\<lparr>en_tasks := rest @ [(Suc i, p)]\<rparr>)
                | Inr (Reports rs) \<Rightarrow> Inr (True, rs, e\<lparr>en_task_num := en_task_num e - 1, en_tasks := rest\<rparr>)))"

subsection \<open>Making an executor\<close>

datatype BatchStrategy = DYNAMIC | STATIC | SEQUENCE | STRATEGY_COUNT

record 'd SessionDesc =
  sd_name :: string
  sd_model_key :: string
  sd_model_batch :: u32
  sd_strategy :: BatchStrategy
  sd_format_invalid :: bool
  sd_preproc :: "(string \<times> Status \<times> 'd processor) option"
  sd_postproc :: "string \<times> Status \<times> 'd processor"
  sd_batch_timeout :: u32
  sd_priority :: int
  sd_engine_num :: u32

datatype 'd AnyCache = StaticCache "'d CacheBase" | DynamicCache "'d CacheDynamic"

record 'd Executor =
  ex_desc :: "'d SessionDesc"
  ex_device :: int
  ex_engines :: "'d Engine list"
  ex_idle :: "nat option"
  ex_max_num :: u32
  ex_cache :: "'d AnyCache"
  ex_batches :: nat
  ex_units :: nat

datatype exec_error = Aborts fault | InitFailed string | ForkFailed

text \<open>The loop that forks the first engine.\<close>

fun fork_engines :: "('d processor \<Rightarrow> 'd processor option) \<Rightarrow> 'd Engine \<Rightarrow> nat \<Rightarrow> 'd Engine list option" where
  "fork_engines fork e 0 = Some []"
| "fork_engines fork e (Suc n) =
     (case Engine_Fork fork e of
        None \<Rightarrow> None
      | Some e' \<Rightarrow> map_option (Cons e') (fork_engines fork e n))"

text \<open>The cache of the executor, started.\<close>

definition Executor_cache :: "'d SessionDesc \<Rightarrow> 'd AnyCache result" where
  "Executor_cache desc =
     (let base = CacheBase_Start (CacheBase_new (sd_model_batch desc) (Priority_new (sd_priority desc)))
      in case sd_strategy desc of
           DYNAMIC \<Rightarrow>
             map_sum id (\<lambda>b. DynamicCache (CacheBase.extend base \<lparr>cd_batcher = b, cd_tc = TimeCounter_new\<rparr>))
               (Batcher_new (sd_batch_timeout desc) (sd_model_batch desc))
         | STATIC \<Rightarrow> Inr (StaticCache base)
         | _ \<Rightarrow> Inl LogFatal)"

text \<open>
  The constructor.  A processor is its type name, the status of its \<^verbatim>\<open>Init\<close> and its \<^verbatim>\<open>Process\<close>; the
  predictor is \<^verbatim>\<open>Predictor::Create()\<close>.
\<close>

definition Executor_new ::
  "string \<times> Status \<times> 'd processor \<Rightarrow> ('d processor \<Rightarrow> 'd processor option) \<Rightarrow> bool \<Rightarrow> int \<Rightarrow> 'd SessionDesc \<Rightarrow>
     exec_error + 'd Executor" where
  "Executor_new predictor fork has_pool device desc =
     (if \<not> has_pool \<or> device < 0 \<or> \<not> 0 < sd_engine_num desc then Inl (Aborts LogFatal)
      else case sd_preproc desc of
          None \<Rightarrow> Inl (Aborts LogFatal)
        | Some (pre_name, pre_init, pre) \<Rightarrow>
            (if sd_format_invalid desc then Inl (Aborts LogFatal)
             else if pre_init \<noteq> SUCCESS then Inl (InitFailed pre_name)
             else case predictor of (p_name, p_init, pred) \<Rightarrow>
               (if p_init \<noteq> SUCCESS then Inl (InitFailed p_name)
                else case sd_postproc desc of (post_name, post_init, post) \<Rightarrow>
                  (if post_init \<noteq> SUCCESS then Inl (InitFailed post_name)
                   else let e0 = Engine_new [pre, pred, post]
                        in case fork_engines fork e0 (unat (sd_engine_num desc) - 1) of
                             None \<Rightarrow> Inl (ForkFailed)
                           | Some es \<Rightarrow>
                               (case Executor_cache desc of
                                  Inl f \<Rightarrow> Inl (Aborts f)
                                | Inr c \<Rightarrow> Inr \<lparr>ex_desc = desc, ex_device = device, ex_engines = e0 # es, ex_idle = Some 0,
                                    ex_max_num = 4 * sd_engine_num desc * 3 * sd_model_batch desc, ex_cache = c,
                                    ex_batches = 0, ex_units = 0\<rparr>)))))"

subsection \<open>Dispatching\<close>

text \<open>
  One package of \<^verbatim>\<open>DispatchLoop\<close>: the engine in \<^verbatim>\<open>idle_\<close>, which is taken out, else the first engine
  that is idle; \<open>None\<close> is waiting for \<^verbatim>\<open>idle_\<close>.
\<close>

definition dispatch_choose :: "'d Executor \<Rightarrow> (nat \<times> 'd Executor) option" where
  "dispatch_choose x =
     (case ex_idle x of
        Some i \<Rightarrow> Some (i, x\<lparr>ex_idle := None\<rparr>)
      | None \<Rightarrow> map_option (\<lambda>i. (i, x)) (scan (\<lambda>i. Engine_IsIdle (ex_engines x ! i)) 0 (length (ex_engines x))))"

definition DispatchLoop_iter :: "'d Package \<Rightarrow> 'd Executor \<Rightarrow> 'd Executor option result" where
  "DispatchLoop_iter pack x =
     (let x1 = x\<lparr>ex_batches := ex_batches x + 1, ex_units := ex_units x + length (pk_data pack)\<rparr>
      in case dispatch_choose x1 of
           None \<Rightarrow> Inr None
         | Some (i, x2) \<Rightarrow>
             (if i \<ge> length (ex_engines x2) then Inl OutOfBounds
              else Inr (Some (x2\<lparr>ex_engines := (ex_engines x2)[i := Engine_Run pack (ex_engines x2 ! i)]\<rparr>))))"

text \<open>A task of engine i; its done notifier stores the engine in \<^verbatim>\<open>idle_\<close>.\<close>

definition Executor_task :: "nat \<Rightarrow> nat \<Rightarrow> 'd Executor \<Rightarrow> ('d report list \<times> 'd Executor) result" where
  "Executor_task i k x =
     (case Engine_task k (ex_engines x ! i) of
        Inl f \<Rightarrow> Inl f
      | Inr (fin, rs, e) \<Rightarrow>
          Inr (rs, x\<lparr>ex_engines := (ex_engines x)[i := e], ex_idle := (if fin then Some i else ex_idle x)\<rparr>))"

subsection \<open>Runs\<close>

datatype 'd exec_op = DispatchOp "'d Package" | TaskOp nat nat

text \<open>A dispatch that has to wait and a task that does not exist change nothing.\<close>

fun exec_step :: "'d exec_op \<Rightarrow> 'd Package list \<times> 'd report list \<times> 'd Executor \<Rightarrow>
    ('d Package list \<times> 'd report list \<times> 'd Executor) result" where
  "exec_step (DispatchOp pack) (sent, rs, x) =
     (case DispatchLoop_iter pack x of
        Inl f \<Rightarrow> Inl f | Inr None \<Rightarrow> Inr (sent, rs, x) | Inr (Some x') \<Rightarrow> Inr (sent @ [pack], rs, x'))"
| "exec_step (TaskOp i k) (sent, rs, x) =
     (if i < length (ex_engines x) \<and> k < length (en_tasks (ex_engines x ! i))
      then (case Executor_task i k x of Inl f \<Rightarrow> Inl f | Inr (r, x') \<Rightarrow> Inr (sent, rs @ r, x'))
      else Inr (sent, rs, x))"

text \<open>An item is known by its request and its index.\<close>

definition item_key :: "'d InferData \<Rightarrow> nat option \<times> nat" where
  "item_key it = (it_ctrl it, it_index it)"

definition pack_keys :: "'d Package \<Rightarrow> (nat option \<times> nat) multiset" where
  "pack_keys p = mset (map item_key (pk_data p))"

definition report_keys :: "'d report list \<Rightarrow> (nat option \<times> nat) multiset" where
  "report_keys rs = mset (map (item_key \<circ> fst) rs)"

definition keeps_items :: "'d processor \<Rightarrow> bool" where
  "keeps_items pr \<longleftrightarrow> (\<forall>p. map item_key (pk_data (snd (pr p))) = map item_key (pk_data p))"

definition keeps_fork :: "('d processor \<Rightarrow> 'd processor option) \<Rightarrow> bool" where
  "keeps_fork fork \<longleftrightarrow> (\<forall>q pr. keeps_items q \<longrightarrow> fork q = Some pr \<longrightarrow> keeps_items pr)"

definition keeps_desc :: "'d SessionDesc \<Rightarrow> bool" where
  "keeps_desc desc \<longleftrightarrow> keeps_items (snd (snd (sd_postproc desc))) \<and>
     (case sd_preproc desc of None \<Rightarrow> True | Some p \<Rightarrow> keeps_items (snd (snd p)))"

definition engine_keys :: "'d Engine \<Rightarrow> (nat option \<times> nat) multiset" where
  "engine_keys e = sum_list (map (pack_keys \<circ> snd) (en_tasks e))"

definition engine_ok :: "'d Engine \<Rightarrow> bool" where
  "engine_ok e \<longleftrightarrow> en_nodes e \<noteq> [] \<and> en_task_num e = of_nat (length (en_tasks e)) \<and>
     (\<forall>pr\<in>set (en_nodes e). keeps_items pr) \<and>
     (\<forall>t\<in>set (en_tasks e). fst t < length (en_nodes e) \<and> (\<forall>it\<in>set (pk_data (snd t)). it_ctrl it \<noteq> None))"

definition exec_inv :: "'d Package list \<times> 'd report list \<times> 'd Executor \<Rightarrow> bool" where
  "exec_inv st = (case st of (sent, rs, x) \<Rightarrow>
     ex_engines x \<noteq> [] \<and> (\<forall>e\<in>set (ex_engines x). engine_ok e) \<and>
     (case ex_idle x of Some i \<Rightarrow> i < length (ex_engines x) | None \<Rightarrow> True) \<and>
     report_keys rs + sum_list (map engine_keys (ex_engines x)) = sum_list (map pack_keys sent))"


subsection \<open>What a task does\<close>

lemma keeps_items_keys: "keeps_items pr \<Longrightarrow> pr p = (s, q) \<Longrightarrow> map item_key (pk_data q) = map item_key (pk_data p)"
  by (metis keeps_items_def snd_conv)

lemma ctrl_of_key: "(\<forall>it\<in>set its. it_ctrl it \<noteq> None) \<longleftrightarrow> (\<forall>k\<in>set (map item_key its). fst k \<noteq> None)"
  by (simp add: item_key_def)

lemma Execute_ok:
  assumes "keeps_items pr" and "\<forall>it\<in>set (pk_data p). it_ctrl it \<noteq> None"
  obtains (next_node) q where "down" "TaskNode_Execute pr down p = Inr (NextNode q)" "pack_keys q = pack_keys p"
      "\<forall>it\<in>set (pk_data q). it_ctrl it \<noteq> None"
    | (reports) rs where "TaskNode_Execute pr down p = Inr (Reports rs)" "report_keys rs = pack_keys p"
proof -
  obtain s q where q: "pr p = (s, q)" by (cases "pr p")
  have k: "map item_key (pk_data q) = map item_key (pk_data p)" by (rule keeps_items_keys [OF assms(1) q])
  have c: "\<forall>it\<in>set (pk_data q). it_ctrl it \<noteq> None" using assms(2) unfolding ctrl_of_key k .
  show ?thesis
  proof (cases "s = SUCCESS \<and> down")
    case True
    with q c k show ?thesis
      by (intro next_node [of "q\<lparr>pk_priority := map_option Priority_Next (pk_priority q)\<rparr>"])
        (auto simp: TaskNode_Execute_def TaskNode_Transmit_def pack_keys_def)
  next
    case False
    with q c k show ?thesis
      by (intro reports [of "map (\<lambda>it. (it, s, s = SUCCESS)) (pk_data q)"])
        (auto simp: TaskNode_Execute_def TaskNode_Transmit_def pack_keys_def report_keys_def comp_def)
  qed
qed

definition work :: "'d Engine \<Rightarrow> nat" where
  "work e = sum_list (map (\<lambda>t. length (en_nodes e) - fst t) (en_tasks e))"

lemma Engine_task_ok:
  assumes ok: "engine_ok e" and k: "k < length (en_tasks e)"
  obtains fin rs e' where "Engine_task k e = Inr (fin, rs, e')" "engine_ok e'" "en_nodes e' = en_nodes e"
    "report_keys rs + engine_keys e' = engine_keys e" "work e' < work e"
    "length (en_tasks e) = length (en_tasks e') + (if fin then 1 else 0)"
proof -
  obtain i p where t: "en_tasks e ! k = (i, p)" by (cases "en_tasks e ! k")
  have mem: "(i, p) \<in> set (en_tasks e)" using k t by (metis nth_mem)
  then have i: "i < length (en_nodes e)" and c: "\<forall>it\<in>set (pk_data p). it_ctrl it \<noteq> None"
    using ok by (auto simp: engine_ok_def)
  have pr: "keeps_items (en_nodes e ! i)" using ok nth_mem [OF i] by (auto simp: engine_ok_def)
  have num: "en_task_num e = of_nat (Suc (length (remove_nth k (en_tasks e))))"
    using ok length_remove_nth [OF k] by (simp add: engine_ok_def)
  then have num': "en_task_num e - 1 = of_nat (length (remove_nth k (en_tasks e)))" by simp
  have sub: "set (remove_nth k (en_tasks e)) \<subseteq> set (en_tasks e)" using set_remove_nth [OF k] by auto
  have rest: "\<forall>t\<in>set (remove_nth k (en_tasks e)). fst t < length (en_nodes e) \<and> (\<forall>it\<in>set (pk_data (snd t)). it_ctrl it \<noteq> None)"
    using ok sub by (auto simp: engine_ok_def)
  have keys: "engine_keys e = pack_keys p + sum_list (map (pack_keys \<circ> snd) (remove_nth k (en_tasks e)))"
    using sum_remove_nth [OF k, of "pack_keys \<circ> snd"] t by (simp add: engine_keys_def)
  have w: "work e = (length (en_nodes e) - i) +
      sum_list (map (\<lambda>t. length (en_nodes e) - fst t) (remove_nth k (en_tasks e)))"
    using sum_remove_nth [OF k, of "\<lambda>t. length (en_nodes e) - fst t"] t by (simp add: work_def)
  from pr c show ?thesis
  proof (cases rule: Execute_ok [where down = "Suc i < length (en_nodes e)"])
    case (next_node q)
    define e' where "e' = e\<lparr>en_tasks := remove_nth k (en_tasks e) @ [(Suc i, q)]\<rparr>"
    have "Engine_task k e = Inr (False, [], e')" using next_node(2) i by (simp add: Engine_task_def t Let_def e'_def)
    moreover have "engine_ok e'" using ok num rest next_node by (auto simp: engine_ok_def e'_def)
    moreover have "report_keys [] + engine_keys e' = engine_keys e"
      using keys next_node(3) by (simp add: report_keys_def engine_keys_def e'_def)
    moreover have "work e' < work e" using w next_node(1) by (simp add: work_def e'_def)
    ultimately show ?thesis using length_remove_nth [OF k] by (intro that) (auto simp: e'_def)
  next
    case (reports rs)
    define e' where "e' = e\<lparr>en_task_num := en_task_num e - 1, en_tasks := remove_nth k (en_tasks e)\<rparr>"
    have "Engine_task k e = Inr (True, rs, e')" using reports(1) i by (simp add: Engine_task_def t Let_def e'_def)
    moreover have "engine_ok e'" using ok num' rest unfolding engine_ok_def e'_def by simp
    moreover have "report_keys rs + engine_keys e' = engine_keys e"
      using keys reports(2) by (simp add: engine_keys_def e'_def)
    moreover have "work e' < work e" using w i by (simp add: work_def e'_def)
    ultimately show ?thesis using length_remove_nth [OF k] by (intro that) (auto simp: e'_def)
  qed
qed

lemma engine_ok_Run:
  "engine_ok e \<Longrightarrow> \<forall>it\<in>set (pk_data p). it_ctrl it \<noteq> None \<Longrightarrow> engine_ok (Engine_Run p e) \<and>
     engine_keys (Engine_Run p e) = pack_keys p + engine_keys e"
  by (auto simp: engine_ok_def Engine_Run_def engine_keys_def)

lemma exec_inv_dispatch:
  assumes inv: "exec_inv (sent, rs, x)" and c: "\<forall>it\<in>set (pk_data p). it_ctrl it \<noteq> None"
  shows "\<exists>st. exec_step (DispatchOp p) (sent, rs, x) = Inr st \<and> exec_inv st"
proof -
  let ?x = "x\<lparr>ex_batches := ex_batches x + 1, ex_units := ex_units x + length (pk_data p)\<rparr>"
  show ?thesis
  proof (cases "dispatch_choose ?x")
    case None
    with inv show ?thesis by (simp add: DispatchLoop_iter_def Let_def)
  next
    case (Some iy)
    obtain i y where iy: "iy = (i, y)" by (cases iy)
    have y: "ex_engines y = ex_engines x" "ex_idle y = None"
      using Some iy by (auto simp: dispatch_choose_def split: option.splits)
    have i: "i < length (ex_engines x)"
      using Some iy inv by (auto simp: dispatch_choose_def exec_inv_def dest: scan_SomeD split: option.splits)
    define z where "z = y\<lparr>ex_engines := (ex_engines y)[i := Engine_Run p (ex_engines y ! i)]\<rparr>"
    have run: "exec_step (DispatchOp p) (sent, rs, x) = Inr (sent @ [p], rs, z)"
      using Some iy i y by (simp add: DispatchLoop_iter_def Let_def z_def)
    have e: "engine_ok (ex_engines x ! i)" using inv i by (auto simp: exec_inv_def)
    note R = engine_ok_Run [OF e c]
    have "sum_list (map engine_keys (ex_engines z)) = pack_keys p + sum_list (map engine_keys (ex_engines x))"
      using sum_list_update [OF i, of engine_keys "Engine_Run p (ex_engines x ! i)"] R
      by (simp add: z_def y ac_simps)
    moreover have "\<forall>e\<in>set (ex_engines z). engine_ok e"
      using inv R by (auto simp: exec_inv_def z_def y dest: set_update_subset_insert [THEN subsetD])
    ultimately have "exec_inv (sent @ [p], rs, z)"
      using inv by (auto simp: exec_inv_def z_def y ac_simps)
    with run show ?thesis by blast
  qed
qed

lemma exec_inv_task:
  assumes inv: "exec_inv (sent, rs, x)" and i: "i < length (ex_engines x)" and k: "k < length (en_tasks (ex_engines x ! i))"
  obtains r y where "exec_step (TaskOp i k) (sent, rs, x) = Inr (sent, rs @ r, y)" "exec_inv (sent, rs @ r, y)"
    "sum_list (map work (ex_engines y)) < sum_list (map work (ex_engines x))"
proof -
  let ?e = "ex_engines x ! i"
  have e: "engine_ok ?e" using inv i by (auto simp: exec_inv_def)
  from Engine_task_ok [OF e k] obtain fin r e' where t: "Engine_task k ?e = Inr (fin, r, e')" "engine_ok e'"
    "report_keys r + engine_keys e' = engine_keys ?e" "work e' < work ?e" by metis
  define y where "y = x\<lparr>ex_engines := (ex_engines x)[i := e'], ex_idle := (if fin then Some i else ex_idle x)\<rparr>"
  have run: "exec_step (TaskOp i k) (sent, rs, x) = Inr (sent, rs @ r, y)"
    using i k t(1) by (simp add: Executor_task_def y_def)
  have keys: "report_keys r + sum_list (map engine_keys (ex_engines y)) = sum_list (map engine_keys (ex_engines x))"
  proof -
    have "sum_list (map engine_keys (ex_engines y)) + (report_keys r + engine_keys e') =
        sum_list (map engine_keys (ex_engines x)) + engine_keys e'"
      using sum_list_update [OF i, of engine_keys e'] t(3) by (simp add: y_def)
    then show ?thesis by (simp add: ac_simps)
  qed
  have app: "report_keys (rs @ r) = report_keys rs + report_keys r" by (simp add: report_keys_def)
  have "report_keys (rs @ r) + sum_list (map engine_keys (ex_engines y)) = sum_list (map pack_keys sent)"
    unfolding app add.assoc keys using inv by (simp add: exec_inv_def)
  moreover have "\<forall>e\<in>set (ex_engines y). engine_ok e"
    using inv t(2) by (auto simp: exec_inv_def y_def dest: set_update_subset_insert [THEN subsetD])
  ultimately have "exec_inv (sent, rs @ r, y)" using inv i by (auto simp: exec_inv_def y_def split: option.splits)
  moreover have "sum_list (map work (ex_engines y)) < sum_list (map work (ex_engines x))"
    using sum_list_update [OF i, of work e'] t(4) by (simp add: y_def)
  ultimately show ?thesis using run that by blast
qed


lemma exec_step_ok:
  assumes "exec_inv st" and "case a of DispatchOp p \<Rightarrow> \<forall>it\<in>set (pk_data p). it_ctrl it \<noteq> None | _ \<Rightarrow> True"
  shows "\<exists>st'. exec_step a st = Inr st' \<and> exec_inv st'"
proof -
  obtain sent rs x where st: "st = (sent, rs, x)" by (cases st)
  show ?thesis
  proof (cases a)
    case (DispatchOp p)
    with assms exec_inv_dispatch show ?thesis unfolding st by simp
  next
    case (TaskOp i k)
    show ?thesis
    proof (cases "i < length (ex_engines x) \<and> k < length (en_tasks (ex_engines x ! i))")
      case True
      with exec_inv_task [of sent rs x i k] assms(1) show ?thesis unfolding st TaskOp by metis
    next
      case False
      with assms(1) show ?thesis unfolding st TaskOp exec_step.simps if_not_P [OF False] by blast
    qed
  qed
qed

definition sends_ok :: "'d exec_op list \<Rightarrow> bool" where
  "sends_ok ops \<longleftrightarrow> list_all (\<lambda>a. case a of DispatchOp p \<Rightarrow> list_all (\<lambda>it. it_ctrl it \<noteq> None) (pk_data p) | _ \<Rightarrow> True) ops"

lemma exec_run_ok: "exec_inv st \<Longrightarrow> sends_ok ops \<Longrightarrow> \<exists>st'. foldM exec_step ops st = Inr st' \<and> exec_inv st'"
proof (induction ops arbitrary: st)
  case (Cons a ops)
  have "case a of DispatchOp p \<Rightarrow> \<forall>it\<in>set (pk_data p). it_ctrl it \<noteq> None | _ \<Rightarrow> True" "sends_ok ops"
    using Cons.prems(2) by (auto simp: sends_ok_def list_all_iff split: exec_op.splits)
  with Cons.prems(1) obtain st' where "exec_step a st = Inr st'" "exec_inv st'" using exec_step_ok by blast
  with Cons.IH [of st'] \<open>sends_ok ops\<close> show ?case by simp
qed simp

subsection \<open>Making an executor\<close>

lemma Engine_Fork_nodes: "Engine_Fork fork e = Some e' \<Longrightarrow>
    en_tasks e' = [] \<and> en_task_num e' = 0 \<and> length (en_nodes e') = length (en_nodes e) \<and>
    (\<forall>pr\<in>set (en_nodes e'). \<exists>q\<in>set (en_nodes e). fork q = Some pr)"
  by (auto simp: Engine_Fork_def Engine_new_def Let_def image_iff split: if_splits) (metis option.exhaust_sel)

lemma fork_engines_ok:
  assumes "fork_engines fork e n = Some es" and "keeps_fork fork"
    and "en_nodes e \<noteq> []" and "\<forall>pr\<in>set (en_nodes e). keeps_items pr"
  shows "length es = n \<and> (\<forall>e'\<in>set es. engine_ok e' \<and> en_tasks e' = [] \<and> length (en_nodes e') = length (en_nodes e))"
  using assms(1)
proof (induction n arbitrary: es)
  case (Suc n)
  then obtain e1 es' where e: "Engine_Fork fork e = Some e1" "fork_engines fork e n = Some es'" "es = e1 # es'"
    by (auto split: option.splits)
  note F = Engine_Fork_nodes [OF e(1)]
  have "engine_ok e1" using F assms(2,4) assms(3) unfolding engine_ok_def keeps_fork_def by fastforce
  with Suc.IH [OF e(2)] e(3) F show ?case by simp
qed simp

lemma Executor_new_ok:
  assumes new: "Executor_new predictor fork pool dev desc = Inr x"
    and keep: "keeps_fork fork" "keeps_items (snd (snd predictor))" "keeps_desc desc"
  shows "exec_inv ([], [], x) \<and> length (ex_engines x) = unat (sd_engine_num desc) \<and>
    (\<forall>e\<in>set (ex_engines x). length (en_nodes e) = 3 \<and> en_tasks e = [])"
proof -
  obtain pn pi pre where pre: "sd_preproc desc = Some (pn, pi, pre)"
    using new by (cases "sd_preproc desc") (auto simp: Executor_new_def split: if_splits)
  obtain qn qi pred where pred: "predictor = (qn, qi, pred)" by (cases predictor)
  obtain on oi post where post: "sd_postproc desc = (on, oi, post)" by (cases "sd_postproc desc")
  let ?e0 = "Engine_new [pre, pred, post]"
  note [simp] = Executor_new_def pre pred post Let_def
  have n: "0 < sd_engine_num desc" "pool" "\<not> dev < 0" "\<not> sd_format_invalid desc" "pi = SUCCESS" "qi = SUCCESS" "oi = SUCCESS"
    using new by (simp_all split: if_splits)
  then obtain es where es: "fork_engines fork ?e0 (unat (sd_engine_num desc) - 1) = Some es"
    using new by (simp split: option.splits)
  obtain c where "Executor_cache desc = Inr c"
    using new n es by (simp split: sum.splits)
  with new n es have x: "ex_engines x = ?e0 # es" "ex_idle x = Some 0" by auto
  have e0: "engine_ok ?e0" "en_nodes ?e0 = [pre, pred, post]" "en_tasks ?e0 = []"
    using keep pre pred post by (auto simp: engine_ok_def Engine_new_def keeps_desc_def)
  have ne: "en_nodes ?e0 \<noteq> []" "\<forall>pr\<in>set (en_nodes ?e0). keeps_items pr"
    using e0(1) unfolding engine_ok_def by blast+
  have es_ok: "length es = unat (sd_engine_num desc) - 1"
    "\<forall>e'\<in>set es. engine_ok e' \<and> en_tasks e' = [] \<and> length (en_nodes e') = length (en_nodes ?e0)"
    using fork_engines_ok [OF es keep(1) ne] by blast+
  have "0 < unat (sd_engine_num desc)" using n(1) by (simp add: word_less_nat_alt)
  moreover have "engine_keys e = {#}" if "e \<in> set (?e0 # es)" for e
    using that e0(3) es_ok(2) by (auto simp: engine_keys_def)
  then have "sum_list (map engine_keys (?e0 # es)) = {#}" by (induction es) auto
  ultimately show ?thesis
    using x e0 es_ok by (auto simp: exec_inv_def report_keys_def)
qed

subsection \<open>Properties\<close>

text \<open>
  C20. Every item handed to the executor is reported to its request exactly once: for processors that
  keep a package's items, however the dispatcher and the tasks of all engines interleave, no task
  faults, the items reported together with the items still inside the engines are exactly the
  items dispatched, and each engine's task counter is the number of its tasks in the pool.
\<close>

theorem executor_reports_each_item_once:
  assumes "Executor_new predictor fork pool dev desc = Inr x" and "sends_ok ops"
    and "keeps_fork fork" and "keeps_items (snd (snd predictor))" and "keeps_desc desc"
  shows "\<exists>sent rs y. foldM exec_step ops ([], [], x) = Inr (sent, rs, y) \<and>
    report_keys rs + sum_list (map engine_keys (ex_engines y)) = sum_list (map pack_keys sent) \<and>
    list_all (\<lambda>e. en_task_num e = of_nat (length (en_tasks e))) (ex_engines y)"
proof -
  have "exec_inv ([], [], x)" using Executor_new_ok [OF assms(1,3-5)] by blast
  from exec_run_ok [OF this assms(2)] obtain sent rs y where
    "foldM exec_step ops ([], [], x) = Inr (sent, rs, y)" "exec_inv (sent, rs, y)" by (metis prod_cases3)
  then show ?thesis by (auto simp: exec_inv_def engine_ok_def list_all_iff)
qed


subsection \<open>Witnesses\<close>

definition demo_proc :: "unit processor" where
  "demo_proc p = (SUCCESS, p)"

definition demo_desc :: "unit SessionDesc" where
  "demo_desc = \<lparr>sd_name = ''s'', sd_model_key = ''m'', sd_model_batch = 4, sd_strategy = STATIC, sd_format_invalid = False,
     sd_preproc = Some (''pre'', SUCCESS, demo_proc), sd_postproc = (''post'', SUCCESS, demo_proc),
     sd_batch_timeout = 0, sd_priority = 0, sd_engine_num = 1\<rparr>"

definition demo_job :: "unit Package" where
  "demo_job = \<lparr>pk_data = [demo_item 0 0, demo_item 0 1], pk_predict_io = False, pk_priority = Some 0\<rparr>"

lemma keeps_demo: "keeps_items demo_proc"
  by (simp add: keeps_items_def demo_proc_def)

lemma demo_executor:
  obtains x where "Executor_new (''pred'', SUCCESS, demo_proc) Some True 0 demo_desc = Inr x"
    "exec_inv ([], [], x)" "ex_engines x = [Engine_new [demo_proc, demo_proc, demo_proc]]"
proof -
  let ?new = "Executor_new (''pred'', SUCCESS, demo_proc) Some True 0 demo_desc"
  obtain x where x: "?new = Inr x" "ex_engines x = [Engine_new [demo_proc, demo_proc, demo_proc]]"
    by (simp add: Executor_new_def Executor_cache_def demo_desc_def Let_def)
  have "keeps_fork (Some :: unit processor \<Rightarrow> unit processor option)" by (simp add: keeps_fork_def)
  with Executor_new_ok [OF x(1)] keeps_demo x show ?thesis
    by (intro that) (auto simp: demo_desc_def keeps_desc_def)
qed

theorem executor_reports_each_item_once_witness:
  "\<exists>x sent rs y. Executor_new (''pred'', SUCCESS, demo_proc) Some True 0 demo_desc = Inr x \<and>
     foldM exec_step [DispatchOp demo_job, TaskOp 0 0, TaskOp 0 0, TaskOp 0 0] ([], [], x) = Inr (sent, rs, y) \<and>
     report_keys rs + sum_list (map engine_keys (ex_engines y)) = sum_list (map pack_keys sent)"
proof -
  obtain x where x: "Executor_new (''pred'', SUCCESS, demo_proc) Some True 0 demo_desc = Inr x"
    by (rule demo_executor)
  have "sends_ok [DispatchOp demo_job, TaskOp 0 0, TaskOp 0 0, TaskOp 0 0]"
    by (simp add: sends_ok_def demo_job_def demo_item_def)
  from executor_reports_each_item_once [OF x this] keeps_demo x show ?thesis
    by (fastforce simp: demo_desc_def keeps_desc_def keeps_fork_def)
qed


end
