(* ===== verification/ThreadPool.thy ===== *)
theory ThreadPool
  imports Prelude
begin

section \<open>The thread pool of the inference server\<close>

text \<open>
  \<^verbatim>\<open>easydk/src/infer_server/util/thread_pool.cpp\<close>, \<^verbatim>\<open>thread_pool.h\<close> and \<^verbatim>\<open>threadsafe_queue.h\<close>.  Worker
  threads pop tasks of the highest priority and sleep on a condition variable when there are none.
  A worker is its program counter and its stop flag; each stretch between two points where another
  thread can interfere is one step.  A worker in \<open>WDecided\<close> holds the pool's mutex: it has found its
  wait predicate false and is about to sleep.  \<^verbatim>\<open>std::priority_queue\<close> does not say which of several
  tasks of equal priority comes first, so a step names the position of the popped task.
\<close>

datatype 't WState = WPop | WRun 't | WCheck | WWait | WDecided | WBlocked | WWoken | WExit

record 't Worker =
  w_state :: "'t WState"
  w_flag :: bool

datatype StopPc = SNone | SBegun | SJoining

record 't Pool =
  tp_queue :: "(int \<times> 't) list"
  tp_workers :: "'t Worker list"
  tp_threads :: "nat list"
  tp_done :: bool
  tp_stop :: bool
  tp_waiting :: u32
  tp_notifies :: nat
  tp_stopper :: StopPc
  tp_log :: "'t list"
  tp_dropped :: "'t list"

subsection \<open>The task queue\<close>

definition is_top :: "nat \<Rightarrow> (int \<times> 't) list \<Rightarrow> bool" where
  "is_top k q \<longleftrightarrow> k < length q \<and> (\<forall>e\<in>set q. fst e \<le> fst (q ! k))"

text \<open>\<^verbatim>\<open>TryPop\<close>, with the position of the task on top.\<close>

definition task_TryPop :: "nat \<Rightarrow> (int \<times> 't) list \<Rightarrow> ('t \<times> (int \<times> 't) list) option" where
  "task_TryPop k q = (if q = [] then None else Some (snd (q ! k), remove_nth k q))"

definition task_Emplace :: "int \<Rightarrow> 't \<Rightarrow> (int \<times> 't) list \<Rightarrow> (int \<times> 't) list" where
  "task_Emplace prio t q = q @ [(prio, t)]"

subsection \<open>The pool\<close>

definition set_worker :: "nat \<Rightarrow> 't WState \<Rightarrow> 't Pool \<Rightarrow> 't Pool" where
  "set_worker i st p = p\<lparr>tp_workers := (tp_workers p)[i := (tp_workers p ! i)\<lparr>w_state := st\<rparr>]\<rparr>"

definition mutex_free :: "'t Pool \<Rightarrow> bool" where
  "mutex_free p \<longleftrightarrow> (\<forall>w\<in>set (tp_workers p). w_state w \<noteq> WDecided)"

definition wake :: "'t Worker \<Rightarrow> 't Worker" where
  "wake w = (if w_state w = WBlocked then w\<lparr>w_state := WWoken\<rparr> else w)"

definition notify_all :: "'t Pool \<Rightarrow> 't Pool" where
  "notify_all p = p\<lparr>tp_workers := map wake (tp_workers p)\<rparr>"

definition set_flags :: "nat set \<Rightarrow> 't Worker list \<Rightarrow> 't Worker list" where
  "set_flags is ws = map2 (\<lambda>i w. if i \<in> is then w\<lparr>w_flag := True\<rparr> else w) [0..<length ws] ws"

text \<open>\<^verbatim>\<open>Resize\<close>: new threads start at their first \<^verbatim>\<open>TryPop\<close>, surplus ones are flagged and detached.\<close>

definition Pool_Resize :: "nat \<Rightarrow> 't Pool \<Rightarrow> 't Pool" where
  "Pool_Resize n p =
     (if tp_stop p \<or> tp_done p then p
      else if length (tp_threads p) \<le> n then
        (let m = n - length (tp_threads p); old = length (tp_workers p)
         in p\<lparr>tp_workers := tp_workers p @ replicate m \<lparr>w_state = WPop, w_flag = False\<rparr>,
              tp_threads := tp_threads p @ [old..<old + m]\<rparr>)
      else (notify_all (p\<lparr>tp_workers := set_flags (set (drop n (tp_threads p))) (tp_workers p)\<rparr>))
             \<lparr>tp_threads := take n (tp_threads p)\<rparr>)"

definition Pool_new :: "nat \<Rightarrow> 't Pool" where
  "Pool_new n = Pool_Resize n
     \<lparr>tp_queue = [], tp_workers = [], tp_threads = [], tp_done = False, tp_stop = False, tp_waiting = 0,
      tp_notifies = 0, tp_stopper = SNone, tp_log = [], tp_dropped = []\<rparr>"

definition Pool_Size :: "'t Pool \<Rightarrow> nat" where
  "Pool_Size p = length (tp_threads p)"

definition Pool_IdleNumber :: "'t Pool \<Rightarrow> u32" where
  "Pool_IdleNumber p = tp_waiting p"

definition Pool_ClearQueue :: "'t Pool \<Rightarrow> 't Pool" where
  "Pool_ClearQueue p = p\<lparr>tp_queue := [], tp_dropped := tp_dropped p @ map snd (tp_queue p)\<rparr>"

text \<open>\<^verbatim>\<open>VoidPush\<close>: the task is queued, then one sleeping worker is notified, without the pool's mutex.\<close>

definition Pool_VoidPush :: "int \<Rightarrow> 't \<Rightarrow> 't Pool \<Rightarrow> 't Pool" where
  "Pool_VoidPush prio t p = p\<lparr>tp_queue := task_Emplace prio t (tp_queue p), tp_notifies := tp_notifies p + 1\<rparr>"

definition Pool_notify_one :: "nat \<Rightarrow> 't Pool \<Rightarrow> 't Pool" where
  "Pool_notify_one j p =
     (if j < length (tp_workers p) \<and> w_state (tp_workers p ! j) = WBlocked
      then (set_worker j WWoken p)\<lparr>tp_notifies := tp_notifies p - 1\<rparr>
      else if \<exists>w\<in>set (tp_workers p). w_state w = WBlocked then p
      else p\<lparr>tp_notifies := tp_notifies p - 1\<rparr>)"

text \<open>\<^verbatim>\<open>Stop\<close> in three stretches: the commands, the notification, and the end after the joins.\<close>

definition Pool_Stop_begin :: "bool \<Rightarrow> 't Pool \<Rightarrow> 't Pool" where
  "Pool_Stop_begin wait_all p =
     (if \<not> wait_all then
        (if tp_stop p then p
         else Pool_ClearQueue (p\<lparr>tp_stop := True, tp_stopper := SBegun,
           tp_workers := set_flags (set (tp_threads p)) (tp_workers p)\<rparr>))
      else if tp_done p \<or> tp_stop p then p else p\<lparr>tp_done := True, tp_stopper := SBegun\<rparr>)"

definition Pool_Stop_notify :: "'t Pool \<Rightarrow> 't Pool" where
  "Pool_Stop_notify p = (notify_all p)\<lparr>tp_stopper := SJoining\<rparr>"

definition all_exited :: "'t Pool \<Rightarrow> bool" where
  "all_exited p \<longleftrightarrow> (\<forall>i\<in>set (tp_threads p). w_state (tp_workers p ! i) = WExit)"

definition Pool_Stop_end :: "'t Pool \<Rightarrow> 't Pool" where
  "Pool_Stop_end p = (Pool_ClearQueue p)\<lparr>tp_threads := [], tp_stopper := SNone\<rparr>"

subsection \<open>A worker\<close>

text \<open>The wait predicate, evaluated with the mutex held; \<open>counted\<close> is \<^verbatim>\<open>n_waiting_\<close> with this worker.\<close>

definition Worker_predicate :: "nat \<Rightarrow> nat \<Rightarrow> u32 \<Rightarrow> 't Pool \<Rightarrow> 't Pool" where
  "Worker_predicate i k counted p =
     (case task_TryPop k (tp_queue p) of
        Some (t, q) \<Rightarrow> set_worker i (WRun t) (p\<lparr>tp_queue := q, tp_waiting := counted - 1\<rparr>)
      | None \<Rightarrow>
          (if tp_done p \<or> w_flag (tp_workers p ! i) then set_worker i WExit (p\<lparr>tp_waiting := counted - 1\<rparr>)
           else set_worker i WDecided (p\<lparr>tp_waiting := counted\<rparr>)))"

definition Worker_step :: "nat \<Rightarrow> nat \<Rightarrow> 't Pool \<Rightarrow> 't Pool" where
  "Worker_step i k p =
     (case w_state (tp_workers p ! i) of
        WPop \<Rightarrow>
          (case task_TryPop k (tp_queue p) of
             Some (t, q) \<Rightarrow> set_worker i (WRun t) (p\<lparr>tp_queue := q\<rparr>)
           | None \<Rightarrow> set_worker i WWait p)
      | WRun t \<Rightarrow> set_worker i WCheck (p\<lparr>tp_log := tp_log p @ [t]\<rparr>)
      | WCheck \<Rightarrow> set_worker i (if w_flag (tp_workers p ! i) then WExit else WPop) p
      | WWait \<Rightarrow> (if mutex_free p then Worker_predicate i k (tp_waiting p + 1) p else p)
      | WWoken \<Rightarrow> (if mutex_free p then Worker_predicate i k (tp_waiting p) p else p)
      | WDecided \<Rightarrow> set_worker i WBlocked p
      | WBlocked \<Rightarrow> p
      | WExit \<Rightarrow> p)"

subsection \<open>Runs\<close>

text \<open>A task is pushed from outside (\<open>None\<close>) or by the task that a worker is running.\<close>

datatype 't pool_op =
    PushOp "nat option" int 't | NotifyOp nat | SpuriousOp nat | WorkerOp nat nat | ResizeOp nat
  | StopOp bool | StopNotifyOp | StopEndOp

definition running :: "'t Pool \<Rightarrow> nat \<Rightarrow> bool" where
  "running p i \<longleftrightarrow> i < length (tp_workers p) \<and> (case w_state (tp_workers p ! i) of WRun _ \<Rightarrow> True | _ \<Rightarrow> False)"

fun pool_step :: "'t pool_op \<Rightarrow> 't Pool \<Rightarrow> 't Pool" where
  "pool_step (PushOp src prio t) p =
     (if (case src of None \<Rightarrow> True | Some i \<Rightarrow> running p i) then Pool_VoidPush prio t p else p)"
| "pool_step (NotifyOp j) p = (if 0 < tp_notifies p then Pool_notify_one j p else p)"
| "pool_step (SpuriousOp j) p =
     (if j < length (tp_workers p) \<and> w_state (tp_workers p ! j) = WBlocked then set_worker j WWoken p else p)"
| "pool_step (WorkerOp i k) p =
     (if i < length (tp_workers p) \<and> (tp_queue p \<noteq> [] \<longrightarrow> is_top k (tp_queue p)) then Worker_step i k p else p)"
| "pool_step (ResizeOp n) p = (if mutex_free p \<and> tp_stopper p = SNone then Pool_Resize n p else p)"
| "pool_step (StopOp w) p = (if tp_stopper p = SNone then Pool_Stop_begin w p else p)"
| "pool_step StopNotifyOp p = (if mutex_free p \<and> tp_stopper p = SBegun then Pool_Stop_notify p else p)"
| "pool_step StopEndOp p = (if tp_stopper p = SJoining \<and> all_exited p then Pool_Stop_end p else p)"

abbreviation pool_run :: "'t pool_op list \<Rightarrow> 't Pool \<Rightarrow> 't Pool" where
  "pool_run ops p \<equiv> fold pool_step ops p"


subsection \<open>No task is lost or run twice\<close>

fun pushed :: "'t pool_op list \<Rightarrow> 't Pool \<Rightarrow> 't list" where
  "pushed [] p = []"
| "pushed (a # ops) p =
     (case a of PushOp src prio t \<Rightarrow> if (case src of None \<Rightarrow> True | Some i \<Rightarrow> running p i) then [t] else [] | _ \<Rightarrow> []) @
     pushed ops (pool_step a p)"

definition run_of :: "'t Worker \<Rightarrow> 't multiset" where
  "run_of w = (case w_state w of WRun t \<Rightarrow> {#t#} | _ \<Rightarrow> {#})"

definition sleeping :: "'t Worker \<Rightarrow> u32" where
  "sleeping w = (if w_state w \<in> {WDecided, WBlocked, WWoken} then 1 else 0)"

definition held :: "'t Pool \<Rightarrow> 't multiset" where
  "held p = mset (map snd (tp_queue p)) + sum_list (map run_of (tp_workers p)) + mset (tp_log p) + mset (tp_dropped p)"

definition count_ok :: "'t Pool \<Rightarrow> bool" where
  "count_ok p \<longleftrightarrow> tp_waiting p = sum_list (map sleeping (tp_workers p))"

lemma map_update_same: "i < length ws \<Longrightarrow> f y = f (ws ! i) \<Longrightarrow> map f (ws[i := y]) = map f ws"
  by (simp add: map_update list_update_same_conv)

lemma run_of_flag [simp]: "run_of (w\<lparr>w_flag := b\<rparr>) = run_of w" "sleeping (w\<lparr>w_flag := b\<rparr>) = sleeping w"
  "run_of (wake w) = run_of w" "sleeping (wake w) = sleeping w"
  by (simp_all add: run_of_def sleeping_def wake_def)

lemma run_of_wake [simp]: "run_of \<circ> wake = run_of" "sleeping \<circ> wake = sleeping"
  by (simp_all add: fun_eq_iff)

lemma length_set_flags [simp]: "length (set_flags is ws) = length ws"
  by (simp add: set_flags_def)

lemma nth_set_flags [simp]: "i < length ws \<Longrightarrow> set_flags is ws ! i = (if i \<in> is then (ws ! i)\<lparr>w_flag := True\<rparr> else ws ! i)"
  by (simp add: set_flags_def)

lemma map_set_flags [simp]: "map run_of (set_flags is ws) = map run_of ws" "map sleeping (set_flags is ws) = map sleeping ws"
  by (rule nth_equalityI; simp)+

lemma busy_set_worker:
  assumes "i < length (tp_workers p)"
  shows "sum_list (map run_of (tp_workers (set_worker i st p))) + run_of (tp_workers p ! i) =
      sum_list (map run_of (tp_workers p)) + run_of \<lparr>w_state = st, w_flag = b\<rparr>"
    and "sum_list (map sleeping (tp_workers (set_worker i st p))) =
      sum_list (map sleeping (tp_workers p)) + sleeping \<lparr>w_state = st, w_flag = b\<rparr> - sleeping (tp_workers p ! i)"
proof -
  have f: "run_of (w\<lparr>w_state := st\<rparr>) = run_of \<lparr>w_state = st, w_flag = b\<rparr>"
    "sleeping (w\<lparr>w_state := st\<rparr>) = sleeping \<lparr>w_state = st, w_flag = b\<rparr>" for w :: "'a Worker"
    by (simp_all add: run_of_def sleeping_def)
  show "sum_list (map run_of (tp_workers (set_worker i st p))) + run_of (tp_workers p ! i) =
      sum_list (map run_of (tp_workers p)) + run_of \<lparr>w_state = st, w_flag = b\<rparr>"
    unfolding set_worker_def Pool.select_convs Pool.update_convs
    using sum_list_update [OF assms, of run_of "(tp_workers p ! i)\<lparr>w_state := st\<rparr>"] by (simp add: f)
  show "sum_list (map sleeping (tp_workers (set_worker i st p))) =
      sum_list (map sleeping (tp_workers p)) + sleeping \<lparr>w_state = st, w_flag = b\<rparr> - sleeping (tp_workers p ! i)"
    using sum_list_update [OF assms, of sleeping "(tp_workers p ! i)\<lparr>w_state := st\<rparr>"]
    by (simp add: set_worker_def f eq_diff_eq)
qed

lemma set_worker_simps [simp]:
  "tp_queue (set_worker i st p) = tp_queue p" "tp_log (set_worker i st p) = tp_log p"
  "tp_dropped (set_worker i st p) = tp_dropped p" "tp_waiting (set_worker i st p) = tp_waiting p"
  "tp_done (set_worker i st p) = tp_done p" "tp_stop (set_worker i st p) = tp_stop p"
  "tp_threads (set_worker i st p) = tp_threads p" "tp_stopper (set_worker i st p) = tp_stopper p"
  "length (tp_workers (set_worker i st p)) = length (tp_workers p)"
  by (simp_all add: set_worker_def)

lemma TryPop_mset:
  "task_TryPop k q = Some (t, q') \<Longrightarrow> k < length q \<Longrightarrow> mset (map snd q) = add_mset t (mset (map snd q'))"
  using remove_nth_split [of k q] by (auto simp: task_TryPop_def split: if_splits)

text \<open>A change of one worker's state, the queue, the log and the counter together.\<close>

lemma held_set_worker:
  assumes i: "i < length (tp_workers p)"
    and m: "mset (map snd (tp_queue q)) + run_of \<lparr>w_state = st, w_flag = False\<rparr> + mset (tp_log q) + mset (tp_dropped q) =
      mset (map snd (tp_queue p)) + run_of (tp_workers p ! i) + mset (tp_log p) + mset (tp_dropped p)"
    and w: "tp_workers q = tp_workers p"
  shows "held (set_worker i st q) = held p"
proof -
  have i': "i < length (tp_workers q)" using i w by simp
  note B = busy_set_worker(1) [OF i', of st False]
  have "held (set_worker i st q) + run_of (tp_workers p ! i) = held p + run_of (tp_workers p ! i)"
  proof -
    have "held (set_worker i st q) + run_of (tp_workers p ! i) =
        mset (map snd (tp_queue q)) + mset (tp_log q) + mset (tp_dropped q) +
        (sum_list (map run_of (tp_workers (set_worker i st q))) + run_of (tp_workers q ! i))"
      by (simp add: held_def w ac_simps)
    also have "\<dots> = (mset (map snd (tp_queue q)) + run_of \<lparr>w_state = st, w_flag = False\<rparr> + mset (tp_log q) + mset (tp_dropped q)) +
        sum_list (map run_of (tp_workers p))"
      unfolding B by (simp add: w ac_simps)
    also have "\<dots> = held p + run_of (tp_workers p ! i)" unfolding m by (simp add: held_def ac_simps)
    finally show ?thesis .
  qed
  then show ?thesis by simp
qed

lemma held_Worker_step:
  assumes i: "i < length (tp_workers p)" and k: "tp_queue p \<noteq> [] \<Longrightarrow> is_top k (tp_queue p)"
  shows "held (Worker_step i k p) = held p"
proof -
  have pop: "image_mset snd (mset (tp_queue p)) = add_mset t (image_mset snd (mset q))" if "task_TryPop k (tp_queue p) = Some (t, q)" for t q
    using that k TryPop_mset [OF that] by (auto simp: is_top_def task_TryPop_def split: if_splits)
  have none: "tp_queue p = []" if "task_TryPop k (tp_queue p) = None"
    using that by (auto simp: task_TryPop_def split: if_splits)
  show ?thesis
    by (cases "w_state (tp_workers p ! i)")
      (auto simp: Worker_step_def Worker_predicate_def run_of_def pop split: option.splits
        intro!: held_set_worker [OF i])
qed

lemma count_Worker_step:
  assumes i: "i < length (tp_workers p)" and ok: "count_ok p"
  shows "count_ok (Worker_step i k p)"
proof -
  have B: "tp_workers q = tp_workers p \<Longrightarrow> sum_list (map sleeping (tp_workers (set_worker i st q))) =
      tp_waiting p + sleeping \<lparr>w_state = st, w_flag = False\<rparr> - sleeping (tp_workers p ! i)" for st q
    using busy_set_worker(2) [of i q st False] i ok by (simp add: count_ok_def)
  show ?thesis
    by (cases "w_state (tp_workers p ! i)")
      (auto simp: Worker_step_def Worker_predicate_def count_ok_def B sleeping_def split: option.splits
        simp: ok [unfolded count_ok_def, symmetric])
qed

lemma sum_list_empty [simp]: "sum_list (replicate m {#}) = {#}"
  by (induction m) auto

lemma held_resize: "held (Pool_Resize n p) = held p \<and> (count_ok p \<longrightarrow> count_ok (Pool_Resize n p))"
  by (auto simp: Pool_Resize_def Let_def notify_all_def held_def count_ok_def run_of_def sleeping_def sum_list_replicate
      simp flip: run_of_def [abs_def] sleeping_def [abs_def])


lemma held_step:
  "held (pool_step a p) = held p + mset (pushed [a] p) \<and> (count_ok p \<longrightarrow> count_ok (pool_step a p))"
proof (cases a)
  case (PushOp src prio t)
  then show ?thesis by (auto simp: Pool_VoidPush_def task_Emplace_def held_def count_ok_def)
next
  case (NotifyOp j)
  have "held (set_worker j WWoken p) = held p \<and> (count_ok p \<longrightarrow> count_ok (set_worker j WWoken p))"
    if "j < length (tp_workers p)" "w_state (tp_workers p ! j) = WBlocked"
    using held_set_worker [OF that(1), of p WWoken] busy_set_worker(2) [OF that(1), of WWoken False] that(2)
    by (simp add: run_of_def count_ok_def sleeping_def)
  then show ?thesis using NotifyOp by (auto simp: Pool_notify_one_def held_def count_ok_def)
next
  case (SpuriousOp j)
  have "held (set_worker j WWoken p) = held p \<and> (count_ok p \<longrightarrow> count_ok (set_worker j WWoken p))"
    if "j < length (tp_workers p)" "w_state (tp_workers p ! j) = WBlocked"
    using held_set_worker [OF that(1), of p WWoken] busy_set_worker(2) [OF that(1), of WWoken False] that(2)
    by (simp add: run_of_def count_ok_def sleeping_def)
  then show ?thesis using SpuriousOp by auto
next
  case (WorkerOp i k)
  then show ?thesis using held_Worker_step count_Worker_step by auto
next
  case (ResizeOp n)
  then show ?thesis using held_resize by auto
qed (auto simp: Pool_Stop_begin_def Pool_Stop_notify_def Pool_Stop_end_def Pool_ClearQueue_def notify_all_def held_def count_ok_def)

lemma held_run:
  "held (pool_run ops p) = held p + mset (pushed ops p) \<and> (count_ok p \<longrightarrow> count_ok (pool_run ops p))"
proof (induction ops arbitrary: p)
  case (Cons a ops)
  have "mset (pushed (a # ops) p) = mset (pushed [a] p) + mset (pushed ops (pool_step a p))" by simp
  then show ?case using Cons.IH [of "pool_step a p"] held_step [of a p] by (simp del: pushed.simps)
qed simp

lemma held_new: "held (Pool_new n :: 't Pool) = {#} \<and> count_ok (Pool_new n :: 't Pool)"
proof -
  define p where "p = (\<lparr>tp_queue = [], tp_workers = [], tp_threads = [], tp_done = False, tp_stop = False, tp_waiting = 0,
      tp_notifies = 0, tp_stopper = SNone, tp_log = [], tp_dropped = []\<rparr> :: 't Pool)"
  have "held p = {#}" "count_ok p" by (simp_all add: p_def held_def count_ok_def)
  with held_resize [of n p] show ?thesis by (simp add: Pool_new_def flip: p_def)
qed

subsection \<open>Stopping\<close>

definition active :: "'t Worker \<Rightarrow> bool" where
  "active w \<longleftrightarrow> w_state w \<noteq> WExit"

text \<open>Workers that are neither in \<^verbatim>\<open>threads_\<close> nor flagged have ended, and nobody ends for no reason.\<close>

definition stop_inv :: "'t Pool \<Rightarrow> bool" where
  "stop_inv p \<longleftrightarrow>
     (\<forall>i\<in>set (tp_threads p). i < length (tp_workers p)) \<and>
     (\<forall>i<length (tp_workers p). i \<in> set (tp_threads p) \<or> w_flag (tp_workers p ! i) \<or> \<not> active (tp_workers p ! i)) \<and>
     (\<forall>w\<in>set (tp_workers p). \<not> active w \<longrightarrow> tp_done p \<or> w_flag w) \<and>
     (tp_stopper p \<noteq> SNone \<longrightarrow> tp_done p \<or> (\<forall>w\<in>set (tp_workers p). w_flag w \<or> \<not> active w)) \<and>
     (tp_stopper p = SJoining \<longrightarrow> (\<forall>w\<in>set (tp_workers p). w_state w \<noteq> WDecided \<and> w_state w \<noteq> WBlocked))"

lemma set_worker_nth:
  "j < length (tp_workers p) \<Longrightarrow>
     tp_workers (set_worker i st p) ! j = (if i = j then (tp_workers p ! i)\<lparr>w_state := st\<rparr> else tp_workers p ! j)"
  by (simp add: set_worker_def)

lemma stop_inv_iff:
  "stop_inv p \<longleftrightarrow>
     (\<forall>i\<in>set (tp_threads p). i < length (tp_workers p)) \<and>
     (\<forall>i<length (tp_workers p). (i \<in> set (tp_threads p) \<or> w_flag (tp_workers p ! i) \<or> \<not> active (tp_workers p ! i)) \<and>
       (\<not> active (tp_workers p ! i) \<longrightarrow> tp_done p \<or> w_flag (tp_workers p ! i)) \<and>
       (tp_stopper p \<noteq> SNone \<longrightarrow> tp_done p \<or> w_flag (tp_workers p ! i) \<or> \<not> active (tp_workers p ! i)) \<and>
       (tp_stopper p = SJoining \<longrightarrow> w_state (tp_workers p ! i) \<noteq> WDecided \<and> w_state (tp_workers p ! i) \<noteq> WBlocked))"
  unfolding stop_inv_def all_set_conv_all_nth by blast

text \<open>A worker's new state only has to satisfy what concerns that worker.\<close>

lemma stop_inv_set_worker:
  assumes inv: "stop_inv p" and i: "i < length (tp_workers p)"
    and same: "tp_workers q = tp_workers p" "tp_threads q = tp_threads p" "tp_done q = tp_done p" "tp_stopper q = tp_stopper p"
    and st: "st = WExit \<Longrightarrow> tp_done p \<or> w_flag (tp_workers p ! i)"
      "st \<noteq> WExit \<Longrightarrow> active (tp_workers p ! i)" "tp_stopper p = SJoining \<Longrightarrow> st \<noteq> WDecided \<and> st \<noteq> WBlocked"
  shows "stop_inv (set_worker i st q)"
  using inv i st unfolding stop_inv_iff
  by (auto simp: set_worker_def same nth_list_update active_def)

lemma stop_inv_Worker_step:
  assumes inv: "stop_inv p" and i: "i < length (tp_workers p)"
  shows "stop_inv (Worker_step i k p)"
proof -
  have j: "tp_stopper p = SJoining \<Longrightarrow> active (tp_workers p ! i) \<Longrightarrow> tp_done p \<or> w_flag (tp_workers p ! i)"
    "tp_stopper p = SJoining \<Longrightarrow> w_state (tp_workers p ! i) \<noteq> WDecided \<and> w_state (tp_workers p ! i) \<noteq> WBlocked"
    using inv i by (auto simp: stop_inv_iff)
  show ?thesis
    by (cases "w_state (tp_workers p ! i)")
      (use j in \<open>auto simp: Worker_step_def Worker_predicate_def active_def inv split: option.splits
        intro!: stop_inv_set_worker [OF inv i]\<close>)
qed

lemma stop_inv_resize:
  assumes inv: "stop_inv p" and none: "tp_stopper p = SNone"
  shows "stop_inv (Pool_Resize n p)"
proof -
  let ?ws = "tp_workers p" and ?ts = "tp_threads p"
  consider (off) "tp_stop p \<or> tp_done p" | (grow) "\<not> (tp_stop p \<or> tp_done p)" "length ?ts \<le> n"
    | (shrink) "\<not> (tp_stop p \<or> tp_done p)" "\<not> length ?ts \<le> n" by blast
  then show ?thesis
  proof cases
    case off
    with inv show ?thesis by (simp add: Pool_Resize_def)
  next
    case grow
    define q where "q = Pool_Resize n p"
    define m where "m = n - length ?ts"
    have q: "tp_workers q = ?ws @ replicate m \<lparr>w_state = WPop, w_flag = False\<rparr>"
      "tp_threads q = ?ts @ [length ?ws..<length ?ws + m]" "tp_done q = tp_done p" "tp_stopper q = SNone"
      using grow none by (simp_all add: q_def m_def Pool_Resize_def Let_def)
    have "stop_inv q"
      using inv unfolding stop_inv_iff q by (auto simp: nth_append active_def)
    then show ?thesis by (simp add: q_def)
  next
    case shrink
    define q where "q = Pool_Resize n p"
    have q: "tp_workers q = map wake (set_flags (set (drop n ?ts)) ?ws)" "tp_threads q = take n ?ts"
      "tp_done q = tp_done p" "tp_stopper q = SNone"
      using shrink none by (simp_all add: q_def Pool_Resize_def notify_all_def)
    have ts: "i \<in> set ?ts \<longleftrightarrow> i \<in> set (take n ?ts) \<or> i \<in> set (drop n ?ts)" for i
      by (metis Un_iff append_take_drop_id set_append)
    have w: "w_flag (wake w) = w_flag w" "active (wake w) = active w" "active (w\<lparr>w_flag := True\<rparr>) = active w" for w :: "'a Worker"
      by (simp_all add: wake_def active_def)
    have "stop_inv q"
      using inv unfolding stop_inv_iff q by (auto simp: w ts)
    then show ?thesis by (simp add: q_def)
  qed
qed

lemma stop_inv_step:
  assumes inv: "stop_inv p"
  shows "stop_inv (pool_step a p)"
proof (cases a)
  case (PushOp src prio t)
  then show ?thesis using inv by (simp add: Pool_VoidPush_def stop_inv_def)
next
  case (NotifyOp j)
  have "stop_inv (set_worker j WWoken p)" if "j < length (tp_workers p)" "w_state (tp_workers p ! j) = WBlocked"
    by (rule stop_inv_set_worker [OF inv that(1)]) (use that in \<open>auto simp: active_def\<close>)
  then show ?thesis using inv NotifyOp by (auto simp: Pool_notify_one_def stop_inv_def)
next
  case (SpuriousOp j)
  have "stop_inv (set_worker j WWoken p)" if "j < length (tp_workers p)" "w_state (tp_workers p ! j) = WBlocked"
    by (rule stop_inv_set_worker [OF inv that(1)]) (use that in \<open>auto simp: active_def\<close>)
  then show ?thesis using inv SpuriousOp by auto
next
  case (WorkerOp i k)
  then show ?thesis using inv stop_inv_Worker_step [OF inv] by auto
next
  case (ResizeOp n)
  then show ?thesis using inv stop_inv_resize by auto
next
  case (StopOp w)
  have "stop_inv (Pool_Stop_begin w p)" if "tp_stopper p = SNone"
    using inv that unfolding stop_inv_iff
    by (auto simp: Pool_Stop_begin_def Pool_ClearQueue_def active_def)
  then show ?thesis using inv StopOp by auto
next
  case StopNotifyOp
  have w: "w_flag (wake w) = w_flag w" "active (wake w) = active w" "w_state (wake w) \<noteq> WBlocked"
    "w_state (wake w) = WDecided \<longleftrightarrow> w_state w = WDecided" for w :: "'a Worker"
    by (auto simp: wake_def active_def)
  have "stop_inv (Pool_Stop_notify p)" if "mutex_free p" "tp_stopper p = SBegun"
    using inv that unfolding stop_inv_iff by (auto simp: Pool_Stop_notify_def notify_all_def w mutex_free_def)
  then show ?thesis using inv StopNotifyOp by auto
next
  case StopEndOp
  have "stop_inv (Pool_Stop_end p)" if "all_exited p"
    using inv that unfolding stop_inv_iff by (auto simp: Pool_Stop_end_def Pool_ClearQueue_def all_exited_def active_def)
  then show ?thesis using inv StopEndOp by auto
qed

lemma stop_inv_run: "stop_inv p \<Longrightarrow> stop_inv (pool_run ops p)"
  by (induction ops arbitrary: p) (auto simp: stop_inv_step)

lemma stop_inv_new: "stop_inv (Pool_new n)"
  by (simp add: Pool_new_def Pool_Resize_def stop_inv_iff active_def)


subsection \<open>Draining the queue\<close>

text \<open>After \<^verbatim>\<open>is_done_\<close> is set only running tasks push: the owner of the pool is stopping it.\<close>

fun quiet :: "'t pool_op list \<Rightarrow> 't Pool \<Rightarrow> bool" where
  "quiet [] p = True"
| "quiet (a # ops) p =
     ((tp_done p \<longrightarrow> (case a of PushOp None _ _ \<Rightarrow> False | _ \<Rightarrow> True)) \<and> quiet ops (pool_step a p))"

definition noflag :: "'t Worker list \<Rightarrow> bool" where
  "noflag ws \<longleftrightarrow> (\<forall>i<length ws. \<not> w_flag (ws ! i))"

abbreviation unflagged :: "'t Pool \<Rightarrow> bool" where
  "unflagged p \<equiv> noflag (tp_workers p)"

definition drained :: "'t Pool \<Rightarrow> bool" where
  "drained p \<longleftrightarrow> (tp_done p \<and> tp_threads p \<noteq> [] \<longrightarrow>
     tp_queue p = [] \<or> (\<exists>i\<in>set (tp_threads p). active (tp_workers p ! i)))"

definition drop_inv :: "'t Pool \<Rightarrow> bool" where
  "drop_inv p \<longleftrightarrow>
     (tp_stopper p \<noteq> SNone \<longrightarrow> tp_stop p \<or> tp_done p) \<and>
     (tp_dropped p \<noteq> [] \<longrightarrow> (tp_stop p \<or> tp_done p) \<and> (tp_threads p = [] \<or> \<not> unflagged p))"

lemma wake_simps [simp]: "w_flag (wake w) = w_flag w" "active (wake w) = active w"
  by (simp_all add: wake_def active_def)

lemma noflag_simps [simp]:
  "noflag (map wake ws) = noflag ws" "i < length ws \<Longrightarrow> noflag (ws[i := (ws ! i)\<lparr>w_state := st\<rparr>]) = noflag ws"
  by (auto simp: noflag_def nth_list_update)

lemma noflag_append: "noflag (ws @ replicate m \<lparr>w_state = WPop, w_flag = False\<rparr>) = noflag ws"
  by (auto simp: noflag_def nth_append)

lemma noflag_set_flags: "noflag (set_flags is ws) \<longleftrightarrow> noflag ws \<and> (\<forall>i\<in>is. length ws \<le> i)"
  by (auto simp: noflag_def not_less [symmetric])

lemma noflag_set_worker [simp]: "i < length (tp_workers p) \<Longrightarrow> unflagged (set_worker i st p) = unflagged p"
  by (simp add: set_worker_def)

lemma Worker_step_same:
  "tp_threads (Worker_step i k p) = tp_threads p" "tp_done (Worker_step i k p) = tp_done p"
  "tp_stop (Worker_step i k p) = tp_stop p" "tp_stopper (Worker_step i k p) = tp_stopper p"
  "tp_dropped (Worker_step i k p) = tp_dropped p" "length (tp_workers (Worker_step i k p)) = length (tp_workers p)"
  "i < length (tp_workers p) \<Longrightarrow> unflagged (Worker_step i k p) = unflagged p"
  by (auto simp: Worker_step_def Worker_predicate_def split: WState.splits option.splits)

lemma unflagged_back: "unflagged (pool_step a p) \<Longrightarrow> unflagged p"
  by (cases a)
    (auto simp: Pool_VoidPush_def Pool_notify_one_def Worker_step_same Pool_Resize_def Let_def notify_all_def
      Pool_Stop_begin_def Pool_ClearQueue_def Pool_Stop_notify_def Pool_Stop_end_def noflag_append noflag_set_flags
      split: if_splits)

lemma unflagged_run_back: "unflagged (pool_run ops p) \<Longrightarrow> unflagged p"
  by (induction ops arbitrary: p) (auto dest: unflagged_back)

lemma drop_inv_step:
  assumes "drop_inv p" and "stop_inv p"
  shows "drop_inv (pool_step a p)"
proof (cases a)
  case (WorkerOp i k)
  with assms show ?thesis by (auto simp: drop_inv_def Worker_step_same)
next
  case (ResizeOp n)
  with assms show ?thesis by (auto simp: drop_inv_def Pool_Resize_def Let_def notify_all_def)
next
  case (StopOp w)
  have "\<not> noflag (set_flags (set (tp_threads p)) (tp_workers p))" if "tp_threads p \<noteq> []"
    using assms(2) that by (cases "tp_threads p") (auto simp: noflag_set_flags stop_inv_def)
  then show ?thesis using assms(1) StopOp
    by (auto simp: drop_inv_def Pool_Stop_begin_def Pool_ClearQueue_def)
qed (use assms in \<open>auto simp: drop_inv_def Pool_VoidPush_def Pool_notify_one_def Pool_Stop_notify_def
    Pool_Stop_end_def Pool_ClearQueue_def notify_all_def split: if_splits\<close>)

text \<open>A worker that ends, in a pool without flags, has just seen the queue empty.\<close>

lemma Worker_step_drains:
  assumes i: "i < length (tp_workers p)" and nf: "unflagged p"
    and d: "tp_queue p = [] \<or> (\<exists>j\<in>set (tp_threads p). active (tp_workers p ! j))"
    and th: "\<forall>j\<in>set (tp_threads p). j < length (tp_workers p)"
  shows "tp_queue (Worker_step i k p) = [] \<or> (\<exists>j\<in>set (tp_threads p). active (tp_workers (Worker_step i k p) ! j))"
proof (cases "tp_queue (Worker_step i k p) = []")
  case False
  then have ne: "tp_queue p \<noteq> []"
    by (auto simp: Worker_step_def Worker_predicate_def task_TryPop_def split: WState.splits option.splits if_splits)
  then obtain j where j: "j \<in> set (tp_threads p)" "active (tp_workers p ! j)" using d by blast
  have jl: "j < length (tp_workers p)" using th j(1) by blast
  have "\<not> w_flag (tp_workers p ! i)" using nf i by (simp add: noflag_def)
  then have "active (tp_workers (Worker_step i k p) ! j)"
    using ne j(2) jl i
    by (auto simp: Worker_step_def Worker_predicate_def task_TryPop_def set_worker_def active_def nth_list_update
        split: WState.splits option.splits)
  with j(1) show ?thesis by blast
qed simp

lemma drained_step:
  assumes inv: "stop_inv p" and nf: "unflagged (pool_step a p)" and d: "drained p"
    and q: "tp_done p \<Longrightarrow> (case a of PushOp None _ _ \<Rightarrow> False | _ \<Rightarrow> True)"
  shows "drained (pool_step a p)"
proof -
  have nfp: "unflagged p" by (rule unflagged_back [OF nf])
  have th: "\<forall>j\<in>set (tp_threads p). j < length (tp_workers p)" using inv by (simp add: stop_inv_def)
  show ?thesis
  proof (cases a)
    case (PushOp src prio t)
    show ?thesis
    proof (cases src)
      case None
      then show ?thesis using q PushOp by (auto simp: drained_def Pool_VoidPush_def)
    next
      case (Some i)
      have "i \<in> set (tp_threads p) \<and> active (tp_workers p ! i)" if "running p i"
        using inv that nfp by (auto simp: stop_inv_iff running_def noflag_def active_def split: WState.splits)
      then show ?thesis using d PushOp Some by (auto simp: drained_def Pool_VoidPush_def)
    qed
  next
    case (NotifyOp j)
    then show ?thesis using d th
      by (auto simp: drained_def Pool_notify_one_def set_worker_nth) (auto simp: active_def)
  next
    case (SpuriousOp j)
    then show ?thesis using d th
      by (auto simp: drained_def set_worker_nth) (auto simp: active_def)
  next
    case (WorkerOp i k)
    then show ?thesis using d Worker_step_drains [OF _ nfp _ th, of i k] by (auto simp: drained_def Worker_step_same)
  next
    case (ResizeOp n)
    then show ?thesis using d by (auto simp: drained_def Pool_Resize_def Let_def notify_all_def)
  next
    case (StopOp w)
    have "active (tp_workers p ! i)" if "i \<in> set (tp_threads p)" "\<not> tp_done p" for i
      using inv that nfp th by (auto simp: stop_inv_iff noflag_def)
    then have "\<exists>i\<in>set (tp_threads p). active (tp_workers p ! i)" if "tp_threads p \<noteq> []" "\<not> tp_done p"
      using that by (cases "tp_threads p") auto
    then show ?thesis using d StopOp by (auto simp: drained_def Pool_Stop_begin_def Pool_ClearQueue_def)
  next
    case StopNotifyOp
    then show ?thesis using d th by (auto simp: drained_def Pool_Stop_notify_def notify_all_def)
  next
    case StopEndOp
    then show ?thesis using d by (auto simp: drained_def Pool_Stop_end_def Pool_ClearQueue_def)
  qed
qed

lemma drained_run:
  assumes "stop_inv p" and "drop_inv p" and "drained p" and "unflagged (pool_run ops p)" and "quiet ops p"
  shows "drained (pool_run ops p) \<and> drop_inv (pool_run ops p)"
  using assms
proof (induction ops arbitrary: p)
  case (Cons a ops)
  have "unflagged (pool_step a p)" using Cons.prems(4) unflagged_run_back [of ops "pool_step a p"] by simp
  then have "drained (pool_step a p)"
    using drained_step [OF Cons.prems(1) _ Cons.prems(3)] Cons.prems(5) by simp
  with Cons.IH [OF stop_inv_step [OF Cons.prems(1)] drop_inv_step [OF Cons.prems(2,1)]] Cons.prems(4,5) show ?case
    by simp
qed simp


subsection \<open>The end of a stop\<close>

definition rank :: "'t Worker \<Rightarrow> nat" where
  "rank w = (case w_state w of WRun _ \<Rightarrow> 4 | WCheck \<Rightarrow> 3 | WPop \<Rightarrow> 2 | WWait \<Rightarrow> 1 | WWoken \<Rightarrow> 1 | _ \<Rightarrow> 0)"

text \<open>What is left to do for workers that never sleep again.\<close>

definition pool_work :: "'t Pool \<Rightarrow> nat" where
  "pool_work p = 10 * length (tp_queue p) + sum_list (map rank (tp_workers p))"

lemma pool_work_set_worker:
  assumes "i < length (tp_workers p)" and "tp_workers q = tp_workers p"
  shows "pool_work (set_worker i st q) + rank (tp_workers p ! i) =
    10 * length (tp_queue q) + sum_list (map rank (tp_workers p)) + rank \<lparr>w_state = st, w_flag = False\<rparr>"
proof -
  have "rank (w\<lparr>w_state := st\<rparr>) = rank \<lparr>w_state = st, w_flag = False\<rparr>" for w :: "'a Worker" by (simp add: rank_def)
  then show ?thesis
    using sum_list_update [OF assms(1), of rank "(tp_workers p ! i)\<lparr>w_state := st\<rparr>"]
    by (simp add: pool_work_def set_worker_def assms(2))
qed

lemma worker_makes_progress:
  assumes inv: "stop_inv p" and j: "tp_stopper p = SJoining" and i: "i < length (tp_workers p)"
    and a: "active (tp_workers p ! i)" and k: "tp_queue p \<noteq> [] \<Longrightarrow> is_top k (tp_queue p)"
  shows "pool_work (Worker_step i k p) < pool_work p"
proof -
  have mf: "mutex_free p" using inv j by (auto simp: stop_inv_def mutex_free_def)
  have dn: "tp_done p \<or> w_flag (tp_workers p ! i)" "w_state (tp_workers p ! i) \<noteq> WBlocked" "w_state (tp_workers p ! i) \<noteq> WDecided"
    using inv j i a by (auto simp: stop_inv_iff)
  have len: "length (tp_queue p) = Suc (length q)" if "task_TryPop k (tp_queue p) = Some (t, q)" for t q
    using that k length_remove_nth [of k "tp_queue p"] by (auto simp: task_TryPop_def is_top_def split: if_splits)
  have W: "pool_work (set_worker i st q) + rank (tp_workers p ! i) =
      10 * length (tp_queue q) + sum_list (map rank (tp_workers p)) + rank \<lparr>w_state = st, w_flag = False\<rparr>"
    if "tp_workers q = tp_workers p" for st q by (rule pool_work_set_worker [OF i that])
  have less: "pool_work (set_worker i st q) < pool_work p"
    if "tp_workers q = tp_workers p" and
      "10 * length (tp_queue q) + rank \<lparr>w_state = st, w_flag = False\<rparr> < 10 * length (tp_queue p) + rank (tp_workers p ! i)" for st q
    using W [OF that(1), of st] that(2) by (simp add: pool_work_def)
  show ?thesis
    by (cases "w_state (tp_workers p ! i)")
      (use dn a mf in \<open>auto simp: Worker_step_def Worker_predicate_def rank_def active_def dest: len
        split: option.splits intro!: less\<close>)
qed

lemma stopped_pool_empty:
  assumes inv: "stop_inv p" and d: "drained p" and dr: "drop_inv p" and nf: "unflagged p"
    and p: "tp_done p" "tp_threads p \<noteq> []" "all_exited p"
  shows "tp_queue p = [] \<and> held p = mset (tp_log p)"
proof -
  have "tp_queue p = []" using d p by (auto simp: drained_def all_exited_def active_def)
  moreover have "run_of w = {#}" if w: "w \<in> set (tp_workers p)" for w
  proof -
    obtain i where i: "i < length (tp_workers p)" "w = tp_workers p ! i" using w by (metis in_set_conv_nth)
    then have "w_state w = WExit"
      using inv nf p(3) by (auto simp: stop_inv_iff noflag_def all_exited_def active_def)
    then show ?thesis by (simp add: run_of_def)
  qed
  moreover have "(\<And>w. w \<in> set ws \<Longrightarrow> run_of w = {#}) \<Longrightarrow> sum_list (map run_of ws) = {#}" for ws :: "'a Worker list"
    by (induction ws) auto
  ultimately have "tp_queue p = []" "sum_list (map run_of (tp_workers p)) = {#}" by blast+
  moreover have "tp_dropped p = []" using dr nf p(2) by (auto simp: drop_inv_def)
  ultimately show ?thesis by (simp add: held_def)
qed

subsection \<open>Properties\<close>

text \<open>
  C22. No task is lost, repeated or made up: whatever the interleaving of pushes, workers, resizes and
  stops, the tasks waiting, running, executed and thrown away by a stop are exactly the tasks
  pushed, and \<^verbatim>\<open>n_waiting_\<close> is the number of workers on the condition variable.
\<close>

theorem pool_conserves_tasks:
  "mset (map snd (tp_queue (pool_run ops (Pool_new n)))) + sum_list (map run_of (tp_workers (pool_run ops (Pool_new n)))) +
     mset (tp_log (pool_run ops (Pool_new n))) + mset (tp_dropped (pool_run ops (Pool_new n))) =
     mset (pushed ops (Pool_new n)) \<and>
   Pool_IdleNumber (pool_run ops (Pool_new n)) = sum_list (map sleeping (tp_workers (pool_run ops (Pool_new n))))"
  using held_run [of ops "Pool_new n"] held_new [where 't = 'a, of n]
  by (simp add: held_def count_ok_def Pool_IdleNumber_def)


text \<open>
  The wakeup that gets lost: \<^verbatim>\<open>VoidPush\<close> notifies without holding the pool's mutex, so a push that
  falls between a worker's look at the queue and its going to sleep wakes nobody.  In the state
  reached here a task is queued, the only worker sleeps, no notification is under way, and no step
  of the worker or of a notification changes anything; the task waits for the next push.
\<close>

lemma pool_lost_wakeup:
  "(let p = pool_run [WorkerOp 0 0, WorkerOp 0 0, PushOp None 0 t, NotifyOp 0, WorkerOp 0 0] (Pool_new 1)
    in tp_queue p = [(0, t)] \<and> tp_notifies p = 0 \<and> map w_state (tp_workers p) = [WBlocked] \<and> Pool_IdleNumber p = 1 \<and>
       pool_step (WorkerOp i k) p = p \<and> pool_step (NotifyOp j) p = p)"
proof -
  define p where "p = pool_run [WorkerOp 0 0, WorkerOp 0 0, PushOp None 0 t, NotifyOp 0, WorkerOp 0 0] (Pool_new 1)"
  define at where "at q st w n = \<lparr>tp_queue = q, tp_workers = [\<lparr>w_state = st, w_flag = False\<rparr>], tp_threads = [0],
      tp_done = False, tp_stop = False, tp_waiting = w, tp_notifies = n, tp_stopper = SNone, tp_log = [], tp_dropped = []\<rparr>"
    for q :: "(int \<times> 'a) list" and st w n
  note [simp] = at_def Worker_step_def set_worker_def mutex_free_def is_top_def
  have "Pool_new 1 = at [] WPop 0 0" by (simp add: Pool_new_def Pool_Resize_def)
  moreover have "pool_step (WorkerOp 0 0) (at [] WPop 0 0) = at [] WWait 0 0" by (simp add: task_TryPop_def)
  moreover have "pool_step (WorkerOp 0 0) (at [] WWait 0 0) = at [] WDecided 1 0"
    by (simp add: task_TryPop_def Worker_predicate_def)
  moreover have "pool_step (PushOp None 0 t) (at [] WDecided 1 0) = at [(0, t)] WDecided 1 1"
    by (simp add: Pool_VoidPush_def task_Emplace_def)
  moreover have "pool_step (NotifyOp 0) (at [(0, t)] WDecided 1 1) = at [(0, t)] WDecided 1 0"
    by (simp add: Pool_notify_one_def)
  moreover have "pool_step (WorkerOp 0 0) (at [(0, t)] WDecided 1 0) = at [(0, t)] WBlocked 1 0" by simp
  ultimately have p: "p = at [(0, t)] WBlocked 1 0"
    by (simp only: p_def fold_simps)
  have "pool_step (WorkerOp i k) p = p" by (cases i) (simp_all add: p)
  moreover have "pool_step (NotifyOp j) p = p" by (simp add: p)
  moreover have "tp_queue p = [(0, t)] \<and> tp_notifies p = 0 \<and> map w_state (tp_workers p) = [WBlocked] \<and> Pool_IdleNumber p = 1"
    by (simp add: p Pool_IdleNumber_def)
  ultimately show ?thesis unfolding Let_def p_def [symmetric] by blast
qed

subsection \<open>Witnesses\<close>

definition demo_pool_ops :: "string pool_op list" where
  "demo_pool_ops = [PushOp None 1 ''a'', NotifyOp 0, PushOp None 5 ''b'', StopOp True, StopNotifyOp,
     WorkerOp 0 1, PushOp (Some 0) 2 ''c'', WorkerOp 0 1, WorkerOp 0 1, WorkerOp 0 1, WorkerOp 0 0, WorkerOp 0 0,
     WorkerOp 0 0, WorkerOp 0 0, WorkerOp 0 0, WorkerOp 0 0, WorkerOp 0 0]"


end
