(* ===== verification/InferServer.thy ===== *)
theory InferServer
  imports InferEngine InferSession
begin

section \<open>The inference server: executors shared by sessions\<close>

text \<open>
  \<^verbatim>\<open>easydk/src/infer_server/core/infer_server.cpp\<close>: the map from executor names to executors of one
  device, the creation and destruction of sessions, and the request calls.  Objects on the heap are
  numbered; a pointer is such a number, and following one whose object was deleted is the fault
  \<open>NullPointer\<close>.  The number of threads of the pool is kept as \<^verbatim>\<open>size_t\<close>.
\<close>

record 'd ExecObj =
  xo_name :: string
  xo_exec :: "'d Executor"
  xo_links :: "nat set"

record SessObj =
  so_name :: string
  so_exec :: nat
  so_sync :: bool

record 'd Server =
  sv_map :: "(string \<times> nat) list"
  sv_execs :: "nat \<Rightarrow> 'd ExecObj option"
  sv_sessions :: "nat \<Rightarrow> SessObj option"
  sv_next :: nat
  sv_device :: int
  sv_threads :: u64
  sv_max_threads :: u64

text \<open>What the device provides: the predictor, the forking of processors, the number of cpu cores.\<close>

record 'd Platform =
  pf_predictor :: "string \<times> Status \<times> 'd processor"
  pf_fork :: "'d processor \<Rightarrow> 'd processor option"
  pf_cores :: u64

definition Server_new :: "'d Platform \<Rightarrow> int \<Rightarrow> 'd Server" where
  "Server_new pf device =
     \<lparr>sv_map = [], sv_execs = (\<lambda>_. None), sv_sessions = (\<lambda>_. None), sv_next = 0, sv_device = device,
      sv_threads = 0, sv_max_threads = 3 * pf_cores pf\<rparr>"

definition executor_name :: "'d SessionDesc \<Rightarrow> string" where
  "executor_name desc =
     sd_model_key desc @ ''_'' @ (case sd_preproc desc of Some (n, _, _) \<Rightarrow> n | None \<Rightarrow> []) @ ''_'' @ fst (sd_postproc desc)"

definition Server_ExistExecutor :: "nat \<Rightarrow> 'd Server \<Rightarrow> bool result" where
  "Server_ExistExecutor x sv =
     (case sv_execs sv x of None \<Rightarrow> Inl NullPointer | Some o' \<Rightarrow> Inr (map_of (sv_map sv) (xo_name o') \<noteq> None))"

subsection \<open>Executors\<close>

text \<open>\<^verbatim>\<open>CreateExecutor\<close>: \<open>None\<close> is the null pointer returned when a processor fails.\<close>

definition Server_CreateExecutor ::
  "'d Platform \<Rightarrow> 'd SessionDesc \<Rightarrow> 'd Server \<Rightarrow> (nat option \<times> 'd Server) result" where
  "Server_CreateExecutor pf desc sv =
     (let name = executor_name desc
      in case map_of (sv_map sv) name of
           Some x \<Rightarrow> Inr (Some x, sv)
         | None \<Rightarrow>
             (case Executor_new (pf_predictor pf) (pf_fork pf) True (sv_device sv) (desc\<lparr>sd_name := name\<rparr>) of
                Inl (Aborts f) \<Rightarrow> Inl f
              | Inl _ \<Rightarrow> Inr (None, sv)
              | Inr ex \<Rightarrow>
                  (let x = sv_next sv;
                       sv1 = sv\<lparr>sv_map := smap_put name x (sv_map sv), sv_next := Suc x,
                               sv_execs := (sv_execs sv)(x \<mapsto> \<lparr>xo_name = name, xo_exec = ex, xo_links = {}\<rparr>)\<rparr>
                   in Inr (Some x,
                        if sv_threads sv1 < sv_max_threads sv1
                        then sv1\<lparr>sv_threads := min (sv_threads sv1 + ucast (4 * sd_engine_num desc)) (sv_max_threads sv1)\<rparr>
                        else sv1))))"

text \<open>\<^verbatim>\<open>Unlink\<close> and \<^verbatim>\<open>Link\<close> of an executor.\<close>

definition Executor_Link :: "nat \<Rightarrow> nat \<Rightarrow> 'd Server \<Rightarrow> 'd Server result" where
  "Executor_Link x s sv =
     (case sv_execs sv x of
        None \<Rightarrow> Inl NullPointer
      | Some ob \<Rightarrow> Inr (sv\<lparr>sv_execs := (sv_execs sv)(x \<mapsto> ob\<lparr>xo_links := insert s (xo_links ob)\<rparr>)\<rparr>))"

definition Executor_Unlink :: "nat \<Rightarrow> 'd ExecObj \<Rightarrow> 'd ExecObj" where
  "Executor_Unlink s ob = (if s \<in> xo_links ob then ob\<lparr>xo_links := xo_links ob - {s}\<rparr> else ob)"

text \<open>\<^verbatim>\<open>CheckAndDestroyExecutor\<close>, with the pool's idle number.\<close>

definition Server_CheckAndDestroyExecutor :: "u32 \<Rightarrow> nat \<Rightarrow> nat \<Rightarrow> 'd Server \<Rightarrow> 'd Server result" where
  "Server_CheckAndDestroyExecutor idle s x sv =
     (case sv_execs sv x of
        None \<Rightarrow> Inl NullPointer
      | Some ob0 \<Rightarrow>
          (let ob = Executor_Unlink s ob0;
               sv1 = sv\<lparr>sv_execs := (sv_execs sv)(x \<mapsto> ob), sv_sessions := (sv_sessions sv)(s := None)\<rparr>
           in if xo_links ob \<noteq> {} then Inr sv1
              else if map_of (sv_map sv1) (xo_name ob) = None then Inl LogFatal
              else let th_num = 4 * sd_engine_num (ex_desc (xo_exec ob));
                       sv2 = sv1\<lparr>sv_map := smap_erase (xo_name ob) (sv_map sv1), sv_execs := (sv_execs sv1)(x := None)\<rparr>
                   in Inr (if idle > th_num then sv2\<lparr>sv_threads := sv_threads sv2 - ucast th_num\<rparr> else sv2)))"

subsection \<open>Sessions\<close>

text \<open>
  \<^verbatim>\<open>CreateSession\<close> finds or makes the executor, and then, with the map unlocked, makes the session and
  links it: two steps.
\<close>

definition CreateSession_link :: "'d SessionDesc \<Rightarrow> bool \<Rightarrow> nat \<Rightarrow> 'd Server \<Rightarrow> (nat \<times> 'd Server) result" where
  "CreateSession_link desc sync x sv =
     (let s = sv_next sv;
          sv1 = sv\<lparr>sv_next := Suc s, sv_sessions := (sv_sessions sv)(s \<mapsto> \<lparr>so_name = sd_name desc, so_exec = x, so_sync = sync\<rparr>)\<rparr>
      in map_sum id (Pair s) (Executor_Link x s sv1))"

definition InferServer_CreateSession ::
  "'d Platform \<Rightarrow> 'd SessionDesc \<Rightarrow> bool \<Rightarrow> 'd Server \<Rightarrow> (nat option \<times> 'd Server) result" where
  "InferServer_CreateSession pf desc sync sv =
     (if sd_preproc desc = None then Inl LogFatal
      else case Server_CreateExecutor pf desc sv of
          Inl f \<Rightarrow> Inl f
        | Inr (None, sv1) \<Rightarrow> Inr (None, sv1)
        | Inr (Some x, sv1) \<Rightarrow> map_sum id (\<lambda>(s, sv2). (Some s, sv2)) (CreateSession_link desc sync x sv1))"

definition InferServer_DestroySession :: "u32 \<Rightarrow> nat \<Rightarrow> 'd Server \<Rightarrow> (bool \<times> 'd Server) result" where
  "InferServer_DestroySession idle s sv =
     (case sv_sessions sv s of
        None \<Rightarrow> Inl NullPointer
      | Some so \<Rightarrow>
          (case Server_ExistExecutor (so_exec so) sv of
             Inl f \<Rightarrow> Inl f
           | Inr False \<Rightarrow> Inr (False, sv)
           | Inr True \<Rightarrow> map_sum id (Pair True) (Server_CheckAndDestroyExecutor idle s (so_exec so) sv)))"

subsection \<open>Requests\<close>

text \<open>\<^verbatim>\<open>Request\<close>: \<open>None\<close> is the wait for a cache that is not full.\<close>

definition InferServer_Request ::
  "bool \<Rightarrow> u32 \<Rightarrow> int \<Rightarrow> bool \<Rightarrow> string \<Rightarrow> 'd Package \<Rightarrow> ('d, 'f) Session \<Rightarrow> (bool \<times> ('d, 'f) Session) option" where
  "InferServer_Request sync max_num timeout expired tag pack s =
     (if sync then Some (False, s)
      else case Executor_WaitIfCacheFull max_num timeout expired s of
          None \<Rightarrow> None
        | Some False \<Rightarrow> Some (False, s)
        | Some True \<Rightarrow> (case Session_Send tag pack s of (ctrl, s') \<Rightarrow> Some (ctrl \<noteq> None, s')))"

text \<open>
  \<^verbatim>\<open>RequestSync\<close> up to the point where it waits for the response: its result and the status it has
  written, or the request it waits for with the time left.  \<open>waited\<close> is the time spent waiting for
  the cache, in milliseconds, rounded up.
\<close>

datatype SyncOutcome = Returned bool "Status option" | Awaits nat int

definition InferServer_RequestSync ::
  "bool \<Rightarrow> u32 \<Rightarrow> int \<Rightarrow> bool \<Rightarrow> int \<Rightarrow> string \<Rightarrow> 'd Package \<Rightarrow> ('d, 'f) Session \<Rightarrow>
     (SyncOutcome \<times> ('d, 'f) Session) option" where
  "InferServer_RequestSync sync max_num timeout expired waited tag pack s =
     (if \<not> sync then Some (Returned False None, s)
      else if pk_data pack = [] then Some (Returned False (Some INVALID_PARAM), s)
      else case Executor_WaitIfCacheFull max_num timeout expired s of
          None \<Rightarrow> None
        | Some False \<Rightarrow> Some (Returned False (Some TIMEOUT), s)
        | Some True \<Rightarrow>
            (let left = (if 0 < timeout then timeout - waited else timeout)
             in if 0 < timeout \<and> left < 1 then Some (Returned False (Some TIMEOUT), s)
                else case Session_Send tag pack s of
                    (None, s') \<Rightarrow> Some (Returned False None, s')
                  | (Some rid, s') \<Rightarrow> Some (Awaits rid left, s')))"

text \<open>The wait of \<^verbatim>\<open>RequestSync\<close> has timed out: the request is discarded, unless it is gone.\<close>

definition RequestSync_timeout :: "nat \<Rightarrow> ('d, 'f) Session \<Rightarrow> ('d, 'f) Session result" where
  "RequestSync_timeout rid s =
     (case ss_ctrls s rid of
        None \<Rightarrow> Inl NullPointer
      | Some c \<Rightarrow> Inr (s\<lparr>ss_ctrls := (ss_ctrls s)(rid \<mapsto> RequestControl_Discard c)\<rparr>))"


subsection \<open>Runs of creations and destructions\<close>

datatype 'd server_op = CreateOp "'d SessionDesc" bool | DestroyOp u32 nat

text \<open>A client destroys only sessions it has.\<close>

fun server_step :: "'d Platform \<Rightarrow> 'd server_op \<Rightarrow> 'd Server \<Rightarrow> 'd Server result" where
  "server_step pf (CreateOp desc sync) sv = map_sum id snd (InferServer_CreateSession pf desc sync sv)"
| "server_step pf (DestroyOp idle s) sv =
     (if sv_sessions sv s = None then Inr sv else map_sum id snd (InferServer_DestroySession idle s sv))"

definition server_inv :: "'d Server \<Rightarrow> bool" where
  "server_inv sv \<longleftrightarrow>
     smap_ok (sv_map sv) \<and>
     (\<forall>name x. map_of (sv_map sv) name = Some x \<longrightarrow>
        (\<exists>ob. sv_execs sv x = Some ob \<and> xo_name ob = name \<and> xo_links ob \<noteq> {})) \<and>
     (\<forall>x ob. sv_execs sv x = Some ob \<longrightarrow> map_of (sv_map sv) (xo_name ob) = Some x \<and> x < sv_next sv) \<and>
     (\<forall>s so. sv_sessions sv s = Some so \<longrightarrow> s < sv_next sv \<and>
        (\<exists>ob. sv_execs sv (so_exec so) = Some ob \<and> s \<in> xo_links ob)) \<and>
     (\<forall>x ob s. sv_execs sv x = Some ob \<and> s \<in> xo_links ob \<longrightarrow> (\<exists>so. sv_sessions sv s = Some so \<and> so_exec so = x))"

lemma server_invD:
  assumes "server_inv sv"
  shows inv_ok: "smap_ok (sv_map sv)"
    and inv_map: "map_of (sv_map sv) name = Some x \<Longrightarrow> \<exists>ob. sv_execs sv x = Some ob \<and> xo_name ob = name \<and> xo_links ob \<noteq> {}"
    and inv_exec: "sv_execs sv x = Some ob \<Longrightarrow> map_of (sv_map sv) (xo_name ob) = Some x \<and> x < sv_next sv"
    and inv_sess: "sv_sessions sv s = Some so \<Longrightarrow> s < sv_next sv \<and> (\<exists>ob. sv_execs sv (so_exec so) = Some ob \<and> s \<in> xo_links ob)"
    and inv_link: "sv_execs sv x = Some ob \<Longrightarrow> s \<in> xo_links ob \<Longrightarrow> \<exists>so. sv_sessions sv s = Some so \<and> so_exec so = x"
  using assms unfolding server_inv_def by blast+

lemma Unlink_simps [simp]:
  "xo_name (Executor_Unlink s ob) = xo_name ob" "xo_exec (Executor_Unlink s ob) = xo_exec ob"
  "xo_links (Executor_Unlink s ob) = xo_links ob - {s}"
  by (auto simp: Executor_Unlink_def)

text \<open>A session linked to an executor that is in the map, possibly a new one without sessions yet.\<close>

lemma server_inv_link:
  assumes ok: "smap_ok m"
    and mp: "\<And>name y. map_of m name = Some y \<Longrightarrow> \<exists>ob. ex y = Some ob \<and> xo_name ob = name \<and> (y \<noteq> x \<longrightarrow> xo_links ob \<noteq> {})"
    and exs: "\<And>y ob. ex y = Some ob \<Longrightarrow> map_of m (xo_name ob) = Some y \<and> y < s"
    and ss: "\<And>t so. se t = Some so \<Longrightarrow> t < s \<and> (\<exists>ob. ex (so_exec so) = Some ob \<and> t \<in> xo_links ob)"
    and lk: "\<And>y ob t. ex y = Some ob \<Longrightarrow> t \<in> xo_links ob \<Longrightarrow> \<exists>so. se t = Some so \<and> so_exec so = y"
    and ob: "ex x = Some ob" and so: "so_exec so = x"
    and sv: "sv_map sv = m" "sv_execs sv = ex(x \<mapsto> ob\<lparr>xo_links := insert s (xo_links ob)\<rparr>)" "sv_sessions sv = se(s \<mapsto> so)"
      "sv_next sv = Suc s"
  shows "server_inv sv"
  unfolding server_inv_def sv
proof (intro conjI allI impI)
  show "smap_ok m" by (rule ok)
next
  fix name y assume "map_of m name = Some y"
  then show "\<exists>o'. (ex(x \<mapsto> ob\<lparr>xo_links := insert s (xo_links ob)\<rparr>)) y = Some o' \<and> xo_name o' = name \<and> xo_links o' \<noteq> {}"
    using mp ob by (cases "y = x") fastforce+
next
  fix y o' assume "(ex(x \<mapsto> ob\<lparr>xo_links := insert s (xo_links ob)\<rparr>)) y = Some o'"
  then have "\<exists>o2. ex y = Some o2 \<and> xo_name o2 = xo_name o'" using ob by (auto split: if_splits)
  then obtain o2 where o2: "ex y = Some o2" "xo_name o2 = xo_name o'" by blast
  from exs [OF o2(1)] o2(2) show "map_of m (xo_name o') = Some y" "y < Suc s" by simp_all
next
  fix t so' assume a: "(se(s \<mapsto> so)) t = Some so'"
  have "t < Suc s \<and> (\<exists>o'. (ex(x \<mapsto> ob\<lparr>xo_links := insert s (xo_links ob)\<rparr>)) (so_exec so') = Some o' \<and> t \<in> xo_links o')"
  proof (cases "t = s")
    case True
    with a so show ?thesis by simp
  next
    case False
    with a have "se t = Some so'" by simp
    from ss [OF this] obtain o' where "t < s" "ex (so_exec so') = Some o'" "t \<in> xo_links o'" by blast
    then show ?thesis using ob by (cases "so_exec so' = x") auto
  qed
  then show "t < Suc s"
    "\<exists>o'. (ex(x \<mapsto> ob\<lparr>xo_links := insert s (xo_links ob)\<rparr>)) (so_exec so') = Some o' \<and> t \<in> xo_links o'" by blast+
next
  fix y o' t assume a: "(ex(x \<mapsto> ob\<lparr>xo_links := insert s (xo_links ob)\<rparr>)) y = Some o' \<and> t \<in> xo_links o'"
  have none: "se s = None" using ss [of s] by (cases "se s") auto
  show "\<exists>so'. (se(s \<mapsto> so)) t = Some so' \<and> so_exec so' = y"
  proof (cases "y = x \<and> t = s")
    case True
    with so show ?thesis by simp
  next
    case False
    then have "\<exists>o2. ex y = Some o2 \<and> t \<in> xo_links o2" using a ob by (auto split: if_splits)
    then obtain o2 where "ex y = Some o2" "t \<in> xo_links o2" by blast
    from lk [OF this] obtain so' where "se t = Some so'" "so_exec so' = y" by blast
    with none show ?thesis by auto
  qed
qed

lemma CreateSession_inv:
  assumes inv: "server_inv sv" and run: "InferServer_CreateSession pf desc sync sv = Inr (r, sv')"
  shows "server_inv sv'"
proof -
  have pre: "sd_preproc desc \<noteq> None" using run by (auto simp: InferServer_CreateSession_def split: if_splits)
  obtain c sv1 where c: "Server_CreateExecutor pf desc sv = Inr (c, sv1)"
    using run pre by (auto simp: InferServer_CreateSession_def split: sum.splits)
  let ?n = "executor_name desc"
  show ?thesis
  proof (cases c)
    case None
    then have "sv1 = sv"
      using c by (auto simp: Server_CreateExecutor_def Let_def split: option.splits sum.splits exec_error.splits if_splits)
    then show ?thesis using None c run pre inv by (simp add: InferServer_CreateSession_def)
  next
    case (Some x)
    have link: "map_sum id (\<lambda>(s, sv2). (Some s, sv2)) (CreateSession_link desc sync x sv1) = Inr (r, sv')"
      using Some c run pre by (simp add: InferServer_CreateSession_def)
    show ?thesis
    proof (cases "map_of (sv_map sv) ?n")
      case old: (Some y)
      then have y: "y = x" "sv1 = sv" using c Some by (auto simp: Server_CreateExecutor_def Let_def)
      obtain ob where ob: "sv_execs sv x = Some ob" using inv_map [OF inv old] y by blast
      have mp: "\<exists>ob. sv_execs sv z = Some ob \<and> xo_name ob = name \<and> (z \<noteq> x \<longrightarrow> xo_links ob \<noteq> {})"
        if "map_of (sv_map sv) name = Some z" for name z using inv_map [OF inv that] by blast
      define so where "so = \<lparr>so_name = sd_name desc, so_exec = x, so_sync = sync\<rparr>"
      have "sv' = sv\<lparr>sv_next := Suc (sv_next sv), sv_sessions := (sv_sessions sv)(sv_next sv \<mapsto> so),
          sv_execs := (sv_execs sv)(x \<mapsto> ob\<lparr>xo_links := insert (sv_next sv) (xo_links ob)\<rparr>)\<rparr>"
        using link ob y by (simp add: CreateSession_link_def Executor_Link_def Let_def so_def)
      then show ?thesis
        by (intro server_inv_link [where so = so, OF inv_ok [OF inv] mp inv_exec [OF inv] inv_sess [OF inv] inv_link [OF inv] ob])
          (simp_all add: so_def)
    next
      case new: None
      define res where "res = Executor_new (pf_predictor pf) (pf_fork pf) True (sv_device sv) (desc\<lparr>sd_name := ?n\<rparr>)"
      have c': "(case res of Inl (Aborts f) \<Rightarrow> Inl f | Inl _ \<Rightarrow> Inr (None, sv)
          | Inr ex \<Rightarrow> (let x = sv_next sv; sv1 = sv\<lparr>sv_map := smap_put ?n x (sv_map sv), sv_next := Suc x,
                sv_execs := (sv_execs sv)(x \<mapsto> \<lparr>xo_name = ?n, xo_exec = ex, xo_links = {}\<rparr>)\<rparr>
              in Inr (Some x, if sv_threads sv1 < sv_max_threads sv1
                then sv1\<lparr>sv_threads := min (sv_threads sv1 + ucast (4 * sd_engine_num desc)) (sv_max_threads sv1)\<rparr> else sv1)))
          = Inr (Some x, sv1)"
        using c Some new by (simp add: Server_CreateExecutor_def Let_def res_def)
      then obtain ex where "res = Inr ex" by (cases res) (auto split: exec_error.splits)
      with c' have ex: "sv_map sv1 = smap_put ?n x (sv_map sv)" "sv_next sv1 = Suc x" "x = sv_next sv"
        "sv_execs sv1 = (sv_execs sv)(x \<mapsto> \<lparr>xo_name = ?n, xo_exec = ex, xo_links = {}\<rparr>)" "sv_sessions sv1 = sv_sessions sv"
        by (auto simp: Let_def)
      have fresh: "sv_execs sv x = None" using inv_exec [OF inv, of x] ex(3) by (cases "sv_execs sv x") auto
      have nolink: "sv_execs sv y = Some ob \<Longrightarrow> xo_name ob \<noteq> ?n" for y ob using inv_exec [OF inv] new by fastforce
      define so where "so = \<lparr>so_name = sd_name desc, so_exec = x, so_sync = sync\<rparr>"
      define ob where "ob = \<lparr>xo_name = ?n, xo_exec = ex, xo_links = {}\<rparr>"
      have sv': "sv' = sv1\<lparr>sv_next := Suc (Suc x), sv_sessions := (sv_sessions sv1)(Suc x \<mapsto> so),
          sv_execs := (sv_execs sv1)(x \<mapsto> ob\<lparr>xo_links := insert (Suc x) (xo_links ob)\<rparr>)\<rparr>"
        using link ex by (simp add: CreateSession_link_def Executor_Link_def Let_def so_def ob_def)
      note ex = ex [folded ob_def]
      show ?thesis
      proof (rule server_inv_link [where m = "smap_put ?n x (sv_map sv)" and se = "sv_sessions sv" and s = "Suc x" and x = x
            and ex = "(sv_execs sv)(x \<mapsto> ob)"
            and ob = "ob"
            and so = "so"])
        show "smap_ok (smap_put ?n x (sv_map sv))" using inv_ok [OF inv] by simp
      next
        fix name y assume "map_of (smap_put ?n x (sv_map sv)) name = Some y"
        then show "\<exists>ob'. ((sv_execs sv)(x \<mapsto> ob)) y = Some ob' \<and> xo_name ob' = name \<and>
            (y \<noteq> x \<longrightarrow> xo_links ob' \<noteq> {})"
          using inv_map [OF inv, of name y] fresh by (auto simp: ob_def split: if_splits)
      next
        fix y ob' assume "((sv_execs sv)(x \<mapsto> ob)) y = Some ob'"
        then show "map_of (smap_put ?n x (sv_map sv)) (xo_name ob') = Some y \<and> y < Suc x"
          using inv_exec [OF inv, of y ob'] nolink ex(3) by (auto simp: ob_def split: if_splits)
      next
        fix t so' assume "sv_sessions sv t = Some so'"
        from inv_sess [OF inv this] show "t < Suc x \<and> (\<exists>ob'. ((sv_execs sv)(x \<mapsto> ob))
            (so_exec so') = Some ob' \<and> t \<in> xo_links ob')"
          using fresh ex(3) by (cases "so_exec so' = x") auto
      next
        fix y ob' t assume "((sv_execs sv)(x \<mapsto> ob)) y = Some ob'" "t \<in> xo_links ob'"
        then show "\<exists>so'. sv_sessions sv t = Some so' \<and> so_exec so' = y"
          using inv_link [OF inv] by (auto simp: ob_def split: if_splits)
      qed (simp_all add: sv' ex so_def)
    qed
  qed
qed

text \<open>Destroying a live session always succeeds; the executor goes with its last session.\<close>

lemma DestroySession_inv:
  assumes inv: "server_inv sv" and so: "sv_sessions sv s = Some so"
  obtains sv' ob where "InferServer_DestroySession idle s sv = Inr (True, sv')" "server_inv sv'"
    "sv_execs sv (so_exec so) = Some ob" "sv_sessions sv' = (sv_sessions sv)(s := None)"
    "sv_execs sv' (so_exec so) = (if xo_links ob = {s} then None else Some (Executor_Unlink s ob))"
proof -
  let ?x = "so_exec so"
  obtain ob where ob: "sv_execs sv ?x = Some ob" "s \<in> xo_links ob" using inv_sess [OF inv so] by blast
  have nm: "map_of (sv_map sv) (xo_name ob) = Some ?x" using inv_exec [OF inv ob(1)] by blast
  have uniq: "sv_execs sv y = Some ob' \<Longrightarrow> s \<in> xo_links ob' \<Longrightarrow> y = ?x" for y ob'
    using inv_link [OF inv, of y ob' s] so by auto
  have names: "sv_execs sv y = Some ob' \<Longrightarrow> xo_name ob' = xo_name ob \<Longrightarrow> y = ?x" for y ob'
    using inv_exec [OF inv, of y ob'] nm by auto
  define del where "del = (xo_links ob - {s} = {})"
  define sv' where "sv' = (let sv1 = sv\<lparr>sv_execs := (sv_execs sv)(?x \<mapsto> Executor_Unlink s ob), sv_sessions := (sv_sessions sv)(s := None)\<rparr>;
      th = 4 * sd_engine_num (ex_desc (xo_exec ob));
      sv2 = sv1\<lparr>sv_map := smap_erase (xo_name ob) (sv_map sv1), sv_execs := (sv_execs sv1)(?x := None)\<rparr>
    in if \<not> del then sv1 else if idle > th then sv2\<lparr>sv_threads := sv_threads sv2 - ucast th\<rparr> else sv2)"
  have run: "InferServer_DestroySession idle s sv = Inr (True, sv')"
    by (simp add: InferServer_DestroySession_def so Server_ExistExecutor_def ob(1) nm
        Server_CheckAndDestroyExecutor_def Let_def sv'_def del_def)
  have sv': "sv_sessions sv' = (sv_sessions sv)(s := None)" "sv_next sv' = sv_next sv"
    "sv_execs sv' = (sv_execs sv)(?x := (if del then None else Some (Executor_Unlink s ob)))"
    "sv_map sv' = (if del then smap_erase (xo_name ob) (sv_map sv) else sv_map sv)"
    by (simp_all add: sv'_def Let_def)
  have "server_inv sv'"
    unfolding server_inv_def sv'
  proof (intro conjI allI impI)
    show "smap_ok (if del then smap_erase (xo_name ob) (sv_map sv) else sv_map sv)" using inv_ok [OF inv] by simp
  next
    fix name y assume a: "map_of (if del then smap_erase (xo_name ob) (sv_map sv) else sv_map sv) name = Some y"
    then have "map_of (sv_map sv) name = Some y" by (auto split: if_splits)
    from inv_map [OF inv this] obtain o' where o': "sv_execs sv y = Some o'" "xo_name o' = name" "xo_links o' \<noteq> {}" by blast
    show "\<exists>ob'. ((sv_execs sv)(?x := (if del then None else Some (Executor_Unlink s ob)))) y = Some ob' \<and> xo_name ob' = name \<and>
        xo_links ob' \<noteq> {}"
      using a o' ob(1) by (cases "y = ?x"; cases del) (auto simp: del_def split: if_splits)
  next
    fix y o' assume "((sv_execs sv)(?x := (if del then None else Some (Executor_Unlink s ob)))) y = Some o'"
    then have "\<exists>o2. sv_execs sv y = Some o2 \<and> xo_name o' = xo_name o2 \<and> (del \<longrightarrow> y \<noteq> ?x)"
      using ob(1) by (auto split: if_splits)
    then obtain o2 where o2: "sv_execs sv y = Some o2" "xo_name o' = xo_name o2" "del \<longrightarrow> y \<noteq> ?x" by blast
    have "del \<longrightarrow> xo_name o2 \<noteq> xo_name ob" using names [OF o2(1)] o2(3) by blast
    then show "map_of (if del then smap_erase (xo_name ob) (sv_map sv) else sv_map sv) (xo_name o') = Some y" "y < sv_next sv"
      using inv_exec [OF inv o2(1)] o2(2) by auto
  next
    fix t so' assume t: "((sv_sessions sv)(s := None)) t = Some so'"
    then have t': "sv_sessions sv t = Some so'" "t \<noteq> s" by (auto split: if_splits)
    from inv_sess [OF inv t'(1)] obtain o' where o': "t < sv_next sv" "sv_execs sv (so_exec so') = Some o'" "t \<in> xo_links o'" by blast
    then show "t < sv_next sv" by blast
    show "\<exists>ob'. ((sv_execs sv)(?x := (if del then None else Some (Executor_Unlink s ob)))) (so_exec so') = Some ob' \<and> t \<in> xo_links ob'"
      using o' t'(2) ob(1) by (cases "so_exec so' = ?x") (auto simp: del_def)
  next
    fix y o' t assume "((sv_execs sv)(?x := (if del then None else Some (Executor_Unlink s ob)))) y = Some o' \<and> t \<in> xo_links o'"
    then have "\<exists>o2. sv_execs sv y = Some o2 \<and> t \<in> xo_links o2 \<and> t \<noteq> s"
      using ob uniq [of y o'] by (auto split: if_splits)
    then show "\<exists>so'. ((sv_sessions sv)(s := None)) t = Some so' \<and> so_exec so' = y"
      using inv_link [OF inv] by fastforce
  qed
  moreover have "del = (xo_links ob = {s})" using ob(2) by (auto simp: del_def)
  ultimately show ?thesis using that run ob(1) sv' by simp
qed


lemma server_step_inv: "server_inv sv \<Longrightarrow> server_step pf a sv = Inr sv' \<Longrightarrow> server_inv sv'"
proof (cases a)
  case (CreateOp desc sync)
  assume "server_inv sv" "server_step pf a sv = Inr sv'"
  then show ?thesis
    using CreateOp CreateSession_inv by (cases "InferServer_CreateSession pf desc sync sv") (auto, blast)
next
  case (DestroyOp idle s)
  assume inv: "server_inv sv" and st: "server_step pf a sv = Inr sv'"
  show ?thesis
  proof (cases "sv_sessions sv s")
    case None
    with st inv DestroyOp show ?thesis by simp
  next
    case (Some so)
    obtain sv2 where "InferServer_DestroySession idle s sv = Inr (True, sv2)" "server_inv sv2"
      by (rule DestroySession_inv [OF inv Some])
    with st DestroyOp Some show ?thesis by simp
  qed
qed

lemma server_run_inv: "server_inv sv \<Longrightarrow> foldM (server_step pf) ops sv = Inr sv' \<Longrightarrow> server_inv sv'"
  by (induction ops arbitrary: sv) (auto split: sum.splits dest: server_step_inv)

lemma server_inv_new: "server_inv (Server_new pf dev)"
  by (simp add: server_inv_def Server_new_def)

subsection \<open>Properties\<close>

text \<open>
  C24. Sessions and executors: after any creations and destructions of sessions that returned, each
  session is linked to a live executor that the map holds under its name, every executor has a
  session, and destroying any session succeeds without fault and deletes the executor exactly if
  the session was its last.
\<close>

theorem server_sessions_linked:
  assumes "foldM (server_step pf) ops (Server_new pf dev) = Inr sv"
  shows "(sv_sessions sv s = Some so \<longrightarrow>
      (\<exists>ob sv'. sv_execs sv (so_exec so) = Some ob \<and> s \<in> xo_links ob \<and>
         map_of (sv_map sv) (xo_name ob) = Some (so_exec so) \<and>
         InferServer_DestroySession idle s sv = Inr (True, sv') \<and> sv_sessions sv' s = None \<and>
         (sv_execs sv' (so_exec so) = None \<longleftrightarrow> xo_links ob = {s}))) \<and>
    (sv_execs sv x = Some ob \<longrightarrow> xo_links ob \<noteq> {} \<and> map_of (sv_map sv) (xo_name ob) = Some x)"
proof (intro conjI impI)
  have inv: "server_inv sv" by (rule server_run_inv [OF server_inv_new assms])
  assume so: "sv_sessions sv s = Some so"
  obtain ob where ob: "sv_execs sv (so_exec so) = Some ob" "s \<in> xo_links ob" using inv_sess [OF inv so] by blast
  obtain sv' ob' where d: "InferServer_DestroySession idle s sv = Inr (True, sv')" "sv_execs sv (so_exec so) = Some ob'"
    "sv_sessions sv' = (sv_sessions sv)(s := None)"
    "sv_execs sv' (so_exec so) = (if xo_links ob' = {s} then None else Some (Executor_Unlink s ob'))"
    by (rule DestroySession_inv [OF inv so])
  show "\<exists>ob sv'. sv_execs sv (so_exec so) = Some ob \<and> s \<in> xo_links ob \<and>
         map_of (sv_map sv) (xo_name ob) = Some (so_exec so) \<and>
         InferServer_DestroySession idle s sv = Inr (True, sv') \<and> sv_sessions sv' s = None \<and>
         (sv_execs sv' (so_exec so) = None \<longleftrightarrow> xo_links ob = {s})"
    using ob d inv_exec [OF inv ob(1)] by (intro exI [of _ ob] exI [of _ sv']) auto
next
  have inv: "server_inv sv" by (rule server_run_inv [OF server_inv_new assms])
  assume x: "sv_execs sv x = Some ob"
  show m: "map_of (sv_map sv) (xo_name ob) = Some x" using inv_exec [OF inv x] by blast
  show "xo_links ob \<noteq> {}" using inv_map [OF inv m] x by auto
qed

text \<open>
  C25. Creating a session is not atomic: if a second thread destroys the last session of an executor
  after a first thread has looked that executor up for a new session and before it links it, the
  first thread links its session to a deleted executor.
\<close>

theorem create_session_race:
  assumes "foldM (server_step pf) ops (Server_new pf dev) = Inr sv" and "sv_sessions sv s = Some so"
    and "sv_execs sv (so_exec so) = Some ob" and "xo_links ob = {s}" and "xo_name ob = executor_name desc"
  shows "Server_CreateExecutor pf desc sv = Inr (Some (so_exec so), sv) \<and>
    (\<exists>sv'. InferServer_DestroySession idle s sv = Inr (True, sv') \<and>
       CreateSession_link desc sync (so_exec so) sv' = Inl NullPointer)"
proof -
  have inv: "server_inv sv" by (rule server_run_inv [OF server_inv_new assms(1)])
  obtain sv' ob' where d: "InferServer_DestroySession idle s sv = Inr (True, sv')" "sv_execs sv (so_exec so) = Some ob'"
    "sv_execs sv' (so_exec so) = (if xo_links ob' = {s} then None else Some (Executor_Unlink s ob'))"
    by (rule DestroySession_inv [OF inv assms(2)])
  then have "sv_execs sv' (so_exec so) = None" using assms(3,4) by simp
  then have "CreateSession_link desc sync (so_exec so) sv' = Inl NullPointer"
    by (simp add: CreateSession_link_def Executor_Link_def Let_def)
  moreover have "Server_CreateExecutor pf desc sv = Inr (Some (so_exec so), sv)"
    using inv_exec [OF inv assms(3)] assms(5) by (simp add: Server_CreateExecutor_def)
  ultimately show ?thesis using d(1) by blast
qed

subsection \<open>Witnesses\<close>

definition demo_platform :: "unit Platform" where
  "demo_platform = \<lparr>pf_predictor = (''pred'', SUCCESS, demo_proc), pf_fork = Some, pf_cores = 4\<rparr>"

lemma demo_server:
  obtains sv ob where "foldM (server_step demo_platform) [CreateOp demo_desc False] (Server_new demo_platform 0) = Inr sv"
    "sv_sessions sv 1 = Some \<lparr>so_name = ''s'', so_exec = 0, so_sync = False\<rparr>" "sv_execs sv 0 = Some ob" "xo_links ob = {1}"
    "xo_name ob = executor_name demo_desc"
proof -
  let ?new = "Executor_new (pf_predictor demo_platform) (pf_fork demo_platform) True 0
      (demo_desc\<lparr>sd_name := executor_name demo_desc\<rparr>)"
  obtain ex where ex: "?new = Inr ex"
    by (simp add: Executor_new_def Executor_cache_def demo_desc_def demo_platform_def Let_def)
  define ob where "ob = \<lparr>xo_name = executor_name demo_desc, xo_exec = ex, xo_links = {1}\<rparr>"
  have pre: "sd_preproc demo_desc \<noteq> None" "sd_name demo_desc = ''s''" by (simp_all add: demo_desc_def)
  have "\<exists>sv. foldM (server_step demo_platform) [CreateOp demo_desc False] (Server_new demo_platform 0) = Inr sv \<and>
      sv_sessions sv 1 = Some \<lparr>so_name = ''s'', so_exec = 0, so_sync = False\<rparr> \<and> sv_execs sv 0 = Some ob"
    using ex pre
    by (simp add: InferServer_CreateSession_def Server_CreateExecutor_def Server_new_def CreateSession_link_def
        Executor_Link_def Let_def ob_def)
  with that [of _ ob] show ?thesis by (auto simp: ob_def)
qed

theorem server_sessions_linked_witness:
  "\<exists>sv sv'. foldM (server_step demo_platform) [CreateOp demo_desc False] (Server_new demo_platform 0) = Inr sv \<and>
     InferServer_DestroySession 0 1 sv = Inr (True, sv') \<and> sv_execs sv' 0 = None"
proof -
  obtain sv ob where d: "foldM (server_step demo_platform) [CreateOp demo_desc False] (Server_new demo_platform 0) = Inr sv"
    "sv_sessions sv 1 = Some \<lparr>so_name = ''s'', so_exec = 0, so_sync = False\<rparr>" "sv_execs sv 0 = Some ob" "xo_links ob = {1}"
    by (rule demo_server)
  from server_sessions_linked [OF d(1)] d show ?thesis by fastforce
qed

theorem create_session_race_witness:
  "\<exists>sv sv'. foldM (server_step demo_platform) [CreateOp demo_desc False] (Server_new demo_platform 0) = Inr sv \<and>
     Server_CreateExecutor demo_platform demo_desc sv = Inr (Some 0, sv) \<and>
     InferServer_DestroySession 0 1 sv = Inr (True, sv') \<and> CreateSession_link demo_desc False 0 sv' = Inl NullPointer"
proof -
  obtain sv ob where d: "foldM (server_step demo_platform) [CreateOp demo_desc False] (Server_new demo_platform 0) = Inr sv"
    "sv_sessions sv 1 = Some \<lparr>so_name = ''s'', so_exec = 0, so_sync = False\<rparr>" "sv_execs sv 0 = Some ob" "xo_links ob = {1}"
    "xo_name ob = executor_name demo_desc" by (rule demo_server)
  from create_session_race [OF d(1,2) _ d(4,5), of 0 False] d(1,3) show ?thesis by auto
qed

end
