(* ===== verification/Graph.thy ===== *)
theory Graph
  imports Config DagTopo StdMap
begin

section \<open>Graphs with subgraphs: UNIGraph\<close>

text \<open>
  The template class \<^verbatim>\<open>UNIGraph\<close> of \<^verbatim>\<open>framework/src/unistream_graph.hpp\<close>: a graph is built from a
  configuration whose items are modules and subgraphs, a subgraph from its own configuration file.
  A node is known by the names that lead to it from the root (subgraph names, then the module's),
  which are what \<^verbatim>\<open>GetFullName\<close> joins; the downstream nodes \<^verbatim>\<open>next_\<close> of all nodes are one store.
  \<^verbatim>\<open>realpath\<close> of the C library is a parameter (the empty string when it fails), and so are the files
  and the JSON reader and writer of the configuration.  A graph whose \<^verbatim>\<open>Init\<close> fails is not used.
\<close>

type_synonym NodeId = "string list"

type_synonym Nexts = "NodeId \<Rightarrow> NodeId set"

datatype Graph = Graph
  (g_config: UNIGraphConfig)
  (g_parent_name: string)
  (g_modules: "(string \<times> nat \<times> UNIModuleConfig) list")
  (g_subs: "(string \<times> nat \<times> UNISubgraphConfig \<times> Graph) list")
  (g_vertices: "string list")
  (g_dag: DAGAlgorithm)
  (g_heads: "NodeId list")
  (g_tails: "NodeId list")

text \<open>The members that \<^verbatim>\<open>Init\<close> fills.\<close>

record GraphParts =
  pt_modules :: "(string \<times> nat \<times> UNIModuleConfig) list"
  pt_subs :: "(string \<times> nat \<times> UNISubgraphConfig \<times> Graph) list"
  pt_vertices :: "string list"
  pt_dag :: DAGAlgorithm

definition Graph_Clear :: GraphParts where
  "Graph_Clear = \<lparr>pt_modules = [], pt_subs = [], pt_vertices = [], pt_dag = DAG_empty\<rparr>"

record GraphEnv =
  ge_realpath :: "string \<Rightarrow> string"
  ge_files :: "string \<Rightarrow> string option"
  ge_parse :: "string \<Rightarrow> json option"
  ge_write :: "json \<Rightarrow> string"

text \<open>\<^verbatim>\<open>Init\<close> succeeds, returns false, faults, or the model has run out of fuel.\<close>

datatype 'a init_result = OutOfFuel | Faulted fault | Rejected | Built 'a

fun init_bind :: "'a init_result \<Rightarrow> ('a \<Rightarrow> 'b init_result) \<Rightarrow> 'b init_result" where
  "init_bind OutOfFuel f = OutOfFuel"
| "init_bind (Faulted e) f = Faulted e"
| "init_bind Rejected f = Rejected"
| "init_bind (Built x) f = f x"

subsection \<open>Vertices\<close>

definition Graph_AddModule :: "UNIModuleConfig \<Rightarrow> GraphParts \<Rightarrow> GraphParts init_result" where
  "Graph_AddModule config g =
     (if \<not> IsNodeNameValid (mod_name config) then Rejected
      else case DAG_AddVertex (pt_dag g) of
          (vertex_id, d) \<Rightarrow>
            (if map_of (pt_modules g) (mod_name config) \<noteq> None then Rejected
             else Built (g\<lparr>pt_dag := d, pt_vertices := pt_vertices g @ [mod_name config],
                           pt_modules := smap_put (mod_name config) (vertex_id, config) (pt_modules g)\<rparr>)))"

fun module_loop :: "UNIModuleConfig list \<Rightarrow> GraphParts \<Rightarrow> GraphParts init_result" where
  "module_loop [] g = Built g"
| "module_loop (c # cs) g = init_bind (Graph_AddModule c g) (module_loop cs)"

type_synonym InitState = "string set \<times> Nexts"

text \<open>\<^verbatim>\<open>AddVertex\<close> of a subgraph; \<open>init\<close> is \<^verbatim>\<open>Init\<close> of the subgraph.\<close>

definition Graph_AddSubgraph ::
  "(NodeId \<Rightarrow> string \<Rightarrow> UNIGraphConfig \<Rightarrow> InitState \<Rightarrow> (Graph \<times> InitState) init_result) \<Rightarrow> GraphEnv \<Rightarrow>
     NodeId \<Rightarrow> string \<Rightarrow> UNISubgraphConfig \<Rightarrow> GraphParts \<times> InitState \<Rightarrow> (GraphParts \<times> InitState) init_result" where
  "Graph_AddSubgraph init env pos full config gs =
     (case gs of (g, st) \<Rightarrow>
        (if \<not> IsNodeNameValid (sub_name config) then Rejected
         else case UNIGraphConfig_ParseByJSONFile (ge_files env) (ge_parse env) (ge_write env) (config_path config)
                 UNIGraphConfig_new of
             Inl e \<Rightarrow> Faulted e
           | Inr None \<Rightarrow> Rejected
           | Inr (Some gc) \<Rightarrow>
               (let name = NameIgnoreSubgraphPrefix (sub_name config)
                in init_bind (init (pos @ [name]) full (gc\<lparr>graph_name := name\<rparr>) st)
                     (\<lambda>(sub, st'). case DAG_AddVertex (pt_dag g) of
                        (vertex_id, d) \<Rightarrow>
                          (if map_of (pt_subs g) (sub_name config) \<noteq> None then Rejected
                           else Built (g\<lparr>pt_dag := d, pt_vertices := pt_vertices g @ [sub_name config],
                                         pt_subs := smap_put (sub_name config) (vertex_id, config, sub) (pt_subs g)\<rparr>, st'))))))"

text \<open>The loop over the subgraphs; only a nested graph (\<open>pos \<noteq> []\<close>) looks for analysis loops.\<close>

fun subgraph_loop ::
  "(NodeId \<Rightarrow> string \<Rightarrow> UNIGraphConfig \<Rightarrow> InitState \<Rightarrow> (Graph \<times> InitState) init_result) \<Rightarrow> GraphEnv \<Rightarrow>
     NodeId \<Rightarrow> string \<Rightarrow> UNISubgraphConfig list \<Rightarrow> GraphParts \<times> InitState \<Rightarrow> (GraphParts \<times> InitState) init_result" where
  "subgraph_loop init env pos full [] gs = Built gs"
| "subgraph_loop init env pos full (c # cs) (g, paths, nx) =
     (if \<not> IsSubgraphItem (sub_name c) then Rejected
      else let real = ge_realpath env (config_path c)
           in if pos \<noteq> [] \<and> (real = [] \<or> real \<in> paths) then Rejected
              else init_bind (Graph_AddSubgraph init env pos full c (g, if pos = [] then paths else insert real paths, nx))
                     (subgraph_loop init env pos full cs))"

subsection \<open>Edges\<close>

text \<open>
  The ends of an edge: a module's vertex with its node, or a subgraph's vertex with the graph.  The
  four overloads of \<^verbatim>\<open>AddEdge\<close> link the nodes an edge leaves with the nodes it enters.
\<close>

datatype EdgeEnd = ModuleEnd nat NodeId | SubgraphEnd nat Graph

fun end_vertex :: "EdgeEnd \<Rightarrow> nat" where
  "end_vertex (ModuleEnd v i) = v"
| "end_vertex (SubgraphEnd v g) = v"

fun leaving :: "EdgeEnd \<Rightarrow> NodeId list" where
  "leaving (ModuleEnd v i) = [i]"
| "leaving (SubgraphEnd v g) = g_tails g"

fun entered :: "EdgeEnd \<Rightarrow> NodeId list" where
  "entered (ModuleEnd v i) = [i]"
| "entered (SubgraphEnd v g) = g_heads g"

definition Graph_AddEdge :: "EdgeEnd \<Rightarrow> EdgeEnd \<Rightarrow> DAGAlgorithm \<times> Nexts \<Rightarrow> DAGAlgorithm \<times> Nexts" where
  "Graph_AddEdge a b dn =
     (case dn of (d, nx) \<Rightarrow>
        (snd (DAG_AddEdge d (end_vertex a) (end_vertex b)),
         \<lambda>i. if i \<in> set (leaving a) then nx i \<union> set (entered b) else nx i))"

definition find_end :: "GraphParts \<Rightarrow> NodeId \<Rightarrow> string \<Rightarrow> EdgeEnd option" where
  "find_end g pos name =
     (if IsSubgraphItem name
      then map_option (\<lambda>(v, c, sub). SubgraphEnd v sub) (map_of (pt_subs g) name)
      else map_option (\<lambda>(v, c). ModuleEnd v (pos @ [name])) (map_of (pt_modules g) name))"

text \<open>The loop over the names in \<^verbatim>\<open>next\<close>, and the two loops over the nodes.\<close>

fun next_loop ::
  "GraphParts \<Rightarrow> NodeId \<Rightarrow> EdgeEnd \<Rightarrow> string list \<Rightarrow> DAGAlgorithm \<times> Nexts \<Rightarrow> (DAGAlgorithm \<times> Nexts) init_result" where
  "next_loop g pos a [] dn = Built dn"
| "next_loop g pos a (n # ns) dn =
     (case find_end g pos n of None \<Rightarrow> Rejected | Some b \<Rightarrow> next_loop g pos a ns (Graph_AddEdge a b dn))"

fun edge_loop ::
  "GraphParts \<Rightarrow> NodeId \<Rightarrow> (EdgeEnd \<times> string list) list \<Rightarrow> DAGAlgorithm \<times> Nexts \<Rightarrow> (DAGAlgorithm \<times> Nexts) init_result" where
  "edge_loop g pos [] dn = Built dn"
| "edge_loop g pos ((a, ns) # es) dn = init_bind (next_loop g pos a ns dn) (edge_loop g pos es)"

definition edge_sources :: "GraphParts \<Rightarrow> NodeId \<Rightarrow> (EdgeEnd \<times> string list) list" where
  "edge_sources g pos =
     map (\<lambda>(name, v, c). (ModuleEnd v (pos @ [name]), mod_next c)) (pt_modules g) @
     map (\<lambda>(name, v, c, sub). (SubgraphEnd v sub, sub_next c)) (pt_subs g)"

definition Graph_InitEdges :: "GraphParts \<Rightarrow> NodeId \<Rightarrow> Nexts \<Rightarrow> (DAGAlgorithm \<times> Nexts) init_result" where
  "Graph_InitEdges g pos nx = edge_loop g pos (edge_sources g pos) (pt_dag g, nx)"

subsection \<open>Heads and tails\<close>

text \<open>\<open>None\<close> is the dereference of \<^verbatim>\<open>end()\<close> when a vertex is in neither map.\<close>

definition vertex_end :: "GraphParts \<Rightarrow> NodeId \<Rightarrow> nat \<Rightarrow> EdgeEnd option" where
  "vertex_end g pos v = (if v < length (pt_vertices g) then find_end g pos (pt_vertices g ! v) else None)"

definition Graph_FindHeadsAndTails ::
  "GraphParts \<Rightarrow> NodeId \<Rightarrow> DAGAlgorithm \<Rightarrow> (NodeId list \<times> NodeId list) option" where
  "Graph_FindHeadsAndTails g pos d =
     (case (those (map (vertex_end g pos) (DAG_GetHeads d)), those (map (vertex_end g pos) (DAG_GetTails d))) of
        (Some hs, Some ts) \<Rightarrow> Some (concat (map entered hs), concat (map leaving ts))
      | _ \<Rightarrow> None)"

subsection \<open>Initialisation\<close>

definition full_name :: "string \<Rightarrow> string \<Rightarrow> string" where
  "full_name prefix name = (if prefix = [] then name else prefix @ ''/'' @ name)"

text \<open>\<open>pos\<close> leads to the graph (empty for the root), \<open>parent\<close> is the full name of its parent.\<close>

primrec Graph_Init ::
  "nat \<Rightarrow> GraphEnv \<Rightarrow> NodeId \<Rightarrow> string \<Rightarrow> UNIGraphConfig \<Rightarrow> InitState \<Rightarrow> (Graph \<times> InitState) init_result" where
  "Graph_Init 0 env pos parent config st = OutOfFuel"
| "Graph_Init (Suc fuel) env pos parent config st =
     (let (paths, nx) = st;
          full = full_name parent (graph_name config)
      in init_bind (module_loop (module_configs config) Graph_Clear)
           (\<lambda>g1. init_bind (subgraph_loop (Graph_Init fuel env) env pos full (subgraph_configs config)
                              (g1, if pos = [] then {} else paths, nx))
             (\<lambda>(g, paths', nx'). init_bind (Graph_InitEdges g pos nx')
               (\<lambda>(d, nx2). case Graph_FindHeadsAndTails g pos d of
                    None \<Rightarrow> Faulted NullPointer
                  | Some (hs, ts) \<Rightarrow>
                      (if snd (DAG_TopoSort d) \<noteq> [] then Rejected
                       else Built (Graph config parent (pt_modules g) (pt_subs g) (pt_vertices g) d hs ts, paths', nx2))))))"

subsection \<open>Observers\<close>

definition Graph_Empty :: "Graph \<Rightarrow> bool" where
  "Graph_Empty g \<longleftrightarrow> g_vertices g = []"

definition Graph_GetName :: "Graph \<Rightarrow> string" where
  "Graph_GetName g = graph_name (g_config g)"

definition Graph_GetFullName :: "Graph \<Rightarrow> string" where
  "Graph_GetFullName g = full_name (g_parent_name g) (Graph_GetName g)"

lemma subgraph_size:
  assumes "map_of (g_subs g) n = Some (v, c, sub)"
  shows "size sub < size g"
proof (cases g)
  case (Graph x1 x2 x3 x4 x5 x6 x7 x8)
  have "(n, v, c, sub) \<in> set x4" using assms Graph by (auto dest: map_of_SomeD)
  then have "size sub \<le> size_list (size_prod (\<lambda>x. 0) (size_prod (\<lambda>x. 0) (size_prod (\<lambda>x. 0) size))) x4"
    by (rule size_list_estimation') simp
  then show ?thesis using Graph by simp
qed

text \<open>
  \<^verbatim>\<open>TopoSort\<close>: the full names, a subgraph's in place of its vertex; \<open>None\<close> is the dereference of
  \<^verbatim>\<open>end()\<close>.
\<close>

function Graph_TopoSort :: "Graph \<Rightarrow> string list option" where
  "Graph_TopoSort g =
     map_option concat (those (map (\<lambda>v.
       if v < length (g_vertices g)
       then (let name = g_vertices g ! v
             in if IsSubgraphItem name
                then (case map_of (g_subs g) name of
                        None \<Rightarrow> None
                      | Some (_, _, sub) \<Rightarrow> (if \<not> Graph_Empty sub then Graph_TopoSort sub else Some []))
                else Some [Graph_GetFullName g @ ''/'' @ name])
       else None) (fst (DAG_TopoSort (g_dag g)))))"
  by pat_completeness auto
termination
  by (relation "measure size") (auto dest: subgraph_size)

declare Graph_TopoSort.simps [simp del]

end
