(* ===== verification/GraphBuild.thy ===== *)
theory GraphBuild
  imports Graph
begin

section \<open>What UNIGraph::Init builds\<close>

text \<open>
  \<open>graph_ok\<close> says what a graph that \<^verbatim>\<open>Init\<close> accepted looks like at every level of nesting, and the
  lemmas carry it through the loops of \<^verbatim>\<open>Init\<close>: \<open>parts_inv\<close> through the insertion of the vertices,
  \<open>next_loop_spec\<close> and \<open>edge_loop_spec\<close> through \<^verbatim>\<open>InitEdges\<close>.  Then the fuel of \<open>Graph_Init\<close> and the
  topological order of the nodes.
\<close>

subsection \<open>The specification\<close>

definition vertex_names :: "UNIGraphConfig \<Rightarrow> string list" where
  "vertex_names cfg = map mod_name (module_configs cfg) @ map sub_name (subgraph_configs cfg)"

definition vertex_nexts :: "UNIGraphConfig \<Rightarrow> string list list" where
  "vertex_nexts cfg = map mod_next (module_configs cfg) @ map sub_next (subgraph_configs cfg)"

text \<open>The edges a configuration asks for.\<close>

definition config_edges :: "UNIGraphConfig \<Rightarrow> (nat \<times> nat) set" where
  "config_edges cfg =
     {(u, v). u < length (vertex_names cfg) \<and> v < length (vertex_names cfg) \<and>
              vertex_names cfg ! v \<in> set (vertex_nexts cfg ! u)}"

definition level_ok :: "Graph \<Rightarrow> bool" where
  "level_ok g \<longleftrightarrow> g_vertices g = vertex_names (g_config g) \<and> distinct (g_vertices g) \<and>
     (\<forall>n\<in>set (g_vertices g). IsNodeNameValid n) \<and>
     (\<forall>ns\<in>set (vertex_nexts (g_config g)). set ns \<subseteq> set (g_vertices g)) \<and>
     dag_wf (g_dag g) \<and> length (edges (g_dag g)) = length (g_vertices g) \<and>
     edge_rel (g_dag g) = config_edges (g_config g) \<and> acyclic (edge_rel (g_dag g)) \<and>
     (\<forall>n v c. map_of (g_modules g) n = Some (v, c) \<longrightarrow>
        v < length (module_configs (g_config g)) \<and> module_configs (g_config g) ! v = c \<and> mod_name c = n) \<and>
     dom (map_of (g_modules g)) = {n \<in> set (g_vertices g). \<not> IsSubgraphItem n} \<and>
     (\<forall>n v c sub. map_of (g_subs g) n = Some (v, c, sub) \<longrightarrow>
        v < length (g_vertices g) \<and> g_vertices g ! v = n \<and> c \<in> set (subgraph_configs (g_config g))) \<and>
     dom (map_of (g_subs g)) = {n \<in> set (g_vertices g). IsSubgraphItem n}"

inductive graph_ok :: "Graph \<Rightarrow> bool" where
  "level_ok g \<Longrightarrow>
   (\<And>n v c sub. map_of (g_subs g) n = Some (v, c, sub) \<Longrightarrow>
      g_parent_name sub = Graph_GetFullName g \<and> Graph_GetName sub = NameIgnoreSubgraphPrefix n \<and> graph_ok sub) \<Longrightarrow>
   graph_ok g"

inductive_cases graph_okE: "graph_ok g"

subsection \<open>Inserting the vertices\<close>

definition parts_inv ::
  "(UNISubgraphConfig \<Rightarrow> Graph \<Rightarrow> bool) \<Rightarrow> UNIModuleConfig list \<Rightarrow> UNISubgraphConfig list \<Rightarrow> GraphParts \<Rightarrow> bool" where
  "parts_inv P ms ss g \<longleftrightarrow>
     pt_vertices g = map mod_name ms @ map sub_name ss \<and> distinct (map mod_name ms) \<and> distinct (map sub_name ss) \<and>
     (\<forall>n\<in>set (pt_vertices g). IsNodeNameValid n) \<and> (\<forall>c\<in>set ss. IsSubgraphItem (sub_name c)) \<and>
     smap_ok (pt_modules g) \<and> smap_ok (pt_subs g) \<and>
     (\<forall>n v c. map_of (pt_modules g) n = Some (v, c) \<longrightarrow> v < length ms \<and> ms ! v = c \<and> mod_name c = n) \<and>
     dom (map_of (pt_modules g)) = mod_name ` set ms \<and>
     (\<forall>n v c sub. map_of (pt_subs g) n = Some (v, c, sub) \<longrightarrow>
        length ms \<le> v \<and> v < length ms + length ss \<and> ss ! (v - length ms) = c \<and> sub_name c = n \<and> P c sub) \<and>
     dom (map_of (pt_subs g)) = sub_name ` set ss \<and>
     dag_wf (pt_dag g) \<and> length (edges (pt_dag g)) = length ms + length ss \<and> edge_rel (pt_dag g) = {}"

lemma parts_inv_None:
  assumes "parts_inv P ms ss g"
  shows "map_of (pt_modules g) n = None \<longleftrightarrow> n \<notin> mod_name ` set ms"
    and "map_of (pt_subs g) n = None \<longleftrightarrow> n \<notin> sub_name ` set ss"
proof -
  have "dom (map_of (pt_modules g)) = mod_name ` set ms" "dom (map_of (pt_subs g)) = sub_name ` set ss"
    using assms by (simp_all add: parts_inv_def)
  then show "map_of (pt_modules g) n = None \<longleftrightarrow> n \<notin> mod_name ` set ms"
    "map_of (pt_subs g) n = None \<longleftrightarrow> n \<notin> sub_name ` set ss" by (metis domIff)+
qed

lemma parts_inv_Clear: "parts_inv P [] [] Graph_Clear"
  by (simp add: parts_inv_def Graph_Clear_def dag_wf_empty DAG_empty_def edge_rel_def dag_wf_def)

lemma DAG_AddVertex_facts:
  assumes "DAG_AddVertex d = (v, d')"
  shows "v = length (edges d)" "length (edges d') = Suc (length (edges d))"
    "edge_rel d' = edge_rel d" "dag_wf d \<Longrightarrow> dag_wf d'"
  using assms edge_rel_AddVertex [of d] dag_wf_AddVertex [of d]
  by (auto simp: DAG_AddVertex_def)

lemma AddModule_inv:
  assumes "parts_inv P ms [] g" and "Graph_AddModule c g = Built g'"
  shows "parts_inv P (ms @ [c]) [] g'"
proof -
  obtain v d where av: "DAG_AddVertex (pt_dag g) = (v, d)" by fastforce
  have valid: "IsNodeNameValid (mod_name c)" and new: "map_of (pt_modules g) (mod_name c) = None"
    and g': "g' = g\<lparr>pt_dag := d, pt_vertices := pt_vertices g @ [mod_name c],
                    pt_modules := smap_put (mod_name c) (v, c) (pt_modules g)\<rparr>"
    using assms(2) av by (auto simp: Graph_AddModule_def simp del: not_None_eq split: if_splits)
  note dv = DAG_AddVertex_facts [OF av]
  have fresh: "mod_name c \<notin> mod_name ` set ms"
    using new parts_inv_None(1) [OF assms(1)] by blast
  have v: "v = length ms" using assms(1) dv by (simp add: parts_inv_def)
  have "v' < length (ms @ [c]) \<and> (ms @ [c]) ! v' = c' \<and> mod_name c' = n"
    if "map_of (pt_modules g') n = Some (v', c')" for n v' c'
  proof (cases "n = mod_name c")
    case True
    with that have "v' = length ms" "c' = c" by (simp_all add: g' v)
    with True show ?thesis by simp
  next
    case False
    with that have "map_of (pt_modules g) n = Some (v', c')" by (simp add: g')
    then have "v' < length ms \<and> ms ! v' = c' \<and> mod_name c' = n" using assms(1) by (simp add: parts_inv_def)
    then show ?thesis by (simp add: nth_append)
  qed
  moreover have "dom (map_of (pt_modules g')) = mod_name ` set (ms @ [c])"
    using assms(1) by (simp add: g' parts_inv_def)
  moreover have "pt_subs g' = pt_subs g" "pt_dag g' = d" "pt_vertices g' = pt_vertices g @ [mod_name c]"
    by (simp_all add: g')
  moreover have "smap_ok (pt_modules g')" using assms(1) by (simp add: g' parts_inv_def)
  ultimately show ?thesis using assms(1) dv fresh valid by (simp add: parts_inv_def)
qed

lemma module_loop_inv:
  "parts_inv P ms [] g \<Longrightarrow> module_loop cs g = Built g' \<Longrightarrow> parts_inv P (ms @ cs) [] g'"
proof (induction cs arbitrary: ms g)
  case (Cons c cs)
  from Cons.prems(2) obtain g1 where a: "Graph_AddModule c g = Built g1" and l: "module_loop cs g1 = Built g'"
    by (cases "Graph_AddModule c g") auto
  from Cons.IH [OF AddModule_inv [OF Cons.prems(1) a] l] show ?case by simp
qed simp

lemma AddSubgraph_inv:
  assumes inv: "parts_inv P ms ss g" and b: "Graph_AddSubgraph init env pos full c (g, st) = Built (g', st')"
    and item: "IsSubgraphItem (sub_name c)"
    and init: "\<And>gc sub. UNIGraphConfig_ParseByJSONFile (ge_files env) (ge_parse env) (ge_write env) (config_path c)
        UNIGraphConfig_new = Inr (Some gc) \<Longrightarrow>
      init (pos @ [NameIgnoreSubgraphPrefix (sub_name c)]) full
        (gc\<lparr>graph_name := NameIgnoreSubgraphPrefix (sub_name c)\<rparr>) st = Built (sub, st') \<Longrightarrow> P c sub"
  shows "parts_inv P ms (ss @ [c]) g'"
proof -
  let ?name = "NameIgnoreSubgraphPrefix (sub_name c)"
  obtain v d where av: "DAG_AddVertex (pt_dag g) = (v, d)" by fastforce
  have valid: "IsNodeNameValid (sub_name c)" using b by (auto simp: Graph_AddSubgraph_def split: if_splits)
  obtain gc where gc: "UNIGraphConfig_ParseByJSONFile (ge_files env) (ge_parse env) (ge_write env) (config_path c)
      UNIGraphConfig_new = Inr (Some gc)"
    using b valid by (auto simp: Graph_AddSubgraph_def split: sum.splits option.splits)
  obtain sub st1 where i: "init (pos @ [?name]) full (gc\<lparr>graph_name := ?name\<rparr>) st = Built (sub, st1)"
    using b valid gc
    by (cases "init (pos @ [?name]) full (gc\<lparr>graph_name := ?name\<rparr>) st") (auto simp: Graph_AddSubgraph_def Let_def)
  have new: "map_of (pt_subs g) (sub_name c) = None"
    using b valid gc i av by (cases "map_of (pt_subs g) (sub_name c)") (auto simp: Graph_AddSubgraph_def Let_def)
  have g': "g' = g\<lparr>pt_dag := d, pt_vertices := pt_vertices g @ [sub_name c],
                  pt_subs := smap_put (sub_name c) (v, c, sub) (pt_subs g)\<rparr>" and st1: "st1 = st'"
    using b valid gc i av new by (auto simp: Graph_AddSubgraph_def Let_def)
  have P: "P c sub" using init [OF gc] i st1 by simp
  note dv = DAG_AddVertex_facts [OF av]
  have fresh: "sub_name c \<notin> sub_name ` set ss"
    using new parts_inv_None(2) [OF inv] by blast
  have v: "v = length ms + length ss" using inv dv by (simp add: parts_inv_def)
  have "length ms \<le> v' \<and> v' < length ms + length (ss @ [c]) \<and> (ss @ [c]) ! (v' - length ms) = c' \<and>
      sub_name c' = n \<and> P c' sub'"
    if "map_of (pt_subs g') n = Some (v', c', sub')" for n v' c' sub'
  proof (cases "n = sub_name c")
    case True
    with that have "v' = length ms + length ss" "c' = c" "sub' = sub" by (simp_all add: g' v)
    with True P show ?thesis by simp
  next
    case False
    with that have "map_of (pt_subs g) n = Some (v', c', sub')" by (simp add: g')
    then have "length ms \<le> v' \<and> v' < length ms + length ss \<and> ss ! (v' - length ms) = c' \<and> sub_name c' = n \<and> P c' sub'"
      using inv by (simp add: parts_inv_def)
    then show ?thesis by (auto simp: nth_append)
  qed
  moreover have "dom (map_of (pt_subs g')) = sub_name ` set (ss @ [c])"
    using inv by (simp add: g' parts_inv_def)
  moreover have "pt_modules g' = pt_modules g" "pt_dag g' = d" "pt_vertices g' = pt_vertices g @ [sub_name c]"
    by (simp_all add: g')
  moreover have "smap_ok (pt_subs g')" using inv by (simp add: g' parts_inv_def)
  ultimately show ?thesis using inv dv fresh valid item by (simp add: parts_inv_def)
qed

lemma subgraph_loop_inv:
  assumes "\<And>c gc sub st st'. UNIGraphConfig_ParseByJSONFile (ge_files env) (ge_parse env) (ge_write env) (config_path c)
        UNIGraphConfig_new = Inr (Some gc) \<Longrightarrow>
      init (pos @ [NameIgnoreSubgraphPrefix (sub_name c)]) full
        (gc\<lparr>graph_name := NameIgnoreSubgraphPrefix (sub_name c)\<rparr>) st = Built (sub, st') \<Longrightarrow> P c sub"
  shows "parts_inv P ms ss g \<Longrightarrow> subgraph_loop init env pos full cs (g, paths, nx) = Built (g', st') \<Longrightarrow>
    parts_inv P ms (ss @ cs) g'"
proof (induction cs arbitrary: ss g paths nx)
  case (Cons c cs)
  let ?p = "if pos = [] then paths else insert (ge_realpath env (config_path c)) paths"
  have item: "IsSubgraphItem (sub_name c)" using Cons.prems(2) by (auto split: if_splits)
  have "init_bind (Graph_AddSubgraph init env pos full c (g, ?p, nx)) (subgraph_loop init env pos full cs) = Built (g', st')"
    using Cons.prems(2) item by (simp add: Let_def split: if_splits)
  then obtain g1 p1 nx1 where a: "Graph_AddSubgraph init env pos full c (g, ?p, nx) = Built (g1, p1, nx1)"
    and l: "subgraph_loop init env pos full cs (g1, p1, nx1) = Built (g', st')"
    by (cases "Graph_AddSubgraph init env pos full c (g, ?p, nx)") auto
  from Cons.IH [OF AddSubgraph_inv [OF Cons.prems(1) a item assms] l] show ?case by simp
qed simp

subsection \<open>Inserting the edges\<close>

lemma find_end_spec:
  assumes "parts_inv P ms ss g" and "\<forall>c\<in>set ms. \<not> IsSubgraphItem (mod_name c)"
  shows "find_end g pos n = None \<longleftrightarrow> n \<notin> set (pt_vertices g)"
    and "find_end g pos n = Some b \<Longrightarrow>
      end_vertex b < length (pt_vertices g) \<and> pt_vertices g ! end_vertex b = n"
proof -
  note m = parts_inv_None(1) [OF assms(1), of n] and s = parts_inv_None(2) [OF assms(1), of n]
  have item: "n \<in> sub_name ` set ss \<Longrightarrow> IsSubgraphItem n" "n \<in> mod_name ` set ms \<Longrightarrow> \<not> IsSubgraphItem n"
    using assms by (auto simp: parts_inv_def)
  have vs: "pt_vertices g = map mod_name ms @ map sub_name ss" using assms(1) by (simp add: parts_inv_def)
  show "find_end g pos n = None \<longleftrightarrow> n \<notin> set (pt_vertices g)"
    using m s item by (simp add: find_end_def vs del: not_None_eq) blast
  assume b: "find_end g pos n = Some b"
  show "end_vertex b < length (pt_vertices g) \<and> pt_vertices g ! end_vertex b = n"
  proof (cases "IsSubgraphItem n")
    case True
    with b obtain v c sub where "map_of (pt_subs g) n = Some (v, c, sub)" "b = SubgraphEnd v sub"
      by (auto simp: find_end_def)
    moreover from this(1) have "length ms \<le> v \<and> v < length ms + length ss \<and> ss ! (v - length ms) = c \<and> sub_name c = n"
      using assms(1) by (simp add: parts_inv_def)
    ultimately show ?thesis by (auto simp: vs nth_append)
  next
    case False
    with b obtain v c where "map_of (pt_modules g) n = Some (v, c)" "b = ModuleEnd v (pos @ [n])"
      by (auto simp: find_end_def)
    moreover from this(1) have "v < length ms \<and> ms ! v = c \<and> mod_name c = n"
      using assms(1) by (simp add: parts_inv_def)
    ultimately show ?thesis by (auto simp: vs nth_append)
  qed
qed

lemma AddEdge_rel:
  assumes "a < length (edges d)" and "b < length (edges d)"
  shows "edge_rel (snd (DAG_AddEdge d a b)) = insert (a, b) (edge_rel d)"
proof (cases "fst (DAG_AddEdge d a b)")
  case False
  then have "(a, b) \<in> edge_rel d" using assms by (auto simp: AddEdge_iff)
  with False show ?thesis by (auto simp: AddEdge_False)
qed (rule edge_rel_AddEdge)

lemma length_AddEdge: "length (edges (snd (DAG_AddEdge d a b))) = length (edges d)"
  by (simp add: DAG_AddEdge_def Let_def)

text \<open>The vertices that the names of \<open>ns\<close> stand for.\<close>

definition named :: "string list \<Rightarrow> string list \<Rightarrow> nat set" where
  "named vs ns = {v. v < length vs \<and> vs ! v \<in> set ns}"

lemma next_loop_spec:
  assumes inv: "parts_inv P ms ss g" "\<forall>c\<in>set ms. \<not> IsSubgraphItem (mod_name c)"
    and dist: "distinct (pt_vertices g)" and a: "end_vertex a < length (pt_vertices g)"
  shows "next_loop g pos a ns (d, nx) = Built (d', nx') \<Longrightarrow> dag_wf d \<Longrightarrow> length (edges d) = length (pt_vertices g) \<Longrightarrow>
    set ns \<subseteq> set (pt_vertices g) \<and> dag_wf d' \<and> length (edges d') = length (pt_vertices g) \<and>
    edge_rel d' = edge_rel d \<union> {end_vertex a} \<times> named (pt_vertices g) ns"
proof (induction ns arbitrary: d nx)
  case Nil
  then show ?case by (simp add: named_def)
next
  case (Cons n ns)
  obtain b where b: "find_end g pos n = Some b"
    using Cons.prems(1) by (cases "find_end g pos n") auto
  note bv = find_end_spec(2) [OF inv b]
  have n: "n \<in> set (pt_vertices g)" using bv by (auto simp: in_set_conv_nth)
  obtain d1 nx1 where s: "Graph_AddEdge a b (d, nx) = (d1, nx1)" by fastforce
  then have d1: "d1 = snd (DAG_AddEdge d (end_vertex a) (end_vertex b))" by (simp add: Graph_AddEdge_def)
  have "next_loop g pos a ns (d1, nx1) = Built (d', nx')" using Cons.prems(1) b s by simp
  moreover have "dag_wf d1" using Cons.prems(2) d1 by (simp add: dag_wf_AddEdge)
  moreover have "length (edges d1) = length (pt_vertices g)" using Cons.prems(3) d1 by (simp add: length_AddEdge)
  ultimately have r: "set ns \<subseteq> set (pt_vertices g) \<and> dag_wf d' \<and> length (edges d') = length (pt_vertices g) \<and>
      edge_rel d' = edge_rel d1 \<union> {end_vertex a} \<times> named (pt_vertices g) ns"
    by (rule Cons.IH)
  have e1: "edge_rel d1 = insert (end_vertex a, end_vertex b) (edge_rel d)"
    unfolding d1 using AddEdge_rel a bv Cons.prems(3) by simp
  have "v = end_vertex b" if "v < length (pt_vertices g)" "pt_vertices g ! v = n" for v
    using that bv dist nth_eq_iff_index_eq by metis
  then have "named (pt_vertices g) (n # ns) = insert (end_vertex b) (named (pt_vertices g) ns)"
    using bv by (auto simp: named_def)
  with r e1 n show ?case by auto
qed

lemma edge_loop_spec:
  assumes inv: "parts_inv P ms ss g" "\<forall>c\<in>set ms. \<not> IsSubgraphItem (mod_name c)"
    and dist: "distinct (pt_vertices g)"
  shows "edge_loop g pos es (d, nx) = Built (d', nx') \<Longrightarrow> dag_wf d \<Longrightarrow> length (edges d) = length (pt_vertices g) \<Longrightarrow>
    \<forall>(a, ns)\<in>set es. end_vertex a < length (pt_vertices g) \<Longrightarrow>
    (\<forall>(a, ns)\<in>set es. set ns \<subseteq> set (pt_vertices g)) \<and> dag_wf d' \<and> length (edges d') = length (pt_vertices g) \<and>
    edge_rel d' = edge_rel d \<union> (\<Union>(a, ns)\<in>set es. {end_vertex a} \<times> named (pt_vertices g) ns)"
proof (induction es arbitrary: d nx)
  case (Cons e es)
  obtain a ns where e: "e = (a, ns)" by fastforce
  obtain d1 nx1 where s: "next_loop g pos a ns (d, nx) = Built (d1, nx1)"
    and l: "edge_loop g pos es (d1, nx1) = Built (d', nx')"
    using Cons.prems(1) by (cases "next_loop g pos a ns (d, nx)") (auto simp: e)
  have "end_vertex a < length (pt_vertices g)" using Cons.prems(4) e by simp
  note n = next_loop_spec [OF inv dist this s Cons.prems(2,3)]
  have "\<forall>(a, ns)\<in>set es. end_vertex a < length (pt_vertices g)" using Cons.prems(4) by simp
  with Cons.IH [OF l] n have "(\<forall>(a, ns)\<in>set es. set ns \<subseteq> set (pt_vertices g)) \<and> dag_wf d' \<and>
      length (edges d') = length (pt_vertices g) \<and>
      edge_rel d' = edge_rel d1 \<union> (\<Union>(a, ns)\<in>set es. {end_vertex a} \<times> named (pt_vertices g) ns)" by simp
  with n show ?case by (auto simp: e)
qed simp

lemma edge_sources_ends:
  assumes inv: "parts_inv P ms ss g" and "(a, ns) \<in> set (edge_sources g pos)"
  shows "end_vertex a < length (pt_vertices g) \<and>
    ns = (map mod_next ms @ map sub_next ss) ! end_vertex a"
proof -
  have vs: "length (pt_vertices g) = length ms + length ss" using inv by (simp add: parts_inv_def)
  from assms(2) consider
      (m) n v c where "(n, v, c) \<in> set (pt_modules g)" "a = ModuleEnd v (pos @ [n])" "ns = mod_next c"
    | (s) n v c sub where "(n, v, c, sub) \<in> set (pt_subs g)" "a = SubgraphEnd v sub" "ns = sub_next c"
    by (auto simp: edge_sources_def)
  then show ?thesis
  proof cases
    case m
    then have "map_of (pt_modules g) n = Some (v, c)" using inv by (simp add: parts_inv_def smap_mem)
    then have "v < length ms \<and> ms ! v = c" using inv by (simp add: parts_inv_def)
    with m vs show ?thesis by (auto simp: nth_append)
  next
    case s
    then have "map_of (pt_subs g) n = Some (v, c, sub)" using inv by (simp add: parts_inv_def smap_mem)
    then have "length ms \<le> v \<and> v < length ms + length ss \<and> ss ! (v - length ms) = c" using inv by (simp add: parts_inv_def)
    with s vs show ?thesis by (auto simp: nth_append)
  qed
qed

lemma edge_sources_all:
  assumes inv: "parts_inv P ms ss g" and "u < length (pt_vertices g)"
  shows "\<exists>a. (a, (map mod_next ms @ map sub_next ss) ! u) \<in> set (edge_sources g pos) \<and> end_vertex a = u"
proof -
  have vs: "pt_vertices g = map mod_name ms @ map sub_name ss" using inv by (simp add: parts_inv_def)
  have dist: "distinct (map mod_name ms)" "distinct (map sub_name ss)" using inv by (simp_all add: parts_inv_def)
  show ?thesis
  proof (cases "u < length ms")
    case True
    then have "map_of (pt_modules g) (mod_name (ms ! u)) \<noteq> None"
      using parts_inv_None(1) [OF inv] by auto
    then obtain v c where m: "map_of (pt_modules g) (mod_name (ms ! u)) = Some (v, c)" by auto
    then have v: "v < length ms \<and> ms ! v = c \<and> mod_name c = mod_name (ms ! u)" using inv by (simp add: parts_inv_def)
    then have "v = u" using dist(1) True by (metis length_map nth_eq_iff_index_eq nth_map)
    moreover have "(mod_name (ms ! u), v, c) \<in> set (pt_modules g)" using m by (rule map_of_SomeD)
    ultimately show ?thesis using v True
      by (intro exI [of _ "ModuleEnd u (pos @ [mod_name (ms ! u)])"]) (force simp: edge_sources_def nth_append)
  next
    case False
    then have w: "u - length ms < length ss" using assms(2) vs by simp
    let ?n = "sub_name (ss ! (u - length ms))"
    have "map_of (pt_subs g) ?n \<noteq> None" using parts_inv_None(2) [OF inv] w by auto
    then obtain v c sub where m: "map_of (pt_subs g) ?n = Some (v, c, sub)" by auto
    then have v: "length ms \<le> v \<and> v < length ms + length ss \<and> ss ! (v - length ms) = c \<and> sub_name c = ?n"
      using inv by (simp add: parts_inv_def)
    then have "v - length ms = u - length ms"
      using dist(2) w by (metis add.commute length_map less_diff_conv2 nth_eq_iff_index_eq nth_map)
    moreover have "length ms \<le> v" "length ms \<le> u" using v False by simp_all
    ultimately have "v = u" by linarith
    moreover have "(?n, v, c, sub) \<in> set (pt_subs g)" using m by (rule map_of_SomeD)
    ultimately show ?thesis using v False w
      by (intro exI [of _ "SubgraphEnd u sub"]) (force simp: edge_sources_def nth_append)
  qed
qed

lemma InitEdges_spec:
  assumes inv: "parts_inv P ms ss g" "\<forall>c\<in>set ms. \<not> IsSubgraphItem (mod_name c)"
    and dist: "distinct (pt_vertices g)" and b: "Graph_InitEdges g pos nx = Built (d, nx')"
  shows "(\<forall>ns\<in>set (map mod_next ms @ map sub_next ss). set ns \<subseteq> set (pt_vertices g)) \<and> dag_wf d \<and>
    length (edges d) = length (pt_vertices g) \<and>
    edge_rel d = {(u, v). u < length (pt_vertices g) \<and> v < length (pt_vertices g) \<and>
      pt_vertices g ! v \<in> set ((map mod_next ms @ map sub_next ss) ! u)}"
proof -
  define nexts where "nexts = map mod_next ms @ map sub_next ss"
  note ends = edge_sources_ends [OF inv(1), folded nexts_def]
  note all = edge_sources_all [OF inv(1), folded nexts_def]
  have vs: "length (pt_vertices g) = length nexts" using inv by (simp add: parts_inv_def nexts_def)
  have l: "edge_loop g pos (edge_sources g pos) (pt_dag g, nx) = Built (d, nx')"
    using b by (simp add: Graph_InitEdges_def)
  have dag: "dag_wf (pt_dag g)" "length (edges (pt_dag g)) = length (pt_vertices g)" "edge_rel (pt_dag g) = {}"
    using inv by (simp_all add: parts_inv_def)
  have bounded: "\<forall>(a, ns)\<in>set (edge_sources g pos). end_vertex a < length (pt_vertices g)"
    using ends [of _ _ pos] by blast
  note r = edge_loop_spec [OF inv dist l dag(1,2) bounded]
  have "set ns \<subseteq> set (pt_vertices g)" if "ns \<in> set nexts" for ns
  proof -
    from that vs obtain u where "u < length (pt_vertices g)" "ns = nexts ! u" by (auto simp: in_set_conv_nth)
    with all [of u pos] r show ?thesis by blast
  qed
  moreover have "edge_rel d = {(u, v). u < length (pt_vertices g) \<and> v < length (pt_vertices g) \<and>
      pt_vertices g ! v \<in> set (nexts ! u)}" (is "_ = ?R")
  proof (intro set_eqI iffI)
    fix e assume "e \<in> edge_rel d"
    then obtain a ns where "(a, ns) \<in> set (edge_sources g pos)" "e \<in> {end_vertex a} \<times> named (pt_vertices g) ns"
      using r dag(3) by auto
    with ends [of a ns pos] show "e \<in> ?R" by (auto simp: named_def)
  next
    fix e assume "e \<in> ?R"
    then obtain u v where e: "e = (u, v)" "u < length (pt_vertices g)" "v < length (pt_vertices g)"
      "pt_vertices g ! v \<in> set (nexts ! u)" by auto
    from all [OF e(2), of pos] obtain a where "(a, nexts ! u) \<in> set (edge_sources g pos)" "end_vertex a = u" by blast
    with e r show "e \<in> edge_rel d" by (force simp: named_def)
  qed
  ultimately show ?thesis using r by (simp add: nexts_def)
qed

subsection \<open>Every graph that Init accepts\<close>

lemma init_bind_Built:
  "init_bind r f = Built y \<longleftrightarrow> (\<exists>x. r = Built x \<and> f x = Built y)"
  by (cases r) auto

lemma Graph_Init_Built:
  assumes "Graph_Init (Suc fuel) env pos parent config (paths, nx) = Built (g, st)"
  obtains g1 p paths' nx' d nx2 hs ts where
    "module_loop (module_configs config) Graph_Clear = Built g1"
    "subgraph_loop (Graph_Init fuel env) env pos (full_name parent (graph_name config)) (subgraph_configs config)
       (g1, if pos = [] then {} else paths, nx) = Built (p, paths', nx')"
    "Graph_InitEdges p pos nx' = Built (d, nx2)" "Graph_FindHeadsAndTails p pos d = Some (hs, ts)"
    "snd (DAG_TopoSort d) = []" "st = (paths', nx2)"
    "g = Graph config parent (pt_modules p) (pt_subs p) (pt_vertices p) d hs ts"
  using assms
  by (auto simp: Let_def init_bind_Built split: option.splits if_splits)

lemma level_ok_intro:
  assumes inv: "parts_inv P ms ss p" and mods: "\<forall>c\<in>set ms. \<not> IsSubgraphItem (mod_name c)"
    and e: "Graph_InitEdges p pos nx' = Built (d, nx2)" and t: "snd (DAG_TopoSort d) = []"
    and cfg: "module_configs config = ms" "subgraph_configs config = ss"
  shows "level_ok (Graph config parent (pt_modules p) (pt_subs p) (pt_vertices p) d hs ts)"
proof -
  have vs: "pt_vertices p = vertex_names config" using inv cfg by (simp add: parts_inv_def vertex_names_def)
  have item: "\<forall>c\<in>set ss. IsSubgraphItem (sub_name c)" using inv by (simp add: parts_inv_def)
  have dist: "distinct (pt_vertices p)"
    using inv mods item by (auto simp: parts_inv_def)
  note s = InitEdges_spec [OF inv mods dist e]
  have rel: "edge_rel d = config_edges config"
    using s vs cfg by (simp add: config_edges_def vertex_nexts_def)
  have wf: "dag_wf d" using s by blast
  have "acyclic (edge_rel d)"
    using TopoSort_acyclic_iff [OF wf surjective_pairing] t by blast
  moreover have "dom (map_of (pt_modules p)) = {n \<in> set (vertex_names config). \<not> IsSubgraphItem n}"
    using inv mods item cfg by (auto simp: parts_inv_def vertex_names_def)
  moreover have "dom (map_of (pt_subs p)) = {n \<in> set (vertex_names config). IsSubgraphItem n}"
    using inv mods item cfg by (auto simp: parts_inv_def vertex_names_def)
  moreover have "v < length (vertex_names config) \<and> vertex_names config ! v = n \<and> c \<in> set ss"
    if "map_of (pt_subs p) n = Some (v, c, sub)" for n v c sub
  proof -
    from that have "length ms \<le> v \<and> v < length ms + length ss \<and> ss ! (v - length ms) = c \<and> sub_name c = n"
      using inv by (simp add: parts_inv_def)
    then show ?thesis using cfg by (auto simp: vertex_names_def nth_append)
  qed
  moreover have "\<forall>n v c. map_of (pt_modules p) n = Some (v, c) \<longrightarrow> v < length ms \<and> ms ! v = c \<and> mod_name c = n"
    "\<forall>n\<in>set (pt_vertices p). IsNodeNameValid n" using inv by (simp_all add: parts_inv_def)
  moreover have "\<forall>ns\<in>set (vertex_nexts config). set ns \<subseteq> set (pt_vertices p)"
    using s cfg by (simp add: vertex_nexts_def)
  ultimately show ?thesis
    using s rel vs dist cfg by (simp add: level_ok_def)
qed

lemma parsed_modules_plain:
  assumes "UNIGraphConfig_ParseByJSONFile files parse write jfile UNIGraphConfig_new = Inr (Some g)"
    and "c \<in> set (module_configs g)"
  shows "\<not> IsSubgraphItem (mod_name c)"
proof -
  from assms(1) obtain ms where "UNIGraphConfig_items parse write ms
      (UNIGraphConfig_new\<lparr>graph_root_dir := GetPathDir jfile\<rparr>) = Inr (Some g)"
    by (auto simp: UNIGraphConfig_ParseByJSONFile_def UNIGraphConfig_ParseByJSONStr_def
        split: option.splits sum.splits)
  from graph_items_names [OF this]
  have "map mod_name (module_configs g) = map (c_str \<circ> fst) (filter is_module_item ms)"
    by (simp add: UNIGraphConfig_new_def)
  moreover have "mod_name c \<in> set (map mod_name (module_configs g))" using assms(2) by simp
  ultimately have "mod_name c \<in> set (map (c_str \<circ> fst) (filter is_module_item ms))" by (simp only:)
  then show ?thesis by (auto simp: is_module_item_def)
qed

lemma Graph_Init_ok:
  "\<forall>c\<in>set (module_configs config). \<not> IsSubgraphItem (mod_name c) \<Longrightarrow>
   Graph_Init fuel env pos parent config st = Built (g, st') \<Longrightarrow>
   graph_ok g \<and> g_config g = config \<and> g_parent_name g = parent"
proof (induction fuel arbitrary: pos parent config st g st')
  case (Suc fuel)
  obtain paths nx where st: "st = (paths, nx)" by fastforce
  define full where "full = full_name parent (graph_name config)"
  define P :: "UNISubgraphConfig \<Rightarrow> Graph \<Rightarrow> bool" where "P c sub \<longleftrightarrow> g_parent_name sub = full \<and>
    Graph_GetName sub = NameIgnoreSubgraphPrefix (sub_name c) \<and> graph_ok sub" for c sub
  from Suc.prems(2) obtain g1 p paths' nx' d nx2 hs ts where
      m: "module_loop (module_configs config) Graph_Clear = Built g1"
      and s: "subgraph_loop (Graph_Init fuel env) env pos full (subgraph_configs config)
        (g1, if pos = [] then {} else paths, nx) = Built (p, paths', nx')"
      and e: "Graph_InitEdges p pos nx' = Built (d, nx2)" and t: "snd (DAG_TopoSort d) = []"
      and g: "g = Graph config parent (pt_modules p) (pt_subs p) (pt_vertices p) d hs ts"
    unfolding st full_def by (rule Graph_Init_Built)
  have nested: "P c sub" if "UNIGraphConfig_ParseByJSONFile (ge_files env) (ge_parse env) (ge_write env) (config_path c)
        UNIGraphConfig_new = Inr (Some gc)"
      "Graph_Init fuel env (pos @ [NameIgnoreSubgraphPrefix (sub_name c)]) full
        (gc\<lparr>graph_name := NameIgnoreSubgraphPrefix (sub_name c)\<rparr>) st = Built (sub, st')" for c gc sub st st'
    using Suc.IH [OF _ that(2)] parsed_modules_plain [OF that(1)] by (simp add: P_def Graph_GetName_def)
  have "parts_inv P (module_configs config) [] g1" using module_loop_inv [OF parts_inv_Clear m] by simp
  from subgraph_loop_inv [where P = P, OF nested this s]
  have inv: "parts_inv P (module_configs config) (subgraph_configs config) p" by simp
  have "level_ok g" unfolding g by (rule level_ok_intro [OF inv Suc.prems(1) e t refl refl])
  moreover have "g_parent_name sub = Graph_GetFullName g \<and> Graph_GetName sub = NameIgnoreSubgraphPrefix n \<and> graph_ok sub"
    if "map_of (g_subs g) n = Some (v, c, sub)" for n v c sub
  proof -
    have "P c sub \<and> sub_name c = n" using that inv by (simp add: g parts_inv_def)
    then show ?thesis by (auto simp: P_def g Graph_GetFullName_def Graph_GetName_def full_def)
  qed
  ultimately have "graph_ok g" by (rule graph_ok.intros)
  then show ?case by (simp add: g)
qed simp

subsection \<open>The fuel of Init\<close>

text \<open>
  Every nested level inserts a real path that was not in \<^verbatim>\<open>subgraph_paths\<close> yet, so with finitely
  many real paths the recursion ends.
\<close>

lemma init_bind_OutOfFuel:
  "init_bind r f = OutOfFuel \<longleftrightarrow> r = OutOfFuel \<or> (\<exists>x. r = Built x \<and> f x = OutOfFuel)"
  by (cases r) auto

lemma module_loop_fuel: "module_loop cs g \<noteq> OutOfFuel"
  by (induction cs arbitrary: g)
    (auto simp: init_bind_OutOfFuel Graph_AddModule_def split: prod.splits if_splits)

lemma next_loop_fuel: "next_loop g pos a ns dn \<noteq> OutOfFuel"
  by (induction ns arbitrary: dn) (auto split: option.splits)

lemma edge_loop_fuel: "edge_loop g pos es dn \<noteq> OutOfFuel"
  by (induction es arbitrary: dn) (auto simp: init_bind_OutOfFuel next_loop_fuel)

lemma AddSubgraph_init:
  assumes "Graph_AddSubgraph init env pos full c (g, st) = r" and "r = OutOfFuel \<or> (\<exists>x. r = Built x)"
  obtains gc where "init (pos @ [NameIgnoreSubgraphPrefix (sub_name c)]) full gc st = OutOfFuel" "r = OutOfFuel"
    | gc sub st' g' where "init (pos @ [NameIgnoreSubgraphPrefix (sub_name c)]) full gc st = Built (sub, st')"
        "r = Built (g', st')"
proof -
  let ?name = "NameIgnoreSubgraphPrefix (sub_name c)"
  obtain v d where av: "DAG_AddVertex (pt_dag g) = (v, d)" by fastforce
  have valid: "IsNodeNameValid (sub_name c)" using assms by (auto simp: Graph_AddSubgraph_def split: if_splits)
  obtain gc0 where gc0: "UNIGraphConfig_ParseByJSONFile (ge_files env) (ge_parse env) (ge_write env) (config_path c)
      UNIGraphConfig_new = Inr (Some gc0)"
    using assms valid by (auto simp: Graph_AddSubgraph_def split: sum.splits option.splits)
  define gc where "gc = gc0\<lparr>graph_name := ?name\<rparr>"
  have r: "r = init_bind (init (pos @ [?name]) full gc st) (\<lambda>(sub, st'). if map_of (pt_subs g) (sub_name c) \<noteq> None then Rejected
      else Built (g\<lparr>pt_dag := d, pt_vertices := pt_vertices g @ [sub_name c],
        pt_subs := smap_put (sub_name c) (v, c, sub) (pt_subs g)\<rparr>, st'))"
    unfolding assms(1) [symmetric]
    by (simp add: Graph_AddSubgraph_def valid gc0 av gc_def Let_def del: not_None_eq)
  show thesis
  proof (cases "init (pos @ [?name]) full gc st")
    case OutOfFuel
    with r that(1) show thesis by simp
  next
    case (Built x)
    obtain sub st' where x: "x = (sub, st')" by (cases x)
    from r Built x assms(2) obtain g' where "r = Built (g', st')" by (auto split: if_splits)
    with Built x that(2) show thesis by simp
  qed (use r assms(2) in auto)
qed

lemma AddSubgraph_mono:
  assumes mono: "\<And>pos' gc paths nx sub paths' nx'. pos' \<noteq> [] \<Longrightarrow> init pos' full gc (paths, nx) = Built (sub, paths', nx') \<Longrightarrow>
      paths \<subseteq> paths'"
    and a: "Graph_AddSubgraph init env pos full c (g, paths, nx) = Built (g1, p1, nx1)"
  shows "paths \<subseteq> p1"
proof -
  obtain gc sub where "init (pos @ [NameIgnoreSubgraphPrefix (sub_name c)]) full gc (paths, nx) = Built (sub, p1, nx1)"
    using a by (rule AddSubgraph_init) auto
  then show ?thesis by (rule mono [rotated]) simp
qed

lemma subgraph_loop_mono:
  assumes "\<And>pos' gc paths nx sub paths' nx'. pos' \<noteq> [] \<Longrightarrow> init pos' full gc (paths, nx) = Built (sub, paths', nx') \<Longrightarrow>
    paths \<subseteq> paths'"
  shows "subgraph_loop init env pos full cs (g, paths, nx) = Built (g', paths', nx') \<Longrightarrow> paths \<subseteq> paths'"
proof (induction cs arbitrary: g paths nx)
  case (Cons c cs)
  let ?p = "if pos = [] then paths else insert (ge_realpath env (config_path c)) paths"
  from Cons.prems obtain g1 p1 nx1 where a: "Graph_AddSubgraph init env pos full c (g, ?p, nx) = Built (g1, p1, nx1)"
    and l: "subgraph_loop init env pos full cs (g1, p1, nx1) = Built (g', paths', nx')"
    by (auto simp: Let_def init_bind_Built split: if_splits)
  have "?p \<subseteq> p1" by (rule AddSubgraph_mono [OF assms a])
  with Cons.IH [OF l] show ?case by (auto split: if_splits)
qed simp

lemma Graph_Init_mono:
  "pos \<noteq> [] \<Longrightarrow> Graph_Init fuel env pos parent config (paths, nx) = Built (g, paths', nx') \<Longrightarrow> paths \<subseteq> paths'"
proof (induction fuel arbitrary: pos parent config paths nx g paths' nx')
  case (Suc fuel)
  from Suc.prems(2) obtain g1 p paths1 nx1 d nx2 hs ts where
      "subgraph_loop (Graph_Init fuel env) env pos (full_name parent (graph_name config)) (subgraph_configs config)
         (g1, if pos = [] then {} else paths, nx) = Built (p, paths1, nx1)" "(paths', nx') = (paths1, nx2)"
    by (rule Graph_Init_Built) blast
  then have "(if pos = [] then {} else paths) \<subseteq> paths1" by (intro subgraph_loop_mono [OF Suc.IH])
  then show ?case using Suc.prems(1) \<open>(paths', nx') = (paths1, nx2)\<close> by simp
qed simp

lemma subgraph_loop_fuel:
  assumes R: "finite R" "range (ge_realpath env) \<subseteq> R"
    and total: "\<And>pos' gc paths nx. pos' \<noteq> [] \<Longrightarrow> card (R - paths) < n \<Longrightarrow> init pos' full gc (paths, nx) \<noteq> OutOfFuel"
    and mono: "\<And>pos' gc paths nx sub paths' nx'. pos' \<noteq> [] \<Longrightarrow> init pos' full gc (paths, nx) = Built (sub, paths', nx') \<Longrightarrow>
      paths \<subseteq> paths'"
  shows "card (R - paths) < (if pos = [] then n else Suc n) \<Longrightarrow>
    subgraph_loop init env pos full cs (g, paths, nx) \<noteq> OutOfFuel"
proof (induction cs arbitrary: g paths nx)
  case (Cons c cs)
  let ?real = "ge_realpath env (config_path c)"
  let ?p = "if pos = [] then paths else insert ?real paths"
  show ?case
  proof (cases "\<not> IsSubgraphItem (sub_name c) \<or> pos \<noteq> [] \<and> (?real = [] \<or> ?real \<in> paths)")
    case True
    then show ?thesis by (auto simp: Let_def)
  next
    case False
    have lt: "card (R - ?p) < n"
    proof (cases "pos = []")
      case True
      with Cons.prems show ?thesis by simp
    next
      case nested: False
      have "card (R - insert ?real paths) < card (R - paths)"
        using R False nested by (intro psubset_card_mono) auto
      with Cons.prems nested show ?thesis by simp
    qed
    have "Graph_AddSubgraph init env pos full c (g, ?p, nx) \<noteq> OutOfFuel"
    proof
      assume "Graph_AddSubgraph init env pos full c (g, ?p, nx) = OutOfFuel"
      then show False by (rule AddSubgraph_init) (use total [OF _ lt] in auto)
    qed
    moreover have "subgraph_loop init env pos full cs x \<noteq> OutOfFuel"
      if "Graph_AddSubgraph init env pos full c (g, ?p, nx) = Built x" for x
    proof -
      obtain g1 p1 nx1 where x: "x = (g1, p1, nx1)" by (cases x) auto
      have "?p \<subseteq> p1" by (rule AddSubgraph_mono [OF mono that [unfolded x]])
      then have "card (R - p1) \<le> card (R - ?p)" using R by (intro card_mono) auto
      then show ?thesis unfolding x using lt by (intro Cons.IH) auto
    qed
    ultimately show ?thesis using False by (auto simp: Let_def init_bind_OutOfFuel)
  qed
qed simp

lemma Graph_Init_fuel:
  assumes R: "finite R" "range (ge_realpath env) \<subseteq> R"
  shows "card (R - (if pos = [] then {} else paths)) < (if pos = [] then fuel - 1 else fuel) \<Longrightarrow>
    Graph_Init fuel env pos parent config (paths, nx) \<noteq> OutOfFuel"
proof (induction fuel arbitrary: pos parent config paths nx)
  case 0
  then show ?case by (auto split: if_splits)
next
  case (Suc fuel)
  let ?p = "if pos = [] then {} else paths"
  have total: "Graph_Init fuel env pos' (full_name parent (graph_name config)) gc (paths', nx') \<noteq> OutOfFuel"
    if "pos' \<noteq> []" "card (R - paths') < fuel" for pos' gc paths' nx'
    using Suc.IH [of pos' paths'] that by simp
  have "card (R - ?p) < (if pos = [] then fuel else Suc fuel)" using Suc.prems by (simp split: if_splits)
  then have "subgraph_loop (Graph_Init fuel env) env pos (full_name parent (graph_name config)) (subgraph_configs config)
      (g1, ?p, nx) \<noteq> OutOfFuel" for g1
    by (intro subgraph_loop_fuel [OF R]) (erule (1) total, erule (1) Graph_Init_mono)
  then show ?case
    by (auto simp: Let_def init_bind_OutOfFuel module_loop_fuel edge_loop_fuel Graph_InitEdges_def
        split: option.splits)
qed

end
