(* ===== verification/GraphOrder.thy ===== *)
theory GraphOrder
  imports GraphBuild
begin

section \<open>Properties of graphs: Init ends, what it builds, TopoSort\<close>

text \<open>
  \<open>topo_order\<close> is the specification of \<^verbatim>\<open>UNIGraph::TopoSort\<close>: the nodes of a graph are listed
  vertex by vertex in an order that the edges respect, and a subgraph's vertex stands for such a
  list of the subgraph.
\<close>

subsection \<open>More fuel does not change the result\<close>

lemma AddSubgraph_more:
  assumes "\<And>pos' gc st. init pos' full gc st \<noteq> OutOfFuel \<Longrightarrow> init' pos' full gc st = init pos' full gc st"
    and "Graph_AddSubgraph init env pos full c gs \<noteq> OutOfFuel"
  shows "Graph_AddSubgraph init' env pos full c gs = Graph_AddSubgraph init env pos full c gs"
proof -
  obtain g st where gs: "gs = (g, st)" by (cases gs)
  have more: "init_bind (init' pos' full gc st) f = init_bind (init pos' full gc st) f"
    if "init_bind (init pos' full gc st) f \<noteq> OutOfFuel" for pos' gc and f :: "_ \<Rightarrow> 'b init_result"
    using that assms(1) [of pos' gc st] by (simp add: init_bind_OutOfFuel)
  show ?thesis
    using assms(2) unfolding gs
    by (auto simp: Graph_AddSubgraph_def Let_def split: sum.splits option.splits intro!: more)
qed

lemma subgraph_loop_more:
  assumes more: "\<And>pos' gc st. init pos' full gc st \<noteq> OutOfFuel \<Longrightarrow> init' pos' full gc st = init pos' full gc st"
  shows "subgraph_loop init env pos full cs gs \<noteq> OutOfFuel \<Longrightarrow>
    subgraph_loop init' env pos full cs gs = subgraph_loop init env pos full cs gs"
proof (induction cs arbitrary: gs)
  case (Cons c cs)
  obtain g paths nx where gs: "gs = (g, paths, nx)" by (cases gs)
  let ?real = "ge_realpath env (config_path c)"
  define gs1 where "gs1 = (g, if pos = [] then paths else insert ?real paths, nx)"
  show ?case
  proof (cases "\<not> IsSubgraphItem (sub_name c) \<or> pos \<noteq> [] \<and> (?real = [] \<or> ?real \<in> paths)")
    case True
    then show ?thesis by (auto simp: Let_def gs)
  next
    case False
    then have step: "subgraph_loop i env pos full (c # cs) gs =
        init_bind (Graph_AddSubgraph i env pos full c gs1) (subgraph_loop i env pos full cs)" for i
      by (auto simp: Let_def gs gs1_def)
    with Cons.prems have ne: "Graph_AddSubgraph init env pos full c gs1 \<noteq> OutOfFuel"
      by (simp add: init_bind_OutOfFuel)
    then have eq: "Graph_AddSubgraph init' env pos full c gs1 = Graph_AddSubgraph init env pos full c gs1"
      by (rule AddSubgraph_more [rotated]) (rule more)
    show ?thesis
    proof (cases "Graph_AddSubgraph init env pos full c gs1")
      case (Built x)
      with Cons.prems step have "subgraph_loop init env pos full cs x \<noteq> OutOfFuel" by simp
      from Cons.IH [OF this] Built show ?thesis unfolding step eq by simp
    qed (use ne in \<open>unfold step eq, simp_all\<close>)
  qed
qed simp

lemma Graph_Init_Suc:
  "Graph_Init n env pos parent config st \<noteq> OutOfFuel \<Longrightarrow>
   Graph_Init (Suc n) env pos parent config st = Graph_Init n env pos parent config st"
proof (induction n arbitrary: pos parent config st)
  case (Suc n)
  obtain paths nx where st: "st = (paths, nx)" by (cases st)
  let ?full = "full_name parent (graph_name config)"
  let ?gs = "\<lambda>g1. (g1, if pos = [] then {} else paths, nx)"
  have step: "Graph_Init (Suc m) env pos parent config st = init_bind (module_loop (module_configs config) Graph_Clear)
      (\<lambda>g1. init_bind (subgraph_loop (Graph_Init m env) env pos ?full (subgraph_configs config) (?gs g1))
        (\<lambda>(g, paths', nx'). init_bind (Graph_InitEdges g pos nx')
          (\<lambda>(d, nx2). case Graph_FindHeadsAndTails g pos d of
               None \<Rightarrow> Faulted NullPointer
             | Some (hs, ts) \<Rightarrow>
                 (if snd (DAG_TopoSort d) \<noteq> [] then Rejected
                  else Built (Graph config parent (pt_modules g) (pt_subs g) (pt_vertices g) d hs ts, paths', nx2)))))" for m
    by (simp add: st Let_def)
  show ?case
  proof (cases "module_loop (module_configs config) Graph_Clear")
    case (Built g1)
    have "subgraph_loop (Graph_Init n env) env pos ?full (subgraph_configs config) (?gs g1) \<noteq> OutOfFuel"
      using Suc.prems unfolding step Built by auto
    then have eq: "subgraph_loop (Graph_Init (Suc n) env) env pos ?full (subgraph_configs config) (?gs g1) =
        subgraph_loop (Graph_Init n env) env pos ?full (subgraph_configs config) (?gs g1)"
      by (rule subgraph_loop_more [rotated]) (rule Suc.IH)
    show ?thesis unfolding step [of n] step [of "Suc n"] Built init_bind.simps eq ..
  qed (unfold step, simp_all)
qed simp

lemma Graph_Init_more:
  assumes "Graph_Init n env pos parent config st \<noteq> OutOfFuel"
  shows "Graph_Init (n + k) env pos parent config st = Graph_Init n env pos parent config st"
  using assms by (induction k) (simp_all del: Graph_Init.simps add: Graph_Init_Suc)

subsection \<open>The order of the nodes\<close>

definition before :: "'a list \<Rightarrow> 'a \<Rightarrow> 'a \<Rightarrow> bool" where
  "before xs a b \<longleftrightarrow> (\<exists>us vs ws. xs = us @ a # vs @ b # ws)"

lemma before_nth: "i < j \<Longrightarrow> j < length xs \<Longrightarrow> before xs (xs ! i) (xs ! j)"
proof -
  assume ij: "i < j" "j < length xs"
  then have "xs = take i xs @ xs ! i # drop (Suc i) xs" by (simp add: id_take_nth_drop)
  moreover have "drop (Suc i) xs = take (j - Suc i) (drop (Suc i) xs) @ xs ! j # drop (Suc j) xs"
    using ij id_take_nth_drop [of "j - Suc i" "drop (Suc i) xs"] by simp
  ultimately have "xs = take i xs @ xs ! i # take (j - Suc i) (drop (Suc i) xs) @ xs ! j # drop (Suc j) xs"
    by (simp only:)
  then show ?thesis unfolding before_def by blast
qed

inductive topo_order :: "Graph \<Rightarrow> string list \<Rightarrow> bool" where
  "distinct order \<Longrightarrow> set order = {..<length (g_vertices g)} \<Longrightarrow>
   (\<And>u v. (u, v) \<in> config_edges (g_config g) \<Longrightarrow> before order u v) \<Longrightarrow>
   (\<And>v. v < length (g_vertices g) \<Longrightarrow> \<not> IsSubgraphItem (g_vertices g ! v) \<Longrightarrow>
      part v = [Graph_GetFullName g @ ''/'' @ g_vertices g ! v]) \<Longrightarrow>
   (\<And>v. v < length (g_vertices g) \<Longrightarrow> IsSubgraphItem (g_vertices g ! v) \<Longrightarrow>
      \<exists>i c sub. map_of (g_subs g) (g_vertices g ! v) = Some (i, c, sub) \<and> topo_order sub (part v)) \<Longrightarrow>
   topo_order g (concat (map part order))"

lemma those_map: "(\<And>x. x \<in> set xs \<Longrightarrow> f x = Some (h x)) \<Longrightarrow> those (map f xs) = Some (map h xs)"
  by (induction xs) auto

lemma graph_ok_TopoSort:
  "graph_ok g \<Longrightarrow> \<exists>ns. Graph_TopoSort g = Some ns \<and> topo_order g ns"
proof (induction g rule: graph_ok.induct)
  case (1 g)
  have lv: "distinct (g_vertices g)" "dag_wf (g_dag g)" "length (edges (g_dag g)) = length (g_vertices g)"
    "edge_rel (g_dag g) = config_edges (g_config g)" "acyclic (edge_rel (g_dag g))"
    "dom (map_of (g_subs g)) = {n \<in> set (g_vertices g). IsSubgraphItem n}"
    using "1.hyps"(1) unfolding level_ok_def by blast+
  obtain order rest where t: "DAG_TopoSort (g_dag g) = (order, rest)" by fastforce
  have rest: "rest = []" using TopoSort_acyclic_iff [OF lv(2) t] lv(5) by simp
  have ord: "distinct order" "set order = {..<length (g_vertices g)}"
    using TopoSort_partition [OF lv(2) t] rest lv(3) by simp_all
  have bef: "before order u v" if e: "(u, v) \<in> config_edges (g_config g)" for u v
  proof -
    have "v \<in> set order" using e ord(2) lv edge_rel_bounds [OF lv(2), of u v] by simp
    then obtain j where j: "j < length order" "order ! j = v" by (auto simp: in_set_conv_nth)
    with TopoSort_order [OF lv(2) t j(1), of u] e lv(4) obtain i where "i < j" "order ! i = u" by auto
    with before_nth j show ?thesis by blast
  qed
  have "\<exists>i c sub ns. map_of (g_subs g) n = Some (i, c, sub) \<and> Graph_TopoSort sub = Some ns \<and> topo_order sub ns"
    if n: "n \<in> set (g_vertices g)" "IsSubgraphItem n" for n
  proof -
    have "n \<in> dom (map_of (g_subs g))" using n lv(6) by simp
    then obtain i c sub where "map_of (g_subs g) n = Some (i, c, sub)" by auto
    with "1.IH" show ?thesis by blast
  qed
  then obtain si sc sg sn where sub: "\<And>n. n \<in> set (g_vertices g) \<Longrightarrow> IsSubgraphItem n \<Longrightarrow>
      map_of (g_subs g) n = Some (si n, sc n, sg n) \<and> Graph_TopoSort (sg n) = Some (sn n) \<and> topo_order (sg n) (sn n)"
    by metis
  have empty: "sn n = []" if "n \<in> set (g_vertices g)" "IsSubgraphItem n" "Graph_Empty (sg n)" for n
  proof -
    from sub [OF that(1,2)] have "topo_order (sg n) (sn n)" by simp
    then show ?thesis by (rule topo_order.cases) (use that(3) in \<open>simp add: Graph_Empty_def\<close>)
  qed
  define part where "part v = (if IsSubgraphItem (g_vertices g ! v) then sn (g_vertices g ! v)
    else [Graph_GetFullName g @ ''/'' @ g_vertices g ! v])" for v
  have "Graph_TopoSort g = map_option concat (Some (map part order))"
    unfolding Graph_TopoSort.simps [of g] t fst_conv
    by (rule arg_cong [where f = "map_option concat"], rule those_map)
      (use ord(2) sub empty in \<open>auto simp: part_def Let_def\<close>)
  moreover have "topo_order g (concat (map part order))"
  proof (rule topo_order.intros [OF ord])
    fix v assume v: "v < length (g_vertices g)" "IsSubgraphItem (g_vertices g ! v)"
    with sub [of "g_vertices g ! v"]
    show "\<exists>i c sub. map_of (g_subs g) (g_vertices g ! v) = Some (i, c, sub) \<and> topo_order sub (part v)"
      by (auto simp: part_def)
  qed (use bef in \<open>auto simp: part_def\<close>)
  ultimately show ?case by simp
qed

subsection \<open>Properties\<close>

text \<open>
  C26. \<^verbatim>\<open>Init\<close> of a root graph ends: when the configuration files have finitely many real paths, fuel
  for two levels more than there are paths is enough, whatever the files contain and also when they
  include each other, and more fuel gives the same result.
\<close>

theorem graph_init_ends:
  assumes "finite (range (ge_realpath env))" and "card (range (ge_realpath env)) + 2 \<le> fuel"
  shows "Graph_Init fuel env [] parent config st \<noteq> OutOfFuel \<and>
    Graph_Init (fuel + extra) env [] parent config st = Graph_Init fuel env [] parent config st"
proof -
  obtain paths nx where st: "st = (paths, nx)" by (cases st)
  have "Graph_Init fuel env [] parent config st \<noteq> OutOfFuel"
    unfolding st using assms by (intro Graph_Init_fuel [OF assms(1) order_refl]) simp
  with Graph_Init_more [OF this] show ?thesis by blast
qed

text \<open>A subgraph file that names itself as a subgraph.\<close>

definition loop_env :: GraphEnv where
  "loop_env = \<lparr>ge_realpath = (\<lambda>p. if p = ''s.json'' then ''/s.json'' else []),
     ge_files = (\<lambda>p. if p = ''s.json'' then Some ''F'' else None),
     ge_parse = (\<lambda>s. if s = ''F'' then Some (JObject [(''subgraph:t'', JNull)])
       else if s = ''C'' then Some (JObject [(''config_path'', JString ''s.json'')]) else None),
     ge_write = (\<lambda>_. ''C'')\<rparr>"

definition loop_config :: UNIGraphConfig where
  "loop_config = UNIGraphConfig_new\<lparr>graph_name := ''r'', subgraph_configs :=
     [UNISubgraphConfig_new\<lparr>sub_name := ''subgraph:s'', config_path := ''s.json''\<rparr>]\<rparr>"

lemma loop_parse:
  "UNIGraphConfig_ParseByJSONFile (ge_files loop_env) (ge_parse loop_env) (ge_write loop_env) ''s.json'' UNIGraphConfig_new =
     Inr (Some (UNIGraphConfig_new\<lparr>subgraph_configs :=
       [UNISubgraphConfig_new\<lparr>sub_name := ''subgraph:t'', config_path := ''s.json''\<rparr>]\<rparr>))"
  by (simp add: loop_env_def UNIGraphConfig_ParseByJSONFile_def UNIGraphConfig_ParseByJSONStr_def c_str_def
      json_members_def UNIGraphConfig_item_def IsProfilerItem_def IsSubgraphItem_def kProfilerConfigName_def
      kSubgraphConfigPrefix_def UNISubgraphConfig_ParseByJSONStr_def parse_next_def GetPathDir_def
      UNIGraphConfig_new_def UNISubgraphConfig_new_def)

lemma loop_real: "ge_realpath loop_env ''s.json'' = ''/s.json''"
  by (simp add: loop_env_def)

lemma module_configs_new: "module_configs UNIGraphConfig_new = []"
  by (simp add: UNIGraphConfig_new_def)

lemma loop_rejected: "Graph_Init 4 loop_env [] [] loop_config ({}, \<lambda>_. {}) = Rejected"
  by (simp add: eval_nat_numeral loop_config_def loop_parse Graph_AddSubgraph_def IsNodeNameValid_def
      IsSubgraphItem_def kSubgraphConfigPrefix_def NameIgnoreSubgraphPrefix_def module_configs_new loop_real full_name_def Let_def)

lemma loop_env_range: "range (ge_realpath loop_env) = {''/s.json'', []}"
proof -
  have "[] = ge_realpath loop_env []" "''/s.json'' = ge_realpath loop_env ''s.json''" by (simp_all add: loop_env_def)
  then have "{''/s.json'', []} \<subseteq> range (ge_realpath loop_env)" by blast
  moreover have "range (ge_realpath loop_env) \<subseteq> {''/s.json'', []}" by (auto simp: loop_env_def)
  ultimately show ?thesis by (rule equalityI [rotated])
qed

theorem graph_init_ends_witness:
  "Graph_Init 4 loop_env [] [] loop_config ({}, \<lambda>_. {}) = Rejected \<and>
   Graph_Init (4 + 100) loop_env [] [] loop_config ({}, \<lambda>_. {}) = Rejected"
  using graph_init_ends [of loop_env 4 "[]" loop_config "({}, \<lambda>_. {})" 100] loop_rejected
  by (simp only: loop_env_range) simp


text \<open>A root with a module and a subgraph of one module.\<close>

definition demo_env :: GraphEnv where
  "demo_env = \<lparr>ge_realpath = (\<lambda>_. []), ge_files = (\<lambda>p. if p = ''s.json'' then Some ''F'' else None),
     ge_parse = (\<lambda>s. if s = ''F'' then Some (JObject [(''b'', JNull)])
       else if s = ''C'' then Some (JObject [(''class_name'', JString ''B'')]) else None),
     ge_write = (\<lambda>_. ''C'')\<rparr>"

definition demo_config :: "string \<Rightarrow> UNIGraphConfig" where
  "demo_config name = UNIGraphConfig_new\<lparr>graph_name := name,
     module_configs := [UNIModuleConfig_new\<lparr>mod_name := ''a'', mod_next := [''subgraph:s'']\<rparr>],
     subgraph_configs := [UNISubgraphConfig_new\<lparr>sub_name := ''subgraph:s'', config_path := ''s.json''\<rparr>]\<rparr>"

lemma config_new_sel:
  "subgraph_configs UNIGraphConfig_new = []" "graph_name UNIGraphConfig_new = []"
  "mod_next UNIModuleConfig_new = []" "sub_next UNISubgraphConfig_new = []"
  by (simp_all add: UNIGraphConfig_new_def UNIModuleConfig_new_def UNISubgraphConfig_new_def)

lemma demo_parse:
  "\<exists>c. UNIGraphConfig_ParseByJSONFile (ge_files demo_env) (ge_parse demo_env) (ge_write demo_env) ''s.json'' UNIGraphConfig_new =
     Inr (Some (UNIGraphConfig_new\<lparr>module_configs := [c]\<rparr>)) \<and> mod_name c = ''b'' \<and> mod_next c = []"
  by (simp add: demo_env_def UNIGraphConfig_ParseByJSONFile_def UNIGraphConfig_ParseByJSONStr_def c_str_def
      json_members_def UNIGraphConfig_item_def IsProfilerItem_def IsSubgraphItem_def kProfilerConfigName_def
      kSubgraphConfigPrefix_def UNIModuleConfig_ParseByJSONStr_def UNIModuleConfig_members_def uint_member_def
      parse_next_def parse_params_def GetPathDir_def UNIGraphConfig_new_def UNIModuleConfig_new_def)

lemma one_vertex_sort: "DAG_TopoSort \<lparr>edges = [[]], indegrees = [0]\<rparr> = ([0], [])"
  by (simp add: DAG_TopoSort_def topo_loop.simps topo_pass_def topo_visit_def)

lemma two_vertex_sort: "DAG_TopoSort \<lparr>edges = [[Suc 0], []], indegrees = [0, 1]\<rparr> = ([0, Suc 0], [])"
  by (simp add: DAG_TopoSort_def topo_loop.simps topo_pass_def topo_visit_def numeral_2_eq_2)

lemma demo_sub:
  assumes "mod_name c = ''b''" "mod_next c = []"
  shows "Graph_Init (Suc n) env pos parent (UNIGraphConfig_new\<lparr>module_configs := [c], graph_name := ''s''\<rparr>) (paths, nx) =
    Built (Graph (UNIGraphConfig_new\<lparr>module_configs := [c], graph_name := ''s''\<rparr>) parent [(''b'', 0, c)] [] [''b'']
      \<lparr>edges = [[]], indegrees = [0]\<rparr> [pos @ [''b'']] [pos @ [''b'']], if pos = [] then {} else paths, nx)"
  using assms
  by (simp add: Let_def Graph_AddModule_def IsNodeNameValid_def IsSubgraphItem_def kSubgraphConfigPrefix_def
      Graph_Clear_def DAG_AddVertex_def DAG_empty_def smap_put_def config_new_sel Graph_InitEdges_def
      edge_sources_def Graph_FindHeadsAndTails_def DAG_GetHeads_def DAG_GetTails_def DAG_GetIndegree_def
      DAG_GetOutdegree_def vertex_end_def find_end_def one_vertex_sort)

lemma demo_graph:
  obtains g st sc sub c where "Graph_Init 3 demo_env [] [] (demo_config name) ({}, \<lambda>_. {}) = Built (g, st)"
    "g_modules g = [(''a'', 0, UNIModuleConfig_new\<lparr>mod_name := ''a'', mod_next := [''subgraph:s'']\<rparr>)]"
    "g_subs g = [(''subgraph:s'', Suc 0, sc, sub)]" "g_modules sub = [(''b'', 0, c)]" "g_subs sub = []"
    "g_vertices sub = [''b'']"
proof -
  obtain c where c: "UNIGraphConfig_ParseByJSONFile (ge_files demo_env) (ge_parse demo_env) (ge_write demo_env) ''s.json''
      UNIGraphConfig_new = Inr (Some (UNIGraphConfig_new\<lparr>module_configs := [c]\<rparr>))" "mod_name c = ''b''" "mod_next c = []"
    using demo_parse by blast
  have "\<exists>g st. Graph_Init 3 demo_env [] [] (demo_config name) ({}, \<lambda>_. {}) = Built (g, st) \<and>
    g_modules g = [(''a'', 0, UNIModuleConfig_new\<lparr>mod_name := ''a'', mod_next := [''subgraph:s'']\<rparr>)] \<and>
    (\<exists>sc sub. g_subs g = [(''subgraph:s'', Suc 0, sc, sub)] \<and> g_modules sub = [(''b'', 0, c)] \<and> g_subs sub = [] \<and>
      g_vertices sub = [''b''])"
    by (simp add: eval_nat_numeral(2,3) Graph_Init.simps(2) [of "Suc (Suc 0)"] Let_def demo_config_def Graph_AddModule_def
        Graph_AddSubgraph_def IsNodeNameValid_def
        IsSubgraphItem_def kSubgraphConfigPrefix_def NameIgnoreSubgraphPrefix_def c demo_sub
        Graph_Clear_def DAG_AddVertex_def DAG_empty_def smap_put_def config_new_sel Graph_InitEdges_def
        edge_sources_def Graph_FindHeadsAndTails_def DAG_GetHeads_def DAG_GetTails_def DAG_GetIndegree_def
        DAG_GetOutdegree_def vertex_end_def find_end_def Graph_AddEdge_def DAG_AddEdge_def two_vertex_sort
        module_configs_new del: Graph_Init.simps)
  then show thesis using that by blast
qed

lemma demo_plain: "\<forall>c\<in>set (module_configs (demo_config name)). \<not> IsSubgraphItem (mod_name c)"
  by (simp add: demo_config_def IsSubgraphItem_def kSubgraphConfigPrefix_def)




end
