(* ===== verification/GraphDfs.thy ===== *)
theory GraphDfs
  imports GraphBuild DagDfs
begin

section \<open>Walking a graph with subgraphs: UNIGraph::DFSIterator\<close>

text \<open>
  The iterator of \<^verbatim>\<open>framework/src/unistream_graph.hpp\<close> is an iterator of the graph's DAG and, when
  that one stands on a subgraph, an iterator inside the subgraph.  The graph itself is an argument of
  the operations.  A fault of the code is \<open>Faulted\<close>; \<open>OutOfFuel\<close> is an unfinished loop.
\<close>

datatype GraphIter = GraphIter (gi_dag: DFSIterator) (gi_sub: "(Graph \<times> GraphIter) option")

subsection \<open>The iterator\<close>

definition Graph_DFSEnd :: GraphIter where
  "Graph_DFSEnd = GraphIter DAG_DFSEnd None"

text \<open>\<^verbatim>\<open>graph_->DFSEnd() == *this\<close>; with equal DAG iterators a subgraph iterator is compared with a null one.\<close>

definition GraphIter_at_end :: "GraphIter \<Rightarrow> bool init_result" where
  "GraphIter_at_end it =
     (if \<not> DFSIterator_eq (gi_dag it) (gi_dag Graph_DFSEnd) then Built False
      else case gi_sub it of None \<Rightarrow> Built True | Some _ \<Rightarrow> Faulted NullPointer)"

text \<open>The name of the vertex a DAG iterator shows, and the subgraph of that name.\<close>

definition iter_name :: "Graph \<Rightarrow> DFSIterator \<Rightarrow> string init_result" where
  "iter_name g d =
     (let v = DFSIterator_deref d
      in if 0 \<le> v \<and> v < int (length (g_vertices g)) then Built (g_vertices g ! nat v) else Faulted OutOfBounds)"

definition iter_subgraph :: "Graph \<Rightarrow> string \<Rightarrow> Graph init_result" where
  "iter_subgraph g name =
     (case map_of (g_subs g) name of None \<Rightarrow> Faulted NullPointer | Some (_, _, sub) \<Rightarrow> Built sub)"

text \<open>\<^verbatim>\<open>DAGStep\<close>; \<open>start\<close> is \<^verbatim>\<open>DFSBegin\<close> of the subgraphs.\<close>

definition Graph_DAGStep :: "(Graph \<Rightarrow> GraphIter init_result) \<Rightarrow> Graph \<Rightarrow> DFSIterator \<Rightarrow> (bool \<times> GraphIter) init_result" where
  "Graph_DAGStep start g d =
     (let d' = DFSIterator_incr (g_dag g) d
      in if DFSIterator_eq DAG_DFSEnd d' then Built (True, GraphIter d' None)
         else init_bind (iter_name g d') (\<lambda>node_name.
           if IsSubgraphItem node_name
           then init_bind (iter_subgraph g node_name) (\<lambda>sub.
             init_bind (start sub) (\<lambda>it.
               Built (if Graph_Empty sub then (False, GraphIter d' None) else (True, GraphIter d' (Some (sub, it))))))
           else Built (True, GraphIter d' None)))"

text \<open>The loop of \<^verbatim>\<open>operator++\<close> while \<^verbatim>\<open>subgraph_\<close> is null.\<close>

primrec dag_loop :: "nat \<Rightarrow> (Graph \<Rightarrow> GraphIter init_result) \<Rightarrow> Graph \<Rightarrow> DFSIterator \<Rightarrow> GraphIter init_result" where
  "dag_loop 0 start g d = OutOfFuel"
| "dag_loop (Suc n) start g d =
     (if DFSIterator_eq DAG_DFSEnd d then Built (GraphIter d None)
      else init_bind (Graph_DAGStep start g d) (\<lambda>(stop, it).
        if stop then Built it else dag_loop n start g (gi_dag it)))"

abbreviation dag_fuel :: "Graph \<Rightarrow> nat" where
  "dag_fuel g \<equiv> Suc (length (edges (g_dag g)))"

text \<open>
  The loop of \<^verbatim>\<open>DFSBegin\<close>.  Its \<^verbatim>\<open>++iter\<close> runs with a null \<^verbatim>\<open>subgraph_\<close>: at first it is null, and
  \<^verbatim>\<open>operator++\<close> does not stop on an empty subgraph, so there is no second \<^verbatim>\<open>++iter\<close>.
\<close>

primrec begin_loop :: "nat \<Rightarrow> (Graph \<Rightarrow> GraphIter init_result) \<Rightarrow> Graph \<Rightarrow> DFSIterator \<Rightarrow> GraphIter init_result" where
  "begin_loop 0 start g d = OutOfFuel"
| "begin_loop (Suc n) start g d =
     (if DFSIterator_eq DAG_DFSEnd d then Built (GraphIter d None)
      else init_bind (iter_name g d) (\<lambda>node_name.
        if IsSubgraphItem node_name
        then init_bind (iter_subgraph g node_name) (\<lambda>sub.
          if Graph_Empty sub
          then init_bind (dag_loop (dag_fuel g) start g d) (\<lambda>it. begin_loop n start g (gi_dag it))
          else init_bind (start sub) (\<lambda>it. Built (GraphIter d (Some (sub, it)))))
        else Built (GraphIter d None)))"

text \<open>Both loops start walks of the graph's own subgraphs only.\<close>

lemma init_bind_cong [fundef_cong]:
  "r = r' \<Longrightarrow> (\<And>x. r' = Built x \<Longrightarrow> f x = f' x) \<Longrightarrow> init_bind r f = init_bind r' f'"
  by (cases r') auto

lemma iter_subgraph_mem: "iter_subgraph g n = Built sub \<Longrightarrow> \<exists>v c. map_of (g_subs g) n = Some (v, c, sub)"
  by (auto simp: iter_subgraph_def split: option.splits)

lemma DAGStep_cong:
  assumes "\<And>n v c sub. map_of (g_subs g) n = Some (v, c, sub) \<Longrightarrow> start sub = start' sub"
  shows "Graph_DAGStep start g d = Graph_DAGStep start' g d"
  using assms unfolding Graph_DAGStep_def Let_def
  by (auto intro!: init_bind_cong dest!: iter_subgraph_mem)

lemma dag_loop_cong:
  assumes "\<And>n v c sub. map_of (g_subs g) n = Some (v, c, sub) \<Longrightarrow> start sub = start' sub"
  shows "dag_loop n start g d = dag_loop n start' g d"
proof (induction n arbitrary: d)
  case (Suc n)
  have "Graph_DAGStep start g d = Graph_DAGStep start' g d" by (rule DAGStep_cong [OF assms])
  with Suc show ?case by (auto intro!: init_bind_cong)
qed simp

lemma begin_loop_cong [fundef_cong]:
  assumes "n = n'" "g = g'" "d = d'"
    and "\<And>n v c sub. map_of (g_subs g') n = Some (v, c, sub) \<Longrightarrow> start sub = start' sub"
  shows "begin_loop n start g d = begin_loop n' start' g' d'"
  unfolding assms(1,2,3)
proof (induction n' arbitrary: d')
  case (Suc n)
  have l: "dag_loop m start g' d' = dag_loop m start' g' d'" for m by (rule dag_loop_cong [OF assms(4)])
  have s: "start sub = start' sub" if "iter_subgraph g' m = Built sub" for m sub
    using iter_subgraph_mem [OF that] assms(4) by blast
  show ?case by (auto simp: l s Suc intro!: init_bind_cong)
qed simp

function Graph_DFSBegin :: "Graph \<Rightarrow> GraphIter init_result" where
  "Graph_DFSBegin g = begin_loop (dag_fuel g) (\<lambda>sub. Graph_DFSBegin sub) g (DAG_DFSBegin (g_dag g))"
  by pat_completeness auto
termination
  by (relation "measure size") (auto dest: subgraph_size)

declare Graph_DFSBegin.simps [simp del]

text \<open>\<^verbatim>\<open>operator++\<close>\<close>

fun GraphIter_incr :: "Graph \<Rightarrow> GraphIter \<Rightarrow> GraphIter init_result" where
  "GraphIter_incr g (GraphIter d None) = dag_loop (dag_fuel g) Graph_DFSBegin g d"
| "GraphIter_incr g (GraphIter d (Some (sub, it))) =
     (if DFSIterator_eq DAG_DFSEnd d then Built (GraphIter d (Some (sub, it)))
      else init_bind (GraphIter_incr sub it) (\<lambda>it'.
        init_bind (GraphIter_at_end it') (\<lambda>e.
          if \<not> e then Built (GraphIter d (Some (sub, it')))
          else init_bind (Graph_DAGStep Graph_DFSBegin g d) (\<lambda>(stop, it2).
            if stop then Built it2 else dag_loop (dag_fuel g) Graph_DFSBegin g (gi_dag it2)))))"

text \<open>\<^verbatim>\<open>operator*\<close>: the node with the names that lead to it from the graph, or null.\<close>

type_synonym NodeRef = "NodeId \<times> UNIModuleConfig"

fun GraphIter_deref :: "Graph \<Rightarrow> GraphIter \<Rightarrow> NodeRef option init_result" where
  "GraphIter_deref g (GraphIter d s) =
     init_bind (GraphIter_at_end (GraphIter d s)) (\<lambda>e.
       if e then Built None
       else init_bind (iter_name g d) (\<lambda>name.
         case s of
           Some (sub, it) \<Rightarrow>
             init_bind (GraphIter_deref sub it) (\<lambda>r. Built (map_option (apfst ((#) (NameIgnoreSubgraphPrefix name))) r))
         | None \<Rightarrow> (case map_of (g_modules g) name of
                      None \<Rightarrow> Faulted NullPointer
                    | Some (_, c) \<Rightarrow> Built (Some ([name], c)))))"

text \<open>\<^verbatim>\<open>for (it = DFSBegin(); it != DFSEnd(); ++it)\<close> with \<^verbatim>\<open>it->\<close> in the body: a null node faults.\<close>

primrec graph_walk :: "nat \<Rightarrow> Graph \<Rightarrow> GraphIter \<Rightarrow> NodeRef list init_result" where
  "graph_walk 0 g it = init_bind (GraphIter_at_end it) (\<lambda>e. if e then Built [] else OutOfFuel)"
| "graph_walk (Suc n) g it =
     init_bind (GraphIter_at_end it) (\<lambda>e.
       if e then Built []
       else init_bind (GraphIter_deref g it) (\<lambda>r.
         case r of
           None \<Rightarrow> Faulted NullPointer
         | Some node \<Rightarrow> init_bind (GraphIter_incr g it) (\<lambda>it'.
             init_bind (graph_walk n g it') (\<lambda>nodes. Built (node # nodes)))))"

definition Graph_DFS :: "nat \<Rightarrow> Graph \<Rightarrow> NodeRef list init_result" where
  "Graph_DFS fuel g = init_bind (Graph_DFSBegin g) (graph_walk fuel g)"

text \<open>
  \<^verbatim>\<open>DFSBeginFrom\<close> a node's full name: the graph's own name and the slash are cut off, and the rest
  is a module of the graph or begins with the name of a subgraph.  \<^verbatim>\<open>substr\<close> throws behind the end.
\<close>

function Graph_DFSBeginFrom :: "Graph \<Rightarrow> string \<Rightarrow> GraphIter init_result" where
  "Graph_DFSBeginFrom g full =
     (if length full < length (Graph_GetName g) + 1 then Faulted OutOfBounds
      else let name = drop (length (Graph_GetName g) + 1) full
           in if CHR ''/'' \<notin> set name
              then (case map_of (g_modules g) name of
                      None \<Rightarrow> Faulted NullPointer
                    | Some (v, _) \<Rightarrow> Built (GraphIter (DAG_DFSBeginFrom (g_dag g) (int v)) None))
              else (case map_of (g_subs g) (kSubgraphConfigPrefix @ takeWhile (\<lambda>c. c \<noteq> CHR ''/'') name) of
                      None \<Rightarrow> Faulted NullPointer
                    | Some (v, _, sub) \<Rightarrow>
                        init_bind (Graph_DFSBeginFrom sub name) (\<lambda>it.
                          Built (GraphIter (DAG_DFSBeginFrom (g_dag g) (int v)) (Some (sub, it))))))"
  by pat_completeness auto
termination
  by (relation "measure (size \<circ> fst)") (auto dest: subgraph_size)

declare Graph_DFSBeginFrom.simps [simp del]

subsection \<open>Nodes by name\<close>

text \<open>\<^verbatim>\<open>UNINode::GetFullName\<close> of the node at a path: its graph's full name, a slash and its name.\<close>

fun node_full_name :: "Graph \<Rightarrow> NodeId \<Rightarrow> string option" where
  "node_full_name g [] = None"
| "node_full_name g [n] = Some (Graph_GetFullName g @ ''/'' @ n)"
| "node_full_name g (n # p) =
     (case map_of (g_subs g) (kSubgraphConfigPrefix @ n) of
        None \<Rightarrow> None
      | Some (_, _, sub) \<Rightarrow> node_full_name sub p)"

text \<open>The name split at the slashes, and the subgraphs along the parts.\<close>

fun split_slash :: "string \<Rightarrow> string \<Rightarrow> string list" where
  "split_slash [] t = [t]"
| "split_slash (c # cs) t = (if CHR ''/'' = c then t # split_slash cs [] else split_slash cs (t @ [c]))"

fun find_subgraph :: "Graph \<Rightarrow> string list \<Rightarrow> Graph option" where
  "find_subgraph g [] = Some g"
| "find_subgraph g (n # ns) =
     (case map_of (g_subs g) (kSubgraphConfigPrefix @ n) of
        None \<Rightarrow> None
      | Some (_, _, sub) \<Rightarrow> find_subgraph sub ns)"

text \<open>The loop over all nodes that returns the first one of the name.\<close>

primrec find_walk :: "nat \<Rightarrow> Graph \<Rightarrow> string \<Rightarrow> GraphIter \<Rightarrow> NodeRef option init_result" where
  "find_walk 0 g name it = init_bind (GraphIter_at_end it) (\<lambda>e. if e then Built None else OutOfFuel)"
| "find_walk (Suc n) g name it =
     init_bind (GraphIter_at_end it) (\<lambda>e.
       if e then Built None
       else init_bind (GraphIter_deref g it) (\<lambda>r.
         case r of
           None \<Rightarrow> Faulted NullPointer
         | Some node \<Rightarrow>
             if mod_name (snd node) = name then Built (Some node)
             else init_bind (GraphIter_incr g it) (find_walk n g name)))"

definition Graph_GetNodeByName :: "nat \<Rightarrow> Graph \<Rightarrow> string \<Rightarrow> NodeRef option init_result" where
  "Graph_GetNodeByName fuel g name =
     (let v = split_slash name []
      in if length v = 1 then init_bind (Graph_DFSBegin g) (find_walk fuel g (v ! 0))
         else if v ! 0 \<noteq> Graph_GetName g then Built None
         else (case find_subgraph g (butlast (tl v)) of
                 None \<Rightarrow> Built None
               | Some sub \<Rightarrow>
                   (case map_of (g_modules sub) (last v) of
                      None \<Rightarrow> Built None
                    | Some (_, c) \<Rightarrow> Built (Some (tl v, c)))))"

subsection \<open>The reference: nodes in depth-first order\<close>

definition vertex_nodes :: "(Graph \<Rightarrow> NodeRef list) \<Rightarrow> Graph \<Rightarrow> nat \<Rightarrow> NodeRef list" where
  "vertex_nodes nodes g v =
     (let n = g_vertices g ! v
      in if IsSubgraphItem n
         then (case map_of (g_subs g) n of
                 None \<Rightarrow> []
               | Some (_, _, sub) \<Rightarrow> map (apfst ((#) (NameIgnoreSubgraphPrefix n))) (nodes sub))
         else (case map_of (g_modules g) n of None \<Rightarrow> [] | Some (_, c) \<Rightarrow> [([n], c)]))"

lemma vertex_nodes_cong [fundef_cong]:
  assumes "g = g'" "v = v'"
    and "\<And>n i c sub. map_of (g_subs g') n = Some (i, c, sub) \<Longrightarrow> nodes sub = nodes' sub"
  shows "vertex_nodes nodes g v = vertex_nodes nodes' g' v'"
  using assms by (auto simp: vertex_nodes_def Let_def split: option.splits)

definition dag_order :: "Graph \<Rightarrow> nat list" where
  "dag_order g = (case DAG_DFS (g_dag g) of None \<Rightarrow> [] | Some vs \<Rightarrow> map nat vs)"

function dfs_nodes :: "Graph \<Rightarrow> NodeRef list" where
  "dfs_nodes g = concat (map (\<lambda>v. vertex_nodes (\<lambda>sub. dfs_nodes sub) g v) (dag_order g))"
  by pat_completeness auto
termination
  by (relation "measure size") (auto dest: subgraph_size)

declare dfs_nodes.simps [simp del]

text \<open>Graphs in which every subgraph that has a vertex has a node, at every level.\<close>

inductive solid :: "Graph \<Rightarrow> bool" where
  "(\<And>n v c sub. map_of (g_subs g) n = Some (v, c, sub) \<Longrightarrow> solid sub \<and> (Graph_Empty sub \<or> dfs_nodes sub \<noteq> [])) \<Longrightarrow>
   solid g"

inductive_cases solidE: "solid g"

subsection \<open>Iterators against the reference\<close>

inductive walks :: "DAGAlgorithm \<Rightarrow> DFSIterator \<Rightarrow> nat list \<Rightarrow> bool" where
  walks_Nil: "vertex_stack it = [] \<Longrightarrow> walks d it []"
| walks_Cons: "vertex_stack it = v # st \<Longrightarrow> walks d (DFSIterator_incr d it) vs \<Longrightarrow> walks d it (v # vs)"

inductive_cases walks_NilE: "walks d it []"
inductive_cases walks_ConsE: "walks d it (v # vs)"

lemma dfs_walk_walks: "dfs_walk f d it = Some vs \<Longrightarrow> walks d it (map nat vs)"
proof (induction f arbitrary: it vs)
  case 0
  then have "vertex_stack it = []" "vs = []"
    by (auto simp: dfs_walk.simps [of 0] DFSIterator_eq_End split: if_splits)
  then show ?case by (simp add: walks_Nil)
next
  case (Suc f)
  show ?case
  proof (cases "vertex_stack it")
    case Nil
    with Suc.prems show ?thesis by (auto simp: dfs_walk_end intro: walks_Nil)
  next
    case (Cons v st)
    with Suc.prems obtain ws where "dfs_walk f d (DFSIterator_incr d it) = Some ws" "vs = int v # ws"
      by (auto simp: dfs_walk_step)
    with Suc.IH Cons show ?thesis by (auto intro: walks_Cons)
  qed
qed

lemma eq_End_sym: "DFSIterator_eq DAG_DFSEnd d \<longleftrightarrow> vertex_stack d = []"
  by (auto simp: DFSIterator_eq_def DAG_DFSEnd_def)

end
