(* ===== verification/GraphWalk.thy ===== *)
theory GraphWalk
  imports GraphDfs GraphOrder
begin

section \<open>The walk over a graph with subgraphs is the reference order\<close>

text \<open>
  \<open>rep g it ns\<close>: the iterator \<open>it\<close> of \<open>g\<close> has still to show the nodes \<open>ns\<close>, the current one first.
  The operations are proved against it, from the inside out: \<open>DAGStep\<close>, the loops, \<open>DFSBegin\<close>,
  \<open>operator++\<close> and \<open>operator*\<close>.
\<close>

subsection \<open>Vertices of an accepted graph\<close>

lemma graph_ok_level: "graph_ok g \<Longrightarrow> level_ok g"
  by (rule graph_okE)

lemma graph_ok_sub: "graph_ok g \<Longrightarrow> map_of (g_subs g) n = Some (v, c, sub) \<Longrightarrow> graph_ok sub"
  by (erule graph_okE) blast

lemma solid_sub:
  "solid g \<Longrightarrow> map_of (g_subs g) n = Some (v, c, sub) \<Longrightarrow> solid sub \<and> (Graph_Empty sub \<or> dfs_nodes sub \<noteq> [])"
  by (erule solidE) blast

lemma vertex_subgraph:
  assumes "graph_ok g" "v < length (g_vertices g)" "IsSubgraphItem (g_vertices g ! v)"
  obtains i c sub where "map_of (g_subs g) (g_vertices g ! v) = Some (i, c, sub)"
proof -
  have "dom (map_of (g_subs g)) = {n \<in> set (g_vertices g). IsSubgraphItem n}"
    using graph_ok_level [OF assms(1)] unfolding level_ok_def by blast
  then have "g_vertices g ! v \<in> dom (map_of (g_subs g))" using assms(2,3) by simp
  then show thesis using that by (cases "map_of (g_subs g) (g_vertices g ! v)") auto
qed

lemma vertex_module:
  assumes "graph_ok g" "v < length (g_vertices g)" "\<not> IsSubgraphItem (g_vertices g ! v)"
  obtains i c where "map_of (g_modules g) (g_vertices g ! v) = Some (i, c)"
proof -
  have "dom (map_of (g_modules g)) = {n \<in> set (g_vertices g). \<not> IsSubgraphItem n}"
    using graph_ok_level [OF assms(1)] unfolding level_ok_def by blast
  then have "g_vertices g ! v \<in> dom (map_of (g_modules g))" using assms(2,3) by simp
  then show thesis using that by (cases "map_of (g_modules g) (g_vertices g ! v)") auto
qed

lemma graph_ok_dag:
  assumes "graph_ok g"
  shows "dag_wf (g_dag g)" "length (edges (g_dag g)) = length (g_vertices g)" "acyclic (edge_rel (g_dag g))"
  using graph_ok_level [OF assms] unfolding level_ok_def by blast+

lemma dag_order_all:
  assumes "graph_ok g"
  shows "DAG_DFS (g_dag g) = Some (map int (dag_order g)) \<and> distinct (dag_order g) \<and>
    set (dag_order g) = {..<length (g_vertices g)}"
proof -
  obtain xs where xs: "DAG_DFS (g_dag g) = Some (map int xs)" "distinct xs" "set xs = {..<length (edges (g_dag g))}"
    using DFS_all [OF graph_ok_dag(1,3) [OF assms]] by blast
  then have "dag_order g = xs" by (simp add: dag_order_def o_def)
  with xs graph_ok_dag(2) [OF assms] show ?thesis by simp
qed

lemma empty_dfs_nodes: "graph_ok g \<Longrightarrow> Graph_Empty g \<Longrightarrow> dfs_nodes g = []"
  using dag_order_all [of g] by (simp add: dfs_nodes.simps [of g] Graph_Empty_def)

abbreviation nodes_of :: "Graph \<Rightarrow> nat list \<Rightarrow> NodeRef list" where
  "nodes_of g vs \<equiv> concat (map (vertex_nodes dfs_nodes g) vs)"

inductive rep :: "Graph \<Rightarrow> GraphIter \<Rightarrow> NodeRef list \<Rightarrow> bool" where
  rep_end: "walks (g_dag g) d [] \<Longrightarrow> rep g (GraphIter d None) []"
| rep_module: "walks (g_dag g) d (v # vs) \<Longrightarrow> length vs < length (edges (g_dag g)) \<Longrightarrow>
    set (v # vs) \<subseteq> {..<length (g_vertices g)} \<Longrightarrow> \<not> IsSubgraphItem (g_vertices g ! v) \<Longrightarrow>
    rep g (GraphIter d None) (nodes_of g (v # vs))"
| rep_subgraph: "walks (g_dag g) d (v # vs) \<Longrightarrow> length vs < length (edges (g_dag g)) \<Longrightarrow>
    set (v # vs) \<subseteq> {..<length (g_vertices g)} \<Longrightarrow> IsSubgraphItem (g_vertices g ! v) \<Longrightarrow>
    map_of (g_subs g) (g_vertices g ! v) = Some (i, c, sub) \<Longrightarrow> rep sub it ns \<Longrightarrow> ns \<noteq> [] \<Longrightarrow>
    rep g (GraphIter d (Some (sub, it)))
      (map (apfst ((#) (NameIgnoreSubgraphPrefix (g_vertices g ! v)))) ns @ nodes_of g vs)"

definition starts :: "Graph \<Rightarrow> bool" where
  "starts g \<longleftrightarrow> (\<forall>n v c sub. map_of (g_subs g) n = Some (v, c, sub) \<longrightarrow>
     (\<exists>it. Graph_DFSBegin sub = Built it \<and> rep sub it (dfs_nodes sub)))"

subsection \<open>Stepping the DAG\<close>

lemma iter_name_top:
  "vertex_stack d = v # st \<Longrightarrow> v < length (g_vertices g) \<Longrightarrow> iter_name g d = Built (g_vertices g ! v)"
  by (simp add: iter_name_def DFSIterator_deref_def)

text \<open>The vertex a DAG iterator stands on: skipped when it is an empty subgraph, else shown.\<close>

lemma enter_vertex:
  assumes g: "graph_ok g" "solid g" "starts g"
    and w: "walks (g_dag g) d (v # vs)" "length vs < length (edges (g_dag g))" "set (v # vs) \<subseteq> {..<length (g_vertices g)}"
  shows "\<exists>stop it. init_bind (iter_name g d) (\<lambda>n. if IsSubgraphItem n
      then init_bind (iter_subgraph g n) (\<lambda>sub. init_bind (Graph_DFSBegin sub) (\<lambda>it.
        Built (if Graph_Empty sub then (False, GraphIter d None) else (True, GraphIter d (Some (sub, it))))))
      else Built (True, GraphIter d None)) = Built (stop, it) \<and> gi_dag it = d \<and>
    (if stop then rep g it (nodes_of g (v # vs)) else vertex_nodes dfs_nodes g v = [])"
proof -
  obtain st where st: "vertex_stack d = v # st" using w(1) by (rule walks_ConsE)
  have v: "v < length (g_vertices g)" using w(3) by simp
  show ?thesis
  proof (cases "IsSubgraphItem (g_vertices g ! v)")
    case False
    with w have "rep g (GraphIter d None) (nodes_of g (v # vs))" by (intro rep_module)
    with False show ?thesis
      by (intro exI [of _ True] exI [of _ "GraphIter d None"]) (simp add: iter_name_top [OF st v])
  next
    case True
    obtain i c sub where m: "map_of (g_subs g) (g_vertices g ! v) = Some (i, c, sub)"
      using vertex_subgraph [OF g(1) v True] .
    obtain it where it: "Graph_DFSBegin sub = Built it" "rep sub it (dfs_nodes sub)"
      using g(3) m unfolding starts_def by blast
    have nodes: "vertex_nodes dfs_nodes g v = map (apfst ((#) (NameIgnoreSubgraphPrefix (g_vertices g ! v)))) (dfs_nodes sub)"
      using True m by (simp add: vertex_nodes_def)
    show ?thesis
    proof (cases "Graph_Empty sub")
      case empty: True
      with empty_dfs_nodes [OF graph_ok_sub [OF g(1) m]] nodes have "vertex_nodes dfs_nodes g v = []" by simp
      with empty show ?thesis
        by (intro exI [of _ False] exI [of _ "GraphIter d None"]) (simp add: iter_name_top [OF st v] True iter_subgraph_def m it(1))
    next
      case False
      then have "dfs_nodes sub \<noteq> []" using solid_sub [OF g(2) m] by blast
      from rep_subgraph [OF w True m it(2) this] nodes
      have "rep g (GraphIter d (Some (sub, it))) (nodes_of g (v # vs))" by simp
      with False show ?thesis
        by (intro exI [of _ True] exI [of _ "GraphIter d (Some (sub, it))"]) (simp add: iter_name_top [OF st v] True iter_subgraph_def m it(1))
    qed
  qed
qed

lemma DAGStep_rep:
  assumes g: "graph_ok g" "solid g" "starts g"
    and w: "walks (g_dag g) d (v # vs)" "length vs < length (edges (g_dag g))" "set (v # vs) \<subseteq> {..<length (g_vertices g)}"
  shows "\<exists>stop it. Graph_DAGStep Graph_DFSBegin g d = Built (stop, it) \<and> walks (g_dag g) (gi_dag it) vs \<and>
    (if stop then rep g it (nodes_of g vs) else nodes_of g vs = nodes_of g (tl vs) \<and> vs \<noteq> [])"
proof -
  let ?d = "DFSIterator_incr (g_dag g) d"
  have w': "walks (g_dag g) ?d vs" using w(1) by (rule walks_ConsE)
  show ?thesis
  proof (cases vs)
    case Nil
    then have "vertex_stack ?d = []" using w' by (auto elim: walks_NilE)
    then show ?thesis using w' Nil
      by (intro exI [of _ True] exI [of _ "GraphIter ?d None"]) (simp add: Graph_DAGStep_def eq_End_sym rep_end)
  next
    case (Cons u us)
    then have "vertex_stack ?d \<noteq> []" using w' by (auto elim: walks_ConsE)
    then have step: "Graph_DAGStep Graph_DFSBegin g d = init_bind (iter_name g ?d) (\<lambda>n. if IsSubgraphItem n
      then init_bind (iter_subgraph g n) (\<lambda>sub. init_bind (Graph_DFSBegin sub) (\<lambda>it.
        Built (if Graph_Empty sub then (False, GraphIter ?d None) else (True, GraphIter ?d (Some (sub, it))))))
      else Built (True, GraphIter ?d None))"
      by (simp add: Graph_DAGStep_def eq_End_sym Let_def)
    have "walks (g_dag g) ?d (u # us)" "length us < length (edges (g_dag g))" "set (u # us) \<subseteq> {..<length (g_vertices g)}"
      using w w' Cons by auto
    from enter_vertex [OF g this] obtain stop it where
        "Graph_DAGStep Graph_DFSBegin g d = Built (stop, it)" "gi_dag it = ?d"
        "if stop then rep g it (nodes_of g (u # us)) else vertex_nodes dfs_nodes g u = []"
      unfolding step by blast
    with w' Cons show ?thesis by (intro exI [of _ stop] exI [of _ it]) (auto split: if_splits)
  qed
qed

lemma dag_loop_rep:
  assumes g: "graph_ok g" "solid g" "starts g"
  shows "walks (g_dag g) d (v # vs) \<Longrightarrow> length vs < length (edges (g_dag g)) \<Longrightarrow>
    set (v # vs) \<subseteq> {..<length (g_vertices g)} \<Longrightarrow> length vs < n \<Longrightarrow>
    \<exists>it ws. dag_loop n Graph_DFSBegin g d = Built it \<and> rep g it (nodes_of g vs) \<and>
      walks (g_dag g) (gi_dag it) ws \<and> nodes_of g ws = nodes_of g vs \<and> length ws \<le> length vs \<and> set ws \<subseteq> set vs"
proof (induction n arbitrary: d v vs)
  case (Suc n)
  have "vertex_stack d \<noteq> []" using Suc.prems(1) by (auto elim: walks_ConsE)
  then have loop: "dag_loop (Suc n) Graph_DFSBegin g d = init_bind (Graph_DAGStep Graph_DFSBegin g d)
      (\<lambda>(stop, it). if stop then Built it else dag_loop n Graph_DFSBegin g (gi_dag it))"
    by (simp add: eq_End_sym)
  from DAGStep_rep [OF g Suc.prems(1-3)] obtain stop it where
      s: "Graph_DAGStep Graph_DFSBegin g d = Built (stop, it)" "walks (g_dag g) (gi_dag it) vs"
        "if stop then rep g it (nodes_of g vs) else nodes_of g vs = nodes_of g (tl vs) \<and> vs \<noteq> []"
    by blast
  show ?case
  proof (cases stop)
    case True
    with s show ?thesis unfolding loop by (intro exI [of _ it] exI [of _ vs]) auto
  next
    case False
    with s(3) obtain u us where vs: "vs = u # us" "nodes_of g vs = nodes_of g us" by (cases vs) auto
    from Suc.IH [of "gi_dag it" u us] s(2) vs(1) Suc.prems obtain it' ws where
      "dag_loop n Graph_DFSBegin g (gi_dag it) = Built it'" "rep g it' (nodes_of g us)"
      "walks (g_dag g) (gi_dag it') ws" "nodes_of g ws = nodes_of g us" "length ws \<le> length us" "set ws \<subseteq> set us"
      by auto
    with False s(1) vs show ?thesis unfolding loop by (intro exI [of _ it'] exI [of _ ws]) auto
  qed
qed simp

subsection \<open>DFSBegin\<close>

lemma begin_loop_rep:
  assumes g: "graph_ok g" "solid g" "starts g"
  shows "walks (g_dag g) d vs \<Longrightarrow> length vs \<le> length (edges (g_dag g)) \<Longrightarrow>
    set vs \<subseteq> {..<length (g_vertices g)} \<Longrightarrow> length vs < n \<Longrightarrow>
    \<exists>it. begin_loop n Graph_DFSBegin g d = Built it \<and> rep g it (nodes_of g vs)"
proof (induction n arbitrary: d vs)
  case (Suc n)
  show ?case
  proof (cases vs)
    case Nil
    with Suc.prems(1) have "vertex_stack d = []" by (auto elim: walks_NilE)
    with Nil Suc.prems(1) show ?thesis by (simp add: eq_End_sym rep_end)
  next
    case (Cons v us)
    note w = Suc.prems(1) [unfolded Cons] and b = Suc.prems(3) [unfolded Cons]
    have len: "length us < length (edges (g_dag g))" using Suc.prems(2) Cons by simp
    obtain st where st: "vertex_stack d = v # st" using w by (rule walks_ConsE)
    have v: "v < length (g_vertices g)" using b by simp
    note top = iter_name_top [OF st v]
    from enter_vertex [OF g w len b] obtain stop it where
      e: "(if IsSubgraphItem (g_vertices g ! v)
        then init_bind (iter_subgraph g (g_vertices g ! v)) (\<lambda>sub. init_bind (Graph_DFSBegin sub) (\<lambda>it.
          Built (if Graph_Empty sub then (False, GraphIter d None) else (True, GraphIter d (Some (sub, it))))))
        else Built (True, GraphIter d None)) = Built (stop, it)" "gi_dag it = d"
      "if stop then rep g it (nodes_of g (v # us)) else vertex_nodes dfs_nodes g v = []"
      unfolding top init_bind.simps by blast
    show ?thesis
    proof (cases "IsSubgraphItem (g_vertices g ! v)")
      case False
      with e st top Cons show ?thesis by (auto simp: eq_End_sym)
    next
      case True
      obtain i c sub where m: "map_of (g_subs g) (g_vertices g ! v) = Some (i, c, sub)"
        using vertex_subgraph [OF g(1) v True] .
      show ?thesis
      proof (cases "Graph_Empty sub")
        case False
        with e True m st top Cons show ?thesis
          by (auto simp: eq_End_sym iter_subgraph_def init_bind_Built)
      next
        case empty: True
        then have none: "vertex_nodes dfs_nodes g v = []"
          using e True m by (auto simp: iter_subgraph_def init_bind_Built)
        from dag_loop_rep [OF g w len b, of "dag_fuel g"] len obtain it1 ws where
          l: "dag_loop (dag_fuel g) Graph_DFSBegin g d = Built it1" "walks (g_dag g) (gi_dag it1) ws"
            "nodes_of g ws = nodes_of g us" "length ws \<le> length us" "set ws \<subseteq> set us" by auto
        have "length ws \<le> length (edges (g_dag g))" "set ws \<subseteq> {..<length (g_vertices g)}" "length ws < n"
          using l len b Suc.prems(4) Cons by auto
        from Suc.IH [OF l(2) this] l(1,3) True m st top empty none Cons show ?thesis
          by (auto simp: eq_End_sym iter_subgraph_def simp del: dag_loop.simps)
      qed
    qed
  qed
qed simp

lemma walks_length_from:
  "dfs_walk f d it = Some vs \<Longrightarrow> length vs \<le> f"
proof (induction f arbitrary: it vs)
  case 0
  then show ?case by (auto simp: dfs_walk.simps [of 0] split: if_splits)
next
  case (Suc f)
  then show ?case
    by (cases "vertex_stack it = []") (auto simp: dfs_walk_end dfs_walk_step)
qed

lemma DFSBegin_rep:
  "graph_ok g \<Longrightarrow> solid g \<Longrightarrow> \<exists>it. Graph_DFSBegin g = Built it \<and> rep g it (dfs_nodes g)"
proof (induction g rule: measure_induct_rule [of size])
  case (less g)
  have "starts g"
    unfolding starts_def
    using less.IH subgraph_size graph_ok_sub [OF less.prems(1)] solid_sub [OF less.prems(2)] by blast
  moreover have d: "DAG_DFS (g_dag g) = Some (map int (dag_order g))" "set (dag_order g) = {..<length (g_vertices g)}"
    using dag_order_all [OF less.prems(1)] by simp_all
  have "walks (g_dag g) (DAG_DFSBegin (g_dag g)) (dag_order g)"
    using dfs_walk_walks [OF d(1) [unfolded DAG_DFS_def]] by (simp add: o_def)
  moreover have "length (dag_order g) \<le> length (edges (g_dag g))"
    using walks_length_from [OF d(1) [unfolded DAG_DFS_def]] by simp
  ultimately show ?case
    using begin_loop_rep [OF less.prems, of "DAG_DFSBegin (g_dag g)" "dag_order g" "dag_fuel g"] d(2)
    by (simp add: Graph_DFSBegin.simps [of g] dfs_nodes.simps [of g] del: begin_loop.simps)
qed

lemma graph_ok_starts: "graph_ok g \<Longrightarrow> solid g \<Longrightarrow> starts g"
  unfolding starts_def using DFSBegin_rep graph_ok_sub solid_sub by blast

subsection \<open>The comparison with the end, operator* and operator++\<close>

lemma rep_at_end: "graph_ok g \<Longrightarrow> rep g it ns \<Longrightarrow> GraphIter_at_end it = Built (ns = [])"
proof (erule rep.cases)
  fix h d assume "it = GraphIter d None" "ns = []" "walks (g_dag h) d []"
  then show ?thesis
    by (auto simp: GraphIter_at_end_def Graph_DFSEnd_def DFSIterator_eq_End elim: walks_NilE)
next
  fix h d v vs assume g: "graph_ok g" and h: "g = h" "it = GraphIter d None" "ns = nodes_of h (v # vs)"
    "walks (g_dag h) d (v # vs)" "set (v # vs) \<subseteq> {..<length (g_vertices h)}" "\<not> IsSubgraphItem (g_vertices h ! v)"
  then have "v < length (g_vertices g)" by simp
  from vertex_module [OF g this] h obtain i c where "map_of (g_modules g) (g_vertices g ! v) = Some (i, c)" by auto
  then have "ns \<noteq> []" using h by (simp add: vertex_nodes_def)
  moreover have "vertex_stack d \<noteq> []" using h(4) by (auto elim: walks_ConsE)
  ultimately show ?thesis using h
    by (simp add: GraphIter_at_end_def Graph_DFSEnd_def DFSIterator_eq_End)
next
  fix h d v vs i c sub it' ns' assume h: "it = GraphIter d (Some (sub, it'))" "ns' \<noteq> []"
    "walks (g_dag h) d (v # vs)"
    "ns = map (apfst ((#) (NameIgnoreSubgraphPrefix (g_vertices h ! v)))) ns' @ nodes_of h vs"
  moreover have "vertex_stack d \<noteq> []" using h(3) by (auto elim: walks_ConsE)
  ultimately show ?thesis
    by (simp add: GraphIter_at_end_def Graph_DFSEnd_def DFSIterator_eq_End)
qed

lemma rep_deref:
  "rep g it ns \<Longrightarrow> graph_ok g \<Longrightarrow> ns \<noteq> [] \<Longrightarrow> GraphIter_deref g it = Built (Some (hd ns))"
proof (induction rule: rep.induct)
  case (rep_module g d v vs)
  have e: "GraphIter_at_end (GraphIter d None) = Built False"
    using rep_at_end [OF rep_module.prems(1) rep.rep_module [OF rep_module.hyps]] rep_module.prems(2) by simp
  have v: "v < length (g_vertices g)" using rep_module.hyps(3) by simp
  obtain st where "vertex_stack d = v # st" using rep_module.hyps(1) by (rule walks_ConsE)
  note top = iter_name_top [OF this v]
  obtain i c where "map_of (g_modules g) (g_vertices g ! v) = Some (i, c)"
    using vertex_module [OF rep_module.prems(1) v rep_module.hyps(4)] .
  then show ?case using rep_module.hyps(4) by (simp add: e top vertex_nodes_def)
next
  case (rep_subgraph g d v vs i c sub it ns)
  have e: "GraphIter_at_end (GraphIter d (Some (sub, it))) = Built False"
    using rep_at_end [OF rep_subgraph.prems(1) rep.rep_subgraph [OF rep_subgraph.hyps]] rep_subgraph.hyps(7) by simp
  have v: "v < length (g_vertices g)" using rep_subgraph.hyps(3) by simp
  obtain st where "vertex_stack d = v # st" using rep_subgraph.hyps(1) by (rule walks_ConsE)
  note top = iter_name_top [OF this v]
  from rep_subgraph.IH [OF graph_ok_sub [OF rep_subgraph.prems(1) rep_subgraph.hyps(5)] rep_subgraph.hyps(7)]
  show ?case using rep_subgraph.hyps(7) by (simp add: e top hd_append hd_map)
qed simp

lemma rep_incr:
  "rep g it ns \<Longrightarrow> graph_ok g \<Longrightarrow> solid g \<Longrightarrow> ns \<noteq> [] \<Longrightarrow>
   \<exists>it'. GraphIter_incr g it = Built it' \<and> rep g it' (tl ns)"
proof (induction rule: rep.induct)
  case (rep_module g d v vs)
  note g = rep_module.prems(1,2) graph_ok_starts [OF rep_module.prems(1,2)]
  have v: "v < length (g_vertices g)" using rep_module.hyps(3) by simp
  obtain i c where "map_of (g_modules g) (g_vertices g ! v) = Some (i, c)"
    using vertex_module [OF g(1) v rep_module.hyps(4)] .
  then have "tl (nodes_of g (v # vs)) = nodes_of g vs" using rep_module.hyps(4) by (simp add: vertex_nodes_def)
  with dag_loop_rep [OF g rep_module.hyps(1-3), of "dag_fuel g"] rep_module.hyps(2) show ?case
    by (auto simp del: dag_loop.simps)
next
  case (rep_subgraph g d v vs i c sub it ns)
  note g = rep_subgraph.prems(1,2) graph_ok_starts [OF rep_subgraph.prems(1,2)]
  let ?pre = "apfst ((#) (NameIgnoreSubgraphPrefix (g_vertices g ! v))) :: NodeRef \<Rightarrow> NodeRef"
  note ok = graph_ok_sub [OF g(1) rep_subgraph.hyps(5)] and sol = solid_sub [OF g(2) rep_subgraph.hyps(5), THEN conjunct1]
  from rep_subgraph.IH [OF ok sol rep_subgraph.hyps(7)] obtain it' where
    s: "GraphIter_incr sub it = Built it'" "rep sub it' (tl ns)" by blast
  note e = rep_at_end [OF ok s(2)]
  have ne: "vertex_stack d \<noteq> []" using rep_subgraph.hyps(1) by (auto elim: walks_ConsE)
  have tl: "tl (map ?pre ns @ nodes_of g vs) = map ?pre (tl ns) @ nodes_of g vs"
    using rep_subgraph.hyps(7) by (cases ns) auto
  show ?case
  proof (cases "tl ns = []")
    case False
    from rep.rep_subgraph [OF rep_subgraph.hyps(1-5) s(2) False] show ?thesis
      using False ne s(1) e by (simp add: eq_End_sym tl)
  next
    case True
    from DAGStep_rep [OF g rep_subgraph.hyps(1-3)] obtain stop it2 where
      d: "Graph_DAGStep Graph_DFSBegin g d = Built (stop, it2)" "walks (g_dag g) (gi_dag it2) vs"
        "if stop then rep g it2 (nodes_of g vs) else nodes_of g vs = nodes_of g (tl vs) \<and> vs \<noteq> []" by blast
    have incr: "GraphIter_incr g (GraphIter d (Some (sub, it))) =
        (if stop then Built it2 else dag_loop (dag_fuel g) Graph_DFSBegin g (gi_dag it2))"
      using ne s(1) e True d(1) by (simp add: eq_End_sym del: dag_loop.simps)
    show ?thesis
    proof (cases stop)
      case True
      with d(3) \<open>tl ns = []\<close> show ?thesis unfolding incr tl by simp
    next
      case False
      with d(3) obtain u us where vs: "vs = u # us" "nodes_of g vs = nodes_of g us" by (cases vs) auto
      from dag_loop_rep [OF g, of "gi_dag it2" u us "dag_fuel g"] d(2) vs(1) rep_subgraph.hyps(2,3) obtain it3 where
        "dag_loop (dag_fuel g) Graph_DFSBegin g (gi_dag it2) = Built it3" "rep g it3 (nodes_of g us)" by auto
      with False vs(2) \<open>tl ns = []\<close> show ?thesis unfolding incr tl by simp
    qed
  qed
qed simp

subsection \<open>The walks\<close>

lemma graph_walk_rep:
  "rep g it ns \<Longrightarrow> graph_ok g \<Longrightarrow> solid g \<Longrightarrow> length ns \<le> fuel \<Longrightarrow> graph_walk fuel g it = Built ns"
proof (induction fuel arbitrary: it ns)
  case 0
  then show ?case using rep_at_end [OF 0(2,1)] by simp
next
  case (Suc fuel)
  note e = rep_at_end [OF Suc.prems(2,1)]
  show ?case
  proof (cases ns)
    case Nil
    with e show ?thesis by simp
  next
    case (Cons n ms)
    with rep_incr [OF Suc.prems(1-3)] obtain it' where i: "GraphIter_incr g it = Built it'" "rep g it' ms" by auto
    with Suc.IH [OF i(2) Suc.prems(2,3)] Suc.prems(4) Cons have "graph_walk fuel g it' = Built ms" by simp
    with e i rep_deref [OF Suc.prems(1,2)] Cons show ?thesis by simp
  qed
qed

lemma find_walk_rep:
  "rep g it ns \<Longrightarrow> graph_ok g \<Longrightarrow> solid g \<Longrightarrow> length ns \<le> fuel \<Longrightarrow>
   find_walk fuel g name it = Built (find (\<lambda>n. mod_name (snd n) = name) ns)"
proof (induction fuel arbitrary: it ns)
  case 0
  then show ?case using rep_at_end [OF 0(2,1)] by simp
next
  case (Suc fuel)
  note e = rep_at_end [OF Suc.prems(2,1)]
  show ?case
  proof (cases ns)
    case Nil
    with e show ?thesis by simp
  next
    case (Cons n ms)
    with rep_incr [OF Suc.prems(1-3)] obtain it' where i: "GraphIter_incr g it = Built it'" "rep g it' ms" by auto
    with Suc.IH [OF i(2) Suc.prems(2,3)] Suc.prems(4) Cons
    have "find_walk fuel g name it' = Built (find (\<lambda>n. mod_name (snd n) = name) ms)" by simp
    with e i rep_deref [OF Suc.prems(1,2)] Cons show ?thesis by simp
  qed
qed

lemma Graph_DFS_nodes:
  "graph_ok g \<Longrightarrow> solid g \<Longrightarrow> length (dfs_nodes g) \<le> fuel \<Longrightarrow> Graph_DFS fuel g = Built (dfs_nodes g)"
  using DFSBegin_rep [of g] graph_walk_rep [of g _ "dfs_nodes g" fuel] by (auto simp: Graph_DFS_def)

subsection \<open>The nodes of a graph\<close>

inductive module_at :: "Graph \<Rightarrow> NodeId \<Rightarrow> UNIModuleConfig \<Rightarrow> bool" where
  module_here: "map_of (g_modules g) n = Some (v, c) \<Longrightarrow> module_at g [n] c"
| module_below: "map_of (g_subs g) n = Some (v, sc, sub) \<Longrightarrow> module_at sub p c \<Longrightarrow>
    module_at g (NameIgnoreSubgraphPrefix n # p) c"

inductive_cases module_atE: "module_at g p c"

lemma module_at_path: "module_at g p c \<Longrightarrow> p \<noteq> []"
  by (induction rule: module_at.induct) auto

lemma subgraph_name_eq: "IsSubgraphItem n \<Longrightarrow> n = kSubgraphConfigPrefix @ NameIgnoreSubgraphPrefix n"
  unfolding IsSubgraphItem_def NameIgnoreSubgraphPrefix_def by (metis append_take_drop_id)

lemma level_doms:
  assumes "graph_ok g"
  shows "map_of (g_modules g) n = Some (v, c) \<Longrightarrow> n \<in> set (g_vertices g) \<and> \<not> IsSubgraphItem n"
    and "map_of (g_subs g) n = Some (i, sc, sub) \<Longrightarrow> n \<in> set (g_vertices g) \<and> IsSubgraphItem n"
proof -
  have "dom (map_of (g_modules g)) = {n \<in> set (g_vertices g). \<not> IsSubgraphItem n}"
    "dom (map_of (g_subs g)) = {n \<in> set (g_vertices g). IsSubgraphItem n}"
    using graph_ok_level [OF assms] unfolding level_ok_def by blast+
  then show "map_of (g_modules g) n = Some (v, c) \<Longrightarrow> n \<in> set (g_vertices g) \<and> \<not> IsSubgraphItem n"
    "map_of (g_subs g) n = Some (i, sc, sub) \<Longrightarrow> n \<in> set (g_vertices g) \<and> IsSubgraphItem n" by blast+
qed

lemma vertex_nodes_set:
  assumes "n = g_vertices g ! v"
  shows "(p, c) \<in> set (vertex_nodes nodes g v) \<longleftrightarrow>
    (\<not> IsSubgraphItem n \<and> p = [n] \<and> (\<exists>i. map_of (g_modules g) n = Some (i, c))) \<or>
    (IsSubgraphItem n \<and> (\<exists>i sc sub q. map_of (g_subs g) n = Some (i, sc, sub) \<and> (q, c) \<in> set (nodes sub) \<and>
       p = NameIgnoreSubgraphPrefix n # q))"
proof (cases "IsSubgraphItem n")
  case True
  show ?thesis
  proof (cases "map_of (g_subs g) n")
    case None
    with True assms show ?thesis by (simp add: vertex_nodes_def)
  next
    case (Some x)
    obtain i sc sub where "x = (i, sc, sub)" by (cases x)
    with Some True assms show ?thesis by (auto simp: vertex_nodes_def image_iff intro: bexI [rotated])
  qed
next
  case False
  then show ?thesis
    using assms by (cases "map_of (g_modules g) n") (auto simp: vertex_nodes_def)
qed

lemma dfs_nodes_set:
  "graph_ok g \<Longrightarrow> (p, c) \<in> set (dfs_nodes g) \<longleftrightarrow> module_at g p c"
proof (induction g arbitrary: p rule: measure_induct_rule [of size])
  case (less g)
  have sub: "(q, c) \<in> set (dfs_nodes sub) \<longleftrightarrow> module_at sub q c"
    if "map_of (g_subs g) n = Some (i, sc, sub)" for n i sc sub q
    using less.IH [OF subgraph_size [OF that] graph_ok_sub [OF less.prems that]] .
  have ord: "set (dag_order g) = {..<length (g_vertices g)}" using dag_order_all [OF less.prems] by simp
  show ?case
  proof
    assume "(p, c) \<in> set (dfs_nodes g)"
    then obtain v where "v < length (g_vertices g)" "(p, c) \<in> set (vertex_nodes dfs_nodes g v)"
      using ord by (auto simp: dfs_nodes.simps [of g])
    then show "module_at g p c"
      using sub by (auto simp: vertex_nodes_set [OF refl] intro: module_at.intros)
  next
    assume "module_at g p c"
    then show "(p, c) \<in> set (dfs_nodes g)"
    proof (rule module_atE)
      fix n v assume p: "p = [n]" and m: "map_of (g_modules g) n = Some (v, c)"
      with level_doms(1) [OF less.prems m] obtain u where u: "u < length (g_vertices g)" "g_vertices g ! u = n" "\<not> IsSubgraphItem n"
        by (auto simp: in_set_conv_nth)
      then have "(p, c) \<in> set (vertex_nodes dfs_nodes g u)" using p m by (auto simp: vertex_nodes_set [OF refl])
      then show ?thesis using ord u by (auto simp: dfs_nodes.simps [of g])
    next
      fix n v sc s q assume p: "p = NameIgnoreSubgraphPrefix n # q" and m: "map_of (g_subs g) n = Some (v, sc, s)"
        and q: "module_at s q c"
      with level_doms(2) [OF less.prems m] obtain u where u: "u < length (g_vertices g)" "g_vertices g ! u = n" "IsSubgraphItem n"
        by (auto simp: in_set_conv_nth)
      moreover have "(q, c) \<in> set (dfs_nodes s)" using q sub [OF m] by simp
      ultimately have "(p, c) \<in> set (vertex_nodes dfs_nodes g u)" using p m by (auto simp: vertex_nodes_set [OF refl])
      then show ?thesis using ord u by (auto simp: dfs_nodes.simps [of g])
    qed
  qed
qed

lemma distinct_concat_map:
  "distinct xs \<Longrightarrow> (\<And>x. x \<in> set xs \<Longrightarrow> distinct (f x)) \<Longrightarrow>
   (\<And>x y. x \<in> set xs \<Longrightarrow> y \<in> set xs \<Longrightarrow> x \<noteq> y \<Longrightarrow> set (f x) \<inter> set (f y) = {}) \<Longrightarrow> distinct (concat (map f xs))"
  by (induction xs) auto

lemma dfs_nodes_distinct: "graph_ok g \<Longrightarrow> distinct (dfs_nodes g)"
proof (induction g rule: measure_induct_rule [of size])
  case (less g)
  have ord: "distinct (dag_order g)" "set (dag_order g) = {..<length (g_vertices g)}"
    using dag_order_all [OF less.prems] by simp_all
  have dist: "distinct (g_vertices g)" using graph_ok_level [OF less.prems] unfolding level_ok_def by blast
  have each: "distinct (vertex_nodes dfs_nodes g v)" for v
  proof -
    have "distinct (dfs_nodes sub)" if "map_of (g_subs g) n = Some (i, sc, sub)" for n i sc sub
      using less.IH [OF subgraph_size [OF that] graph_ok_sub [OF less.prems that]] .
    moreover have "inj_on (apfst ((#) m)) A" for m and A :: "NodeRef set" by (auto simp: inj_on_def)
    ultimately show ?thesis by (auto simp: vertex_nodes_def Let_def distinct_map split: option.splits)
  qed
  have paths: "q \<noteq> []" if "map_of (g_subs g) n = Some (i, sc, sub)" "(q, c) \<in> set (dfs_nodes sub)" for n i sc sub q c
    using dfs_nodes_set [OF graph_ok_sub [OF less.prems that(1)]] that(2) module_at_path by blast
  have "set (vertex_nodes dfs_nodes g u) \<inter> set (vertex_nodes dfs_nodes g v) = {}"
    if "u \<in> set (dag_order g)" "v \<in> set (dag_order g)" "u \<noteq> v" for u v
  proof -
    have ne: "g_vertices g ! u \<noteq> g_vertices g ! v" using that ord dist by (simp add: nth_eq_iff_index_eq)
    have "False" if "(p, c) \<in> set (vertex_nodes dfs_nodes g u)" "(p, c) \<in> set (vertex_nodes dfs_nodes g v)" for p c
      using that ne paths subgraph_name_eq unfolding vertex_nodes_set [OF refl] by (metis list.inject)
    then show ?thesis by auto
  qed
  with ord each show ?case
    by (subst dfs_nodes.simps) (rule distinct_concat_map, auto)
qed

end
