(* ===== verification/GraphNames.thy ===== *)
theory GraphNames
  imports GraphWalk
begin

section \<open>Nodes by their names\<close>

text \<open>
  The full name of a node joins the names along its path, so \<^verbatim>\<open>GetNodeByName\<close> finds the node of a
  full name and \<^verbatim>\<open>DFSBeginFrom\<close> starts at it, in a root graph with a name.
\<close>

fun join_slash :: "string list \<Rightarrow> string" where
  "join_slash [] = []"
| "join_slash [x] = x"
| "join_slash (x # y # ys) = x @ ''/'' @ join_slash (y # ys)"

lemma join_slash_Cons: "xs \<noteq> [] \<Longrightarrow> join_slash (x # xs) = x @ ''/'' @ join_slash xs"
  by (cases xs) auto

lemma join_slash_append: "xs \<noteq> [] \<Longrightarrow> ys \<noteq> [] \<Longrightarrow> join_slash (xs @ ys) = join_slash xs @ ''/'' @ join_slash ys"
  by (induction xs rule: join_slash.induct) (auto simp: join_slash_Cons)

lemma split_slash_last: "CHR ''/'' \<notin> set s \<Longrightarrow> split_slash s t = [t @ s]"
  by (induction s arbitrary: t) auto

lemma split_slash_step: "CHR ''/'' \<notin> set s \<Longrightarrow> split_slash (s @ ''/'' @ r) t = (t @ s) # split_slash r []"
  by (induction s arbitrary: t) auto

lemma split_join_slash:
  "xs \<noteq> [] \<Longrightarrow> \<forall>x\<in>set xs. CHR ''/'' \<notin> set x \<Longrightarrow> split_slash (join_slash xs) [] = xs"
proof (induction xs rule: join_slash.induct)
  case (3 x y ys)
  have "split_slash (x @ ''/'' @ join_slash (y # ys)) [] = ([] @ x) # split_slash (join_slash (y # ys)) []"
    by (rule split_slash_step) (use 3 in simp)
  then show ?case using 3 by simp
qed (simp_all add: split_slash_last)

text \<open>The names along a path have no slash.\<close>

lemma level_names:
  assumes "graph_ok g" "n \<in> set (g_vertices g)"
  shows "\<not> IsSubgraphItem n \<Longrightarrow> CHR ''/'' \<notin> set n"
    and "IsSubgraphItem n \<Longrightarrow> CHR ''/'' \<notin> set (NameIgnoreSubgraphPrefix n)"
proof -
  have "IsNodeNameValid n" using graph_ok_level [OF assms(1)] assms(2) unfolding level_ok_def by blast
  then show "\<not> IsSubgraphItem n \<Longrightarrow> CHR ''/'' \<notin> set n"
    "IsSubgraphItem n \<Longrightarrow> CHR ''/'' \<notin> set (NameIgnoreSubgraphPrefix n)"
    by (auto simp: IsNodeNameValid_def Let_def split: if_splits)
qed

lemma module_at_names: "module_at g p c \<Longrightarrow> graph_ok g \<Longrightarrow> x \<in> set p \<Longrightarrow> CHR ''/'' \<notin> set x"
proof (induction rule: module_at.induct)
  case (module_here g n v c)
  with level_doms(1) level_names(1) show ?case by auto
next
  case (module_below g n v sc sub p c)
  with level_doms(2) level_names(2) graph_ok_sub show ?case by auto
qed

text \<open>The full name of a subgraph, and of the nodes.\<close>

lemma sub_names:
  assumes "graph_ok g" "map_of (g_subs g) n = Some (v, c, sub)"
  shows "g_parent_name sub = Graph_GetFullName g \<and> Graph_GetName sub = NameIgnoreSubgraphPrefix n"
  using assms by (auto elim: graph_okE)

lemma sub_key: "graph_ok g \<Longrightarrow> map_of (g_subs g) n = Some x \<Longrightarrow>
  map_of (g_subs g) (kSubgraphConfigPrefix @ NameIgnoreSubgraphPrefix n) = Some x"
  using level_doms(2) [of g n "fst x" "fst (snd x)" "snd (snd x)"] subgraph_name_eq [of n] by simp

lemma node_full_name_join:
  "module_at g p c \<Longrightarrow> graph_ok g \<Longrightarrow> Graph_GetFullName g \<noteq> [] \<Longrightarrow>
   node_full_name g p = Some (Graph_GetFullName g @ ''/'' @ join_slash p)"
proof (induction rule: module_at.induct)
  case (module_below g n v sc sub p c)
  note k = sub_key [OF module_below.prems(1) module_below.hyps(1)]
  note s = sub_names [OF module_below.prems(1) module_below.hyps(1)]
  have full: "Graph_GetFullName sub = Graph_GetFullName g @ ''/'' @ NameIgnoreSubgraphPrefix n"
    using s module_below.prems(2) by (simp add: Graph_GetFullName_def full_name_def)
  have "node_full_name sub p = Some (Graph_GetFullName sub @ ''/'' @ join_slash p)"
    using module_below.IH graph_ok_sub [OF module_below.prems(1) module_below.hyps(1)] full by simp
  moreover obtain m q where "p = m # q" using module_at_path [OF module_below.hyps(2)] by (cases p) auto
  ultimately show ?case by (simp add: k full)
qed simp

subsection \<open>GetNodeByName\<close>

lemma find_subgraph_path:
  "module_at g p c \<Longrightarrow> graph_ok g \<Longrightarrow>
   \<exists>sub v. find_subgraph g (butlast p) = Some sub \<and> map_of (g_modules sub) (last p) = Some (v, c)"
proof (induction rule: module_at.induct)
  case (module_below g n v sc sub p c)
  note k = sub_key [OF module_below.prems module_below.hyps(1)]
  have "p \<noteq> []" using module_at_path [OF module_below.hyps(2)] .
  with module_below.IH graph_ok_sub [OF module_below.prems module_below.hyps(1)] k show ?case by simp
qed simp

lemma GetNodeByName_path:
  assumes g: "graph_ok g" and m: "module_at g p c" and r: "CHR ''/'' \<notin> set (Graph_GetName g)"
  shows "Graph_GetNodeByName fuel g (Graph_GetName g @ ''/'' @ join_slash p) = Built (Some (p, c))"
proof -
  have p: "p \<noteq> []" using module_at_path [OF m] .
  have "split_slash (join_slash (Graph_GetName g # p)) [] = Graph_GetName g # p"
    using module_at_names [OF m g] r by (intro split_join_slash) auto
  then have s: "split_slash (Graph_GetName g @ ''/'' @ join_slash p) [] = Graph_GetName g # p"
    using join_slash_Cons [OF p, of "Graph_GetName g"] by simp
  obtain sub v where "find_subgraph g (butlast p) = Some sub" "map_of (g_modules sub) (last p) = Some (v, c)"
    using find_subgraph_path [OF m g] by blast
  then show ?thesis using p unfolding Graph_GetNodeByName_def s Let_def by simp
qed

subsection \<open>DFSBeginFrom\<close>

text \<open>What the walk from a node has to show: from the inside out, the rest of each level.\<close>

definition order_from :: "Graph \<Rightarrow> nat \<Rightarrow> nat list" where
  "order_from g v = (case DAG_DFSFrom (g_dag g) (int v) of None \<Rightarrow> [] | Some vs \<Rightarrow> map nat vs)"

fun nodes_from :: "Graph \<Rightarrow> NodeId \<Rightarrow> NodeRef list" where
  "nodes_from g [] = []"
| "nodes_from g [n] =
     (case map_of (g_modules g) n of None \<Rightarrow> [] | Some (v, _) \<Rightarrow> nodes_of g (order_from g v))"
| "nodes_from g (n # p) =
     (case map_of (g_subs g) (kSubgraphConfigPrefix @ n) of
        None \<Rightarrow> []
      | Some (v, _, sub) \<Rightarrow> map (apfst ((#) n)) (nodes_from sub p) @ nodes_of g (tl (order_from g v)))"

lemma order_from_walks:
  assumes g: "graph_ok g" and v: "v < length (g_vertices g)"
  shows "\<exists>vs. order_from g v = v # vs \<and> walks (g_dag g) (DAG_DFSBeginFrom (g_dag g) (int v)) (v # vs) \<and>
    length vs < length (edges (g_dag g)) \<and> set (v # vs) \<subseteq> {..<length (g_vertices g)} \<and>
    distinct (v # vs) \<and> set (v # vs) = reach (g_dag g) {v}"
proof -
  note dag = graph_ok_dag [OF g]
  let ?it = "DAG_DFSBeginFrom (g_dag g) (int v)"
  have v': "v < length (edges (g_dag g))" using v dag(2) by simp
  obtain xs where xs: "DAG_DFSFrom (g_dag g) (int v) = Some (map int xs)" "distinct xs" "set xs = reach (g_dag g) {v}"
    using DFSFrom_spec [OF dag(1) v'] by blast
  have w: "walks (g_dag g) ?it xs"
    using dfs_walk_walks [OF xs(1) [unfolded DAG_DFSFrom_def]] by (simp add: o_def)
  have top: "vertex_stack ?it = [v]" using v' by (simp add: DAG_DFSBeginFrom_def)
  obtain vs where vs: "xs = v # vs" using w top by cases auto
  have len: "length xs \<le> length (edges (g_dag g))"
    using walks_length_from [OF xs(1) [unfolded DAG_DFSFrom_def]] by simp
  have "reach (g_dag g) {..<length (edges (g_dag g))} = {..<length (edges (g_dag g))}"
    using edge_rel_bounds [OF dag(1)] by (intro reach_closed) blast
  then have bound: "set (v # vs) \<subseteq> {..<length (g_vertices g)}"
    unfolding vs [symmetric] using reach_mono [of "{v}" "g_dag g" "{..<length (edges (g_dag g))}"] xs(3) v' dag(2) by auto
  have "order_from g v = v # vs" using xs(1) vs by (simp add: order_from_def o_def)
  moreover have "length vs < length (edges (g_dag g))" using len vs by simp
  ultimately show ?thesis
    using w xs(2,3) bound unfolding vs by blast
qed

lemma vertex_of_module:
  assumes "graph_ok g" "map_of (g_modules g) n = Some (v, c)"
  shows "v < length (g_vertices g) \<and> g_vertices g ! v = n"
proof -
  have l: "g_vertices g = vertex_names (g_config g)"
    "v < length (module_configs (g_config g)) \<and> module_configs (g_config g) ! v = c \<and> mod_name c = n"
    using graph_ok_level [OF assms(1)] assms(2) unfolding level_ok_def by blast+
  then show ?thesis by (auto simp: vertex_names_def nth_append)
qed

lemma vertex_of_subgraph:
  assumes "graph_ok g" "map_of (g_subs g) n = Some (v, c, sub)"
  shows "v < length (g_vertices g) \<and> g_vertices g ! v = n"
  using graph_ok_level [OF assms(1)] assms(2) unfolding level_ok_def by blast

lemma DFSBeginFrom_rep:
  "module_at g p c \<Longrightarrow> graph_ok g \<Longrightarrow> length pre = length (Graph_GetName g) \<Longrightarrow>
   \<exists>it. Graph_DFSBeginFrom g (pre @ ''/'' @ join_slash p) = Built it \<and> rep g it (nodes_from g p) \<and>
     nodes_from g p \<noteq> [] \<and> hd (nodes_from g p) = (p, c)"
proof (induction arbitrary: pre rule: module_at.induct)
  case (module_here g n v c)
  note vn = vertex_of_module [OF module_here.prems(1) module_here.hyps]
  have n: "\<not> IsSubgraphItem n" "n \<in> set (g_vertices g)" using level_doms(1) [OF module_here.prems(1) module_here.hyps] by auto
  have slash: "CHR ''/'' \<notin> set n" using level_names(1) [OF module_here.prems(1) n(2,1)] .
  obtain vs where vs: "order_from g v = v # vs" "walks (g_dag g) (DAG_DFSBeginFrom (g_dag g) (int v)) (v # vs)"
    "length vs < length (edges (g_dag g))" "set (v # vs) \<subseteq> {..<length (g_vertices g)}"
    using order_from_walks [OF module_here.prems(1)] vn by blast
  have "Graph_DFSBeginFrom g (pre @ ''/'' @ join_slash [n]) = Built (GraphIter (DAG_DFSBeginFrom (g_dag g) (int v)) None)"
    using module_here slash by (simp add: Graph_DFSBeginFrom.simps [of g])
  moreover have "rep g (GraphIter (DAG_DFSBeginFrom (g_dag g) (int v)) None) (nodes_of g (v # vs))"
    using rep_module [OF vs(2-4)] vn n by simp
  moreover have "vertex_nodes dfs_nodes g v = [([n], c)]"
    using vn n module_here.hyps by (simp add: vertex_nodes_def)
  ultimately show ?case using module_here.hyps vs(1) by simp
next
  case (module_below g n v sc sub p c)
  let ?m = "NameIgnoreSubgraphPrefix n"
  note k = sub_key [OF module_below.prems(1) module_below.hyps(1)]
  note vn = vertex_of_subgraph [OF module_below.prems(1) module_below.hyps(1)]
  have n: "IsSubgraphItem n" "n \<in> set (g_vertices g)" using level_doms(2) [OF module_below.prems(1) module_below.hyps(1)] by auto
  have slash: "CHR ''/'' \<notin> set ?m" using level_names(2) [OF module_below.prems(1) n(2,1)] .
  have p: "p \<noteq> []" using module_at_path [OF module_below.hyps(2)] .
  have name: "length ?m = length (Graph_GetName sub)"
    using sub_names [OF module_below.prems(1) module_below.hyps(1)] by simp
  obtain it where it: "Graph_DFSBeginFrom sub (?m @ ''/'' @ join_slash p) = Built it" "rep sub it (nodes_from sub p)"
    "nodes_from sub p \<noteq> []" "hd (nodes_from sub p) = (p, c)"
    using module_below.IH [OF graph_ok_sub [OF module_below.prems(1) module_below.hyps(1)] name] by blast
  obtain vs where vs: "order_from g v = v # vs" "walks (g_dag g) (DAG_DFSBeginFrom (g_dag g) (int v)) (v # vs)"
    "length vs < length (edges (g_dag g))" "set (v # vs) \<subseteq> {..<length (g_vertices g)}"
    using order_from_walks [OF module_below.prems(1)] vn by blast
  have tw: "takeWhile (\<lambda>c. c \<noteq> CHR ''/'') (?m @ ''/'' @ join_slash p) = ?m"
    using slash by (induction ?m) (auto simp: takeWhile_append)
  have "Graph_DFSBeginFrom g (pre @ ''/'' @ join_slash (?m # p)) =
      Built (GraphIter (DAG_DFSBeginFrom (g_dag g) (int v)) (Some (sub, it)))"
    using module_below.prems(2) it(1) k tw
    by (simp add: Graph_DFSBeginFrom.simps [of g] join_slash_Cons [OF p] Let_def)
  moreover have "rep g (GraphIter (DAG_DFSBeginFrom (g_dag g) (int v)) (Some (sub, it)))
      (map (apfst ((#) ?m)) (nodes_from sub p) @ nodes_of g vs)"
    using rep_subgraph [OF vs(2-4) _ _ it(2,3)] vn n module_below.hyps(1) by auto
  moreover have "nodes_from g (?m # p) = map (apfst ((#) ?m)) (nodes_from sub p) @ nodes_of g vs"
    using p k vs(1) by (cases p) auto
  ultimately show ?case using it(3,4) by (auto simp: hd_append hd_map)
qed

subsection \<open>A root graph without a name\<close>

text \<open>
  A pipeline may have the empty name, and names its root graph.  The full name of a node below then
  starts with the subgraph's name, of which \<^verbatim>\<open>DFSBeginFrom\<close> cuts off the first character.
\<close>

lemma node_full_name_unnamed:
  assumes m: "module_at g (s # q) c" and g: "graph_ok g" and e: "Graph_GetFullName g = []" and q: "q \<noteq> []"
  shows "node_full_name g (s # q) = Some (s @ ''/'' @ join_slash q) \<and> s \<noteq> [] \<and> CHR ''/'' \<notin> set s"
  using m
proof (rule module_atE)
  fix n v sc sub p assume p: "s # q = NameIgnoreSubgraphPrefix n # p"
    and n: "map_of (g_subs g) n = Some (v, sc, sub)" and mp: "module_at sub p c"
  have full: "Graph_GetFullName sub = s"
    using sub_names [OF g n] e p by (simp add: Graph_GetFullName_def full_name_def)
  have item: "IsSubgraphItem n" "n \<in> set (g_vertices g)" using level_doms(2) [OF g n] by auto
  then have s: "s \<noteq> []" using p by (auto simp: IsSubgraphItem_def NameIgnoreSubgraphPrefix_def)
  have "node_full_name sub q = Some (s @ ''/'' @ join_slash q)"
    using node_full_name_join [OF mp graph_ok_sub [OF g n]] full s p by simp
  moreover obtain a r where "p = a # r" using p q by (cases p) auto
  ultimately have "node_full_name g (s # q) = Some (s @ ''/'' @ join_slash q)" using p sub_key [OF g n] by simp
  then show ?thesis using s p level_names(2) [OF g item(2,1)] by simp
qed (use q in auto)

subsection \<open>Properties\<close>


text \<open>The graph of a module and a subgraph of one module.\<close>

lemma demo_graph_nodes:
  obtains g st c where "Graph_Init 3 demo_env [] [] (demo_config name) ({}, \<lambda>_. {}) = Built (g, st)"
    "solid g" "module_at g [''s'', ''b''] c" "map_of (g_subs g) kSubgraphConfigPrefix = None"
proof -
  obtain g st sc sub c where i: "Graph_Init 3 demo_env [] [] (demo_config name) ({}, \<lambda>_. {}) = Built (g, st)"
    and g: "g_subs g = [(''subgraph:s'', Suc 0, sc, sub)]" "g_modules sub = [(''b'', 0, c)]" "g_subs sub = []"
    by (rule demo_graph)
  have ok: "graph_ok g" using Graph_Init_ok [OF demo_plain i] by simp
  have sub: "map_of (g_subs g) ''subgraph:s'' = Some (Suc 0, sc, sub)" using g(1) by simp
  have b: "module_at sub [''b''] c" by (rule module_here) (simp add: g(2))
  have m: "module_at g (NameIgnoreSubgraphPrefix ''subgraph:s'' # [''b'']) c" by (rule module_below [OF sub b])
  have "dfs_nodes sub \<noteq> []" using dfs_nodes_set [OF graph_ok_sub [OF ok sub], of "[''b'']" c] b by auto
  moreover have "solid sub" by (rule solid.intros) (simp add: g(3))
  ultimately have "solid sub \<and> (Graph_Empty sub \<or> dfs_nodes sub \<noteq> [])" by blast
  then have "solid g" by (intro solid.intros) (simp add: g(1) split: if_splits)
  moreover have "map_of (g_subs g) kSubgraphConfigPrefix = None" by (simp add: g(1) kSubgraphConfigPrefix_def)
  ultimately show thesis
    using i m by (intro that) (simp_all add: NameIgnoreSubgraphPrefix_def kSubgraphConfigPrefix_def [THEN arg_cong [where f = length]])
qed




text \<open>
  In a root graph without a name, \<^verbatim>\<open>DFSBeginFrom\<close> a node inside a subgraph dereferences a
  missing entry (unless the subgraph's name without its first character happens to name another one).
\<close>

lemma unnamed_root_faults:
  assumes "Graph_Init fuel env [] [] config st = Built (g, st')"
    and "\<forall>c\<in>set (module_configs config). \<not> IsSubgraphItem (mod_name c)"
    and "graph_name config = []" and "module_at g (s # q) c" and "q \<noteq> []"
    and "map_of (g_subs g) (kSubgraphConfigPrefix @ tl s) = None"
  shows "\<exists>full. node_full_name g (s # q) = Some full \<and> Graph_DFSBeginFrom g full = Faulted NullPointer"
proof -
  have g: "graph_ok g" and cfg: "g_config g = config" "g_parent_name g = []"
    using Graph_Init_ok [OF assms(2,1)] by simp_all
  have name: "Graph_GetName g = []" "Graph_GetFullName g = []"
    using cfg assms(3) by (simp_all add: Graph_GetName_def Graph_GetFullName_def full_name_def)
  note s = node_full_name_unnamed [OF assms(4) g name(2) assms(5)]
  then obtain a r where ar: "s = a # r" "CHR ''/'' \<notin> set r" by (cases s) auto
  have "takeWhile (\<lambda>c. c \<noteq> CHR ''/'') (r @ ''/'' @ x) = r" for x using ar(2) by (induction r) auto
  then have "Graph_DFSBeginFrom g (s @ ''/'' @ join_slash q) = Faulted NullPointer"
    using assms(6) ar by (simp add: Graph_DFSBeginFrom.simps [of g] name Let_def)
  with s show ?thesis by blast
qed


lemma unnamed_root_faults_witness:
  "\<exists>g st. Graph_Init 3 demo_env [] [] (demo_config []) ({}, \<lambda>_. {}) = Built (g, st) \<and>
     node_full_name g [''s'', ''b''] = Some ''s/b'' \<and> Graph_DFSBeginFrom g ''s/b'' = Faulted NullPointer"
proof -
  obtain g st c where g: "Graph_Init 3 demo_env [] [] (demo_config []) ({}, \<lambda>_. {}) = Built (g, st)"
    "module_at g [''s'', ''b''] c" "map_of (g_subs g) kSubgraphConfigPrefix = None" by (rule demo_graph_nodes)
  have e: "graph_name (demo_config []) = []" by (simp add: demo_config_def)
  have ok: "graph_ok g" "Graph_GetFullName g = []"
    using Graph_Init_ok [OF demo_plain g(1)] e by (simp_all add: Graph_GetFullName_def full_name_def Graph_GetName_def)
  from unnamed_root_faults [OF g(1) demo_plain e g(2)] g(3) node_full_name_unnamed [OF g(2) ok]
  have "node_full_name g [''s'', ''b''] = Some ''s/b'' \<and> Graph_DFSBeginFrom g ''s/b'' = Faulted NullPointer" by auto
  with g(1) show ?thesis by blast
qed

end
