(* ===== verification/CircularBuffer.thy ===== *)
theory CircularBuffer
  imports Prelude
begin

unbundle bit_operations_syntax

section \<open>The event buffer of the tracer: CircularBuffer\<close>

text \<open>
  \<^verbatim>\<open>framework/src/profiler/circular_buffer.hpp\<close>.  Writers reserve an index with \<^verbatim>\<open>current_++\<close>, then
  lock the index's slot by storing \<open>kBusy\<close> in its \<^verbatim>\<open>lap_\<close> atom, write, and store the lap (modulo 128)
  back.  A reader of an index waits until the slot has at least the index's lap.  Spinning is the
  value \<open>None\<close>.  The size of the buffer is computed in doubles, so it is an argument of the constructor.
\<close>

record 'a CircularBuffer =
  cb_capacity :: u64
  cb_size :: u64
  cb_buffer :: "'a list"
  cb_lap :: "u8 list"
  cb_current :: u64

definition kBusy :: u8 where "kBusy = 0xFF"
definition kMask :: u8 where "kMask = 0x7F"

definition CircularBuffer_new :: "'a \<Rightarrow> u64 \<Rightarrow> u64 \<Rightarrow> 'a CircularBuffer" where
  "CircularBuffer_new dflt capacity sz =
     \<lparr>cb_capacity = capacity, cb_size = sz, cb_buffer = replicate (unat sz) dflt,
      cb_lap = replicate (unat sz) 0, cb_current = 0\<rparr>"

definition GetLap :: "u64 \<Rightarrow> u64 \<Rightarrow> u8" where
  "GetLap i sz = ucast ((i div sz + 1) AND ucast kMask)"

definition MaxLap :: "u8 \<Rightarrow> u8 \<Rightarrow> u8" where
  "MaxLap u v = (if (u - v) AND kMask \<le> kMask div 2 then u else v)"

text \<open>One turn of the two spin loops: \<open>None\<close> when the condition fails.\<close>

definition AcquireForWrite :: "nat \<Rightarrow> 'a CircularBuffer \<Rightarrow> (u8 \<times> 'a CircularBuffer) option" where
  "AcquireForWrite index b =
     (let prev = cb_lap b ! index
      in if prev \<noteq> kBusy then Some (prev, b\<lparr>cb_lap := (cb_lap b)[index := kBusy]\<rparr>) else None)"

definition AcquireForRead :: "nat \<Rightarrow> u8 \<Rightarrow> 'a CircularBuffer \<Rightarrow> (u8 \<times> 'a CircularBuffer) option" where
  "AcquireForRead index lap b =
     (let prev = cb_lap b ! index
      in if prev \<noteq> kBusy \<and> prev = MaxLap prev lap then Some (prev, b\<lparr>cb_lap := (cb_lap b)[index := kBusy]\<rparr>) else None)"

definition Release :: "nat \<Rightarrow> u8 \<Rightarrow> 'a CircularBuffer \<Rightarrow> 'a CircularBuffer" where
  "Release index lap b = b\<lparr>cb_lap := (cb_lap b)[index := lap]\<rparr>"

text \<open>The three atomic parts of \<^verbatim>\<open>push_back\<close>, and the whole.\<close>

definition push_reserve :: "'a CircularBuffer \<Rightarrow> u64 \<times> 'a CircularBuffer" where
  "push_reserve b = (cb_current b, b\<lparr>cb_current := cb_current b + 1\<rparr>)"

definition push_acquire :: "u64 \<Rightarrow> 'a CircularBuffer \<Rightarrow> (u8 \<times> 'a CircularBuffer) option" where
  "push_acquire i b = AcquireForWrite (unat (i mod cb_size b)) b"

definition push_finish :: "u64 \<Rightarrow> u8 \<Rightarrow> 'a \<Rightarrow> 'a CircularBuffer \<Rightarrow> 'a CircularBuffer" where
  "push_finish i prev event b =
     (let lap = GetLap i (cb_size b); index = unat (i mod cb_size b)
      in Release index (MaxLap prev lap) (b\<lparr>cb_buffer := (cb_buffer b)[index := event]\<rparr>))"

definition push_back :: "'a \<Rightarrow> 'a CircularBuffer \<Rightarrow> 'a CircularBuffer option" where
  "push_back event b =
     (case push_reserve b of
        (i, b1) \<Rightarrow> (case push_acquire i b1 of None \<Rightarrow> None | Some (prev, b2) \<Rightarrow> Some (push_finish i prev event b2)))"

definition GetAbsolute :: "u64 \<Rightarrow> 'a CircularBuffer \<Rightarrow> ('a \<times> 'a CircularBuffer) option" where
  "GetAbsolute i b =
     (let lap = GetLap i (cb_size b); index = unat (i mod cb_size b)
      in case AcquireForRead index lap b of
           None \<Rightarrow> None
         | Some (prev, b1) \<Rightarrow> Some (cb_buffer b1 ! index, Release index prev b1))"

definition CircularBuffer_Get :: "u64 \<Rightarrow> 'a CircularBuffer \<Rightarrow> ('a \<times> 'a CircularBuffer) option" where
  "CircularBuffer_Get i b =
     (if cb_current b > cb_capacity b then GetAbsolute (i + cb_current b - cb_capacity b) b else GetAbsolute i b)"

text \<open>\<^verbatim>\<open>begin()\<close> and \<^verbatim>\<open>end()\<close> as indices, and the loop over them.\<close>

definition buffer_begin :: "'a CircularBuffer \<Rightarrow> u64" where
  "buffer_begin b = (if cb_current b < cb_capacity b then 0 else cb_current b - cb_capacity b)"

definition buffer_end :: "'a CircularBuffer \<Rightarrow> u64" where
  "buffer_end b = cb_current b"

primrec read_from :: "nat \<Rightarrow> u64 \<Rightarrow> 'a CircularBuffer \<Rightarrow> ('a list \<times> 'a CircularBuffer) option" where
  "read_from 0 i b = Some ([], b)"
| "read_from (Suc n) i b =
     (case GetAbsolute i b of
        None \<Rightarrow> None
      | Some (e, b1) \<Rightarrow> map_option (apfst ((#) e)) (read_from n (i + 1) b1))"

definition read_all :: "'a CircularBuffer \<Rightarrow> ('a list \<times> 'a CircularBuffer) option" where
  "read_all b = read_from (unat (buffer_end b - buffer_begin b)) (buffer_begin b) b"

subsection \<open>Laps\<close>

definition lap_of :: "nat \<Rightarrow> nat \<Rightarrow> nat" where
  "lap_of n i = (i div n + 1) mod 128"

lemma unat_GetLap:
  assumes "unat i div unat n + 1 < 2 ^ 64"
  shows "unat (GetLap i n) = lap_of (unat n) (unat i)"
proof -
  have k: "(ucast kMask :: u64) = mask 7" by (simp add: kMask_def mask_eq_exp_minus_1)
  have "unat ((i div n + 1) AND mask 7) = unat (i div n + 1) mod 128"
    by (simp add: take_bit_eq_mask [symmetric] take_bit_eq_mod unat_mod)
  moreover have "unat (i div n + 1) = unat i div unat n + 1"
    using assms by (simp add: unat_word_ariths unat_div)
  ultimately have u: "unat ((i div n + 1) AND mask 7) = lap_of (unat n) (unat i)" by (simp add: lap_of_def)
  then show ?thesis by (simp add: GetLap_def k unsigned_ucast_eq take_bit_eq_mod lap_of_def)
qed

lemma MaxLap_eq:
  assumes "unat u < 128" "unat v < 128"
  shows "MaxLap u v = (if (int (unat u) - int (unat v)) mod 128 \<le> 63 then u else v)"
proof -
  have k: "kMask = mask 7" by (simp add: kMask_def mask_eq_exp_minus_1)
  have h: "kMask div 2 = 63" by (simp add: kMask_def)
  have "uint ((u - v) AND mask 7) = (int (unat u) - int (unat v)) mod 128"
    by (simp add: take_bit_eq_mask [symmetric] take_bit_eq_mod uint_mod uint_word_ariths mod_mod_cancel)
  then show ?thesis unfolding MaxLap_def h by (simp add: word_le_def k)
qed

lemma lap_of_less: "lap_of n i < 128"
  by (simp add: lap_of_def)

lemma lap_of_next: "0 < n \<Longrightarrow> n \<le> i \<Longrightarrow> lap_of n i = (lap_of n (i - n) + 1) mod 128"
proof -
  assume n: "0 < n" "n \<le> i"
  then have "i div n = (i - n) div n + 1" by (simp add: le_div_geq)
  then show ?thesis unfolding lap_of_def by presburger
qed

lemma MaxLap_next:
  assumes "unat u < 128" "unat v < 128" "unat v = (unat u + 1) mod 128"
  shows "MaxLap u v = v" "u \<noteq> MaxLap u v"
proof -
  have arith: "(int a - int b) mod 128 = 127 \<and> a \<noteq> b" if "a < 128" "b = (a + 1) mod 128" for a b :: nat
  proof (cases "a = 127")
    case False
    then have "b = a + 1" using that by simp
    then show ?thesis by simp
  qed (use that in simp)
  note ab = arith [OF assms(1,3)]
  then show v: "MaxLap u v = v" unfolding MaxLap_eq [OF assms(1,2)] by simp
  from ab have "u \<noteq> v" by blast
  then show "u \<noteq> MaxLap u v" unfolding v .
qed

lemma MaxLap_same: "MaxLap u u = u"
  by (simp add: MaxLap_def)

lemma not_busy: "unat u < 128 \<Longrightarrow> u \<noteq> kBusy"
  by (auto simp: kBusy_def)

subsection \<open>Writers and readers\<close>

text \<open>
  The events \<open>ev\<close> by their index, and the unfinished writes: reserved (\<open>None\<close>) or holding the slot's
  former lap.  No writer is a whole turn of the buffer late: this is what the class's \<open>buffer_margin\<close>
  is meant to give.  A read is one step, as the busy slot excludes everybody else.
\<close>

type_synonym 'a cb_state = "'a CircularBuffer \<times> 'a list \<times> (nat \<rightharpoonup> u8 option)"

inductive cb_step :: "'a cb_state \<Rightarrow> 'a cb_state \<Rightarrow> bool" where
  step_reserve: "push_reserve b = (i, b') \<Longrightarrow> Suc (length ev) < 2 ^ 64 \<Longrightarrow>
    \<forall>j\<in>dom pend. length ev < j + unat (cb_size b) \<Longrightarrow>
    cb_step (b, ev, pend) (b', ev @ [e], pend(length ev \<mapsto> None))"
| step_acquire: "pend j = Some None \<Longrightarrow> push_acquire (of_nat j) b = Some (prev, b') \<Longrightarrow>
    cb_step (b, ev, pend) (b', ev, pend(j \<mapsto> Some prev))"
| step_finish: "pend j = Some (Some prev) \<Longrightarrow>
    cb_step (b, ev, pend) (push_finish (of_nat j) prev (ev ! j) b, ev, pend(j := None))"
| step_read: "GetAbsolute i b = Some (x, b') \<Longrightarrow> cb_step (b, ev, pend) (b', ev, pend)"

inductive cb_reach :: "u64 \<Rightarrow> u64 \<Rightarrow> 'a cb_state \<Rightarrow> bool" for capacity sz where
  reach_new: "cb_reach capacity sz (CircularBuffer_new dflt capacity sz, [], Map.empty)"
| reach_step: "cb_reach capacity sz s \<Longrightarrow> cb_step s s' \<Longrightarrow> cb_reach capacity sz s'"

text \<open>
  The invariant: at most the last turn of indices is unfinished; the slot of an index of the last
  turn holds that index's event and lap when its write is finished, and else the index's before.
\<close>

definition old_lap :: "nat \<Rightarrow> nat \<Rightarrow> nat" where
  "old_lap n j = (if j < n then 0 else lap_of n (j - n))"

definition slot_ok :: "nat \<Rightarrow> 'a cb_state \<Rightarrow> nat \<Rightarrow> bool" where
  "slot_ok n s j \<longleftrightarrow> (case s of (b, ev, pend) \<Rightarrow>
     case pend j of
       None \<Rightarrow> unat (cb_lap b ! (j mod n)) = lap_of n j \<and> cb_buffer b ! (j mod n) = ev ! j
     | Some p \<Rightarrow> (n \<le> j \<longrightarrow> cb_buffer b ! (j mod n) = ev ! (j - n)) \<and>
         (case p of None \<Rightarrow> unat (cb_lap b ! (j mod n)) = old_lap n j
          | Some prev \<Rightarrow> cb_lap b ! (j mod n) = kBusy \<and> unat prev = old_lap n j))"

definition cb_inv :: "u64 \<Rightarrow> u64 \<Rightarrow> 'a cb_state \<Rightarrow> bool" where
  "cb_inv capacity sz s \<longleftrightarrow> (case s of (b, ev, pend) \<Rightarrow>
     cb_capacity b = capacity \<and> cb_size b = sz \<and> length (cb_buffer b) = unat sz \<and> length (cb_lap b) = unat sz \<and>
     cb_current b = of_nat (length ev) \<and> length ev < 2 ^ 64 \<and>
     (\<forall>j\<in>dom pend. j < length ev \<and> length ev \<le> j + unat sz) \<and>
     (\<forall>j<length ev. length ev \<le> j + unat sz \<longrightarrow> slot_ok (unat sz) s j) \<and>
     (\<forall>k<unat sz. length ev \<le> k \<longrightarrow> cb_lap b ! k = 0))"

lemma window_mod:
  assumes "j mod n = k mod n" "j < N" "k < N" "N \<le> j + n" "N \<le> k + (n::nat)"
  shows "j = k"
proof (rule ccontr)
  assume "j \<noteq> k"
  then consider "j < k" | "k < j" by linarith
  then show False
  proof cases
    case 1
    then have "n dvd k - j" using assms(1) mod_eq_dvd_iff_nat [of j k n] by simp
    then have "n \<le> k - j" using 1 by (intro dvd_imp_le) auto
    then show False using assms by linarith
  next
    case 2
    then have "n dvd j - k" using assms(1) mod_eq_dvd_iff_nat [of k j n] by simp
    then have "n \<le> j - k" using 2 by (intro dvd_imp_le) auto
    then show False using assms by linarith
  qed
qed

lemma unat_u64: "j < 2 ^ 64 \<Longrightarrow> unat (of_nat j :: u64) = j"
  by (simp add: unsigned_of_nat take_bit_nat_eq_self)

lemma index_unat:
  "j < 2 ^ 64 \<Longrightarrow> unat ((of_nat j :: u64) mod sz) = j mod unat sz"
  by (simp add: unat_mod unat_u64)

lemma lap_unat:
  assumes "j < 2 ^ 64" "Suc j < 2 ^ 64" "0 < unat (sz :: u64)"
  shows "unat (GetLap (of_nat j) sz) = lap_of (unat sz) j"
proof -
  have "j div unat sz \<le> j" by simp
  then have "j div unat sz + 1 < 2 ^ 64" using assms(2) by linarith
  then show ?thesis using unat_GetLap [of "of_nat j" sz] assms by (simp add: unat_u64)
qed

lemma old_lap_less: "old_lap n j < 128"
  by (simp add: old_lap_def lap_of_less)

lemma old_lap_next: "0 < n \<Longrightarrow> lap_of n j = (old_lap n j + 1) mod 128"
  by (auto simp: old_lap_def lap_of_next) (simp add: lap_of_def)

lemma GetAbsolute_same:
  assumes "GetAbsolute i b = Some (x, b')"
  shows "b' = b \<and> x = cb_buffer b ! unat (i mod cb_size b) \<and>
    cb_lap b ! unat (i mod cb_size b) \<noteq> kBusy \<and>
    cb_lap b ! unat (i mod cb_size b) = MaxLap (cb_lap b ! unat (i mod cb_size b)) (GetLap i (cb_size b))"
  using assms by (auto simp: GetAbsolute_def AcquireForRead_def Release_def Let_def split: if_splits)

lemma cb_inv_new: "cb_inv capacity sz (CircularBuffer_new dflt capacity sz, [], Map.empty)"
  by (simp add: cb_inv_def CircularBuffer_new_def)

subsection \<open>Every step keeps the invariant\<close>

lemma slot_ok_cong:
  assumes "cb_lap b' ! (j mod n) = cb_lap b ! (j mod n)" "cb_buffer b' ! (j mod n) = cb_buffer b ! (j mod n)"
    "pend' j = pend j" "ev' ! j = ev ! j" "n \<le> j \<longrightarrow> ev' ! (j - n) = ev ! (j - n)"
  shows "slot_ok n (b', ev', pend') j = slot_ok n (b, ev, pend) j"
  using assms unfolding slot_ok_def by (auto split: option.splits)

lemma cb_invD:
  assumes "cb_inv capacity sz (b, ev, pend)"
  shows "cb_size b = sz" "cb_capacity b = capacity" "length (cb_buffer b) = unat sz" "length (cb_lap b) = unat sz"
    "cb_current b = of_nat (length ev)" "length ev < 2 ^ 64"
    "j \<in> dom pend \<Longrightarrow> j < length ev \<and> length ev \<le> j + unat sz"
    "j < length ev \<Longrightarrow> length ev \<le> j + unat sz \<Longrightarrow> slot_ok (unat sz) (b, ev, pend) j"
    "k < unat sz \<Longrightarrow> length ev \<le> k \<Longrightarrow> cb_lap b ! k = 0"
  using assms unfolding cb_inv_def by auto

lemma reserve_inv:
  assumes inv: "cb_inv capacity sz (b, ev, pend)" and n: "0 < unat sz"
    and r: "push_reserve b = (i, b')" and len: "Suc (length ev) < 2 ^ 64"
    and late: "\<forall>j\<in>dom pend. length ev < j + unat (cb_size b)"
  shows "cb_inv capacity sz (b', ev @ [e], pend(length ev \<mapsto> None))"
proof -
  note d = cb_invD [OF inv]
  let ?n = "unat sz" and ?N = "length ev"
  have b': "b' = b\<lparr>cb_current := cb_current b + 1\<rparr>" using r by (auto simp: push_reserve_def)
  have "slot_ok ?n (b', ev @ [e], pend(?N \<mapsto> None)) j" if j: "j < Suc ?N" "Suc ?N \<le> j + ?n" for j
  proof (cases "j = ?N")
    case False
    with j have "j < ?N" "?N \<le> j + ?n" by linarith+
    with d(8) have "slot_ok ?n (b, ev, pend) j" by blast
    moreover have "slot_ok ?n (b', ev @ [e], pend(?N \<mapsto> None)) j = slot_ok ?n (b, ev, pend) j"
      using False \<open>j < ?N\<close> by (intro slot_ok_cong) (auto simp: b' nth_append)
    ultimately show ?thesis by simp
  next
    case new: True
    show ?thesis
    proof (cases "?N < ?n")
      case True
      with d(9) [of ?N] new show ?thesis by (simp add: slot_ok_def b' old_lap_def)
    next
      case False
      have old: "?N - ?n < ?N" "?N \<le> (?N - ?n) + ?n" using False n by linarith+
      have "?N - ?n \<notin> dom pend" using late d(1) False by force
      then have "pend (?N - ?n) = None" by blast
      with d(8) [OF old] have "unat (cb_lap b ! ((?N - ?n) mod ?n)) = lap_of ?n (?N - ?n) \<and>
          cb_buffer b ! ((?N - ?n) mod ?n) = ev ! (?N - ?n)" by (simp add: slot_ok_def)
      moreover have "(?N - ?n) mod ?n = ?N mod ?n" using False by (simp add: le_mod_geq)
      ultimately show ?thesis using new False old(1) by (simp add: slot_ok_def b' old_lap_def nth_append)
    qed
  qed
  moreover have "j < Suc ?N \<and> Suc ?N \<le> j + ?n" if "j \<in> dom (pend(?N \<mapsto> None))" for j
  proof (cases "j = ?N")
    case False
    then have "j \<in> dom pend" using that by (auto split: if_splits)
    with d(7) late d(1) show ?thesis by force
  qed (use n in simp)
  ultimately show ?thesis
    using d(1-6) d(9) len unfolding cb_inv_def by (auto simp: b')
qed

lemma acquire_inv:
  assumes inv: "cb_inv capacity sz (b, ev, pend)" and n: "0 < unat sz"
    and p: "pend j = Some None" and a: "push_acquire (of_nat j) b = Some (prev, b')"
  shows "cb_inv capacity sz (b', ev, pend(j \<mapsto> Some prev))"
proof -
  note d = cb_invD [OF inv]
  let ?n = "unat sz" and ?N = "length ev"
  have jd: "j \<in> dom pend" using p by auto
  note jN = d(7) [OF jd]
  have idx: "unat ((of_nat j :: u64) mod sz) = j mod ?n" using jN d(6) by (intro index_unat) linarith
  have b': "b' = b\<lparr>cb_lap := (cb_lap b)[j mod ?n := kBusy]\<rparr>" and prev: "prev = cb_lap b ! (j mod ?n)"
    using a by (auto simp: push_acquire_def AcquireForWrite_def Let_def d(1) idx split: if_splits)
  have s: "slot_ok ?n (b, ev, pend) j" using d(8) jN by blast
  have lt: "j mod ?n < ?n" using n by simp
  have "slot_ok ?n (b', ev, pend(j \<mapsto> Some prev)) k" if k: "k < ?N" "?N \<le> k + ?n" for k
  proof (cases "k = j")
    case True
    with s p lt d(4) show ?thesis by (simp add: slot_ok_def b' prev)
  next
    case False
    then have "k mod ?n \<noteq> j mod ?n" using window_mod [of k ?n j ?N] k jN by blast
    then have "slot_ok ?n (b', ev, pend(j \<mapsto> Some prev)) k = slot_ok ?n (b, ev, pend) k"
      using False by (intro slot_ok_cong) (auto simp: b')
    with d(8) [OF k] show ?thesis by simp
  qed
  moreover have "cb_lap b' ! k = 0" if "k < ?n" "?N \<le> k" for k
  proof -
    have "j mod ?n < ?N" using jN mod_less_eq_dividend [of j ?n] by linarith
    with that have "k \<noteq> j mod ?n" by linarith
    then show ?thesis using d(9) [OF that] by (simp add: b')
  qed
  ultimately show ?thesis
    using d(1-7) jN unfolding cb_inv_def by (auto simp: b')
qed

lemma finish_inv:
  assumes inv: "cb_inv capacity sz (b, ev, pend)" and n: "0 < unat sz" and p: "pend j = Some (Some prev)"
  shows "cb_inv capacity sz (push_finish (of_nat j) prev (ev ! j) b, ev, pend(j := None))"
proof -
  note d = cb_invD [OF inv]
  let ?n = "unat sz" and ?N = "length ev"
  have jd: "j \<in> dom pend" using p by auto
  note jN = d(7) [OF jd]
  have idx: "unat ((of_nat j :: u64) mod sz) = j mod ?n" using jN d(6) by (intro index_unat) linarith
  have lap: "unat (GetLap (of_nat j) sz) = lap_of ?n j" using jN d(6) n by (intro lap_unat) linarith+
  have s: "slot_ok ?n (b, ev, pend) j" using d(8) jN by blast
  then have prev: "unat prev = old_lap ?n j" using p by (simp add: slot_ok_def)
  have "MaxLap prev (GetLap (of_nat j) sz) = GetLap (of_nat j) sz"
    using prev lap old_lap_next [OF n, of j] old_lap_less [of ?n j] lap_of_less [of ?n j]
    by (intro MaxLap_next) simp_all
  then obtain b' where b': "push_finish (of_nat j) prev (ev ! j) b = b'"
      "b' = b\<lparr>cb_lap := (cb_lap b)[j mod ?n := GetLap (of_nat j) sz], cb_buffer := (cb_buffer b)[j mod ?n := ev ! j]\<rparr>"
    by (simp add: push_finish_def Release_def Let_def d(1) idx)
  have lt: "j mod ?n < ?n" using n by simp
  have "slot_ok ?n (b', ev, pend(j := None)) k" if k: "k < ?N" "?N \<le> k + ?n" for k
  proof (cases "k = j")
    case True
    with lt d(3,4) lap show ?thesis by (simp add: slot_ok_def b'(2))
  next
    case False
    then have "k mod ?n \<noteq> j mod ?n" using window_mod [of k ?n j ?N] k jN by blast
    then have "slot_ok ?n (b', ev, pend(j := None)) k = slot_ok ?n (b, ev, pend) k"
      using False by (intro slot_ok_cong) (auto simp: b'(2))
    with d(8) [OF k] show ?thesis by simp
  qed
  moreover have "cb_lap b' ! k = 0" if "k < ?n" "?N \<le> k" for k
  proof -
    have "j mod ?n < ?N" using jN mod_less_eq_dividend [of j ?n] by linarith
    with that have "k \<noteq> j mod ?n" by linarith
    then show ?thesis using d(9) [OF that] by (simp add: b'(2))
  qed
  ultimately have "cb_inv capacity sz (b', ev, pend(j := None))"
    using d(1-7) unfolding cb_inv_def by (auto simp: b'(2))
  then show ?thesis by (simp only: b'(1))
qed

lemma cb_reach_inv:
  assumes "0 < unat sz"
  shows "cb_reach capacity sz s \<Longrightarrow> cb_inv capacity sz s"
proof (induction rule: cb_reach.induct)
  case (reach_new dflt)
  then show ?case by (rule cb_inv_new)
next
  case (reach_step s s')
  from reach_step.hyps(2) reach_step.IH show ?case
  proof cases
    case (step_reserve b i b' ev pend e)
    note inv = reach_step.IH [unfolded step_reserve(1)]
    show ?thesis unfolding step_reserve(2) by (rule reserve_inv [OF inv assms step_reserve(3-5)])
  next
    case (step_acquire pend j b prev b' ev)
    note inv = reach_step.IH [unfolded step_acquire(1)]
    show ?thesis unfolding step_acquire(2) by (rule acquire_inv [OF inv assms step_acquire(3,4)])
  next
    case (step_finish pend j prev b ev)
    note inv = reach_step.IH [unfolded step_finish(1)]
    show ?thesis unfolding step_finish(2) by (rule finish_inv [OF inv assms step_finish(3)])
  next
    case (step_read i b x b' ev pend)
    with reach_step.IH GetAbsolute_same [OF step_read(3)] show ?thesis by simp
  qed
qed

lemma last_in_slot:
  assumes "0 < n" "i < N"
  obtains j where "i \<le> j" "j < N" "N \<le> j + n" "j mod n = i mod (n::nat)" "j = i \<or> i + n \<le> j"
proof -
  let ?q = "(N - 1 - i) div n"
  have "(N - 1 - i) mod n < n" using assms(1) by simp
  moreover have "n * ?q + (N - 1 - i) mod n = N - 1 - i" by simp
  ultimately have "n * ?q \<le> N - 1 - i" "N - 1 - i < n * ?q + n" by linarith+
  then have "i \<le> i + n * ?q" "i + n * ?q < N" "N \<le> i + n * ?q + n" using assms(2) by linarith+
  moreover have "(i + n * ?q) mod n = i mod n" by simp
  moreover have "i + n * ?q = i \<or> i + n \<le> i + n * ?q" by (cases ?q) auto
  ultimately show thesis by (rule that)
qed

lemma read_old:
  assumes inv: "cb_inv capacity sz (b, ev, pend)" and n: "0 < unat sz" and i: "i < length ev" "Suc i < 2 ^ 64"
    and r: "GetAbsolute (of_nat i) b = Some (x, b')"
  shows "b' = b \<and> (\<exists>j. i \<le> j \<and> j < length ev \<and> j mod unat sz = i mod unat sz \<and> x = ev ! j)"
proof -
  note d = cb_invD [OF inv]
  let ?n = "unat sz" and ?N = "length ev"
  obtain j where j: "i \<le> j" "j < ?N" "?N \<le> j + ?n" "j mod ?n = i mod ?n" "j = i \<or> i + ?n \<le> j"
    using last_in_slot [OF n i(1)] .
  have idx: "unat ((of_nat i :: u64) mod sz) = j mod ?n" using i d(6) j(4) by (subst index_unat) simp_all
  note g = GetAbsolute_same [OF r, unfolded d(1) idx]
  have s: "slot_ok ?n (b, ev, pend) j" using d(8) j(2,3) by blast
  consider (finished) "pend j = None" | (busy) prev where "pend j = Some (Some prev)" | (reserved) "pend j = Some None"
    by (metis not_Some_eq)
  then have "\<exists>k. i \<le> k \<and> k < ?N \<and> k mod ?n = i mod ?n \<and> x = ev ! k"
  proof cases
    case finished
    with s g j show ?thesis by (auto simp: slot_ok_def)
  next
    case busy
    with s g show ?thesis by (simp add: slot_ok_def)
  next
    case reserved
    then have lap: "unat (cb_lap b ! (j mod ?n)) = old_lap ?n j" and buf: "?n \<le> j \<longrightarrow> x = ev ! (j - ?n)"
      using s g by (simp_all add: slot_ok_def)
    show ?thesis
    proof (cases "j = i")
      case True
      have "unat (GetLap (of_nat i) sz) = lap_of ?n j" using lap_unat [of i sz] i n True by simp
      with MaxLap_next(2) [of "cb_lap b ! (j mod ?n)" "GetLap (of_nat i) sz"] lap old_lap_less [of ?n j]
        lap_of_less [of ?n j] old_lap_next [OF n, of j] g
      show ?thesis by simp
    next
      case False
      with j have k: "i \<le> j - ?n" "?n \<le> j" "j - ?n < ?N" by linarith+
      have "(j - ?n) mod ?n = i mod ?n" using k(2) j(4) by (simp add: le_mod_geq)
      with k buf show ?thesis by (intro exI [of _ "j - ?n"]) simp
    qed
  qed
  with g show ?thesis by blast
qed

lemma read_window:
  assumes inv: "cb_inv capacity sz (b, ev, pend)" and n: "0 < unat sz" and i: "i < length ev" "Suc i < 2 ^ 64"
    and w: "length ev \<le> i + unat sz" "pend i = None"
  shows "GetAbsolute (of_nat i) b = Some (ev ! i, b)"
proof -
  note d = cb_invD [OF inv]
  have idx: "unat ((of_nat i :: u64) mod sz) = i mod unat sz" using i d(6) by (subst index_unat) simp_all
  have lap: "unat (GetLap (of_nat i) sz) = lap_of (unat sz) i" using lap_unat [of i sz] i n by simp
  have "slot_ok (unat sz) (b, ev, pend) i" using d(8) i w(1) by blast
  then have s: "unat (cb_lap b ! (i mod unat sz)) = lap_of (unat sz) i" "cb_buffer b ! (i mod unat sz) = ev ! i"
    using w(2) by (simp_all add: slot_ok_def)
  then have e: "cb_lap b ! (i mod unat sz) = GetLap (of_nat i) sz" using lap by (simp add: word_unat_eq_iff)
  moreover have "GetLap (of_nat i) sz \<noteq> kBusy" using lap lap_of_less by (intro not_busy) simp
  moreover have "b\<lparr>cb_lap := (cb_lap b)[i mod unat sz := GetLap (of_nat i) sz]\<rparr> = b" by (simp flip: e)
  ultimately show ?thesis
    using s(2) by (simp add: GetAbsolute_def AcquireForRead_def Release_def Let_def d(1) idx MaxLap_same)
qed

lemma read_from_window:
  "cb_inv capacity sz (b, ev, Map.empty) \<Longrightarrow> 0 < unat sz \<Longrightarrow> Suc (length ev) < 2 ^ 64 \<Longrightarrow>
   i + k = length ev \<Longrightarrow> length ev \<le> i + unat sz \<Longrightarrow> read_from k (of_nat i) b = Some (drop i ev, b)"
proof (induction k arbitrary: i)
  case (Suc k)
  then have i: "i < length ev" "Suc i < 2 ^ 64" by linarith+
  have "GetAbsolute (of_nat i) b = Some (ev ! i, b)" using read_window [OF Suc.prems(1,2) i Suc.prems(5)] by simp
  moreover have "read_from k (of_nat (Suc i)) b = Some (drop (Suc i) ev, b)" using Suc.prems by (intro Suc.IH) simp_all
  ultimately show ?case using i(1) by (simp add: Cons_nth_drop_Suc add.commute)
qed simp

lemma push_back_reach:
  assumes reach: "cb_reach capacity sz (b, ev, Map.empty)" and n: "0 < unat sz" and len: "Suc (length ev) < 2 ^ 64"
  shows "\<exists>b'. push_back e b = Some b' \<and> cb_reach capacity sz (b', ev @ [e], Map.empty)"
proof -
  let ?N = "length ev"
  obtain i b1 where r: "push_reserve b = (i, b1)" by fastforce
  have i: "i = of_nat ?N" using cb_invD(5) [OF cb_reach_inv [OF n reach]] r by (simp add: push_reserve_def)
  have r1: "cb_reach capacity sz (b1, ev @ [e], [?N \<mapsto> None])"
    using reach_step [OF reach step_reserve [OF r len]] by simp
  note d = cb_invD [OF cb_reach_inv [OF n r1]]
  have "slot_ok (unat sz) (b1, ev @ [e], [?N \<mapsto> None]) ?N" using n by (intro d(8)) simp_all
  then have "unat (cb_lap b1 ! (?N mod unat sz)) < 128" by (simp add: slot_ok_def old_lap_less)
  moreover have "unat ((of_nat ?N :: u64) mod sz) = ?N mod unat sz" using len by (intro index_unat) simp
  ultimately obtain prev b2 where a: "push_acquire (of_nat ?N) b1 = Some (prev, b2)"
    by (simp add: push_acquire_def AcquireForWrite_def Let_def d(1) not_busy)
  have r2: "cb_reach capacity sz (b2, ev @ [e], [?N \<mapsto> Some prev])"
    using reach_step [OF r1 step_acquire [OF _ a]] by simp
  have "cb_reach capacity sz (push_finish (of_nat ?N) prev ((ev @ [e]) ! ?N) b2, ev @ [e], [?N \<mapsto> Some prev](?N := None))"
    by (rule reach_step [OF r2 step_finish]) simp
  moreover have "[?N \<mapsto> Some prev](?N := None) = Map.empty" by (simp add: fun_eq_iff)
  moreover have "push_back e b = Some (push_finish (of_nat ?N) prev e b2)" using r a i by (simp add: push_back_def)
  ultimately show ?thesis by (metis nth_append_length)
qed

lemma read_all_last:
  assumes "cb_reach capacity sz (b, ev, Map.empty)" and "0 < unat sz" and "unat capacity \<le> unat sz"
    and "Suc (length ev) < 2 ^ 64"
  shows "read_all b = Some (drop (length ev - unat capacity) ev, b)"
proof -
  note inv = cb_reach_inv [OF assms(2,1)]
  note d = cb_invD [OF inv]
  let ?N = "length ev" and ?k = "min (length ev) (unat capacity)"
  have N: "unat (cb_current b) = ?N" using d(5,6) by (simp add: unat_u64)
  have beg: "buffer_begin b = of_nat (?N - ?k)"
  proof (cases "cb_current b < cb_capacity b")
    case True
    with N d(2) show ?thesis by (simp add: buffer_begin_def word_less_nat_alt)
  next
    case False
    then have le: "unat capacity \<le> ?N" using N d(2) by (simp add: word_less_nat_alt)
    then have "of_nat (?N - unat capacity) = cb_current b - capacity" by (simp add: of_nat_diff d(5))
    with False le d(2) show ?thesis by (simp add: buffer_begin_def min_def)
  qed
  have "buffer_end b - buffer_begin b = of_nat ?k"
    unfolding beg by (simp add: buffer_end_def d(5) of_nat_diff)
  then have "read_all b = read_from ?k (of_nat (?N - ?k)) b"
    using d(6) by (simp add: read_all_def beg unat_u64)
  also have "\<dots> = Some (drop (?N - ?k) ev, b)"
    using assms(3) by (intro read_from_window [OF inv assms(2,4)]) auto
  also have "?N - ?k = ?N - unat capacity" by simp
  finally show ?thesis .
qed

subsection \<open>Properties\<close>


lemma three_pushes: "\<exists>b. cb_reach 2 2 (b, [7, 8, 9 :: nat], Map.empty)"
proof -
  have n: "0 < unat (2 :: u64)" by simp
  from push_back_reach [OF reach_new [of 2 2 0] n, of 7] obtain b1 where "cb_reach 2 2 (b1, [7 :: nat], Map.empty)" by auto
  from push_back_reach [OF this n, of 8] obtain b2 where "cb_reach 2 2 (b2, [7, 8 :: nat], Map.empty)" by auto
  from push_back_reach [OF this n, of 9] show ?thesis by auto
qed




text \<open>
  A writer that is a whole turn late: it writes its older event after the newer one into the slot, and
  the larger lap stays, so a read of the newer index returns the older event.
\<close>

lemma late_writer_hides_event:
  "case push_reserve (CircularBuffer_new (5 :: nat) 1 1) of (i0, b1) \<Rightarrow>
     (case push_back 8 b1 of
        Some b2 \<Rightarrow> (case push_acquire i0 b2 of
          Some (prev, b3) \<Rightarrow> map_option fst (GetAbsolute 1 (push_finish i0 prev 7 b3)) = Some 7
        | None \<Rightarrow> False)
      | None \<Rightarrow> False)"
  by code_simp

end
