(* ===== verification/Profiler.thy ===== *)
theory Profiler
  imports Complex_Main StdMap Config
begin

section \<open>Profiling a process: RecordPolicy, StreamProfiler, ProcessProfiler\<close>

text \<open>
  \<^verbatim>\<open>framework/src/profiler/process_profiler.cpp\<close> and \<^verbatim>\<open>stream_profiler.cpp\<close> with their headers.
  Times are the clock's nanosecond ticks and are arguments of the calls.  Durations are doubles of
  milliseconds in the code; here they are real numbers, without the rounding.  Counters are 64-bit.
\<close>

type_synonym Time = int
type_synonym RecordKey = "string \<times> int"

definition Time_min :: Time where "Time_min = - (2 ^ 63)"

definition Duration_max :: real where "Duration_max = (2 - 1 / 2 ^ 52) * 2 ^ 1023"

definition time_diff :: "Time \<Rightarrow> Time \<Rightarrow> real" where
  "time_diff a b = real_of_int (a - b) / 1000000"

subsection \<open>RecordPolicy\<close>

type_synonym StartRecords = "(RecordKey \<times> Time) list"

record RecordPolicy =
  start_records :: "string \<rightharpoonup> StartRecords"
  skip_refs :: "string \<rightharpoonup> u64 list"
  stream_max_dpb_sizes :: "string \<rightharpoonup> u64"

definition RecordPolicy_new :: RecordPolicy where
  "RecordPolicy_new = \<lparr>start_records = Map.empty, skip_refs = Map.empty, stream_max_dpb_sizes = Map.empty\<rparr>"

definition kDEFAULT_MAX_DPB_SIZE :: u64 where "kDEFAULT_MAX_DPB_SIZE = 16"

definition IsStreamExist :: "RecordPolicy \<Rightarrow> string \<Rightarrow> bool" where
  "IsStreamExist rp s \<longleftrightarrow> start_records rp s \<noteq> None"

text \<open>\<^verbatim>\<open>GetRecords\<close> asserts that the stream exists; the callers have checked it.\<close>

definition GetRecords :: "RecordPolicy \<Rightarrow> string \<Rightarrow> StartRecords" where
  "GetRecords rp s = (case start_records rp s of None \<Rightarrow> [] | Some rs \<Rightarrow> rs)"

text \<open>\<^verbatim>\<open>skip_refs_[s]\<close>\<close>

definition skip_ref_list :: "RecordPolicy \<Rightarrow> string \<Rightarrow> u64 list" where
  "skip_ref_list rp s = (case skip_refs rp s of None \<Rightarrow> [] | Some ss \<Rightarrow> ss)"

text \<open>An iterator into the records is its position; the loop of \<^verbatim>\<open>FindStartRecord\<close>.\<close>

fun find_record :: "RecordKey \<Rightarrow> StartRecords \<Rightarrow> nat option" where
  "find_record key [] = None"
| "find_record key (r # rs) = (if fst r = key then Some 0 else map_option Suc (find_record key rs))"

definition FindStartRecord :: "RecordPolicy \<Rightarrow> RecordKey \<Rightarrow> nat option" where
  "FindStartRecord rp key =
     (if \<not> IsStreamExist rp (fst key) then None else find_record key (GetRecords rp (fst key)))"

definition AddStartTime :: "RecordKey \<Rightarrow> Time \<Rightarrow> RecordPolicy \<Rightarrow> bool \<times> RecordPolicy" where
  "AddStartTime key time rp =
     (let s = fst key
      in if \<not> IsStreamExist rp s then (False, rp)
         else (True, rp\<lparr>start_records := (start_records rp)(s \<mapsto> GetRecords rp s @ [(key, time)]),
                        skip_refs := (skip_refs rp)(s \<mapsto> skip_ref_list rp s @ [0])\<rparr>))"

definition GetStreamMaxDpbSize :: "string \<Rightarrow> RecordPolicy \<Rightarrow> u64 \<times> RecordPolicy" where
  "GetStreamMaxDpbSize s rp =
     (case stream_max_dpb_sizes rp s of
        Some m \<Rightarrow> (m, rp)
      | None \<Rightarrow> (kDEFAULT_MAX_DPB_SIZE,
                 rp\<lparr>stream_max_dpb_sizes := (stream_max_dpb_sizes rp)(s \<mapsto> kDEFAULT_MAX_DPB_SIZE)\<rparr>))"

definition SetStreamMaxDpbSize :: "string \<Rightarrow> u64 \<Rightarrow> RecordPolicy \<Rightarrow> RecordPolicy" where
  "SetStreamMaxDpbSize s m rp = rp\<lparr>stream_max_dpb_sizes := (stream_max_dpb_sizes rp)(s \<mapsto> m)\<rparr>"

text \<open>
  The loop up to the record \<open>n\<close>, and the removal of that record: the two lists and the number of
  removed records.  The two iterators move together; one of them at its end is a fault.
\<close>

primrec remove_loop :: "u64 \<Rightarrow> nat \<Rightarrow> StartRecords \<Rightarrow> u64 list \<Rightarrow> (StartRecords \<times> u64 list \<times> u64) result" where
  "remove_loop max_dpb_size 0 rs ss =
     (case (rs, ss) of (_ # rs', _ # ss') \<Rightarrow> Inr (rs', ss', 1) | _ \<Rightarrow> Inl OutOfBounds)"
| "remove_loop max_dpb_size (Suc n) rs ss =
     (case (rs, ss) of
        (r # rs', k # ss') \<Rightarrow>
          (case remove_loop max_dpb_size n rs' ss' of
             Inl e \<Rightarrow> Inl e
           | Inr (rs2, ss2, c) \<Rightarrow>
               (if k + 1 > max_dpb_size then Inr (rs2, ss2, c + 1) else Inr (r # rs2, (k + 1) # ss2, c)))
      | _ \<Rightarrow> Inl OutOfBounds)"

definition RemoveThisAndOtherUselessRecords :: "string \<Rightarrow> nat \<Rightarrow> RecordPolicy \<Rightarrow> (u64 \<times> RecordPolicy) result" where
  "RemoveThisAndOtherUselessRecords s record rp =
     (if \<not> IsStreamExist rp s then Inr (0, rp)
      else let (m, rp1) = GetStreamMaxDpbSize s rp
           in case remove_loop m record (GetRecords rp s) (skip_ref_list rp s) of
                Inl e \<Rightarrow> Inl e
              | Inr (rs, ss, c) \<Rightarrow>
                  Inr (c, rp1\<lparr>start_records := (start_records rp1)(s \<mapsto> rs), skip_refs := (skip_refs rp1)(s \<mapsto> ss)\<rparr>))"

definition RecordPolicy_OnStreamStart :: "string \<Rightarrow> RecordPolicy \<Rightarrow> RecordPolicy" where
  "RecordPolicy_OnStreamStart s rp =
     (if IsStreamExist rp s then rp
      else rp\<lparr>start_records := (start_records rp)(s \<mapsto> []), skip_refs := (skip_refs rp)(s \<mapsto> [])\<rparr>)"

text \<open>\<^verbatim>\<open>OnStreamEos\<close>: the number of remaining records stays what it was for an unknown stream.\<close>

definition RecordPolicy_OnStreamEos :: "string \<Rightarrow> u64 \<Rightarrow> RecordPolicy \<Rightarrow> u64 \<times> RecordPolicy" where
  "RecordPolicy_OnStreamEos s number_remaining rp =
     (if \<not> IsStreamExist rp s then (number_remaining, rp)
      else (of_nat (length (GetRecords rp s)),
            rp\<lparr>start_records := (start_records rp)(s := None), skip_refs := (skip_refs rp)(s := None),
               stream_max_dpb_sizes := (stream_max_dpb_sizes rp)(s := None)\<rparr>))"

subsection \<open>StreamProfiler\<close>

record StreamProfiler =
  sp_completed :: u64
  sp_latency_add_times :: u64
  sp_dropped :: u64
  sp_total_latency :: real
  sp_maximum_latency :: real
  sp_minimum_latency :: real
  sp_total_phy_time :: real
  sp_stream_name :: string

definition StreamProfiler_new :: "string \<Rightarrow> StreamProfiler" where
  "StreamProfiler_new name =
     \<lparr>sp_completed = 0, sp_latency_add_times = 0, sp_dropped = 0, sp_total_latency = 0, sp_maximum_latency = 0,
      sp_minimum_latency = Duration_max, sp_total_phy_time = 0, sp_stream_name = name\<rparr>"

definition sp_AddLatency :: "real \<Rightarrow> StreamProfiler \<Rightarrow> StreamProfiler" where
  "sp_AddLatency latency sp =
     sp\<lparr>sp_latency_add_times := sp_latency_add_times sp + 1, sp_total_latency := sp_total_latency sp + latency,
        sp_maximum_latency := max latency (sp_maximum_latency sp),
        sp_minimum_latency := min latency (sp_minimum_latency sp)\<rparr>"

definition sp_UpdatePhysicalTime :: "real \<Rightarrow> StreamProfiler \<Rightarrow> StreamProfiler" where
  "sp_UpdatePhysicalTime time sp = sp\<lparr>sp_total_phy_time := time\<rparr>"

definition sp_AddDropped :: "u64 \<Rightarrow> StreamProfiler \<Rightarrow> StreamProfiler" where
  "sp_AddDropped n sp = sp\<lparr>sp_dropped := sp_dropped sp + n\<rparr>"

definition sp_AddCompleted :: "StreamProfiler \<Rightarrow> StreamProfiler" where
  "sp_AddCompleted sp = sp\<lparr>sp_completed := sp_completed sp + 1\<rparr>"

text \<open>In the profiles \<^verbatim>\<open>dropped\<close> and \<^verbatim>\<open>ongoing\<close> are \<^verbatim>\<open>int64_t\<close>.\<close>

record StreamProfile =
  spf_stream_name :: string
  spf_counter :: u64
  spf_completed :: u64
  spf_dropped :: int
  spf_latency :: real
  spf_maximum_latency :: real
  spf_minimum_latency :: real
  spf_fps :: real

definition StreamProfiler_GetProfile :: "StreamProfiler \<Rightarrow> StreamProfile" where
  "StreamProfiler_GetProfile sp =
     \<lparr>spf_stream_name = sp_stream_name sp,
      spf_counter = sp_completed sp + sp_dropped sp,
      spf_completed = sp_completed sp,
      spf_dropped = sint (sp_dropped sp),
      spf_latency = (if sp_latency_add_times sp \<noteq> 0 then sp_total_latency sp / real (unat (sp_latency_add_times sp)) else - 1),
      spf_maximum_latency = (if sp_latency_add_times sp \<noteq> 0 then sp_maximum_latency sp else 0),
      spf_minimum_latency = (if sp_latency_add_times sp \<noteq> 0 then sp_minimum_latency sp else 0),
      spf_fps = (if sp_total_phy_time sp \<noteq> 0
                 then 1000 / sp_total_phy_time sp * real (unat (sp_completed sp + sp_dropped sp)) else - 1)\<rparr>"

subsection \<open>ProcessProfiler\<close>

datatype TraceLevel = PIPELINE | MODULE
datatype TraceType = START | END

record TraceEvent =
  te_key :: RecordKey
  te_module_name :: string
  te_process_name :: string
  te_time :: Time
  te_level :: TraceLevel
  te_type :: TraceType

record ProcessProfiler =
  pp_config :: ProfilerConfig
  pp_ongoing :: u64
  pp_dropped :: u64
  pp_completed :: u64
  pp_latency_add_times :: u64
  pp_last_record_time :: Time
  pp_total_latency :: real
  pp_maximum_latency :: real
  pp_minimum_latency :: real
  pp_total_phy_time :: real
  pp_module_name :: string
  pp_process_name :: string
  pp_policy :: RecordPolicy
  pp_trace_level :: TraceLevel
  pp_streams :: "(string \<times> StreamProfiler) list"

definition ProcessProfiler_new :: "ProfilerConfig \<Rightarrow> string \<Rightarrow> bool \<Rightarrow> ProcessProfiler" where
  "ProcessProfiler_new config name has_tracer =
     \<lparr>pp_config = (if \<not> has_tracer then config\<lparr>enable_tracing := False\<rparr> else config),
      pp_ongoing = 0, pp_dropped = 0, pp_completed = 0, pp_latency_add_times = 0, pp_last_record_time = Time_min,
      pp_total_latency = 0, pp_maximum_latency = 0, pp_minimum_latency = Duration_max, pp_total_phy_time = 0,
      pp_module_name = [], pp_process_name = name, pp_policy = RecordPolicy_new, pp_trace_level = PIPELINE,
      pp_streams = []\<rparr>"

definition pp_SetModuleName :: "string \<Rightarrow> ProcessProfiler \<Rightarrow> ProcessProfiler" where
  "pp_SetModuleName name p = p\<lparr>pp_module_name := name\<rparr>"

definition pp_SetTraceLevel :: "TraceLevel \<Rightarrow> ProcessProfiler \<Rightarrow> ProcessProfiler" where
  "pp_SetTraceLevel level p = p\<lparr>pp_trace_level := level\<rparr>"

text \<open>\<^verbatim>\<open>stream_profilers_.find(name)->second.f()\<close>, a fault without an entry.\<close>

definition upd_stream :: "string \<Rightarrow> (StreamProfiler \<Rightarrow> StreamProfiler) \<Rightarrow> ProcessProfiler \<Rightarrow> ProcessProfiler result" where
  "upd_stream s f p =
     (case map_of (pp_streams p) s of
        None \<Rightarrow> Inl NullPointer
      | Some sp \<Rightarrow> Inr (p\<lparr>pp_streams := smap_put s (f sp) (pp_streams p)\<rparr>))"

definition AddPhysicalTime :: "Time \<Rightarrow> ProcessProfiler \<Rightarrow> ProcessProfiler" where
  "AddPhysicalTime now p =
     (let total = pp_total_phy_time p + time_diff now (pp_last_record_time p)
      in p\<lparr>pp_total_phy_time := total,
           pp_streams := map (\<lambda>(s, sp). (s, sp_UpdatePhysicalTime total sp)) (pp_streams p)\<rparr>)"

definition pp_AddLatency :: "string \<Rightarrow> real \<Rightarrow> ProcessProfiler \<Rightarrow> ProcessProfiler result" where
  "pp_AddLatency s latency p =
     upd_stream s (sp_AddLatency latency)
       (p\<lparr>pp_total_latency := pp_total_latency p + latency,
          pp_maximum_latency := max latency (pp_maximum_latency p),
          pp_minimum_latency := min latency (pp_minimum_latency p),
          pp_latency_add_times := pp_latency_add_times p + 1\<rparr>)"

definition pp_AddDropped :: "string \<Rightarrow> u64 \<Rightarrow> ProcessProfiler \<Rightarrow> ProcessProfiler result" where
  "pp_AddDropped s n p = upd_stream s (sp_AddDropped n) (p\<lparr>pp_dropped := pp_dropped p + n\<rparr>)"

text \<open>\<^verbatim>\<open>emplace\<close> keeps an existing entry; the caller has checked that there is none.\<close>

definition pp_OnStreamStart :: "string \<Rightarrow> ProcessProfiler \<Rightarrow> ProcessProfiler" where
  "pp_OnStreamStart s p =
     p\<lparr>pp_streams := snd (smap_insert s (StreamProfiler_new s) (pp_streams p)),
       pp_policy := RecordPolicy_OnStreamStart s (pp_policy p)\<rparr>"

definition pp_start_if_new :: "string \<Rightarrow> ProcessProfiler \<Rightarrow> ProcessProfiler" where
  "pp_start_if_new s p = (if map_of (pp_streams p) s = None then pp_OnStreamStart s p else p)"

text \<open>\<^verbatim>\<open>RecordStart(key, time)\<close>\<close>

definition RecordStart_at :: "RecordKey \<Rightarrow> Time \<Rightarrow> ProcessProfiler \<Rightarrow> ProcessProfiler" where
  "RecordStart_at key time p =
     (let p1 = pp_start_if_new (fst key) p;
          p2 = (if pp_ongoing p1 \<noteq> 0 then AddPhysicalTime time p1 else p1)
      in p2\<lparr>pp_policy := snd (AddStartTime key time (pp_policy p2)),
            pp_last_record_time := time, pp_ongoing := pp_ongoing p2 + 1\<rparr>)"

text \<open>\<^verbatim>\<open>RecordEnd(key, time)\<close>\<close>

definition RecordEnd_at :: "RecordKey \<Rightarrow> Time \<Rightarrow> ProcessProfiler \<Rightarrow> ProcessProfiler result" where
  "RecordEnd_at key time p =
     (let s = fst key;
          p1 = pp_start_if_new s p;
          r = (case FindStartRecord (pp_policy p1) key of
                 None \<Rightarrow> Inr (if Time_min \<noteq> pp_last_record_time p1 then AddPhysicalTime time p1 else p1)
               | Some i \<Rightarrow>
                   (let p2 = (if pp_ongoing p1 \<noteq> 0 then AddPhysicalTime time p1 else p1);
                        latency = time_diff time (snd (GetRecords (pp_policy p2) s ! i))
                    in case pp_AddLatency s latency p2 of
                         Inl e \<Rightarrow> Inl e
                       | Inr p3 \<Rightarrow>
                           (case RemoveThisAndOtherUselessRecords s i (pp_policy p3) of
                              Inl e \<Rightarrow> Inl e
                            | Inr (remove_counter, rp) \<Rightarrow>
                                pp_AddDropped s (remove_counter - 1)
                                  (p3\<lparr>pp_policy := rp, pp_ongoing := pp_ongoing p3 - remove_counter\<rparr>))))
      in case r of
           Inl e \<Rightarrow> Inl e
         | Inr p4 \<Rightarrow>
             (case upd_stream s sp_AddCompleted (p4\<lparr>pp_last_record_time := time\<rparr>) of
                Inl e \<Rightarrow> Inl e
              | Inr p5 \<Rightarrow> Inr (p5\<lparr>pp_completed := pp_completed p5 + 1\<rparr>)))"

text \<open>\<^verbatim>\<open>Tracing\<close>: the event given to the tracer.\<close>

definition pp_Tracing :: "RecordKey \<Rightarrow> Time \<Rightarrow> TraceType \<Rightarrow> ProcessProfiler \<Rightarrow> TraceEvent" where
  "pp_Tracing key time type p =
     \<lparr>te_key = key, te_module_name = pp_module_name p, te_process_name = pp_process_name p, te_time = time,
      te_level = pp_trace_level p, te_type = type\<rparr>"

text \<open>The public calls at the time \<open>now\<close>: the new state and the events for the tracer.\<close>

definition RecordStart :: "RecordKey \<Rightarrow> Time \<Rightarrow> ProcessProfiler \<Rightarrow> (ProcessProfiler \<times> TraceEvent list) result" where
  "RecordStart key now p =
     (let c = pp_config p
      in if \<not> enable_tracing c \<and> \<not> enable_profiling c then Inr (p, [])
         else Inr (if enable_profiling c then RecordStart_at key now p else p,
                   if enable_tracing c then [pp_Tracing key now START p] else []))"

definition RecordEnd :: "RecordKey \<Rightarrow> Time \<Rightarrow> ProcessProfiler \<Rightarrow> (ProcessProfiler \<times> TraceEvent list) result" where
  "RecordEnd key now p =
     (let c = pp_config p;
          es = (if enable_tracing c then [pp_Tracing key now END p] else [])
      in if \<not> enable_tracing c \<and> \<not> enable_profiling c then Inr (p, [])
         else if enable_profiling c then map_sum id (\<lambda>p'. (p', es)) (RecordEnd_at key now p)
         else Inr (p, es))"

definition pp_OnStreamEos :: "string \<Rightarrow> ProcessProfiler \<Rightarrow> ProcessProfiler result" where
  "pp_OnStreamEos s p =
     (let c = pp_config p
      in if \<not> enable_tracing c \<and> \<not> enable_profiling c then Inr p
         else if map_of (pp_streams p) s = None then Inr p
         else (let (number_remaining, rp) = RecordPolicy_OnStreamEos s 0 (pp_policy p)
               in case pp_AddDropped s number_remaining (p\<lparr>pp_policy := rp\<rparr>) of
                    Inl e \<Rightarrow> Inl e
                  | Inr p1 \<Rightarrow> Inr (p1\<lparr>pp_ongoing := pp_ongoing p1 - number_remaining,
                                     pp_streams := smap_erase s (pp_streams p1)\<rparr>)))"

record ProcessProfile =
  ppf_process_name :: string
  ppf_counter :: u64
  ppf_completed :: u64
  ppf_dropped :: int
  ppf_ongoing :: int
  ppf_latency :: real
  ppf_maximum_latency :: real
  ppf_minimum_latency :: real
  ppf_fps :: real
  ppf_stream_profiles :: "StreamProfile list"

definition ProcessProfiler_GetProfile :: "ProcessProfiler \<Rightarrow> ProcessProfile" where
  "ProcessProfiler_GetProfile p =
     \<lparr>ppf_process_name = pp_process_name p,
      ppf_counter = pp_completed p + pp_dropped p,
      ppf_completed = pp_completed p,
      ppf_dropped = sint (pp_dropped p),
      ppf_ongoing = sint (pp_ongoing p),
      ppf_latency = (if pp_latency_add_times p \<noteq> 0 then pp_total_latency p / real (unat (pp_latency_add_times p)) else - 1),
      ppf_maximum_latency = (if pp_latency_add_times p \<noteq> 0 then pp_maximum_latency p else 0),
      ppf_minimum_latency = (if pp_latency_add_times p \<noteq> 0 then pp_minimum_latency p else 0),
      ppf_fps = (if pp_total_phy_time p \<noteq> 0
                 then 1000 / pp_total_phy_time p * real (unat (pp_completed p + pp_dropped p)) else - 1),
      ppf_stream_profiles = map (\<lambda>(s, sp). StreamProfiler_GetProfile sp) (pp_streams p)\<rparr>"

text \<open>\<^verbatim>\<open>GetProfile(trace)\<close> replays the trace on a fresh profiler.\<close>

record TraceElem =
  tl_key :: RecordKey
  tl_time :: Time
  tl_type :: TraceType

definition TraceElem_of :: "TraceEvent \<Rightarrow> TraceElem" where
  "TraceElem_of e = \<lparr>tl_key = te_key e, tl_time = te_time e, tl_type = te_type e\<rparr>"

fun replay :: "TraceElem list \<Rightarrow> ProcessProfiler \<Rightarrow> ProcessProfiler result" where
  "replay [] p = Inr p"
| "replay (e # es) p =
     (case tl_type e of
        START \<Rightarrow> replay es (RecordStart_at (tl_key e) (tl_time e) p)
      | END \<Rightarrow> (case RecordEnd_at (tl_key e) (tl_time e) p of Inl x \<Rightarrow> Inl x | Inr p' \<Rightarrow> replay es p'))"

definition ProcessProfiler_GetProfile_trace :: "TraceElem list \<Rightarrow> ProcessProfiler \<Rightarrow> ProcessProfile result" where
  "ProcessProfiler_GetProfile_trace trace p =
     map_sum id ProcessProfiler_GetProfile
       (replay trace (ProcessProfiler_new ProfilerConfig_new (pp_process_name p) False))"

end
