(* ===== verification/ProfilerProps.thy ===== *)
theory ProfilerProps
  imports Profiler
begin

section \<open>The counters of a process profiler\<close>

text \<open>
  \<open>pp_inv\<close>: the stream profilers, the records and the skip counters are kept for the same streams,
  the two lists of a stream have the same length, no skip counter exceeds the default size, and
  \<open>ongoing_\<close> counts the records.  No call faults.
\<close>

definition policy_inv :: "RecordPolicy \<Rightarrow> bool" where
  "policy_inv rp \<longleftrightarrow> finite (dom (start_records rp)) \<and> dom (skip_refs rp) = dom (start_records rp) \<and>
     (\<forall>s. length (GetRecords rp s) = length (skip_ref_list rp s)) \<and>
     (\<forall>s m. stream_max_dpb_sizes rp s = Some m \<longrightarrow> m = kDEFAULT_MAX_DPB_SIZE) \<and>
     (\<forall>s. \<forall>k\<in>set (skip_ref_list rp s). k \<le> kDEFAULT_MAX_DPB_SIZE)"

definition record_count :: "RecordPolicy \<Rightarrow> nat" where
  "record_count rp = (\<Sum>s\<in>dom (start_records rp). length (GetRecords rp s))"

definition pp_inv :: "ProcessProfiler \<Rightarrow> bool" where
  "pp_inv p \<longleftrightarrow> smap_ok (pp_streams p) \<and> dom (map_of (pp_streams p)) = dom (start_records (pp_policy p)) \<and>
     policy_inv (pp_policy p) \<and> pp_ongoing p = of_nat (record_count (pp_policy p))"

subsection \<open>The records of a stream\<close>

lemma record_count_upd:
  assumes "finite (dom (start_records rp))" and "s \<in> dom (start_records rp)"
  shows "record_count (rp\<lparr>start_records := (start_records rp)(s \<mapsto> rs), skip_refs := x\<rparr>) + length (GetRecords rp s) =
    record_count rp + length rs"
proof -
  let ?D = "dom (start_records rp)" and ?rp = "rp\<lparr>start_records := (start_records rp)(s \<mapsto> rs), skip_refs := x\<rparr>"
  have "dom (start_records ?rp) = ?D" using assms(2) by auto
  moreover have "(\<Sum>t\<in>?D. length (GetRecords ?rp t)) = length rs + (\<Sum>t\<in>?D - {s}. length (GetRecords rp t))"
    using assms by (subst sum.remove [of _ s]) (auto simp: GetRecords_def intro!: sum.cong)
  moreover have "record_count rp = length (GetRecords rp s) + (\<Sum>t\<in>?D - {s}. length (GetRecords rp t))"
    unfolding record_count_def using assms by (subst sum.remove [of _ s]) auto
  ultimately show ?thesis by (simp add: record_count_def)
qed

lemma find_record_bound: "find_record key rs = Some i \<Longrightarrow> i < length rs"
  by (induction rs arbitrary: i) (auto split: if_splits)

lemma remove_loop_total:
  "i < length rs \<Longrightarrow> length rs = length ss \<Longrightarrow> \<forall>k\<in>set ss. k \<le> m \<Longrightarrow>
   \<exists>rs' ss' c. remove_loop m i rs ss = Inr (rs', ss', c) \<and> length rs' = length ss' \<and>
     (\<forall>k\<in>set ss'. k \<le> m) \<and> (of_nat (length rs) :: u64) = of_nat (length rs') + c"
proof (induction i arbitrary: rs ss)
  case 0
  then obtain r rs' k ss' where "rs = r # rs'" "ss = k # ss'" by (cases rs; cases ss) auto
  with 0 show ?case by simp
next
  case (Suc i)
  then obtain r rs1 k ss1 where e: "rs = r # rs1" "ss = k # ss1" by (cases rs; cases ss) auto
  with Suc.IH [of rs1 ss1] Suc.prems obtain rs' ss' c where
    r: "remove_loop m i rs1 ss1 = Inr (rs', ss', c)" "length rs' = length ss'" "\<forall>k\<in>set ss'. k \<le> m"
      "(of_nat (length rs1) :: u64) = of_nat (length rs') + c" by auto
  show ?case
  proof (cases "k + 1 > m")
    case True
    with e r show ?thesis by (simp add: algebra_simps)
  next
    case False
    with e r show ?thesis by (simp add: not_less algebra_simps)
  qed
qed

lemma AddStartTime_inv:
  assumes "policy_inv rp" and "fst key \<in> dom (start_records rp)"
  shows "policy_inv (snd (AddStartTime key time rp)) \<and>
    dom (start_records (snd (AddStartTime key time rp))) = dom (start_records rp) \<and>
    record_count (snd (AddStartTime key time rp)) = record_count rp + 1"
proof -
  let ?s = "fst key"
  have ex: "IsStreamExist rp ?s" using assms(2) by (auto simp: IsStreamExist_def)
  have "record_count (snd (AddStartTime key time rp)) + length (GetRecords rp ?s) =
      record_count rp + length (GetRecords rp ?s @ [(key, time)])"
    using assms record_count_upd [of rp ?s] ex by (simp add: AddStartTime_def Let_def policy_inv_def)
  then have c: "record_count (snd (AddStartTime key time rp)) = record_count rp + 1" by simp
  have d: "dom (start_records (snd (AddStartTime key time rp))) = dom (start_records rp)"
    using assms(2) ex by (auto simp: AddStartTime_def Let_def)
  have "policy_inv (snd (AddStartTime key time rp))"
    using assms ex
    by (auto simp: policy_inv_def AddStartTime_def Let_def GetRecords_def skip_ref_list_def insert_absorb
        split: option.splits if_splits)
  with c d show ?thesis by blast
qed

lemma Remove_inv:
  assumes rp: "policy_inv rp" and s: "s \<in> dom (start_records rp)" and i: "i < length (GetRecords rp s)"
  shows "\<exists>c rp'. RemoveThisAndOtherUselessRecords s i rp = Inr (c, rp') \<and> policy_inv rp' \<and>
    dom (start_records rp') = dom (start_records rp) \<and>
    (of_nat (record_count rp) :: u64) = of_nat (record_count rp') + c"
proof -
  have ex: "IsStreamExist rp s" using s by (auto simp: IsStreamExist_def)
  obtain m rp1 where g: "GetStreamMaxDpbSize s rp = (m, rp1)" by fastforce
  have m: "m = kDEFAULT_MAX_DPB_SIZE" and same: "start_records rp1 = start_records rp" "skip_refs rp1 = skip_refs rp"
    and dpb: "\<forall>t n. stream_max_dpb_sizes rp1 t = Some n \<longrightarrow> n = kDEFAULT_MAX_DPB_SIZE"
    using g rp by (auto simp: GetStreamMaxDpbSize_def policy_inv_def split: option.splits if_splits)
  obtain rs ss c where r: "remove_loop m i (GetRecords rp s) (skip_ref_list rp s) = Inr (rs, ss, c)"
    "length rs = length ss" "\<forall>k\<in>set ss. k \<le> m" "(of_nat (length (GetRecords rp s)) :: u64) = of_nat (length rs) + c"
    using remove_loop_total [OF i, of "skip_ref_list rp s" m] rp m by (auto simp: policy_inv_def)
  define rp' where "rp' = rp1\<lparr>start_records := (start_records rp1)(s \<mapsto> rs), skip_refs := (skip_refs rp1)(s \<mapsto> ss)\<rparr>"
  have res: "RemoveThisAndOtherUselessRecords s i rp = Inr (c, rp')"
    using ex g r(1) by (simp add: RemoveThisAndOtherUselessRecords_def rp'_def)
  have d: "dom (start_records rp') = dom (start_records rp)" using s same by (auto simp: rp'_def)
  have recs: "GetRecords rp' t = (if t = s then rs else GetRecords rp t)"
    "skip_ref_list rp' t = (if t = s then ss else skip_ref_list rp t)" for t
    by (simp_all add: rp'_def GetRecords_def skip_ref_list_def same)
  have "dom (skip_refs rp') = dom (start_records rp')" using rp s by (auto simp: rp'_def same policy_inv_def)
  moreover have "stream_max_dpb_sizes rp' = stream_max_dpb_sizes rp1" by (simp add: rp'_def)
  ultimately have "policy_inv rp'"
    using rp r(2,3) m dpb unfolding policy_inv_def d recs by auto
  moreover have "record_count rp' + length (GetRecords rp s) = record_count rp + length rs"
    using record_count_upd [where rp = rp1 and s = s and rs = rs and x = "(skip_refs rp1)(s \<mapsto> ss)"] rp s same
    by (simp add: rp'_def policy_inv_def record_count_def GetRecords_def)
  then have "(of_nat (record_count rp' + length (GetRecords rp s)) :: u64) = of_nat (record_count rp + length rs)"
    by (simp only:)
  then have "(of_nat (record_count rp) :: u64) = of_nat (record_count rp') + c" using r(4) by simp
  ultimately show ?thesis using res d by blast
qed

lemma OnStreamStart_inv:
  assumes "policy_inv rp"
  shows "policy_inv (RecordPolicy_OnStreamStart s rp) \<and>
    dom (start_records (RecordPolicy_OnStreamStart s rp)) = insert s (dom (start_records rp)) \<and>
    record_count (RecordPolicy_OnStreamStart s rp) = record_count rp"
proof (cases "IsStreamExist rp s")
  case True
  then show ?thesis using assms by (auto simp: RecordPolicy_OnStreamStart_def IsStreamExist_def)
next
  case False
  let ?rp = "RecordPolicy_OnStreamStart s rp"
  have rp: "?rp = rp\<lparr>start_records := (start_records rp)(s \<mapsto> []), skip_refs := (skip_refs rp)(s \<mapsto> [])\<rparr>"
    using False by (simp add: RecordPolicy_OnStreamStart_def)
  have new: "s \<notin> dom (start_records rp)" using False by (auto simp: IsStreamExist_def)
  have recs: "GetRecords ?rp t = GetRecords rp t" for t
    using new by (auto simp: rp GetRecords_def domIff)
  have "s \<notin> dom (skip_refs rp)" using new assms by (simp add: policy_inv_def)
  then have skips: "skip_ref_list ?rp t = skip_ref_list rp t" for t
    by (auto simp: rp skip_ref_list_def domIff)
  have d: "dom (start_records ?rp) = insert s (dom (start_records rp))" by (auto simp: rp)
  have none: "GetRecords rp s = []" "skip_ref_list rp s = []"
    using new \<open>s \<notin> dom (skip_refs rp)\<close> by (auto simp: GetRecords_def skip_ref_list_def domIff)
  have "policy_inv ?rp" using assms unfolding policy_inv_def recs skips d by (auto simp: rp none)
  moreover have "record_count ?rp = record_count rp"
    using assms new unfolding record_count_def d recs by (simp add: policy_inv_def none)
  ultimately show ?thesis using d by blast
qed

lemma OnStreamEos_inv:
  assumes "policy_inv rp" and s: "s \<in> dom (start_records rp)"
  shows "\<exists>n rp'. RecordPolicy_OnStreamEos s k rp = (n, rp') \<and> policy_inv rp' \<and>
    dom (start_records rp') = dom (start_records rp) - {s} \<and>
    (of_nat (record_count rp) :: u64) = of_nat (record_count rp') + n"
proof -
  obtain n rp' where e: "RecordPolicy_OnStreamEos s k rp = (n, rp')" by fastforce
  have rp': "n = of_nat (length (GetRecords rp s))"
    "rp' = rp\<lparr>start_records := (start_records rp)(s := None), skip_refs := (skip_refs rp)(s := None),
       stream_max_dpb_sizes := (stream_max_dpb_sizes rp)(s := None)\<rparr>"
    using e s by (auto simp: RecordPolicy_OnStreamEos_def IsStreamExist_def)
  have recs: "GetRecords rp' t = (if t = s then [] else GetRecords rp t)"
    "skip_ref_list rp' t = (if t = s then [] else skip_ref_list rp t)" for t
    by (simp_all add: rp' GetRecords_def skip_ref_list_def)
  have d: "dom (start_records rp') = dom (start_records rp) - {s}" by (auto simp: rp'(2))
  have "policy_inv rp'" using assms unfolding policy_inv_def recs d by (auto simp: rp'(2))
  moreover have "record_count rp = length (GetRecords rp s) + record_count rp'"
    unfolding record_count_def d using assms by (subst sum.remove [of _ s]) (auto simp: policy_inv_def recs)
  ultimately show ?thesis using e d rp'(1) by (intro exI [of _ n] exI [of _ rp']) simp
qed

subsection \<open>The calls\<close>

lemma upd_stream_total:
  assumes "s \<in> dom (map_of (pp_streams p))" and "smap_ok (pp_streams p)"
  shows "\<exists>m. upd_stream s f p = Inr (p\<lparr>pp_streams := m\<rparr>) \<and> smap_ok m \<and> dom (map_of m) = dom (map_of (pp_streams p))"
proof -
  obtain sp where "map_of (pp_streams p) s = Some sp" using assms(1) by auto
  then show ?thesis using assms
    by (intro exI [of _ "smap_put s (f sp) (pp_streams p)"]) (auto simp: upd_stream_def)
qed

lemma AddPhysicalTime_frame:
  "pp_policy (AddPhysicalTime t p) = pp_policy p" "pp_ongoing (AddPhysicalTime t p) = pp_ongoing p"
  "pp_completed (AddPhysicalTime t p) = pp_completed p" "pp_dropped (AddPhysicalTime t p) = pp_dropped p"
  "pp_config (AddPhysicalTime t p) = pp_config p" "pp_last_record_time (AddPhysicalTime t p) = pp_last_record_time p"
  "map fst (pp_streams (AddPhysicalTime t p)) = map fst (pp_streams p)"
  by (simp_all add: AddPhysicalTime_def Let_def o_def case_prod_beta)

lemma keys_dom: "dom (map_of m) = set (map fst m)"
  by (simp add: dom_map_of_conv_image_fst)

lemma AddPhysicalTime_streams:
  "smap_ok (pp_streams (AddPhysicalTime t p)) = smap_ok (pp_streams p)"
  "dom (map_of (pp_streams (AddPhysicalTime t p))) = dom (map_of (pp_streams p))"
  unfolding smap_ok_def keys_dom AddPhysicalTime_frame by simp_all

lemma AddPhysicalTime_inv: "pp_inv (AddPhysicalTime t p) = pp_inv p"
  unfolding pp_inv_def AddPhysicalTime_frame AddPhysicalTime_streams by simp

text \<open>The sum of the three counters, and the fields that only the start of a stream touches.\<close>

definition pp_total :: "ProcessProfiler \<Rightarrow> u64" where
  "pp_total p = pp_completed p + pp_dropped p + pp_ongoing p"

lemma start_if_new_inv:
  assumes "pp_inv p"
  shows "pp_inv (pp_start_if_new s p) \<and> s \<in> dom (map_of (pp_streams (pp_start_if_new s p))) \<and>
    pp_total (pp_start_if_new s p) = pp_total p \<and> pp_completed (pp_start_if_new s p) = pp_completed p \<and>
    pp_config (pp_start_if_new s p) = pp_config p"
proof (cases "map_of (pp_streams p) s")
  case (Some sp)
  then show ?thesis using assms by (auto simp: pp_start_if_new_def)
next
  case None
  note o = OnStreamStart_inv [of "pp_policy p" s]
  have "pp_start_if_new s p = p\<lparr>pp_streams := smap_put s (StreamProfiler_new s) (pp_streams p),
      pp_policy := RecordPolicy_OnStreamStart s (pp_policy p)\<rparr>"
    using None by (simp add: pp_start_if_new_def pp_OnStreamStart_def smap_insert_put)
  then show ?thesis using assms o by (simp add: pp_inv_def pp_total_def)
qed

lemma RecordStart_at_inv:
  assumes "pp_inv p"
  shows "pp_inv (RecordStart_at key t p) \<and> pp_total (RecordStart_at key t p) = pp_total p + 1 \<and>
    pp_completed (RecordStart_at key t p) = pp_completed p \<and> pp_config (RecordStart_at key t p) = pp_config p"
proof -
  define p1 where "p1 = pp_start_if_new (fst key) p"
  define p2 where "p2 = (if pp_ongoing p1 \<noteq> 0 then AddPhysicalTime t p1 else p1)"
  have p1: "pp_inv p1" "fst key \<in> dom (map_of (pp_streams p1))" "pp_total p1 = pp_total p"
    "pp_completed p1 = pp_completed p" "pp_config p1 = pp_config p"
    using start_if_new_inv [OF assms] by (simp_all add: p1_def)
  have p2: "pp_inv p2" "fst key \<in> dom (start_records (pp_policy p2))" "pp_total p2 = pp_total p"
    "pp_completed p2 = pp_completed p" "pp_config p2 = pp_config p"
  proof -
    have e: "pp_policy p2 = pp_policy p1" by (simp add: p2_def AddPhysicalTime_frame)
    show "pp_inv p2" using p1(1) by (simp add: p2_def AddPhysicalTime_inv)
    show "fst key \<in> dom (start_records (pp_policy p2))" unfolding e using p1(1,2) unfolding pp_inv_def by blast
    show "pp_total p2 = pp_total p" "pp_completed p2 = pp_completed p" "pp_config p2 = pp_config p"
      using p1(3-5) by (auto simp: p2_def AddPhysicalTime_frame pp_total_def)
  qed
  have r: "RecordStart_at key t p = p2\<lparr>pp_policy := snd (AddStartTime key t (pp_policy p2)),
      pp_last_record_time := t, pp_ongoing := pp_ongoing p2 + 1\<rparr>"
    by (simp add: RecordStart_at_def Let_def p1_def p2_def)
  have "policy_inv (pp_policy p2)" using p2(1) by (simp add: pp_inv_def)
  from AddStartTime_inv [OF this p2(2), of t] p2 show ?thesis
    unfolding r by (simp add: pp_inv_def pp_total_def add.assoc)
qed

text \<open>Whether a \<^verbatim>\<open>RecordEnd\<close> finds the start of its frame.\<close>

definition end_found :: "RecordKey \<Rightarrow> ProcessProfiler \<Rightarrow> bool" where
  "end_found key p \<longleftrightarrow> FindStartRecord (pp_policy (pp_start_if_new (fst key) p)) key \<noteq> None"

lemma complete_step:
  assumes "pp_inv p" and "s \<in> dom (map_of (pp_streams p))"
  shows "\<exists>p'. (case upd_stream s sp_AddCompleted (p\<lparr>pp_last_record_time := t\<rparr>) of
      Inl e \<Rightarrow> Inl e | Inr p5 \<Rightarrow> Inr (p5\<lparr>pp_completed := pp_completed p5 + 1\<rparr>)) = Inr p' \<and>
    pp_inv p' \<and> pp_total p' = pp_total p + 1 \<and> pp_completed p' = pp_completed p + 1 \<and> pp_config p' = pp_config p"
proof -
  have ok: "smap_ok (pp_streams p)" using assms(1) by (simp add: pp_inv_def)
  obtain m where m: "upd_stream s sp_AddCompleted (p\<lparr>pp_last_record_time := t\<rparr>) =
      Inr (p\<lparr>pp_last_record_time := t, pp_streams := m\<rparr>)" "smap_ok m" "dom (map_of m) = dom (map_of (pp_streams p))"
    using upd_stream_total [of s "p\<lparr>pp_last_record_time := t\<rparr>" sp_AddCompleted] assms(2) ok by auto
  then show ?thesis using assms(1) by (simp add: pp_inv_def pp_total_def)
qed

lemma RecordEnd_at_found:
  assumes "FindStartRecord (pp_policy (pp_start_if_new (fst key) p)) key = Some i"
    and "p2 = (if pp_ongoing (pp_start_if_new (fst key) p) \<noteq> 0 then AddPhysicalTime t (pp_start_if_new (fst key) p)
         else pp_start_if_new (fst key) p)"
    and "pp_AddLatency (fst key) (time_diff t (snd (GetRecords (pp_policy p2) (fst key) ! i))) p2 = Inr p3"
    and "RemoveThisAndOtherUselessRecords (fst key) i (pp_policy p3) = Inr (c, rp')"
    and "pp_AddDropped (fst key) (c - 1) (p3\<lparr>pp_policy := rp', pp_ongoing := pp_ongoing p3 - c\<rparr>) = Inr p4"
  shows "RecordEnd_at key t p = (case upd_stream (fst key) sp_AddCompleted (p4\<lparr>pp_last_record_time := t\<rparr>) of
        Inl e \<Rightarrow> Inl e | Inr p5 \<Rightarrow> Inr (p5\<lparr>pp_completed := pp_completed p5 + 1\<rparr>))"
  unfolding RecordEnd_at_def Let_def assms(1) option.case assms(2) [symmetric] assms(3) sum.case assms(4) prod.case assms(5) ..

lemma RecordEnd_at_inv:
  assumes "pp_inv p"
  shows "\<exists>p'. RecordEnd_at key t p = Inr p' \<and> pp_inv p' \<and>
    pp_total p' = pp_total p + (if end_found key p then 0 else 1) \<and> pp_completed p' = pp_completed p + 1 \<and>
    pp_config p' = pp_config p"
proof -
  let ?s = "fst key"
  define p1 where "p1 = pp_start_if_new ?s p"
  have p1: "pp_inv p1" "?s \<in> dom (map_of (pp_streams p1))" "pp_total p1 = pp_total p"
    "pp_completed p1 = pp_completed p" "pp_config p1 = pp_config p"
    using start_if_new_inv [OF assms] by (simp_all add: p1_def)
  show ?thesis
  proof (cases "FindStartRecord (pp_policy p1) key")
    case None
    define p4 where "p4 = (if Time_min \<noteq> pp_last_record_time p1 then AddPhysicalTime t p1 else p1)"
    have p4: "pp_inv p4" "?s \<in> dom (map_of (pp_streams p4))" "pp_total p4 = pp_total p"
      "pp_completed p4 = pp_completed p" "pp_config p4 = pp_config p"
      using p1 by (auto simp: p4_def AddPhysicalTime_inv AddPhysicalTime_frame AddPhysicalTime_streams pp_total_def)
    have "RecordEnd_at key t p = (case upd_stream ?s sp_AddCompleted (p4\<lparr>pp_last_record_time := t\<rparr>) of
        Inl e \<Rightarrow> Inl e | Inr p5 \<Rightarrow> Inr (p5\<lparr>pp_completed := pp_completed p5 + 1\<rparr>))"
      using None by (simp add: RecordEnd_at_def Let_def p1_def p4_def)
    with complete_step [OF p4(1,2), of t] p4 None show ?thesis by (auto simp: end_found_def p1_def)
  next
    case (Some i)
    define p2 where "p2 = (if pp_ongoing p1 \<noteq> 0 then AddPhysicalTime t p1 else p1)"
    have p2: "pp_inv p2" "?s \<in> dom (map_of (pp_streams p2))" "pp_total p2 = pp_total p" "pp_policy p2 = pp_policy p1"
      "pp_completed p2 = pp_completed p" "pp_config p2 = pp_config p"
      using p1 by (auto simp: p2_def AddPhysicalTime_inv AddPhysicalTime_frame AddPhysicalTime_streams pp_total_def)
    let ?lat = "time_diff t (snd (GetRecords (pp_policy p2) ?s ! i))"
    define q2 where "q2 = p2\<lparr>pp_total_latency := pp_total_latency p2 + ?lat,
          pp_maximum_latency := max ?lat (pp_maximum_latency p2),
          pp_minimum_latency := min ?lat (pp_minimum_latency p2),
          pp_latency_add_times := pp_latency_add_times p2 + 1\<rparr>"
    obtain m where m: "upd_stream ?s (sp_AddLatency ?lat) q2 = Inr (q2\<lparr>pp_streams := m\<rparr>)" "smap_ok m"
      "dom (map_of m) = dom (map_of (pp_streams p2))"
      using upd_stream_total [of ?s q2 "sp_AddLatency ?lat"] p2(1,2) by (auto simp: q2_def pp_inv_def)
    define p3 where "p3 = q2\<lparr>pp_streams := m\<rparr>"
    have lat: "pp_AddLatency ?s ?lat p2 = Inr p3" using m(1) by (simp add: pp_AddLatency_def q2_def p3_def)
    have p3: "pp_policy p3 = pp_policy p1" "pp_ongoing p3 = pp_ongoing p2" "pp_dropped p3 = pp_dropped p2"
      "pp_completed p3 = pp_completed p" "pp_config p3 = pp_config p" "pp_streams p3 = m"
      using p2 by (simp_all add: p3_def q2_def)
    have s: "?s \<in> dom (start_records (pp_policy p1))" and rp: "policy_inv (pp_policy p1)"
      using p1(1,2) by (simp_all add: pp_inv_def)
    have "i < length (GetRecords (pp_policy p1) ?s)"
      using Some find_record_bound by (auto simp: FindStartRecord_def split: if_splits)
    from Remove_inv [OF rp s this] obtain c rp' where
      r: "RemoveThisAndOtherUselessRecords ?s i (pp_policy p1) = Inr (c, rp')" "policy_inv rp'"
        "dom (start_records rp') = dom (start_records (pp_policy p1))"
        "(of_nat (record_count (pp_policy p1)) :: u64) = of_nat (record_count rp') + c" by blast
    define q3 where "q3 = p3\<lparr>pp_policy := rp', pp_ongoing := pp_ongoing p3 - c, pp_dropped := pp_dropped p3 + (c - 1)\<rparr>"
    obtain m' where m': "upd_stream ?s (sp_AddDropped (c - 1)) q3 = Inr (q3\<lparr>pp_streams := m'\<rparr>)" "smap_ok m'"
      "dom (map_of m') = dom (map_of m)"
      using upd_stream_total [of ?s q3 "sp_AddDropped (c - 1)"] p2(2) m(2,3) by (auto simp: q3_def p3)
    define p4 where "p4 = q3\<lparr>pp_streams := m'\<rparr>"
    have "pp_ongoing p3 - c = of_nat (record_count rp')"
      using p2(1,4) r(4) by (simp add: p3 pp_inv_def)
    then have p4: "pp_inv p4" "?s \<in> dom (map_of (pp_streams p4))"
      using m' m(3) p2(1,2,4) r(2,3) by (simp_all add: p4_def q3_def pp_inv_def)
    have total: "pp_total p4 = pp_total p - 1" "pp_completed p4 = pp_completed p" "pp_config p4 = pp_config p"
      using p2(3,5) by (simp_all add: p4_def q3_def p3 pp_total_def algebra_simps)
    have "pp_AddDropped ?s (c - 1) (p3\<lparr>pp_policy := rp', pp_ongoing := pp_ongoing p3 - c\<rparr>) = Inr p4"
      using m'(1) by (simp add: pp_AddDropped_def q3_def p4_def)
    then have "RecordEnd_at key t p = (case upd_stream ?s sp_AddCompleted (p4\<lparr>pp_last_record_time := t\<rparr>) of
        Inl e \<Rightarrow> Inl e | Inr p5 \<Rightarrow> Inr (p5\<lparr>pp_completed := pp_completed p5 + 1\<rparr>))"
      using RecordEnd_at_found [where p = p and key = key and ?p2.0 = p2 and ?p3.0 = p3 and ?p4.0 = p4, folded p1_def] Some p2_def lat r(1) p3(1) by simp
    with complete_step [OF p4, of t] total Some show ?thesis by (auto simp: end_found_def p1_def)
  qed
qed

lemma pp_OnStreamEos_inv:
  assumes "pp_inv p"
  shows "\<exists>p'. pp_OnStreamEos s p = Inr p' \<and> pp_inv p' \<and> pp_total p' = pp_total p \<and>
    pp_completed p' = pp_completed p \<and> pp_config p' = pp_config p"
proof (cases "(\<not> enable_tracing (pp_config p) \<and> \<not> enable_profiling (pp_config p)) \<or> map_of (pp_streams p) s = None")
  case True
  then show ?thesis using assms by (auto simp: pp_OnStreamEos_def Let_def)
next
  case False
  then have dom: "s \<in> dom (map_of (pp_streams p))" by auto
  from assms have rp: "policy_inv (pp_policy p)" "s \<in> dom (start_records (pp_policy p))" and ok: "smap_ok (pp_streams p)"
    and d: "dom (map_of (pp_streams p)) = dom (start_records (pp_policy p))"
    and on: "pp_ongoing p = of_nat (record_count (pp_policy p))"
    using dom by (simp_all add: pp_inv_def)
  from OnStreamEos_inv [OF rp, of 0] obtain n rp' where
    e: "RecordPolicy_OnStreamEos s 0 (pp_policy p) = (n, rp')" "policy_inv rp'"
      "dom (start_records rp') = dom (start_records (pp_policy p)) - {s}"
      "(of_nat (record_count (pp_policy p)) :: u64) = of_nat (record_count rp') + n" by blast
  define q where "q = p\<lparr>pp_policy := rp', pp_dropped := pp_dropped p + n\<rparr>"
  obtain m where m: "upd_stream s (sp_AddDropped n) q = Inr (q\<lparr>pp_streams := m\<rparr>)" "smap_ok m"
    "dom (map_of m) = dom (map_of (pp_streams p))"
    using upd_stream_total [of s q "sp_AddDropped n"] dom ok by (auto simp: q_def)
  define p1 where "p1 = q\<lparr>pp_streams := m\<rparr>"
  have "pp_AddDropped s n (p\<lparr>pp_policy := rp'\<rparr>) = Inr p1" using m(1) by (simp add: pp_AddDropped_def q_def p1_def)
  then have r: "pp_OnStreamEos s p = Inr (p1\<lparr>pp_ongoing := pp_ongoing p1 - n, pp_streams := smap_erase s m\<rparr>)"
    using False e(1) by (auto simp: pp_OnStreamEos_def Let_def p1_def)
  have on': "pp_ongoing p - n = of_nat (record_count rp')" using on e(4) by simp
  have "dom (map_of (smap_erase s m)) = dom (start_records rp')" using e(3) m(2,3) d by auto
  then show ?thesis unfolding r using e(2) m(2) on' by (auto simp: p1_def q_def pp_inv_def pp_total_def algebra_simps)
qed

subsection \<open>Sequences of calls\<close>

datatype Call = CallStart RecordKey Time | CallEnd RecordKey Time | CallEos string

fun run_call :: "Call \<Rightarrow> ProcessProfiler \<Rightarrow> (ProcessProfiler \<times> TraceEvent list) result" where
  "run_call (CallStart key t) p = RecordStart key t p"
| "run_call (CallEnd key t) p = RecordEnd key t p"
| "run_call (CallEos s) p = map_sum id (\<lambda>p'. (p', [])) (pp_OnStreamEos s p)"

fun run_calls :: "Call list \<Rightarrow> ProcessProfiler \<Rightarrow> (ProcessProfiler \<times> TraceEvent list) result" where
  "run_calls [] p = Inr (p, [])"
| "run_calls (c # cs) p =
     (case run_call c p of
        Inl e \<Rightarrow> Inl e
      | Inr (p', es) \<Rightarrow> map_sum id (\<lambda>(p2, es2). (p2, es @ es2)) (run_calls cs p'))"

definition starts :: "Call list \<Rightarrow> nat" where
  "starts cs = length [c \<leftarrow> cs. case c of CallStart _ _ \<Rightarrow> True | _ \<Rightarrow> False]"

definition ends :: "Call list \<Rightarrow> nat" where
  "ends cs = length [c \<leftarrow> cs. case c of CallEnd _ _ \<Rightarrow> True | _ \<Rightarrow> False]"

text \<open>The ends that did not find the start of their frame.\<close>

fun unmatched_ends :: "Call list \<Rightarrow> ProcessProfiler \<Rightarrow> nat" where
  "unmatched_ends [] p = 0"
| "unmatched_ends (c # cs) p =
     (case c of CallEnd key t \<Rightarrow> (if end_found key p then 0 else 1) | _ \<Rightarrow> 0) +
     (case run_call c p of Inl e \<Rightarrow> 0 | Inr (p', es) \<Rightarrow> unmatched_ends cs p')"

lemma run_call_inv:
  assumes "pp_inv p" and "enable_profiling (pp_config p)"
  shows "\<exists>p' es. run_call c p = Inr (p', es) \<and> pp_inv p' \<and> pp_config p' = pp_config p \<and>
    pp_completed p' = pp_completed p + of_nat (ends [c]) \<and>
    pp_total p' = pp_total p + of_nat (starts [c] + (case c of CallEnd key t \<Rightarrow> (if end_found key p then 0 else 1) | _ \<Rightarrow> 0))"
proof (cases c)
  case (CallStart key t)
  then show ?thesis using RecordStart_at_inv [OF assms(1), of key t] assms(2)
    by (simp add: RecordStart_def Let_def starts_def ends_def)
next
  case (CallEnd key t)
  obtain p' where "RecordEnd_at key t p = Inr p'" "pp_inv p'"
    "pp_total p' = pp_total p + (if end_found key p then 0 else 1)" "pp_completed p' = pp_completed p + 1"
    "pp_config p' = pp_config p"
    using RecordEnd_at_inv [OF assms(1), of key t] by blast
  then show ?thesis using CallEnd assms(2)
    by (simp add: RecordEnd_def Let_def starts_def ends_def)
next
  case (CallEos s)
  then show ?thesis using pp_OnStreamEos_inv [OF assms(1), of s] by (auto simp: starts_def ends_def)
qed

lemma starts_ends_Cons:
  "starts (c # cs) = starts [c] + starts cs" "ends (c # cs) = ends [c] + ends cs"
  by (simp_all add: starts_def ends_def)

lemma run_calls_inv:
  assumes "pp_inv p" and "enable_profiling (pp_config p)"
  shows "\<exists>p' es. run_calls cs p = Inr (p', es) \<and> pp_inv p' \<and>
    pp_completed p' = pp_completed p + of_nat (ends cs) \<and>
    pp_total p' = pp_total p + of_nat (starts cs + unmatched_ends cs p)"
  using assms
proof (induction cs arbitrary: p)
  case Nil
  then show ?case by (simp add: starts_def ends_def)
next
  case (Cons c cs)
  obtain p1 es where c: "run_call c p = Inr (p1, es)" "pp_inv p1" "pp_config p1 = pp_config p"
    "pp_completed p1 = pp_completed p + of_nat (ends [c])"
    "pp_total p1 = pp_total p + of_nat (starts [c] + (case c of CallEnd key t \<Rightarrow> (if end_found key p then 0 else 1) | _ \<Rightarrow> 0))"
    using run_call_inv [OF Cons.prems, of c] by blast
  obtain p2 es2 where "run_calls cs p1 = Inr (p2, es2)" "pp_inv p2"
    "pp_completed p2 = pp_completed p1 + of_nat (ends cs)"
    "pp_total p2 = pp_total p1 + of_nat (starts cs + unmatched_ends cs p1)"
    using Cons.IH [of p1] c(2,3) Cons.prems(2) by auto
  then show ?case using c unfolding starts_ends_Cons [of c cs] by (simp add: algebra_simps)
qed

lemma new_inv: "pp_inv (ProcessProfiler_new config name has_tracer)"
  by (simp add: pp_inv_def ProcessProfiler_new_def policy_inv_def RecordPolicy_new_def record_count_def GetRecords_def
      skip_ref_list_def smap_ok_def)

text \<open>C32. Counting with a process profiler.  From a new profiler with profiling enabled, any sequence of
  \<^verbatim>\<open>RecordStart\<close>, \<^verbatim>\<open>RecordEnd\<close> and \<^verbatim>\<open>OnStreamEos\<close> calls runs without a fault: \<^verbatim>\<open>ongoing_\<close> is the number of
  start records kept, \<^verbatim>\<open>completed_\<close> the number of \<^verbatim>\<open>RecordEnd\<close> calls, and completed, dropped and ongoing
  frames together are the frames started plus the ends whose start was not found.  No frame has been
  passed by more than 16 later ones of its stream and is still kept.\<close>

theorem profiler_counts:
  assumes "enable_profiling config"
  shows "\<exists>p es. run_calls calls (ProcessProfiler_new config name has_tracer) = Inr (p, es) \<and>
    pp_ongoing p = of_nat (record_count (pp_policy p)) \<and>
    pp_completed p = of_nat (ends calls) \<and>
    pp_completed p + pp_dropped p + pp_ongoing p =
      of_nat (starts calls + unmatched_ends calls (ProcessProfiler_new config name has_tracer)) \<and>
    list_all (\<lambda>s. list_all (\<lambda>k. k \<le> kDEFAULT_MAX_DPB_SIZE) (skip_ref_list (pp_policy p) s)) (map fst (pp_streams p))"
proof -
  let ?p = "ProcessProfiler_new config name has_tracer"
  have "enable_profiling (pp_config ?p)" "pp_completed ?p = 0" "pp_total ?p = 0"
    using assms by (simp_all add: ProcessProfiler_new_def pp_total_def)
  with run_calls_inv [OF new_inv, of config name has_tracer calls] obtain p es where
    r: "run_calls calls ?p = Inr (p, es)" "pp_inv p" "pp_completed p = of_nat (ends calls)"
      "pp_total p = of_nat (starts calls + unmatched_ends calls ?p)" by auto
  then have "pp_ongoing p = of_nat (record_count (pp_policy p))" "policy_inv (pp_policy p)"
    by (simp_all add: pp_inv_def)
  with r show ?thesis
    by (intro exI [of _ p] exI [of _ es]) (simp add: pp_total_def policy_inv_def list_all_iff)
qed

theorem profiler_counts_witness:
  "enable_profiling (ProfilerConfig_new\<lparr>enable_profiling := True\<rparr>) \<and>
   (\<exists>p es. run_calls [CallStart (''s'', 1) 5, CallStart (''s'', 2) 6, CallEnd (''s'', 2) 9, CallEnd (''s'', 3) 10]
       (ProcessProfiler_new (ProfilerConfig_new\<lparr>enable_profiling := True\<rparr>) ''PROCESS'' True) = Inr (p, es) \<and>
     pp_ongoing p = of_nat (record_count (pp_policy p)) \<and> pp_completed p = 2)"
proof -
  let ?c = "ProfilerConfig_new\<lparr>enable_profiling := True\<rparr>"
  let ?calls = "[CallStart (''s'', 1) 5, CallStart (''s'', 2) 6, CallEnd (''s'', 2) 9, CallEnd (''s'', 3) 10]"
  have e: "ends ?calls = 2" by (simp add: ends_def)
  have c: "enable_profiling ?c" by simp
  from profiler_counts [OF c, of ?calls "''PROCESS''" True] e show ?thesis by auto
qed

subsection \<open>Replaying a trace\<close>

text \<open>What a profiler is apart from its configuration and its labels in the trace; no step reads them.\<close>

definition relabel :: "ProfilerConfig \<Rightarrow> string \<Rightarrow> TraceLevel \<Rightarrow> ProcessProfiler \<Rightarrow> ProcessProfiler" where
  "relabel c m l p = p\<lparr>pp_config := c, pp_module_name := m, pp_trace_level := l\<rparr>"

lemma relabel_fields:
  "pp_policy (relabel c m l p) = pp_policy p" "pp_ongoing (relabel c m l p) = pp_ongoing p"
  "pp_completed (relabel c m l p) = pp_completed p" "pp_dropped (relabel c m l p) = pp_dropped p"
  "pp_streams (relabel c m l p) = pp_streams p" "pp_last_record_time (relabel c m l p) = pp_last_record_time p"
  "pp_config (relabel c m l p) = c" "pp_module_name (relabel c m l p) = m" "pp_trace_level (relabel c m l p) = l"
  "pp_process_name (relabel c m l p) = pp_process_name p"
  by (simp_all add: relabel_def)

lemma relabel_parts:
  "upd_stream s f (relabel c m l p) = map_sum id (relabel c m l) (upd_stream s f p)"
  "AddPhysicalTime t (relabel c m l p) = relabel c m l (AddPhysicalTime t p)"
  "pp_start_if_new s (relabel c m l p) = relabel c m l (pp_start_if_new s p)"
  by (simp_all add: relabel_def upd_stream_def AddPhysicalTime_def Let_def pp_start_if_new_def pp_OnStreamStart_def
      split: option.split)

lemma relabel_counters:
  "pp_AddLatency s lat (relabel c m l p) = map_sum id (relabel c m l) (pp_AddLatency s lat p)"
  "pp_AddDropped s n (relabel c m l p) = map_sum id (relabel c m l) (pp_AddDropped s n p)"
  by (simp_all add: pp_AddLatency_def pp_AddDropped_def relabel_def upd_stream_def split: option.split)

lemma relabel_upd:
  "(relabel c m l p)\<lparr>pp_policy := rp\<rparr> = relabel c m l (p\<lparr>pp_policy := rp\<rparr>)"
  "(relabel c m l p)\<lparr>pp_ongoing := n\<rparr> = relabel c m l (p\<lparr>pp_ongoing := n\<rparr>)"
  "(relabel c m l p)\<lparr>pp_completed := n\<rparr> = relabel c m l (p\<lparr>pp_completed := n\<rparr>)"
  "(relabel c m l p)\<lparr>pp_last_record_time := t\<rparr> = relabel c m l (p\<lparr>pp_last_record_time := t\<rparr>)"
  by (simp_all add: relabel_def)

lemma relabel_Start: "RecordStart_at key t (relabel c m l p) = relabel c m l (RecordStart_at key t p)"
  by (simp add: RecordStart_at_def Let_def relabel_parts relabel_fields relabel_upd)

lemma sum_case_map: "(case map_sum id f x of Inl e \<Rightarrow> a e | Inr y \<Rightarrow> b y) = (case x of Inl e \<Rightarrow> a e | Inr y \<Rightarrow> b (f y))"
  by (cases x) auto

lemma relabel_End: "RecordEnd_at key t (relabel c m l p) = map_sum id (relabel c m l) (RecordEnd_at key t p)"
  by (simp add: RecordEnd_at_def Let_def relabel_parts relabel_fields relabel_upd relabel_counters sum_case_map
      split: option.split sum.split prod.split)

lemma relabel_replay: "replay es (relabel c m l p) = map_sum id (relabel c m l) (replay es p)"
  by (induction es arbitrary: p) (simp_all add: relabel_Start relabel_End sum_case_map split: TraceType.split sum.split)

lemma relabel_profile: "ProcessProfiler_GetProfile (relabel c m l p) = ProcessProfiler_GetProfile p"
  by (simp add: relabel_def ProcessProfiler_GetProfile_def)

lemma replay_append:
  "replay (es @ es') p = (case replay es p of Inl x \<Rightarrow> Inl x | Inr q \<Rightarrow> replay es' q)"
  by (induction es arbitrary: p) (simp_all split: TraceType.split sum.split)

text \<open>
  \<open>traced c m l n es p\<close>: the profiler \<open>p\<close> of the process \<open>n\<close> is what the replay of its events \<open>es\<close> gives,
  under its own labels.
\<close>

definition traced :: "ProfilerConfig \<Rightarrow> string \<Rightarrow> TraceLevel \<Rightarrow> string \<Rightarrow> TraceEvent list \<Rightarrow> ProcessProfiler \<Rightarrow> bool" where
  "traced c m l n es p \<longleftrightarrow> enable_profiling c \<and> enable_tracing c \<and> pp_inv p \<and> pp_process_name p = n \<and> (pp_streams p = [] \<longleftrightarrow> es = []) \<and>
     list_all (\<lambda>e. te_module_name e = m \<and> te_process_name e = n \<and> te_level e = l) es \<and>
     map_sum id (relabel c m l) (replay (map TraceElem_of es) (ProcessProfiler_new ProfilerConfig_new n False)) = Inr p"

lemma traced_new:
  assumes "enable_profiling c" "enable_tracing c"
  shows "traced c m l n [] (pp_SetTraceLevel l (pp_SetModuleName m (ProcessProfiler_new c n True)))"
proof -
  have e: "pp_SetTraceLevel l (pp_SetModuleName m (ProcessProfiler_new c n True)) =
      relabel c m l (ProcessProfiler_new ProfilerConfig_new n False)"
    by (simp add: pp_SetTraceLevel_def pp_SetModuleName_def ProcessProfiler_new_def relabel_def ProfilerConfig_new_def)
  have "pp_inv (relabel c m l (ProcessProfiler_new ProfilerConfig_new n False))"
    using new_inv [of ProfilerConfig_new n False] unfolding pp_inv_def relabel_fields .
  then show ?thesis
    using assms unfolding traced_def e by (simp add: relabel_fields) (simp add: ProcessProfiler_new_def)
qed

lemma traced_relabel: "traced c m l n es p \<Longrightarrow> relabel c m l p = p"
  unfolding traced_def by (cases "replay (map TraceElem_of es) (ProcessProfiler_new ProfilerConfig_new n False)")
    (auto simp: relabel_def)

lemma traced_labels:
  assumes "traced c m l n es p"
  shows "pp_config p = c" "pp_module_name p = m" "pp_trace_level p = l" "pp_process_name p = n"
proof -
  from traced_relabel [OF assms] have "p = relabel c m l p" by (rule sym)
  then show "pp_config p = c" "pp_module_name p = m" "pp_trace_level p = l" by (metis relabel_fields)+
qed (use assms in \<open>simp add: traced_def\<close>)

lemma traced_replay:
  assumes "traced c m l n es p"
  obtains q where "replay (map TraceElem_of es) (ProcessProfiler_new ProfilerConfig_new n False) = Inr q"
    "p = relabel c m l q"
  using assms unfolding traced_def
  by (cases "replay (map TraceElem_of es) (ProcessProfiler_new ProfilerConfig_new n False)") auto

lemma process_name_kept:
  "pp_process_name (RecordStart_at key t p) = pp_process_name p"
  "RecordEnd_at key t p = Inr p' \<Longrightarrow> pp_process_name p' = pp_process_name p"
proof -
  have s: "pp_process_name (pp_start_if_new s q) = pp_process_name q" "pp_process_name (AddPhysicalTime t q) = pp_process_name q" for s q
    by (simp_all add: pp_start_if_new_def pp_OnStreamStart_def AddPhysicalTime_def Let_def)
  have u: "pp_process_name q' = pp_process_name q" if "upd_stream s f q = Inr q'" for s f q q'
    using that by (auto simp: upd_stream_def split: option.splits)
  have l: "pp_process_name q' = pp_process_name q" if "pp_AddLatency s lat q = Inr q'" for s lat q q'
    using u that unfolding pp_AddLatency_def by fastforce
  have d: "pp_process_name q' = pp_process_name q" if "pp_AddDropped s k q = Inr q'" for s k q q'
    using u that unfolding pp_AddDropped_def by fastforce
  show "pp_process_name (RecordStart_at key t p) = pp_process_name p"
    by (simp add: RecordStart_at_def Let_def s)
  show "pp_process_name p' = pp_process_name p" if "RecordEnd_at key t p = Inr p'"
    using that unfolding RecordEnd_at_def Let_def
    by (auto split: option.splits sum.splits if_splits dest!: u l d simp: s)
qed

lemma streams_kept:
  "pp_streams (RecordStart_at key t p) \<noteq> []"
  "RecordEnd_at key t p = Inr p' \<Longrightarrow> pp_streams p' \<noteq> []"
proof -
  have put: "smap_put k v m \<noteq> []" for k :: string and v :: StreamProfiler and m
    using map_of_smap_put [of k v m] by (metis map_of.simps(1) map_upd_nonempty)
  have "pp_streams (pp_start_if_new s p) \<noteq> []" for s
    by (auto simp: pp_start_if_new_def pp_OnStreamStart_def smap_insert_put put)
  then show "pp_streams (RecordStart_at key t p) \<noteq> []"
    using AddPhysicalTime_frame(7) by (auto simp: RecordStart_at_def Let_def) (metis map_is_Nil_conv)
  show "pp_streams p' \<noteq> []" if "RecordEnd_at key t p = Inr p'"
    using that unfolding RecordEnd_at_def Let_def
    by (auto simp: upd_stream_def [of _ sp_AddCompleted] put split: option.splits sum.splits if_splits)
qed

lemma traced_Start:
  assumes "traced c m l n es p"
  shows "\<exists>p' e. RecordStart key t p = Inr (p', [e]) \<and> te_time e = t \<and> traced c m l n (es @ [e]) p'"
proof -
  note lab = traced_labels [OF assms]
  from traced_replay [OF assms] obtain q where
    q: "replay (map TraceElem_of es) (ProcessProfiler_new ProfilerConfig_new n False) = Inr q" "p = relabel c m l q" .
  have "RecordStart key t p = Inr (RecordStart_at key t p, [pp_Tracing key t START p])"
    using assms lab by (simp add: RecordStart_def Let_def traced_def)
  moreover have "traced c m l n (es @ [pp_Tracing key t START p]) (RecordStart_at key t p)"
    using assms RecordStart_at_inv [of p key t] q(1) lab
    by (simp add: traced_def replay_append streams_kept TraceElem_of_def pp_Tracing_def process_name_kept)
      (simp add: q(2) relabel_Start)
  ultimately show ?thesis by (auto simp: pp_Tracing_def)
qed

lemma traced_End:
  assumes "traced c m l n es p"
  shows "\<exists>p' e. RecordEnd key t p = Inr (p', [e]) \<and> te_time e = t \<and> traced c m l n (es @ [e]) p'"
proof -
  note lab = traced_labels [OF assms]
  from traced_replay [OF assms] obtain q where
    q: "replay (map TraceElem_of es) (ProcessProfiler_new ProfilerConfig_new n False) = Inr q" "p = relabel c m l q" .
  obtain p' where p': "RecordEnd_at key t p = Inr p'" "pp_inv p'"
    using RecordEnd_at_inv [of p key t] assms by (auto simp: traced_def)
  have "RecordEnd key t p = Inr (p', [pp_Tracing key t END p])"
    using assms lab p'(1) by (simp add: RecordEnd_def Let_def traced_def)
  moreover obtain q' where "RecordEnd_at key t q = Inr q'" "p' = relabel c m l q'"
    using p'(1) unfolding q(2) relabel_End by (cases "RecordEnd_at key t q") auto
  then have "traced c m l n (es @ [pp_Tracing key t END p]) p'"
    using assms p'(2) q(1) lab process_name_kept(2) [OF p'(1)] streams_kept(2) [OF p'(1)]
    by (simp add: traced_def replay_append TraceElem_of_def pp_Tracing_def)
  ultimately show ?thesis by (auto simp: pp_Tracing_def)
qed

lemma traced_profile:
  assumes "traced c m l n es p"
  shows "ProcessProfiler_GetProfile_trace (map TraceElem_of es) p = Inr (ProcessProfiler_GetProfile p)"
  using traced_replay [OF assms] traced_labels(4) [OF assms]
  unfolding ProcessProfiler_GetProfile_trace_def by (metis id_apply map_sum.simps(2) relabel_profile)

end
