(* ===== verification/Tracing.thy ===== *)
theory Tracing
  imports CircularBuffer Profiler
begin

section \<open>The tracer and the profilers of modules and of the pipeline\<close>

text \<open>
  \<^verbatim>\<open>framework/src/profiler/pipeline_tracer.cpp\<close>, \<^verbatim>\<open>module_profiler.cpp\<close> and \<^verbatim>\<open>pipeline_profiler.cpp\<close>.
  The time of a call is an argument.  An operation that records an event has the value \<open>None\<close> when a
  slot of the tracer's buffer stays busy.  The process profilers of a pipeline share its tracer.
\<close>

subsection \<open>PipelineTracer\<close>

record PipelineTracer =
  pt_buffer :: "TraceEvent CircularBuffer"

definition TraceEvent_new :: TraceEvent where
  "TraceEvent_new = \<lparr>te_key = ([], 0), te_module_name = [], te_process_name = [], te_time = 0, te_level = PIPELINE, te_type = START\<rparr>"

text \<open>The size \<open>sz\<close> is what the buffer's constructor computes in doubles from the capacity and the margin.\<close>

definition PipelineTracer_new :: "u64 \<Rightarrow> u64 \<Rightarrow> PipelineTracer" where
  "PipelineTracer_new capacity sz = \<lparr>pt_buffer = CircularBuffer_new TraceEvent_new capacity sz\<rparr>"

definition RecordEvent :: "TraceEvent \<Rightarrow> PipelineTracer \<Rightarrow> PipelineTracer option" where
  "RecordEvent e t = map_option (\<lambda>b. \<lparr>pt_buffer = b\<rparr>) (push_back e (pt_buffer t))"

primrec RecordEvents :: "TraceEvent list \<Rightarrow> PipelineTracer \<Rightarrow> PipelineTracer option" where
  "RecordEvents [] t = Some t"
| "RecordEvents (e # es) t = (case RecordEvent e t of None \<Rightarrow> None | Some t' \<Rightarrow> RecordEvents es t')"

type_synonym ProcessTrace = "TraceElem list"
type_synonym ModuleTrace = "(string \<times> ProcessTrace) list"

record PipelineTrace =
  process_traces :: "(string \<times> ProcessTrace) list"
  module_traces :: "(string \<times> ModuleTrace) list"

definition PipelineTrace_new :: PipelineTrace where
  "PipelineTrace_new = \<lparr>process_traces = [], module_traces = []\<rparr>"

text \<open>\<^verbatim>\<open>m[k]\<close> of a map whose default value is the empty container, and \<^verbatim>\<open>m[k].emplace_back(x)\<close>\<close>

definition get_or_empty :: "string \<Rightarrow> (string \<times> 'a list) list \<Rightarrow> 'a list" where
  "get_or_empty k m = (case map_of m k of None \<Rightarrow> [] | Some xs \<Rightarrow> xs)"

definition emplace_in :: "string \<Rightarrow> 'a \<Rightarrow> (string \<times> 'a list) list \<Rightarrow> (string \<times> 'a list) list" where
  "emplace_in k x m = smap_put k (get_or_empty k m @ [x]) m"

definition trace_add :: "TraceEvent \<Rightarrow> PipelineTrace \<Rightarrow> PipelineTrace" where
  "trace_add e tr =
     (case te_level e of
        PIPELINE \<Rightarrow> tr\<lparr>process_traces := emplace_in (te_process_name e) (TraceElem_of e) (process_traces tr)\<rparr>
      | MODULE \<Rightarrow> tr\<lparr>module_traces :=
          smap_put (te_module_name e)
            (emplace_in (te_process_name e) (TraceElem_of e) (get_or_empty (te_module_name e) (module_traces tr)))
            (module_traces tr)\<rparr>)"

definition GetTrace :: "Time \<Rightarrow> Time \<Rightarrow> PipelineTracer \<Rightarrow> (PipelineTrace \<times> PipelineTracer) option" where
  "GetTrace start fin t =
     (if fin \<le> start then Some (PipelineTrace_new, t)
      else case read_all (pt_buffer t) of
             None \<Rightarrow> None
           | Some (es, b) \<Rightarrow>
               Some (fold (\<lambda>e tr. if te_time e > start \<and> te_time e \<le> fin then trace_add e tr else tr) es PipelineTrace_new,
                     \<lparr>pt_buffer = b\<rparr>))"

text \<open>
  \<^verbatim>\<open>time_point_cast\<close> of a time in doubles truncates towards zero; here the doubles are exact.
\<close>

definition time_point_cast :: "real \<Rightarrow> Time" where
  "time_point_cast x = (if 0 \<le> x then \<lfloor>x\<rfloor> else \<lceil>x\<rceil>)"

definition time_minus :: "Time \<Rightarrow> real \<Rightarrow> Time" where
  "time_minus t duration = time_point_cast (real_of_int t - duration * 1000000)"

definition time_plus :: "Time \<Rightarrow> real \<Rightarrow> Time" where
  "time_plus t duration = time_point_cast (real_of_int t + duration * 1000000)"

definition GetTraceBefore :: "Time \<Rightarrow> real \<Rightarrow> PipelineTracer \<Rightarrow> (PipelineTrace \<times> PipelineTracer) option" where
  "GetTraceBefore fin duration = GetTrace (time_minus fin duration) fin"

definition GetTraceAfter :: "Time \<Rightarrow> real \<Rightarrow> PipelineTracer \<Rightarrow> (PipelineTrace \<times> PipelineTracer) option" where
  "GetTraceAfter start duration = GetTrace start (time_plus start duration)"

subsection \<open>ModuleProfiler\<close>

definition kPROCESS_PROFILER_NAME :: string where "kPROCESS_PROFILER_NAME = ''PROCESS''"
definition kINPUT_PROFILER_NAME :: string where "kINPUT_PROFILER_NAME = ''INPUT_QUEUE''"

record ModuleProfiler =
  mp_config :: ProfilerConfig
  mp_module_name :: string
  mp_has_tracer :: bool
  process_profilers :: "(string \<times> ProcessProfiler) list"

definition ModuleProfiler_new :: "ProfilerConfig \<Rightarrow> string \<Rightarrow> bool \<Rightarrow> ModuleProfiler" where
  "ModuleProfiler_new config name has_tracer =
     \<lparr>mp_config = config, mp_module_name = name, mp_has_tracer = has_tracer, process_profilers = []\<rparr>"

definition RegisterProcessName :: "string \<Rightarrow> ModuleProfiler \<Rightarrow> bool \<times> ModuleProfiler" where
  "RegisterProcessName process_name mp =
     (if map_of (process_profilers mp) process_name \<noteq> None then (False, mp)
      else (True, mp\<lparr>process_profilers :=
        smap_put process_name
          (pp_SetTraceLevel MODULE (pp_SetModuleName (mp_module_name mp)
            (ProcessProfiler_new (mp_config mp) process_name (mp_has_tracer mp))))
          (process_profilers mp)\<rparr>))"

definition GetProcessProfiler :: "string \<Rightarrow> ModuleProfiler \<Rightarrow> ProcessProfiler option" where
  "GetProcessProfiler process_name mp = map_of (process_profilers mp) process_name"

definition RecordProcessStart ::
  "string \<Rightarrow> RecordKey \<Rightarrow> Time \<Rightarrow> ModuleProfiler \<Rightarrow> (bool \<times> ModuleProfiler \<times> TraceEvent list) result" where
  "RecordProcessStart process_name key now mp =
     (case GetProcessProfiler process_name mp of
        None \<Rightarrow> Inr (False, mp, [])
      | Some p \<Rightarrow>
          (case RecordStart key now p of
             Inl e \<Rightarrow> Inl e
           | Inr (p', es) \<Rightarrow>
               Inr (True, mp\<lparr>process_profilers := smap_put process_name p' (process_profilers mp)\<rparr>, es)))"

definition RecordProcessEnd ::
  "string \<Rightarrow> RecordKey \<Rightarrow> Time \<Rightarrow> ModuleProfiler \<Rightarrow> (bool \<times> ModuleProfiler \<times> TraceEvent list) result" where
  "RecordProcessEnd process_name key now mp =
     (case GetProcessProfiler process_name mp of
        None \<Rightarrow> Inr (False, mp, [])
      | Some p \<Rightarrow>
          (case RecordEnd key now p of
             Inl e \<Rightarrow> Inl e
           | Inr (p', es) \<Rightarrow>
               Inr (True, mp\<lparr>process_profilers := smap_put process_name p' (process_profilers mp)\<rparr>, es)))"

fun eos_processes :: "string \<Rightarrow> (string \<times> ProcessProfiler) list \<Rightarrow> (string \<times> ProcessProfiler) list result" where
  "eos_processes s [] = Inr []"
| "eos_processes s ((n, p) # ps) =
     (case pp_OnStreamEos s p of
        Inl e \<Rightarrow> Inl e
      | Inr p' \<Rightarrow> map_sum id ((#) (n, p')) (eos_processes s ps))"

definition mp_OnStreamEos :: "string \<Rightarrow> ModuleProfiler \<Rightarrow> ModuleProfiler result" where
  "mp_OnStreamEos s mp = map_sum id (\<lambda>ps. mp\<lparr>process_profilers := ps\<rparr>) (eos_processes s (process_profilers mp))"

record ModuleProfile =
  mpf_module_name :: string
  process_profiles :: "ProcessProfile list"

definition ModuleProfiler_GetProfile :: "ModuleProfiler \<Rightarrow> ModuleProfile" where
  "ModuleProfiler_GetProfile mp =
     \<lparr>mpf_module_name = mp_module_name mp,
      process_profiles = map (\<lambda>(n, p). ProcessProfiler_GetProfile p) (process_profilers mp)\<rparr>"

fun trace_profiles :: "ModuleTrace \<Rightarrow> ModuleProfiler \<Rightarrow> ProcessProfile list result" where
  "trace_profiles [] mp = Inr []"
| "trace_profiles ((n, trace) # mt) mp =
     (case GetProcessProfiler n mp of
        None \<Rightarrow> trace_profiles mt mp
      | Some p \<Rightarrow>
          (case ProcessProfiler_GetProfile_trace trace p of
             Inl e \<Rightarrow> Inl e
           | Inr prof \<Rightarrow> map_sum id ((#) prof) (trace_profiles mt mp)))"

definition ModuleProfiler_GetProfile_trace :: "ModuleTrace \<Rightarrow> ModuleProfiler \<Rightarrow> ModuleProfile result" where
  "ModuleProfiler_GetProfile_trace trace mp =
     map_sum id (\<lambda>ps. \<lparr>mpf_module_name = mp_module_name mp, process_profiles = ps\<rparr>) (trace_profiles trace mp)"

subsection \<open>PipelineProfiler\<close>

definition kOVERALL_PROCESS_NAME :: string where "kOVERALL_PROCESS_NAME = ''OVERALL''"

record PipelineProfiler =
  plp_config :: ProfilerConfig
  plp_name :: string
  module_profilers :: "(string \<times> ModuleProfiler) list"
  overall_profiler :: ProcessProfiler
  plp_tracer :: PipelineTracer
  sorted_module_names :: "string list"

text \<open>A module is its name, and whether it is in a pipeline in which it is not a root.\<close>

definition add_module_profiler ::
  "ProfilerConfig \<Rightarrow> string \<times> bool \<Rightarrow> (string \<times> ModuleProfiler) list \<Rightarrow> (string \<times> ModuleProfiler) list" where
  "add_module_profiler config m ms =
     (let (name, has_input) = m;
          mp = (case map_of ms name of None \<Rightarrow> ModuleProfiler_new config name True | Some mp \<Rightarrow> mp);
          mp1 = snd (RegisterProcessName kPROCESS_PROFILER_NAME mp);
          mp2 = (if has_input then snd (RegisterProcessName kINPUT_PROFILER_NAME mp1) else mp1)
      in smap_put name mp2 ms)"

definition PipelineProfiler_new ::
  "ProfilerConfig \<Rightarrow> string \<Rightarrow> (string \<times> bool) list \<Rightarrow> string list \<Rightarrow> u64 \<Rightarrow> PipelineProfiler" where
  "PipelineProfiler_new config name modules sorted_names sz =
     \<lparr>plp_config = config, plp_name = name,
      module_profilers = fold (add_module_profiler config) modules [],
      overall_profiler = pp_SetTraceLevel PIPELINE (ProcessProfiler_new config kOVERALL_PROCESS_NAME True),
      plp_tracer = PipelineTracer_new 100000 sz,
      sorted_module_names = sorted_names\<rparr>"

definition GetModuleProfiler :: "string \<Rightarrow> PipelineProfiler \<Rightarrow> ModuleProfiler option" where
  "GetModuleProfiler name p = map_of (module_profilers p) name"

text \<open>The calls on the overall profiler; the events it gives go to the tracer.\<close>

definition overall_call ::
  "(ProcessProfiler \<Rightarrow> (ProcessProfiler \<times> TraceEvent list) result) \<Rightarrow> PipelineProfiler \<Rightarrow> PipelineProfiler result option" where
  "overall_call f p =
     (case f (overall_profiler p) of
        Inl e \<Rightarrow> Some (Inl e)
      | Inr (o', es) \<Rightarrow> map_option (\<lambda>t. Inr (p\<lparr>overall_profiler := o', plp_tracer := t\<rparr>)) (RecordEvents es (plp_tracer p)))"

definition RecordInput :: "RecordKey \<Rightarrow> Time \<Rightarrow> PipelineProfiler \<Rightarrow> PipelineProfiler result option" where
  "RecordInput key now = overall_call (RecordStart key now)"

definition RecordOutput :: "RecordKey \<Rightarrow> Time \<Rightarrow> PipelineProfiler \<Rightarrow> PipelineProfiler result option" where
  "RecordOutput key now = overall_call (RecordEnd key now)"

definition plp_OnStreamEos :: "string \<Rightarrow> PipelineProfiler \<Rightarrow> PipelineProfiler result" where
  "plp_OnStreamEos s p = map_sum id (\<lambda>o'. p\<lparr>overall_profiler := o'\<rparr>) (pp_OnStreamEos s (overall_profiler p))"

text \<open>
  A call on the module profiler that \<^verbatim>\<open>GetModuleProfiler\<close> gives; a module without one is a null pointer.
\<close>

definition module_call ::
  "string \<Rightarrow> (ModuleProfiler \<Rightarrow> (bool \<times> ModuleProfiler \<times> TraceEvent list) result) \<Rightarrow> PipelineProfiler \<Rightarrow>
   (bool \<times> PipelineProfiler) result option" where
  "module_call name f p =
     (case GetModuleProfiler name p of
        None \<Rightarrow> Some (Inl NullPointer)
      | Some mp \<Rightarrow>
          (case f mp of
             Inl e \<Rightarrow> Some (Inl e)
           | Inr (r, mp', es) \<Rightarrow>
               map_option (\<lambda>t. Inr (r, p\<lparr>module_profilers := smap_put name mp' (module_profilers p), plp_tracer := t\<rparr>))
                 (RecordEvents es (plp_tracer p))))"

record PipelineProfile =
  plpf_pipeline_name :: string
  module_profiles :: "ModuleProfile list"
  overall_profile :: ProcessProfile

definition ProcessProfile_new :: ProcessProfile where
  "ProcessProfile_new =
     \<lparr>ppf_process_name = [], ppf_counter = 0, ppf_completed = 0, ppf_dropped = 0, ppf_ongoing = 0, ppf_latency = 0,
      ppf_maximum_latency = 0, ppf_minimum_latency = 0, ppf_fps = 0, ppf_stream_profiles = []\<rparr>"

definition PipelineProfile_new :: PipelineProfile where
  "PipelineProfile_new = \<lparr>plpf_pipeline_name = [], module_profiles = [], overall_profile = ProcessProfile_new\<rparr>"

definition PipelineProfiler_GetProfile :: "PipelineProfiler \<Rightarrow> PipelineProfile" where
  "PipelineProfiler_GetProfile p =
     \<lparr>plpf_pipeline_name = plp_name p,
      module_profiles = concat (map (\<lambda>name. case map_of (module_profilers p) name of
          None \<Rightarrow> [] | Some mp \<Rightarrow> [ModuleProfiler_GetProfile mp]) (sorted_module_names p)),
      overall_profile = ProcessProfiler_GetProfile (overall_profiler p)\<rparr>"

text \<open>\<^verbatim>\<open>GetProfile(start, end)\<close>: the loop over the sorted names, and the whole.\<close>

fun window_modules ::
  "PipelineTrace \<Rightarrow> (string \<times> ModuleProfiler) list \<Rightarrow> string list \<Rightarrow> ModuleProfile list result" where
  "window_modules trace ms [] = Inr []"
| "window_modules trace ms (name # names) =
     (case map_of (module_traces trace) name of
        None \<Rightarrow> window_modules trace ms names
      | Some mt \<Rightarrow>
          (case map_of ms name of
             None \<Rightarrow> window_modules trace ms names
           | Some mp \<Rightarrow>
               (case ModuleProfiler_GetProfile_trace mt mp of
                  Inl e \<Rightarrow> Inl e
                | Inr prof \<Rightarrow> map_sum id ((#) prof) (window_modules trace ms names))))"

definition GetProfile_window ::
  "Time \<Rightarrow> Time \<Rightarrow> PipelineProfiler \<Rightarrow> (PipelineProfile \<times> PipelineProfiler) result option" where
  "GetProfile_window start fin p =
     (if \<not> enable_tracing (plp_config p) then Some (Inr (PipelineProfile_new, p))
      else case GetTrace start fin (plp_tracer p) of
             None \<Rightarrow> None
           | Some (trace, t) \<Rightarrow> Some (
               case window_modules trace (module_profilers p) (sorted_module_names p) of
                 Inl e \<Rightarrow> Inl e
               | Inr mods \<Rightarrow>
                   (case map_of (process_traces trace) kOVERALL_PROCESS_NAME of
                      None \<Rightarrow> Inr (\<lparr>plpf_pipeline_name = plp_name p, module_profiles = mods,
                                 overall_profile = ProcessProfile_new\<rparr>, p\<lparr>plp_tracer := t\<rparr>)
                    | Some ot \<Rightarrow>
                        map_sum id (\<lambda>ov. (\<lparr>plpf_pipeline_name = plp_name p, module_profiles = mods,
                                           overall_profile = ov\<rparr>, p\<lparr>plp_tracer := t\<rparr>))
                          (ProcessProfiler_GetProfile_trace ot (overall_profiler p)))))"

definition GetProfileBefore ::
  "Time \<Rightarrow> real \<Rightarrow> PipelineProfiler \<Rightarrow> (PipelineProfile \<times> PipelineProfiler) result option" where
  "GetProfileBefore fin duration = GetProfile_window (time_minus fin duration) fin"

definition GetProfileAfter ::
  "Time \<Rightarrow> real \<Rightarrow> PipelineProfiler \<Rightarrow> (PipelineProfile \<times> PipelineProfiler) result option" where
  "GetProfileAfter start duration = GetProfile_window start (time_plus start duration)"

end
