(* ===== verification/TracingProps.thy ===== *)
theory TracingProps
  imports Tracing ProfilerProps
begin

section \<open>Traces and the profiles computed from them\<close>

subsection \<open>Recording events\<close>

lemma RecordEvents_reach:
  "cb_reach capacity sz (pt_buffer t, ev, Map.empty) \<Longrightarrow> 0 < unat sz \<Longrightarrow> length ev + length es < 2 ^ 64 - 1 \<Longrightarrow>
   \<exists>t'. RecordEvents es t = Some t' \<and> cb_reach capacity sz (pt_buffer t', ev @ es, Map.empty)"
proof (induction es arbitrary: t ev)
  case (Cons e es)
  then have "Suc (length ev) < 2 ^ 64" by simp
  from push_back_reach [OF Cons.prems(1,2) this, of e] obtain b where
    b: "push_back e (pt_buffer t) = Some b" "cb_reach capacity sz (b, ev @ [e], Map.empty)" by blast
  then have "RecordEvent e t = Some \<lparr>pt_buffer = b\<rparr>" by (simp add: RecordEvent_def)
  with Cons.IH [of "\<lparr>pt_buffer = b\<rparr>" "ev @ [e]"] b(2) Cons.prems(2,3) show ?case by simp
qed simp

subsection \<open>The trace of a list of events\<close>

definition trace_of :: "TraceEvent list \<Rightarrow> PipelineTrace" where
  "trace_of es = fold trace_add es PipelineTrace_new"

definition grouped :: "(TraceEvent \<Rightarrow> bool) \<Rightarrow> TraceEvent list \<Rightarrow> ProcessTrace option" where
  "grouped P es = (if filter P es = [] then None else Some (map TraceElem_of (filter P es)))"

definition of_process :: "string \<Rightarrow> TraceEvent \<Rightarrow> bool" where
  "of_process n e \<longleftrightarrow> te_level e = PIPELINE \<and> te_process_name e = n"

definition of_module :: "string \<Rightarrow> string \<Rightarrow> TraceEvent \<Rightarrow> bool" where
  "of_module m n e \<longleftrightarrow> te_level e = MODULE \<and> te_module_name e = m \<and> te_process_name e = n"

lemma grouped_snoc:
  "grouped P (es @ [e]) =
     (if P e then Some ((case grouped P es of None \<Rightarrow> [] | Some xs \<Rightarrow> xs) @ [TraceElem_of e]) else grouped P es)"
  by (auto simp: grouped_def)

lemma map_of_emplace_in:
  "map_of (emplace_in k x m) k' = (if k' = k then Some ((case map_of m k of None \<Rightarrow> [] | Some xs \<Rightarrow> xs) @ [x]) else map_of m k')"
  by (simp add: emplace_in_def get_or_empty_def)

lemma trace_of_snoc: "trace_of (es @ [e]) = trace_add e (trace_of es)"
  by (simp add: trace_of_def)

lemma trace_of_process: "map_of (process_traces (trace_of es)) n = grouped (of_process n) es"
proof (induction es rule: rev_induct)
  case Nil
  then show ?case by (simp add: trace_of_def PipelineTrace_new_def grouped_def)
next
  case (snoc e es)
  then show ?case unfolding trace_of_snoc grouped_snoc
    by (cases "te_level e") (auto simp: trace_add_def map_of_emplace_in of_process_def [of _ e])
qed

lemma trace_of_module:
  "map_of (get_or_empty m (module_traces (trace_of es))) n = grouped (of_module m n) es \<and>
   smap_ok (get_or_empty m (module_traces (trace_of es))) \<and>
   (map_of (module_traces (trace_of es)) m \<noteq> Some [])"
proof (induction es arbitrary: m n rule: rev_induct)
  case Nil
  then show ?case by (simp add: trace_of_def PipelineTrace_new_def grouped_def get_or_empty_def)
next
  case (snoc e es)
  show ?case
  proof (cases "te_level e")
    case PIPELINE
    then show ?thesis unfolding trace_of_snoc grouped_snoc using snoc.IH by (simp add: trace_add_def of_module_def [of _ _ e])
  next
    case MODULE
    let ?m = "te_module_name e" and ?mt = "get_or_empty (te_module_name e) (module_traces (trace_of es))"
    let ?new = "emplace_in (te_process_name e) (TraceElem_of e) ?mt"
    have mod: "module_traces (trace_of (es @ [e])) = smap_put ?m ?new (module_traces (trace_of es))"
      using MODULE by (simp add: trace_of_snoc trace_add_def)
    have get: "get_or_empty m (module_traces (trace_of (es @ [e]))) =
        (if m = ?m then ?new else get_or_empty m (module_traces (trace_of es)))"
      by (simp add: mod get_or_empty_def)
    have ne: "?new \<noteq> []"
      using map_of_emplace_in [of "te_process_name e" "TraceElem_of e" ?mt "te_process_name e"] by auto
    have "smap_ok ?new" using snoc.IH by (simp add: emplace_in_def)
    moreover have "map_of (module_traces (trace_of (es @ [e]))) m \<noteq> Some []"
      using ne snoc.IH by (simp add: mod)
    moreover have "map_of (get_or_empty m (module_traces (trace_of (es @ [e])))) n = grouped (of_module m n) (es @ [e])"
      unfolding get grouped_snoc using MODULE snoc.IH by (auto simp: map_of_emplace_in of_module_def [of _ _ e])
    ultimately show ?thesis unfolding get using snoc.IH by simp
  qed
qed

lemma GetTrace_window:
  assumes "cb_reach capacity sz (pt_buffer t, ev, Map.empty)" "0 < unat sz" "unat capacity \<le> unat sz"
    "Suc (length ev) < 2 ^ 64" "start < fin"
  shows "GetTrace start fin t =
    Some (trace_of (filter (\<lambda>e. start < te_time e \<and> te_time e \<le> fin) (drop (length ev - unat capacity) ev)), t)"
proof -
  have "fold (\<lambda>e tr. if P e then trace_add e tr else tr) es = fold trace_add (filter P es)" for P es
    by (simp add: fold_filter id_def if_distrib [of "\<lambda>f. f _"] fun_eq_iff)
      (induction es, auto)
  then show ?thesis
    using assms(5) by (simp add: GetTrace_def read_all_last [OF assms(1-4)] trace_of_def)
qed

text \<open>The trace of a time window: the events among the last \<open>capacity\<close> recorded ones with a time
  after \<open>start\<close> and not after \<open>end\<close>, in the order they were recorded, grouped by process for the
  pipeline's level and by module and process for the modules' level, with no empty group; and asking
  for it leaves the tracer as it was.\<close>

lemma get_trace_groups:
  assumes "cb_reach capacity sz (pt_buffer t, ev, Map.empty)" "0 < unat sz" "unat capacity \<le> unat sz"
    "Suc (length ev) < 2 ^ 64" "start < fin"
    and "window = filter (\<lambda>e. start < te_time e \<and> te_time e \<le> fin) (drop (length ev - unat capacity) ev)"
  shows "\<exists>trace. GetTrace start fin t = Some (trace, t) \<and>
    map_of (process_traces trace) n = grouped (of_process n) window \<and>
    map_of (get_or_empty m (module_traces trace)) n = grouped (of_module m n) window \<and>
    map_of (module_traces trace) m \<noteq> Some []"
  unfolding GetTrace_window [OF assms(1-5), folded assms(6)] using trace_of_process trace_of_module by blast

theorem get_trace_groups_witness:
  "\<exists>t trace. cb_reach 1 1 (pt_buffer t, [TraceEvent_new, TraceEvent_new\<lparr>te_time := 5\<rparr>], Map.empty) \<and>
     GetTrace 0 10 t = Some (trace, t) \<and>
     map_of (process_traces trace) [] = Some [TraceElem_of (TraceEvent_new\<lparr>te_time := 5\<rparr>)]"
proof -
  let ?t = "PipelineTracer_new 1 1" and ?ev = "[TraceEvent_new, TraceEvent_new\<lparr>te_time := 5\<rparr>]"
  have "cb_reach 1 1 (pt_buffer ?t, [], Map.empty)" by (simp add: PipelineTracer_new_def reach_new)
  from RecordEvents_reach [OF this, of ?ev]
  obtain t :: PipelineTracer where t: "cb_reach 1 1 (pt_buffer t, ?ev, Map.empty)"
    by (auto simp del: RecordEvents.simps)
  from get_trace_groups [OF t _ _ _ _ refl, of 0 10 "[]" "[]"] obtain trace where
    "GetTrace 0 10 t = Some (trace, t)"
    "map_of (process_traces trace) [] = grouped (of_process []) [TraceEvent_new\<lparr>te_time := 5\<rparr>]" by auto
  with t show ?thesis by (auto simp: grouped_def of_process_def TraceEvent_new_def)
qed

subsection \<open>Calls on the profiler of a pipeline\<close>

datatype PCall =
    Input RecordKey Time
  | Output RecordKey Time
  | ProcessStart string string RecordKey Time
  | ProcessEnd string string RecordKey Time

fun call_time :: "PCall \<Rightarrow> Time" where
  "call_time (Input key t) = t"
| "call_time (Output key t) = t"
| "call_time (ProcessStart m n key t) = t"
| "call_time (ProcessEnd m n key t) = t"

text \<open>A call names a module of the pipeline.\<close>

fun call_known :: "string list \<Rightarrow> PCall \<Rightarrow> bool" where
  "call_known ms (ProcessStart m n key t) = (m \<in> set ms)"
| "call_known ms (ProcessEnd m n key t) = (m \<in> set ms)"
| "call_known ms _ = True"

fun run_pcall :: "PCall \<Rightarrow> PipelineProfiler \<Rightarrow> PipelineProfiler result option" where
  "run_pcall (Input key t) p = RecordInput key t p"
| "run_pcall (Output key t) p = RecordOutput key t p"
| "run_pcall (ProcessStart m n key t) p = map_option (map_sum id snd) (module_call m (RecordProcessStart n key t) p)"
| "run_pcall (ProcessEnd m n key t) p = map_option (map_sum id snd) (module_call m (RecordProcessEnd n key t) p)"

fun run_pcalls :: "PCall list \<Rightarrow> PipelineProfiler \<Rightarrow> PipelineProfiler result option" where
  "run_pcalls [] p = Some (Inr p)"
| "run_pcalls (c # cs) p =
     (case run_pcall c p of
        None \<Rightarrow> None
      | Some (Inl e) \<Rightarrow> Some (Inl e)
      | Some (Inr p') \<Rightarrow> run_pcalls cs p')"

text \<open>
  \<open>plp_inv\<close>: the tracer has the events \<open>ev\<close>, each of them of a registered process, and every process
  profiler is what the replay of its own events gives.
\<close>

definition mp_inv :: "ProfilerConfig \<Rightarrow> TraceEvent list \<Rightarrow> string \<Rightarrow> ModuleProfiler \<Rightarrow> bool" where
  "mp_inv c ev m mp \<longleftrightarrow> mp_module_name mp = m \<and> smap_ok (process_profilers mp) \<and>
     (\<forall>n P. map_of (process_profilers mp) n = Some P \<longrightarrow> traced c m MODULE n (filter (of_module m n) ev) P)"

definition event_known :: "PipelineProfiler \<Rightarrow> TraceEvent \<Rightarrow> bool" where
  "event_known p e \<longleftrightarrow> (case te_level e of
     PIPELINE \<Rightarrow> te_process_name e = kOVERALL_PROCESS_NAME
   | MODULE \<Rightarrow> (\<exists>mp. map_of (module_profilers p) (te_module_name e) = Some mp \<and>
       map_of (process_profilers mp) (te_process_name e) \<noteq> None))"

definition plp_inv :: "ProfilerConfig \<Rightarrow> u64 \<Rightarrow> TraceEvent list \<Rightarrow> PipelineProfiler \<Rightarrow> bool" where
  "plp_inv c sz ev p \<longleftrightarrow> plp_config p = c \<and> cb_reach 100000 sz (pt_buffer (plp_tracer p), ev, Map.empty) \<and>
     traced c [] PIPELINE kOVERALL_PROCESS_NAME (filter (of_process kOVERALL_PROCESS_NAME) ev) (overall_profiler p) \<and>
     smap_ok (module_profilers p) \<and>
     (\<forall>m mp. map_of (module_profilers p) m = Some mp \<longrightarrow> mp_inv c ev m mp) \<and>
     (\<forall>e\<in>set ev. event_known p e)"

lemma event_known_cong:
  "map_of (module_profilers q) = map_of (module_profilers p) \<Longrightarrow> event_known q = event_known p"
  by (simp add: event_known_def fun_eq_iff split: TraceLevel.split)

lemma traced_last:
  assumes "traced c m l n (es @ [e]) P"
  shows "te_module_name e = m \<and> te_process_name e = n \<and> te_level e = l"
  using assms by (simp add: traced_def)

text \<open>A call that makes one event of a traced profiler.\<close>

definition records_at :: "Time \<Rightarrow> (ProcessProfiler \<Rightarrow> (ProcessProfiler \<times> TraceEvent list) result) \<Rightarrow> bool" where
  "records_at t f \<longleftrightarrow> (\<forall>c m l n es P. traced c m l n es P \<longrightarrow>
     (\<exists>P' e. f P = Inr (P', [e]) \<and> te_time e = t \<and> traced c m l n (es @ [e]) P'))"

lemma records_Start_End: "records_at t (RecordStart key t)" "records_at t (RecordEnd key t)"
  using traced_Start traced_End unfolding records_at_def by blast+

lemma overall_call_inv:
  assumes inv: "plp_inv c sz ev p" and f: "records_at t f" and sz: "0 < unat sz" "length ev + 1 < 2 ^ 64 - 1"
  shows "\<exists>p' e. overall_call f p = Some (Inr p') \<and> te_time e = t \<and> plp_inv c sz (ev @ [e]) p' \<and>
    map fst (module_profilers p') = map fst (module_profilers p) \<and> sorted_module_names p' = sorted_module_names p"
proof -
  let ?n = kOVERALL_PROCESS_NAME
  from inv f obtain P' e where P': "f (overall_profiler p) = Inr (P', [e])" "te_time e = t"
    "traced c [] PIPELINE ?n (filter (of_process ?n) ev @ [e]) P'"
    unfolding plp_inv_def records_at_def by blast
  note lab = traced_last [OF P'(3)]
  from inv have r: "cb_reach 100000 sz (pt_buffer (plp_tracer p), ev, Map.empty)" by (simp add: plp_inv_def)
  from RecordEvents_reach [OF r sz(1), of "[e]"] sz(2) obtain tr where
    tr: "RecordEvents [e] (plp_tracer p) = Some tr" "cb_reach 100000 sz (pt_buffer tr, ev @ [e], Map.empty)" by auto
  define p' where "p' = p\<lparr>overall_profiler := P', plp_tracer := tr\<rparr>"
  have "overall_call f p = Some (Inr p')" using P'(1) tr(1) by (simp add: overall_call_def p'_def)
  moreover have "mp_inv c (ev @ [e]) m mp = mp_inv c ev m mp" for m mp
    using lab by (simp add: mp_inv_def of_module_def [of _ _ e])
  moreover have "event_known p' e" using lab by (simp add: event_known_def)
  moreover have "event_known p' = event_known p" by (rule event_known_cong) (simp add: p'_def)
  ultimately show ?thesis
    using inv tr(2) P'(2,3) lab by (intro exI [of _ p'] exI [of _ e]) (auto simp: plp_inv_def p'_def of_process_def [of _ e])
qed

lemma smap_put_keys: "map_of m k = Some w \<Longrightarrow> map fst (smap_put k v m) = map fst m"
  by (simp add: smap_put_def del: map_map)

text \<open>A call on the process \<open>n\<close> of a module profiler.\<close>

definition process_call ::
  "string \<Rightarrow> (ProcessProfiler \<Rightarrow> (ProcessProfiler \<times> TraceEvent list) result) \<Rightarrow> ModuleProfiler \<Rightarrow>
   (bool \<times> ModuleProfiler \<times> TraceEvent list) result" where
  "process_call n f mp =
     (case GetProcessProfiler n mp of
        None \<Rightarrow> Inr (False, mp, [])
      | Some P \<Rightarrow> (case f P of Inl e \<Rightarrow> Inl e
          | Inr (P', es) \<Rightarrow> Inr (True, mp\<lparr>process_profilers := smap_put n P' (process_profilers mp)\<rparr>, es)))"

lemma process_calls:
  "RecordProcessStart n key t = process_call n (RecordStart key t)"
  "RecordProcessEnd n key t = process_call n (RecordEnd key t)"
  by (simp_all add: fun_eq_iff RecordProcessStart_def RecordProcessEnd_def process_call_def)

lemma module_call_inv:
  assumes inv: "plp_inv c sz ev p" and f: "records_at t f" and sz: "0 < unat sz" "length ev + 1 < 2 ^ 64 - 1"
    and m: "m \<in> set (map fst (module_profilers p))"
  shows "\<exists>b p' es. module_call m (process_call n f) p = Some (Inr (b, p')) \<and> (\<forall>e\<in>set es. te_time e = t) \<and> length es \<le> 1 \<and>
    plp_inv c sz (ev @ es) p' \<and> map fst (module_profilers p') = map fst (module_profilers p) \<and>
    sorted_module_names p' = sorted_module_names p"
proof -
  obtain mp where mp: "map_of (module_profilers p) m = Some mp" using m by (metis keys_dom domD)
  have mi: "mp_inv c ev m mp" using inv mp by (simp add: plp_inv_def)
  show ?thesis
  proof (cases "map_of (process_profilers mp) n")
    case None
    let ?p = "p\<lparr>module_profilers := smap_put m mp (module_profilers p)\<rparr>"
    have "map_of (module_profilers ?p) = map_of (module_profilers p)" using mp by (simp add: fun_upd_idem_iff)
    then have "plp_inv c sz ev ?p" using inv event_known_cong [of ?p p] by (simp add: plp_inv_def)
    moreover have "module_call m (process_call n f) p = Some (Inr (False, ?p))"
      using mp None by (simp add: module_call_def GetModuleProfiler_def process_call_def GetProcessProfiler_def)
    ultimately show ?thesis using mp by (intro exI [of _ False] exI [of _ ?p] exI [of _ "[]"]) (simp add: smap_put_keys)
  next
    case (Some P)
    from mi Some f obtain P' e where P': "f P = Inr (P', [e])" "te_time e = t"
      "traced c m MODULE n (filter (of_module m n) ev @ [e]) P'"
      unfolding mp_inv_def records_at_def by blast
    note lab = traced_last [OF P'(3)]
    from inv have r: "cb_reach 100000 sz (pt_buffer (plp_tracer p), ev, Map.empty)" by (simp add: plp_inv_def)
    from RecordEvents_reach [OF r sz(1), of "[e]"] sz(2) obtain tr where
      tr: "RecordEvents [e] (plp_tracer p) = Some tr" "cb_reach 100000 sz (pt_buffer tr, ev @ [e], Map.empty)" by auto
    define mp' where "mp' = mp\<lparr>process_profilers := smap_put n P' (process_profilers mp)\<rparr>"
    define p' where "p' = p\<lparr>module_profilers := smap_put m mp' (module_profilers p), plp_tracer := tr\<rparr>"
    have call: "module_call m (process_call n f) p = Some (Inr (True, p'))"
      using mp Some P'(1) tr(1)
      by (simp add: module_call_def GetModuleProfiler_def process_call_def GetProcessProfiler_def p'_def mp'_def)
    have mp'_inv: "mp_inv c (ev @ [e]) m mp'"
      using mi P'(3) lab by (auto simp: mp_inv_def mp'_def of_module_def [of _ _ e])
    have other: "mp_inv c (ev @ [e]) k q" if "k \<noteq> m" "mp_inv c ev k q" for k q
      using that lab by (simp add: mp_inv_def of_module_def [of _ _ e])
    have known: "event_known p' x" if "event_known p x \<or> x = e" for x
      using that lab mp Some unfolding event_known_def
      by (auto simp: p'_def mp'_def split: TraceLevel.splits)
    have maps: "mp_inv c (ev @ [e]) k q" if "map_of (module_profilers p') k = Some q" for k q
      using that other mp'_inv inv by (cases "k = m") (auto simp: p'_def plp_inv_def)
    have "plp_inv c sz (ev @ [e]) p'"
      using inv tr(2) maps known lab unfolding plp_inv_def by (auto simp: p'_def of_process_def [of _ e])
    with call P'(2) mp show ?thesis
      by (intro exI [of _ True] exI [of _ p'] exI [of _ "[e]"]) (simp add: p'_def smap_put_keys)
  qed
qed

lemma run_pcalls_inv:
  assumes "plp_inv c sz ev p" "0 < unat sz" "length ev + length calls < 2 ^ 64 - 1"
    "list_all (call_known (map fst (module_profilers p))) calls"
  shows "\<exists>p' es. run_pcalls calls p = Some (Inr p') \<and> plp_inv c sz (ev @ es) p' \<and> length es \<le> length calls \<and>
    te_time ` set es \<subseteq> call_time ` set calls \<and> sorted_module_names p' = sorted_module_names p"
  using assms
proof (induction calls arbitrary: p ev)
  case Nil
  then show ?case by simp
next
  case (Cons x calls)
  have len: "length ev + 1 < 2 ^ 64 - 1" using Cons.prems(3) by simp
  have "\<exists>p1 es1. run_pcall x p = Some (Inr p1) \<and> plp_inv c sz (ev @ es1) p1 \<and> length es1 \<le> 1 \<and>
      (\<forall>e\<in>set es1. te_time e = call_time x) \<and>
      map fst (module_profilers p1) = map fst (module_profilers p) \<and> sorted_module_names p1 = sorted_module_names p"
  proof (cases x)
    case (Input key t)
    from overall_call_inv [OF Cons.prems(1) records_Start_End(1) [where key = key and t = t] Cons.prems(2) len] Input
    show ?thesis by (force simp: RecordInput_def)
  next
    case (Output key t)
    from overall_call_inv [OF Cons.prems(1) records_Start_End(2) [where key = key and t = t] Cons.prems(2) len] Output
    show ?thesis by (force simp: RecordOutput_def)
  next
    case (ProcessStart m n key t)
    then have "m \<in> set (map fst (module_profilers p))" using Cons.prems(4) by simp
    from module_call_inv [OF Cons.prems(1) records_Start_End(1) [where key = key and t = t] Cons.prems(2) len this, of n] ProcessStart
    show ?thesis by (force simp: process_calls)
  next
    case (ProcessEnd m n key t)
    then have "m \<in> set (map fst (module_profilers p))" using Cons.prems(4) by simp
    from module_call_inv [OF Cons.prems(1) records_Start_End(2) [where key = key and t = t] Cons.prems(2) len this, of n] ProcessEnd
    show ?thesis by (force simp: process_calls)
  qed
  then obtain p1 es1 where x: "run_pcall x p = Some (Inr p1)" "plp_inv c sz (ev @ es1) p1" "length es1 \<le> 1"
    "\<forall>e\<in>set es1. te_time e = call_time x" "map fst (module_profilers p1) = map fst (module_profilers p)"
    "sorted_module_names p1 = sorted_module_names p" by blast
  have "length (ev @ es1) + length calls < 2 ^ 64 - 1" "list_all (call_known (map fst (module_profilers p1))) calls"
    using Cons.prems(3,4) x(3,5) by simp_all
  from Cons.IH [OF x(2) Cons.prems(2) this] obtain p' es where
    r: "run_pcalls calls p1 = Some (Inr p')" "plp_inv c sz ((ev @ es1) @ es) p'" "length es \<le> length calls"
      "te_time ` set es \<subseteq> call_time ` set calls" "sorted_module_names p' = sorted_module_names p1" by blast
  then show ?case using x
    by (intro exI [of _ p'] exI [of _ "es1 @ es"]) (auto simp: image_subset_iff)
qed

subsection \<open>The profile of a window\<close>

lemma trace_profiles_map:
  "\<forall>(n, trace)\<in>set mt. \<exists>P. map_of (process_profilers mp) n = Some P \<and>
     ProcessProfiler_GetProfile_trace trace P = Inr (ProcessProfiler_GetProfile P) \<Longrightarrow>
   trace_profiles mt mp =
     Inr (map (\<lambda>n. ProcessProfiler_GetProfile (the (map_of (process_profilers mp) n))) (map fst mt))"
  by (induction mt) (auto simp: GetProcessProfiler_def)

definition busy_processes :: "ModuleProfiler \<Rightarrow> (string \<times> ProcessProfiler) list" where
  "busy_processes mp = filter (\<lambda>(n, P). pp_streams P \<noteq> []) (process_profilers mp)"

lemma traced_grouped:
  assumes "traced c m l n (filter Q ev) P"
  shows "grouped Q ev = None \<longleftrightarrow> pp_streams P = []"
    "grouped Q ev = Some trace \<Longrightarrow> ProcessProfiler_GetProfile_trace trace P = Inr (ProcessProfiler_GetProfile P)"
proof -
  show "grouped Q ev = None \<longleftrightarrow> pp_streams P = []" using assms by (auto simp: traced_def grouped_def)
  show "ProcessProfiler_GetProfile_trace trace P = Inr (ProcessProfiler_GetProfile P)" if "grouped Q ev = Some trace"
    using traced_profile [OF assms] that by (auto simp: grouped_def split: if_splits)
qed

lemma module_window:
  assumes mp: "mp_inv c ev m mp" and mt: "smap_ok mt" "\<forall>n. map_of mt n = grouped (of_module m n) ev"
    and known: "\<forall>n. map_of mt n \<noteq> None \<longrightarrow> map_of (process_profilers mp) n \<noteq> None"
  shows "trace_profiles mt mp = Inr (map (\<lambda>(n, P). ProcessProfiler_GetProfile P) (busy_processes mp))"
proof -
  let ?ps = "process_profilers mp"
  have ok: "smap_ok ?ps" and tr: "\<And>n P. map_of ?ps n = Some P \<Longrightarrow> traced c m MODULE n (filter (of_module m n) ev) P"
    using mp by (auto simp: mp_inv_def)
  have entry: "\<exists>P. map_of ?ps n = Some P \<and> ProcessProfiler_GetProfile_trace trace P = Inr (ProcessProfiler_GetProfile P)"
    if "(n, trace) \<in> set mt" for n trace
  proof -
    have g: "map_of mt n = Some trace" using that mt(1) by (simp add: smap_mem)
    then obtain P where "map_of ?ps n = Some P" using known by fastforce
    with tr traced_grouped(2) g mt(2) show ?thesis by metis
  qed
  then have "trace_profiles mt mp = Inr (map (\<lambda>n. ProcessProfiler_GetProfile (the (map_of ?ps n))) (map fst mt))"
    by (intro trace_profiles_map) auto
  also have "map fst mt = map fst (busy_processes mp)"
  proof (rule sorted_distinct_set_unique)
    show "sorted (map fst mt)" "distinct (map fst mt)" using mt(1) by (simp_all add: smap_ok_def)
    show "sorted (map fst (busy_processes mp))" "distinct (map fst (busy_processes mp))"
      using ok by (simp_all add: smap_ok_def busy_processes_def sorted_filter distinct_map_filter)
    have "n \<in> set (map fst mt) \<longleftrightarrow> n \<in> set (map fst (busy_processes mp))" for n
    proof -
      have "n \<in> set (map fst mt) \<longleftrightarrow> map_of mt n \<noteq> None" by (metis keys_dom domIff)
      also have "\<dots> \<longleftrightarrow> (\<exists>P. map_of ?ps n = Some P \<and> pp_streams P \<noteq> [])"
        using known mt(2) tr traced_grouped(1) by (metis not_None_eq)
      also have "\<dots> \<longleftrightarrow> n \<in> set (map fst (busy_processes mp))"
        using ok by (force simp: busy_processes_def smap_mem [symmetric])
      finally show ?thesis .
    qed
    then show "set (map fst mt) = set (map fst (busy_processes mp))" by blast
  qed
  also have "map (\<lambda>n. ProcessProfiler_GetProfile (the (map_of ?ps n))) (map fst (busy_processes mp)) =
      map (\<lambda>(n, P). ProcessProfiler_GetProfile P) (busy_processes mp)"
    using ok by (auto simp: busy_processes_def smap_mem)
  finally show ?thesis .
qed

text \<open>A profile without the processes that have seen no frame, and without the modules that are then empty.\<close>

definition drop_idle_processes :: "ModuleProfile \<Rightarrow> ModuleProfile" where
  "drop_idle_processes m = m\<lparr>process_profiles := filter (\<lambda>q. ppf_stream_profiles q \<noteq> []) (process_profiles m)\<rparr>"

definition drop_idle :: "PipelineProfile \<Rightarrow> PipelineProfile" where
  "drop_idle prof =
     prof\<lparr>module_profiles := filter (\<lambda>m. process_profiles m \<noteq> []) (map drop_idle_processes (module_profiles prof)),
          overall_profile := (if ppf_stream_profiles (overall_profile prof) = [] then ProcessProfile_new else overall_profile prof)\<rparr>"

lemma stream_profiles_Nil: "ppf_stream_profiles (ProcessProfiler_GetProfile P) = [] \<longleftrightarrow> pp_streams P = []"
  by (simp add: ProcessProfiler_GetProfile_def)

lemma drop_idle_module:
  "drop_idle_processes (ModuleProfiler_GetProfile mp) =
     \<lparr>mpf_module_name = mp_module_name mp, process_profiles = map (\<lambda>(n, P). ProcessProfiler_GetProfile P) (busy_processes mp)\<rparr>"
  by (simp add: drop_idle_processes_def ModuleProfiler_GetProfile_def busy_processes_def filter_map o_def
      case_prod_unfold stream_profiles_Nil)

lemma window_modules_eq:
  assumes inv: "plp_inv c sz ev p"
  shows "window_modules (trace_of ev) (module_profilers p) names =
    Inr (filter (\<lambda>m. process_profiles m \<noteq> []) (map drop_idle_processes
      (concat (map (\<lambda>name. case map_of (module_profilers p) name of
          None \<Rightarrow> [] | Some mp \<Rightarrow> [ModuleProfiler_GetProfile mp]) names))))"
proof (induction names)
  case Nil
  then show ?case by simp
next
  case (Cons name names)
  note tr = trace_of_module [where m = name and es = ev]
  let ?mt = "get_or_empty name (module_traces (trace_of ev))"
  have ev: "map_of ?mt n \<noteq> None \<Longrightarrow> \<exists>mp. map_of (module_profilers p) name = Some mp \<and> map_of (process_profilers mp) n \<noteq> None" for n
  proof -
    assume "map_of ?mt n \<noteq> None"
    then have "filter (of_module name n) ev \<noteq> []" using tr [where n = n] by (auto simp: grouped_def split: if_splits)
    then obtain e where "e \<in> set ev" "of_module name n e" by (auto simp: filter_empty_conv)
    then show ?thesis using inv by (auto simp: plp_inv_def event_known_def of_module_def)
  qed
  show ?case
  proof (cases "map_of (module_profilers p) name")
    case None
    have "map_of (module_traces (trace_of ev)) name = None"
    proof (rule ccontr)
      assume "map_of (module_traces (trace_of ev)) name \<noteq> None"
      with tr have "?mt \<noteq> []" by (auto simp: get_or_empty_def)
      then obtain n x mt where "?mt = (n, x) # mt" by (cases ?mt) auto
      with ev [of n] None show False by simp
    qed
    with None Cons.IH show ?thesis by simp
  next
    case (Some mp)
    have mp: "mp_inv c ev name mp" using inv Some by (simp add: plp_inv_def)
    have w: "trace_profiles ?mt mp = Inr (map (\<lambda>(n, P). ProcessProfiler_GetProfile P) (busy_processes mp))"
      using tr ev Some by (intro module_window [OF mp]) auto
    show ?thesis
    proof (cases "map_of (module_traces (trace_of ev)) name")
      case None
      then have "busy_processes mp = []" using w by (simp add: get_or_empty_def)
      with None Some Cons.IH show ?thesis by (simp add: drop_idle_module)
    next
      case mt: (Some mt)
      then have "mt \<noteq> []" "?mt = mt" using tr by (auto simp: get_or_empty_def)
      moreover have "map_of mt (fst (hd mt)) \<noteq> None" using \<open>mt \<noteq> []\<close> by (cases mt) auto
      then have "grouped (of_module name (fst (hd mt))) ev \<noteq> None" using tr \<open>?mt = mt\<close> by metis
      moreover obtain P where "map_of (process_profilers mp) (fst (hd mt)) = Some P"
        using ev [of "fst (hd mt)"] \<open>map_of mt (fst (hd mt)) \<noteq> None\<close> \<open>?mt = mt\<close> Some by auto
      ultimately have "busy_processes mp \<noteq> []"
        using mp traced_grouped(1) [of c name MODULE "fst (hd mt)" "of_module name (fst (hd mt))" ev P]
        unfolding mp_inv_def busy_processes_def filter_empty_conv by (auto dest: map_of_SomeD)
      with mt Some Cons.IH w \<open>?mt = mt\<close> show ?thesis
        by (simp add: drop_idle_module ModuleProfiler_GetProfile_trace_def)
    qed
  qed
qed

lemma GetProfile_window_inv:
  assumes inv: "plp_inv c sz ev p" and sz: "100000 \<le> unat sz" "length ev \<le> 100000" "start < fin"
    and times: "\<forall>e\<in>set ev. start < te_time e \<and> te_time e \<le> fin"
  shows "GetProfile_window start fin p = Some (Inr (drop_idle (PipelineProfiler_GetProfile p), p))"
proof -
  from inv have c: "enable_tracing (plp_config p)" and r: "cb_reach 100000 sz (pt_buffer (plp_tracer p), ev, Map.empty)"
    and ov: "traced c [] PIPELINE kOVERALL_PROCESS_NAME (filter (of_process kOVERALL_PROCESS_NAME) ev) (overall_profiler p)"
    by (auto simp: plp_inv_def traced_def)
  have cap: "unat (100000 :: u64) = 100000" by simp
  have "filter (\<lambda>e. start < te_time e \<and> te_time e \<le> fin) (drop (length ev - unat (100000 :: u64)) ev) = ev"
    using times sz(2) by (simp add: cap filter_id_conv)
  moreover have "0 < unat sz" "Suc (length ev) < 2 ^ 64" using sz(1,2) by simp_all
  ultimately have g: "GetTrace start fin (plp_tracer p) = Some (trace_of ev, plp_tracer p)"
    using GetTrace_window [OF r _ _ _ sz(3)] sz(1) cap by simp
  note w = window_modules_eq [OF inv, of "sorted_module_names p"]
  note o1 = traced_grouped [OF ov]
  show ?thesis
  proof (cases "map_of (process_traces (trace_of ev)) kOVERALL_PROCESS_NAME")
    case None
    then have "pp_streams (overall_profiler p) = []" using o1(1) trace_of_process by metis
    with None show ?thesis
      by (simp add: GetProfile_window_def c g w drop_idle_def PipelineProfiler_GetProfile_def stream_profiles_Nil)
  next
    case (Some ot)
    then have "ProcessProfiler_GetProfile_trace ot (overall_profiler p) = Inr (ProcessProfiler_GetProfile (overall_profiler p))"
      "pp_streams (overall_profiler p) \<noteq> []"
      using o1 trace_of_process by (metis, metis option.distinct(1))
    with Some show ?thesis
      by (simp add: GetProfile_window_def c g w drop_idle_def PipelineProfiler_GetProfile_def stream_profiles_Nil)
  qed
qed

lemma register_inv:
  assumes "mp_inv c [] m mp" "enable_profiling c" "enable_tracing c" "mp_config mp = c" "mp_has_tracer mp"
  shows "mp_inv c [] m (snd (RegisterProcessName n mp)) \<and> mp_config (snd (RegisterProcessName n mp)) = c \<and>
    mp_has_tracer (snd (RegisterProcessName n mp))"
  using assms traced_new [OF assms(2,3), where l = MODULE and n = n and m = m]
  by (auto simp: RegisterProcessName_def mp_inv_def)

lemma add_module_profilers_inv:
  assumes "enable_profiling c" "enable_tracing c"
  shows "smap_ok ms \<Longrightarrow> \<forall>m mp. map_of ms m = Some mp \<longrightarrow> mp_inv c [] m mp \<and> mp_config mp = c \<and> mp_has_tracer mp \<Longrightarrow>
    smap_ok (fold (add_module_profiler c) mods ms) \<and>
    (\<forall>m mp. map_of (fold (add_module_profiler c) mods ms) m = Some mp \<longrightarrow>
       mp_inv c [] m mp \<and> mp_config mp = c \<and> mp_has_tracer mp) \<and>
    set (map fst (fold (add_module_profiler c) mods ms)) = set (map fst ms) \<union> set (map fst mods)"
proof (induction mods arbitrary: ms)
  case Nil
  then show ?case by simp
next
  case (Cons x mods)
  obtain m b where x: "x = (m, b)" by fastforce
  define mp where "mp = (case map_of ms m of None \<Rightarrow> ModuleProfiler_new c m True | Some mp \<Rightarrow> mp)"
  define mp1 where "mp1 = snd (RegisterProcessName kPROCESS_PROFILER_NAME mp)"
  define mp2 where "mp2 = (if b then snd (RegisterProcessName kINPUT_PROFILER_NAME mp1) else mp1)"
  have add: "add_module_profiler c x ms = smap_put m mp2 ms"
    by (simp add: add_module_profiler_def x Let_def mp_def mp1_def mp2_def)
  have "mp_inv c [] m mp \<and> mp_config mp = c \<and> mp_has_tracer mp"
    using Cons.prems(2) by (auto simp: mp_def mp_inv_def ModuleProfiler_new_def split: option.split)
  then have "mp_inv c [] m mp1 \<and> mp_config mp1 = c \<and> mp_has_tracer mp1"
    using register_inv [OF _ assms, of m mp] by (simp add: mp1_def)
  then have mp2: "mp_inv c [] m mp2 \<and> mp_config mp2 = c \<and> mp_has_tracer mp2"
    using register_inv [OF _ assms, of m mp1] by (simp add: mp2_def)
  have keys: "set (map fst (smap_put m mp2 ms)) = insert m (set (map fst ms))"
    unfolding keys_dom [symmetric] by simp
  have prems: "smap_ok (smap_put m mp2 ms)"
    "\<forall>k mp. map_of (smap_put m mp2 ms) k = Some mp \<longrightarrow> mp_inv c [] k mp \<and> mp_config mp = c \<and> mp_has_tracer mp"
    using Cons.prems mp2 by auto
  from Cons.IH [OF prems] show ?case using keys unfolding add [symmetric] by (simp add: x)
qed

lemma plp_inv_new:
  assumes "enable_profiling c" "enable_tracing c"
  shows "plp_inv c sz [] (PipelineProfiler_new c name mods sorted_names sz) \<and>
    set (map fst (module_profilers (PipelineProfiler_new c name mods sorted_names sz))) = set (map fst mods)"
proof -
  have "pp_SetModuleName [] (ProcessProfiler_new c kOVERALL_PROCESS_NAME True) = ProcessProfiler_new c kOVERALL_PROCESS_NAME True"
    by (simp add: pp_SetModuleName_def ProcessProfiler_new_def)
  with traced_new [OF assms, where l = PIPELINE and n = kOVERALL_PROCESS_NAME and m = "[]"] add_module_profilers_inv [OF assms, of "[]" mods]
  show ?thesis by (simp add: plp_inv_def PipelineProfiler_new_def PipelineTracer_new_def reach_new)
qed

lemma call_known_mono: "list_all (call_known (map fst mods)) calls \<Longrightarrow> set (map fst mods) \<subseteq> set ms \<Longrightarrow> list_all (call_known ms) calls"
proof -
  assume a: "list_all (call_known (map fst mods)) calls" "set (map fst mods) \<subseteq> set ms"
  have "call_known ms x" if "call_known (map fst mods) x" for x using that a(2) by (cases x) auto
  with a(1) show ?thesis by (auto simp: list_all_iff)
qed



end
