(* ===== verification/TraceJson.thy ===== *)
theory TraceJson
  imports Tracing
begin

section \<open>Traces as JSON: TraceSerializeHelper\<close>

text \<open>
  \<^verbatim>\<open>framework/src/profiler/trace_serialize_helper.cpp\<close>.  The document is the list of its array's
  elements; rapidjson's reader and writer are the parameters \<open>parse\<close> and \<open>print\<close>, the file system's
  read and write of a file \<open>read_file\<close> and \<open>write_file\<close>.
\<close>

type_synonym TraceDoc = "json list"

definition TraceSerializeHelper_new :: TraceDoc where "TraceSerializeHelper_new = []"

definition DeserializeFromJSONStr :: "(string \<Rightarrow> json option) \<Rightarrow> string \<Rightarrow> TraceDoc option" where
  "DeserializeFromJSONStr parse jsonstr =
     (case parse jsonstr of
        None \<Rightarrow> None
      | Some doc \<Rightarrow> (case doc of JArray xs \<Rightarrow> Some xs | _ \<Rightarrow> None))"

definition DeserializeFromJSONFile :: "(string \<rightharpoonup> string) \<Rightarrow> (string \<Rightarrow> json option) \<Rightarrow> string \<Rightarrow> TraceDoc option" where
  "DeserializeFromJSONFile read_file parse filename =
     (case read_file filename of None \<Rightarrow> None | Some jstr \<Rightarrow> DeserializeFromJSONStr parse jstr)"

text \<open>A signed division that truncates, converted to 64 bits.\<close>

definition ToUs :: "Time \<Rightarrow> u64" where
  "ToUs t = word_of_int (if 0 \<le> t then t div 1000 else - ((- t) div 1000))"

definition GenerateValue :: "TraceElem \<Rightarrow> string \<Rightarrow> string \<Rightarrow> json" where
  "GenerateValue elem module_name process_name =
     (let (stream, ts) = tl_key elem
      in JObject (
        [(''name'', JString process_name)] @
        (case tl_type elem of
           START \<Rightarrow> [(''ph'', JString ''b'')]
         | END \<Rightarrow> [(''ph'', JString ''e''),
                   (''args'', JObject [(''stream_name'', JString stream), (''timestamp'', JInt ts)])]) @
        [(''ts'', JInt (uint (ToUs (tl_time elem)))),
         (''pid'', JString module_name),
         (''cat'', JString (stream @ ''_'' @ module_name @ ''_'' @ process_name)),
         (''id'', JInt ts)]))"

definition serialize_processes :: "string \<Rightarrow> ModuleTrace \<Rightarrow> TraceDoc \<Rightarrow> TraceDoc" where
  "serialize_processes module_name =
     fold (\<lambda>(process_name, process_trace). fold (\<lambda>elem doc. doc @ [GenerateValue elem module_name process_name]) process_trace)"

definition Serialize :: "PipelineTrace \<Rightarrow> TraceDoc \<Rightarrow> TraceDoc" where
  "Serialize trace doc =
     serialize_processes ''pipeline'' (process_traces trace)
       (fold (\<lambda>(module_name, mt). serialize_processes module_name mt) (module_traces trace) doc)"

definition Merge :: "TraceDoc \<Rightarrow> TraceDoc \<Rightarrow> TraceDoc" where
  "Merge t doc = fold (\<lambda>v doc. doc @ [v]) t doc"

definition ToJsonStr :: "(json \<Rightarrow> string) \<Rightarrow> TraceDoc \<Rightarrow> string" where
  "ToJsonStr print doc = print (JArray doc)"

definition ToFile ::
  "(string \<Rightarrow> string \<Rightarrow> (string \<rightharpoonup> string) option) \<Rightarrow> (json \<Rightarrow> string) \<Rightarrow> string \<Rightarrow> TraceDoc \<Rightarrow> (string \<rightharpoonup> string) option" where
  "ToFile write_file print filename doc = write_file filename (ToJsonStr print doc)"

definition TraceSerializeHelper_Reset :: "TraceDoc \<Rightarrow> TraceDoc" where
  "TraceSerializeHelper_Reset doc = TraceSerializeHelper_new"

subsection \<open>Reading the events back\<close>

text \<open>
  What a reader of the document can tell of an event: its module and process, its stream and
  timestamp, whether it starts or ends, and its time in microseconds.
\<close>

type_synonym TraceFact = "string \<times> string \<times> RecordKey \<times> u64 \<times> TraceType"

definition decode_event :: "json \<Rightarrow> TraceFact option" where
  "decode_event v =
     (case v of
        JObject ms \<Rightarrow>
          (case (map_of ms ''pid'', map_of ms ''name'', map_of ms ''cat'', map_of ms ''id'', map_of ms ''ts'', map_of ms ''ph'') of
             (Some (JString m), Some (JString n), Some (JString cat), Some (JInt i), Some (JInt t), Some (JString ph)) \<Rightarrow>
               Some (m, n, (take (length cat - (length m + length n + 2)) cat, i), word_of_int t, if ph = ''b'' then START else END)
           | _ \<Rightarrow> None)
      | _ \<Rightarrow> None)"

definition facts :: "string \<Rightarrow> ModuleTrace \<Rightarrow> TraceFact list" where
  "facts m mt = concat (map (\<lambda>(n, es). map (\<lambda>e. (m, n, tl_key e, ToUs (tl_time e), tl_type e)) es) mt)"

definition trace_facts :: "PipelineTrace \<Rightarrow> TraceFact list" where
  "trace_facts trace = concat (map (\<lambda>(m, mt). facts m mt) (module_traces trace)) @ facts ''pipeline'' (process_traces trace)"

lemma decode_GenerateValue:
  "decode_event (GenerateValue e m n) = Some (m, n, tl_key e, ToUs (tl_time e), tl_type e)"
  by (cases "tl_key e"; cases "tl_type e") (simp_all add: decode_event_def GenerateValue_def Let_def)

lemma fold_snoc: "fold (\<lambda>x doc. doc @ [f x]) xs doc = doc @ map f xs"
  by (induction xs arbitrary: doc) simp_all

lemma Merge_append: "Merge t doc = doc @ t"
  by (induction t arbitrary: doc) (simp_all add: Merge_def)

lemma fold_append: "(\<And>x d. map g (f x d) = map g d @ h x) \<Longrightarrow> map g (fold f xs doc) = map g doc @ concat (map h xs)"
  by (induction xs arbitrary: doc) simp_all

lemma serialize_processes_facts:
  "map decode_event (serialize_processes m mt doc) = map decode_event doc @ map Some (facts m mt)"
  unfolding serialize_processes_def facts_def map_concat map_map
  by (rule fold_append) (auto simp: fold_snoc decode_GenerateValue)

lemma Serialize_facts: "map decode_event (Serialize trace doc) = map decode_event doc @ map Some (trace_facts trace)"
proof -
  have "map decode_event (fold (\<lambda>(m, mt). serialize_processes m mt) (module_traces trace) doc) =
      map decode_event doc @ concat (map (map Some \<circ> (\<lambda>(m, mt). facts m mt)) (module_traces trace))"
    by (rule fold_append) (auto simp: serialize_processes_facts)
  then show ?thesis
    by (simp add: Serialize_def serialize_processes_facts trace_facts_def map_concat)
qed

text \<open>C35. Serializing traces.  Serialize two traces in two helpers, merge the second into the first,
  write the text and read it back (\<open>parse\<close> gives back the value that \<open>print\<close> wrote): the document has
  exactly the events of both traces, in their order, each with its module, process, stream,
  timestamp, kind and its time in microseconds.\<close>

theorem trace_json_roundtrip:
  assumes "parse (print (JArray (Merge (Serialize trace2 TraceSerializeHelper_new) (Serialize trace1 TraceSerializeHelper_new)))) =
    Some (JArray (Merge (Serialize trace2 TraceSerializeHelper_new) (Serialize trace1 TraceSerializeHelper_new)))"
  shows "map_option (map decode_event)
      (DeserializeFromJSONStr parse
        (ToJsonStr print (Merge (Serialize trace2 TraceSerializeHelper_new) (Serialize trace1 TraceSerializeHelper_new)))) =
    Some (map Some (trace_facts trace1 @ trace_facts trace2))"
proof -
  define doc where "doc = Merge (Serialize trace2 TraceSerializeHelper_new) (Serialize trace1 TraceSerializeHelper_new)"
  have "DeserializeFromJSONStr parse (ToJsonStr print doc) = Some doc"
    using assms by (simp add: doc_def [symmetric] DeserializeFromJSONStr_def ToJsonStr_def)
  moreover have "map decode_event doc = map Some (trace_facts trace1 @ trace_facts trace2)"
    by (simp add: doc_def Merge_append Serialize_facts TraceSerializeHelper_new_def)
  ultimately show ?thesis by (simp add: doc_def)
qed

theorem trace_json_roundtrip_witness:
  "\<exists>parse print. map_option (map decode_event)
      (DeserializeFromJSONStr parse
        (ToJsonStr print (Merge (Serialize \<lparr>process_traces = [], module_traces = [(''m'', [(''PROCESS'', [\<lparr>tl_key = (''s'', 4), tl_time = 5000, tl_type = END\<rparr>])])]\<rparr>
            TraceSerializeHelper_new)
          (Serialize \<lparr>process_traces = [(''OVERALL'', [\<lparr>tl_key = (''s'', 4), tl_time = 2000, tl_type = START\<rparr>])], module_traces = []\<rparr>
            TraceSerializeHelper_new)))) =
    Some [Some (''pipeline'', ''OVERALL'', (''s'', 4), 2, START), Some (''m'', ''PROCESS'', (''s'', 4), 5, END)]"
proof -
  let ?t1 = "\<lparr>process_traces = [(''OVERALL'', [\<lparr>tl_key = (''s'', 4), tl_time = 2000, tl_type = START\<rparr>])], module_traces = []\<rparr>"
  let ?t2 = "\<lparr>process_traces = [], module_traces = [(''m'', [(''PROCESS'', [\<lparr>tl_key = (''s'', 4), tl_time = 5000, tl_type = END\<rparr>])])]\<rparr>"
  let ?doc = "JArray (Merge (Serialize ?t2 TraceSerializeHelper_new) (Serialize ?t1 TraceSerializeHelper_new))"
  have "trace_facts ?t1 @ trace_facts ?t2 = [(''pipeline'', ''OVERALL'', (''s'', 4), 2, START), (''m'', ''PROCESS'', (''s'', 4), 5, END)]"
    by (simp add: trace_facts_def facts_def ToUs_def)
  with trace_json_roundtrip [of "\<lambda>s. Some ?doc" "\<lambda>v. []" ?t2 ?t1] show ?thesis
    by (intro exI [of _ "\<lambda>s. Some ?doc"] exI [of _ "\<lambda>v. []"]) simp
qed

end
