(* ===== verification/TrackMatrix.thy ===== *)
theory TrackMatrix
  imports Complex_Main Prelude
begin

section \<open>The tracker's matrices\<close>

text \<open>
  \<^verbatim>\<open>modules/track/src/easytrack/src/matrix.h\<close> and \<^verbatim>\<open>matrix.cpp\<close>.  Floats and doubles are exact real numbers; a
  matrix keeps the code's flat array with its shape.  A fatal log is the fault \<open>LogFatal\<close>; a loop that
  might not end gives an option.  The two work arrays of the inversion are functions of row and column.
\<close>

subsection \<open>Runs\<close>

text \<open>A call that may not return (\<open>None\<close>) or may fault.\<close>

type_synonym 'a run = "'a result option"

definition ret :: "'a \<Rightarrow> 'a run" where "ret x = Some (Inr x)"

fun run_bind :: "'a run \<Rightarrow> ('a \<Rightarrow> 'b run) \<Rightarrow> 'b run" where
  "run_bind None f = None"
| "run_bind (Some (Inl e)) f = Some (Inl e)"
| "run_bind (Some (Inr x)) f = f x"

lemma run_bind_ret [simp]: "run_bind (ret x) f = f x"
  by (simp add: ret_def)

lemma ret_inject [simp]: "ret x = ret y \<longleftrightarrow> x = y"
  by (simp add: ret_def)

lemma run_bind_eq_ret: "run_bind r f = ret y \<longleftrightarrow> (\<exists>x. r = ret x \<and> f x = ret y)"
  by (cases "(r, f)" rule: run_bind.cases) (auto simp: ret_def)

definition run_if :: "bool \<Rightarrow> 'a \<Rightarrow> 'a run" where
  "run_if ok x = (if ok then ret x else Some (Inl LogFatal))"

subsection \<open>Matrices\<close>

record Matrix =
  mat_arrays :: "real list"
  mat_rows :: nat
  mat_cols :: nat

definition Matrix_new :: "nat \<Rightarrow> nat \<Rightarrow> Matrix" where
  "Matrix_new r c = \<lparr>mat_arrays = replicate (r * c) 0, mat_rows = r, mat_cols = c\<rparr>"

definition Rows :: "Matrix \<Rightarrow> nat" where "Rows M = mat_rows M"
definition Cols :: "Matrix \<Rightarrow> nat" where "Cols M = mat_cols M"
definition Matrix_Size :: "Matrix \<Rightarrow> nat" where "Matrix_Size M = mat_cols M * mat_rows M"
definition Matrix_Empty :: "Matrix \<Rightarrow> bool" where "Matrix_Empty M \<longleftrightarrow> Matrix_Size M = 0"
definition Square :: "Matrix \<Rightarrow> bool" where "Square M \<longleftrightarrow> \<not> Matrix_Empty M \<and> mat_rows M = mat_cols M"

definition Matrix_init :: "real list \<Rightarrow> nat \<Rightarrow> nat \<Rightarrow> Matrix run" where
  "Matrix_init xs r c = run_if (length xs = r * c) \<lparr>mat_arrays = xs, mat_rows = r, mat_cols = c\<rparr>"

definition Resize :: "nat \<Rightarrow> nat \<Rightarrow> Matrix \<Rightarrow> Matrix" where
  "Resize r c M =
     (if r = mat_rows M \<and> c = mat_cols M then M
      else \<lparr>mat_arrays = take (r * c) (mat_arrays M) @ replicate (r * c - length (mat_arrays M)) 0, mat_rows = r, mat_cols = c\<rparr>)"

definition Fill :: "real \<Rightarrow> Matrix \<Rightarrow> Matrix" where
  "Fill x M = (if Matrix_Empty M then M else M\<lparr>mat_arrays := replicate (Matrix_Size M) x\<rparr>)"

definition elem :: "Matrix \<Rightarrow> nat \<Rightarrow> nat \<Rightarrow> real" where
  "elem M r c = mat_arrays M ! (r * mat_cols M + c)"

definition set_elem :: "nat \<Rightarrow> nat \<Rightarrow> real \<Rightarrow> Matrix \<Rightarrow> Matrix" where
  "set_elem r c x M = M\<lparr>mat_arrays := (mat_arrays M)[r * mat_cols M + c := x]\<rparr>"

text \<open>The double loops that write \<^verbatim>\<open>m(i, j)\<close> for every row and column.\<close>

definition mat :: "nat \<Rightarrow> nat \<Rightarrow> (nat \<Rightarrow> nat \<Rightarrow> real) \<Rightarrow> Matrix" where
  "mat r c f = fold (\<lambda>i. fold (\<lambda>j. set_elem i j (f i j)) [0..<c]) [0..<r] (Matrix_new r c)"

definition plus_assign :: "Matrix \<Rightarrow> Matrix \<Rightarrow> Matrix run" where
  "plus_assign A B =
     run_if (Rows A = Rows B \<and> Cols A = Cols B) (A\<lparr>mat_arrays := map (\<lambda>i. mat_arrays A ! i + mat_arrays B ! i) [0..<Matrix_Size A]\<rparr>)"

definition minus_assign :: "Matrix \<Rightarrow> Matrix \<Rightarrow> Matrix run" where
  "minus_assign A B =
     run_if (Rows A = Rows B \<and> Cols A = Cols B) (A\<lparr>mat_arrays := map (\<lambda>i. mat_arrays A ! i - mat_arrays B ! i) [0..<Matrix_Size A]\<rparr>)"

definition Matrix_plus :: "Matrix \<Rightarrow> Matrix \<Rightarrow> Matrix run" where
  "Matrix_plus lhs rhs = plus_assign lhs rhs"

definition Matrix_minus :: "Matrix \<Rightarrow> Matrix \<Rightarrow> Matrix run" where
  "Matrix_minus lhs rhs = minus_assign lhs rhs"

definition Matrix_times :: "Matrix \<Rightarrow> Matrix \<Rightarrow> Matrix run" where
  "Matrix_times lhs rhs =
     run_if (Cols lhs = Rows rhs)
       (mat (Rows lhs) (Cols rhs) (\<lambda>i j. fold (\<lambda>k sum. sum + elem lhs i k * elem rhs k j) [0..<Cols lhs] 0))"

definition Trans :: "Matrix \<Rightarrow> Matrix run" where
  "Trans M = run_if (\<not> Matrix_Empty M) (mat (Cols M) (Rows M) (\<lambda>i j. mat_arrays M ! (j * mat_cols M + i)))"

definition Matrix_eq :: "Matrix \<Rightarrow> Matrix \<Rightarrow> bool" where
  "Matrix_eq lhs rhs \<longleftrightarrow> Rows lhs = Rows rhs \<and> Cols lhs = Cols rhs \<and>
     list_all (\<lambda>i. list_all (\<lambda>j. elem lhs i j = elem rhs i j) [0..<Cols lhs]) [0..<Rows lhs]"

subsection \<open>Inversion: decomposition into triangular matrices\<close>

definition upd2 :: "(nat \<Rightarrow> nat \<Rightarrow> 'a) \<Rightarrow> nat \<Rightarrow> nat \<Rightarrow> 'a \<Rightarrow> nat \<Rightarrow> nat \<Rightarrow> 'a" where
  "upd2 f r c v = f(r := (f r)(c := v))"

lemma upd2_apply: "upd2 f r c v r' c' = (if r' = r \<and> c' = c then v else f r' c')"
  by (simp add: upd2_def)

text \<open>The search of column \<open>i\<close> for its largest element, from row \<open>i\<close> on; \<open>row\<close> keeps its old value without one.\<close>

definition pivot_pass :: "nat \<Rightarrow> nat \<Rightarrow> (nat \<Rightarrow> nat \<Rightarrow> real) \<Rightarrow> nat \<Rightarrow> real \<times> nat" where
  "pivot_pass n i A row =
     fold (\<lambda>j (p, row). if p < \<bar>A j i\<bar> then (\<bar>A j i\<bar>, j) else (p, row)) [i..<n] (0, row)"

partial_function (option) pivot_loop :: "nat \<Rightarrow> nat \<Rightarrow> (nat \<Rightarrow> nat \<Rightarrow> real) \<Rightarrow> nat \<Rightarrow> ((nat \<Rightarrow> nat \<Rightarrow> real) \<times> nat) option" where
  "pivot_loop n i A row =
     (case pivot_pass n i A row of
        (p, row') \<Rightarrow> if p \<noteq> 0 then Some (A, row') else pivot_loop n i (upd2 A i i (A i i + 1 / 100000)) row')"

definition swap_rows :: "nat \<Rightarrow> nat \<Rightarrow> nat \<Rightarrow> (nat \<Rightarrow> nat \<Rightarrow> real) \<Rightarrow> nat \<Rightarrow> nat \<Rightarrow> real" where
  "swap_rows n i row A = fold (\<lambda>j A. upd2 (upd2 A i j (A row j)) row j (A i j)) [0..<n] A"

definition eliminate_row :: "nat \<Rightarrow> nat \<Rightarrow> real \<Rightarrow> nat \<Rightarrow> (nat \<Rightarrow> nat \<Rightarrow> real) \<Rightarrow> nat \<Rightarrow> nat \<Rightarrow> real" where
  "eliminate_row n i u j A =
     (let l = A j i / u in fold (\<lambda>k A. upd2 A j k (A j k - A i k * l)) [Suc i..<n] (upd2 A j i l))"

definition lup_step :: "nat \<Rightarrow> nat \<Rightarrow> (nat \<Rightarrow> nat \<Rightarrow> real) \<times> (nat \<Rightarrow> nat) \<times> nat \<Rightarrow> ((nat \<Rightarrow> nat \<Rightarrow> real) \<times> (nat \<Rightarrow> nat) \<times> nat) option" where
  "lup_step n i st =
     (case st of (A, P, row) \<Rightarrow>
        (case pivot_loop n i A row of
           None \<Rightarrow> None
         | Some (A1, row1) \<Rightarrow>
             (let A2 = swap_rows n i row1 A1
              in Some (fold (eliminate_row n i (A2 i i)) [Suc i..<n] A2, P(i := P row1, row1 := P i), row1))))"

fun lup_loop :: "nat \<Rightarrow> nat list \<Rightarrow> (nat \<Rightarrow> nat \<Rightarrow> real) \<times> (nat \<Rightarrow> nat) \<times> nat \<Rightarrow> ((nat \<Rightarrow> nat \<Rightarrow> real) \<times> (nat \<Rightarrow> nat) \<times> nat) option" where
  "lup_loop n [] st = Some st"
| "lup_loop n (i # is) st = (case lup_step n i st of None \<Rightarrow> None | Some st' \<Rightarrow> lup_loop n is st')"

text \<open>\<open>L\<close> and \<open>U\<close> start as zeros.\<close>

definition lower :: "(nat \<Rightarrow> nat \<Rightarrow> real) \<Rightarrow> nat \<Rightarrow> nat \<Rightarrow> real" where
  "lower A i j = (if j < i then A i j else if j = i then 1 else 0)"

definition upper :: "(nat \<Rightarrow> nat \<Rightarrow> real) \<Rightarrow> nat \<Rightarrow> nat \<Rightarrow> real" where
  "upper A i k = (if i \<le> k then A i k else 0)"

definition LupDescomposition :: "nat \<Rightarrow> (nat \<Rightarrow> nat \<Rightarrow> real) \<Rightarrow> ((nat \<Rightarrow> nat \<Rightarrow> real) \<times> (nat \<Rightarrow> nat \<Rightarrow> real) \<times> (nat \<Rightarrow> nat)) option" where
  "LupDescomposition n A =
     map_option (\<lambda>(A, P, row). (lower A, upper A, P)) (lup_loop n [0..<n - 1] (A, (\<lambda>i. i), 0))"

definition forward_row :: "(nat \<Rightarrow> nat \<Rightarrow> real) \<Rightarrow> (nat \<Rightarrow> real) \<Rightarrow> nat \<Rightarrow> (nat \<Rightarrow> real) \<Rightarrow> real" where
  "forward_row L b i y = fold (\<lambda>j v. v - L i j * y j) [0..<i] (b i)"

definition backward_row :: "nat \<Rightarrow> (nat \<Rightarrow> nat \<Rightarrow> real) \<Rightarrow> (nat \<Rightarrow> real) \<Rightarrow> nat \<Rightarrow> (nat \<Rightarrow> real) \<Rightarrow> real" where
  "backward_row n U y i x = fold (\<lambda>j v. v - U i j * x j) (rev [Suc i..<n]) (y i) / U i i"

definition SolveLup :: "nat \<Rightarrow> (nat \<Rightarrow> nat \<Rightarrow> real) \<Rightarrow> (nat \<Rightarrow> nat \<Rightarrow> real) \<Rightarrow> (nat \<Rightarrow> nat) \<Rightarrow> (nat \<Rightarrow> int) \<Rightarrow> nat \<Rightarrow> real" where
  "SolveLup n L U P b =
     (let y = fold (\<lambda>i y. y(i := forward_row L (\<lambda>i. of_int (b (P i))) i y)) [0..<n] (\<lambda>i. 0)
      in fold (\<lambda>i x. x(i := backward_row n U y i x)) (rev [0..<n]) (\<lambda>i. 0))"

subsection \<open>Inversion: transposition in place\<close>

definition GetNext :: "nat \<Rightarrow> nat \<Rightarrow> nat \<Rightarrow> nat" where "GetNext i m n = (i mod n) * m + i div n"
definition GetPre :: "nat \<Rightarrow> nat \<Rightarrow> nat \<Rightarrow> nat" where "GetPre i m n = (i mod m) * n + i div m"

partial_function (option) move_loop :: "nat \<Rightarrow> nat \<Rightarrow> nat \<Rightarrow> nat \<Rightarrow> nat \<Rightarrow> real list \<Rightarrow> (real list \<times> nat) option" where
  "move_loop m n i cur pre mtx =
     (if pre \<noteq> i then move_loop m n i pre (GetPre pre m n) (mtx[cur := mtx ! pre]) else Some (mtx, cur))"

definition MoveData :: "nat \<Rightarrow> nat \<Rightarrow> nat \<Rightarrow> real list \<Rightarrow> real list option" where
  "MoveData m n i mtx =
     map_option (\<lambda>(mtx', cur). mtx'[cur := mtx ! i]) (move_loop m n i i (GetPre i m n) mtx)"

partial_function (option) next_loop :: "nat \<Rightarrow> nat \<Rightarrow> nat \<Rightarrow> nat \<Rightarrow> nat option" where
  "next_loop m n i next = (if i < next then next_loop m n i (GetNext next m n) else Some next)"

fun transpose_loop :: "nat \<Rightarrow> nat \<Rightarrow> nat list \<Rightarrow> real list \<Rightarrow> real list option" where
  "transpose_loop m n [] mtx = Some mtx"
| "transpose_loop m n (i # is) mtx =
     (case next_loop m n i (GetNext i m n) of
        None \<Rightarrow> None
      | Some next \<Rightarrow>
          if next = i
          then (case MoveData m n i mtx of None \<Rightarrow> None | Some mtx' \<Rightarrow> transpose_loop m n is mtx')
          else transpose_loop m n is mtx)"

definition Transpose :: "nat \<Rightarrow> nat \<Rightarrow> real list \<Rightarrow> real list option" where
  "Transpose m n mtx = transpose_loop m n [0..<m * n] mtx"

definition SolveInverse :: "nat \<Rightarrow> (nat \<Rightarrow> nat \<Rightarrow> real) \<Rightarrow> real list option" where
  "SolveInverse n A =
     (case LupDescomposition n A of
        None \<Rightarrow> None
      | Some (L, U, P) \<Rightarrow>
          Transpose n n (concat (map (\<lambda>i. map (SolveLup n L U P (\<lambda>j. if j = i then 1 else 0)) [0..<n]) [0..<n])))"

definition Inv :: "Matrix \<Rightarrow> Matrix run" where
  "Inv M =
     (if \<not> Square M then Some (Inl LogFatal)
      else map_option (\<lambda>inv. Inr \<lparr>mat_arrays = inv, mat_rows = Rows M, mat_cols = Rows M\<rparr>) (SolveInverse (Rows M) (elem M)))"

end
