(* ===== verification/MatrixProps.thy ===== *)
theory MatrixProps
  imports TrackMatrix
begin

section \<open>Properties of the tracker's matrices\<close>

text \<open>
  The elements and shapes of sums, products and transposes, and that \<^verbatim>\<open>Inv\<close> inverts every matrix whose
  columns are independent, with the loops of the decomposition and of the transposition ended.
\<close>

subsection \<open>Elements and shapes\<close>

definition shape :: "nat \<Rightarrow> nat \<Rightarrow> Matrix \<Rightarrow> bool" where
  "shape r c M \<longleftrightarrow> mat_rows M = r \<and> mat_cols M = c \<and> length (mat_arrays M) = r * c"

lemma flat_less: "i < r \<Longrightarrow> j < c \<Longrightarrow> i * c + j < r * (c :: nat)"
proof -
  assume "i < r" "j < c"
  then have "i * c + j < Suc i * c" by simp
  also have "\<dots> \<le> r * c" using \<open>i < r\<close> by (intro mult_le_mono1) simp
  finally show ?thesis .
qed

lemma flat_inject: "j < c \<Longrightarrow> j' < c \<Longrightarrow> i * c + j = i' * c + j' \<longleftrightarrow> i = i' \<and> j = (j' :: nat)"
proof -
  assume "j < c" "j' < c"
  then have "(i * c + j) div c = i" "(i * c + j) mod c = j" "(i' * c + j') div c = i'" "(i' * c + j') mod c = j'" by auto
  then show ?thesis by metis
qed

lemma flat_surj:
  assumes "k < r * (c :: nat)"
  shows "\<exists>i j. i < r \<and> j < c \<and> k = i * c + j"
proof (intro exI conjI)
  from assms have "0 < c" by (cases c) auto
  then show "k mod c < c" by simp
  show "k div c < r" using assms by (simp add: less_mult_imp_div_less)
  show "k = k div c * c + k mod c" by simp
qed

lemma shape_set_elem [simp]: "shape r c (set_elem i j x M) \<longleftrightarrow> shape r c M"
  by (simp add: shape_def set_elem_def)

lemma elem_set_elem:
  assumes "shape r c M" "i < r" "j < c" "i' < r" "j' < c"
  shows "elem (set_elem i j x M) i' j' = (if i' = i \<and> j' = j then x else elem M i' j')"
  using assms flat_less [of i r j c] flat_inject [of j c j' i i'] by (auto simp: shape_def elem_def set_elem_def nth_list_update)

lemma fold_set_row:
  assumes "shape r c M" "i < r" "n \<le> c" "M' = fold (\<lambda>j. set_elem i j (f i j)) [0..<n] M"
  shows "shape r c M' \<and> (\<forall>i'<r. \<forall>j'<c. elem M' i' j' = (if i' = i \<and> j' < n then f i j' else elem M i' j'))"
  unfolding assms(4) using assms(3)
proof (induction n)
  case (Suc n)
  then show ?case using assms(2) elem_set_elem [of r c "fold (\<lambda>j. set_elem i j (f i j)) [0..<n] M" i n]
    by (auto simp: less_Suc_eq)
qed (use assms(1) in simp)

lemma mat_spec: "shape r c (mat r c f) \<and> (\<forall>i<r. \<forall>j<c. elem (mat r c f) i j = f i j)"
proof -
  have "shape r c M' \<and> (\<forall>i<r. \<forall>j<c. elem M' i j = (if i < n then f i j else 0))"
    if "n \<le> r" "M' = fold (\<lambda>i. fold (\<lambda>j. set_elem i j (f i j)) [0..<c]) [0..<n] (Matrix_new r c)" for n M'
    using that
  proof (induction n arbitrary: M')
    case 0
    then show ?case using flat_less by (auto simp: Matrix_new_def shape_def elem_def)
  next
    case (Suc n)
    let ?M = "fold (\<lambda>i. fold (\<lambda>j. set_elem i j (f i j)) [0..<c]) [0..<n] (Matrix_new r c)"
    have IH: "shape r c ?M \<and> (\<forall>i<r. \<forall>j<c. elem ?M i j = (if i < n then f i j else 0))"
      using Suc.IH [OF _ refl] Suc.prems(1) by simp
    have "shape r c M' \<and> (\<forall>i'<r. \<forall>j'<c. elem M' i' j' = (if i' = n \<and> j' < c then f n j' else elem ?M i' j'))"
      using IH Suc.prems by (intro fold_set_row) auto
    then show ?case using IH by (auto simp: less_Suc_eq)
  qed
  from this [of r] show ?thesis by (simp add: mat_def)
qed

lemma shape_mat [simp, intro]: "shape r c (mat r c f)" using mat_spec by blast
lemma elem_mat [simp]: "i < r \<Longrightarrow> j < c \<Longrightarrow> elem (mat r c f) i j = f i j" using mat_spec by blast

lemma shapeD: "shape r c M \<Longrightarrow> Rows M = r \<and> Cols M = c \<and> Matrix_Size M = r * c"
  by (simp add: shape_def Rows_def Cols_def Matrix_Size_def)

lemma mat_eqI:
  assumes "shape r c A" "shape r c B" "\<And>i j. i < r \<Longrightarrow> j < c \<Longrightarrow> elem A i j = elem B i j"
  shows "A = B"
proof -
  have "mat_arrays A = mat_arrays B"
  proof (rule nth_equalityI)
    fix k assume "k < length (mat_arrays A)"
    then obtain i j where "i < r" "j < c" "k = i * c + j" using flat_surj assms(1) by (metis shape_def)
    then show "mat_arrays A ! k = mat_arrays B ! k" using assms by (simp add: elem_def shape_def)
  qed (use assms(1,2) in \<open>simp add: shape_def\<close>)
  then show ?thesis using assms(1,2) by (cases A; cases B) (simp add: shape_def)
qed

lemma mat_elem: "shape r c M \<Longrightarrow> mat r c (elem M) = M" by (rule mat_eqI [of r c]) auto

lemma mat_cong: "(\<And>i j. i < r \<Longrightarrow> j < c \<Longrightarrow> f i j = g i j) \<Longrightarrow> mat r c f = mat r c g"
  by (rule mat_eqI [of r c]) auto

lemma fold_plus: "fold (\<lambda>k s. s + f k) [0..<n] (a :: real) = a + (\<Sum>k<n. f k)"
  by (induction n) auto

lemma fold_minus_list: "distinct xs \<Longrightarrow> fold (\<lambda>k s. s - f k) xs (a :: real) = a - (\<Sum>k\<in>set xs. f k)"
  by (induction xs arbitrary: a) auto

lemma Matrix_times_ok:
  assumes "shape r n A" "shape n c B"
  shows "Matrix_times A B = ret (mat r c (\<lambda>i j. \<Sum>k<n. elem A i k * elem B k j))"
  using shapeD [OF assms(1)] shapeD [OF assms(2)] by (simp add: Matrix_times_def run_if_def fold_plus)

lemma Trans_ok:
  assumes "shape r c M" "0 < r" "0 < c"
  shows "Trans M = ret (mat c r (\<lambda>i j. elem M j i))"
  using shapeD [OF assms(1)] assms by (simp add: Trans_def run_if_def Matrix_Empty_def elem_def)

lemma pointwise_mat:
  assumes "shape r c A" "\<And>i j. i < r \<Longrightarrow> j < c \<Longrightarrow> g (i * c + j) = f i j"
  shows "A\<lparr>mat_arrays := map g [0..<r * c]\<rparr> = mat r c f"
proof (rule mat_eqI [of r c])
  show "shape r c (A\<lparr>mat_arrays := map g [0..<r * c]\<rparr>)" using assms(1) by (simp add: shape_def)
  fix i j assume "i < r" "j < c"
  then show "elem (A\<lparr>mat_arrays := map g [0..<r * c]\<rparr>) i j = elem (mat r c f) i j"
    using assms flat_less [of i r j c] by (simp add: elem_def [of "A\<lparr>mat_arrays := map g [0..<r * c]\<rparr>"] shape_def)
qed (rule shape_mat)

lemma Matrix_plus_ok:
  assumes "shape r c A" "shape r c B"
  shows "Matrix_plus A B = ret (mat r c (\<lambda>i j. elem A i j + elem B i j))"
  using assms shapeD [OF assms(1)] shapeD [OF assms(2)]
  by (simp add: Matrix_plus_def plus_assign_def run_if_def pointwise_mat [of r c] elem_def shape_def)

lemma Matrix_minus_ok:
  assumes "shape r c A" "shape r c B"
  shows "Matrix_minus A B = ret (mat r c (\<lambda>i j. elem A i j - elem B i j))"
  using assms shapeD [OF assms(1)] shapeD [OF assms(2)]
  by (simp add: Matrix_minus_def minus_assign_def run_if_def pointwise_mat [of r c] elem_def shape_def)

lemma Matrix_eq_iff: "shape r c A \<Longrightarrow> shape r' c' B \<Longrightarrow> Matrix_eq A B \<longleftrightarrow> A = B"
proof
  assume s: "shape r c A" "shape r' c' B" and e: "Matrix_eq A B"
  then have "r = r'" "c = c'" "\<forall>i<r. \<forall>j<c. elem A i j = elem B i j"
    by (auto simp: Matrix_eq_def shape_def Rows_def Cols_def list_all_iff)
  then show "A = B" using s by (intro mat_eqI) auto
qed (auto simp: Matrix_eq_def list_all_iff)


subsection \<open>Triangular systems\<close>

text \<open>A loop that sets one entry after another, each from entries set before it.\<close>

lemma fold_fun_upd:
  assumes "distinct is"
    and "\<And>done i rest x x'. is = done @ i # rest \<Longrightarrow> (\<And>j. j \<in> set done \<Longrightarrow> x j = x' j) \<Longrightarrow> g i x = g i (x' :: nat \<Rightarrow> real)"
  shows "\<forall>i\<in>set is. fold (\<lambda>i x. x(i := g i x)) is x i = g i (fold (\<lambda>i x. x(i := g i x)) is x)"
  using assms
proof (induction "is" rule: rev_induct)
  case (snoc k ks)
  let ?X = "fold (\<lambda>i x. x(i := g i x)) ks x"
  have k: "k \<notin> set ks" using snoc.prems(1) by simp
  have IH: "\<forall>i\<in>set ks. ?X i = g i ?X"
    using snoc.prems by (intro snoc.IH) (simp, metis append.assoc append_Cons)
  have eq: "g i ?X = g i (?X(k := g k ?X))" if "i \<in> set (ks @ [k])" for i
  proof -
    from split_list [OF that] obtain ys zs where "ks @ [k] = ys @ i # zs" by blast
    moreover from this have "k \<notin> set ys" using k by (cases zs rule: rev_cases) auto
    then have "?X j = (?X(k := g k ?X)) j" if "j \<in> set ys" for j using that by auto
    ultimately show ?thesis by (rule snoc.prems(2))
  qed
  show ?case
  proof
    fix i assume i: "i \<in> set (ks @ [k])"
    have "(?X(k := g k ?X)) i = g i ?X" using IH i by (cases "i = k") auto
    also note eq [OF i]
    finally show "fold (\<lambda>i x. x(i := g i x)) (ks @ [k]) x i = g i (fold (\<lambda>i x. x(i := g i x)) (ks @ [k]) x)" by simp
  qed
qed simp

lemma upt_split:
  assumes "[0..<n] = pre @ k # rest"
  shows "set pre = {..<k} \<and> set rest = {k<..<n}"
proof -
  have len: "n = Suc (length pre + length rest)" using arg_cong [OF assms, of length] by simp
  have "[0..<n] ! length pre = k" unfolding assms by simp
  then have k: "length pre = k" using len by (simp del: upt_Suc)
  have "pre = take k [0..<n]" unfolding assms k [symmetric] by simp
  also have "\<dots> = [0..<k]" using len k by (simp add: take_upt del: upt_Suc)
  finally have pre: "pre = [0..<k]" .
  have "rest = drop (Suc k) [0..<n]" unfolding assms k [symmetric] by simp
  then have "rest = [Suc k..<n]" by (simp add: drop_upt)
  with pre show ?thesis by auto
qed

lemma forward_ok:
  fixes b :: "nat \<Rightarrow> real" and L :: "nat \<Rightarrow> nat \<Rightarrow> real" and n :: nat
  defines "y \<equiv> fold (\<lambda>i y. y(i := forward_row L b i y)) [0..<n] (\<lambda>i. 0)"
  assumes "i < n"
  shows "y i = b i - (\<Sum>j<i. L i j * y j)"
proof -
  have row: "forward_row L b i z = b i - (\<Sum>j<i. L i j * z j)" for i z
    by (simp add: forward_row_def fold_minus_list atLeast0LessThan)
  have "\<forall>i\<in>set [0..<n]. y i = forward_row L b i y" unfolding y_def
  proof (rule fold_fun_upd)
    fix pre k rest and z z' :: "nat \<Rightarrow> real"
    assume "[0..<n] = pre @ k # rest" "\<And>j. j \<in> set pre \<Longrightarrow> z j = z' j"
    then have "\<forall>j<k. z j = z' j" using upt_split by blast
    then show "forward_row L b k z = forward_row L b k z'" unfolding row by simp
  qed simp
  then show ?thesis using assms(2) row by simp
qed

lemma backward_ok:
  fixes y :: "nat \<Rightarrow> real" and U :: "nat \<Rightarrow> nat \<Rightarrow> real" and n :: nat
  defines "x \<equiv> fold (\<lambda>i x. x(i := backward_row n U y i x)) (rev [0..<n]) (\<lambda>i. 0)"
  assumes "i < n" "U i i \<noteq> 0"
  shows "U i i * x i + (\<Sum>j\<in>{i<..<n}. U i j * x j) = y i"
proof -
  have row: "backward_row n U y i z = (y i - (\<Sum>j\<in>{i<..<n}. U i j * z j)) / U i i" for i z
    by (simp add: backward_row_def fold_minus_list atLeastSucLessThan_greaterThanLessThan)
  have "\<forall>i\<in>set (rev [0..<n]). x i = backward_row n U y i x" unfolding x_def
  proof (rule fold_fun_upd)
    fix pre k rest and z z' :: "nat \<Rightarrow> real"
    assume e: "rev [0..<n] = pre @ k # rest" and z: "\<And>j. j \<in> set pre \<Longrightarrow> z j = z' j"
    from arg_cong [OF e, of rev] have "[0..<n] = rev rest @ k # rev pre" by simp
    from upt_split [OF this] have "{k<..<n} = set pre" by simp
    then show "backward_row n U y k z = backward_row n U y k z'" unfolding row using z by (simp add: subset_iff)
  qed simp
  then show ?thesis using assms(2,3) row by simp
qed


subsection \<open>The decomposition\<close>

text \<open>
  Before column \<open>i\<close>: the first \<open>i\<close> columns of the work array hold factors \<open>lower\<close> and \<open>upper\<close>, the rest
  the matrix still to decompose; \<open>P\<close> says where its rows come from.
\<close>

definition partial_lu :: "(nat \<Rightarrow> nat \<Rightarrow> real) \<Rightarrow> nat \<Rightarrow> nat \<Rightarrow> nat \<Rightarrow> real" where
  "partial_lu A i r c = (\<Sum>k<i. lower A r k * upper A k c) + (if i \<le> r \<and> i \<le> c then A r c else 0)"

definition lup_inv :: "nat \<Rightarrow> (nat \<Rightarrow> nat \<Rightarrow> real) \<Rightarrow> nat \<Rightarrow> (nat \<Rightarrow> nat \<Rightarrow> real) \<Rightarrow> (nat \<Rightarrow> nat) \<Rightarrow> bool" where
  "lup_inv n B i A P \<longleftrightarrow> bij_betw P {..<n} {..<n} \<and> (\<forall>k<i. A k k \<noteq> 0) \<and>
     (\<forall>r<n. \<forall>c<n. B (P r) c = partial_lu A i r c)"

definition independent_columns :: "nat \<Rightarrow> (nat \<Rightarrow> nat \<Rightarrow> real) \<Rightarrow> bool" where
  "independent_columns n B \<longleftrightarrow> (\<forall>x. (\<forall>r<n. (\<Sum>c<n. B r c * x c) = 0) \<longrightarrow> (\<forall>c<n. x c = 0))"

lemma independent_columnsD:
  "independent_columns n B \<Longrightarrow> (\<And>r. r < n \<Longrightarrow> (\<Sum>c<n. B r c * x c) = 0) \<Longrightarrow> c < n \<Longrightarrow> x c = 0"
  unfolding independent_columns_def by blast

lemma pivot_pass_spec:
  assumes "i \<le> n" "pivot_pass n i A row = (p, row')"
  shows "0 \<le> p \<and> (\<forall>j. i \<le> j \<and> j < n \<longrightarrow> \<bar>A j i\<bar> \<le> p) \<and> (p \<noteq> 0 \<longrightarrow> i \<le> row' \<and> row' < n \<and> \<bar>A row' i\<bar> = p)"
proof -
  have "0 \<le> p \<and> (\<forall>j. i \<le> j \<and> j < m \<longrightarrow> \<bar>A j i\<bar> \<le> p) \<and> (p \<noteq> 0 \<longrightarrow> i \<le> row' \<and> row' < m \<and> \<bar>A row' i\<bar> = p)"
    if "i \<le> m" "fold (\<lambda>j (p, row). if p < \<bar>A j i\<bar> then (\<bar>A j i\<bar>, j) else (p, row)) [i..<m] (0, row) = (p, row')" for m p row'
    using that
  proof (induction m arbitrary: p row')
    case (Suc m)
    show ?case
    proof (cases "i \<le> m")
      case True
      obtain q row1 where q: "fold (\<lambda>j (p, row). if p < \<bar>A j i\<bar> then (\<bar>A j i\<bar>, j) else (p, row)) [i..<m] (0, row) = (q, row1)"
        by fastforce
      from Suc.IH [OF True q] Suc.prems(2) q True show ?thesis
        by (auto simp: less_Suc_eq split: if_splits)
    qed (use Suc.prems in auto)
  qed auto
  from this [OF assms(1) assms(2) [unfolded pivot_pass_def]] show ?thesis .
qed

text \<open>With a non-zero element in the column the search ends at once and changes nothing.\<close>

lemma pivot_loop_ok:
  assumes "i < n" "\<exists>j. i \<le> j \<and> j < n \<and> A j i \<noteq> 0"
  shows "\<exists>row'. pivot_loop n i A row = Some (A, row') \<and> i \<le> row' \<and> row' < n \<and> A row' i \<noteq> 0"
proof -
  obtain p row' where p: "pivot_pass n i A row = (p, row')" by fastforce
  note s = pivot_pass_spec [OF less_imp_le [OF assms(1)] p]
  from assms(2) s have "p \<noteq> 0" by fastforce
  with s p show ?thesis by (subst pivot_loop.simps) auto
qed

text \<open>On a column of zeros the diagonal is perturbed once: the search ends for every matrix.\<close>

lemma pivot_loop_ends:
  assumes "i < n"
  shows "\<exists>A' row'. pivot_loop n i A row = Some (A', row') \<and> i \<le> row' \<and> row' < n \<and> A' row' i \<noteq> 0"
proof (cases "\<exists>j. i \<le> j \<and> j < n \<and> A j i \<noteq> 0")
  case True
  then show ?thesis using pivot_loop_ok [OF assms] by blast
next
  case False
  obtain p row1 where p: "pivot_pass n i A row = (p, row1)" by fastforce
  with False pivot_pass_spec [OF less_imp_le [OF assms] p] have "p = 0" by force
  let ?A = "upd2 A i i (A i i + 1 / 100000)"
  have "\<exists>j. i \<le> j \<and> j < n \<and> ?A j i \<noteq> 0" using False assms by (intro exI [of _ i]) (simp add: upd2_def)
  from pivot_loop_ok [where A = ?A and row = row1, OF assms this] obtain row' where
    "pivot_loop n i ?A row1 = Some (?A, row') \<and> i \<le> row' \<and> row' < n \<and> ?A row' i \<noteq> 0" by blast
  moreover have "pivot_loop n i A row = pivot_loop n i ?A row1"
    using p \<open>p = 0\<close> by (subst pivot_loop.simps) simp
  ultimately show ?thesis by metis
qed

lemma swap_rows_spec:
  "swap_rows n i row A r c = (if c < n \<and> r = i then A row c else if c < n \<and> r = row then A i c else A r c)"
  unfolding swap_rows_def by (induction n arbitrary: r c) (auto simp: upd2_apply less_Suc_eq)

lemma eliminate_row_spec:
  assumes "i \<noteq> j"
  shows "eliminate_row n i u j A r c =
     (if r \<noteq> j then A r c else if c = i then A j i / u
      else if i < c \<and> c < n then A j c - A i c * (A j i / u) else A j c)"
proof -
  define F where "F m = fold (\<lambda>k A'. upd2 A' j k (A' j k - A' i k * (A j i / u))) [Suc i..<m] (upd2 A j i (A j i / u))" for m
  have F: "F (Suc m) = (if Suc i \<le> m then upd2 (F m) j m (F m j m - F m i m * (A j i / u)) else F m)" for m
    by (simp add: F_def)
  have "F m r c = (if r \<noteq> j then A r c else if c = i then A j i / u
      else if i < c \<and> c < m then A j c - A i c * (A j i / u) else A j c)" for m r c
  proof (induction m arbitrary: r c)
    case 0
    show ?case by (simp add: F_def upd2_apply)
  next
    case (Suc m)
    show ?case using assms by (auto simp: F Suc upd2_apply less_Suc_eq)
  qed
  then show ?thesis by (simp add: eliminate_row_def F_def)
qed

lemma eliminate_spec:
  "fold (eliminate_row n i (A i i)) [Suc i..<n] A r c =
     (if r \<le> i \<or> n \<le> r then A r c else if c = i then A r i / A i i
      else if i < c \<and> c < n then A r c - A i c * (A r i / A i i) else A r c)"
proof -
  have "fold (eliminate_row n i (A i i)) [Suc i..<m] A r c =
     (if r \<le> i \<or> m \<le> r then A r c else if c = i then A r i / A i i
      else if i < c \<and> c < n then A r c - A i c * (A r i / A i i) else A r c)" for m r c
  proof (induction m arbitrary: r c)
    case (Suc m)
    show ?case
    proof (cases "Suc i \<le> m")
      case True
      then show ?thesis by (auto simp: Suc eliminate_row_spec less_Suc_eq)
    qed auto
  qed simp
  then show ?thesis .
qed


lemma upper_row_sum:
  assumes "k < i" "i < n"
  shows "(\<Sum>c<n. upper A k c * (if c < i then x c else if c = i then 1 else 0)) =
    A k k * x k + (\<Sum>c\<in>{k<..<i}. A k c * x c) + A k i"
proof -
  let ?x = "\<lambda>c. if c < i then x c else if c = i then 1 else (0 :: real)"
  have "{k..i} = insert k (insert i {k<..<i})" using assms by auto
  then have "(\<Sum>c\<in>{k..i}. upper A k c * ?x c) = upper A k k * ?x k + upper A k i * ?x i + (\<Sum>c\<in>{k<..<i}. upper A k c * ?x c)"
    using assms(1) by simp
  also have "(\<Sum>c\<in>{k<..<i}. upper A k c * ?x c) = (\<Sum>c\<in>{k<..<i}. A k c * x c)"
    by (intro sum.cong) (auto simp: upper_def)
  also have "(\<Sum>c\<in>{k..i}. upper A k c * ?x c) = (\<Sum>c<n. upper A k c * ?x c)"
    using assms(2) by (intro sum.mono_neutral_left) (auto simp: upper_def)
  finally show ?thesis using assms(1) by (simp add: upper_def)
qed

lemma partial_lu_apply:
  "(\<Sum>c<n. partial_lu A i r c * x c) =
     (\<Sum>k<i. lower A r k * (\<Sum>c<n. upper A k c * x c)) + (\<Sum>c<n. (if i \<le> r \<and> i \<le> c then A r c else 0) * x c)"
proof -
  have "(\<Sum>c<n. (\<Sum>k<i. lower A r k * upper A k c) * x c) = (\<Sum>c<n. \<Sum>k<i. lower A r k * upper A k c * x c)"
    by (simp add: sum_distrib_right)
  also have "\<dots> = (\<Sum>k<i. \<Sum>c<n. lower A r k * upper A k c * x c)" by (rule sum.swap)
  also have "\<dots> = (\<Sum>k<i. lower A r k * (\<Sum>c<n. upper A k c * x c))" by (simp add: sum_distrib_left mult.assoc)
  finally show ?thesis by (simp add: partial_lu_def distrib_right sum.distrib)
qed

lemma lup_invD:
  assumes "lup_inv n B i A P"
  shows "bij_betw P {..<n} {..<n}" "k < i \<Longrightarrow> A k k \<noteq> 0" "r < n \<Longrightarrow> c < n \<Longrightarrow> B (P r) c = partial_lu A i r c"
  using assms by (auto simp: lup_inv_def)

lemma lup_inv_row:
  assumes "lup_inv n B i A P" "r < n"
  shows "\<exists>q<n. r = P q"
proof -
  have "r \<in> P ` {..<n}" using lup_invD(1) [OF assms(1)] assms(2) by (simp add: bij_betw_def)
  then show ?thesis by auto
qed

text \<open>Independent columns leave a pivot in every column.\<close>

lemma pivot_exists:
  assumes inv: "lup_inv n B i A P" and i: "i < n" and ind: "independent_columns n B"
  shows "\<exists>j. i \<le> j \<and> j < n \<and> A j i \<noteq> 0"
proof (rule ccontr)
  assume no: "\<nexists>j. i \<le> j \<and> j < n \<and> A j i \<noteq> 0"
  define x0 where "x0 = fold (\<lambda>k x. x(k := backward_row i A (\<lambda>k. - A k i) k x)) (rev [0..<i]) (\<lambda>k. 0)"
  define x where "x = (\<lambda>c. if c < i then x0 c else if c = i then 1 else (0 :: real))"
  have up: "(\<Sum>c<n. upper A k c * x c) = 0" if k: "k < i" for k
    using backward_ok [of k i A "\<lambda>k. - A k i"] lup_invD(2) [OF inv k] k i
    by (simp add: x_def upper_row_sum x0_def)
  have "(\<Sum>c<n. B r c * x c) = 0" if r: "r < n" for r
  proof -
    obtain q where q: "q < n" "r = P q" using lup_inv_row [OF inv r] by blast
    have rest: "(\<Sum>c<n. (if i \<le> q \<and> i \<le> c then A q c else 0) * x c) = 0"
      using no q(1) by (intro sum.neutral) (auto simp: x_def)
    have "(\<Sum>c<n. B r c * x c) = (\<Sum>c<n. partial_lu A i q c * x c)"
      using lup_invD(3) [OF inv q(1)] q(2) by (intro sum.cong) auto
    also have "\<dots> = 0" by (simp add: partial_lu_apply up rest)
    finally show ?thesis .
  qed
  from independent_columnsD [OF ind this i] show False by (simp add: x_def)
qed

lemma lup_swap:
  assumes inv: "lup_inv n B i A P" and i: "i < n" and row: "i \<le> row" "row < n"
  shows "lup_inv n B i (swap_rows n i row A) (P(i := P row, row := P i))"
proof -
  let ?A = "swap_rows n i row A" and ?P = "P(i := P row, row := P i)"
  define t where "t r = (if r = i then row else if r = row then i else r)" for r
  have P: "?P r = P (t r)" for r by (simp add: t_def)
  have A: "?A r c = A (t r) c" if "c < n" for r c using that by (simp add: swap_rows_spec t_def)
  have t: "r < n \<Longrightarrow> t r < n" "i \<le> t r \<longleftrightarrow> i \<le> r" "r < i \<Longrightarrow> t r = r" for r using row i by (auto simp: t_def)
  have "bij_betw t {..<n} {..<n}" by (rule bij_betw_byWitness [where f' = t]) (use row i in \<open>auto simp: t_def\<close>)
  then have "bij_betw (P \<circ> t) {..<n} {..<n}" using lup_invD(1) [OF inv] by (rule bij_betw_trans)
  then have bij: "bij_betw ?P {..<n} {..<n}" by (simp add: P [abs_def] comp_def)
  have lo: "lower ?A r k = lower A (t r) k" if "k < i" for r k
    using that A [of k r] t(2,3) [of r] i by (cases "r < i") (auto simp: lower_def not_less)
  have up: "upper ?A k c = upper A k c" if "k < i" "c < n" for k c
    using that A [of c k] t(3) [of k] by (simp add: upper_def)
  have "partial_lu ?A i r c = partial_lu A i (t r) c" if "c < n" for r c
    using that lo up A t(2) unfolding partial_lu_def by simp
  moreover have "?A k k \<noteq> 0" if "k < i" for k using lup_invD(2) [OF inv that] A [of k k] t(3) that i by simp
  ultimately show ?thesis using bij lup_invD(3) [OF inv] t(1) unfolding lup_inv_def P by simp
qed

lemma lup_eliminate:
  assumes inv: "lup_inv n B i A P" and i: "i < n" and piv: "A i i \<noteq> 0"
  shows "lup_inv n B (Suc i) (fold (eliminate_row n i (A i i)) [Suc i..<n] A) P"
proof -
  define E where "E = fold (eliminate_row n i (A i i)) [Suc i..<n] A"
  have E: "E r c = (if r \<le> i \<or> n \<le> r then A r c else if c = i then A r i / A i i
      else if i < c \<and> c < n then A r c - A i c * (A r i / A i i) else A r c)" for r c
    by (simp add: E_def eliminate_spec)
  have lo: "lower E r k = lower A r k" if "k < i" for r k using that by (simp add: lower_def E)
  have up: "upper E k c = upper A k c" if "k \<le> i" for k c using that by (simp add: upper_def E)
  have "partial_lu E (Suc i) r c = partial_lu A i r c" if "r < n" "c < n" for r c
  proof -
    have "lower E r i * upper A i c + (if Suc i \<le> r \<and> Suc i \<le> c then E r c else 0) = (if i \<le> r \<and> i \<le> c then A r c else 0)"
      using that piv by (cases "c = i"; cases "r = i") (auto simp: lower_def upper_def E)
    then show ?thesis unfolding partial_lu_def using lo up by simp
  qed
  moreover have "E k k \<noteq> 0" if "k < Suc i" for k
    using that piv lup_invD(2) [OF inv, of k] by (cases "k = i") (auto simp: E)
  ultimately show ?thesis using lup_invD(1,3) [OF inv] unfolding lup_inv_def E_def [symmetric] by simp
qed

lemma lup_step_ok:
  assumes inv: "lup_inv n B i A P" and i: "i < n" and ind: "independent_columns n B"
  shows "\<exists>A' P' row'. lup_step n i (A, P, row) = Some (A', P', row') \<and> lup_inv n B (Suc i) A' P'"
proof -
  obtain row' where r: "pivot_loop n i A row = Some (A, row')" "i \<le> row'" "row' < n" "A row' i \<noteq> 0"
    using pivot_loop_ok [where A = A and row = row, OF i pivot_exists [OF assms]] by blast
  have "swap_rows n i row' A i i \<noteq> 0" using r i by (simp add: swap_rows_spec)
  from lup_eliminate [OF lup_swap [OF inv i r(2,3)] i this] r(1) show ?thesis
    by (simp add: lup_step_def Let_def)
qed

lemma lup_loop_ok:
  assumes "independent_columns n B" "lup_inv n B i A P" "i \<le> m" "m \<le> n"
  shows "\<exists>A' P' row'. lup_loop n [i..<m] (A, P, row) = Some (A', P', row') \<and> lup_inv n B m A' P'"
  using assms(2,3)
proof (induction "m - i" arbitrary: i A P row)
  case (Suc k)
  then have i: "i < m" by simp
  with lup_step_ok [OF Suc.prems(1) _ assms(1), of row] assms(4) obtain A1 P1 row1 where
    s: "lup_step n i (A, P, row) = Some (A1, P1, row1)" "lup_inv n B (Suc i) A1 P1" by auto
  from Suc.hyps(2) i have "k = m - Suc i" "Suc i \<le> m" by simp_all
  from Suc.hyps(1) [OF this(1) s(2) this(2), of row1] obtain A' P' row' where
    "lup_loop n [Suc i..<m] (A1, P1, row1) = Some (A', P', row')" "lup_inv n B m A' P'" by blast
  with s i show ?case by (auto simp: upt_conv_Cons)
qed auto

text \<open>The last column needs no elimination, but its pivot is not zero either.\<close>

lemma LupDescomposition_ok:
  assumes ind: "independent_columns n B" and n: "0 < n"
  shows "\<exists>A P. LupDescomposition n B = Some (lower A, upper A, P) \<and> lup_inv n B n A P"
proof -
  have "lup_inv n B 0 B (\<lambda>i. i)" by (simp add: lup_inv_def partial_lu_def bij_betw_def)
  from lup_loop_ok [OF ind this, of "n - 1" 0] obtain A P row where
    l: "lup_loop n [0..<n - 1] (B, (\<lambda>i. i), 0) = Some (A, P, row)" and inv: "lup_inv n B (n - 1) A P" by auto
  from n have last: "n - 1 < n" "Suc (n - 1) = n" by simp_all
  obtain j where "n - 1 \<le> j" "j < n" "A j (n - 1) \<noteq> 0" using pivot_exists [OF inv last(1) ind] by blast
  moreover from this have "j = n - 1" by simp
  ultimately have "lup_inv n B n A P" using lup_eliminate [OF inv last(1)] unfolding last(2) by simp
  moreover have "LupDescomposition n B = Some (lower A, upper A, P)" using l by (simp add: LupDescomposition_def)
  ultimately show ?thesis by blast
qed

lemma SolveLup_ok:
  assumes inv: "lup_inv n B n A P" and q: "q < n"
  shows "(\<Sum>c<n. B q c * SolveLup n (lower A) (upper A) P b c) = of_int (b q)"
proof -
  let ?y = "fold (\<lambda>i y. y(i := forward_row (lower A) (\<lambda>i. of_int (b (P i))) i y)) [0..<n] (\<lambda>i. 0)"
  let ?x = "SolveLup n (lower A) (upper A) P b"
  have x: "?x = fold (\<lambda>i x. x(i := backward_row n (upper A) ?y i x)) (rev [0..<n]) (\<lambda>i. 0)"
    by (simp add: SolveLup_def)
  have y: "(\<Sum>c<n. upper A k c * ?x c) = ?y k" if k: "k < n" for k
  proof -
    have "(\<Sum>c<n. upper A k c * ?x c) = (\<Sum>c\<in>insert k {k<..<n}. upper A k c * ?x c)"
      using k by (intro sum.mono_neutral_right) (auto simp: upper_def)
    also have "\<dots> = upper A k k * ?x k + (\<Sum>c\<in>{k<..<n}. upper A k c * ?x c)" by simp
    also have "\<dots> = ?y k" unfolding x using k lup_invD(2) [OF inv k] by (intro backward_ok) (simp_all add: upper_def)
    finally show ?thesis .
  qed
  obtain r where r: "r < n" "q = P r" using lup_inv_row [OF inv q] by blast
  have "(\<Sum>c<n. B q c * ?x c) = (\<Sum>c<n. partial_lu A n r c * ?x c)"
    using lup_invD(3) [OF inv r(1)] r(2) by (intro sum.cong) auto
  also have "\<dots> = (\<Sum>k<n. lower A r k * ?y k)" by (simp add: partial_lu_apply y)
  also have "\<dots> = (\<Sum>k\<in>insert r {..<r}. lower A r k * ?y k)"
    using r(1) by (intro sum.mono_neutral_right) (auto simp: lower_def)
  also have "\<dots> = ?y r + (\<Sum>k<r. lower A r k * ?y k)" by (simp add: lower_def)
  also have "\<dots> = of_int (b (P r))" using forward_ok [where b = "\<lambda>i. of_int (b (P i))" and L = "lower A", OF r(1)] by simp
  finally show ?thesis using r(2) by simp
qed


subsection \<open>Transposing in place, and the inverse\<close>

text \<open>
  In a square array the successor of a cell is its mirror image: every cycle has at most two cells and is
  moved when the loop meets its first cell.
\<close>

lemma GetNext_flat: "i < n \<Longrightarrow> j < n \<Longrightarrow> GetNext (i * n + j) n n = j * n + i"
  by (simp add: GetNext_def)

lemma GetPre_flat: "i < n \<Longrightarrow> j < n \<Longrightarrow> GetPre (i * n + j) n n = j * n + i"
  by (simp add: GetPre_def)

lemma flat_order: "i < n \<Longrightarrow> j < n \<Longrightarrow> i * n + j < j * n + i \<longleftrightarrow> i < (j :: nat)"
proof (cases i j rule: linorder_cases)
  case less
  assume "i < n" "j < n"
  with less have "i * n + j < Suc i * n" "Suc i * n \<le> j * n" by (simp_all, metis Suc_leI mult_Suc mult_le_mono1)
  with less show ?thesis by linarith
next
  case greater
  assume "i < n" "j < n"
  with greater have "j * n + i < Suc j * n" "Suc j * n \<le> i * n" by (simp_all, metis Suc_leI mult_Suc mult_le_mono1)
  with greater show ?thesis by linarith
qed simp

lemma MoveData_flat:
  assumes "i < n" "j < n"
  shows "MoveData n n (i * n + j) mtx = Some (mtx[i * n + j := mtx ! (j * n + i), j * n + i := mtx ! (i * n + j)])"
proof (cases "i = j")
  case True
  then show ?thesis using assms by (simp add: MoveData_def GetPre_flat move_loop.simps)
next
  case False
  then have "j * n + i \<noteq> i * n + j" using flat_inject assms by blast
  then show ?thesis using assms
    by (simp add: MoveData_def GetPre_flat move_loop.simps [of n n _ "i * n + j"] move_loop.simps [of n n _ "j * n + i"])
qed

lemma next_loop_flat:
  assumes "i < n" "j < n"
  shows "next_loop n n (i * n + j) (j * n + i) = Some (if i < j then i * n + j else j * n + i)"
  using assms flat_order [of i n j]
  by (subst next_loop.simps) (auto simp: GetNext_flat next_loop.simps [of n n "i * n + j" "i * n + j"])

text \<open>The cells whose cycle has been moved, after the first \<open>k\<close> positions.\<close>

definition transposed_upto :: "nat \<Rightarrow> nat \<Rightarrow> (nat \<Rightarrow> nat \<Rightarrow> real) \<Rightarrow> real list \<Rightarrow> bool" where
  "transposed_upto n k f mtx \<longleftrightarrow> length mtx = n * n \<and>
     (\<forall>i<n. \<forall>j<n. mtx ! (i * n + j) = (if min (i * n + j) (j * n + i) < k then f j i else f i j))"

lemma transpose_loop_ok:
  assumes "transposed_upto n k f mtx" "k \<le> n * n"
  shows "\<exists>mtx'. transpose_loop n n [k..<n * n] mtx = Some mtx' \<and> transposed_upto n (n * n) f mtx'"
  using assms
proof (induction "n * n - k" arbitrary: k mtx)
  case (Suc x)
  then have k: "k < n * n" by simp
  then obtain a b where ab: "a < n" "b < n" "k = a * n + b" using flat_surj by blast
  let ?l = "b * n + a"
  define mtx1 where "mtx1 = (if a \<le> b then mtx[k := mtx ! ?l, ?l := mtx ! k] else mtx)"
  have step: "transpose_loop n n (k # ks) mtx = transpose_loop n n ks mtx1" for ks
    using ab flat_inject [of b n a a b] by (auto simp: GetNext_flat next_loop_flat MoveData_flat mtx1_def)
  have len: "length mtx = n * n" using Suc.prems by (simp add: transposed_upto_def)
  have l: "?l < n * n" using ab flat_less by blast
  have old: "mtx ! (i * n + j) = (if min (i * n + j) (j * n + i) < k then f j i else f i j)" if "i < n" "j < n" for i j
    using Suc.prems(1) that by (simp add: transposed_upto_def)
  have "mtx1 ! (i * n + j) = (if min (i * n + j) (j * n + i) < Suc k then f j i else f i j)" if ij: "i < n" "j < n" for i j
  proof (cases "(i = a \<and> j = b) \<or> (i = b \<and> j = a)")
    case True
    then show ?thesis
      using ab l k len old [of a b] old [of b a] flat_order [of a n b] flat_order [of b n a]
      by (auto simp: mtx1_def nth_list_update min_def flat_inject)
  next
    case False
    then have "i * n + j \<noteq> k" "j * n + i \<noteq> k" "i * n + j \<noteq> ?l"
      using flat_inject [of j n b i a] flat_inject [of i n b j a] flat_inject [of j n a i b] ab ij by auto
    then show ?thesis using old [OF ij] by (auto simp: mtx1_def less_Suc_eq min_def)
  qed
  then have "transposed_upto n (Suc k) f mtx1" using len by (simp add: transposed_upto_def mtx1_def)
  from Suc.hyps(1) [OF _ this] Suc.hyps(2) k step show ?case by (simp add: upt_conv_Cons)
qed (auto simp: transposed_upto_def)

lemma Transpose_ok:
  assumes "length mtx = n * n"
  shows "\<exists>mtx'. Transpose n n mtx = Some mtx' \<and> length mtx' = n * n \<and>
    (\<forall>i<n. \<forall>j<n. mtx' ! (i * n + j) = mtx ! (j * n + i))"
proof -
  have "transposed_upto n 0 (\<lambda>i j. mtx ! (i * n + j)) mtx" using assms by (simp add: transposed_upto_def)
  from transpose_loop_ok [OF this] obtain mtx' where
    m: "transpose_loop n n [0..<n * n] mtx = Some mtx'" "transposed_upto n (n * n) (\<lambda>i j. mtx ! (i * n + j)) mtx'" by auto
  have "min (i * n + j) (j * n + i) < n * n" if "i < n" "j < n" for i j using flat_less [of i n j n] that by simp
  with m show ?thesis by (auto simp: Transpose_def transposed_upto_def)
qed

lemma concat_rows:
  "length (concat (map (\<lambda>i. map (f i) [0..<n]) [0..<m])) = m * n \<and>
   (\<forall>i<m. \<forall>j<n. concat (map (\<lambda>i. map (f i) [0..<n]) [0..<m]) ! (i * n + j) = f i j)"
proof (induction m)
  case (Suc m)
  then show ?case using flat_less [of _ m _ n] by (auto simp: nth_append less_Suc_eq)
qed simp

text \<open>
  \<^verbatim>\<open>Inv\<close> of a square matrix with independent columns returns its inverse.
\<close>

lemma Inv_ok:
  assumes M: "shape n n M" and n: "0 < n" and ind: "independent_columns n (elem M)"
  shows "\<exists>R. Inv M = ret R \<and> shape n n R \<and>
    (\<forall>i<n. \<forall>j<n. (\<Sum>k<n. elem M i k * elem R k j) = (if i = j then 1 else 0)) \<and>
    (\<forall>i<n. \<forall>j<n. (\<Sum>k<n. elem R i k * elem M k j) = (if i = j then 1 else 0))"
proof -
  obtain A P where lup: "LupDescomposition n (elem M) = Some (lower A, upper A, P)" "lup_inv n (elem M) n A P"
    using LupDescomposition_ok [OF ind n] by blast
  define X where "X i = SolveLup n (lower A) (upper A) P (\<lambda>j. if j = i then 1 else 0)" for i
  let ?xs = "concat (map (\<lambda>i. map (X i) [0..<n]) [0..<n])"
  from Transpose_ok [of ?xs n] concat_rows [of X n n] obtain inv where
    inv: "Transpose n n ?xs = Some inv" "length inv = n * n" "\<And>i j. i < n \<Longrightarrow> j < n \<Longrightarrow> inv ! (i * n + j) = X j i" by auto
  define R where "R = \<lparr>mat_arrays = inv, mat_rows = n, mat_cols = n\<rparr>"
  have R: "shape n n R" "\<And>i j. i < n \<Longrightarrow> j < n \<Longrightarrow> elem R i j = X j i"
    using inv by (simp_all add: R_def shape_def elem_def)
  have right: "(\<Sum>k<n. elem M i k * elem R k j) = (if i = j then 1 else 0)" if "i < n" "j < n" for i j
    using SolveLup_ok [OF lup(2) that(1), of "\<lambda>k. if k = j then 1 else 0"] that R(2) by (simp add: X_def)
  have left: "(\<Sum>k<n. elem R i k * elem M k j) = (if i = j then 1 else 0)" if ij: "i < n" "j < n" for i j
  proof -
    let ?d = "\<lambda>c. (\<Sum>k<n. elem R c k * elem M k j) - (if c = j then 1 else (0 :: real))"
    have "(\<Sum>c<n. elem M r c * ?d c) = 0" if r: "r < n" for r
    proof -
      have "(\<Sum>c<n. elem M r c * (\<Sum>k<n. elem R c k * elem M k j)) = (\<Sum>c<n. \<Sum>k<n. elem M r c * elem R c k * elem M k j)"
        by (simp add: sum_distrib_left mult.assoc)
      also have "\<dots> = (\<Sum>k<n. (\<Sum>c<n. elem M r c * elem R c k) * elem M k j)"
        by (subst sum.swap) (simp add: sum_distrib_right)
      also have "\<dots> = (\<Sum>k<n. (if r = k then 1 else 0) * elem M k j)" using right [OF r] by (intro sum.cong) auto
      also have "\<dots> = elem M r j" using r by (simp add: if_distrib [of "\<lambda>x. x * _"] cong: if_cong)
      also have "\<dots> = (\<Sum>c<n. elem M r c * (if c = j then 1 else 0))" using ij(2) by (simp add: if_distrib cong: if_cong)
      finally show ?thesis by (simp add: right_diff_distrib sum_subtractf)
    qed
    from independent_columnsD [OF ind this ij(1)] show ?thesis by simp
  qed
  have "Inv M = ret R"
    using shapeD [OF M] M n lup(1) inv(1)
    by (simp add: Inv_def Square_def Matrix_Empty_def SolveInverse_def R_def ret_def X_def [abs_def] shape_def)
  with R(1) right left show ?thesis by blast
qed

text \<open>For every matrix the loops of the inversion end.\<close>

lemma lup_loop_ends: "\<forall>i\<in>set is. i < n \<Longrightarrow> \<exists>st'. lup_loop n is st = Some st'"
proof (induction "is" arbitrary: st)
  case (Cons i "is")
  obtain A P row where st: "st = (A, P, row)" by (cases st)
  obtain A' row' where "pivot_loop n i A row = Some (A', row')" using pivot_loop_ends [where i = i and n = n and A = A and row = row] Cons.prems by auto
  then obtain st1 where "lup_step n i st = Some st1" by (simp add: st lup_step_def Let_def)
  then show ?case using Cons by simp
qed (rule exI, rule lup_loop.simps(1))

lemma Inv_ends:
  assumes M: "shape n n M" and n: "0 < n"
  shows "\<exists>R. Inv M = ret R \<and> shape n n R"
proof -
  obtain A P row where lup: "lup_loop n [0..<n - 1] (elem M, (\<lambda>i. i), 0) = Some (A, P, row)"
    using lup_loop_ends [of "[0..<n - 1]" n "(elem M, (\<lambda>i. i), 0)"] by (auto simp: less_diff_conv)
  define xs where "xs = concat (map (\<lambda>i. map (SolveLup n (lower A) (upper A) P (\<lambda>j. if j = i then 1 else 0)) [0..<n]) [0..<n])"
  have "length xs = n * n" unfolding xs_def by (simp only: concat_rows)
  from Transpose_ok [OF this] obtain inv where inv: "Transpose n n xs = Some inv" "length inv = n * n" by blast
  have "Inv M = ret \<lparr>mat_arrays = inv, mat_rows = n, mat_cols = n\<rparr>"
    using M n lup inv(1) shapeD [OF M]
    by (simp add: Inv_def Square_def Matrix_Empty_def SolveInverse_def LupDescomposition_def ret_def shape_def xs_def)
  then show ?thesis using inv(2) by (simp add: shape_def)
qed

definition identity :: "nat \<Rightarrow> Matrix" where "identity n = mat n n (\<lambda>i j. if i = j then 1 else 0)"

text \<open>C37. Inversion.  \<^verbatim>\<open>Inv\<close> of every square matrix ends with a matrix of the same shape; if the columns are
  independent it is the inverse on both sides.\<close>

theorem matrix_inverse:
  assumes "shape n n M" "0 < n"
  shows "\<exists>R. Inv M = ret R \<and> shape n n R \<and>
    (independent_columns n (elem M) \<longrightarrow> Matrix_times M R = ret (identity n) \<and> Matrix_times R M = ret (identity n))"
proof (cases "independent_columns n (elem M)")
  case True
  from Inv_ok [OF assms True] obtain R where R: "Inv M = ret R" "shape n n R"
    "\<And>i j. i < n \<Longrightarrow> j < n \<Longrightarrow> (\<Sum>k<n. elem M i k * elem R k j) = (if i = j then 1 else 0)"
    "\<And>i j. i < n \<Longrightarrow> j < n \<Longrightarrow> (\<Sum>k<n. elem R i k * elem M k j) = (if i = j then 1 else 0)" by blast
  have "mat n n (\<lambda>i j. \<Sum>k<n. elem M i k * elem R k j) = identity n" unfolding identity_def by (rule mat_cong) (rule R(3))
  moreover have "mat n n (\<lambda>i j. \<Sum>k<n. elem R i k * elem M k j) = identity n" unfolding identity_def by (rule mat_cong) (rule R(4))
  ultimately have "Matrix_times M R = ret (identity n)" "Matrix_times R M = ret (identity n)"
    by (simp_all only: Matrix_times_ok [OF assms(1) R(2)] Matrix_times_ok [OF R(2) assms(1)])
  with R(1,2) show ?thesis by blast
next
  case False
  then show ?thesis using Inv_ends [OF assms] by blast
qed

theorem matrix_inverse_witness:
  "\<exists>R. Inv \<lparr>mat_arrays = [0, 2, 1, 3], mat_rows = 2, mat_cols = 2\<rparr> = ret R \<and>
     Matrix_times \<lparr>mat_arrays = [0, 2, 1, 3], mat_rows = 2, mat_cols = 2\<rparr> R = ret (identity 2)"
proof -
  let ?M = "\<lparr>mat_arrays = [0, 2, 1, 3], mat_rows = 2, mat_cols = 2\<rparr>"
  have "independent_columns 2 (elem ?M)"
    unfolding independent_columns_def
  proof (intro allI impI)
    fix x c assume "\<forall>r<2. (\<Sum>c<2. elem ?M r c * x c) = 0" "c < (2 :: nat)"
    from this(1) [rule_format, of 0] this(1) [rule_format, of 1] this(2) show "x c = 0"
      by (auto simp: elem_def numeral_2_eq_2 less_Suc_eq)
  qed
  then show ?thesis using matrix_inverse [of 2 ?M] by (auto simp: shape_def)
qed

end
