(* ===== verification/Hungarian.thy ===== *)
theory Hungarian
  imports TrackMatrix
begin

section \<open>The assignment problem: HungarianAlgorithm\<close>

text \<open>
  \<^verbatim>\<open>modules/track/src/easytrack/src/hungarian.cpp\<close>, Munkres' algorithm on the costs of a matrix.  Floats are
  exact real numbers; the test of a zero against \<^verbatim>\<open>DBL_EPSILON\<close> is kept.  The workspace's arrays are
  functions of row and column; a position outside of them is a fault.  The tail calls between the
  steps are rounds of a loop with fuel (\<open>None\<close> when it runs out).
\<close>

definition DBL_EPSILON :: real where "DBL_EPSILON = 1 / 2 ^ 52"

definition is_zero :: "real \<Rightarrow> bool" where "is_zero x \<longleftrightarrow> \<bar>x\<bar> < DBL_EPSILON"

record Munkres =
  distMatrix :: "nat \<Rightarrow> nat \<Rightarrow> real"
  starMatrix :: "nat \<Rightarrow> nat \<Rightarrow> bool"
  primeMatrix :: "nat \<Rightarrow> nat \<Rightarrow> bool"
  coveredColumns :: "nat \<Rightarrow> bool"
  coveredRows :: "nat \<Rightarrow> bool"

definition Munkres_new :: "(nat \<Rightarrow> nat \<Rightarrow> real) \<Rightarrow> Munkres" where
  "Munkres_new d = \<lparr>distMatrix = d, starMatrix = (\<lambda>r c. False), primeMatrix = (\<lambda>r c. False),
     coveredColumns = (\<lambda>c. False), coveredRows = (\<lambda>r. False)\<rparr>"

subsection \<open>Preliminary steps\<close>

text \<open>The loop \<^verbatim>\<open>if (value < minValue) minValue = value\<close>\<close>

fun min_loop :: "real \<Rightarrow> real list \<Rightarrow> real" where
  "min_loop m [] = m"
| "min_loop m (v # vs) = min_loop (if v < m then v else m) vs"

definition reduce_row :: "nat \<Rightarrow> nat \<Rightarrow> (nat \<Rightarrow> nat \<Rightarrow> real) \<Rightarrow> nat \<Rightarrow> nat \<Rightarrow> real" where
  "reduce_row nC row d =
     (let m = min_loop (d row 0) (map (d row) [1..<nC])
      in (\<lambda>r c. if r = row \<and> c < nC then d r c - m else d r c))"

definition reduce_col :: "nat \<Rightarrow> nat \<Rightarrow> (nat \<Rightarrow> nat \<Rightarrow> real) \<Rightarrow> nat \<Rightarrow> nat \<Rightarrow> real" where
  "reduce_col nR col d =
     (let m = min_loop (d 0 col) (map (\<lambda>r. d r col) [1..<nR])
      in (\<lambda>r c. if c = col \<and> r < nR then d r c - m else d r c))"

text \<open>A row, or a column, takes its first zero that is not covered yet (\<^verbatim>\<open>break\<close>).\<close>

definition star_row :: "nat \<Rightarrow> nat \<Rightarrow> Munkres \<Rightarrow> Munkres" where
  "star_row nC row m =
     (case find (\<lambda>c. is_zero (distMatrix m row c) \<and> \<not> coveredColumns m c) [0..<nC] of
        None \<Rightarrow> m
      | Some c \<Rightarrow> m\<lparr>starMatrix := upd2 (starMatrix m) row c True, coveredColumns := (coveredColumns m)(c := True)\<rparr>)"

definition star_col :: "nat \<Rightarrow> nat \<Rightarrow> Munkres \<Rightarrow> Munkres" where
  "star_col nR col m =
     (case find (\<lambda>r. is_zero (distMatrix m r col) \<and> \<not> coveredRows m r) [0..<nR] of
        None \<Rightarrow> m
      | Some r \<Rightarrow> m\<lparr>starMatrix := upd2 (starMatrix m) r col True, coveredColumns := (coveredColumns m)(col := True),
                    coveredRows := (coveredRows m)(r := True)\<rparr>)"

definition munkres_start :: "nat \<Rightarrow> nat \<Rightarrow> (nat \<Rightarrow> nat \<Rightarrow> real) \<Rightarrow> Munkres" where
  "munkres_start nR nC d =
     (if nR \<le> nC
      then fold (star_row nC) [0..<nR] (Munkres_new (fold (reduce_row nC) [0..<nR] d))
      else (fold (star_col nR) [0..<nC] (Munkres_new (fold (reduce_col nR) [0..<nC] d)))\<lparr>coveredRows := (\<lambda>r. False)\<rparr>)"

subsection \<open>The steps\<close>

definition buildassignmentvector :: "nat \<Rightarrow> nat \<Rightarrow> Munkres \<Rightarrow> int list" where
  "buildassignmentvector nR nC m =
     map (\<lambda>r. case find (starMatrix m r) [0..<nC] of None \<Rightarrow> - 1 | Some c \<Rightarrow> int c) [0..<nR]"

definition computeassignmentcost :: "int list \<Rightarrow> (nat \<Rightarrow> nat \<Rightarrow> real) \<Rightarrow> nat \<Rightarrow> real" where
  "computeassignmentcost assignment d nR =
     fold (\<lambda>r cost. let col = assignment ! r in if 0 \<le> col then cost + d r (nat col) else cost) [0..<nR] 0"

definition step2a :: "nat \<Rightarrow> nat \<Rightarrow> Munkres \<Rightarrow> Munkres" where
  "step2a nR nC m =
     m\<lparr>coveredColumns := (\<lambda>c. if c < nC \<and> list_ex (\<lambda>r. starMatrix m r c) [0..<nR] then True else coveredColumns m c)\<rparr>"

definition nOfCoveredColumns :: "nat \<Rightarrow> Munkres \<Rightarrow> nat" where
  "nOfCoveredColumns nC m = length (filter (coveredColumns m) [0..<nC])"

text \<open>
  One pass of \<^verbatim>\<open>step3\<close> over the columns: an uncovered zero is primed; in a row without a star it goes to
  step 4, else the row is covered, the star's column is uncovered and \<^verbatim>\<open>zerosFound\<close> is set.
\<close>

fun step3_pass :: "nat \<Rightarrow> nat \<Rightarrow> nat list \<Rightarrow> bool \<Rightarrow> Munkres \<Rightarrow> (nat \<times> nat) option \<times> bool \<times> Munkres" where
  "step3_pass nR nC [] found m = (None, found, m)"
| "step3_pass nR nC (col # cols) found m =
     (if coveredColumns m col then step3_pass nR nC cols found m
      else case find (\<lambda>r. \<not> coveredRows m r \<and> is_zero (distMatrix m r col)) [0..<nR] of
             None \<Rightarrow> step3_pass nR nC cols found m
           | Some row \<Rightarrow>
               (let m1 = m\<lparr>primeMatrix := upd2 (primeMatrix m) row col True\<rparr>
                in case find (starMatrix m1 row) [0..<nC] of
                     None \<Rightarrow> (Some (row, col), found, m1)
                   | Some starCol \<Rightarrow>
                       step3_pass nR nC cols True
                         (m1\<lparr>coveredRows := (coveredRows m1)(row := True),
                             coveredColumns := (coveredColumns m1)(starCol := False)\<rparr>)))"

text \<open>The rows that are not covered: each pass that goes on covers one more.\<close>

definition uncovered :: "nat \<Rightarrow> Munkres \<Rightarrow> nat set" where
  "uncovered nR m = {r. r < nR \<and> \<not> coveredRows m r}"

lemma find_upt: "find P [0..<n] = Some k \<Longrightarrow> k < n \<and> P k \<and> (\<forall>j<k. \<not> P j)"
  by (auto simp: find_Some_iff)

lemma find_upt_None: "find P [0..<n] = None \<longleftrightarrow> (\<forall>k<n. \<not> P k)"
  by (auto simp: find_None_iff)

lemma step3_pass_uncovered:
  "step3_pass nR nC cols found m = (p, found', m') \<Longrightarrow>
   uncovered nR m' \<subseteq> uncovered nR m \<and> (found' \<and> \<not> found \<longrightarrow> uncovered nR m' \<subset> uncovered nR m)"
proof (induction nR nC cols found m arbitrary: p found' m' rule: step3_pass.induct)
  case (2 nR nC col cols found m)
  show ?case
  proof (cases "coveredColumns m col")
    case True
    with 2 show ?thesis by simp
  next
    case False
    note open_col = this
    show ?thesis
    proof (cases "find (\<lambda>r. \<not> coveredRows m r \<and> is_zero (distMatrix m r col)) [0..<nR]")
      case None
      with open_col 2 show ?thesis by simp
    next
      case (Some row)
      from find_upt [OF this] have row: "row \<in> uncovered nR m" by (simp add: uncovered_def)
      let ?m1 = "m\<lparr>primeMatrix := upd2 (primeMatrix m) row col True\<rparr>"
      show ?thesis
      proof (cases "find (starMatrix ?m1 row) [0..<nC]")
        case None
        with open_col Some 2(4) show ?thesis by (auto simp: uncovered_def)
      next
        case star: (Some starCol)
        let ?m2 = "?m1\<lparr>coveredRows := (coveredRows ?m1)(row := True), coveredColumns := (coveredColumns ?m1)(starCol := False)\<rparr>"
        have "uncovered nR m' \<subseteq> uncovered nR ?m2"
          using 2(3) [OF open_col Some refl star] open_col Some star 2(4) by simp
        moreover have "uncovered nR ?m2 \<subset> uncovered nR m" using row by (auto simp: uncovered_def)
        ultimately show ?thesis by blast
      qed
    qed
  qed
qed simp

function step3 :: "nat \<Rightarrow> nat \<Rightarrow> Munkres \<Rightarrow> (nat \<times> nat) option \<times> Munkres" where
  "step3 nR nC m =
     (case step3_pass nR nC [0..<nC] False m of
        (Some p, found, m') \<Rightarrow> (Some p, m')
      | (None, found, m') \<Rightarrow> (if found then step3 nR nC m' else (None, m')))"
  by pat_completeness auto
termination
proof (relation "measure (\<lambda>(nR, nC, m). card (uncovered nR m))", goal_cases)
  case (2 nR nC m)
  have "card (uncovered nR m') < card (uncovered nR m)" if "step3_pass nR nC [0..<nC] False m = (None, True, m')" for m'
    using step3_pass_uncovered [OF that] by (intro psubset_card_mono) (simp_all add: uncovered_def)
  with 2 show ?case by auto
qed simp

declare step3.simps [simp del]

text \<open>
  \<^verbatim>\<open>step4\<close>: from the column of the last star set, the star of the old matrix is removed and the prime of
  its row becomes a star, until a column has no star.
\<close>

primrec step4_loop :: "nat \<Rightarrow> nat \<Rightarrow> nat \<Rightarrow> Munkres \<Rightarrow> nat \<Rightarrow> (nat \<Rightarrow> nat \<Rightarrow> bool) \<Rightarrow> (nat \<Rightarrow> nat \<Rightarrow> bool) result option" where
  "step4_loop 0 nR nC m starCol new = None"
| "step4_loop (Suc fuel) nR nC m starCol new =
     (case find (\<lambda>r. starMatrix m r starCol) [0..<nR] of
        None \<Rightarrow> Some (Inr new)
      | Some starRow \<Rightarrow>
          (let new1 = upd2 new starRow starCol False
           in case find (primeMatrix m starRow) [0..<nC] of
                None \<Rightarrow> Some (Inl OutOfBounds)
              | Some primeCol \<Rightarrow> step4_loop fuel nR nC m primeCol (upd2 new1 starRow primeCol True)))"

definition step4 :: "nat \<Rightarrow> nat \<Rightarrow> nat \<Rightarrow> nat \<Rightarrow> Munkres \<Rightarrow> Munkres result option" where
  "step4 nR nC row col m =
     map_option (map_sum id (\<lambda>new. step2a nR nC
         (m\<lparr>starMatrix := new, primeMatrix := (\<lambda>r c. False), coveredRows := (\<lambda>r. False)\<rparr>)))
       (step4_loop (Suc nR) nR nC m col (upd2 (starMatrix m) row col True))"

text \<open>
  \<^verbatim>\<open>step5\<close>: \<open>h\<close> starts as \<^verbatim>\<open>DBL_MAX\<close> in a float, that is as infinity; without an uncovered element it stays so,
  which is a fault here.
\<close>

definition uncovered_values :: "nat \<Rightarrow> nat \<Rightarrow> Munkres \<Rightarrow> real list" where
  "uncovered_values nR nC m =
     concat (map (\<lambda>r. if coveredRows m r then [] else map (distMatrix m r) (filter (\<lambda>c. \<not> coveredColumns m c) [0..<nC])) [0..<nR])"

definition step5 :: "nat \<Rightarrow> nat \<Rightarrow> Munkres \<Rightarrow> Munkres result" where
  "step5 nR nC m =
     (case uncovered_values nR nC m of
        [] \<Rightarrow> Inl OutOfBounds
      | v # vs \<Rightarrow>
          (let h = min_loop v vs
           in Inr (m\<lparr>distMatrix := (\<lambda>r c. (distMatrix m r c + (if r < nR \<and> c < nC \<and> coveredRows m r then h else 0)) -
                (if r < nR \<and> c < nC \<and> \<not> coveredColumns m c then h else 0))\<rparr>)))"

text \<open>The steps from 2b on.\<close>

fun munkres_loop :: "nat \<Rightarrow> nat \<Rightarrow> nat \<Rightarrow> Munkres \<Rightarrow> Munkres result option" where
  "munkres_loop 0 nR nC m = None"
| "munkres_loop (Suc fuel) nR nC m =
     (case step3 nR nC m of
        (Some (row, col), m1) \<Rightarrow>
          (case step4 nR nC row col m1 of
             None \<Rightarrow> None
           | Some (Inl e) \<Rightarrow> Some (Inl e)
           | Some (Inr m2) \<Rightarrow>
               (if nOfCoveredColumns nC m2 = min nR nC then Some (Inr m2) else munkres_loop fuel nR nC m2))
      | (None, m1) \<Rightarrow>
          (case step5 nR nC m1 of Inl e \<Rightarrow> Some (Inl e) | Inr m2 \<Rightarrow> munkres_loop fuel nR nC m2))"

definition munkres_fuel :: "nat \<Rightarrow> nat \<Rightarrow> nat" where
  "munkres_fuel nR nC = (min nR nC + 1) * (nR + 2)"

definition assignmentoptimal :: "nat \<Rightarrow> nat \<Rightarrow> (nat \<Rightarrow> nat \<Rightarrow> real) \<Rightarrow> (int list \<times> real) result option" where
  "assignmentoptimal nR nC d =
     (let m = munkres_start nR nC d;
          r = (if nOfCoveredColumns nC m = min nR nC then Some (Inr m) else munkres_loop (munkres_fuel nR nC) nR nC m)
      in map_option (map_sum id (\<lambda>m'. let a = buildassignmentvector nR nC m' in (a, computeassignmentcost a d nR))) r)"

definition Hungarian_Solve :: "Matrix \<Rightarrow> (int list \<times> real) result option" where
  "Hungarian_Solve M = assignmentoptimal (Rows M) (Cols M) (\<lambda>i j. if i < Rows M \<and> j < Cols M then elem M i j else 0)"

lemma hungarian_example:
  "Hungarian_Solve \<lparr>mat_arrays = [1, 2, 2, 4], mat_rows = 2, mat_cols = 2\<rparr> = Some (Inr ([1, 0], 4))"
  by code_simp

end
