(* ===== verification/HungarianProps.thy ===== *)
theory HungarianProps
  imports Hungarian
begin

section \<open>Munkres' algorithm finds a cheapest assignment\<close>

subsection \<open>Invariants\<close>

text \<open>The stars are a matching of zeros.\<close>

definition matching :: "nat \<Rightarrow> nat \<Rightarrow> (nat \<Rightarrow> nat \<Rightarrow> bool) \<Rightarrow> bool" where
  "matching nR nC S \<longleftrightarrow> (\<forall>r c. S r c \<longrightarrow> r < nR \<and> c < nC) \<and> (\<forall>r c c'. S r c \<and> S r c' \<longrightarrow> c = c') \<and>
     (\<forall>r r' c. S r c \<and> S r' c \<longrightarrow> r = r')"

definition zeros :: "(nat \<Rightarrow> nat \<Rightarrow> real) \<Rightarrow> (nat \<Rightarrow> nat \<Rightarrow> bool) \<Rightarrow> bool" where
  "zeros d S \<longleftrightarrow> (\<forall>r c. S r c \<longrightarrow> is_zero (d r c))"

text \<open>
  The matrix is the costs less a price of the row and a price of the column; where there are more
  columns than rows, a column without a star has the largest column price, and conversely.
\<close>

definition priced ::
  "nat \<Rightarrow> nat \<Rightarrow> (nat \<Rightarrow> nat \<Rightarrow> real) \<Rightarrow> (nat \<Rightarrow> nat \<Rightarrow> real) \<Rightarrow> (nat \<Rightarrow> nat \<Rightarrow> bool) \<Rightarrow> bool" where
  "priced nR nC cost d S \<longleftrightarrow> (\<exists>u v m.
     (\<forall>r<nR. \<forall>c<nC. d r c = cost r c - u r - v c \<and> 0 \<le> d r c) \<and>
     (nR \<le> nC \<longrightarrow> (\<forall>c<nC. v c \<le> m \<and> ((\<forall>r. \<not> S r c) \<longrightarrow> v c = m))) \<and>
     (nC < nR \<longrightarrow> (\<forall>r<nR. u r \<le> m \<and> ((\<forall>c. \<not> S r c) \<longrightarrow> u r = m))))"

text \<open>
  Every star is covered once, by its row or its column; nothing else is covered.  A covered row has a
  prime, in an uncovered column; the star of a prime's column is in a row that was covered before
  (\<open>rk\<close> is the order in which the rows were covered).
\<close>

definition covering ::
  "nat \<Rightarrow> (nat \<Rightarrow> nat \<Rightarrow> real) \<Rightarrow> (nat \<Rightarrow> nat \<Rightarrow> bool) \<Rightarrow> (nat \<Rightarrow> nat \<Rightarrow> bool) \<Rightarrow> (nat \<Rightarrow> bool) \<Rightarrow> (nat \<Rightarrow> bool) \<Rightarrow> (nat \<Rightarrow> nat) \<Rightarrow> bool" where
  "covering nC d S P cC cR rk \<longleftrightarrow>
     (\<forall>r c. S r c \<longrightarrow> cC c \<noteq> cR r) \<and> (\<forall>c. cC c \<longrightarrow> (\<exists>r. S r c)) \<and>
     (\<forall>r. cR r \<longrightarrow> (\<exists>c. S r c) \<and> (\<exists>c. P r c) \<and> rk r < card {r. cR r}) \<and>
     (\<forall>r c. P r c \<longrightarrow> cR r \<and> c < nC \<and> \<not> cC c \<and> is_zero (d r c) \<and> (\<forall>r'. S r' c \<longrightarrow> cR r' \<and> rk r' < rk r))"

definition munkres_inv :: "nat \<Rightarrow> nat \<Rightarrow> (nat \<Rightarrow> nat \<Rightarrow> real) \<Rightarrow> Munkres \<Rightarrow> bool" where
  "munkres_inv nR nC cost m \<longleftrightarrow>
     matching nR nC (starMatrix m) \<and> zeros (distMatrix m) (starMatrix m) \<and>
     priced nR nC cost (distMatrix m) (starMatrix m) \<and>
     (\<exists>rk. covering nC (distMatrix m) (starMatrix m) (primeMatrix m) (coveredColumns m) (coveredRows m) rk)"

lemma matchingD:
  assumes "matching nR nC S"
  shows "S r c \<Longrightarrow> r < nR" "S r c \<Longrightarrow> c < nC" "S r c \<Longrightarrow> S r c' \<Longrightarrow> c = c'" "S r c \<Longrightarrow> S r' c \<Longrightarrow> r = r'"
  using assms unfolding matching_def by blast+

lemma coveringD:
  assumes "covering nC d S P cC cR rk"
  shows "S r c \<Longrightarrow> cC c \<noteq> cR r" "cC c \<Longrightarrow> \<exists>r. S r c" "cR r \<Longrightarrow> \<exists>c. S r c" "cR r \<Longrightarrow> \<exists>c. P r c"
    "cR r \<Longrightarrow> rk r < card {r. cR r}" "P r c \<Longrightarrow> cR r" "P r c \<Longrightarrow> c < nC" "P r c \<Longrightarrow> \<not> cC c"
    "P r c \<Longrightarrow> is_zero (d r c)" "P r c \<Longrightarrow> S r' c \<Longrightarrow> cR r'" "P r c \<Longrightarrow> S r' c \<Longrightarrow> rk r' < rk r"
proof -
  from assms have a: "\<forall>r c. S r c \<longrightarrow> cC c \<noteq> cR r" and b: "\<forall>c. cC c \<longrightarrow> (\<exists>r. S r c)"
    and c: "\<forall>r. cR r \<longrightarrow> (\<exists>c. S r c) \<and> (\<exists>c. P r c) \<and> rk r < card {r. cR r}"
    and d: "\<forall>r c. P r c \<longrightarrow> cR r \<and> c < nC \<and> \<not> cC c \<and> is_zero (d r c) \<and> (\<forall>r'. S r' c \<longrightarrow> cR r' \<and> rk r' < rk r)"
    unfolding covering_def by - (elim conjE, assumption)+
  show "S r c \<Longrightarrow> cC c \<noteq> cR r" using a by simp
  show "cC c \<Longrightarrow> \<exists>r. S r c" using b by simp
  show "cR r \<Longrightarrow> \<exists>c. S r c" "cR r \<Longrightarrow> \<exists>c. P r c" "cR r \<Longrightarrow> rk r < card {r. cR r}" using c by simp_all
  show "P r c \<Longrightarrow> cR r" "P r c \<Longrightarrow> c < nC" "P r c \<Longrightarrow> \<not> cC c" "P r c \<Longrightarrow> is_zero (d r c)"
    "P r c \<Longrightarrow> S r' c \<Longrightarrow> cR r'" "P r c \<Longrightarrow> S r' c \<Longrightarrow> rk r' < rk r" using d by simp_all
qed

lemma coveringI:
  assumes "\<And>r c. S r c \<Longrightarrow> cC c \<noteq> cR r" "\<And>c. cC c \<Longrightarrow> \<exists>r. S r c"
    "\<And>r. cR r \<Longrightarrow> (\<exists>c. S r c) \<and> (\<exists>c. P r c) \<and> rk r < card {r. cR r}"
    "\<And>r c. P r c \<Longrightarrow> cR r \<and> c < nC \<and> \<not> cC c \<and> is_zero (d r c) \<and> (\<forall>r'. S r' c \<longrightarrow> cR r' \<and> rk r' < rk r)"
  shows "covering nC d S P cC cR rk"
  unfolding covering_def by (intro conjI allI impI; simp add: assms)

lemma covered_rows_bound:
  assumes "matching nR nC S" "covering nC d S P cC cR rk"
  shows "{r. cR r} \<subseteq> {..<nR}" "finite {r. cR r}"
proof -
  show "{r. cR r} \<subseteq> {..<nR}" using coveringD(3) [OF assms(2)] matchingD(1) [OF assms(1)] by blast
  then show "finite {r. cR r}" by (rule finite_subset) simp
qed

subsection \<open>Step 3\<close>

lemma cover_row:
  assumes m: "matching nR nC S" and cov: "covering nC d S P cC cR rk"
    and r: "\<not> cR r" "S r sc" and c: "c < nC" "\<not> cC c" "is_zero (d r c)"
  shows "covering nC d S (upd2 P r c True) (cC(sc := False)) (cR(r := True)) (rk(r := card {r. cR r}))"
proof -
  let ?k = "card {r. cR r}"
  have fin: "finite {r. cR r}" by (rule covered_rows_bound [OF m cov])
  have "{q. (cR(r := True)) q} = insert r {r. cR r}" by auto
  then have card: "card {q. (cR(r := True)) q} = Suc ?k" using fin r(1) by simp
  note stars = coveringD(1) [OF cov] and cols = coveringD(2) [OF cov]
  have rows: "(\<exists>c. S r c) \<and> (\<exists>c. P r c) \<and> rk r < ?k" if "cR r" for r using coveringD(3-5) [OF cov that] by blast
  have primes: "cR r \<and> c < nC \<and> \<not> cC c \<and> is_zero (d r c) \<and> (\<forall>r'. S r' c \<longrightarrow> cR r' \<and> rk r' < rk r)" if "P r c" for r c
    using coveringD(6-11) [OF cov that] by blast
  have row1: "S r c' \<Longrightarrow> c' = sc" and col1: "S r' sc \<Longrightarrow> r' = r" for c' r'
    using matchingD(3,4) [OF m] r(2) by metis+
  have 1: "(cC(sc := False)) c' \<noteq> (cR(r := True)) r'" if "S r' c'" for r' c'
    using stars [OF that] row1 col1 that by auto
  have 2: "\<exists>r. S r c'" if "(cC(sc := False)) c'" for c' using cols that by (auto split: if_splits)
  have 3: "(\<exists>c. S q c) \<and> (\<exists>x. upd2 P r c True q x) \<and> (rk(r := ?k)) q < Suc ?k" if "(cR(r := True)) q" for q
  proof (cases "q = r")
    case True
    then show ?thesis using r(2) by (auto simp: upd2_apply)
  next
    case False
    with that rows [of q] obtain x where "P q x" "rk q < ?k" "\<exists>c. S q c" by auto
    with False show ?thesis by (auto simp: upd2_apply)
  qed
  have 4: "(cR(r := True)) q \<and> x < nC \<and> \<not> (cC(sc := False)) x \<and> is_zero (d q x) \<and>
      (\<forall>r'. S r' x \<longrightarrow> (cR(r := True)) r' \<and> (rk(r := ?k)) r' < (rk(r := ?k)) q)" if p: "upd2 P r c True q x" for q x
  proof (cases "q = r")
    case True
    then have x: "x = c" using p primes [of r x] r(1) by (auto simp: upd2_apply split: if_splits)
    have "cR r' \<and> rk r' < ?k" if "S r' c" for r' using stars [OF that] c(2) rows [of r'] by auto
    then have "cR r' \<and> rk r' < ?k \<and> r' \<noteq> r" if "S r' c" for r' using that r(1) by auto
    then show ?thesis using True x c by auto
  next
    case False
    then have "P q x" using p by (simp add: upd2_apply split: if_splits)
    from primes [OF this] False r(1) show ?thesis by auto
  qed
  from 1 2 3 [folded card] 4 show ?thesis by (rule coveringI)
qed

text \<open>The state with which a pass goes on, or from which it goes to step 4.\<close>

definition prime_at :: "nat \<Rightarrow> nat \<Rightarrow> nat \<Rightarrow> nat \<Rightarrow> Munkres \<Rightarrow> Munkres \<Rightarrow> bool" where
  "prime_at nR nC r c m m1 \<longleftrightarrow> m1 = m\<lparr>primeMatrix := upd2 (primeMatrix m) r c True\<rparr> \<and> r < nR \<and> c < nC \<and>
     \<not> coveredRows m r \<and> \<not> coveredColumns m c \<and> is_zero (distMatrix m r c) \<and> (\<forall>x. \<not> starMatrix m r x)"

lemma step3_pass_inv:
  "munkres_inv nR nC cost m \<Longrightarrow> set cols \<subseteq> {..<nC} \<Longrightarrow> step3_pass nR nC cols found m = (p, found', m') \<Longrightarrow>
   \<exists>m0. munkres_inv nR nC cost m0 \<and> starMatrix m0 = starMatrix m \<and> uncovered nR m0 \<subseteq> uncovered nR m \<and>
     (case p of None \<Rightarrow> m' = m0 | Some (r, c) \<Rightarrow> prime_at nR nC r c m0 m')"
proof (induction nR nC cols found m arbitrary: p found' m' rule: step3_pass.induct)
  case (1 nR nC found m)
  then show ?case by auto
next
  case (2 nR nC col cols found m)
  show ?case
  proof (cases "coveredColumns m col")
    case True
    with 2 show ?thesis by simp
  next
    case open_col: False
    show ?thesis
    proof (cases "find (\<lambda>r. \<not> coveredRows m r \<and> is_zero (distMatrix m r col)) [0..<nR]")
      case None
      with open_col 2 show ?thesis by simp
    next
      case (Some row)
      from find_upt [OF this] have row: "row < nR" "\<not> coveredRows m row" "is_zero (distMatrix m row col)" by auto
      let ?m1 = "m\<lparr>primeMatrix := upd2 (primeMatrix m) row col True\<rparr>"
      show ?thesis
      proof (cases "find (starMatrix ?m1 row) [0..<nC]")
        case None
        then have "\<not> starMatrix m row x" for x
          using 2(4) unfolding munkres_inv_def matching_def find_upt_None by auto
        with None open_col Some row 2(4-6) show ?thesis by (intro exI [of _ m]) (auto simp: prime_at_def)
      next
        case star: (Some sc)
        let ?m2 = "?m1\<lparr>coveredRows := (coveredRows ?m1)(row := True), coveredColumns := (coveredColumns ?m1)(sc := False)\<rparr>"
        from find_upt [OF star] have sc: "starMatrix m row sc" by simp
        from 2(4) obtain rk where m: "matching nR nC (starMatrix m)"
          and cov: "covering nC (distMatrix m) (starMatrix m) (primeMatrix m) (coveredColumns m) (coveredRows m) rk"
          unfolding munkres_inv_def by blast
        have "munkres_inv nR nC cost ?m2"
          using 2(4,5) cover_row [OF m cov row(2) sc _ open_col row(3)] unfolding munkres_inv_def by auto
        with 2(3) [OF open_col Some refl star, of p found' m'] 2(5,6) open_col Some star obtain m0 where
          "munkres_inv nR nC cost m0" "starMatrix m0 = starMatrix m" "uncovered nR m0 \<subseteq> uncovered nR ?m2"
          "case p of None \<Rightarrow> m' = m0 | Some (r, c) \<Rightarrow> prime_at nR nC r c m0 m'" by auto
        moreover have "uncovered nR ?m2 \<subseteq> uncovered nR m" by (auto simp: uncovered_def)
        ultimately show ?thesis by (intro exI [of _ m0]) auto
      qed
    qed
  qed
qed

text \<open>An uncovered zero makes a pass cover a row or go to step 4.\<close>

definition has_zero :: "nat \<Rightarrow> nat \<Rightarrow> Munkres \<Rightarrow> bool" where
  "has_zero nR nC m \<longleftrightarrow> (\<exists>r<nR. \<exists>c<nC. \<not> coveredRows m r \<and> \<not> coveredColumns m c \<and> is_zero (distMatrix m r c))"

lemma step3_pass_found: "step3_pass nR nC cols True m = (p, found', m') \<Longrightarrow> p \<noteq> None \<or> found'"
proof (induction cols arbitrary: m)
  case (Cons col cols)
  then show ?case by (auto simp: Let_def split: if_splits option.splits)
qed simp

lemma step3_pass_progress:
  "step3_pass nR nC cols found m = (p, found', m') \<Longrightarrow> r < nR \<Longrightarrow> \<not> coveredRows m r \<Longrightarrow> c \<in> set cols \<Longrightarrow>
   \<not> coveredColumns m c \<Longrightarrow> is_zero (distMatrix m r c) \<Longrightarrow> p \<noteq> None \<or> found'"
proof (induction cols arbitrary: found)
  case (Cons col cols)
  show ?case
  proof (cases "coveredColumns m col \<or> find (\<lambda>r. \<not> coveredRows m r \<and> is_zero (distMatrix m r col)) [0..<nR] = None")
    case True
    then have "step3_pass nR nC cols found m = (p, found', m')" using Cons.prems(1) by (auto split: if_splits)
    moreover have "c \<noteq> col" using True Cons.prems(2-6) by (auto simp: find_upt_None)
    ultimately show ?thesis using Cons.IH Cons.prems by auto
  next
    case False
    with Cons.prems(1) show ?thesis
      using step3_pass_found by (fastforce simp: Let_def split: option.splits)
  qed
qed simp

lemma step3_inv:
  "munkres_inv nR nC cost m \<Longrightarrow> step3 nR nC m = (p, m') \<Longrightarrow>
   \<exists>m0. munkres_inv nR nC cost m0 \<and> starMatrix m0 = starMatrix m \<and> uncovered nR m0 \<subseteq> uncovered nR m \<and>
     (has_zero nR nC m \<longrightarrow> p \<noteq> None \<or> uncovered nR m0 \<subset> uncovered nR m) \<and>
     (case p of None \<Rightarrow> m' = m0 | Some (r, c) \<Rightarrow> prime_at nR nC r c m0 m')"
proof (induction nR nC m rule: step3.induct)
  case (1 nR nC m)
  obtain q found m1 where pass: "step3_pass nR nC [0..<nC] False m = (q, found, m1)" by (metis prod_cases3)
  have "set [0..<nC] \<subseteq> {..<nC}" by auto
  from step3_pass_inv [OF 1(2) this pass] obtain m0 where m0: "munkres_inv nR nC cost m0" "starMatrix m0 = starMatrix m"
    "uncovered nR m0 \<subseteq> uncovered nR m" "case q of None \<Rightarrow> m1 = m0 | Some (r, c) \<Rightarrow> prime_at nR nC r c m0 m1" by blast
  show ?case
  proof (cases "q = None \<and> found")
    case True
    then have e: "step3 nR nC m1 = (p, m')" and m1: "m1 = m0"
      using 1(3) pass m0(4) by (simp_all add: step3.simps [of nR nC m])
    from step3_pass_uncovered [OF pass] True have less: "uncovered nR m1 \<subset> uncovered nR m" by simp
    have "q = None" "found" using True by simp_all
    with 1(1) [OF pass [symmetric] _ refl] m0(1) m1 e obtain m2 where
      "munkres_inv nR nC cost m2" "starMatrix m2 = starMatrix m1" "uncovered nR m2 \<subseteq> uncovered nR m1"
      "case p of None \<Rightarrow> m' = m2 | Some (r, c) \<Rightarrow> prime_at nR nC r c m2 m'" by auto
    with less m0(2) m1 show ?thesis by (intro exI [of _ m2]) auto
  next
    case False
    then have e: "p = q" "m' = m1"
      using 1(3) pass by (auto simp: step3.simps [of nR nC m] split: option.splits)
    have "q \<noteq> None" if z: "has_zero nR nC m"
    proof -
      from z obtain r c where "r < nR" "c < nC" "\<not> coveredRows m r" "\<not> coveredColumns m c" "is_zero (distMatrix m r c)"
        unfolding has_zero_def by blast
      then show ?thesis using False step3_pass_progress [OF pass, of r c] by auto
    qed
    with e m0 show ?thesis by (intro exI [of _ m0]) auto
  qed
qed

subsection \<open>Step 4\<close>

text \<open>
  The new matrix on the way along the path: \<open>k\<close> is the column whose old star, if any, is still to be
  removed, and rows covered before \<open>b\<close> are as they were.
\<close>

definition path_inv ::
  "nat \<Rightarrow> nat \<Rightarrow> (nat \<Rightarrow> nat \<Rightarrow> real) \<Rightarrow> (nat \<Rightarrow> nat \<Rightarrow> bool) \<Rightarrow> (nat \<Rightarrow> bool) \<Rightarrow> (nat \<Rightarrow> nat) \<Rightarrow> nat \<Rightarrow>
   (nat \<Rightarrow> nat \<Rightarrow> bool) \<Rightarrow> nat \<Rightarrow> nat \<Rightarrow> bool" where
  "path_inv nR nC d S cR rk r0 new k b \<longleftrightarrow>
     (\<forall>r c. new r c \<longrightarrow> r < nR \<and> c < nC \<and> is_zero (d r c)) \<and>
     (\<forall>r c c'. new r c \<and> new r c' \<longrightarrow> c = c') \<and>
     (\<forall>r r' c. c \<noteq> k \<and> new r c \<and> new r' c \<longrightarrow> r = r') \<and>
     (\<exists>q. new q k \<and> \<not> S q k \<and> (\<forall>r. new r k \<longrightarrow> r = q \<or> S r k)) \<and>
     (\<forall>r. (\<exists>c. new r c) \<longleftrightarrow> (\<exists>c. S r c) \<or> r = r0) \<and>
     (\<forall>c. (\<exists>r. S r c) \<longrightarrow> (\<exists>r. new r c)) \<and>
     (\<forall>r c. cR r \<and> rk r < b \<longrightarrow> new r c = S r c) \<and>
     (\<forall>r c. new r c \<and> \<not> S r c \<longrightarrow> c = k \<or> (\<exists>r'. S r' c \<and> b \<le> rk r')) \<and>
     (\<forall>r. S r k \<longrightarrow> cR r \<and> rk r < b)"

lemma path_step:
  assumes m: "matching nR nC S" and p: "path_inv nR nC d S cR rk r0 new k b" and s: "S sr k"
    and prime: "c < nC" "is_zero (d sr c)" "\<forall>r'. S r' c \<longrightarrow> cR r' \<and> rk r' < rk sr"
  shows "path_inv nR nC d S cR rk r0 (upd2 (upd2 new sr k False) sr c True) c (rk sr)"
proof -
  let ?new = "upd2 (upd2 new sr k False) sr c True"
  from p have "\<forall>r c. new r c \<longrightarrow> r < nR \<and> c < nC \<and> is_zero (d r c)"
    and "\<forall>r c c'. new r c \<and> new r c' \<longrightarrow> c = c'"
    and "\<forall>r r' c. c \<noteq> k \<and> new r c \<and> new r' c \<longrightarrow> r = r'"
    and q0: "\<exists>q. new q k \<and> \<not> S q k \<and> (\<forall>r. new r k \<longrightarrow> r = q \<or> S r k)"
    and E0: "\<forall>r. (\<exists>c. new r c) \<longleftrightarrow> (\<exists>c. S r c) \<or> r = r0"
    and "\<forall>c. (\<exists>r. S r c) \<longrightarrow> (\<exists>r. new r c)"
    and "\<forall>r c. cR r \<and> rk r < b \<longrightarrow> new r c = S r c"
    and "\<forall>r c. new r c \<and> \<not> S r c \<longrightarrow> c = k \<or> (\<exists>r'. S r' c \<and> b \<le> rk r')"
    and "\<forall>r. S r k \<longrightarrow> cR r \<and> rk r < b"
    unfolding path_inv_def by - (elim conjE, assumption)+
  then have A: "\<And>r c. new r c \<Longrightarrow> r < nR \<and> c < nC \<and> is_zero (d r c)"
    and B: "\<And>r c c'. new r c \<Longrightarrow> new r c' \<Longrightarrow> c = c'"
    and C: "\<And>r r' c. c \<noteq> k \<Longrightarrow> new r c \<Longrightarrow> new r' c \<Longrightarrow> r = r'"
    and F: "\<And>c. (\<exists>r. S r c) \<Longrightarrow> (\<exists>r. new r c)"
    and G: "\<And>r c. cR r \<Longrightarrow> rk r < b \<Longrightarrow> new r c = S r c"
    and H: "\<And>r c. new r c \<Longrightarrow> \<not> S r c \<Longrightarrow> c = k \<or> (\<exists>r'. S r' c \<and> b \<le> rk r')"
    and I: "\<And>r. S r k \<Longrightarrow> cR r \<and> rk r < b"
    by blast+
  note E = spec [OF E0]
  from q0 obtain q where q: "new q k" "\<not> S q k" "\<And>r. new r k \<Longrightarrow> r = q \<or> S r k" by blast
  from m have inj: "\<And>r c c'. S r c \<Longrightarrow> S r c' \<Longrightarrow> c = c'" "\<And>r r' c. S r c \<Longrightarrow> S r' c \<Longrightarrow> r = r'"
    and lt: "\<And>r c. S r c \<Longrightarrow> r < nR \<and> c < nC" unfolding matching_def by blast+
  have sr: "cR sr" "rk sr < b" using I [OF s] by auto
  have row: "new sr x = S sr x" for x by (rule G [OF sr])
  have ck: "c \<noteq> k" using prime(3) s by blast
  have qsr: "q \<noteq> sr" using q(2) s by blast
  have col: "S r c" if "new r c" for r
  proof (rule ccontr)
    assume "\<not> S r c"
    with H [OF that] ck obtain r' where "S r' c" "b \<le> rk r'" by blast
    with prime(3) sr(2) show False by fastforce
  qed
  have src: "\<not> S sr c" using inj(1) [OF s] ck by blast
  have new: "?new r x = (if r = sr then x = c else new r x)" for r x
    using row inj(1) [OF s] ck by (auto simp: upd2_apply)
  have 1: "r < nR \<and> x < nC \<and> is_zero (d r x)" if "?new r x" for r x
    using that A lt [OF s] prime unfolding new by (auto split: if_splits)
  have 2: "x = x'" if "?new r x" "?new r x'" for r x x' using that B unfolding new by (auto split: if_splits)
  have 3: "r = r'" if "x \<noteq> c" "?new r x" "?new r' x" for r r' x
  proof -
    have n: "r \<noteq> sr" "r' \<noteq> sr" "new r x" "new r' x" using that unfolding new by (auto split: if_splits)
    show ?thesis
    proof (cases "x = k")
      case True
      then have "r = q \<or> r = sr" "r' = q \<or> r' = sr" using n q(3) inj(2) [OF s] by blast+
      with n show ?thesis by blast
    qed (use n C in blast)
  qed
  have 4: "?new sr c \<and> \<not> S sr c \<and> (\<forall>r. ?new r c \<longrightarrow> r = sr \<or> S r c)"
    using src col unfolding new by auto
  have 5: "(\<exists>x. ?new r x) \<longleftrightarrow> (\<exists>x. S r x) \<or> r = r0" for r
    using E [of r] s unfolding new by auto
  have 6: "\<exists>r. ?new r x" if "\<exists>r. S r x" for x
  proof (cases "x = c \<or> x = k")
    case True
    then show ?thesis using q(1) qsr unfolding new by (metis (full_types))
  next
    case False
    from F [OF that] obtain r where "new r x" by blast
    moreover have "r \<noteq> sr" using calculation row inj(1) [OF s] False by blast
    ultimately show ?thesis unfolding new by auto
  qed
  have 7: "?new r x = S r x" if "cR r" "rk r < rk sr" for r x
    using that G [OF that(1)] sr(2) unfolding new by auto
  have 8: "x = c \<or> (\<exists>r'. S r' x \<and> rk sr \<le> rk r')" if "?new r x" "\<not> S r x" for r x
  proof (cases "r = sr")
    case True
    then show ?thesis using that(1) unfolding new by simp
  next
    case False
    then have "new r x" using that(1) unfolding new by simp
    from H [OF this that(2)] show ?thesis using s sr(2) by (auto intro: less_imp_le order.trans)
  qed
  show ?thesis unfolding path_inv_def using 1 2 3 4 5 6 7 8 prime(3) by blast
qed

lemma step4_loop_inv:
  assumes m: "matching nR nC S" and cov: "covering nC d S P cC cR rk"
    and r0: "\<not> cR r0" and M: "starMatrix M = S" "\<And>r. r \<noteq> r0 \<Longrightarrow> primeMatrix M r = P r"
  shows "path_inv nR nC d S cR rk r0 new k b \<Longrightarrow> b < fuel \<Longrightarrow>
    \<exists>new' k' b'. step4_loop fuel nR nC M k new = Some (Inr new') \<and> path_inv nR nC d S cR rk r0 new' k' b' \<and> (\<forall>r. \<not> S r k')"
proof (induction fuel arbitrary: new k b)
  case 0
  then show ?case by simp
next
  case (Suc fuel)
  show ?case
  proof (cases "find (\<lambda>r. S r k) [0..<nR]")
    case None
    then have "\<not> S r k" for r using m unfolding find_upt_None matching_def by blast
    with None Suc.prems M show ?thesis by auto
  next
    case (Some sr)
    from find_upt [OF this] have s: "S sr k" by simp
    with Suc.prems(1) have sr: "cR sr" "rk sr < b" unfolding path_inv_def by blast+
    from coveringD(4) [OF cov sr(1)] obtain x where "P sr x" by blast
    then obtain c where c: "find (P sr) [0..<nC] = Some c"
      using coveringD(7) [OF cov] by (cases "find (P sr) [0..<nC]") (auto simp: find_upt_None)
    from find_upt [OF c] have "P sr c" by simp
    from coveringD(7,9-11) [OF cov this]
    have "c < nC" "is_zero (d sr c)" "\<forall>r'. S r' c \<longrightarrow> cR r' \<and> rk r' < rk sr" by simp_all
    from path_step [OF m Suc.prems(1) s this]
    have "path_inv nR nC d S cR rk r0 (upd2 (upd2 new sr k False) sr c True) c (rk sr)" .
    from Suc.IH [OF this] sr Suc.prems(2) have "\<exists>new' k' b'.
        step4_loop fuel nR nC M c (upd2 (upd2 new sr k False) sr c True) = Some (Inr new') \<and>
        path_inv nR nC d S cR rk r0 new' k' b' \<and> (\<forall>r. \<not> S r k')" by simp
    moreover have "primeMatrix M sr = P sr" by (rule M(2)) (use r0 sr(1) in auto)
    ultimately show ?thesis using Some c M(1) by (simp add: Let_def)
  qed
qed

lemma priced_mono:
  assumes "priced nR nC cost d S" "\<forall>c. (\<exists>r. S r c) \<longrightarrow> (\<exists>r. S' r c)" "\<forall>r. (\<exists>c. S r c) \<longrightarrow> (\<exists>c. S' r c)"
  shows "priced nR nC cost d S'"
proof -
  from assms(1) obtain u v m where
    "\<forall>r<nR. \<forall>c<nC. d r c = cost r c - u r - v c \<and> 0 \<le> d r c"
    and c: "nR \<le> nC \<longrightarrow> (\<forall>c<nC. v c \<le> m \<and> ((\<forall>r. \<not> S r c) \<longrightarrow> v c = m))"
    and r: "nC < nR \<longrightarrow> (\<forall>r<nR. u r \<le> m \<and> ((\<forall>c. \<not> S r c) \<longrightarrow> u r = m))"
    unfolding priced_def by blast
  moreover have "nR \<le> nC \<longrightarrow> (\<forall>c<nC. v c \<le> m \<and> ((\<forall>r. \<not> S' r c) \<longrightarrow> v c = m))" using c assms(2) by blast
  moreover have "nC < nR \<longrightarrow> (\<forall>r<nR. u r \<le> m \<and> ((\<forall>c. \<not> S' r c) \<longrightarrow> u r = m))" using r assms(3) by blast
  ultimately show ?thesis unfolding priced_def by blast
qed

text \<open>The number of stars.\<close>

definition stars :: "(nat \<Rightarrow> nat \<Rightarrow> bool) \<Rightarrow> nat" where
  "stars S = card {r. \<exists>c. S r c}"

lemma stars_columns:
  assumes "matching nR nC S"
  shows "card {c. \<exists>r. S r c} = stars S" "finite {r. \<exists>c. S r c}" "stars S \<le> nR" "stars S \<le> nC"
    "finite {c. \<exists>r. S r c}"
proof -
  let ?P = "{(r, c). S r c}"
  have sub: "{r. \<exists>c. S r c} \<subseteq> {..<nR}" "{c. \<exists>r. S r c} \<subseteq> {..<nC}" using assms unfolding matching_def by auto
  show "finite {r. \<exists>c. S r c}" "finite {c. \<exists>r. S r c}" using sub by (auto intro: finite_subset)
  have "{r. \<exists>c. S r c} = fst ` ?P" "{c. \<exists>r. S r c} = snd ` ?P" by force+
  moreover have "inj_on fst ?P" "inj_on snd ?P" using matchingD(3,4) [OF assms] by (auto intro!: inj_onI)
  ultimately show eq: "card {c. \<exists>r. S r c} = stars S" by (simp add: stars_def card_image)
  show "stars S \<le> nR" using card_mono [OF _ sub(1)] by (simp add: stars_def)
  show "stars S \<le> nC" using card_mono [OF _ sub(2)] eq by simp
qed

text \<open>When no row is covered, the covered columns are those with a star.\<close>

lemma covered_count:
  assumes "munkres_inv nR nC cost m" "\<forall>r. \<not> coveredRows m r"
  shows "nOfCoveredColumns nC m = stars (starMatrix m)"
proof -
  from assms obtain rk where m: "matching nR nC (starMatrix m)"
    and cov: "covering nC (distMatrix m) (starMatrix m) (primeMatrix m) (coveredColumns m) (coveredRows m) rk"
    unfolding munkres_inv_def by blast
  have "{c. c < nC \<and> coveredColumns m c} = {c. \<exists>r. starMatrix m r c}"
    using coveringD(1,2) [OF cov] matchingD(2) [OF m] assms(2) by blast
  moreover have "nOfCoveredColumns nC m = card {c. c < nC \<and> coveredColumns m c}"
    unfolding nOfCoveredColumns_def by (subst distinct_card [symmetric]) (auto intro: arg_cong [of _ _ card])
  ultimately show ?thesis using stars_columns(1) [OF m] by simp
qed

lemma step4_ok:
  assumes inv: "munkres_inv nR nC cost m0" and at: "prime_at nR nC r0 c0 m0 m1"
  shows "\<exists>m2. step4 nR nC r0 c0 m1 = Some (Inr m2) \<and> munkres_inv nR nC cost m2 \<and> (\<forall>r. \<not> coveredRows m2 r) \<and>
    stars (starMatrix m2) = Suc (stars (starMatrix m0))"
proof -
  define S where "S = starMatrix m0"
  from inv obtain rk where m: "matching nR nC S" and z: "zeros (distMatrix m0) S" and pr: "priced nR nC cost (distMatrix m0) S"
    and cov: "covering nC (distMatrix m0) S (primeMatrix m0) (coveredColumns m0) (coveredRows m0) rk"
    unfolding munkres_inv_def S_def by blast
  from at have m1: "m1 = m0\<lparr>primeMatrix := upd2 (primeMatrix m0) r0 c0 True\<rparr>"
    and r0: "r0 < nR" "\<not> coveredRows m0 r0" "\<And>x. \<not> S r0 x"
    and c0: "c0 < nC" "\<not> coveredColumns m0 c0" "is_zero (distMatrix m0 r0 c0)"
    unfolding prime_at_def S_def by blast+
  let ?d = "distMatrix m0" and ?k = "card {r. coveredRows m0 r}" and ?new = "upd2 S r0 c0 True"
  have col0: "coveredRows m0 r \<and> rk r < ?k" if "S r c0" for r
    using coveringD(1,5) [OF cov] that c0(2) by blast
  have "path_inv nR nC ?d S (coveredRows m0) rk r0 ?new c0 ?k"
    unfolding path_inv_def upd2_apply using z r0 c0 col0 matchingD [OF m] unfolding zeros_def
    by (intro conjI allI impI) (auto split: if_splits)
  moreover have "?k < Suc nR" using card_mono [OF _ covered_rows_bound(1) [OF m cov]] by simp
  moreover have "starMatrix m1 = S" "\<And>r. r \<noteq> r0 \<Longrightarrow> primeMatrix m1 r = primeMatrix m0 r"
    by (simp_all add: m1 S_def upd2_def)
  ultimately obtain new k b where n: "step4_loop (Suc nR) nR nC m1 c0 ?new = Some (Inr new)"
    "path_inv nR nC ?d S (coveredRows m0) rk r0 new k b" "\<forall>r. \<not> S r k"
    using step4_loop_inv [OF m cov r0(2)] by blast
  from n(2) have na: "\<forall>r c. new r c \<longrightarrow> r < nR \<and> c < nC \<and> is_zero (?d r c)"
    and nb: "\<forall>r c c'. new r c \<and> new r c' \<longrightarrow> c = c'"
    and nc: "\<forall>r r' c. c \<noteq> k \<and> new r c \<and> new r' c \<longrightarrow> r = r'"
    and nd: "\<exists>q. new q k \<and> \<not> S q k \<and> (\<forall>r. new r k \<longrightarrow> r = q \<or> S r k)"
    and rows: "\<forall>r. (\<exists>c. new r c) \<longleftrightarrow> (\<exists>c. S r c) \<or> r = r0"
    and cols: "\<forall>c. (\<exists>r. S r c) \<longrightarrow> (\<exists>r. new r c)"
    unfolding path_inv_def by - (elim conjE, assumption)+
  from nd n(3) obtain q where q: "\<And>r. new r k \<Longrightarrow> r = q" by blast
  have ne: "r = r'" if "new r c" "new r' c" for r r' c
  proof (cases "c = k")
    case True
    then show ?thesis using that q by metis
  next
    case False
    with that nc show ?thesis by metis
  qed
  have new: "matching nR nC new" unfolding matching_def
  proof (intro conjI allI impI)
    show "r < nR" "c < nC" if "new r c" for r c using na that by simp_all
    show "c = c'" if "new r c \<and> new r c'" for r c c' using nb that by blast
    show "r = r'" if "new r c \<and> new r' c" for r r' c using ne that by blast
  qed
  have newz: "zeros ?d new" using na unfolding zeros_def by simp
  have pr': "priced nR nC cost ?d new" using priced_mono [OF pr cols] rows by blast
  define m2 where "m2 = step2a nR nC (m1\<lparr>starMatrix := new, primeMatrix := (\<lambda>r c. False), coveredRows := (\<lambda>r. False)\<rparr>)"
  have m2: "starMatrix m2 = new" "distMatrix m2 = ?d" "primeMatrix m2 = (\<lambda>r c. False)" "coveredRows m2 = (\<lambda>r. False)"
    "coveredColumns m2 c \<longleftrightarrow> (c < nC \<and> (\<exists>r<nR. new r c)) \<or> coveredColumns m0 c" for c
    by (auto simp: m2_def step2a_def m1 list_ex_iff)
  have cc: "\<exists>r. new r c" if "coveredColumns m0 c" for c using coveringD(2) [OF cov that] cols by blast
  have "covering nC (distMatrix m2) (starMatrix m2) (primeMatrix m2) (coveredColumns m2) (coveredRows m2) rk"
    unfolding m2 using cc matchingD(1,2) [OF new] by (intro coveringI) (auto simp: m2)
  then have "munkres_inv nR nC cost m2" using new newz pr' unfolding munkres_inv_def m2(1,2) by blast
  moreover have "step4 nR nC r0 c0 m1 = Some (Inr m2)" using n(1) by (simp add: step4_def m2_def m1 S_def)
  moreover have "{r. \<exists>c. new r c} = insert r0 {r. \<exists>c. S r c}" using rows by blast
  then have "stars new = Suc (stars S)" using stars_columns(2) [OF m] r0(3) by (simp add: stars_def)
  ultimately show ?thesis using m2 by (auto simp: S_def)
qed

subsection \<open>Step 5\<close>

lemma min_loop_props: "min_loop m vs \<in> set (m # vs) \<and> (\<forall>v\<in>set (m # vs). min_loop m vs \<le> v)"
proof (induction vs arbitrary: m)
  case (Cons v vs)
  from Cons [of "if v < m then v else m"] show ?case by (cases "v < m") auto
qed simp

lemma step5_ok:
  assumes inv: "munkres_inv nR nC cost m" and few: "stars (starMatrix m) < min nR nC"
  shows "\<exists>m'. step5 nR nC m = Inr m' \<and> munkres_inv nR nC cost m' \<and> starMatrix m' = starMatrix m \<and>
    coveredRows m' = coveredRows m \<and> has_zero nR nC m'"
proof -
  define S d cR cC where "S = starMatrix m" and "d = distMatrix m" and "cR = coveredRows m" and "cC = coveredColumns m"
  from inv obtain rk u v p where mt: "matching nR nC S" and z: "zeros d S"
    and cov: "covering nC d S (primeMatrix m) cC cR rk"
    and du: "\<forall>r<nR. \<forall>c<nC. d r c = cost r c - u r - v c \<and> 0 \<le> d r c"
    and pc: "nR \<le> nC \<longrightarrow> (\<forall>c<nC. v c \<le> p \<and> ((\<forall>r. \<not> S r c) \<longrightarrow> v c = p))"
    and prw: "nC < nR \<longrightarrow> (\<forall>r<nR. u r \<le> p \<and> ((\<forall>c. \<not> S r c) \<longrightarrow> u r = p))"
    unfolding munkres_inv_def priced_def S_def d_def cR_def cC_def by blast
  have cRs: "\<exists>c. S r c" if "cR r" for r by (rule coveringD(3) [OF cov that])
  have cCs: "\<exists>r. S r c" if "cC c" for c by (rule coveringD(2) [OF cov that])
  have "{r. cR r} \<subseteq> {r. \<exists>c. S r c}" using cRs by blast
  then have "card {r. cR r} \<le> stars S" unfolding stars_def by (rule card_mono [OF stars_columns(2) [OF mt]])
  then have "card {r. cR r} < nR" using few by (simp add: S_def)
  have "\<not> {..<nR} \<subseteq> {r. cR r}"
  proof
    assume "{..<nR} \<subseteq> {r. cR r}"
    from card_mono [OF covered_rows_bound(2) [OF mt cov] this] \<open>card {r. cR r} < nR\<close> show False by simp
  qed
  then obtain r1 where r1: "r1 < nR" "\<not> cR r1" by auto
  have sub: "{c. cC c} \<subseteq> {c. \<exists>r. S r c}" using cCs by blast
  note fc = stars_columns(5) [OF mt]
  have "\<not> {..<nC} \<subseteq> {c. \<exists>r. S r c}"
  proof
    assume "{..<nC} \<subseteq> {c. \<exists>r. S r c}"
    from card_mono [OF fc this] few stars_columns(1) [OF mt] show False by (simp add: S_def)
  qed
  then obtain c1 where c1: "c1 < nC" "\<not> cC c1" using sub by auto
  have vals: "x \<in> set (uncovered_values nR nC m) \<longleftrightarrow> (\<exists>r<nR. \<exists>c<nC. \<not> cR r \<and> \<not> cC c \<and> x = d r c)" for x
    by (force simp: uncovered_values_def cR_def cC_def d_def)
  have "d r1 c1 \<in> set (uncovered_values nR nC m)" using r1 c1 vals by blast
  then obtain w ws where ws: "uncovered_values nR nC m = w # ws" by (cases "uncovered_values nR nC m") auto
  define h where "h = min_loop w ws"
  note hm = min_loop_props [of w ws, folded h_def ws, unfolded vals]
  from hm obtain r2 c2 where rc2: "r2 < nR" "c2 < nC" "\<not> cR r2" "\<not> cC c2" "h = d r2 c2" by blast
  have hle: "h \<le> d r c" if "r < nR" "c < nC" "\<not> cR r" "\<not> cC c" for r c using hm that vals by blast
  have h0: "0 \<le> h" using du rc2(1,2) unfolding rc2(5) by blast
  define d' where "d' = (\<lambda>r c. (d r c + (if r < nR \<and> c < nC \<and> cR r then h else 0)) - (if r < nR \<and> c < nC \<and> \<not> cC c then h else 0))"
  define m' where "m' = m\<lparr>distMatrix := d'\<rparr>"
  have step: "step5 nR nC m = Inr m'"
    unfolding step5_def ws list.case Let_def m'_def d'_def h_def d_def cR_def cC_def ..
  have same: "d' r c = d r c" if "cR r \<noteq> cC c" for r c using that by (auto simp: d'_def)
  have star_same: "S r c \<Longrightarrow> d' r c = d r c" for r c using coveringD(1) [OF cov] by (intro same) blast
  have prime_same: "primeMatrix m r c \<Longrightarrow> d' r c = d r c" for r c using coveringD(6,8) [OF cov] by (intro same) blast
  have "zeros d' S" using z star_same unfolding zeros_def by simp
  moreover have "covering nC d' S (primeMatrix m) cC cR rk"
    using coveringD [OF cov] prime_same by (intro coveringI) simp_all
  moreover have "priced nR nC cost d' S"
  proof -
    let ?u = "\<lambda>r. u r - (if cR r then h else 0)" and ?v = "\<lambda>c. v c + (if cC c then 0 else h)"
    let ?p = "if nR \<le> nC then p + h else p"
    have dn: "0 \<le> d r c" and deq: "d r c = cost r c - u r - v c" if "r < nR" "c < nC" for r c
      using du that by blast+
    have "0 \<le> d' r c" if "r < nR" "c < nC" for r c
      using dn [OF that] hle [OF that] h0 that by (simp add: d'_def)
    moreover have "d' r c = cost r c - ?u r - ?v c" if "r < nR" "c < nC" for r c
      using that by (simp add: d'_def deq)
    ultimately have "\<forall>r<nR. \<forall>c<nC. d' r c = cost r c - ?u r - ?v c \<and> 0 \<le> d' r c" by simp
    moreover have "nR \<le> nC \<longrightarrow> (\<forall>c<nC. ?v c \<le> ?p \<and> ((\<forall>r. \<not> S r c) \<longrightarrow> ?v c = ?p))"
      using pc h0 cCs by (auto intro: add_increasing2)
    moreover have "nC < nR \<longrightarrow> (\<forall>r<nR. ?u r \<le> ?p \<and> ((\<forall>c. \<not> S r c) \<longrightarrow> ?u r = ?p))"
      using prw h0 cRs by (auto intro: order.trans [of _ "u _"])
    ultimately show ?thesis unfolding priced_def
      by - (intro exI [of _ ?u] exI [of _ ?v] exI [of _ ?p] conjI; assumption)
  qed
  ultimately have "munkres_inv nR nC cost m'"
    using mt unfolding munkres_inv_def m'_def by (auto simp: S_def cC_def cR_def)
  moreover have "d' r2 c2 = 0" using rc2 by (simp add: d'_def)
  then have "has_zero nR nC m'"
    using rc2(1-4) unfolding has_zero_def
    by - (intro exI [of _ r2] exI [of _ c2] conjI, simp_all add: m'_def is_zero_def DBL_EPSILON_def cR_def cC_def)
  ultimately show ?thesis using step by (auto simp: m'_def)
qed

subsection \<open>The loop\<close>

definition munkres_measure :: "nat \<Rightarrow> nat \<Rightarrow> Munkres \<Rightarrow> nat" where
  "munkres_measure nR nC m =
     (min nR nC - stars (starMatrix m)) * (nR + 2) + card (uncovered nR m) + (if has_zero nR nC m then 0 else 1)"

lemma uncovered_finite: "finite (uncovered nR m)" "card (uncovered nR m) \<le> nR"
proof -
  have sub: "uncovered nR m \<subseteq> {..<nR}" by (auto simp: uncovered_def)
  then show "finite (uncovered nR m)" by (rule finite_subset) simp
  show "card (uncovered nR m) \<le> nR" using card_mono [OF _ sub] by simp
qed

lemma munkres_loop_ok:
  "munkres_inv nR nC cost m \<Longrightarrow> stars (starMatrix m) < min nR nC \<Longrightarrow> munkres_measure nR nC m < fuel \<Longrightarrow>
   \<exists>m'. munkres_loop fuel nR nC m = Some (Inr m') \<and> munkres_inv nR nC cost m' \<and> stars (starMatrix m') = min nR nC"
proof (induction fuel arbitrary: m)
  case 0
  then show ?case by simp
next
  case (Suc fuel)
  obtain p m1 where s3: "step3 nR nC m = (p, m1)" by fastforce
  from step3_inv [OF Suc.prems(1) s3] obtain m0 where m0: "munkres_inv nR nC cost m0" "starMatrix m0 = starMatrix m"
    "uncovered nR m0 \<subseteq> uncovered nR m" "has_zero nR nC m \<longrightarrow> p \<noteq> None \<or> uncovered nR m0 \<subset> uncovered nR m"
    "case p of None \<Rightarrow> m1 = m0 | Some (r, c) \<Rightarrow> prime_at nR nC r c m0 m1" by blast
  show ?case
  proof (cases p)
    case None
    then have m1: "m1 = m0" using m0(5) by simp
    from step5_ok [OF m0(1)] m0(2) Suc.prems(2) obtain m2 where m2: "step5 nR nC m0 = Inr m2"
      "munkres_inv nR nC cost m2" "starMatrix m2 = starMatrix m0" "coveredRows m2 = coveredRows m0" "has_zero nR nC m2"
      by auto
    have "uncovered nR m2 = uncovered nR m0" using m2(4) by (simp add: uncovered_def)
    moreover have "card (uncovered nR m0) \<le> card (uncovered nR m)"
      by (rule card_mono [OF uncovered_finite(1) m0(3)])
    moreover have "has_zero nR nC m \<Longrightarrow> card (uncovered nR m0) < card (uncovered nR m)"
      using m0(4) None by (intro psubset_card_mono uncovered_finite(1)) simp
    ultimately have "munkres_measure nR nC m2 < munkres_measure nR nC m"
      using m2(3,5) m0(2) by (simp add: munkres_measure_def)
    then have "munkres_measure nR nC m2 < fuel" using Suc.prems(3) by simp
    with Suc.IH [OF m2(2)] m2(3) m0(2) Suc.prems(2) s3 None m1 m2(1) show ?thesis by simp
  next
    case (Some rc)
    obtain r c where rc: "rc = (r, c)" by fastforce
    with Some m0(5) have "prime_at nR nC r c m0 m1" by simp
    from step4_ok [OF m0(1) this] obtain m2 where m2: "step4 nR nC r c m1 = Some (Inr m2)"
      "munkres_inv nR nC cost m2" "\<forall>r. \<not> coveredRows m2 r" "stars (starMatrix m2) = Suc (stars (starMatrix m0))" by blast
    note count = covered_count [OF m2(2,3)]
    show ?thesis
    proof (cases "stars (starMatrix m2) = min nR nC")
      case True
      with s3 Some rc m2 count show ?thesis by simp
    next
      case False
      then have less: "stars (starMatrix m2) < min nR nC"
        using Suc.prems(2) unfolding m2(4) m0(2) by (rule Suc_lessI [rotated])
      let ?A = "min nR nC - stars (starMatrix m)" and ?B = "min nR nC - stars (starMatrix m2)"
      have "?A = Suc ?B" using Suc.prems(2) unfolding m2(4) m0(2) by (rule Suc_diff_Suc [symmetric])
      then have "?A * (nR + 2) = ?B * (nR + 2) + (nR + 2)" by simp
      then have "munkres_measure nR nC m2 < munkres_measure nR nC m"
        using uncovered_finite(2) [of nR m2] unfolding munkres_measure_def by simp
      then have "munkres_measure nR nC m2 < fuel" using Suc.prems(3) by simp
      from Suc.IH [OF m2(2) less this] s3 Some rc m2 count False show ?thesis by simp
    qed
  qed
qed

subsection \<open>The start\<close>

lemma fold_reduce_row:
  "fold (reduce_row nC) [0..<k] d r c =
     (if r < k \<and> c < nC then d r c - min_loop (d r 0) (map (d r) [1..<nC]) else d r c)"
proof (induction k arbitrary: r c)
  case (Suc k)
  define e where "e = fold (reduce_row nC) [0..<k] d"
  have e: "e r c = (if r < k \<and> c < nC then d r c - min_loop (d r 0) (map (d r) [1..<nC]) else d r c)" for r c
    unfolding e_def by (rule Suc)
  then have k: "e k = d k" by (simp add: fun_eq_iff)
  have "fold (reduce_row nC) [0..<Suc k] d r c = reduce_row nC k e r c" by (simp add: e_def)
  also have "\<dots> = (if r = k \<and> c < nC then d r c - min_loop (d k 0) (map (d k) [1..<nC]) else e r c)"
    by (simp add: reduce_row_def Let_def k)
  finally show ?case by (simp add: e less_Suc_eq)
qed simp

lemma fold_reduce_col:
  "fold (reduce_col nR) [0..<k] d r c =
     (if c < k \<and> r < nR then d r c - min_loop (d 0 c) (map (\<lambda>r. d r c) [1..<nR]) else d r c)"
proof (induction k arbitrary: r c)
  case (Suc k)
  define e where "e = fold (reduce_col nR) [0..<k] d"
  have e: "e r c = (if c < k \<and> r < nR then d r c - min_loop (d 0 c) (map (\<lambda>r. d r c) [1..<nR]) else d r c)" for r c
    unfolding e_def by (rule Suc)
  then have k: "e r k = d r k" for r by simp
  have "fold (reduce_col nR) [0..<Suc k] d r c = reduce_col nR k e r c" by (simp add: e_def)
  also have "\<dots> = (if c = k \<and> r < nR then d r c - min_loop (d 0 k) (map (\<lambda>r. d r k) [1..<nR]) else e r c)"
    by (simp add: reduce_col_def Let_def k)
  finally show ?case by (simp add: e less_Suc_eq)
qed simp

lemma min_first: "k < n \<Longrightarrow> min_loop (f 0) (map f [1..<n]) \<le> f k"
proof -
  assume "k < n"
  then have "f k \<in> set (f 0 # map f [1..<n])" by (cases k) auto
  then show ?thesis using min_loop_props by blast
qed

text \<open>Starring the rows, or the columns, one after the other.\<close>

definition start_inv :: "nat \<Rightarrow> nat \<Rightarrow> (nat \<Rightarrow> nat \<Rightarrow> real) \<Rightarrow> Munkres \<Rightarrow> bool" where
  "start_inv nR nC d m \<longleftrightarrow> distMatrix m = d \<and> matching nR nC (starMatrix m) \<and> zeros d (starMatrix m) \<and>
     (\<forall>r c. \<not> primeMatrix m r c) \<and> (\<forall>c. coveredColumns m c \<longleftrightarrow> (\<exists>r. starMatrix m r c))"

lemma star_rows_inv:
  "k \<le> nR \<Longrightarrow> start_inv nR nC d (fold (star_row nC) [0..<k] (Munkres_new d)) \<and>
   (\<forall>r. \<not> coveredRows (fold (star_row nC) [0..<k] (Munkres_new d)) r) \<and>
   (\<forall>r c. starMatrix (fold (star_row nC) [0..<k] (Munkres_new d)) r c \<longrightarrow> r < k)"
proof (induction k)
  case 0
  then show ?case by (simp add: start_inv_def matching_def zeros_def Munkres_new_def)
next
  case (Suc k)
  define m where "m = fold (star_row nC) [0..<k] (Munkres_new d)"
  have f: "fold (star_row nC) [0..<Suc k] (Munkres_new d) = star_row nC k m" by (simp add: m_def)
  from Suc have m: "start_inv nR nC d m" "\<forall>r. \<not> coveredRows m r" "\<forall>r c. starMatrix m r c \<longrightarrow> r < k" by (auto simp: m_def)
  show ?case
  proof (cases "find (\<lambda>c. is_zero (distMatrix m k c) \<and> \<not> coveredColumns m c) [0..<nC]")
    case None
    then show ?thesis unfolding f using m by (auto simp: star_row_def)
  next
    case (Some c0)
    from find_upt [OF this] have c0: "c0 < nC" "is_zero (distMatrix m k c0)" "\<not> coveredColumns m c0" by auto
    have s: "star_row nC k m = m\<lparr>starMatrix := upd2 (starMatrix m) k c0 True, coveredColumns := (coveredColumns m)(c0 := True)\<rparr>"
      using Some by (simp add: star_row_def)
    from m(1) have mt: "matching nR nC (starMatrix m)" and free: "\<And>r. \<not> starMatrix m r c0" using c0(3)
      by (auto simp: start_inv_def)
    have "matching nR nC (upd2 (starMatrix m) k c0 True)"
      unfolding matching_def upd2_apply using matchingD [OF mt] free m(3) c0(1) Suc.prems
      by (intro conjI allI impI) (auto split: if_splits)
    then show ?thesis unfolding f s using m c0(2) unfolding start_inv_def
      by (auto simp: upd2_apply zeros_def split: if_splits)
  qed
qed

lemma star_cols_inv:
  "k \<le> nC \<Longrightarrow> start_inv nR nC d (fold (star_col nR) [0..<k] (Munkres_new d)) \<and>
   (\<forall>r. coveredRows (fold (star_col nR) [0..<k] (Munkres_new d)) r \<longleftrightarrow>
      (\<exists>c. starMatrix (fold (star_col nR) [0..<k] (Munkres_new d)) r c)) \<and>
   (\<forall>r c. starMatrix (fold (star_col nR) [0..<k] (Munkres_new d)) r c \<longrightarrow> c < k)"
proof (induction k)
  case 0
  then show ?case by (simp add: start_inv_def matching_def zeros_def Munkres_new_def)
next
  case (Suc k)
  define m where "m = fold (star_col nR) [0..<k] (Munkres_new d)"
  have f: "fold (star_col nR) [0..<Suc k] (Munkres_new d) = star_col nR k m" by (simp add: m_def)
  from Suc have m: "start_inv nR nC d m" "\<forall>r. coveredRows m r \<longleftrightarrow> (\<exists>c. starMatrix m r c)"
    "\<forall>r c. starMatrix m r c \<longrightarrow> c < k" by (auto simp: m_def)
  show ?case
  proof (cases "find (\<lambda>r. is_zero (distMatrix m r k) \<and> \<not> coveredRows m r) [0..<nR]")
    case None
    then have "star_col nR k m = m" by (simp add: star_col_def)
    with m show ?thesis unfolding f by (auto intro: less_SucI)
  next
    case (Some r0)
    from find_upt [OF this] have r0: "r0 < nR" "is_zero (distMatrix m r0 k)" "\<not> coveredRows m r0" by auto
    have s: "star_col nR k m = m\<lparr>starMatrix := upd2 (starMatrix m) r0 k True,
        coveredColumns := (coveredColumns m)(k := True), coveredRows := (coveredRows m)(r0 := True)\<rparr>"
      using Some by (simp add: star_col_def)
    from m(1) have mt: "matching nR nC (starMatrix m)" by (simp add: start_inv_def)
    have free: "\<not> starMatrix m r0 c" for c using m(2) r0(3) by blast
    have "matching nR nC (upd2 (starMatrix m) r0 k True)"
      unfolding matching_def upd2_apply using matchingD [OF mt] free m(3) r0(1) Suc.prems
      by (intro conjI allI impI) (auto split: if_splits)
    then show ?thesis unfolding f s using m r0(2) unfolding start_inv_def
      by (auto simp: upd2_apply zeros_def intro: less_SucI split: if_splits)
  qed
qed

lemma start_covering:
  assumes "start_inv nR nC d m" "\<forall>r. \<not> coveredRows m r" "priced nR nC cost d (starMatrix m)"
  shows "munkres_inv nR nC cost m"
  using assms unfolding start_inv_def munkres_inv_def by (intro conjI exI [of _ "\<lambda>r. 0"] coveringI) auto

lemma munkres_start_inv:
  "munkres_inv nR nC cost (munkres_start nR nC cost) \<and> (\<forall>r. \<not> coveredRows (munkres_start nR nC cost) r)"
proof (cases "nR \<le> nC")
  case True
  define d where "d = fold (reduce_row nC) [0..<nR] cost"
  define m where "m = fold (star_row nC) [0..<nR] (Munkres_new d)"
  have m: "start_inv nR nC d m" "\<forall>r. \<not> coveredRows m r" using star_rows_inv [of nR nR nC d] by (simp_all add: m_def)
  let ?u = "\<lambda>r. min_loop (cost r 0) (map (cost r) [1..<nC])"
  have "\<forall>r<nR. \<forall>c<nC. d r c = cost r c - ?u r - 0 \<and> 0 \<le> d r c"
    using min_first by (auto simp: d_def fold_reduce_row)
  then have "priced nR nC cost d (starMatrix m)"
    unfolding priced_def using True by - (intro exI [of _ ?u] exI [of _ "\<lambda>c. 0"] exI [of _ 0] conjI, assumption, simp_all)
  from start_covering [OF m this] m(2) True show ?thesis by (simp add: munkres_start_def m_def d_def)
next
  case False
  define d where "d = fold (reduce_col nR) [0..<nC] cost"
  define m where "m = (fold (star_col nR) [0..<nC] (Munkres_new d))\<lparr>coveredRows := (\<lambda>r. False)\<rparr>"
  have m: "start_inv nR nC d m" "\<forall>r. \<not> coveredRows m r"
    using star_cols_inv [of nC nC nR d] by (simp_all add: m_def start_inv_def)
  let ?v = "\<lambda>c. min_loop (cost 0 c) (map (\<lambda>r. cost r c) [1..<nR])"
  have "\<forall>r<nR. \<forall>c<nC. d r c = cost r c - 0 - ?v c \<and> 0 \<le> d r c"
    using min_first [where f = "\<lambda>r. cost r _"] by (auto simp: d_def fold_reduce_col)
  then have "priced nR nC cost d (starMatrix m)"
    unfolding priced_def using False by - (intro exI [of _ "\<lambda>r. 0"] exI [of _ ?v] exI [of _ 0] conjI, assumption, simp_all)
  from start_covering [OF m this] m(2) False show ?thesis by (simp add: munkres_start_def m_def d_def)
qed

subsection \<open>Assignments\<close>

text \<open>
  An assignment gives each row a column or none (-1), no column twice, and to as many rows as possible.
\<close>

definition assigned :: "int list \<Rightarrow> nat set" where
  "assigned a = {i. i < length a \<and> 0 \<le> a ! i}"

definition valid_assignment :: "nat \<Rightarrow> nat \<Rightarrow> int list \<Rightarrow> bool" where
  "valid_assignment nR nC a \<longleftrightarrow> length a = nR \<and> (\<forall>i<nR. - 1 \<le> a ! i \<and> a ! i < int nC) \<and>
     inj_on ((!) a) (assigned a) \<and> card (assigned a) = min nR nC"

definition assignment_cost :: "int list \<Rightarrow> (nat \<Rightarrow> nat \<Rightarrow> real) \<Rightarrow> real" where
  "assignment_cost a cost = (\<Sum>i\<in>assigned a. cost i (nat (a ! i)))"

lemma computeassignmentcost_sum:
  "computeassignmentcost a d n = (\<Sum>i | i < n \<and> 0 \<le> a ! i. d i (nat (a ! i)))"
proof (induction n)
  case (Suc n)
  have "{i. i < Suc n \<and> 0 \<le> a ! i} = (if 0 \<le> a ! n then insert n {i. i < n \<and> 0 \<le> a ! i} else {i. i < n \<and> 0 \<le> a ! i})"
    by (auto simp: less_Suc_eq)
  then show ?case using Suc by (simp add: computeassignmentcost_def Let_def)
qed (simp add: computeassignmentcost_def)

lemma assigned_facts:
  assumes "valid_assignment nR nC a"
  shows "assigned a \<subseteq> {..<nR}" "finite (assigned a)" "card (assigned a) = min nR nC"
    "inj_on (\<lambda>i. nat (a ! i)) (assigned a)" "(\<lambda>i. nat (a ! i)) ` assigned a \<subseteq> {..<nC}"
proof -
  show s: "assigned a \<subseteq> {..<nR}" using assms by (auto simp: valid_assignment_def assigned_def)
  then show "finite (assigned a)" by (rule finite_subset) simp
  show "card (assigned a) = min nR nC" using assms by (simp add: valid_assignment_def)
  have inj: "inj_on ((!) a) (assigned a)" using assms by (simp add: valid_assignment_def)
  show "inj_on (\<lambda>i. nat (a ! i)) (assigned a)"
  proof (rule inj_onI)
    fix i j assume ij: "i \<in> assigned a" "j \<in> assigned a" "nat (a ! i) = nat (a ! j)"
    then have "a ! i = a ! j" by (auto simp: assigned_def eq_nat_nat_iff)
    with inj ij show "i = j" by (simp add: inj_on_def)
  qed
  show "(\<lambda>i. nat (a ! i)) ` assigned a \<subseteq> {..<nC}"
    using assms by (auto simp: valid_assignment_def assigned_def nat_less_iff)
qed

text \<open>
  Prices \<open>f\<close> of at most \<open>p\<close>, which are \<open>p\<close> outside of \<open>X\<close>: no set of the same size is cheaper than \<open>X\<close>.
\<close>

lemma cheapest_set:
  fixes f :: "'a \<Rightarrow> real"
  assumes "finite U" "X \<subseteq> U" "Y \<subseteq> U" "card X = card Y" "\<And>x. x \<in> U \<Longrightarrow> f x \<le> p" "\<And>x. x \<in> U - X \<Longrightarrow> f x = p"
  shows "sum f X \<le> sum f Y"
proof -
  have X: "sum f U = sum f X + of_nat (card (U - X)) * p"
    using assms(1,2,6) by (simp add: sum.subset_diff [of X U])
  have "sum f (U - Y) \<le> of_nat (card (U - Y)) * p"
    using assms(5) by (intro sum_bounded_above) simp
  then have "sum f U \<le> sum f Y + of_nat (card (U - Y)) * p"
    using assms(1,3) by (simp add: sum.subset_diff [of Y U])
  moreover have "card (U - X) = card (U - Y)"
    using assms(1-4) by (simp add: card_Diff_subset finite_subset)
  ultimately show ?thesis using X by simp
qed

text \<open>A matching of zeros of the priced matrix with as many stars as possible.\<close>

lemma built_assignment:
  assumes inv: "munkres_inv nR nC cost m" and full: "stars (starMatrix m) = min nR nC"
  defines "a \<equiv> buildassignmentvector nR nC m"
  shows "valid_assignment nR nC a" "assigned a = {r. \<exists>c. starMatrix m r c}"
    "i \<in> assigned a \<Longrightarrow> starMatrix m i (nat (a ! i))"
proof -
  from inv have mt: "matching nR nC (starMatrix m)" unfolding munkres_inv_def by blast
  have len: "length a = nR" by (simp add: a_def buildassignmentvector_def)
  have none: "a ! r = - 1" if "r < nR" "\<And>c. \<not> starMatrix m r c" for r
    using that by (simp add: a_def buildassignmentvector_def find_upt_None [THEN iffD2])
  have some: "a ! r = int c" if s: "starMatrix m r c" for r c
  proof -
    have rc: "r < nR" "c < nC" using matchingD [OF mt] s by blast+
    have "find (starMatrix m r) [0..<nC] \<noteq> None" using s rc(2) by (auto simp: find_upt_None)
    then obtain c' where c': "find (starMatrix m r) [0..<nC] = Some c'" by blast
    have "c' = c" using find_upt [OF c'] matchingD(3) [OF mt] s by blast
    then show ?thesis using c' rc by (simp add: a_def buildassignmentvector_def)
  qed
  show set: "assigned a = {r. \<exists>c. starMatrix m r c}"
  proof (rule set_eqI)
    fix r show "r \<in> assigned a \<longleftrightarrow> r \<in> {r. \<exists>c. starMatrix m r c}"
    proof (cases "\<exists>c. starMatrix m r c")
      case True
      then show ?thesis using some matchingD(1) [OF mt] by (auto simp: assigned_def len)
    next
      case False
      then show ?thesis using none [of r] by (auto simp: assigned_def len)
    qed
  qed
  show star: "starMatrix m i (nat (a ! i))" if "i \<in> assigned a" for i
    using that some unfolding set by auto
  have range: "- 1 \<le> a ! i \<and> a ! i < int nC" if i: "i < nR" for i
  proof (cases "\<exists>c. starMatrix m i c")
    case True
    then obtain c where c: "starMatrix m i c" by blast
    then show ?thesis using some [OF c] matchingD(2) [OF mt c] by simp
  next
    case False
    then show ?thesis using none [OF i] by simp
  qed
  have "inj_on ((!) a) (assigned a)"
  proof (rule inj_onI)
    fix i j assume ij: "i \<in> assigned a" "j \<in> assigned a" "a ! i = a ! j"
    from star [OF ij(1)] star [OF ij(2)] ij(3) show "i = j" using matchingD(4) [OF mt] by simp
  qed
  then show "valid_assignment nR nC a"
    using full range len unfolding valid_assignment_def set stars_def by simp
qed

lemma prices_minimal:
  fixes u v :: "nat \<Rightarrow> real" and p :: real
  assumes u: "nC < nR \<longrightarrow> (\<forall>r<nR. u r \<le> p \<and> ((\<forall>c. \<not> S r c) \<longrightarrow> u r = p))"
    and v: "nR \<le> nC \<longrightarrow> (\<forall>c<nC. v c \<le> p \<and> ((\<forall>r. \<not> S r c) \<longrightarrow> v c = p))"
    and mt: "matching nR nC S"
    and a: "valid_assignment nR nC a" "assigned a = {r. \<exists>c. S r c}" "\<And>i. i \<in> assigned a \<Longrightarrow> S i (nat (a ! i))"
    and b: "valid_assignment nR nC b"
  shows "sum u (assigned a) + (\<Sum>i\<in>assigned a. v (nat (a ! i))) \<le> sum u (assigned b) + (\<Sum>i\<in>assigned b. v (nat (b ! i)))"
proof -
  note fa = assigned_facts [OF a(1)] and fb = assigned_facts [OF b]
  let ?ca = "\<lambda>i. nat (a ! i)" and ?cb = "\<lambda>i. nat (b ! i)"
  have va: "(\<Sum>i\<in>assigned a. v (?ca i)) = sum v (?ca ` assigned a)" using fa(4) by (simp add: sum.reindex)
  have vb: "(\<Sum>i\<in>assigned b. v (?cb i)) = sum v (?cb ` assigned b)" using fb(4) by (simp add: sum.reindex)
  have ca: "card (?ca ` assigned a) = min nR nC" and cb: "card (?cb ` assigned b) = min nR nC"
    using fa(3,4) fb(3,4) by (simp_all add: card_image)
  show ?thesis
  proof (cases "nR \<le> nC")
    case True
    then have "assigned a = {..<nR}" "assigned b = {..<nR}"
      using fa(1,3) fb(1,3) by (intro card_subset_eq; simp)+
    then have "sum u (assigned a) = sum u (assigned b)" by simp
    moreover have "sum v (?ca ` assigned a) \<le> sum v (?cb ` assigned b)"
    proof (rule cheapest_set [where U = "{..<nC}" and p = p])
      show "v c = p" if "c \<in> {..<nC} - ?ca ` assigned a" for c
      proof -
        have "\<not> S r c" for r
        proof
          assume s: "S r c"
          then have "r \<in> assigned a" unfolding a(2) by blast
          with a(3) [OF this] matchingD(3) [OF mt s] have "c \<in> ?ca ` assigned a" by blast
          with that show False by simp
        qed
        then show ?thesis using v True that by auto
      qed
    qed (use v True fa fb ca cb in auto)
    ultimately show ?thesis unfolding va vb by simp
  next
    case False
    then have "?ca ` assigned a = {..<nC}" "?cb ` assigned b = {..<nC}"
      using fa(5) fb(5) ca cb by (intro card_subset_eq; simp)+
    then have "sum v (?ca ` assigned a) = sum v (?cb ` assigned b)" by simp
    moreover have "sum u (assigned a) \<le> sum u (assigned b)"
    proof (rule cheapest_set [where U = "{..<nR}" and p = p])
      show "u r = p" if "r \<in> {..<nR} - assigned a" for r
        using that u False unfolding a(2) by auto
    qed (use u False fa fb in auto)
    ultimately show ?thesis unfolding va vb by simp
  qed
qed

lemma built_optimal:
  assumes inv: "munkres_inv nR nC cost m" and full: "stars (starMatrix m) = min nR nC"
    and b: "valid_assignment nR nC b"
  shows "assignment_cost (buildassignmentvector nR nC m) cost \<le> assignment_cost b cost + of_nat (min nR nC) * DBL_EPSILON"
proof -
  define a where "a = buildassignmentvector nR nC m"
  note a = built_assignment [OF inv full, folded a_def]
  from inv obtain u v p where mt: "matching nR nC (starMatrix m)" and z: "zeros (distMatrix m) (starMatrix m)"
    and du: "\<forall>r<nR. \<forall>c<nC. distMatrix m r c = cost r c - u r - v c \<and> 0 \<le> distMatrix m r c"
    and v: "nR \<le> nC \<longrightarrow> (\<forall>c<nC. v c \<le> p \<and> ((\<forall>r. \<not> starMatrix m r c) \<longrightarrow> v c = p))"
    and u: "nC < nR \<longrightarrow> (\<forall>r<nR. u r \<le> p \<and> ((\<forall>c. \<not> starMatrix m r c) \<longrightarrow> u r = p))"
    unfolding munkres_inv_def priced_def by blast
  let ?ca = "\<lambda>i. nat (a ! i)" and ?cb = "\<lambda>i. nat (b ! i)"
  note fa = assigned_facts [OF a(1)] and fb = assigned_facts [OF b]
  have "cost i (?ca i) \<le> (u i + v (?ca i)) + DBL_EPSILON" if i: "i \<in> assigned a" for i
  proof -
    have "i < nR" "?ca i < nC" using i fa(1,5) by auto
    moreover have "\<bar>distMatrix m i (?ca i)\<bar> < DBL_EPSILON" using z a(3) [OF i] unfolding zeros_def is_zero_def by blast
    ultimately show ?thesis using du by fastforce
  qed
  then have "assignment_cost a cost \<le> (\<Sum>i\<in>assigned a. (u i + v (?ca i)) + DBL_EPSILON)"
    unfolding assignment_cost_def by (rule sum_mono)
  also have "\<dots> = sum u (assigned a) + (\<Sum>i\<in>assigned a. v (?ca i)) + of_nat (min nR nC) * DBL_EPSILON"
    using fa(3) by (simp add: sum.distrib)
  also have "\<dots> \<le> sum u (assigned b) + (\<Sum>i\<in>assigned b. v (?cb i)) + of_nat (min nR nC) * DBL_EPSILON"
    using prices_minimal [OF u v mt a b] by simp
  also have "sum u (assigned b) + (\<Sum>i\<in>assigned b. v (?cb i)) = (\<Sum>i\<in>assigned b. u i + v (?cb i))"
    by (simp add: sum.distrib)
  also have "\<dots> \<le> assignment_cost b cost"
    unfolding assignment_cost_def
  proof (rule sum_mono)
    fix i assume i: "i \<in> assigned b"
    then have "i < nR" "?cb i < nC" using fb(1,5) by auto
    then show "u i + v (?cb i) \<le> cost i (?cb i)" using du by fastforce
  qed
  finally show ?thesis by (simp add: a_def)
qed

text \<open>What \<^verbatim>\<open>Solve\<close> does on every matrix.\<close>

lemma Solve_ok:
  "\<exists>a. Hungarian_Solve M = Some (Inr (a, assignment_cost a (elem M))) \<and> valid_assignment (Rows M) (Cols M) a \<and>
     (\<forall>b. valid_assignment (Rows M) (Cols M) b \<longrightarrow>
        assignment_cost a (elem M) \<le> assignment_cost b (elem M) + of_nat (min (Rows M) (Cols M)) * DBL_EPSILON)"
proof -
  let ?nR = "Rows M" and ?nC = "Cols M"
  define d where "d = (\<lambda>i j. if i < ?nR \<and> j < ?nC then elem M i j else 0)"
  define m where "m = munkres_start ?nR ?nC d"
  have m: "munkres_inv ?nR ?nC d m" "\<forall>r. \<not> coveredRows m r" using munkres_start_inv by (auto simp: m_def)
  note count = covered_count [OF m]
  have le: "stars (starMatrix m) \<le> min ?nR ?nC" using stars_columns(3,4) m(1) by (auto simp: munkres_inv_def)
  have "\<exists>m'. (if nOfCoveredColumns ?nC m = min ?nR ?nC then Some (Inr m)
      else munkres_loop (munkres_fuel ?nR ?nC) ?nR ?nC m) = Some (Inr m') \<and>
      munkres_inv ?nR ?nC d m' \<and> stars (starMatrix m') = min ?nR ?nC"
  proof (cases "stars (starMatrix m) = min ?nR ?nC")
    case True
    with m count show ?thesis by auto
  next
    case False
    then have less: "stars (starMatrix m) < min ?nR ?nC" by (rule le_neq_implies_less [OF le])
    have "(min ?nR ?nC - stars (starMatrix m)) * (?nR + 2) \<le> min ?nR ?nC * (?nR + 2)" by (rule mult_le_mono1) (rule diff_le_self)
    then have "munkres_measure ?nR ?nC m < munkres_fuel ?nR ?nC"
      using uncovered_finite(2) [of ?nR m] unfolding munkres_measure_def munkres_fuel_def by (simp add: add_mult_distrib)
    from munkres_loop_ok [OF m(1) less this] False count show ?thesis by auto
  qed
  then obtain m' where m': "munkres_inv ?nR ?nC d m'" "stars (starMatrix m') = min ?nR ?nC"
    and r: "assignmentoptimal ?nR ?nC d = Some (Inr (buildassignmentvector ?nR ?nC m',
      computeassignmentcost (buildassignmentvector ?nR ?nC m') d ?nR))"
    unfolding assignmentoptimal_def m_def [symmetric] Let_def by auto
  define a where "a = buildassignmentvector ?nR ?nC m'"
  note a = built_assignment(1) [OF m', folded a_def]
  have cost: "assignment_cost b d = assignment_cost b (elem M)" if "valid_assignment ?nR ?nC b" for b
    unfolding assignment_cost_def using assigned_facts(1,5) [OF that] by (intro sum.cong) (auto simp: d_def)
  have "computeassignmentcost a d ?nR = assignment_cost a d"
    using a by (simp add: computeassignmentcost_sum assignment_cost_def assigned_def valid_assignment_def)
  then have "Hungarian_Solve M = Some (Inr (a, assignment_cost a (elem M)))"
    using r cost [OF a] by (simp add: Hungarian_Solve_def d_def [symmetric] a_def [symmetric])
  moreover have "assignment_cost a (elem M) \<le> assignment_cost b (elem M) + of_nat (min ?nR ?nC) * DBL_EPSILON"
    if b: "valid_assignment ?nR ?nC b" for b
    using built_optimal [OF m' b] cost [OF a] cost [OF b] by (simp add: a_def)
  ultimately show ?thesis using a by blast
qed

text \<open>C36. The Hungarian algorithm.  On every cost matrix \<^verbatim>\<open>Solve\<close> ends and never reads outside of its
  arrays; it gives as many rows as possible a column, no column to two rows, returns the cost of that
  assignment, and no assignment of the same kind is cheaper by more than one \<^verbatim>\<open>DBL_EPSILON\<close> per assigned
  row (the tolerance with which the code recognises a zero).\<close>

theorem hungarian_optimal:
  "\<exists>a. Hungarian_Solve M = Some (Inr (a, assignment_cost a (elem M))) \<and> valid_assignment (Rows M) (Cols M) a \<and>
     (\<forall>b. valid_assignment (Rows M) (Cols M) b \<longrightarrow>
        assignment_cost a (elem M) \<le> assignment_cost b (elem M) + of_nat (min (Rows M) (Cols M)) * DBL_EPSILON)"
  by (rule Solve_ok)

theorem hungarian_optimal_witness:
  "\<exists>M a. Rows M = 3 \<and> Cols M = 2 \<and> Hungarian_Solve M = Some (Inr (a, assignment_cost a (elem M))) \<and>
     assignment_cost a (elem M) \<le> assignment_cost [- 1, 0, 1] (elem M) + 2 * DBL_EPSILON"
proof -
  let ?M = "\<lparr>mat_arrays = [0, 0, 0, 1, 0, 2], mat_rows = 3, mat_cols = 2\<rparr>"
  have "assigned [- 1, 0, 1] = {1, 2}" by (auto simp: assigned_def less_Suc_eq)
  then have "valid_assignment 3 2 [- 1, 0, 1]" by (auto simp: valid_assignment_def less_Suc_eq numeral_3_eq_3)
  with hungarian_optimal [of ?M] show ?thesis by (intro exI [of _ ?M]) (auto simp: Rows_def Cols_def dest!: spec [of _ "[- 1, 0, 1]"])
qed

end
