(* ===== verification/Kalman.thy ===== *)
theory Kalman
  imports TrackMatrix
begin

section \<open>The tracker's Kalman filter\<close>

text \<open>
  \<^verbatim>\<open>modules/track/src/easytrack/src/kalmanfilter.cpp\<close>: the position and the speed of a box, with their
  covariance, and the cached projection to the four measured quantities.
\<close>

record BoundingBox =
  bb_x :: real
  bb_y :: real
  bb_width :: real
  bb_height :: real

record KalmanFilter =
  kf_mean :: Matrix
  kf_covariance :: Matrix
  project_mean :: Matrix
  project_covariance :: Matrix
  std_weight_position :: real
  std_weight_velocity :: real
  need_recalc_project :: bool

definition motion_mat :: "Matrix run" where
  "motion_mat = Matrix_init
     [1, 0, 0, 0, 1, 0, 0, 0,  0, 1, 0, 0, 0, 1, 0, 0,  0, 0, 1, 0, 0, 0, 1, 0,  0, 0, 0, 1, 0, 0, 0, 1,
      0, 0, 0, 0, 1, 0, 0, 0,  0, 0, 0, 0, 0, 1, 0, 0,  0, 0, 0, 0, 0, 0, 1, 0,  0, 0, 0, 0, 0, 0, 0, 1] 8 8"

definition update_mat :: "Matrix run" where
  "update_mat = Matrix_init
     [1, 0, 0, 0, 0, 0, 0, 0,  0, 1, 0, 0, 0, 0, 0, 0,  0, 0, 1, 0, 0, 0, 0, 0,  0, 0, 0, 1, 0, 0, 0, 0] 4 8"

definition update_mat_trans :: "Matrix run" where "update_mat_trans = run_bind update_mat Trans"
definition motion_mat_trans :: "Matrix run" where "motion_mat_trans = run_bind motion_mat Trans"

definition KalmanFilter_new :: KalmanFilter where
  "KalmanFilter_new =
     \<lparr>kf_mean = Matrix_new 1 8, kf_covariance = Matrix_new 8 8, project_mean = Matrix_new 0 0, project_covariance = Matrix_new 0 0,
      std_weight_position = 1 / 20, std_weight_velocity = 1 / 160, need_recalc_project = True\<rparr>"

text \<open>\<^verbatim>\<open>m(i, i) = std[i] * std[i]\<close>\<close>

definition set_variances :: "real list \<Rightarrow> Matrix \<Rightarrow> Matrix" where
  "set_variances sd M = fold (\<lambda>i. set_elem i i (sd ! i * sd ! i)) [0..<8] M"

definition Initiate :: "BoundingBox \<Rightarrow> KalmanFilter \<Rightarrow> KalmanFilter" where
  "Initiate m kf =
     (let mean = fold (\<lambda>(i, x). set_elem 0 i x)
            ([(0, bb_x m), (1, bb_y m), (2, bb_width m), (3, bb_height m)] @ map (\<lambda>i. (i, 0)) [4..<8]) (kf_mean kf);
          p = 2 * std_weight_position kf * bb_height m;
          v = 10 * std_weight_velocity kf * bb_height m
      in kf\<lparr>kf_mean := mean,
            kf_covariance := set_variances [p, p, 1 / 100, p, v, v, 1 / 100000, v] (kf_covariance kf)\<rparr>)"

definition Predict :: "KalmanFilter \<Rightarrow> KalmanFilter run" where
  "Predict kf =
     (let p = std_weight_position kf * elem (kf_mean kf) 0 3;
          v = std_weight_velocity kf * elem (kf_mean kf) 0 3;
          motion_cov = set_variances [p, p, 1 / 100, p, v, v, 1 / 100000, v] (Matrix_new 8 8)
      in run_bind motion_mat_trans (\<lambda>trans.
         run_bind motion_mat (\<lambda>motion.
         run_bind (Matrix_times (kf_mean kf) trans) (\<lambda>mean1.
         run_bind (Matrix_times motion (kf_covariance kf)) (\<lambda>c1.
         run_bind (Matrix_times c1 trans) (\<lambda>c2.
         run_bind (Matrix_plus c2 motion_cov) (\<lambda>covariance1.
           ret (kf\<lparr>kf_mean := mean1, kf_covariance := covariance1, need_recalc_project := True\<rparr>))))))))"

definition innovation_covariance :: "real \<Rightarrow> real \<Rightarrow> Matrix" where
  "innovation_covariance cov_val1 cov_val2 =
     set_elem 2 2 cov_val1 (set_elem 3 3 cov_val2 (set_elem 1 1 cov_val2 (set_elem 0 0 cov_val2 (Matrix_new 4 4))))"

definition Project :: "Matrix \<Rightarrow> Matrix \<Rightarrow> KalmanFilter \<Rightarrow> KalmanFilter run" where
  "Project mean covariance kf =
     (if \<not> need_recalc_project kf then ret kf
      else
        (let v = std_weight_position kf * elem mean 0 3
         in run_bind update_mat_trans (\<lambda>trans.
            run_bind update_mat (\<lambda>update.
            run_bind (Matrix_times (kf_mean kf) trans) (\<lambda>mean1.
            run_bind (Matrix_times update covariance) (\<lambda>c1.
            run_bind (Matrix_times c1 trans) (\<lambda>c2.
            run_bind (Matrix_plus c2 (innovation_covariance (1 / 10 * (1 / 10)) (v * v))) (\<lambda>c3.
              ret (kf\<lparr>project_mean := mean1, project_covariance := c3, need_recalc_project := False\<rparr>)))))))))"

definition measurement_row :: "BoundingBox \<Rightarrow> Matrix" where
  "measurement_row b =
     set_elem 0 3 (bb_height b) (set_elem 0 2 (bb_width b) (set_elem 0 1 (bb_y b) (set_elem 0 0 (bb_x b) (Matrix_new 1 4))))"

definition Kalman_Update :: "BoundingBox \<Rightarrow> KalmanFilter \<Rightarrow> KalmanFilter run" where
  "Kalman_Update b kf0 =
     run_bind (Project (kf_mean kf0) (kf_covariance kf0) kf0) (\<lambda>kf.
     run_bind update_mat_trans (\<lambda>trans.
     run_bind update_mat (\<lambda>update.
     run_bind (Matrix_times (kf_covariance kf) trans) (\<lambda>g1.
     run_bind (Inv (project_covariance kf)) (\<lambda>cinv.
     run_bind (Matrix_times g1 cinv) (\<lambda>gain.
     run_bind (Matrix_minus (measurement_row b) (project_mean kf)) (\<lambda>innovation.
     run_bind (Trans gain) (\<lambda>gain_trans.
     run_bind (Matrix_times innovation gain_trans) (\<lambda>correction.
     run_bind (plus_assign (kf_mean kf) correction) (\<lambda>mean1.
     run_bind (Matrix_times gain update) (\<lambda>c1.
     run_bind (Matrix_times c1 (kf_covariance kf)) (\<lambda>c2.
     run_bind (Matrix_minus (kf_covariance kf) c2) (\<lambda>covariance1.
       ret (kf\<lparr>kf_mean := mean1, kf_covariance := covariance1, need_recalc_project := True\<rparr>))))))))))))))"

definition mahalanobis_row :: "Matrix \<Rightarrow> BoundingBox \<Rightarrow> Matrix" where
  "mahalanobis_row mean1 m =
     set_elem 0 3 (bb_height m - elem mean1 0 3) (set_elem 0 2 (bb_width m - elem mean1 0 2)
       (set_elem 0 1 (bb_y m - elem mean1 0 1) (set_elem 0 0 (bb_x m - elem mean1 0 0) (Matrix_new 1 4))))"

definition square_maha :: "Matrix \<Rightarrow> Matrix \<Rightarrow> BoundingBox \<Rightarrow> real run" where
  "square_maha mean1 cinv m =
     (let d = mahalanobis_row mean1 m
      in run_bind (Matrix_times d cinv) (\<lambda>d1.
         run_bind (Trans d) (\<lambda>d_trans.
         run_bind (Matrix_times d1 d_trans) (\<lambda>q. ret (elem q 0 0)))))"

fun gating_loop :: "Matrix \<Rightarrow> Matrix \<Rightarrow> nat \<Rightarrow> BoundingBox list \<Rightarrow> Matrix \<Rightarrow> Matrix run" where
  "gating_loop mean1 cinv i [] sq = ret sq"
| "gating_loop mean1 cinv i (m # ms) sq =
     run_bind (square_maha mean1 cinv m) (\<lambda>q. gating_loop mean1 cinv (Suc i) ms (set_elem 0 i q sq))"

definition GatingDistance :: "BoundingBox list \<Rightarrow> KalmanFilter \<Rightarrow> (Matrix \<times> KalmanFilter) run" where
  "GatingDistance measurements kf0 =
     run_bind (Project (kf_mean kf0) (kf_covariance kf0) kf0) (\<lambda>kf.
     run_bind (Inv (project_covariance kf)) (\<lambda>cinv.
     run_bind (gating_loop (project_mean kf) cinv 0 measurements (Matrix_new 1 (length measurements))) (\<lambda>sq.
       ret (sq, kf))))"

definition GetCurPos :: "KalmanFilter \<Rightarrow> BoundingBox" where
  "GetCurPos kf =
     \<lparr>bb_x = elem (kf_mean kf) 0 0, bb_y = elem (kf_mean kf) 0 1, bb_width = elem (kf_mean kf) 0 2, bb_height = elem (kf_mean kf) 0 3\<rparr>"

end
