(* ===== verification/KalmanProps.thy ===== *)
theory KalmanProps
  imports Kalman MatrixProps
begin

section \<open>Properties of the Kalman filter\<close>

text \<open>
  No call of the filter faults, and the covariance stays symmetric and positive definite, so that every
  inversion is one; a measurement never enlarges the covariance.
\<close>

lemma all_less_8: "(\<forall>i<8. P i) \<longleftrightarrow> P 0 \<and> P 1 \<and> P 2 \<and> P 3 \<and> P 4 \<and> P 5 \<and> P 6 \<and> P (7 :: nat)"
  by (simp add: eval_nat_numeral less_Suc_eq all_conj_distrib imp_conjL) 

lemma all_less_4: "(\<forall>i<4. P i) \<longleftrightarrow> P 0 \<and> P 1 \<and> P 2 \<and> P (3 :: nat)"
  by (auto simp: eval_nat_numeral less_Suc_eq)

declare One_nat_def [simp del]

subsection \<open>Products of matrices and vectors as functions\<close>

definition mv :: "nat \<Rightarrow> (nat \<Rightarrow> nat \<Rightarrow> real) \<Rightarrow> (nat \<Rightarrow> real) \<Rightarrow> nat \<Rightarrow> real" where
  "mv n F x i = (\<Sum>k<n. F i k * x k)"

definition mm :: "nat \<Rightarrow> (nat \<Rightarrow> nat \<Rightarrow> real) \<Rightarrow> (nat \<Rightarrow> nat \<Rightarrow> real) \<Rightarrow> nat \<Rightarrow> nat \<Rightarrow> real" where
  "mm n F G i j = (\<Sum>k<n. F i k * G k j)"

definition dot :: "nat \<Rightarrow> (nat \<Rightarrow> real) \<Rightarrow> (nat \<Rightarrow> real) \<Rightarrow> real" where
  "dot n x y = (\<Sum>i<n. x i * y i)"

definition bf :: "nat \<Rightarrow> (nat \<Rightarrow> nat \<Rightarrow> real) \<Rightarrow> (nat \<Rightarrow> real) \<Rightarrow> (nat \<Rightarrow> real) \<Rightarrow> real" where
  "bf n P y x = dot n y (mv n P x)"

definition symmetric :: "nat \<Rightarrow> (nat \<Rightarrow> nat \<Rightarrow> real) \<Rightarrow> bool" where
  "symmetric n P \<longleftrightarrow> (\<forall>i<n. \<forall>j<n. P i j = P j i)"

definition positive_definite :: "nat \<Rightarrow> (nat \<Rightarrow> nat \<Rightarrow> real) \<Rightarrow> bool" where
  "positive_definite n P \<longleftrightarrow> (\<forall>x. (\<exists>i<n. x i \<noteq> 0) \<longrightarrow> 0 < bf n P x x)"

lemma mv_mm: "mv n (mm m F G) x = mv m F (mv n G x)"
proof
  fix i
  have "mv n (mm m F G) x i = (\<Sum>j<n. \<Sum>k<m. F i k * G k j * x j)" by (simp add: mv_def mm_def sum_distrib_right)
  also have "\<dots> = (\<Sum>k<m. \<Sum>j<n. F i k * G k j * x j)" by (rule sum.swap)
  also have "\<dots> = mv m F (mv n G x) i" by (simp add: mv_def sum_distrib_left mult.assoc)
  finally show "mv n (mm m F G) x i = mv m F (mv n G x) i" .
qed

lemma dot_mv: "dot n x (mv m F y) = dot m (mv n (\<lambda>i j. F j i) x) y"
proof -
  have "dot n x (mv m F y) = (\<Sum>i<n. \<Sum>k<m. F i k * x i * y k)"
    by (simp add: dot_def mv_def sum_distrib_left mult.assoc mult.left_commute)
  also have "\<dots> = (\<Sum>k<m. \<Sum>i<n. F i k * x i * y k)" by (rule sum.swap)
  also have "\<dots> = dot m (mv n (\<lambda>i j. F j i) x) y" by (simp add: dot_def mv_def sum_distrib_right)
  finally show ?thesis .
qed

lemma dot_commute: "dot n x y = dot n y x" by (simp add: dot_def mult.commute)

lemma dot_cong: "(\<And>i. i < n \<Longrightarrow> x i = x' i) \<Longrightarrow> (\<And>i. i < n \<Longrightarrow> y i = y' i) \<Longrightarrow> dot n x y = dot n x' y'"
  by (simp add: dot_def)

lemma mv_cong: "(\<And>k. k < n \<Longrightarrow> F i k = F' i k) \<Longrightarrow> (\<And>k. k < n \<Longrightarrow> x k = x' k) \<Longrightarrow> mv n F x i = mv n F' x' i"
  by (simp add: mv_def)

lemma bf_cong:
  "(\<And>i j. i < n \<Longrightarrow> j < n \<Longrightarrow> P i j = P' i j) \<Longrightarrow> (\<And>i. i < n \<Longrightarrow> x i = x' i) \<Longrightarrow> (\<And>i. i < n \<Longrightarrow> y i = y' i) \<Longrightarrow>
   bf n P x y = bf n P' x' y'"
  unfolding bf_def by (intro dot_cong mv_cong)

lemma dot_linear:
  "dot n x (\<lambda>i. y i + z i) = dot n x y + dot n x z" "dot n x (\<lambda>i. y i - z i) = dot n x y - dot n x z"
  "dot n (\<lambda>i. y i + z i) x = dot n y x + dot n z x" "dot n (\<lambda>i. y i - z i) x = dot n y x - dot n z x"
  by (simp_all add: dot_def algebra_simps sum.distrib sum_subtractf)

lemma mv_linear:
  "mv n F (\<lambda>i. x i + y i) = (\<lambda>i. mv n F x i + mv n F y i)" "mv n F (\<lambda>i. x i - y i) = (\<lambda>i. mv n F x i - mv n F y i)"
  "mv n (\<lambda>i j. F i j + G i j) x = (\<lambda>i. mv n F x i + mv n G x i)" "mv n (\<lambda>i j. F i j - G i j) x = (\<lambda>i. mv n F x i - mv n G x i)"
  by (simp_all add: fun_eq_iff mv_def algebra_simps sum.distrib sum_subtractf)

lemma bf_add: "bf n (\<lambda>i j. F i j + G i j) y x = bf n F y x + bf n G y x"
  by (simp add: bf_def mv_linear dot_linear)

lemma bf_commute:
  assumes "symmetric n P"
  shows "bf n P x y = bf n P y x"
proof -
  have "bf n P x y = dot n (mv n (\<lambda>i j. P j i) x) y" by (simp add: bf_def dot_mv)
  also have "\<dots> = dot n (mv n P x) y" using assms by (intro dot_cong mv_cong) (auto simp: symmetric_def mv_def)
  finally show ?thesis by (simp add: bf_def dot_commute)
qed

definition axis :: "nat \<Rightarrow> nat \<Rightarrow> real" where "axis i k = (if k = i then 1 else 0)"

lemma mv_axis: "i < n \<Longrightarrow> mv n F (axis i) k = F k i"
  by (simp add: mv_def axis_def if_distrib cong: if_cong)

lemma bf_axis: "i < n \<Longrightarrow> j < n \<Longrightarrow> bf n P (axis j) (axis i) = P j i"
  by (simp add: bf_def dot_def mv_axis axis_def if_distrib [of "\<lambda>x. x * _"] cong: if_cong)

lemma symmetricI: "(\<And>x y. bf n P x y = bf n P y x) \<Longrightarrow> symmetric n P"
  unfolding symmetric_def by (metis bf_axis)

lemma positive_definiteD: "positive_definite n P \<Longrightarrow> 0 \<le> bf n P x x"
proof (cases "\<exists>i<n. x i \<noteq> 0")
  case False
  then have "bf n P x x = bf n P (\<lambda>i. 0) (\<lambda>i. 0)" by (intro bf_cong) auto
  then show ?thesis by (simp add: bf_def dot_def)
qed (auto simp: positive_definite_def less_imp_le)

lemma positive_definite_zero: "positive_definite n P \<Longrightarrow> bf n P x x = 0 \<Longrightarrow> i < n \<Longrightarrow> x i = 0"
  unfolding positive_definite_def by (metis less_irrefl)

lemma positive_definite_independent:
  assumes "positive_definite n P"
  shows "independent_columns n P"
  unfolding independent_columns_def
proof (intro allI impI)
  fix x c assume z: "\<forall>r<n. (\<Sum>c<n. P r c * x c) = 0" and c: "c < n"
  have "bf n P x x = 0" using z by (simp add: bf_def dot_def mv_def)
  from positive_definite_zero [OF assms this c] show "x c = 0" .
qed

text \<open>A covariance carried along a linear map.\<close>

lemma bf_congruence: "bf n (mm m (mm m F P) (\<lambda>i j. F j i)) y x = bf m P (mv n (\<lambda>i j. F j i) y) (mv n (\<lambda>i j. F j i) x)"
  by (simp add: bf_def mv_mm dot_mv [of n y m F])

lemma bf_diagonal: "bf n (\<lambda>i j. if i = j then q i else 0) y x = (\<Sum>i<n. y i * (q i * x i))"
  by (simp add: bf_def dot_def mv_def if_distrib [of "\<lambda>x. x * _"] cong: if_cong)

lemma symmetric_diagonal: "symmetric n (\<lambda>i j. if i = j then q i else 0)"
  by (simp add: symmetric_def)

lemma diagonal_nonneg:
  assumes "\<And>i. i < n \<Longrightarrow> 0 \<le> q i"
  shows "0 \<le> bf n (\<lambda>i j. if i = j then q i else 0) x x"
  unfolding bf_diagonal
proof (rule sum_nonneg)
  fix i assume "i \<in> {..<n}"
  then have "0 \<le> q i * (x i * x i)" using assms by simp
  then show "0 \<le> x i * (q i * x i)" by (simp only: mult.left_commute)
qed

lemma forms_cong:
  assumes "\<And>i j. i < n \<Longrightarrow> j < n \<Longrightarrow> F i j = G i j"
  shows "symmetric n F \<longleftrightarrow> symmetric n G" "positive_definite n F \<longleftrightarrow> positive_definite n G"
proof -
  show "symmetric n F \<longleftrightarrow> symmetric n G" using assms by (simp add: symmetric_def)
  have "bf n F x x = bf n G x x" for x using assms by (intro bf_cong) auto
  then show "positive_definite n F \<longleftrightarrow> positive_definite n G" by (simp add: positive_definite_def)
qed

lemma diagonal_positive:
  assumes "\<And>i. i < n \<Longrightarrow> 0 < q i"
  shows "positive_definite n (\<lambda>i j. if i = j then q i else 0)"
  unfolding positive_definite_def bf_diagonal mult.left_commute [of "_ _" "q _"]
proof (intro allI impI)
  fix x :: "nat \<Rightarrow> real" assume "\<exists>i<n. x i \<noteq> 0"
  then obtain i where i: "i < n" "x i \<noteq> 0" by blast
  have "0 < x i * x i" using i(2) not_real_square_gt_zero by blast
  then have "0 < q i * (x i * x i)" using assms [OF i(1)] by (rule mult_pos_pos [rotated])
  moreover have "0 \<le> q j * (x j * x j)" if "j < n" for j
    using less_imp_le [OF assms [OF that]] by (rule mult_nonneg_nonneg) simp
  ultimately show "0 < (\<Sum>i<n. q i * (x i * x i))" using i(1) by (intro sum_pos2 [of _ i]) auto
qed

subsection \<open>The update as an identity of bilinear forms\<close>

text \<open>
  \<open>Hm\<close> measures the first four of eight quantities.  With \<open>S = H P H\<^sup>T + R\<close> and \<open>S Si = I\<close>, the updated
  covariance \<open>P - P H\<^sup>T Si H P\<close> is the covariance of what the gain leaves of the state, plus that of the
  noise it lets in.
\<close>

definition Hm :: "nat \<Rightarrow> nat \<Rightarrow> real" where "Hm i j = (if i = j then 1 else 0)"
definition HmT :: "nat \<Rightarrow> nat \<Rightarrow> real" where "HmT i j = Hm j i"

definition kalman_step :: "(nat \<Rightarrow> nat \<Rightarrow> real) \<Rightarrow> (nat \<Rightarrow> nat \<Rightarrow> real) \<Rightarrow> (nat \<Rightarrow> nat \<Rightarrow> real) \<Rightarrow> (nat \<Rightarrow> nat \<Rightarrow> real) \<Rightarrow> bool" where
  "kalman_step P Rn S Si \<longleftrightarrow>
     (\<forall>i<4. \<forall>j<4. S i j = mm 8 (mm 8 Hm P) HmT i j + Rn i j) \<and>
     (\<forall>i<4. \<forall>j<4. mm 4 S Si i j = (if i = j then 1 else 0)) \<and>
     symmetric 8 P \<and> positive_definite 8 P \<and> symmetric 4 Rn \<and> (\<forall>u. 0 \<le> bf 4 Rn u u)"

definition gain_of :: "(nat \<Rightarrow> nat \<Rightarrow> real) \<Rightarrow> (nat \<Rightarrow> nat \<Rightarrow> real) \<Rightarrow> nat \<Rightarrow> nat \<Rightarrow> real" where
  "gain_of P Si = mm 4 (mm 8 P HmT) Si"

definition updated :: "(nat \<Rightarrow> nat \<Rightarrow> real) \<Rightarrow> (nat \<Rightarrow> nat \<Rightarrow> real) \<Rightarrow> nat \<Rightarrow> nat \<Rightarrow> real" where
  "updated P Si i j = P i j - mm 8 (mm 4 (gain_of P Si) Hm) P i j"

definition measured :: "(nat \<Rightarrow> nat \<Rightarrow> real) \<Rightarrow> (nat \<Rightarrow> real) \<Rightarrow> nat \<Rightarrow> real" where
  "measured P x = mv 8 Hm (mv 8 P x)"

definition solved :: "(nat \<Rightarrow> nat \<Rightarrow> real) \<Rightarrow> (nat \<Rightarrow> nat \<Rightarrow> real) \<Rightarrow> (nat \<Rightarrow> real) \<Rightarrow> nat \<Rightarrow> real" where
  "solved P Si x = mv 4 Si (measured P x)"

definition fed_back :: "(nat \<Rightarrow> nat \<Rightarrow> real) \<Rightarrow> (nat \<Rightarrow> nat \<Rightarrow> real) \<Rightarrow> (nat \<Rightarrow> real) \<Rightarrow> nat \<Rightarrow> real" where
  "fed_back P Si x = mv 4 HmT (solved P Si x)"

lemma kalman_stepD:
  assumes "kalman_step P Rn S Si"
  shows "i < 4 \<Longrightarrow> j < 4 \<Longrightarrow> S i j = mm 8 (mm 8 Hm P) HmT i j + Rn i j"
    "i < 4 \<Longrightarrow> j < 4 \<Longrightarrow> mm 4 S Si i j = (if i = j then 1 else 0)"
    "symmetric 8 P" "positive_definite 8 P" "symmetric 4 Rn" "0 \<le> bf 4 Rn u u"
  using assms by (auto simp: kalman_step_def)

lemma dot_HmT: "dot n x (mv m HmT y) = dot m (mv n Hm x) y"
  unfolding dot_mv [of n x m HmT y] by (simp add: HmT_def)

lemma dot_Hm: "dot m y (mv n Hm x) = dot n (mv m HmT y) x"
  by (simp add: dot_mv [of m y n Hm x] HmT_def [abs_def])

lemma mv_HmT: "i < 4 \<Longrightarrow> mv 4 HmT u i = u i"
  by (simp add: mv_def HmT_def Hm_def if_distrib [of "\<lambda>x. x * _"] cong: if_cong)

lemma mv_updated: "mv 8 (updated P Si) x = mv 8 P (\<lambda>i. x i - fed_back P Si x i)"
proof -
  have "mv 8 (updated P Si) x = (\<lambda>i. mv 8 P x i - mv 8 (mm 8 (mm 4 (gain_of P Si) Hm) P) x i)"
    unfolding updated_def [abs_def] by (rule mv_linear)
  then show ?thesis by (simp add: mv_mm gain_of_def mv_linear fed_back_def solved_def measured_def)
qed

lemma S_solved:
  assumes "kalman_step P Rn S Si" "i < 4"
  shows "mv 4 S (solved P Si x) i = measured P x i"
proof -
  have "mv 4 S (solved P Si x) i = mv 4 (mm 4 S Si) (measured P x) i" by (simp add: mv_mm solved_def)
  also have "\<dots> = mv 4 (\<lambda>i j. if i = j then 1 else 0) (measured P x) i"
    using kalman_stepD(2) [OF assms(1)] assms(2) by (intro mv_cong) auto
  finally show ?thesis using assms(2) by (simp add: mv_def if_distrib [of "\<lambda>x. x * _"] cong: if_cong)
qed

lemma S_split:
  assumes "\<And>i j. i < 4 \<Longrightarrow> j < 4 \<Longrightarrow> S i j = mm 8 (mm 8 Hm P) HmT i j + Rn i j" "i < 4"
  shows "mv 4 S u i = mv 8 Hm (mv 8 P (mv 4 HmT u)) i + mv 4 Rn u i"
proof -
  have "mv 4 S u i = mv 4 (\<lambda>i j. mm 8 (mm 8 Hm P) HmT i j + Rn i j) u i" using assms by (intro mv_cong) auto
  also have "\<dots> = mv 4 (mm 8 (mm 8 Hm P) HmT) u i + mv 4 Rn u i" by (simp add: mv_linear)
  finally show ?thesis by (simp add: mv_mm)
qed

lemma S_form:
  assumes "\<And>i j. i < 4 \<Longrightarrow> j < 4 \<Longrightarrow> S i j = mm 8 (mm 8 Hm P) HmT i j + Rn i j"
  shows "bf 4 S u u = bf 8 P (mv 4 HmT u) (mv 4 HmT u) + bf 4 Rn u u"
proof -
  have "bf 4 S u u = dot 4 u (\<lambda>i. mv 8 Hm (mv 8 P (mv 4 HmT u)) i + mv 4 Rn u i)"
    unfolding bf_def using S_split [OF assms] by (intro dot_cong) auto
  then show ?thesis by (simp add: dot_linear bf_def dot_Hm)
qed

lemma joseph:
  assumes step: "kalman_step P Rn S Si"
  shows "bf 8 (updated P Si) y x =
    bf 8 P (\<lambda>i. y i - fed_back P Si y i) (\<lambda>i. x i - fed_back P Si x i) + bf 4 Rn (solved P Si y) (solved P Si x)"
proof -
  let ?d = "\<lambda>i. x i - fed_back P Si x i"
  have "dot 8 (fed_back P Si y) (mv 8 P ?d) = dot 4 (solved P Si y) (mv 8 Hm (mv 8 P ?d))"
    by (simp add: fed_back_def dot_Hm)
  also have "\<dots> = dot 4 (solved P Si y) (mv 4 Rn (solved P Si x))"
  proof (rule dot_cong)
    fix i :: nat assume i: "i < 4"
    have "mv 8 Hm (mv 8 P ?d) i = measured P x i - mv 8 Hm (mv 8 P (fed_back P Si x)) i" by (simp add: mv_linear measured_def)
    also have "\<dots> = mv 4 Rn (solved P Si x) i"
      using S_solved [OF step i, of x] S_split [OF kalman_stepD(1) [OF step] i, of "solved P Si x"] by (simp add: fed_back_def)
    finally show "mv 8 Hm (mv 8 P ?d) i = mv 4 Rn (solved P Si x) i" .
  qed simp
  finally show ?thesis by (simp add: bf_def mv_updated dot_linear)
qed

lemma updated_symmetric: "kalman_step P Rn S Si \<Longrightarrow> symmetric 8 (updated P Si)"
  by (rule symmetricI) (simp add: joseph bf_commute [OF kalman_stepD(3)] bf_commute [OF kalman_stepD(5)])

lemma updated_positive:
  assumes step: "kalman_step P Rn S Si" and Rn: "positive_definite 4 Rn"
  shows "positive_definite 8 (updated P Si)"
  unfolding positive_definite_def
proof (intro allI impI)
  fix x :: "nat \<Rightarrow> real" assume x: "\<exists>i<8. x i \<noteq> 0"
  let ?d = "\<lambda>i. x i - fed_back P Si x i"
  note P = kalman_stepD(4) [OF step] and nonneg = kalman_stepD(6) [OF step, of "solved P Si x"]
  note form = joseph [OF step, of x x] positive_definiteD [OF P, of ?d] nonneg
  have "bf 8 (updated P Si) x x \<noteq> 0"
  proof
    assume "bf 8 (updated P Si) x x = 0"
    then have 0: "bf 8 P ?d ?d = 0" "bf 4 Rn (solved P Si x) (solved P Si x) = 0" using form by linarith+
    have "fed_back P Si x i = 0" for i using positive_definite_zero [OF Rn 0(2)] by (simp add: fed_back_def mv_def)
    then show False using positive_definite_zero [OF P 0(1)] x by auto
  qed
  then show "0 < bf 8 (updated P Si) x x" using form by linarith
qed

lemma innovation_positive:
  assumes "\<And>i j. i < 4 \<Longrightarrow> j < 4 \<Longrightarrow> S i j = mm 8 (mm 8 Hm P) HmT i j + Rn i j"
    "positive_definite 8 P" "\<And>u. 0 \<le> bf 4 Rn u u"
  shows "positive_definite 4 S"
  unfolding positive_definite_def
proof (intro allI impI)
  fix u :: "nat \<Rightarrow> real" assume "\<exists>i<4. u i \<noteq> 0"
  then obtain i where "i < 4" "u i \<noteq> 0" by blast
  then have "i < 8 \<and> mv 4 HmT u i \<noteq> 0" by (simp add: mv_HmT)
  then have "0 < bf 8 P (mv 4 HmT u) (mv 4 HmT u)" using assms(2) unfolding positive_definite_def by blast
  then show "0 < bf 4 S u u" using S_form [OF assms(1), of u] assms(3) [of u] by linarith
qed

lemma updated_smaller:
  assumes step: "kalman_step P Rn S Si"
  shows "bf 8 (updated P Si) x x \<le> bf 8 P x x"
proof -
  have "dot 8 x (mv 8 P (fed_back P Si x)) = dot 8 (mv 8 P x) (fed_back P Si x)"
    using bf_commute [OF kalman_stepD(3) [OF step], of x "fed_back P Si x"] by (simp add: bf_def dot_commute)
  also have "\<dots> = dot 4 (measured P x) (solved P Si x)" by (simp add: fed_back_def dot_HmT measured_def)
  also have "\<dots> = bf 4 S (solved P Si x) (solved P Si x)"
    unfolding dot_commute [of 4 "measured P x"] bf_def using S_solved [OF step] by (intro dot_cong) auto
  finally have "0 \<le> dot 8 x (mv 8 P (fed_back P Si x))"
    using S_form [OF kalman_stepD(1) [OF step], of "solved P Si x"] positive_definiteD [OF kalman_stepD(4) [OF step]]
      kalman_stepD(6) [OF step] by (metis add_nonneg_nonneg)
  then show ?thesis by (simp add: bf_def mv_updated mv_linear dot_linear)
qed


subsection \<open>The constant matrices and the shapes\<close>

definition Am :: "nat \<Rightarrow> nat \<Rightarrow> real" where "Am i j = (if j = i \<or> j = i + 4 then 1 else 0)"
definition AmT :: "nat \<Rightarrow> nat \<Rightarrow> real" where "AmT i j = Am j i"

lemma motion_ok:
  "\<exists>M. motion_mat = ret M \<and> shape 8 8 M \<and> (\<forall>i<8. \<forall>j<8. elem M i j = Am i j)"
  by (simp add: motion_mat_def Matrix_init_def run_if_def shape_def elem_def Am_def all_less_8)

lemma update_ok:
  "\<exists>M. update_mat = ret M \<and> shape 4 8 M \<and> (\<forall>i<4. \<forall>j<8. elem M i j = Hm i j)"
  by (simp add: update_mat_def Matrix_init_def run_if_def shape_def elem_def Hm_def all_less_8 all_less_4)

lemma motion_trans_ok:
  "\<exists>M. motion_mat_trans = ret M \<and> shape 8 8 M \<and> (\<forall>i<8. \<forall>j<8. elem M i j = AmT i j)"
proof -
  obtain M where M: "motion_mat = ret M" "shape 8 8 M" "\<forall>i<8. \<forall>j<8. elem M i j = Am i j" using motion_ok by blast
  have "motion_mat_trans = ret (mat 8 8 (\<lambda>i j. elem M j i))"
    unfolding motion_mat_trans_def M(1) run_bind_ret by (rule Trans_ok [OF M(2)]) simp_all
  with M(3) show ?thesis by (auto simp: AmT_def)
qed

lemma update_trans_ok:
  "\<exists>M. update_mat_trans = ret M \<and> shape 8 4 M \<and> (\<forall>i<8. \<forall>j<4. elem M i j = HmT i j)"
proof -
  obtain M where M: "update_mat = ret M" "shape 4 8 M" "\<forall>i<4. \<forall>j<8. elem M i j = Hm i j" using update_ok by blast
  have "update_mat_trans = ret (mat 8 4 (\<lambda>i j. elem M j i))"
    unfolding update_mat_trans_def M(1) run_bind_ret by (rule Trans_ok [OF M(2)]) simp_all
  with M(3) show ?thesis by (auto simp: HmT_def)
qed

lemma times_mm:
  assumes "shape r n M" "shape n c N" "\<And>i k. i < r \<Longrightarrow> k < n \<Longrightarrow> elem M i k = F i k" "\<And>k j. k < n \<Longrightarrow> j < c \<Longrightarrow> elem N k j = G k j"
  shows "Matrix_times M N = ret (mat r c (mm n F G))"
  unfolding Matrix_times_ok [OF assms(1,2)] ret_inject using assms(3,4) by (intro mat_cong) (simp add: mm_def)

lemma plus_mat:
  assumes "shape r c M" "shape r c N" "\<And>i j. i < r \<Longrightarrow> j < c \<Longrightarrow> elem M i j = F i j" "\<And>i j. i < r \<Longrightarrow> j < c \<Longrightarrow> elem N i j = G i j"
  shows "Matrix_plus M N = ret (mat r c (\<lambda>i j. F i j + G i j))"
  unfolding Matrix_plus_ok [OF assms(1,2)] ret_inject using assms(3,4) by (intro mat_cong) simp

lemma minus_mat:
  assumes "shape r c M" "shape r c N" "\<And>i j. i < r \<Longrightarrow> j < c \<Longrightarrow> elem M i j = F i j" "\<And>i j. i < r \<Longrightarrow> j < c \<Longrightarrow> elem N i j = G i j"
  shows "Matrix_minus M N = ret (mat r c (\<lambda>i j. F i j - G i j))"
  unfolding Matrix_minus_ok [OF assms(1,2)] ret_inject using assms(3,4) by (intro mat_cong) simp

lemma shape_Matrix_new [simp]: "shape r c (Matrix_new r c)"
  by (simp add: shape_def Matrix_new_def)

lemma elem_Matrix_new [simp]: "i < r \<Longrightarrow> j < c \<Longrightarrow> elem (Matrix_new r c) i j = 0"
  using flat_less [of i r j c] by (simp add: elem_def Matrix_new_def)

lemma set_variances_ok:
  assumes "shape 8 8 M"
  shows "shape 8 8 (set_variances sd M) \<and>
    (\<forall>i<8. \<forall>j<8. elem (set_variances sd M) i j = (if i = j then sd ! i * sd ! i else elem M i j))"
proof -
  have "shape 8 8 (fold (\<lambda>i. set_elem i i (sd ! i * sd ! i)) [0..<n] M) \<and>
    (\<forall>i<8. \<forall>j<8. elem (fold (\<lambda>i. set_elem i i (sd ! i * sd ! i)) [0..<n] M) i j =
      (if i = j \<and> i < n then sd ! i * sd ! i else elem M i j))" if "n \<le> 8" for n
    using that assms by (induction n) (auto simp: elem_set_elem less_Suc_eq)
  from this [of 8] show ?thesis by (auto simp: set_variances_def)
qed

text \<open>The noise of the motion and of the measurement.\<close>

definition motion_noise :: "real \<Rightarrow> nat \<Rightarrow> real" where
  "motion_noise h i = (let p = 1 / 20 * h; v = 1 / 160 * h; sd = [p, p, 1 / 100, p, v, v, 1 / 100000, v] in sd ! i * sd ! i)"

definition measure_noise :: "real \<Rightarrow> nat \<Rightarrow> real" where
  "measure_noise h i = (if i = 2 then 1 / 10 * (1 / 10) else (1 / 20 * h) * (1 / 20 * h))"

definition Rn :: "real \<Rightarrow> nat \<Rightarrow> nat \<Rightarrow> real" where "Rn h i j = (if i = j then measure_noise h i else 0)"
definition Qn :: "real \<Rightarrow> nat \<Rightarrow> nat \<Rightarrow> real" where "Qn h i j = (if i = j then motion_noise h i else 0)"

lemma innovation_covariance_ok:
  "shape 4 4 (innovation_covariance (1 / 10 * (1 / 10)) (1 / 20 * h * (1 / 20 * h))) \<and>
   (\<forall>i<4. \<forall>j<4. elem (innovation_covariance (1 / 10 * (1 / 10)) (1 / 20 * h * (1 / 20 * h))) i j = Rn h i j)"
  by (simp add: innovation_covariance_def elem_set_elem [of 4 4] Rn_def measure_noise_def all_less_4)

definition proj_mean :: "KalmanFilter \<Rightarrow> Matrix" where
  "proj_mean kf = mat 1 4 (mm 8 (elem (kf_mean kf)) HmT)"

definition proj_covariance :: "KalmanFilter \<Rightarrow> nat \<Rightarrow> nat \<Rightarrow> real" where
  "proj_covariance kf i j = mm 8 (mm 8 Hm (elem (kf_covariance kf))) HmT i j + Rn (elem (kf_mean kf) 0 3) i j"

definition kf_shape :: "KalmanFilter \<Rightarrow> bool" where
  "kf_shape kf \<longleftrightarrow> shape 1 8 (kf_mean kf) \<and> shape 8 8 (kf_covariance kf) \<and>
     std_weight_position kf = 1 / 20 \<and> std_weight_velocity kf = 1 / 160 \<and>
     (need_recalc_project kf \<or> project_mean kf = proj_mean kf \<and> project_covariance kf = mat 4 4 (proj_covariance kf))"

definition kf_ok :: "KalmanFilter \<Rightarrow> bool" where
  "kf_ok kf \<longleftrightarrow> kf_shape kf \<and> symmetric 8 (elem (kf_covariance kf)) \<and> positive_definite 8 (elem (kf_covariance kf))"

lemma kf_shapeD:
  assumes "kf_shape kf"
  shows "shape 1 8 (kf_mean kf)" "shape 8 8 (kf_covariance kf)" "std_weight_position kf = 1 / 20" "std_weight_velocity kf = 1 / 160"
  using assms by (simp_all add: kf_shape_def)

subsection \<open>The calls on filters of the right shape\<close>

lemma kf_shape_new: "kf_shape KalmanFilter_new"
  by (simp add: KalmanFilter_new_def kf_shape_def)

lemma kf_shape_Initiate:
  assumes "kf_shape kf" "need_recalc_project kf"
  shows "kf_shape (Initiate m kf)"
  using kf_shapeD [OF assms(1)] assms(2) set_variances_ok
  by (simp add: Initiate_def Let_def kf_shape_def upt_conv_Cons)

lemma Project_ok:
  assumes kf: "kf_shape kf"
  shows "Project (kf_mean kf) (kf_covariance kf) kf =
    ret (kf\<lparr>project_mean := proj_mean kf, project_covariance := mat 4 4 (proj_covariance kf), need_recalc_project := False\<rparr>)"
proof (cases "need_recalc_project kf")
  case False
  with kf show ?thesis by (simp add: Project_def kf_shape_def)
next
  case True
  let ?P = "elem (kf_covariance kf)"
  obtain U where U: "update_mat = ret U" "shape 4 8 U" "\<And>i j. i < 4 \<Longrightarrow> j < 8 \<Longrightarrow> elem U i j = Hm i j" using update_ok by blast
  obtain V where V: "update_mat_trans = ret V" "shape 8 4 V" "\<And>i j. i < 8 \<Longrightarrow> j < 4 \<Longrightarrow> elem V i j = HmT i j"
    using update_trans_ok by blast
  have 1: "Matrix_times (kf_mean kf) V = ret (proj_mean kf)"
    unfolding proj_mean_def using kf_shapeD(1) [OF kf] V(2,3) by (intro times_mm) auto
  have 2: "Matrix_times U (kf_covariance kf) = ret (mat 4 8 (mm 8 Hm ?P))"
    using kf_shapeD(2) [OF kf] U(2,3) by (intro times_mm) auto
  have 3: "Matrix_times (mat 4 8 (mm 8 Hm ?P)) V = ret (mat 4 4 (mm 8 (mm 8 Hm ?P) HmT))"
    using V(2,3) by (intro times_mm) auto
  have 4: "Matrix_plus (mat 4 4 (mm 8 (mm 8 Hm ?P) HmT))
      (innovation_covariance (1 / 10 * (1 / 10)) (1 / 20 * elem (kf_mean kf) 0 3 * (1 / 20 * elem (kf_mean kf) 0 3))) =
    ret (mat 4 4 (proj_covariance kf))"
    unfolding proj_covariance_def [abs_def] using innovation_covariance_ok by (intro plus_mat) auto
  show ?thesis using True 4 by (simp add: Project_def Let_def U(1) V(1) 1 2 3 kf_shapeD(3) [OF kf] del: times_divide_eq_left)
qed

lemma Predict_ok:
  assumes kf: "kf_shape kf"
  shows "Predict kf = ret (kf\<lparr>kf_mean := mat 1 8 (mm 8 (elem (kf_mean kf)) AmT),
    kf_covariance := mat 8 8 (\<lambda>i j. mm 8 (mm 8 Am (elem (kf_covariance kf))) AmT i j + Qn (elem (kf_mean kf) 0 3) i j),
    need_recalc_project := True\<rparr>)"
proof -
  let ?P = "elem (kf_covariance kf)" and ?h = "elem (kf_mean kf) 0 3"
  let ?Qn = "set_variances (let p = 1 / 20 * ?h; v = 1 / 160 * ?h in [p, p, 1 / 100, p, v, v, 1 / 100000, v]) (Matrix_new 8 8)"
  obtain U where U: "motion_mat = ret U" "shape 8 8 U" "\<And>i j. i < 8 \<Longrightarrow> j < 8 \<Longrightarrow> elem U i j = Am i j" using motion_ok by blast
  obtain V where V: "motion_mat_trans = ret V" "shape 8 8 V" "\<And>i j. i < 8 \<Longrightarrow> j < 8 \<Longrightarrow> elem V i j = AmT i j"
    using motion_trans_ok by blast
  have 1: "Matrix_times (kf_mean kf) V = ret (mat 1 8 (mm 8 (elem (kf_mean kf)) AmT))"
    using kf_shapeD(1) [OF kf] V(2,3) by (intro times_mm) auto
  have 2: "Matrix_times U (kf_covariance kf) = ret (mat 8 8 (mm 8 Am ?P))"
    using kf_shapeD(2) [OF kf] U(2,3) by (intro times_mm) auto
  have 3: "Matrix_times (mat 8 8 (mm 8 Am ?P)) V = ret (mat 8 8 (mm 8 (mm 8 Am ?P) AmT))"
    using V(2,3) by (intro times_mm) auto
  have 4: "Matrix_plus (mat 8 8 (mm 8 (mm 8 Am ?P) AmT)) ?Qn =
    ret (mat 8 8 (\<lambda>i j. mm 8 (mm 8 Am ?P) AmT i j + Qn ?h i j))"
    using set_variances_ok [OF shape_Matrix_new] by (intro plus_mat) (auto simp: Qn_def motion_noise_def Let_def)
  show ?thesis using 4
    by (simp add: Predict_def Let_def U(1) V(1) 1 2 3 kf_shapeD(3,4) [OF kf] del: times_divide_eq_left)
qed


text \<open>The state after an update, from the inverse of the innovation's covariance.\<close>

definition mean_updated :: "BoundingBox \<Rightarrow> KalmanFilter \<Rightarrow> (nat \<Rightarrow> nat \<Rightarrow> real) \<Rightarrow> nat \<Rightarrow> real" where
  "mean_updated b kf Si j = elem (kf_mean kf) 0 j +
     (\<Sum>k<4. ([bb_x b, bb_y b, bb_width b, bb_height b] ! k - elem (kf_mean kf) 0 k) * gain_of (elem (kf_covariance kf)) Si j k)"

lemma measurement_row_ok:
  "shape 1 4 (measurement_row b) \<and> (\<forall>j<4. elem (measurement_row b) 0 j = [bb_x b, bb_y b, bb_width b, bb_height b] ! j)"
  by (simp add: measurement_row_def elem_set_elem [of 1 4] all_less_4)

lemma shape_proj_mean [simp]: "shape 1 4 (proj_mean kf)"
  by (simp add: proj_mean_def)

lemma elem_proj_mean: "j < 4 \<Longrightarrow> elem (proj_mean kf) 0 j = elem (kf_mean kf) 0 j"
  by (simp add: proj_mean_def mm_def HmT_def Hm_def if_distrib cong: if_cong)

lemma Kalman_Update_ok:
  assumes kf: "kf_shape kf"
    and inv: "Inv (mat 4 4 (proj_covariance kf)) = ret M" "shape 4 4 M"
  shows "Kalman_Update b kf = ret (kf\<lparr>project_mean := proj_mean kf, project_covariance := mat 4 4 (proj_covariance kf),
    kf_mean := mat 1 8 (\<lambda>i j. mean_updated b kf (elem M) j),
    kf_covariance := mat 8 8 (updated (elem (kf_covariance kf)) (elem M)), need_recalc_project := True\<rparr>)"
proof -
  let ?P = "elem (kf_covariance kf)" and ?G = "gain_of (elem (kf_covariance kf)) (elem M)"
  let ?d = "\<lambda>i j. [bb_x b, bb_y b, bb_width b, bb_height b] ! j - elem (kf_mean kf) 0 j"
  obtain U where U: "update_mat = ret U" "shape 4 8 U" "\<And>i j. i < 4 \<Longrightarrow> j < 8 \<Longrightarrow> elem U i j = Hm i j" using update_ok by blast
  obtain V where V: "update_mat_trans = ret V" "shape 8 4 V" "\<And>i j. i < 8 \<Longrightarrow> j < 4 \<Longrightarrow> elem V i j = HmT i j"
    using update_trans_ok by blast
  note s = kf_shapeD(1,2) [OF kf]
  have 1: "Matrix_times (kf_covariance kf) V = ret (mat 8 4 (mm 8 ?P HmT))" using s V(2,3) by (intro times_mm) auto
  have 2: "Matrix_times (mat 8 4 (mm 8 ?P HmT)) M = ret (mat 8 4 ?G)"
    unfolding gain_of_def using inv(2) by (intro times_mm) auto
  have 3: "Matrix_minus (measurement_row b) (proj_mean kf) = ret (mat 1 4 ?d)"
    using measurement_row_ok by (intro minus_mat) (auto simp: elem_proj_mean) 
  have 4: "Trans (mat 8 4 ?G) = ret (mat 4 8 (\<lambda>i j. ?G j i))"
    unfolding Trans_ok [OF shape_mat zero_less_numeral zero_less_numeral] ret_inject by (intro mat_cong) simp
  have 5: "Matrix_times (mat 1 4 ?d) (mat 4 8 (\<lambda>i j. ?G j i)) = ret (mat 1 8 (mm 4 ?d (\<lambda>i j. ?G j i)))"
    by (intro times_mm) auto
  have 6: "plus_assign (kf_mean kf) (mat 1 8 (mm 4 ?d (\<lambda>i j. ?G j i))) = ret (mat 1 8 (\<lambda>i j. mean_updated b kf (elem M) j))"
    unfolding Matrix_plus_def [symmetric] Matrix_plus_ok [OF s(1) shape_mat] ret_inject
    by (intro mat_cong) (simp add: mean_updated_def mm_def)
  have 7: "Matrix_times (mat 8 4 ?G) U = ret (mat 8 8 (mm 4 ?G Hm))" using U(2,3) by (intro times_mm) auto
  have 8: "Matrix_times (mat 8 8 (mm 4 ?G Hm)) (kf_covariance kf) = ret (mat 8 8 (mm 8 (mm 4 ?G Hm) ?P))"
    using s by (intro times_mm) auto
  have 9: "Matrix_minus (kf_covariance kf) (mat 8 8 (mm 8 (mm 4 ?G Hm) ?P)) = ret (mat 8 8 (updated ?P (elem M)))"
    unfolding updated_def [abs_def] using s by (intro minus_mat) auto
  show ?thesis by (simp add: Kalman_Update_def Project_ok [OF kf] U(1) V(1) inv(1) 1 2 3 4 5 6 7 8 9)
qed

text \<open>No call faults, whatever the numbers are.\<close>

lemma kf_shape_Predict:
  "kf_shape kf \<Longrightarrow> \<exists>kf'. Predict kf = ret kf' \<and> kf_shape kf' \<and> need_recalc_project kf'"
proof -
  assume kf: "kf_shape kf"
  show ?thesis using kf_shapeD [OF kf] unfolding Predict_ok [OF kf] by (simp add: kf_shape_def)
qed

lemma kf_shape_Update: "kf_shape kf \<Longrightarrow> \<exists>kf'. Kalman_Update b kf = ret kf' \<and> kf_shape kf'"
proof -
  assume kf: "kf_shape kf"
  obtain M where "Inv (mat 4 4 (proj_covariance kf)) = ret M" "shape 4 4 M" using Inv_ends [of 4] shape_mat by fastforce
  from Kalman_Update_ok [OF kf this] kf show ?thesis by (simp add: kf_shape_def)
qed

definition deviation :: "Matrix \<Rightarrow> BoundingBox \<Rightarrow> nat \<Rightarrow> real" where
  "deviation mean1 m k =
     [bb_x m - elem mean1 0 0, bb_y m - elem mean1 0 1, bb_width m - elem mean1 0 2, bb_height m - elem mean1 0 3] ! k"

lemma square_maha_ok:
  assumes "shape 4 4 M"
  shows "square_maha mean1 M m = ret (bf 4 (elem M) (deviation mean1 m) (deviation mean1 m))"
proof -
  let ?d = "deviation mean1"
  let ?r = "mahalanobis_row mean1 m"
  have r: "shape 1 4 ?r" "\<forall>j<4. elem ?r 0 j = ?d m j"
    by (simp_all add: mahalanobis_row_def deviation_def elem_set_elem [of 1 4] all_less_4)
  have 1: "Matrix_times ?r M = ret (mat 1 4 (mm 4 (\<lambda>i. ?d m) (elem M)))" using r assms(1) by (intro times_mm) auto
  have 2: "Trans ?r = ret (mat 4 1 (\<lambda>i j. ?d m i))"
    unfolding Trans_ok [OF r(1) zero_less_one zero_less_numeral] ret_inject using r(2) by (intro mat_cong) simp
  have 3: "Matrix_times (mat 1 4 (mm 4 (\<lambda>i. ?d m) (elem M))) (mat 4 1 (\<lambda>i j. ?d m i)) =
    ret (mat 1 1 (mm 4 (mm 4 (\<lambda>i. ?d m) (elem M)) (\<lambda>i j. ?d m i)))" by (intro times_mm) auto
  have "mm 4 (mm 4 (\<lambda>i. ?d m) (elem M)) (\<lambda>i j. ?d m i) 0 0 = dot 4 (mv 4 (\<lambda>i j. elem M j i) (?d m)) (?d m)"
    by (simp add: mm_def dot_def mv_def mult.commute)
  then show ?thesis by (simp add: square_maha_def Let_def 1 2 3 bf_def dot_mv)
qed


lemma gating_loop_ok:
  assumes "shape 4 4 M" "shape 1 n sq" "i + length ms \<le> n"
  shows "\<exists>sq'. gating_loop mean1 M i ms sq = ret sq' \<and> shape 1 n sq' \<and>
    (\<forall>j<n. elem sq' 0 j = (if i \<le> j \<and> j < i + length ms
       then bf 4 (elem M) (deviation mean1 (ms ! (j - i))) (deviation mean1 (ms ! (j - i))) else elem sq 0 j))"
  using assms(2,3)
proof (induction ms arbitrary: i sq)
  case (Cons m ms)
  let ?q = "bf 4 (elem M) (deviation mean1 m) (deviation mean1 m)"
  from Cons.IH [of "set_elem 0 i ?q sq" "Suc i"] Cons.prems obtain sq' where
    sq: "gating_loop mean1 M (Suc i) ms (set_elem 0 i ?q sq) = ret sq'" "shape 1 n sq'"
    "\<forall>j<n. elem sq' 0 j = (if Suc i \<le> j \<and> j < Suc i + length ms
       then bf 4 (elem M) (deviation mean1 (ms ! (j - Suc i))) (deviation mean1 (ms ! (j - Suc i)))
       else elem (set_elem 0 i ?q sq) 0 j)" by auto
  have "elem sq' 0 j = (if i \<le> j \<and> j < i + length (m # ms)
      then bf 4 (elem M) (deviation mean1 ((m # ms) ! (j - i))) (deviation mean1 ((m # ms) ! (j - i))) else elem sq 0 j)"
    if j: "j < n" for j
  proof (cases "i < j")
    case True
    then have "j - i = Suc (j - Suc i)" by simp
    then show ?thesis using sq(3) j Cons.prems elem_set_elem [OF Cons.prems(1), of 0 i 0 j ?q] True by simp
  next
    case False
    then show ?thesis using sq(3) j Cons.prems elem_set_elem [OF Cons.prems(1), of 0 i 0 j ?q] by (cases "i = j") auto
  qed
  then show ?case using sq(1,2) square_maha_ok [OF assms(1)] by auto
qed auto

lemma GatingDistance_ok:
  assumes kf: "kf_shape kf" and inv: "Inv (mat 4 4 (proj_covariance kf)) = ret M" "shape 4 4 M"
  shows "\<exists>sq. GatingDistance ms kf = ret (sq, kf\<lparr>project_mean := proj_mean kf,
      project_covariance := mat 4 4 (proj_covariance kf), need_recalc_project := False\<rparr>) \<and>
    shape 1 (length ms) sq \<and>
    (\<forall>j<length ms. elem sq 0 j = bf 4 (elem M) (deviation (proj_mean kf) (ms ! j)) (deviation (proj_mean kf) (ms ! j)))"
proof -
  from gating_loop_ok [OF inv(2) shape_Matrix_new, of 0 ms "length ms" "proj_mean kf"] obtain sq where
    "gating_loop (proj_mean kf) M 0 ms (Matrix_new 1 (length ms)) = ret sq" "shape 1 (length ms) sq"
    "\<forall>j<length ms. elem sq 0 j = bf 4 (elem M) (deviation (proj_mean kf) (ms ! j)) (deviation (proj_mean kf) (ms ! j))" by auto
  then show ?thesis by (simp add: GatingDistance_def Project_ok [OF kf] inv(1))
qed

lemma kf_shape_Gating:
  assumes "kf_shape kf"
  shows "\<exists>sq kf'. GatingDistance ms kf = ret (sq, kf') \<and> kf_shape kf' \<and> shape 1 (length ms) sq"
proof -
  obtain M where "Inv (mat 4 4 (proj_covariance kf)) = ret M" "shape 4 4 M" using Inv_ends [of 4] shape_mat by fastforce
  from GatingDistance_ok [OF assms this, of ms] assms show ?thesis
    by (auto simp: kf_shape_def proj_mean_def proj_covariance_def [abs_def])
qed

subsection \<open>The covariance\<close>

lemma Rn_facts: "symmetric 4 (Rn h)" "0 \<le> bf 4 (Rn h) u u" "h \<noteq> 0 \<Longrightarrow> positive_definite 4 (Rn h)"
proof -
  show "symmetric 4 (Rn h)" unfolding Rn_def [abs_def] by (rule symmetric_diagonal)
  show "0 \<le> bf 4 (Rn h) u u" unfolding Rn_def [abs_def] by (rule diagonal_nonneg) (simp add: measure_noise_def)
  assume "h \<noteq> 0"
  then have "0 < 1 / 20 * h * (1 / 20 * h)" using not_real_square_gt_zero by fastforce
  then show "positive_definite 4 (Rn h)"
    unfolding Rn_def [abs_def] by (intro diagonal_positive) (simp add: measure_noise_def del: times_divide_eq_left)
qed

lemma Qn_facts: "symmetric 8 (Qn h)" "0 \<le> bf 8 (Qn h) x x"
  unfolding Qn_def [abs_def] by (rule symmetric_diagonal, rule diagonal_nonneg) (simp add: motion_noise_def Let_def)

lemma mv_AmT: "i < 8 \<Longrightarrow> mv 8 AmT x i = x i + (if 4 \<le> i then x (i - 4) else 0)"
proof -
  assume i: "i < 8"
  have "mv 8 AmT x i = (\<Sum>k<8. (if k = i then x k else 0) + (if 4 \<le> i \<and> k = i - 4 then x k else 0))"
    unfolding mv_def AmT_def Am_def by (intro sum.cong) auto
  moreover have "(\<Sum>k<8. if 4 \<le> i \<and> k = i - 4 then x k else 0) = (if 4 \<le> i then x (i - 4) else 0)"
    using i by (cases "4 \<le> i") auto
  ultimately show ?thesis using i by (simp add: sum.distrib)
qed

lemma predicted_form:
  "bf 8 (\<lambda>i j. mm 8 (mm 8 Am P) AmT i j + N i j) y x = bf 8 P (mv 8 AmT y) (mv 8 AmT x) + bf 8 N y x"
  unfolding bf_add AmT_def [abs_def] by (simp add: bf_congruence)

lemma predicted_ok:
  assumes "symmetric 8 P" "positive_definite 8 P"
  shows "symmetric 8 (\<lambda>i j. mm 8 (mm 8 Am P) AmT i j + Qn h i j)" "positive_definite 8 (\<lambda>i j. mm 8 (mm 8 Am P) AmT i j + Qn h i j)"
proof -
  show "symmetric 8 (\<lambda>i j. mm 8 (mm 8 Am P) AmT i j + Qn h i j)"
    by (rule symmetricI) (simp add: predicted_form bf_commute [OF assms(1)] bf_commute [OF Qn_facts(1)])
  show "positive_definite 8 (\<lambda>i j. mm 8 (mm 8 Am P) AmT i j + Qn h i j)"
    unfolding positive_definite_def predicted_form
  proof (intro allI impI)
    fix x :: "nat \<Rightarrow> real" assume x: "\<exists>i<8. x i \<noteq> 0"
    have "\<exists>i<8. mv 8 AmT x i \<noteq> 0"
    proof (rule ccontr)
      assume "\<not> ?thesis"
      then have z: "x i + (if 4 \<le> i then x (i - 4) else 0) = 0" if "i < 8" for i using that mv_AmT by metis
      have low: "x i = 0" if "i < 4" for i using z [of i] that by simp
      have "x i = 0" if "i < 8" for i using z [of i] low [of i] low [of "i - 4"] that by (cases "4 \<le> i") auto
      with x show False by blast
    qed
    then have "0 < bf 8 P (mv 8 AmT x) (mv 8 AmT x)" using assms(2) unfolding positive_definite_def by blast
    then show "0 < bf 8 P (mv 8 AmT x) (mv 8 AmT x) + bf 8 (Qn h) x x" using Qn_facts(2) [of h x] by linarith
  qed
qed

lemma form_mat:
  "symmetric n (elem (mat n n F)) \<longleftrightarrow> symmetric n F" "positive_definite n (elem (mat n n F)) \<longleftrightarrow> positive_definite n F"
  "bf n (elem (mat n n F)) y x = bf n F y x"
  by (rule forms_cong, simp)+ (rule bf_cong, simp_all)

lemma kf_ok_Predict:
  assumes ok: "kf_ok kf"
  shows "\<exists>kf'. Predict kf = ret kf' \<and> kf_ok kf'"
proof -
  from ok have kf: "kf_shape kf" by (simp add: kf_ok_def)
  show ?thesis using kf_shapeD [OF kf] ok predicted_ok [of "elem (kf_covariance kf)"]
    unfolding Predict_ok [OF kf] by (simp add: kf_ok_def kf_shape_def form_mat)
qed

lemma kf_ok_Initiate:
  assumes h: "bb_height m \<noteq> 0"
  shows "kf_ok (Initiate m KalmanFilter_new)"
proof -
  define sd where "sd = (let p = 2 * (1 / 20) * bb_height m; v = 10 * (1 / 160) * bb_height m
    in [p, p, 1 / 100, p, v, v, 1 / 100000, v])"
  have cov: "kf_covariance (Initiate m KalmanFilter_new) = set_variances sd (Matrix_new 8 8)"
    by (simp add: Initiate_def KalmanFilter_new_def Let_def sd_def)
  have elems: "elem (set_variances sd (Matrix_new 8 8)) i j = (if i = j then sd ! i * sd ! i else 0)" if "i < 8" "j < 8" for i j
    using set_variances_ok [OF shape_Matrix_new] that by simp
  have pos: "0 < sd ! i * sd ! i" if "i < 8" for i
  proof -
    have "\<forall>i<8. sd ! i \<noteq> 0" using h by (simp add: all_less_8 Let_def sd_def)
    then show ?thesis using that not_real_square_gt_zero by blast
  qed
  let ?D = "\<lambda>i j. if i = j then sd ! i * sd ! i else 0"
  have "kf_shape (Initiate m KalmanFilter_new)"
    by (rule kf_shape_Initiate [OF kf_shape_new]) (simp add: KalmanFilter_new_def)
  moreover have "symmetric 8 (elem (set_variances sd (Matrix_new 8 8))) \<longleftrightarrow> symmetric 8 ?D"
    "positive_definite 8 (elem (set_variances sd (Matrix_new 8 8))) \<longleftrightarrow> positive_definite 8 ?D"
    by (rule forms_cong, simp only: elems)+
  moreover have "positive_definite 8 ?D" using pos by (rule diagonal_positive)
  ultimately show ?thesis using symmetric_diagonal [of 8 "\<lambda>i. sd ! i * sd ! i"] unfolding kf_ok_def cov by blast
qed

text \<open>The projected covariance of a good filter is positive definite, so its inverse is one.\<close>

lemma projected_inverse:
  assumes ok: "kf_ok kf"
  shows "\<exists>M. Inv (mat 4 4 (proj_covariance kf)) = ret M \<and> shape 4 4 M \<and>
    kalman_step (elem (kf_covariance kf)) (Rn (elem (kf_mean kf) 0 3)) (proj_covariance kf) (elem M) \<and>
    (\<forall>i<4. \<forall>j<4. mm 4 (elem M) (proj_covariance kf) i j = (if i = j then 1 else 0))"
proof -
  let ?S = "proj_covariance kf" and ?P = "elem (kf_covariance kf)"
  from ok have P: "symmetric 8 ?P" "positive_definite 8 ?P" by (simp_all add: kf_ok_def)
  have "positive_definite 4 ?S"
    by (rule innovation_positive [OF _ P(2) Rn_facts(2)]) (simp add: proj_covariance_def)
  then have "positive_definite 4 (elem (mat 4 4 ?S))" by (simp only: form_mat)
  then have "independent_columns 4 (elem (mat 4 4 ?S))" by (rule positive_definite_independent)
  from Inv_ok [OF shape_mat _ this] obtain M where M: "Inv (mat 4 4 ?S) = ret M" "shape 4 4 M"
    "\<forall>i<4. \<forall>j<4. (\<Sum>k<4. elem (mat 4 4 ?S) i k * elem M k j) = (if i = j then 1 else 0)"
    "\<forall>i<4. \<forall>j<4. (\<Sum>k<4. elem M i k * elem (mat 4 4 ?S) k j) = (if i = j then 1 else 0)" by auto
  then have "kalman_step ?P (Rn (elem (kf_mean kf) 0 3)) ?S (elem M)"
    using P Rn_facts by (simp add: kalman_step_def proj_covariance_def mm_def)
  with M show ?thesis by (auto simp: mm_def)
qed

lemma gain_equation:
  assumes "\<forall>i<4. \<forall>j<4. mm 4 Si S i j = (if i = j then 1 else 0)" "i < 8" "j < 4"
  shows "mm 4 (gain_of P Si) S i j = P i j"
proof -
  have "mm 4 (gain_of P Si) S i j = mv 4 (mm 4 (mm 8 P HmT) Si) (\<lambda>k. S k j) i" by (simp add: mm_def mv_def gain_of_def)
  also have "\<dots> = mv 4 (mm 8 P HmT) (mv 4 Si (\<lambda>k. S k j)) i" by (simp add: mv_mm)
  also have "\<dots> = mv 4 (mm 8 P HmT) (axis j) i"
    using assms(1,3) by (intro mv_cong) (auto simp: mm_def mv_def axis_def)
  also have "\<dots> = P i j" using assms(3) by (simp add: mv_axis mm_def HmT_def Hm_def if_distrib cong: if_cong)
  finally show ?thesis .
qed

lemma inverse_nonneg:
  assumes "positive_definite 4 S" "\<And>i j. i < 4 \<Longrightarrow> j < 4 \<Longrightarrow> mm 4 S Si i j = (if i = j then 1 else 0)"
  shows "0 \<le> bf 4 Si u u"
proof -
  let ?z = "mv 4 Si u"
  have "bf 4 S ?z ?z = dot 4 ?z (mv 4 (mm 4 S Si) u)" by (simp add: bf_def mv_mm)
  also have "\<dots> = dot 4 ?z u"
    using assms(2) by (intro dot_cong) (simp_all add: mv_def if_distrib [of "\<lambda>x. x * _"] cong: if_cong)
  finally show ?thesis using positive_definiteD [OF assms(1), of ?z] by (simp add: bf_def dot_commute)
qed

lemma kf_ok_Gating:
  assumes ok: "kf_ok kf"
  shows "\<exists>sq kf'. GatingDistance ms kf = ret (sq, kf') \<and> kf_ok kf' \<and> (\<forall>j<length ms. 0 \<le> elem sq 0 j)"
proof -
  from ok have kf: "kf_shape kf" by (simp add: kf_ok_def)
  obtain M where M: "Inv (mat 4 4 (proj_covariance kf)) = ret M" "shape 4 4 M"
    "kalman_step (elem (kf_covariance kf)) (Rn (elem (kf_mean kf) 0 3)) (proj_covariance kf) (elem M)"
    using projected_inverse [OF ok] by blast
  note step = kalman_stepD [OF M(3)]
  have nonneg: "0 \<le> bf 4 (elem M) u u" for u
    by (rule inverse_nonneg [OF innovation_positive [OF step(1,4,6)] step(2)])
  show ?thesis
    using GatingDistance_ok [OF kf M(1,2), of ms] nonneg ok
    by (auto simp: kf_ok_def kf_shape_def proj_mean_def proj_covariance_def [abs_def])
qed

lemma deviation_nth: "k < 4 \<Longrightarrow> deviation m b k = [bb_x b, bb_y b, bb_width b, bb_height b] ! k - elem m 0 k"
proof -
  have "\<forall>k<4. deviation m b k = [bb_x b, bb_y b, bb_width b, bb_height b] ! k - elem m 0 k"
    by (simp add: deviation_def all_less_4)
  then show "k < 4 \<Longrightarrow> ?thesis" by blast
qed

lemma kf_ok_Update:
  assumes ok: "kf_ok kf" and h: "elem (kf_mean kf) 0 3 \<noteq> 0"
  shows "\<exists>kf' K. Kalman_Update b kf = ret kf' \<and> kf_ok kf' \<and>
    (\<forall>i<8. \<forall>j<4. (\<Sum>k<4. K i k * proj_covariance kf k j) = elem (kf_covariance kf) i j) \<and>
    (\<forall>i<8. elem (kf_mean kf') 0 i = elem (kf_mean kf) 0 i + (\<Sum>k<4. K i k * deviation (kf_mean kf) b k)) \<and>
    (\<forall>x. bf 8 (elem (kf_covariance kf')) x x \<le> bf 8 (elem (kf_covariance kf)) x x)"
proof -
  from ok have kf: "kf_shape kf" by (simp add: kf_ok_def)
  obtain M where M: "Inv (mat 4 4 (proj_covariance kf)) = ret M" "shape 4 4 M"
    "kalman_step (elem (kf_covariance kf)) (Rn (elem (kf_mean kf) 0 3)) (proj_covariance kf) (elem M)"
    "\<forall>i<4. \<forall>j<4. mm 4 (elem M) (proj_covariance kf) i j = (if i = j then 1 else 0)"
    using projected_inverse [OF ok] by blast
  let ?P = "elem (kf_covariance kf)" and ?K = "gain_of (elem (kf_covariance kf)) (elem M)"
  let ?kf = "kf\<lparr>project_mean := proj_mean kf, project_covariance := mat 4 4 (proj_covariance kf),
    kf_mean := mat 1 8 (\<lambda>i j. mean_updated b kf (elem M) j),
    kf_covariance := mat 8 8 (updated ?P (elem M)), need_recalc_project := True\<rparr>"
  have mean: "\<forall>i<8. elem (kf_mean ?kf) 0 i = elem (kf_mean kf) 0 i + (\<Sum>k<4. ?K i k * deviation (kf_mean kf) b k)"
    by (simp add: mean_updated_def deviation_nth mult.commute)
  have "kf_ok ?kf"
    using kf_shapeD [OF kf] updated_symmetric [OF M(3)] updated_positive [OF M(3) Rn_facts(3) [OF h]]
    by (simp add: kf_ok_def kf_shape_def form_mat)
  moreover have "\<forall>i<8. \<forall>j<4. (\<Sum>k<4. ?K i k * proj_covariance kf k j) = ?P i j"
    using gain_equation [OF M(4)] by (simp add: mm_def)
  moreover have "\<forall>x. bf 8 (elem (kf_covariance ?kf)) x x \<le> bf 8 ?P x x"
    using updated_smaller [OF M(3)] by (simp add: form_mat)
  ultimately show ?thesis using Kalman_Update_ok [OF kf M(1,2)] mean by blast
qed

text \<open>C40. The Kalman filter.  Of a filter whose covariance is symmetric and positive definite, \<^verbatim>\<open>Predict\<close>,
  \<^verbatim>\<open>GatingDistance\<close> and, if the predicted height is not zero, \<^verbatim>\<open>Update\<close> neither fault nor run forever, and they
  keep it so; the distances are not negative.  The gain \<open>K\<close> of an update solves \<open>K S = P H\<^sup>T\<close>, the mean moves
  by \<open>K\<close> times the innovation, and the covariance does not grow in any direction.\<close>

theorem kalman_filter:
  assumes ok: "kf_ok kf"
  shows "(\<exists>kf'. Predict kf = ret kf' \<and> kf_ok kf') \<and>
    (\<exists>sq kf'. GatingDistance ms kf = ret (sq, kf') \<and> kf_ok kf' \<and> (\<forall>j<length ms. 0 \<le> elem sq 0 j)) \<and>
    (elem (kf_mean kf) 0 3 \<noteq> 0 \<longrightarrow>
      (\<exists>kf' K. Kalman_Update b kf = ret kf' \<and> kf_ok kf' \<and>
        (\<forall>i<8. \<forall>j<4. (\<Sum>k<4. K i k * proj_covariance kf k j) = elem (kf_covariance kf) i j) \<and>
        (\<forall>i<8. elem (kf_mean kf') 0 i = elem (kf_mean kf) 0 i + (\<Sum>k<4. K i k * deviation (kf_mean kf) b k)) \<and>
        (\<forall>x. bf 8 (elem (kf_covariance kf')) x x \<le> bf 8 (elem (kf_covariance kf)) x x)))"
  using kf_ok_Predict [OF ok] kf_ok_Gating [OF ok] kf_ok_Update [OF ok] by blast

theorem kalman_filter_witness:
  "\<exists>kf. kf_ok kf \<and> (\<exists>kf'. Predict kf = ret kf' \<and> kf_ok kf') \<and>
     (\<exists>kf'. Kalman_Update \<lparr>bb_x = 1, bb_y = 1, bb_width = 1 / 2, bb_height = 2\<rparr> kf = ret kf' \<and> kf_ok kf')"
proof -
  let ?kf = "Initiate \<lparr>bb_x = 0, bb_y = 0, bb_width = 1, bb_height = 2\<rparr> KalmanFilter_new"
  have ok: "kf_ok ?kf" by (rule kf_ok_Initiate) simp
  have "elem (kf_mean ?kf) 0 3 = 2"
    by (simp add: Initiate_def Let_def KalmanFilter_new_def upt_conv_Cons elem_set_elem [of 1 8])
  with kalman_filter [OF ok] ok show ?thesis by (metis zero_neq_numeral)
qed

declare One_nat_def [simp]

end
