(* ===== verification/TrackMatch.thy ===== *)
theory TrackMatch
  imports Kalman Hungarian
begin

section \<open>Matching detections with tracks: costs and assignment\<close>

text \<open>
  \<^verbatim>\<open>modules/track/src/easytrack/src/match.h\<close>, \<^verbatim>\<open>match.cpp\<close> and \<^verbatim>\<open>track_data_type.h\<close>: boxes, features with their
  cached norm, the cosine distance, the overlap of boxes, and the call of the Hungarian algorithm.
\<close>

record Rect =
  xmin :: real
  ymin :: real
  xmax :: real
  ymax :: real

definition BoundingBox2Rect :: "BoundingBox \<Rightarrow> Rect" where
  "BoundingBox2Rect b = \<lparr>xmin = bb_x b, ymin = bb_y b, xmax = bb_x b + bb_width b, ymax = bb_y b + bb_height b\<rparr>"

definition Rect2BoundingBox :: "Rect \<Rightarrow> BoundingBox" where
  "Rect2BoundingBox r = \<lparr>bb_x = xmin r, bb_y = ymin r, bb_width = xmax r - xmin r, bb_height = ymax r - ymin r\<rparr>"

record Feature =
  vec :: "real list"
  mold :: real

record MatchResult =
  matches :: "(nat \<times> nat) list"
  unmatched_tracks :: "nat list"
  unmatched_detections :: "nat list"

definition MatchResult_Clean :: MatchResult where
  "MatchResult_Clean = \<lparr>matches = [], unmatched_tracks = [], unmatched_detections = []\<rparr>"

subsection \<open>Feature distance\<close>

definition InnerProduct :: "real list \<Rightarrow> real list \<Rightarrow> real run" where
  "InnerProduct lhs rhs = run_if (length lhs = length rhs) (fold (\<lambda>i s. s + lhs ! i * rhs ! i) [0..<length lhs] 0)"

definition L2Norm :: "real list \<Rightarrow> real run" where
  "L2Norm feature = run_bind (InnerProduct feature feature) (\<lambda>s. ret (sqrt s))"

text \<open>The norm is computed when it is negative, which means not known yet, and kept.\<close>

definition known_mold :: "Feature \<Rightarrow> real run" where
  "known_mold f = (if mold f < 0 then L2Norm (vec f) else ret (mold f))"

fun cosine_loop :: "real list \<Rightarrow> real \<Rightarrow> Feature list \<Rightarrow> real \<Rightarrow> (Feature list \<times> real) run" where
  "cosine_loop det x_mold [] max_simi = ret ([], max_simi)"
| "cosine_loop det x_mold (t # ts) max_simi =
     run_bind (known_mold t) (\<lambda>y_mold.
     run_bind (InnerProduct (vec t) det) (\<lambda>x_y.
       let cos_simi = (if x_mold = 0 \<or> y_mold = 0 then - 1 else x_y / (x_mold * y_mold))
       in run_bind (cosine_loop det x_mold ts (max cos_simi max_simi)) (\<lambda>(ts', m). ret (t\<lparr>mold := y_mold\<rparr> # ts', m))))"

definition CosineDistance :: "Feature list \<Rightarrow> Feature \<Rightarrow> (Feature list \<times> real) run" where
  "CosineDistance track_feats det =
     run_bind (known_mold det) (\<lambda>x_mold.
     run_bind (cosine_loop (vec det) x_mold track_feats 0) (\<lambda>(feats, max_simi).
       ret (feats, 1 - (if 1 < max_simi then 1 else max_simi))))"

subsection \<open>Overlap of boxes\<close>

definition IoU :: "Rect \<Rightarrow> Rect \<Rightarrow> real" where
  "IoU a b =
     (let tl_x = max (xmin a) (xmin b); tl_y = max (ymin a) (ymin b);
          br_x = min (xmax a) (xmax b); br_y = min (ymax a) (ymax b);
          w = br_x - tl_x; h = br_y - tl_y
      in if w \<le> 0 \<or> h \<le> 0 then 0
         else
           (let area_intersection = w * h;
                area_a = (xmax a - xmin a) * (ymax a - ymin a);
                area_b = (xmax b - xmin b) * (ymax b - ymin b)
            in area_intersection / (area_a + area_b - area_intersection)))"

definition IoUCost :: "Rect list \<Rightarrow> Rect list \<Rightarrow> Matrix" where
  "IoUCost det_rects tra_rects =
     mat (length det_rects) (length tra_rects) (\<lambda>det_idx tra_idx. 1 - IoU (tra_rects ! tra_idx) (det_rects ! det_idx))"

subsection \<open>Assignment\<close>

definition HungarianMatch :: "Matrix \<Rightarrow> int list run" where
  "HungarianMatch cost_matrix = map_option (map_sum id fst) (Hungarian_Solve cost_matrix)"

end
