(* ===== verification/MatchProps.thy ===== *)
theory MatchProps
  imports TrackMatch KalmanProps HungarianProps
begin

section \<open>Properties of the costs\<close>

text \<open>
  The ranges of the cosine distance and of the overlap, with no fault on features of one length, and the
  assignment that the Hungarian algorithm returns.
\<close>

lemma BoundingBox_roundtrip: "Rect2BoundingBox (BoundingBox2Rect b) = b"
  by (simp add: Rect2BoundingBox_def BoundingBox2Rect_def)

lemma InnerProduct_ok: "length xs = length ys \<Longrightarrow> InnerProduct xs ys = ret (\<Sum>i<length xs. xs ! i * ys ! i)"
  by (simp add: InnerProduct_def run_if_def fold_plus)

lemma L2Norm_ok: "L2Norm xs = ret (sqrt (\<Sum>i<length xs. xs ! i * xs ! i))"
  by (simp add: L2Norm_def InnerProduct_ok)

lemma known_mold_ok: "\<exists>x. known_mold f = ret x \<and> 0 \<le> x"
  by (auto simp: known_mold_def L2Norm_ok intro!: sum_nonneg)

lemma cosine_loop_ok:
  assumes "\<forall>t\<in>set ts. length (vec t) = length det"
  shows "\<exists>ts' m. cosine_loop det x ts m0 = ret (ts', m) \<and> map vec ts' = map vec ts \<and> m0 \<le> m"
  using assms
proof (induction ts arbitrary: m0)
  case (Cons t ts)
  obtain y where y: "known_mold t = ret y" using known_mold_ok by blast
  obtain p where p: "InnerProduct (vec t) det = ret p" using Cons.prems by (simp add: InnerProduct_ok)
  let ?c = "if x = 0 \<or> y = 0 then - 1 else p / (x * y)"
  from Cons.IH [of "max ?c m0"] Cons.prems obtain ts' m where
    "cosine_loop det x ts (max ?c m0) = ret (ts', m)" "map vec ts' = map vec ts" "max ?c m0 \<le> m" by auto
  then show ?case by (simp add: y p Let_def)
qed simp

lemma CosineDistance_ok:
  assumes "\<forall>t\<in>set ts. length (vec t) = length (vec det)"
  shows "\<exists>ts' x. CosineDistance ts det = ret (ts', x) \<and> map vec ts' = map vec ts \<and> 0 \<le> x \<and> x \<le> 1"
proof -
  obtain x where x: "known_mold det = ret x" using known_mold_ok by blast
  from cosine_loop_ok [OF assms, of x 0] obtain ts' m where
    "cosine_loop (vec det) x ts 0 = ret (ts', m)" "map vec ts' = map vec ts" "0 \<le> m" by blast
  then show ?thesis by (auto simp: CosineDistance_def x)
qed

subsection \<open>Overlap\<close>

lemma IoU_commute: "IoU a b = IoU b a"
  by (simp add: IoU_def Let_def max.commute min.commute add.commute)

lemma product_tight:
  fixes w h W H :: real
  assumes "0 < w" "0 < h" "w \<le> W" "h \<le> H" "W * H = w * h"
  shows "W = w \<and> H = h"
proof -
  have "\<not> w < W" using mult_strict_right_mono [of w W h] mult_left_mono [of h H W] assms by fastforce
  then have "W = w" using assms(3) by simp
  then show ?thesis using assms by simp
qed

lemma same_box:
  assumes "min (xmax a) (xmax b) - max (xmin a) (xmin b) = xmax a - xmin a" "min (xmax a) (xmax b) - max (xmin a) (xmin b) = xmax b - xmin b"
    "min (ymax a) (ymax b) - max (ymin a) (ymin b) = ymax a - ymin a" "min (ymax a) (ymax b) - max (ymin a) (ymin b) = ymax b - ymin b"
  shows "a = (b :: Rect)"
proof -
  have "xmin a = xmin b" "xmax a = xmax b" "ymin a = ymin b" "ymax a = ymax b" using assms by linarith+
  then show ?thesis by simp
qed

text \<open>Overlap of boxes.  The overlap of two boxes lies between 0 and 1, does not depend on their order, and
  is 1 exactly for a box of positive size and itself.\<close>

lemma iou_bounds:
  "0 \<le> IoU a b \<and> IoU a b \<le> 1 \<and> IoU a b = IoU b a \<and>
   (IoU a b = 1 \<longleftrightarrow> a = b \<and> xmin a < xmax a \<and> ymin a < ymax a)"
proof -
  define w h where "w = min (xmax a) (xmax b) - max (xmin a) (xmin b)" and "h = min (ymax a) (ymax b) - max (ymin a) (ymin b)"
  define A B where "A = (xmax a - xmin a) * (ymax a - ymin a)" and "B = (xmax b - xmin b) * (ymax b - ymin b)"
  have iou: "IoU a b = (if w \<le> 0 \<or> h \<le> 0 then 0 else w * h / (A + B - w * h))"
    by (simp add: IoU_def Let_def w_def h_def A_def B_def)
  show ?thesis
  proof (cases "w \<le> 0 \<or> h \<le> 0")
    case True
    then show ?thesis using iou by (auto simp: IoU_commute w_def h_def)
  next
    case False
    have sides: "w \<le> xmax a - xmin a" "w \<le> xmax b - xmin b" "h \<le> ymax a - ymin a" "h \<le> ymax b - ymin b"
      unfolding w_def h_def by linarith+
    have le: "w * h \<le> A" "w * h \<le> B" using False sides unfolding A_def B_def by (auto intro!: mult_mono)
    have pos: "0 < w * h" using False by simp
    then have den: "0 < A + B - w * h" using le by linarith
    have "IoU a b = 1 \<longleftrightarrow> A = w * h \<and> B = w * h"
      using iou False den le by (auto simp: field_simps)
    also have "\<dots> \<longleftrightarrow> a = b \<and> xmin a < xmax a \<and> ymin a < ymax a"
    proof
      assume tight: "A = w * h \<and> B = w * h"
      from False have "0 < w" "0 < h" by simp_all
      with sides tight have "xmax a - xmin a = w \<and> ymax a - ymin a = h" "xmax b - xmin b = w \<and> ymax b - ymin b = h"
        unfolding A_def B_def by (simp_all add: product_tight)
      then show "a = b \<and> xmin a < xmax a \<and> ymin a < ymax a"
        using same_box [of a b] \<open>0 < w\<close> \<open>0 < h\<close> unfolding w_def h_def by linarith
    qed (simp add: A_def B_def w_def h_def)
    finally have one: "IoU a b = 1 \<longleftrightarrow> a = b \<and> xmin a < xmax a \<and> ymin a < ymax a" .
    have eq: "IoU a b = w * h / (A + B - w * h)" using iou False by simp
    have "0 \<le> IoU a b" unfolding eq using pos den by (simp add: less_imp_le)
    moreover have "IoU a b \<le> 1" unfolding eq using den le by (subst divide_le_eq_1_pos) linarith+
    ultimately show ?thesis using one IoU_commute by blast
  qed
qed

lemma HungarianMatch_ok: "\<exists>as. HungarianMatch M = ret as \<and> valid_assignment (Rows M) (Cols M) as"
  using Solve_ok [of M] by (auto simp: HungarianMatch_def ret_def)

lemma valid_assignmentD:
  assumes "valid_assignment r c as"
  shows "length as = r" "i < r \<Longrightarrow> as ! i < int c" "distinct (filter (\<lambda>a. 0 \<le> a) as)"
proof -
  show len: "length as = r" "i < r \<Longrightarrow> as ! i < int c" using assms by (auto simp: valid_assignment_def)
  have "inj_on ((!) as) (assigned as)" using assms by (simp add: valid_assignment_def)
  then have "inj_on ((!) as) {i. i < length as \<and> 0 \<le> as ! i}" by (simp add: assigned_def)
  then have "inj_on ((!) as) (set (filter (\<lambda>i. 0 \<le> as ! i) [0..<length as]))" by (rule inj_on_subset) auto
  moreover have "filter (\<lambda>a. 0 \<le> a) as = map ((!) as) (filter (\<lambda>i. 0 \<le> as ! i) [0..<length as])"
    by (subst map_nth [of as, symmetric]) (simp only: filter_map comp_def)
  ultimately show "distinct (filter (\<lambda>a. 0 \<le> a) as)" by (simp add: distinct_map)
qed

end
