(* ===== verification/Tracker.thy ===== *)
theory Tracker
  imports TrackMatch
begin

section \<open>Tracking objects: FeatureMatchTrack\<close>

text \<open>
  \<^verbatim>\<open>modules/track/src/easytrack/src/track_fm.cpp\<close>.  The tracker keeps its tracks and the next track id; the
  members that only carry values between the steps of one frame are results here.  A vector access out of
  range is a fault; a \<^verbatim>\<open>std::set\<close> is its sorted list.
\<close>

record DetectObject =
  label :: int
  score :: real
  bbox :: BoundingBox
  track_id :: int
  detect_id :: int
  feature :: "real list"
  feat_mold :: real

datatype TrackState = TENTATIVE | CONFIRMED | DELETED

record TrackObject =
  kf :: KalmanFilter
  features :: "Feature list"
  pos :: Rect
  class_id :: int
  to_track_id :: int
  to_score :: real
  state :: TrackState
  age :: int
  time_since_last_update :: int
  has_feature :: bool

record FmParams =
  max_cosine_distance :: real
  max_iou_distance :: real
  max_age :: int
  n_init :: int
  nn_budget :: nat

record FeatureMatch =
  fm_params :: FmParams
  fm_tracks :: "TrackObject list"
  next_id :: int

definition FeatureMatchTrack_new :: FeatureMatch where
  "FeatureMatchTrack_new =
     \<lparr>fm_params = \<lparr>max_cosine_distance = 2 / 10, max_iou_distance = 7 / 10, max_age = 30, n_init = 3, nn_budget = 100\<rparr>,
      fm_tracks = [], next_id = 0\<rparr>"

definition SetParams :: "real \<Rightarrow> nat \<Rightarrow> real \<Rightarrow> int \<Rightarrow> int \<Rightarrow> FeatureMatch \<Rightarrow> FeatureMatch" where
  "SetParams cosine budget iou mage ninit fm =
     fm\<lparr>fm_params := \<lparr>max_cosine_distance = cosine, max_iou_distance = iou, max_age = mage, n_init = ninit, nn_budget = budget\<rparr>\<rparr>"

definition vec_at :: "'a list \<Rightarrow> nat \<Rightarrow> 'a run" where
  "vec_at xs i = (if i < length xs then ret (xs ! i) else Some (Inl OutOfBounds))"

fun mapR :: "('a \<Rightarrow> 'b run) \<Rightarrow> 'a list \<Rightarrow> 'b list run" where
  "mapR f [] = ret []"
| "mapR f (x # xs) = run_bind (f x) (\<lambda>y. run_bind (mapR f xs) (\<lambda>ys. ret (y # ys)))"

fun foldR :: "('a \<Rightarrow> 's \<Rightarrow> 's run) \<Rightarrow> 'a list \<Rightarrow> 's \<Rightarrow> 's run" where
  "foldR f [] s = ret s"
| "foldR f (x # xs) s = run_bind (f x s) (foldR f xs)"

definition to_xyah :: "BoundingBox \<Rightarrow> BoundingBox" where
  "to_xyah b = \<lparr>bb_x = bb_x b + bb_width b / 2, bb_y = bb_y b + bb_height b / 2,
     bb_width = bb_width b / bb_height b, bb_height = bb_height b\<rparr>"

definition to_tlwh :: "BoundingBox \<Rightarrow> BoundingBox" where
  "to_tlwh x =
     (let w = bb_width x * bb_height x; h = bb_height x
      in \<lparr>bb_x = bb_x x - w / 2, bb_y = bb_y x - h / 2, bb_width = w, bb_height = h\<rparr>)"

definition gating_threshold :: real where "gating_threshold = 94877 / 10000"

subsection \<open>Matching by features\<close>

text \<open>One element of the cost matrix: the distance of the features, or a value just above the limit.\<close>

definition gated :: "FmParams \<Rightarrow> real \<Rightarrow> real \<Rightarrow> real" where
  "gated p distance gating_dist =
     (if max_cosine_distance p < distance \<or> gating_threshold < gating_dist then max_cosine_distance p + 1 / 100000 else distance)"

fun cost_loop :: "FmParams \<Rightarrow> DetectObject list \<Rightarrow> Matrix \<Rightarrow> nat \<Rightarrow> nat list \<Rightarrow> Feature list \<Rightarrow> (real list \<times> Feature list) run" where
  "cost_loop p dets gating j [] feats = ret ([], feats)"
| "cost_loop p dets gating j (d # ds) feats =
     run_bind (vec_at dets d) (\<lambda>det.
     run_bind (CosineDistance feats \<lparr>vec = feature det, mold = feat_mold det\<rparr>) (\<lambda>(feats1, distance).
     run_bind (cost_loop p dets gating (Suc j) ds feats1) (\<lambda>(row, feats2).
       ret (gated p distance (elem gating 0 j) # row, feats2))))"

definition cascade_row :: "FmParams \<Rightarrow> DetectObject list \<Rightarrow> nat list \<Rightarrow> TrackObject \<Rightarrow> (real list \<times> TrackObject) run" where
  "cascade_row p dets unmatched t =
     run_bind (mapR (\<lambda>d. run_bind (vec_at dets d) (\<lambda>det. ret (to_xyah (bbox det)))) unmatched) (\<lambda>measurements.
     run_bind (GatingDistance measurements (kf t)) (\<lambda>(gating, kf1).
     run_bind (cost_loop p dets gating 0 unmatched (features t)) (\<lambda>(row, feats).
       ret (row, t\<lparr>kf := kf1, features := feats\<rparr>))))"

fun cascade_rows :: "FmParams \<Rightarrow> DetectObject list \<Rightarrow> nat list \<Rightarrow> nat list \<Rightarrow> TrackObject list \<Rightarrow> (real list list \<times> TrackObject list) run" where
  "cascade_rows p dets unmatched [] ts = ret ([], ts)"
| "cascade_rows p dets unmatched (i # is) ts =
     run_bind (vec_at ts i) (\<lambda>t.
     run_bind (cascade_row p dets unmatched t) (\<lambda>(row, t1).
     run_bind (cascade_rows p dets unmatched is (ts[i := t1])) (\<lambda>(rows, ts1).
       ret (row # rows, ts1))))"

text \<open>
  The assignment of the rows, one track after another: the matched pairs, the unmatched tracks and the
  detections that remain.
\<close>

fun arrange :: "real \<Rightarrow> Matrix \<Rightarrow> nat list \<Rightarrow> nat list \<Rightarrow> int list \<Rightarrow> nat \<Rightarrow> MatchResult \<times> nat list \<Rightarrow> (MatchResult \<times> nat list) run" where
  "arrange limit cost dets tracks [] i (res, remained) = ret (res, remained)"
| "arrange limit cost dets tracks (a # as) i (res, remained) =
     run_bind (vec_at tracks i) (\<lambda>t.
       if a < 0 \<or> limit < elem cost i (nat a)
       then arrange limit cost dets tracks as (Suc i) (res\<lparr>unmatched_tracks := unmatched_tracks res @ [t]\<rparr>, remained)
       else run_bind (vec_at dets (nat a)) (\<lambda>d.
              arrange limit cost dets tracks as (Suc i)
                (res\<lparr>matches := matches res @ [(d, t)]\<rparr>, filter (\<lambda>x. x \<noteq> d) remained)))"

fun cascade_loop :: "FmParams \<Rightarrow> DetectObject list \<Rightarrow> (int \<Rightarrow> nat list option) \<Rightarrow> nat list \<Rightarrow>
    TrackObject list \<times> MatchResult \<times> nat list \<Rightarrow> (TrackObject list \<times> MatchResult) run" where
  "cascade_loop p dets age_track_indices [] (ts, res, remained) = ret (ts, res)"
| "cascade_loop p dets age_track_indices (a # ages) (ts, res, remained) =
     (if remained = [] then ret (ts, res)
      else
        case age_track_indices (int a) of
          None \<Rightarrow> cascade_loop p dets age_track_indices ages (ts, res, remained)
        | Some track_indices \<Rightarrow>
            run_bind (cascade_rows p dets (unmatched_detections res) track_indices ts) (\<lambda>(rows, ts1).
            let cost = mat (length track_indices) (length (unmatched_detections res)) (\<lambda>i j. rows ! i ! j)
            in run_bind (HungarianMatch cost) (\<lambda>assignments.
               run_bind (arrange (max_cosine_distance p) cost (unmatched_detections res) track_indices assignments 0 (res, remained))
                 (\<lambda>(res1, remained1).
                   cascade_loop p dets (age_track_indices(int a := None)) ages
                     (ts1, res1\<lparr>unmatched_detections := remained1\<rparr>, remained1)))))"

definition add_age :: "TrackObject list \<Rightarrow> nat \<Rightarrow> (int \<Rightarrow> nat list option) \<Rightarrow> (int \<Rightarrow> nat list option) run" where
  "add_age ts i m =
     run_bind (vec_at ts i) (\<lambda>t.
       let a = time_since_last_update t - 1
       in ret (m(a := Some ((case m a of None \<Rightarrow> [] | Some is \<Rightarrow> is) @ [i]))))"

definition MatchCascade :: "FmParams \<Rightarrow> DetectObject list \<Rightarrow> nat list \<Rightarrow> TrackObject list \<Rightarrow>
    (DetectObject list \<times> TrackObject list \<times> MatchResult) run" where
  "MatchCascade p dets confirmed ts =
     (let res = MatchResult_Clean\<lparr>unmatched_detections := [0..<length dets]\<rparr>
      in if confirmed = [] \<or> dets = [] then ret (dets, ts, res)
         else
           run_bind (mapR (\<lambda>d. run_bind (L2Norm (feature d)) (\<lambda>m. ret (d\<lparr>feat_mold := m\<rparr>))) dets) (\<lambda>dets1.
           run_bind (foldR (add_age ts) confirmed (\<lambda>a. None)) (\<lambda>age_track_indices.
           run_bind (cascade_loop p dets1 age_track_indices [0..<nat (max_age p)] (ts, res, [0..<length dets])) (\<lambda>(ts1, res1).
             ret (dets1, ts1, res1)))))"

subsection \<open>Matching by overlap\<close>

definition MatchIou :: "FmParams \<Rightarrow> DetectObject list \<Rightarrow> TrackObject list \<Rightarrow> nat list \<Rightarrow> nat list \<Rightarrow> MatchResult run" where
  "MatchIou p dets ts detect_indices track_indices =
     (if detect_indices = [] then ret (MatchResult_Clean\<lparr>unmatched_tracks := track_indices\<rparr>)
      else if track_indices = [] then ret (MatchResult_Clean\<lparr>unmatched_detections := detect_indices\<rparr>)
      else
        run_bind (mapR (\<lambda>d. run_bind (vec_at dets d) (\<lambda>det. ret (BoundingBox2Rect (bbox det)))) detect_indices) (\<lambda>det_rects.
        run_bind (mapR (\<lambda>i. run_bind (vec_at ts i) (\<lambda>t. ret (pos t))) track_indices) (\<lambda>tra_rects.
        let cost = IoUCost tra_rects det_rects
        in run_bind (HungarianMatch cost) (\<lambda>assignments.
           run_bind (arrange (max_iou_distance p) cost detect_indices track_indices assignments 0
               (MatchResult_Clean, sort (remdups detect_indices))) (\<lambda>(res, remained).
             ret (res\<lparr>unmatched_detections := remained\<rparr>))))))"

subsection \<open>One frame\<close>

definition InitNewTrack :: "DetectObject \<Rightarrow> TrackObject list \<Rightarrow> TrackObject list" where
  "InitNewTrack det ts =
     (let with_feature = list_ex (\<lambda>x. x \<noteq> 0) (feature det)
      in ts @ [\<lparr>kf = Initiate (to_xyah (bbox det)) KalmanFilter_new,
                features = (if with_feature then [\<lparr>vec = feature det, mold = feat_mold det\<rparr>] else []),
                pos = BoundingBox2Rect (bbox det), class_id = label det, to_track_id = - 1, to_score = score det,
                state = TENTATIVE, age = 1, time_since_last_update = 0, has_feature = with_feature\<rparr>])"

definition MarkMiss :: "FmParams \<Rightarrow> TrackObject \<Rightarrow> TrackObject" where
  "MarkMiss p t =
     (if state t = TENTATIVE \<or> max_age p < time_since_last_update t then t\<lparr>state := DELETED\<rparr> else t)"

definition mark_miss_at :: "FmParams \<Rightarrow> nat \<Rightarrow> TrackObject list \<Rightarrow> TrackObject list run" where
  "mark_miss_at p i ts = run_bind (vec_at ts i) (\<lambda>t. ret (ts[i := MarkMiss p t]))"

definition predict_track :: "TrackObject \<Rightarrow> TrackObject run" where
  "predict_track t =
     run_bind (Predict (kf t)) (\<lambda>kf1.
       ret (t\<lparr>time_since_last_update := time_since_last_update t + 1, kf := kf1,
              pos := BoundingBox2Rect (to_tlwh (GetCurPos kf1))\<rparr>))"

definition is_confirmed :: "TrackObject \<Rightarrow> bool" where
  "is_confirmed t \<longleftrightarrow> state t = CONFIRMED \<and> has_feature t"

text \<open>The first missed object gets a second chance by overlap.\<close>

definition chance :: "FmParams \<Rightarrow> nat \<Rightarrow> nat list \<times> TrackObject list \<Rightarrow> (nat list \<times> TrackObject list) run" where
  "chance p i st =
     (case st of (iou_tracks, ts) \<Rightarrow>
        run_bind (vec_at ts i) (\<lambda>t.
          if time_since_last_update t = 1 then ret (iou_tracks @ [i], ts)
          else run_bind (mark_miss_at p i ts) (\<lambda>ts1. ret (iou_tracks, ts1))))"

definition updated_track :: "FmParams \<Rightarrow> DetectObject \<Rightarrow> KalmanFilter \<Rightarrow> int \<Rightarrow> TrackObject \<Rightarrow> TrackObject \<times> int" where
  "updated_track p det kf1 next t =
     (let feats = features t @ [\<lparr>vec = feature det, mold = feat_mold det\<rparr>];
          t1 = t\<lparr>kf := kf1,
                 features := (if has_feature t then (if nn_budget p < length feats then tl feats else feats) else features t),
                 time_since_last_update := 0, age := age t + 1\<rparr>
      in if state t1 = TENTATIVE \<and> n_init p < age t1
         then (t1\<lparr>state := CONFIRMED, to_track_id := next\<rparr>, next + 1)
         else (t1, next))"

definition update_matched :: "FmParams \<Rightarrow> DetectObject list \<Rightarrow> nat \<times> nat \<Rightarrow>
    TrackObject list \<times> int \<times> DetectObject list \<Rightarrow> (TrackObject list \<times> int \<times> DetectObject list) run" where
  "update_matched p dets m st =
     (case (m, st) of ((d, i), (ts, next, out)) \<Rightarrow>
        run_bind (vec_at ts i) (\<lambda>t.
        run_bind (vec_at dets d) (\<lambda>det.
        run_bind (Kalman_Update (to_xyah (bbox det)) (kf t)) (\<lambda>kf1.
          let (t1, next1) = updated_track p det kf1 next t
          in ret (ts[i := t1], next1, out @ [det\<lparr>track_id := to_track_id t, detect_id := int d\<rparr>])))))"

definition init_unmatched :: "DetectObject list \<Rightarrow> nat \<Rightarrow> TrackObject list \<times> DetectObject list \<Rightarrow> (TrackObject list \<times> DetectObject list) run" where
  "init_unmatched dets d st =
     (case st of (ts, out) \<Rightarrow>
        run_bind (vec_at dets d) (\<lambda>det.
          let ts1 = InitNewTrack det ts
          in ret (ts1, out @ [det\<lparr>track_id := to_track_id (last ts1), detect_id := int d\<rparr>])))"

definition alive :: "FmParams \<Rightarrow> TrackObject \<Rightarrow> bool" where
  "alive p t \<longleftrightarrow> \<not> (state t = DELETED \<or> max_age p < time_since_last_update t)"

definition first_frame :: "DetectObject list \<Rightarrow> TrackObject list \<times> DetectObject list" where
  "first_frame dets =
     fold (\<lambda>d (ts, out). (InitNewTrack (dets ! d) ts, out @ [(dets ! d)\<lparr>track_id := - 1, detect_id := int d\<rparr>]))
       [0..<length dets] ([], [])"

definition UpdateFrame :: "DetectObject list \<Rightarrow> FeatureMatch \<Rightarrow> (FeatureMatch \<times> DetectObject list) run" where
  "UpdateFrame detects fm =
     (let p = fm_params fm; dets = map (\<lambda>d. d\<lparr>feat_mold := - 1\<rparr>) detects
      in if fm_tracks fm = []
         then (case first_frame dets of (ts, out) \<Rightarrow> ret (fm\<lparr>fm_tracks := ts\<rparr>, out))
         else
           (let all = [0..<length (fm_tracks fm)];
                confirmed = filter (\<lambda>i. is_confirmed (fm_tracks fm ! i)) all;
                unconfirmed = filter (\<lambda>i. \<not> is_confirmed (fm_tracks fm ! i)) all
            in run_bind (mapR predict_track (fm_tracks fm)) (\<lambda>ts1.
               run_bind (MatchCascade p dets confirmed ts1) (\<lambda>(dets1, ts2, res_feature).
               run_bind (foldR (chance p) (unmatched_tracks res_feature) (unconfirmed, ts2)) (\<lambda>(iou_tracks, ts3).
               run_bind (MatchIou p dets1 ts3 (unmatched_detections res_feature) iou_tracks) (\<lambda>res_iou.
               run_bind (foldR (update_matched p dets1) (matches res_feature @ matches res_iou) (ts3, next_id fm, []))
                 (\<lambda>(ts4, next1, out1).
               run_bind (foldR (init_unmatched dets1) (unmatched_detections res_iou) (ts4, out1)) (\<lambda>(ts5, out2).
               run_bind (foldR (mark_miss_at p) (unmatched_tracks res_iou) ts5) (\<lambda>ts6.
                 ret (fm\<lparr>fm_tracks := filter (alive p) ts6, next_id := next1\<rparr>, out2))))))))))"

end
