(* ===== verification/TrackerProps.thy ===== *)
theory TrackerProps
  imports Tracker MatchProps
begin

section \<open>Properties of the tracker\<close>

text \<open>
  A frame never faults on features of one length; every detection of a frame comes out once; the tracks keep
  their invariant, and no two tracks ever have the same id.
\<close>

subsection \<open>Loops of runs\<close>

lemma vec_at_ok [simp]: "i < length xs \<Longrightarrow> vec_at xs i = ret (xs ! i)"
  by (simp add: vec_at_def)

lemma mapR_ok:
  assumes "\<And>x. x \<in> set xs \<Longrightarrow> \<exists>y. f x = ret y \<and> P x y"
  shows "\<exists>ys. mapR f xs = ret ys \<and> list_all2 P xs ys"
  using assms
proof (induction xs)
  case (Cons x xs)
  from Cons.prems [of x] obtain y where y: "f x = ret y" "P x y" by auto
  from Cons.IH Cons.prems obtain ys where "mapR f xs = ret ys" "list_all2 P xs ys" by auto
  with y show ?case by simp
qed simp

lemma mapR_map: "(\<And>x. x \<in> set xs \<Longrightarrow> f x = ret (g x)) \<Longrightarrow> mapR f xs = ret (map g xs)"
  by (induction xs) auto

lemma foldR_inv:
  assumes "I [] s"
    and "\<And>done x rest s. xs = done @ x # rest \<Longrightarrow> I done s \<Longrightarrow> \<exists>s'. f x s = ret s' \<and> I (done @ [x]) s'"
  shows "\<exists>s'. foldR f xs s = ret s' \<and> I xs s'"
proof -
  have "\<exists>s'. foldR f ys s = ret s' \<and> I (done @ ys) s'" if "xs = done @ ys" "I done s" for "done" ys s
    using that
  proof (induction ys arbitrary: "done" s)
    case (Cons y ys)
    from assms(2) [OF Cons.prems] obtain s1 where "f y s = ret s1" "I (done @ [y]) s1" by blast
    with Cons.IH [of "done @ [y]" s1] Cons.prems(1) show ?case by simp
  qed simp
  from this [of "[]" xs s] assms(1) show ?thesis by simp
qed

subsection \<open>Arranging an assignment\<close>

lemma arrange_ok:
  assumes "i + length as \<le> length tracks" "\<forall>a\<in>set as. a < int (length dets)" "distinct (filter (\<lambda>a. 0 \<le> a) as)" "distinct dets"
  shows "\<exists>ms us. arrange limit cost dets tracks as i (res, rem) =
      ret (res\<lparr>matches := matches res @ ms, unmatched_tracks := unmatched_tracks res @ us\<rparr>, filter (\<lambda>d. d \<notin> fst ` set ms) rem) \<and>
    mset (map snd ms @ us) = mset (take (length as) (drop i tracks)) \<and>
    distinct (map fst ms) \<and> fst ` set ms \<subseteq> (\<lambda>a. dets ! nat a) ` {a \<in> set as. 0 \<le> a} \<and>
    (\<forall>m\<in>set ms. \<exists>k j. k < length tracks \<and> j < length dets \<and> m = (dets ! j, tracks ! k) \<and> elem cost k j \<le> limit)"
  using assms(1-3)
proof (induction as arbitrary: i res rem)
  case Nil
  then show ?case by (intro exI [of _ "[]"]) simp
next
  case (Cons a as)
  have i: "i < length tracks" using Cons.prems(1) by simp
  have take: "take (length (a # as)) (drop i tracks) = tracks ! i # take (length as) (drop (Suc i) tracks)"
    using i by (simp add: Cons_nth_drop_Suc [symmetric])
  show ?case
  proof (cases "a < 0 \<or> limit < elem cost i (nat a)")
    case True
    let ?res = "res\<lparr>unmatched_tracks := unmatched_tracks res @ [tracks ! i]\<rparr>"
    from Cons.IH [of "Suc i" ?res rem] Cons.prems obtain ms us where
      "arrange limit cost dets tracks as (Suc i) (?res, rem) =
        ret (?res\<lparr>matches := matches ?res @ ms, unmatched_tracks := unmatched_tracks ?res @ us\<rparr>, filter (\<lambda>d. d \<notin> fst ` set ms) rem)"
      "mset (map snd ms @ us) = mset (take (length as) (drop (Suc i) tracks))" "distinct (map fst ms)"
      "fst ` set ms \<subseteq> (\<lambda>a. dets ! nat a) ` {a \<in> set as. 0 \<le> a}"
      "\<forall>m\<in>set ms. \<exists>k j. k < length tracks \<and> j < length dets \<and> m = (dets ! j, tracks ! k) \<and> elem cost k j \<le> limit"
      by (auto split: if_splits)
    then show ?thesis using True i take by (intro exI [of _ ms] exI [of _ "tracks ! i # us"]) auto
  next
    case False
    then have a: "0 \<le> a" "nat a < length dets" "elem cost i (nat a) \<le> limit" using Cons.prems(2) by auto
    let ?d = "dets ! nat a"
    let ?res = "res\<lparr>matches := matches res @ [(?d, tracks ! i)]\<rparr>" and ?rem = "filter (\<lambda>x. x \<noteq> ?d) rem"
    from Cons.IH [of "Suc i" ?res ?rem] Cons.prems obtain ms us where IH:
      "arrange limit cost dets tracks as (Suc i) (?res, ?rem) =
        ret (?res\<lparr>matches := matches ?res @ ms, unmatched_tracks := unmatched_tracks ?res @ us\<rparr>, filter (\<lambda>d. d \<notin> fst ` set ms) ?rem)"
      "mset (map snd ms @ us) = mset (take (length as) (drop (Suc i) tracks))" "distinct (map fst ms)"
      "fst ` set ms \<subseteq> (\<lambda>a. dets ! nat a) ` {a \<in> set as. 0 \<le> a}"
      "\<forall>m\<in>set ms. \<exists>k j. k < length tracks \<and> j < length dets \<and> m = (dets ! j, tracks ! k) \<and> elem cost k j \<le> limit"
      by (auto split: if_splits)
    have "a \<notin> set as" using Cons.prems(3) a(1) by auto
    have "?d \<notin> fst ` set ms"
    proof
      assume "?d \<in> fst ` set ms"
      with IH(4) obtain b where b: "b \<in> set as" "0 \<le> b" "?d = dets ! nat b" by auto
      with Cons.prems(2) have "nat b < length dets" by auto
      with a(2) b(3) assms(4) have "nat a = nat b" by (simp add: nth_eq_iff_index_eq)
      with a(1) b \<open>a \<notin> set as\<close> show False by (simp add: eq_nat_nat_iff)
    qed
    moreover have "filter (\<lambda>d. d \<notin> fst ` set ms) ?rem = filter (\<lambda>d. d \<notin> fst ` set ((?d, tracks ! i) # ms)) rem"
      by (auto intro: filter_cong)
    ultimately show ?thesis using False i take a IH
      by (intro exI [of _ "(?d, tracks ! i) # ms"] exI [of _ us]) (auto simp: image_iff)
  qed
qed


subsection \<open>The cascade\<close>

text \<open>What matching may change of a track: the filter's cache and the norms of its features.\<close>

definition track_shape :: "nat \<Rightarrow> TrackObject \<Rightarrow> bool" where
  "track_shape fd t \<longleftrightarrow> kf_shape (kf t) \<and> (\<forall>f\<in>set (features t). length (vec f) = fd)"

definition recached :: "TrackObject \<Rightarrow> TrackObject \<Rightarrow> bool" where
  "recached t t' \<longleftrightarrow> t' = t\<lparr>kf := kf t', features := features t'\<rparr> \<and> (kf_shape (kf t) \<longrightarrow> kf_shape (kf t')) \<and>
     map vec (features t') = map vec (features t)"

definition renormed :: "DetectObject \<Rightarrow> DetectObject \<Rightarrow> bool" where
  "renormed d d' \<longleftrightarrow> d' = d\<lparr>feat_mold := feat_mold d'\<rparr>"

lemma recached_refl [simp]: "recached t t" by (simp add: recached_def)

lemma recached_trans: "recached t u \<Longrightarrow> recached u v \<Longrightarrow> recached t v"
  unfolding recached_def by (cases t; cases u; cases v) auto

lemma recached_fields:
  assumes "recached t t'"
  shows "state t' = state t" "to_track_id t' = to_track_id t" "age t' = age t" "has_feature t' = has_feature t"
    "time_since_last_update t' = time_since_last_update t" "length (features t') = length (features t)"
proof -
  from assms have t: "t' = t\<lparr>kf := kf t', features := features t'\<rparr>" "map vec (features t') = map vec (features t)"
    by (simp_all add: recached_def)
  show "state t' = state t" "to_track_id t' = to_track_id t" "age t' = age t" "has_feature t' = has_feature t"
    "time_since_last_update t' = time_since_last_update t"
    by (subst t(1), simp)+
  show "length (features t') = length (features t)" using arg_cong [OF t(2), of length] by simp
qed

lemma vec_lengths: "map vec fs' = map vec fs \<Longrightarrow> (\<forall>f\<in>set fs'. length (vec f) = n) \<longleftrightarrow> (\<forall>f\<in>set fs. length (vec f) = n)"
proof -
  assume "map vec fs' = map vec fs"
  from arg_cong [OF this, of set] have "vec ` set fs' = vec ` set fs" by simp
  then have "(\<forall>v\<in>vec ` set fs'. length v = n) \<longleftrightarrow> (\<forall>v\<in>vec ` set fs. length v = n)" by (rule arg_cong)
  then show ?thesis by simp
qed

lemma recached_shape: "recached t t' \<Longrightarrow> track_shape fd t \<Longrightarrow> track_shape fd t'"
  using vec_lengths [of "features t'" "features t"] by (simp add: recached_def track_shape_def)

lemma recached_shapes: "list_all2 recached ts ts' \<Longrightarrow> \<forall>t\<in>set ts. track_shape fd t \<Longrightarrow> \<forall>t\<in>set ts'. track_shape fd t"
  by (induction rule: list_all2_induct) (auto intro: recached_shape)

lemma recached_list_trans: "list_all2 recached ts us \<Longrightarrow> list_all2 recached us vs \<Longrightarrow> list_all2 recached ts vs"
  by (rule list_all2_trans [where ?P1.0 = recached and ?P2.0 = recached]) (rule recached_trans)

lemma renormed_fields: "renormed d d' \<Longrightarrow> feature d' = feature d \<and> bbox d' = bbox d \<and> label d' = label d \<and> score d' = score d"
  by (cases d; cases d') (simp add: renormed_def)

lemma cost_loop_ok:
  assumes "\<forall>d\<in>set ds. d < length dets" "\<forall>det\<in>set dets. length (feature det) = fd" "\<forall>f\<in>set feats. length (vec f) = fd"
  shows "\<exists>row feats'. cost_loop p dets gating j ds feats = ret (row, feats') \<and> map vec feats' = map vec feats"
  using assms
proof (induction ds arbitrary: j feats)
  case (Cons d ds)
  let ?det = "\<lparr>vec = feature (dets ! d), mold = feat_mold (dets ! d)\<rparr>"
  from CosineDistance_ok [of feats ?det] Cons.prems obtain fs x where
    1: "CosineDistance feats ?det = ret (fs, x)" "map vec fs = map vec feats" by auto
  have "\<forall>f\<in>set fs. length (vec f) = fd" using vec_lengths [OF 1(2)] Cons.prems(3) by blast
  from Cons.IH [OF _ Cons.prems(2) this, of "Suc j"] Cons.prems(1) obtain row fs' where
    "cost_loop p dets gating (Suc j) ds fs = ret (row, fs')" "map vec fs' = map vec fs" by auto
  with 1 Cons.prems(1) show ?case by simp
qed simp

lemma cascade_row_ok:
  assumes "\<forall>d\<in>set ds. d < length dets" "\<forall>det\<in>set dets. length (feature det) = fd" "track_shape fd t"
  shows "\<exists>row t'. cascade_row p dets ds t = ret (row, t') \<and> recached t t'"
proof -
  let ?ms = "map (\<lambda>d. to_xyah (bbox (dets ! d))) ds"
  have ms: "mapR (\<lambda>d. run_bind (vec_at dets d) (\<lambda>det. ret (to_xyah (bbox det)))) ds = ret ?ms"
    using assms(1) by (intro mapR_map) simp
  from kf_shape_Gating [of "kf t" ?ms] assms(3) obtain gating kf1 where
    g: "GatingDistance ?ms (kf t) = ret (gating, kf1)" "kf_shape kf1" by (auto simp: track_shape_def)
  from cost_loop_ok [OF assms(1,2), of "features t" p gating 0] assms(3) obtain row fs where
    c: "cost_loop p dets gating 0 ds (features t) = ret (row, fs)" "map vec fs = map vec (features t)" by (auto simp: track_shape_def)
  then show ?thesis using ms g by (auto simp: cascade_row_def recached_def)
qed

lemma cascade_rows_ok:
  assumes "\<forall>d\<in>set ds. d < length dets" "\<forall>det\<in>set dets. length (feature det) = fd" "\<forall>t\<in>set ts. track_shape fd t" "\<forall>i\<in>set is. i < length ts"
  shows "\<exists>rows ts'. cascade_rows p dets ds is ts = ret (rows, ts') \<and> list_all2 recached ts ts'"
  using assms(3,4)
proof (induction "is" arbitrary: ts)
  case Nil
  then show ?case by (simp add: list_all2_same)
next
  case (Cons i "is")
  from cascade_row_ok [OF assms(1,2), of "ts ! i" p] Cons.prems obtain row t' where
    r: "cascade_row p dets ds (ts ! i) = ret (row, t')" "recached (ts ! i) t'" by auto
  have all: "list_all2 recached ts (ts[i := t'])"
    using r(2) Cons.prems(2) by (auto simp: list_all2_conv_all_nth nth_list_update)
  have "\<forall>t\<in>set (ts[i := t']). track_shape fd t"
    using Cons.prems recached_shape [OF r(2)] by (auto dest!: set_update_subset_insert [THEN subsetD])
  from Cons.IH [OF this] Cons.prems(2) obtain rows ts' where
    "cascade_rows p dets ds is (ts[i := t']) = ret (rows, ts')" "list_all2 recached (ts[i := t']) ts'" by auto
  then show ?case using r(1) Cons.prems(2) recached_list_trans [OF all] by auto
qed

lemma mset_filter_out:
  assumes "distinct xs" "distinct ys" "set xs \<subseteq> set ys"
  shows "mset xs + mset (filter (\<lambda>y. y \<notin> set xs) ys) = mset ys"
proof -
  have "distinct (xs @ filter (\<lambda>y. y \<notin> set xs) ys)" using assms by auto
  moreover have "set (xs @ filter (\<lambda>y. y \<notin> set xs) ys) = set ys" using assms(3) by auto
  ultimately have "mset (xs @ filter (\<lambda>y. y \<notin> set xs) ys) = mset ys" using assms(2) set_eq_iff_mset_eq_distinct by blast
  then show ?thesis by simp
qed

definition used :: "MatchResult \<Rightarrow> nat list" where
  "used res = map snd (matches res) @ unmatched_tracks res"

definition cascade_inv :: "nat \<Rightarrow> (nat \<Rightarrow> int) \<Rightarrow> nat set \<Rightarrow> (int \<Rightarrow> nat list option) \<Rightarrow> MatchResult \<Rightarrow> nat list \<Rightarrow> bool" where
  "cascade_inv n tm confirmed m res remained \<longleftrightarrow>
     remained = unmatched_detections res \<and> mset (map fst (matches res)) + mset remained = mset [0..<n] \<and>
     distinct (used res) \<and> set (used res) \<subseteq> confirmed \<and>
     (\<forall>a is. m a = Some is \<longrightarrow> distinct is \<and> set is \<subseteq> confirmed \<and> set is \<inter> set (used res) = {} \<and> (\<forall>i\<in>set is. tm i = a))"

text \<open>One age of the cascade.\<close>

lemma cascade_round:
  assumes inv: "cascade_inv n tm C m res rem" and a: "m a = Some is"
    and as: "valid_assignment (length is) (length rem) as"
  shows "\<exists>res' rem'. arrange limit cost rem is as 0 (res, rem) = ret (res', rem') \<and>
    cascade_inv n tm C (m(a := None)) (res'\<lparr>unmatched_detections := rem'\<rparr>) rem'"
proof -
  note I = inv [unfolded cascade_inv_def]
  have base: "mset (map fst (matches res)) + mset rem = mset [0..<n]" using I by blast
  then have "distinct (map fst (matches res) @ rem)" using mset_eq_imp_distinct_iff by (metis distinct_upt mset_append)
  then have rem: "distinct rem" by simp
  have ind: "distinct is" "set is \<subseteq> C" "set is \<inter> set (used res) = {}" "\<forall>i\<in>set is. tm i = a" using I a by blast+
  note A = valid_assignmentD [OF as]
  have bound: "\<forall>x\<in>set as. x < int (length rem)" using A(1,2) by (auto simp: in_set_conv_nth)
  from arrange_ok [of 0 as "is" rem limit cost res rem] A(1,3) bound rem obtain ms us where
    r: "arrange limit cost rem is as 0 (res, rem) =
      ret (res\<lparr>matches := matches res @ ms, unmatched_tracks := unmatched_tracks res @ us\<rparr>, filter (\<lambda>d. d \<notin> fst ` set ms) rem)"
    "mset (map snd ms @ us) = mset is" "distinct (map fst ms)" "fst ` set ms \<subseteq> (\<lambda>a. rem ! nat a) ` {a \<in> set as. 0 \<le> a}" by auto
  have "fst ` set ms \<subseteq> set rem" using r(4) bound by fastforce
  with mset_filter_out [OF r(3) rem] have part: "mset (map fst ms) + mset (filter (\<lambda>d. d \<notin> fst ` set ms) rem) = mset rem" by simp
  have "mset (map fst (matches res @ ms)) + mset (filter (\<lambda>d. d \<notin> fst ` set ms) rem) =
    mset (map fst (matches res)) + (mset (map fst ms) + mset (filter (\<lambda>d. d \<notin> fst ` set ms) rem))" by (simp add: add.assoc)
  also have "\<dots> = mset [0..<n]" unfolding part by (rule base)
  finally have dets: "mset (map fst (matches res @ ms)) + mset (filter (\<lambda>d. d \<notin> fst ` set ms) rem) = mset [0..<n]" .
  let ?res = "res\<lparr>matches := matches res @ ms, unmatched_tracks := unmatched_tracks res @ us,
    unmatched_detections := filter (\<lambda>d. d \<notin> fst ` set ms) rem\<rparr>"
  have "mset (used ?res) = mset (used res @ is)" using r(2) by (simp add: used_def ac_simps)
  from mset_eq_setD [OF this] mset_eq_imp_distinct_iff [OF this]
  have u: "set (used ?res) = set (used res) \<union> set is" "distinct (used ?res) = distinct (used res @ is)" by (simp_all only: set_append)
  have "cascade_inv n tm C (m(a := None)) ?res (filter (\<lambda>d. d \<notin> fst ` set ms) rem)"
    unfolding cascade_inv_def
  proof (intro conjI allI impI)
    show "distinct (used ?res)" "set (used ?res) \<subseteq> C" unfolding u using ind I by auto
    fix b js assume "(m(a := None)) b = Some js"
    then have b: "b \<noteq> a" "m b = Some js" by (auto split: if_splits)
    with I have js: "distinct js" "set js \<subseteq> C" "set js \<inter> set (used res) = {}" "\<forall>i\<in>set js. tm i = b" by blast+
    then show "distinct js" "set js \<subseteq> C" "\<forall>i\<in>set js. tm i = b" by blast+
    show "set js \<inter> set (used ?res) = {}" unfolding u(1) using js(3,4) ind(4) b(1) by auto
  qed (use dets in simp_all)
  with r(1) show ?thesis by simp
qed

lemma cascade_loop_ok:
  assumes "\<forall>det\<in>set dets. length (feature det) = fd"
    and "cascade_inv (length dets) tm C m res rem" "\<forall>t\<in>set ts. track_shape fd t" "\<forall>i\<in>C. i < length ts"
  shows "\<exists>ts' res' m' rem'. cascade_loop p dets m ages (ts, res, rem) = ret (ts', res') \<and> list_all2 recached ts ts' \<and>
    cascade_inv (length dets) tm C m' res' rem'"
  using assms(2-4)
proof (induction ages arbitrary: m ts res rem)
  case Nil
  then show ?case by (auto simp: list_all2_same)
next
  case (Cons a ages)
  show ?case
  proof (cases "rem = [] \<or> m (int a) = None")
    case True
    show ?thesis
    proof (cases "rem = []")
      case True
      then show ?thesis using Cons.prems(1) by (auto simp: list_all2_same)
    next
      case False
      with True have "cascade_loop p dets m (a # ages) (ts, res, rem) = cascade_loop p dets m ages (ts, res, rem)" by simp
      with Cons.IH [OF Cons.prems] show ?thesis by simp
    qed
  next
    case False
    then obtain "is" where "is": "m (int a) = Some is" by auto
    note I = Cons.prems(1) [unfolded cascade_inv_def]
    have ud: "unmatched_detections res = rem" using I by blast
    have "mset (map fst (matches res)) + mset rem = mset [0..<length dets]" using I by blast
    from arg_cong [OF this, of set_mset] have rem: "\<forall>d\<in>set rem. d < length dets" by auto
    have "\<forall>i\<in>set is. i < length ts" using I "is" Cons.prems(3) by blast
    from cascade_rows_ok [OF rem assms(1) Cons.prems(2) this, of p] obtain rows ts1 where
      r: "cascade_rows p dets rem is ts = ret (rows, ts1)" "list_all2 recached ts ts1" by blast
    let ?cost = "mat (length is) (length rem) (\<lambda>i j. rows ! i ! j)"
    have "Rows ?cost = length is \<and> Cols ?cost = length rem" using shapeD [OF shape_mat] by blast
    with HungarianMatch_ok [of ?cost] obtain as where
      h: "HungarianMatch ?cost = ret as" "valid_assignment (length is) (length rem) as" by auto
    from cascade_round [OF Cons.prems(1) "is" h(2), of "max_cosine_distance p" ?cost] obtain res1 rem1 where
      a: "arrange (max_cosine_distance p) ?cost rem is as 0 (res, rem) = ret (res1, rem1)"
      "cascade_inv (length dets) tm C (m(int a := None)) (res1\<lparr>unmatched_detections := rem1\<rparr>) rem1" by blast
    have "\<forall>t\<in>set ts1. track_shape fd t" by (rule recached_shapes [OF r(2) Cons.prems(2)])
    moreover have "\<forall>i\<in>C. i < length ts1" using Cons.prems(3) list_all2_lengthD [OF r(2)] by simp
    ultimately obtain ts' res' m' rem' where
      "cascade_loop p dets (m(int a := None)) ages (ts1, res1\<lparr>unmatched_detections := rem1\<rparr>, rem1) = ret (ts', res')"
      "list_all2 recached ts1 ts'" "cascade_inv (length dets) tm C m' res' rem'" using Cons.IH [OF a(2)] by blast
    moreover have "list_all2 recached ts ts'" by (rule recached_list_trans [OF r(2) calculation(2)])
    moreover have "cascade_loop p dets m (a # ages) (ts, res, rem) = ret (ts', res')"
      using False "is" r(1) a(1) h(1) calculation(1) by (simp add: ud Let_def)
    ultimately show ?thesis by blast
  qed
qed


lemma add_age_ok:
  assumes "distinct confirmed" "\<forall>i\<in>set confirmed. i < length ts"
  shows "\<exists>m. foldR (add_age ts) confirmed (\<lambda>a. None) = ret m \<and>
    (\<forall>a is. m a = Some is \<longrightarrow> distinct is \<and> set is \<subseteq> set confirmed \<and> (\<forall>i\<in>set is. time_since_last_update (ts ! i) - 1 = a))"
proof (rule foldR_inv [where I = "\<lambda>done m. \<forall>a is. m a = Some is \<longrightarrow> distinct is \<and> set is \<subseteq> set done \<and>
    (\<forall>i\<in>set is. time_since_last_update (ts ! i) - 1 = a)"])
  fix pre i rest and m :: "int \<Rightarrow> nat list option"
  assume split: "confirmed = pre @ i # rest"
    and I: "\<forall>a is. m a = Some is \<longrightarrow> distinct is \<and> set is \<subseteq> set pre \<and> (\<forall>i\<in>set is. time_since_last_update (ts ! i) - 1 = a)"
  have i: "i < length ts" "i \<notin> set pre" using assms split by auto
  let ?a = "time_since_last_update (ts ! i) - 1"
  let ?m = "m(?a := Some ((case m ?a of None \<Rightarrow> [] | Some is \<Rightarrow> is) @ [i]))"
  have "add_age ts i m = ret ?m" using i by (simp add: add_age_def Let_def)
  moreover have "distinct js \<and> set js \<subseteq> set (pre @ [i]) \<and> (\<forall>i\<in>set js. time_since_last_update (ts ! i) - 1 = b)"
    if "?m b = Some js" for b js
  proof (cases "b = ?a")
    case True
    then have js: "js = (case m ?a of None \<Rightarrow> [] | Some is \<Rightarrow> is) @ [i]" using that by simp
    show ?thesis using I [rule_format, of ?a] i(2) True by (cases "m ?a") (auto simp: js)
  next
    case False
    then show ?thesis using I [rule_format, of b js] that by auto
  qed
  ultimately show "\<exists>m'. add_age ts i m = ret m' \<and> (\<forall>a is. m' a = Some is \<longrightarrow> distinct is \<and> set is \<subseteq> set (pre @ [i]) \<and>
      (\<forall>i\<in>set is. time_since_last_update (ts ! i) - 1 = a))" by blast
qed simp

text \<open>
  The cascade: every detection is matched or left over, no track is used twice, and only confirmed tracks
  are used.
\<close>

lemma MatchCascade_ok:
  assumes "\<forall>det\<in>set dets. length (feature det) = fd" "\<forall>t\<in>set ts. track_shape fd t"
    "distinct confirmed" "\<forall>i\<in>set confirmed. i < length ts"
  shows "\<exists>dets1 ts1 res. MatchCascade p dets confirmed ts = ret (dets1, ts1, res) \<and>
    list_all2 renormed dets dets1 \<and> list_all2 recached ts ts1 \<and>
    mset (map fst (matches res)) + mset (unmatched_detections res) = mset [0..<length dets] \<and>
    distinct (used res) \<and> set (used res) \<subseteq> set confirmed"
proof -
  let ?res = "MatchResult_Clean\<lparr>unmatched_detections := [0..<length dets]\<rparr>"
  have start: "matches ?res = []" "used ?res = []" "unmatched_detections ?res = [0..<length dets]"
    by (simp_all add: MatchResult_Clean_def used_def)
  show ?thesis
  proof (cases "confirmed = [] \<or> dets = []")
    case True
    have "list_all2 renormed dets dets" by (simp add: list_all2_same renormed_def)
    moreover have "MatchCascade p dets confirmed ts = ret (dets, ts, ?res)" using True by (simp add: MatchCascade_def Let_def)
    ultimately show ?thesis using start by (auto simp: list_all2_same)
  next
    case False
    define norm where "norm d = (d\<lparr>feat_mold := sqrt (\<Sum>i<length (feature d). feature d ! i * feature d ! i)\<rparr>)" for d :: DetectObject
    have norms: "mapR (\<lambda>d. run_bind (L2Norm (feature d)) (\<lambda>m. ret (d\<lparr>feat_mold := m\<rparr>))) dets = ret (map norm dets)"
      by (rule mapR_map) (simp add: L2Norm_ok norm_def)
    have feat: "\<forall>det\<in>set (map norm dets). length (feature det) = fd" using assms(1) by (simp add: norm_def)
    obtain m where m: "foldR (add_age ts) confirmed (\<lambda>a. None) = ret m"
      "\<forall>a is. m a = Some is \<longrightarrow> distinct is \<and> set is \<subseteq> set confirmed \<and> (\<forall>i\<in>set is. time_since_last_update (ts ! i) - 1 = a)"
      using add_age_ok [OF assms(3,4)] by blast
    have "cascade_inv (length (map norm dets)) (\<lambda>i. time_since_last_update (ts ! i) - 1) (set confirmed) m ?res [0..<length dets]"
      using m(2) start by (simp add: cascade_inv_def)
    from cascade_loop_ok [OF feat this assms(2,4), of p "[0..<nat (max_age p)]"] obtain ts1 res1 m1 rem1 where
      c: "cascade_loop p (map norm dets) m [0..<nat (max_age p)] (ts, ?res, [0..<length dets]) = ret (ts1, res1)"
      "list_all2 recached ts ts1" "cascade_inv (length dets) (\<lambda>i. time_since_last_update (ts ! i) - 1) (set confirmed) m1 res1 rem1"
      by auto
    have "MatchCascade p dets confirmed ts = ret (map norm dets, ts1, res1)"
      using False norms m(1) c(1) by (simp add: MatchCascade_def Let_def)
    moreover have "list_all2 renormed dets (map norm dets)"
      by (simp add: list_all2_conv_all_nth renormed_def norm_def)
    ultimately show ?thesis using c(2,3) by (auto simp: cascade_inv_def)
  qed
qed

subsection \<open>Overlap, and the loops over the tracks\<close>

lemma arrange_all:
  assumes "valid_assignment (length tracks) (length dets) as" "distinct dets"
  shows "\<exists>ms us. arrange limit cost dets tracks as 0 (MatchResult_Clean, rem) =
      ret (MatchResult_Clean\<lparr>matches := ms, unmatched_tracks := us\<rparr>, filter (\<lambda>d. d \<notin> fst ` set ms) rem) \<and>
    mset (map snd ms) + mset us = mset tracks \<and> distinct (map fst ms) \<and> fst ` set ms \<subseteq> set dets"
proof -
  note A = valid_assignmentD [OF assms(1)]
  have bound: "\<forall>x\<in>set as. x < int (length dets)" using A(1,2) by (auto simp: in_set_conv_nth)
  from arrange_ok [of 0 as tracks dets limit cost MatchResult_Clean rem] A(1,3) bound assms(2) obtain ms us where
    "arrange limit cost dets tracks as 0 (MatchResult_Clean, rem) =
      ret (MatchResult_Clean\<lparr>matches := ms, unmatched_tracks := us\<rparr>, filter (\<lambda>d. d \<notin> fst ` set ms) rem)"
    "mset (map snd ms) + mset us = mset tracks" "distinct (map fst ms)"
    "fst ` set ms \<subseteq> (\<lambda>a. dets ! nat a) ` {a \<in> set as. 0 \<le> a}" by (auto simp: MatchResult_Clean_def)
  moreover from this have "fst ` set ms \<subseteq> set dets" using bound by fastforce
  ultimately show ?thesis by blast
qed

lemma MatchIou_ok:
  assumes "distinct ds" "\<forall>d\<in>set ds. d < length dets" "\<forall>i\<in>set is. i < length ts"
  shows "\<exists>res. MatchIou p dets ts ds is = ret res \<and> mset (map fst (matches res)) + mset (unmatched_detections res) = mset ds \<and>
    mset (map snd (matches res)) + mset (unmatched_tracks res) = mset is"
proof (cases "ds = [] \<or> is = []")
  case True
  then show ?thesis by (auto simp: MatchIou_def MatchResult_Clean_def)
next
  case False
  let ?dr = "map (\<lambda>d. BoundingBox2Rect (bbox (dets ! d))) ds" and ?tr = "map (\<lambda>i. pos (ts ! i)) is"
  let ?cost = "IoUCost ?tr ?dr"
  have 1: "mapR (\<lambda>d. run_bind (vec_at dets d) (\<lambda>det. ret (BoundingBox2Rect (bbox det)))) ds = ret ?dr"
    using assms(2) by (intro mapR_map) simp
  have 2: "mapR (\<lambda>i. run_bind (vec_at ts i) (\<lambda>t. ret (pos t))) is = ret ?tr"
    using assms(3) by (intro mapR_map) simp
  have "Rows ?cost = length is \<and> Cols ?cost = length ds" unfolding IoUCost_def using shapeD [OF shape_mat] by auto
  with HungarianMatch_ok [of ?cost] obtain as where
    h: "HungarianMatch ?cost = ret as" "valid_assignment (length is) (length ds) as" by auto
  from arrange_all [OF h(2) assms(1), of "max_iou_distance p" ?cost "sort (remdups ds)"] obtain ms us where
    a: "arrange (max_iou_distance p) ?cost ds is as 0 (MatchResult_Clean, sort (remdups ds)) =
      ret (MatchResult_Clean\<lparr>matches := ms, unmatched_tracks := us\<rparr>, filter (\<lambda>d. d \<notin> fst ` set ms) (sort (remdups ds)))"
    "mset (map snd ms) + mset us = mset is" "distinct (map fst ms)" "fst ` set ms \<subseteq> set ds" by blast
  let ?res = "MatchResult_Clean\<lparr>matches := ms, unmatched_tracks := us,
    unmatched_detections := filter (\<lambda>d. d \<notin> fst ` set ms) (sort (remdups ds))\<rparr>"
  have "mset (map fst ms) + mset (filter (\<lambda>d. d \<notin> set (map fst ms)) (sort (remdups ds))) = mset (sort (remdups ds))"
    using a(3,4) by (intro mset_filter_out) auto
  also have "mset (sort (remdups ds)) = mset ds" using assms(1) by (simp add: distinct_remdups_id)
  finally have "mset (map fst (matches ?res)) + mset (unmatched_detections ?res) = mset ds" by simp
  moreover have "MatchIou p dets ts ds is = ret ?res"
    using False 1 2 h(1) a(1) by (simp add: MatchIou_def Let_def)
  ultimately show ?thesis using a(2) by auto
qed

lemma mark_miss_loop_ok:
  assumes "\<forall>i\<in>set is. i < length ts"
  shows "\<exists>ts'. foldR (mark_miss_at p) is ts = ret ts' \<and> length ts' = length ts \<and>
    (\<forall>i<length ts. ts' ! i = (if i \<in> set is then MarkMiss p (ts ! i) else ts ! i))"
proof -
  have idem: "MarkMiss p (MarkMiss p t) = MarkMiss p t" for t by (simp add: MarkMiss_def)
  show ?thesis
  proof (rule foldR_inv [where I = "\<lambda>done ts'. length ts' = length ts \<and>
      (\<forall>i<length ts. ts' ! i = (if i \<in> set done then MarkMiss p (ts ! i) else ts ! i))"])
    fix pre i rest ts'
    assume "is = pre @ i # rest"
      and I: "length ts' = length ts \<and> (\<forall>i<length ts. ts' ! i = (if i \<in> set pre then MarkMiss p (ts ! i) else ts ! i))"
    with assms have i: "i < length ts" by auto
    show "\<exists>ts''. mark_miss_at p i ts' = ret ts'' \<and> length ts'' = length ts \<and>
        (\<forall>k<length ts. ts'' ! k = (if k \<in> set (pre @ [i]) then MarkMiss p (ts ! k) else ts ! k))"
      using I i by (auto simp: mark_miss_at_def nth_list_update idem)
  qed simp
qed

lemma chance_loop_ok:
  assumes "\<forall>i\<in>set is. i < length ts"
  shows "\<exists>ts'. foldR (chance p) is (un, ts) = ret (un @ filter (\<lambda>i. time_since_last_update (ts ! i) = 1) is, ts') \<and> length ts' = length ts \<and>
    (\<forall>i<length ts. ts' ! i = (if i \<in> set is \<and> time_since_last_update (ts ! i) \<noteq> 1 then MarkMiss p (ts ! i) else ts ! i))"
proof -
  have idem: "MarkMiss p (MarkMiss p t) = MarkMiss p t" for t by (simp add: MarkMiss_def)
  have time: "time_since_last_update (MarkMiss p t) = time_since_last_update t" for t by (simp add: MarkMiss_def)
  have "\<exists>st. foldR (chance p) is (un, ts) = ret st \<and> (case st of (un', ts') \<Rightarrow>
      un' = un @ filter (\<lambda>i. time_since_last_update (ts ! i) = 1) is \<and> length ts' = length ts \<and>
      (\<forall>i<length ts. ts' ! i = (if i \<in> set is \<and> time_since_last_update (ts ! i) \<noteq> 1 then MarkMiss p (ts ! i) else ts ! i)))"
  proof (rule foldR_inv [where I = "\<lambda>done st. case st of (un', ts') \<Rightarrow>
      un' = un @ filter (\<lambda>i. time_since_last_update (ts ! i) = 1) done \<and> length ts' = length ts \<and>
      (\<forall>i<length ts. ts' ! i = (if i \<in> set done \<and> time_since_last_update (ts ! i) \<noteq> 1 then MarkMiss p (ts ! i) else ts ! i))"])
    fix pre i rest st
    assume "is = pre @ i # rest" and I: "case st of (un', ts') \<Rightarrow>
      un' = un @ filter (\<lambda>i. time_since_last_update (ts ! i) = 1) pre \<and> length ts' = length ts \<and>
      (\<forall>i<length ts. ts' ! i = (if i \<in> set pre \<and> time_since_last_update (ts ! i) \<noteq> 1 then MarkMiss p (ts ! i) else ts ! i))"
    with assms have i: "i < length ts" by auto
    obtain un' ts' where st: "st = (un', ts')" by fastforce
    with I i have t: "time_since_last_update (ts' ! i) = time_since_last_update (ts ! i)" by (simp add: time)
    show "\<exists>st'. chance p i st = ret st' \<and> (case st' of (un', ts') \<Rightarrow>
        un' = un @ filter (\<lambda>i. time_since_last_update (ts ! i) = 1) (pre @ [i]) \<and> length ts' = length ts \<and>
        (\<forall>k<length ts. ts' ! k = (if k \<in> set (pre @ [i]) \<and> time_since_last_update (ts ! k) \<noteq> 1 then MarkMiss p (ts ! k) else ts ! k)))"
      using I i t by (auto simp: st chance_def mark_miss_at_def nth_list_update idem)
  qed simp
  then show ?thesis by auto
qed


subsection \<open>The invariant of the tracks\<close>

definition params_ok :: "FmParams \<Rightarrow> bool" where
  "params_ok p \<longleftrightarrow> 0 \<le> max_age p \<and> 1 \<le> n_init p \<and> 1 \<le> nn_budget p"

text \<open>Within a frame, and between frames.\<close>

definition track_mid :: "FmParams \<Rightarrow> nat \<Rightarrow> TrackObject \<Rightarrow> bool" where
  "track_mid p fd t \<longleftrightarrow> track_shape fd t \<and> state t \<noteq> DELETED \<and> 0 \<le> time_since_last_update t \<and>
     length (features t) \<le> nn_budget p \<and> (has_feature t \<longleftrightarrow> features t \<noteq> []) \<and>
     (state t = CONFIRMED \<longrightarrow> 0 \<le> to_track_id t \<and> n_init p < age t) \<and>
     (state t = TENTATIVE \<longrightarrow> to_track_id t = - 1 \<and> age t \<le> n_init p)"

definition track_ok :: "FmParams \<Rightarrow> nat \<Rightarrow> TrackObject \<Rightarrow> bool" where
  "track_ok p fd t \<longleftrightarrow> track_mid p fd t \<and> time_since_last_update t \<le> max_age p \<and>
     (state t = TENTATIVE \<longrightarrow> time_since_last_update t = 0)"

definition ids_ok :: "int \<Rightarrow> TrackObject list \<Rightarrow> bool" where
  "ids_ok next ts \<longleftrightarrow> 0 \<le> next \<and> (\<forall>t\<in>set ts. to_track_id t < next) \<and>
     distinct (filter (\<lambda>x. 0 \<le> x) (map to_track_id ts))"

definition tracker_ok :: "nat \<Rightarrow> FeatureMatch \<Rightarrow> bool" where
  "tracker_ok fd fm \<longleftrightarrow> params_ok (fm_params fm) \<and> (\<forall>t\<in>set (fm_tracks fm). track_ok (fm_params fm) fd t) \<and>
     ids_ok (next_id fm) (fm_tracks fm)"

lemma distinct_filter_map_filter:
  "distinct (filter P (map f xs)) \<Longrightarrow> distinct (filter P (map f (filter Q xs)))"
  by (induction xs) auto

lemma distinct_filter_update:
  assumes "distinct (filter P xs)" "y \<notin> set xs"
  shows "distinct (filter P (xs[i := y]))"
proof (cases "i < length xs")
  case True
  have xs: "xs = take i xs @ xs ! i # drop (Suc i) xs" using id_take_nth_drop [OF True] .
  have "distinct (filter P (take i xs) @ filter P (drop (Suc i) xs))"
    using assms(1) by (subst (asm) xs) (auto split: if_splits)
  moreover have "y \<notin> set (take i xs)" "y \<notin> set (drop (Suc i) xs)" using assms(2) in_set_takeD in_set_dropD by metis+
  ultimately show ?thesis using True by (auto simp: upd_conv_take_nth_drop)
next
  case False
  then show ?thesis using assms(1) by (simp add: list_update_beyond)
qed

lemma ids_ok_keep: "map to_track_id ts' = map to_track_id ts \<Longrightarrow> ids_ok next ts \<Longrightarrow> ids_ok next ts'"
proof -
  assume e: "map to_track_id ts' = map to_track_id ts" and ids: "ids_ok next ts"
  from arg_cong [OF e, of set] have "to_track_id ` set ts' = to_track_id ` set ts" by simp
  then have "\<forall>t\<in>set ts'. to_track_id t < next" using ids unfolding ids_ok_def by (metis imageE image_eqI)
  with e ids show ?thesis by (simp add: ids_ok_def)
qed

lemma ids_ok_fresh:
  assumes "ids_ok next ts" "to_track_id t = next"
  shows "ids_ok (next + 1) (ts[i := t])"
proof -
  have "next \<notin> set (map to_track_id ts)" using assms(1) by (auto simp: ids_ok_def)
  then have "distinct (filter (\<lambda>x. 0 \<le> x) (map to_track_id (ts[i := t])))"
    unfolding map_update assms(2) using assms(1) by (intro distinct_filter_update) (auto simp: ids_ok_def)
  moreover have "\<forall>u\<in>set (ts[i := t]). to_track_id u < next + 1"
    using assms by (auto simp: ids_ok_def dest!: set_update_subset_insert [THEN subsetD])
  ultimately show ?thesis using assms(1) by (simp add: ids_ok_def)
qed

lemma ids_ok_filter: "ids_ok next ts \<Longrightarrow> ids_ok next (filter Q ts)"
  by (auto simp: ids_ok_def intro: distinct_filter_map_filter)

lemma ids_ok_append: "ids_ok next ts \<Longrightarrow> \<forall>t\<in>set us. to_track_id t = - 1 \<Longrightarrow> ids_ok next (ts @ us)"
proof -
  assume a: "ids_ok next ts" "\<forall>t\<in>set us. to_track_id t = - 1"
  from a(2) have "filter (\<lambda>x. 0 \<le> x) (map to_track_id us) = []" by (auto simp: filter_empty_conv)
  with a show ?thesis by (auto simp: ids_ok_def)
qed

lemma MarkMiss_fields [simp]:
  "to_track_id (MarkMiss p t) = to_track_id t" "time_since_last_update (MarkMiss p t) = time_since_last_update t"
  "features (MarkMiss p t) = features t" "has_feature (MarkMiss p t) = has_feature t" "age (MarkMiss p t) = age t"
  "kf (MarkMiss p t) = kf t"
  by (simp_all add: MarkMiss_def)

text \<open>A matched track.\<close>

lemma updated_track_ok:
  assumes t: "track_mid p fd t" and p: "params_ok p" and kf1: "kf_shape kf1" and det: "length (feature det) = fd" and nonneg: "0 \<le> next"
    and u: "updated_track p det kf1 next t = (t', next')"
  shows "track_ok p fd t'" "next \<le> next'" "to_track_id t' = to_track_id t \<and> next' = next \<or> to_track_id t' = next \<and> next' = next + 1"
proof -
  let ?feats = "features t @ [\<lparr>vec = feature det, mold = feat_mold det\<rparr>]"
  let ?fs = "if has_feature t then (if nn_budget p < length ?feats then tl ?feats else ?feats) else features t"
  have fs: "features t' = ?fs" "kf t' = kf1" "has_feature t' = has_feature t" "time_since_last_update t' = 0"
    using u by (auto simp: updated_track_def Let_def split: if_splits)
  have shape: "\<forall>f\<in>set ?feats. length (vec f) = fd" using t det by (auto simp: track_mid_def track_shape_def)
  moreover have "set ?fs \<subseteq> set ?feats" by (auto split: if_splits dest: list.set_sel(2) [rotated])
  ultimately have 1: "track_shape fd t'" unfolding track_shape_def fs(1,2) using kf1 by blast
  have len: "length (features t) \<le> nn_budget p" "has_feature t \<longleftrightarrow> features t \<noteq> []" using t by (simp_all add: track_mid_def)
  then have 2: "length ?fs \<le> nn_budget p" by auto
  have 3: "has_feature t' \<longleftrightarrow> ?fs \<noteq> []"
  proof (cases "has_feature t")
    case True
    then have "?fs \<noteq> []" using len p by (cases "features t") (auto simp: params_ok_def)
    then show ?thesis using True fs(3) by simp
  qed (use len fs(3) in simp)
  have 4: "state t' \<noteq> DELETED \<and> (state t' = CONFIRMED \<longrightarrow> 0 \<le> to_track_id t' \<and> n_init p < age t') \<and>
      (state t' = TENTATIVE \<longrightarrow> to_track_id t' = - 1 \<and> age t' \<le> n_init p)"
    using t nonneg u by (auto simp: track_mid_def updated_track_def Let_def split: if_splits)
  show "track_ok p fd t'" unfolding track_ok_def track_mid_def fs(4) fs(1) using 1 2 3 4 p by (simp add: params_ok_def)
  show "next \<le> next'" using u by (auto simp: updated_track_def Let_def split: if_splits)
  show "to_track_id t' = to_track_id t \<and> next' = next \<or> to_track_id t' = next \<and> next' = next + 1"
    using u by (auto simp: updated_track_def Let_def split: if_splits)
qed

lemma update_loop_ok:
  assumes p: "params_ok p" and ids: "ids_ok next ts" and snds: "distinct (map snd ps)"
    and tracks: "\<forall>(d, i)\<in>set ps. i < length ts \<and> d < length dets \<and> track_mid p fd (ts ! i)"
    and feat: "\<forall>det\<in>set dets. length (feature det) = fd"
  shows "\<exists>ts' next'. foldR (update_matched p dets) ps (ts, next, out) =
      ret (ts', next', out @ map (\<lambda>(d, i). (dets ! d)\<lparr>track_id := to_track_id (ts ! i), detect_id := int d\<rparr>) ps) \<and>
    length ts' = length ts \<and> ids_ok next' ts' \<and> next \<le> next' \<and>
    (\<forall>i<length ts. if i \<in> snd ` set ps
       then track_ok p fd (ts' ! i) \<and> (to_track_id (ts' ! i) = to_track_id (ts ! i) \<or> next \<le> to_track_id (ts' ! i))
       else ts' ! i = ts ! i)"
proof -
  define I where "I pre st = (case st of (ts', next', out') \<Rightarrow>
    out' = out @ map (\<lambda>(d, i). (dets ! d)\<lparr>track_id := to_track_id (ts ! i), detect_id := int d\<rparr>) pre \<and>
    length ts' = length ts \<and> ids_ok next' ts' \<and> next \<le> next' \<and>
    (\<forall>i<length ts. if i \<in> snd ` set pre
       then track_ok p fd (ts' ! i) \<and> (to_track_id (ts' ! i) = to_track_id (ts ! i) \<or> next \<le> to_track_id (ts' ! i))
       else ts' ! i = ts ! i))" for pre st
  have "\<exists>st. foldR (update_matched p dets) ps (ts, next, out) = ret st \<and> I ps st"
  proof (rule foldR_inv)
    show "I [] (ts, next, out)" using ids by (simp add: I_def)
  next
    fix pre m rest st
    assume split: "ps = pre @ m # rest" and inv: "I pre st"
    obtain d i where m: "m = (d, i)" by fastforce
    obtain ts1 next1 out1 where st: "st = (ts1, next1, out1)" by (cases st)
    have i: "i < length ts" "d < length dets" "track_mid p fd (ts ! i)" "i \<notin> snd ` set pre"
      using tracks snds unfolding split m by force+
    have J: "out1 = out @ map (\<lambda>(d, i). (dets ! d)\<lparr>track_id := to_track_id (ts ! i), detect_id := int d\<rparr>) pre"
      "length ts1 = length ts" "ids_ok next1 ts1" "next \<le> next1" "ts1 ! i = ts ! i"
      using inv i(1,4) by (auto simp: I_def st)
    have "0 \<le> next" using ids by (simp add: ids_ok_def)
    have kf: "kf_shape (kf (ts ! i))" using i(3) by (simp add: track_mid_def track_shape_def)
    obtain kf1 where kf1: "Kalman_Update (to_xyah (bbox (dets ! d))) (kf (ts ! i)) = ret kf1" "kf_shape kf1"
      using kf_shape_Update [OF kf] by blast
    obtain t' next2 where u: "updated_track p (dets ! d) kf1 next1 (ts ! i) = (t', next2)" by fastforce
    have "length (feature (dets ! d)) = fd" using feat i(2) by simp
    from updated_track_ok [OF i(3) p kf1(2) this _ u] J(4) \<open>0 \<le> next\<close> have t': "track_ok p fd t'" "next1 \<le> next2"
      "to_track_id t' = to_track_id (ts ! i) \<and> next2 = next1 \<or> to_track_id t' = next1 \<and> next2 = next1 + 1" by simp_all
    let ?st = "(ts1[i := t'], next2, out1 @ [(dets ! d)\<lparr>track_id := to_track_id (ts ! i), detect_id := int d\<rparr>])"
    have run: "update_matched p dets m st = ret ?st"
      using i J(2,5) kf1(1) u by (simp add: update_matched_def m st)
    have ids2: "ids_ok next2 (ts1[i := t'])"
    proof (cases "to_track_id t' = next1 \<and> next2 = next1 + 1")
      case True
      then show ?thesis using ids_ok_fresh [OF J(3), of t' i] by simp
    next
      case False
      then have same: "to_track_id t' = to_track_id (ts ! i)" "next2 = next1" using t'(3) by auto
      then have "map to_track_id (ts1[i := t']) = map to_track_id ts1"
        using J(2,5) i(1) by (simp add: map_update list_update_same_conv)
      moreover note same(2)
      ultimately show ?thesis using ids_ok_keep [OF _ J(3)] by simp
    qed
    have all: "if k \<in> snd ` set (pre @ [m])
        then track_ok p fd (ts1[i := t'] ! k) \<and> (to_track_id (ts1[i := t'] ! k) = to_track_id (ts ! k) \<or> next \<le> to_track_id (ts1[i := t'] ! k))
        else ts1[i := t'] ! k = ts ! k" if k: "k < length ts" for k
    proof (cases "k = i")
      case True
      then show ?thesis using t'(1,3) J(2,4) k by (auto simp: m)
    next
      case False
      have "if k \<in> snd ` set pre then track_ok p fd (ts1 ! k) \<and> (to_track_id (ts1 ! k) = to_track_id (ts ! k) \<or> next \<le> to_track_id (ts1 ! k))
        else ts1 ! k = ts ! k" using inv k by (simp add: I_def st)
      then show ?thesis using False by (auto simp: m split: if_splits)
    qed
    have "I (pre @ [m]) ?st"
      unfolding I_def prod.case
    proof (intro conjI allI impI)
      fix k assume "k < length ts"
      then show "if k \<in> snd ` set (pre @ [m])
        then track_ok p fd (ts1[i := t'] ! k) \<and> (to_track_id (ts1[i := t'] ! k) = to_track_id (ts ! k) \<or> next \<le> to_track_id (ts1[i := t'] ! k))
        else ts1[i := t'] ! k = ts ! k" by (rule all)
    qed (use ids2 J(1,2,4) t'(2) in \<open>simp_all add: m\<close>)
    with run show "\<exists>st'. update_matched p dets m st = ret st' \<and> I (pre @ [m]) st'" by blast
  qed
  then show ?thesis by (auto simp: I_def)
qed


subsection \<open>One frame\<close>

definition aged :: "TrackObject \<Rightarrow> TrackObject \<Rightarrow> bool" where
  "aged t t' \<longleftrightarrow> state t' = state t \<and> to_track_id t' = to_track_id t \<and> age t' = age t \<and> has_feature t' = has_feature t \<and>
     features t' = features t \<and> time_since_last_update t' = time_since_last_update t + 1 \<and> kf_shape (kf t')"

lemma predict_all:
  assumes "\<forall>t\<in>set ts. track_shape fd t"
  shows "\<exists>ts'. mapR predict_track ts = ret ts' \<and> list_all2 aged ts ts'"
proof (rule mapR_ok)
  fix t assume "t \<in> set ts"
  with assms have "kf_shape (kf t)" by (simp add: track_shape_def)
  from kf_shape_Predict [OF this] obtain kf1 where "Predict (kf t) = ret kf1" "kf_shape kf1" by blast
  then show "\<exists>t'. predict_track t = ret t' \<and> aged t t'" by (simp add: predict_track_def aged_def)
qed

lemma aged_mid: "aged t t' \<Longrightarrow> track_ok p fd t \<Longrightarrow> track_mid p fd t'"
  by (simp add: aged_def track_ok_def track_mid_def track_shape_def)

lemma aged_mids: "list_all2 aged ts ts' \<Longrightarrow> \<forall>t\<in>set ts. track_ok p fd t \<Longrightarrow> \<forall>t\<in>set ts'. track_mid p fd t"
  by (induction rule: list_all2_induct) (auto intro: aged_mid)

lemma recached_mid: "recached t t' \<Longrightarrow> track_mid p fd t \<Longrightarrow> track_mid p fd t'"
  using recached_fields [of t t'] recached_shape [of t t' fd]
  unfolding track_mid_def by (metis length_0_conv)

text \<open>The two matchings: which detections and which tracks they use, and what they leave of the tracks.\<close>

lemma matching_stage:
  assumes feat: "\<forall>det\<in>set dets. length (feature det) = fd" and shapes: "\<forall>t\<in>set ts. track_shape fd t"
    and part: "distinct (unconfirmed @ confirmed)" "set (unconfirmed @ confirmed) = {..<length ts}"
  shows "\<exists>dets1 ts2 resF iou ts3 resI. MatchCascade p dets confirmed ts = ret (dets1, ts2, resF) \<and>
    foldR (chance p) (unmatched_tracks resF) (unconfirmed, ts2) = ret (iou, ts3) \<and>
    MatchIou p dets1 ts3 (unmatched_detections resF) iou = ret resI \<and>
    list_all2 renormed dets dets1 \<and> list_all2 recached ts ts2 \<and> length ts3 = length ts \<and>
    mset (map fst (matches resF @ matches resI)) + mset (unmatched_detections resI) = mset [0..<length dets] \<and>
    distinct (map snd (matches resF @ matches resI) @ unmatched_tracks resI) \<and>
    set (map snd (matches resF @ matches resI) @ unmatched_tracks resI) \<subseteq> {..<length ts} \<and>
    set unconfirmed \<subseteq> set (map snd (matches resF @ matches resI) @ unmatched_tracks resI) \<and>
    (\<forall>i\<in>set (map snd (matches resF @ matches resI) @ unmatched_tracks resI). ts3 ! i = ts2 ! i) \<and>
    (\<forall>i<length ts. ts3 ! i = ts2 ! i \<or> ts3 ! i = MarkMiss p (ts2 ! i))"
proof -
  have conf: "distinct confirmed" "\<forall>i\<in>set confirmed. i < length ts" using part by auto
  obtain dets1 ts2 resF where F: "MatchCascade p dets confirmed ts = ret (dets1, ts2, resF)"
    "list_all2 renormed dets dets1" "list_all2 recached ts ts2"
    "mset (map fst (matches resF)) + mset (unmatched_detections resF) = mset [0..<length dets]"
    "distinct (used resF)" "set (used resF) \<subseteq> set confirmed"
    using MatchCascade_ok [OF feat shapes conf] by blast
  have len: "length ts2 = length ts" "length dets1 = length dets" using F(2,3) by (auto dest: list_all2_lengthD)
  let ?U = "unmatched_tracks resF"
  have U: "set (map snd (matches resF)) \<subseteq> set confirmed" "set ?U \<subseteq> set confirmed" "distinct (map snd (matches resF))" "distinct ?U"
    "set (map snd (matches resF)) \<inter> set ?U = {}" using F(5,6) by (auto simp: used_def)
  let ?iou = "unconfirmed @ filter (\<lambda>i. time_since_last_update (ts2 ! i) = 1) ?U"
  from chance_loop_ok [of ?U ts2 p unconfirmed] U(2) conf(2) len(1) obtain ts3 where C:
    "foldR (chance p) ?U (unconfirmed, ts2) = ret (?iou, ts3)" "length ts3 = length ts"
    "\<forall>i<length ts. ts3 ! i = (if i \<in> set ?U \<and> time_since_last_update (ts2 ! i) \<noteq> 1 then MarkMiss p (ts2 ! i) else ts2 ! i)" by auto
  have ds: "distinct (map fst (matches resF) @ unmatched_detections resF)"
    using F(4) mset_eq_imp_distinct_iff by (metis distinct_upt mset_append)
  have "\<forall>d\<in>set (unmatched_detections resF). d < length dets1" using arg_cong [OF F(4), of set_mset] len(2) by auto
  moreover have iou: "set ?iou \<subseteq> {..<length ts}" "distinct ?iou" using part U(2,4) conf(2) by auto
  ultimately obtain resI where M: "MatchIou p dets1 ts3 (unmatched_detections resF) ?iou = ret resI"
    "mset (map fst (matches resI)) + mset (unmatched_detections resI) = mset (unmatched_detections resF)"
    "mset (map snd (matches resI)) + mset (unmatched_tracks resI) = mset ?iou"
    using MatchIou_ok [of "unmatched_detections resF" dets1 ?iou ts3 p] ds C(2) by auto
  let ?second = "map snd (matches resI) @ unmatched_tracks resI"
  have "mset ?second = mset ?iou" using M(3) by simp
  from mset_eq_setD [OF this] mset_eq_imp_distinct_iff [OF this] iou
  have second: "set ?second = set ?iou" "distinct ?second" by simp_all
  have disj: "set (map snd (matches resF)) \<inter> set ?iou = {}" using U(1,5) part(1) by auto
  have all: "map snd (matches resF @ matches resI) @ unmatched_tracks resI = map snd (matches resF) @ ?second" by simp
  have "distinct (map snd (matches resF) @ ?second)" using U(3) second disj unfolding distinct_append by blast
  moreover have "set (map snd (matches resF) @ ?second) \<subseteq> {..<length ts}"
    using U(1) conf(2) second(1) iou(1) unfolding set_append by blast
  moreover have "set unconfirmed \<subseteq> set ?second" unfolding second(1) by auto
  then have "set unconfirmed \<subseteq> set (map snd (matches resF) @ ?second)" by auto
  moreover have "\<forall>i\<in>set (map snd (matches resF) @ ?second). ts3 ! i = ts2 ! i"
  proof
    fix i assume "i \<in> set (map snd (matches resF) @ ?second)"
    then have "i \<in> set (map snd (matches resF)) \<or> i \<in> set ?second" by auto
    then have i: "i \<in> set (map snd (matches resF)) \<or> i \<in> set ?iou" unfolding second(1) .
    then have "i < length ts" using U(1) conf(2) iou(1) by blast
    moreover have "\<not> (i \<in> set ?U \<and> time_since_last_update (ts2 ! i) \<noteq> 1)" using i U(2,5) part(1) by auto
    ultimately show "ts3 ! i = ts2 ! i" using C(3) by auto
  qed
  moreover have "mset (map fst (matches resF @ matches resI)) + mset (unmatched_detections resI) = mset [0..<length dets]"
    using F(4) M(2) by (simp add: add.assoc)
  moreover have "\<forall>i<length ts. ts3 ! i = ts2 ! i \<or> ts3 ! i = MarkMiss p (ts2 ! i)" using C(3) by auto
  ultimately show ?thesis using F(1-3) C(1,2) M(1) by - (intro exI conjI, (assumption | simp only: all)+)
qed

lemma survivor:
  assumes "track_mid p fd t" "t' = t \<or> t' = MarkMiss p t" "state t = TENTATIVE \<longrightarrow> t' = MarkMiss p t" "alive p t'"
  shows "t' = t \<and> track_ok p fd t"
proof -
  have "state t \<noteq> TENTATIVE" using assms(3,4) by (auto simp: MarkMiss_def alive_def)
  with assms show ?thesis by (auto simp: MarkMiss_def alive_def track_ok_def split: if_splits)
qed

definition new_track :: "DetectObject \<Rightarrow> TrackObject" where "new_track det = hd (InitNewTrack det [])"

lemma InitNewTrack_append: "InitNewTrack det ts = ts @ [new_track det]"
  by (simp add: InitNewTrack_def new_track_def Let_def)

lemma new_track_ok:
  assumes "params_ok p" "length (feature det) = fd"
  shows "track_ok p fd (new_track det)" "to_track_id (new_track det) = - 1" "state (new_track det) = TENTATIVE"
proof -
  have "kf_shape (Initiate (to_xyah (bbox det)) KalmanFilter_new)"
    by (rule kf_shape_Initiate [OF kf_shape_new]) (simp add: KalmanFilter_new_def)
  then show "track_ok p fd (new_track det)" using assms
    by (simp add: new_track_def InitNewTrack_def Let_def track_ok_def track_mid_def track_shape_def params_ok_def)
  show "to_track_id (new_track det) = - 1" "state (new_track det) = TENTATIVE"
    by (simp_all add: new_track_def InitNewTrack_def Let_def)
qed

lemma init_loop_ok:
  assumes "\<forall>d\<in>set ds. d < length dets"
  shows "foldR (init_unmatched dets) ds (ts, out) = ret (ts @ map (\<lambda>d. new_track (dets ! d)) ds,
    out @ map (\<lambda>d. (dets ! d)\<lparr>track_id := - 1, detect_id := int d\<rparr>) ds)"
  using assms
proof (induction ds arbitrary: ts out)
  case (Cons d ds)
  have "to_track_id (new_track (dets ! d)) = - 1" by (simp add: new_track_def InitNewTrack_def Let_def)
  with Cons show ?case by (simp add: init_unmatched_def InitNewTrack_append Let_def)
qed simp

lemma first_frame_eq:
  "first_frame dets = (map new_track dets, map (\<lambda>d. (dets ! d)\<lparr>track_id := - 1, detect_id := int d\<rparr>) [0..<length dets])"
proof -
  have "fold (\<lambda>d (ts, out). (InitNewTrack (dets ! d) ts, out @ [(dets ! d)\<lparr>track_id := - 1, detect_id := int d\<rparr>])) [0..<n] ([], []) =
    (map (\<lambda>d. new_track (dets ! d)) [0..<n], map (\<lambda>d. (dets ! d)\<lparr>track_id := - 1, detect_id := int d\<rparr>) [0..<n])" for n
    by (induction n) (simp_all add: InitNewTrack_append)
  moreover have "map (\<lambda>d. new_track (dets ! d)) [0..<length dets] = map new_track dets"
    by (rule nth_equalityI) simp_all
  ultimately show ?thesis by (simp add: first_frame_def)
qed


text \<open>
  What a frame gives out: every detection once, with its own data; the ids are ids of confirmed tracks, each
  at most once.
\<close>

definition frame_out :: "TrackObject list \<Rightarrow> DetectObject list \<Rightarrow> DetectObject list \<Rightarrow> bool" where
  "frame_out ts dets out \<longleftrightarrow> mset (map detect_id out) = mset (map int [0..<length dets]) \<and>
     (\<forall>x\<in>set out. \<exists>d<length dets. detect_id x = int d \<and> label x = label (dets ! d) \<and> score x = score (dets ! d) \<and>
        bbox x = bbox (dets ! d) \<and> feature x = feature (dets ! d)) \<and>
     (\<forall>x\<in>set out. track_id x = - 1 \<or> (\<exists>t\<in>set ts. state t = CONFIRMED \<and> to_track_id t = track_id x)) \<and>
     distinct (filter (\<lambda>i. 0 \<le> i) (map track_id out))"

definition ids_kept :: "FeatureMatch \<Rightarrow> FeatureMatch \<Rightarrow> bool" where
  "ids_kept fm fm' \<longleftrightarrow> fm_params fm' = fm_params fm \<and> next_id fm \<le> next_id fm' \<and>
     (\<forall>t\<in>set (fm_tracks fm'). state t = CONFIRMED \<longrightarrow>
        (\<exists>u\<in>set (fm_tracks fm). to_track_id u = to_track_id t) \<or> next_id fm \<le> to_track_id t)"

lemma renormed_data:
  assumes "list_all2 renormed (map (\<lambda>d. d\<lparr>feat_mold := - 1\<rparr>) dets) dets1" "d < length dets"
  shows "label (dets1 ! d) = label (dets ! d)" "score (dets1 ! d) = score (dets ! d)"
    "bbox (dets1 ! d) = bbox (dets ! d)" "feature (dets1 ! d) = feature (dets ! d)"
  using list_all2_nthD2 [OF assms(1), of d] renormed_fields [of "(dets ! d)\<lparr>feat_mold := - 1\<rparr>" "dets1 ! d"] assms
  by (auto dest: list_all2_lengthD)

lemma distinct_filter_nth:
  assumes "distinct (filter P ys)" "i < length ys" "j < length ys" "P (ys ! i)" "ys ! i = ys ! j"
  shows "i = j"
proof -
  have no: "\<not> k < l" if "l < length ys" "ys ! k = ys ! l" "P (ys ! k)" for k l
  proof
    assume kl: "k < l"
    have "k < length ys" using kl that(1) by simp
    have "distinct (filter P (take k ys @ ys ! k # drop (Suc k) ys))"
      by (subst id_take_nth_drop [symmetric]) (rule \<open>k < length ys\<close>, rule assms(1))
    then have "ys ! k \<notin> set (drop (Suc k) ys)" using that(3) by auto
    moreover have "drop (Suc k) ys ! (l - Suc k) \<in> set (drop (Suc k) ys)" using kl that(1) by (intro nth_mem) simp
    then have "ys ! l \<in> set (drop (Suc k) ys)" using kl that(1) by simp
    ultimately show False using that(2) by simp
  qed
  have "\<not> i < j" by (rule no [OF assms(3,5,4)])
  moreover have "\<not> j < i" using assms(4,5) by (intro no [OF assms(2)]) simp_all
  ultimately show ?thesis by simp
qed

lemma map_nth_distinct:
  assumes "distinct (filter P (map f xs))" "distinct is" "set is \<subseteq> {..<length xs}"
  shows "distinct (filter P (map (\<lambda>i. f (xs ! i)) is))"
proof -
  have "inj_on (\<lambda>i. f (xs ! i)) (set (filter (\<lambda>i. P (f (xs ! i))) is))"
  proof (rule inj_onI)
    fix i j assume i: "i \<in> set (filter (\<lambda>i. P (f (xs ! i))) is)" and j: "j \<in> set (filter (\<lambda>i. P (f (xs ! i))) is)"
      and e: "f (xs ! i) = f (xs ! j)"
    have "i < length xs" "j < length xs" "P (f (xs ! i))" "P (f (xs ! j))" using i j assms(3) by auto
    then show "i = j" using distinct_filter_nth [OF assms(1), of i j] e by simp
  qed
  then show ?thesis using assms(2) by (simp add: filter_map comp_def distinct_map)
qed

text \<open>
  The middle of a frame, for tracks \<open>T\<close> and \<open>n\<close> detections: the matched pairs \<open>ps\<close>, the unmatched tracks \<open>us\<close> and
  detections \<open>ds\<close>, the tracks \<open>ts2\<close> after the cascade and \<open>ts3\<close> after the second chance.
\<close>

definition middle :: "FmParams \<Rightarrow> nat \<Rightarrow> TrackObject list \<Rightarrow> nat \<Rightarrow> (nat \<times> nat) list \<Rightarrow> nat list \<Rightarrow> nat list \<Rightarrow>
    TrackObject list \<Rightarrow> TrackObject list \<Rightarrow> bool" where
  "middle p fd T n ps us ds ts2 ts3 \<longleftrightarrow> length ts2 = length T \<and> length ts3 = length T \<and>
     (\<forall>i<length T. track_mid p fd (ts2 ! i) \<and> to_track_id (ts2 ! i) = to_track_id (T ! i) \<and> state (ts2 ! i) = state (T ! i)) \<and>
     (\<forall>i<length T. ts3 ! i = ts2 ! i \<or> ts3 ! i = MarkMiss p (ts2 ! i)) \<and>
     distinct (map snd ps @ us) \<and> set (map snd ps @ us) \<subseteq> {..<length T} \<and>
     (\<forall>i\<in>set (map snd ps @ us). ts3 ! i = ts2 ! i) \<and>
     (\<forall>i<length T. state (T ! i) = TENTATIVE \<longrightarrow> i \<in> set (map snd ps @ us)) \<and>
     mset (map fst ps) + mset ds = mset [0..<n]"

lemma middleD:
  assumes "middle p fd T n ps us ds ts2 ts3"
  shows "length ts2 = length T" "length ts3 = length T"
    "i < length T \<Longrightarrow> track_mid p fd (ts2 ! i)" "i < length T \<Longrightarrow> to_track_id (ts2 ! i) = to_track_id (T ! i)"
    "i < length T \<Longrightarrow> state (ts2 ! i) = state (T ! i)" "i < length T \<Longrightarrow> ts3 ! i = ts2 ! i \<or> ts3 ! i = MarkMiss p (ts2 ! i)"
    "distinct (map snd ps @ us)" "set (map snd ps @ us) \<subseteq> {..<length T}"
    "i \<in> set (map snd ps @ us) \<Longrightarrow> ts3 ! i = ts2 ! i"
    "i < length T \<Longrightarrow> state (T ! i) = TENTATIVE \<Longrightarrow> i \<in> set (map snd ps @ us)"
    "mset (map fst ps) + mset ds = mset [0..<n]"
  using assms by (auto simp: middle_def)

lemma frame_middle:
  assumes T: "\<forall>t\<in>set T. track_ok p fd t" and feat: "\<forall>det\<in>set detects. length (feature det) = fd"
  defines "conf \<equiv> filter (\<lambda>i. is_confirmed (T ! i)) [0..<length T]" and "unc \<equiv> filter (\<lambda>i. \<not> is_confirmed (T ! i)) [0..<length T]"
    and "dets \<equiv> map (\<lambda>d. d\<lparr>feat_mold := - 1\<rparr>) detects"
  shows "\<exists>ts1 dets1 ts2 resF iou ts3 resI. mapR predict_track T = ret ts1 \<and>
    MatchCascade p dets conf ts1 = ret (dets1, ts2, resF) \<and>
    foldR (chance p) (unmatched_tracks resF) (unc, ts2) = ret (iou, ts3) \<and>
    MatchIou p dets1 ts3 (unmatched_detections resF) iou = ret resI \<and> list_all2 renormed dets dets1 \<and>
    middle p fd T (length detects) (matches resF @ matches resI) (unmatched_tracks resI) (unmatched_detections resI) ts2 ts3"
proof -
  have "\<forall>t\<in>set T. track_shape fd t" using T by (auto simp: track_ok_def track_mid_def)
  from predict_all [OF this] obtain ts1 where P: "mapR predict_track T = ret ts1" "list_all2 aged T ts1" by blast
  have len1: "length ts1 = length T" using P(2) by (auto dest: list_all2_lengthD)
  have mid1: "\<forall>t\<in>set ts1. track_mid p fd t" by (rule aged_mids [OF P(2) T])
  then have shapes: "\<forall>t\<in>set ts1. track_shape fd t" by (simp add: track_mid_def)
  have feat': "\<forall>det\<in>set dets. length (feature det) = fd" using feat by (auto simp: dets_def)
  have part: "distinct (unc @ conf)" "set (unc @ conf) = {..<length ts1}" using len1 by (auto simp: conf_def unc_def)
  from matching_stage [OF feat' shapes part, of p] obtain dets1 ts2 resF iou ts3 resI where M:
    "MatchCascade p dets conf ts1 = ret (dets1, ts2, resF)" "foldR (chance p) (unmatched_tracks resF) (unc, ts2) = ret (iou, ts3)"
    "MatchIou p dets1 ts3 (unmatched_detections resF) iou = ret resI"
    "list_all2 renormed dets dets1" "list_all2 recached ts1 ts2" "length ts3 = length ts1"
    "mset (map fst (matches resF @ matches resI)) + mset (unmatched_detections resI) = mset [0..<length dets]"
    "distinct (map snd (matches resF @ matches resI) @ unmatched_tracks resI)"
    "set (map snd (matches resF @ matches resI) @ unmatched_tracks resI) \<subseteq> {..<length ts1}"
    "set unc \<subseteq> set (map snd (matches resF @ matches resI) @ unmatched_tracks resI)"
    "\<forall>i\<in>set (map snd (matches resF @ matches resI) @ unmatched_tracks resI). ts3 ! i = ts2 ! i"
    "\<forall>i<length ts1. ts3 ! i = ts2 ! i \<or> ts3 ! i = MarkMiss p (ts2 ! i)" by blast
  have "track_mid p fd (ts2 ! i) \<and> to_track_id (ts2 ! i) = to_track_id (T ! i) \<and> state (ts2 ! i) = state (T ! i)"
    if i: "i < length T" for i
  proof -
    have a: "aged (T ! i) (ts1 ! i)" "recached (ts1 ! i) (ts2 ! i)" "ts1 ! i \<in> set ts1"
      using i len1 P(2) M(5) by (auto simp: list_all2_conv_all_nth)
    then show ?thesis using recached_mid [OF a(2)] recached_fields(1,2) [OF a(2)] mid1 by (auto simp: aged_def)
  qed
  moreover have "i \<in> set unc" if "i < length T" "state (T ! i) = TENTATIVE" for i
    using that by (simp add: unc_def is_confirmed_def)
  ultimately have "middle p fd T (length detects) (matches resF @ matches resI) (unmatched_tracks resI) (unmatched_detections resI) ts2 ts3"
    unfolding middle_def using M(6-12) len1 list_all2_lengthD [OF M(5)] by (auto simp: dets_def)
  with P(1) M(1-4) show ?thesis by blast
qed


text \<open>The tracks after the frame.\<close>

lemma frame_tracks:
  assumes p: "params_ok p" and mid: "middle p fd T n ps us ds ts2 ts3" and feat: "\<forall>d\<in>set ds. length (feature (dets1 ! d)) = fd"
    and ts4: "length ts4 = length T" "\<forall>i<length T. if i \<in> snd ` set ps
       then track_ok p fd (ts4 ! i) \<and> (to_track_id (ts4 ! i) = to_track_id (ts3 ! i) \<or> next \<le> to_track_id (ts4 ! i)) else ts4 ! i = ts3 ! i"
    and ts6: "length ts6 = length (ts4 @ map (\<lambda>d. new_track (dets1 ! d)) ds)"
      "\<forall>i<length (ts4 @ map (\<lambda>d. new_track (dets1 ! d)) ds). ts6 ! i = (if i \<in> set us then MarkMiss p ((ts4 @ map (\<lambda>d. new_track (dets1 ! d)) ds) ! i)
         else (ts4 @ map (\<lambda>d. new_track (dets1 ! d)) ds) ! i)"
    and t: "t \<in> set ts6" "alive p t"
  shows "track_ok p fd t \<and> (state t = CONFIRMED \<longrightarrow> (\<exists>u\<in>set T. to_track_id u = to_track_id t) \<or> next \<le> to_track_id t)"
proof -
  note D = middleD [OF mid]
  from t(1) obtain i where i: "i < length ts6" "t = ts6 ! i" by (auto simp: in_set_conv_nth)
  show ?thesis
  proof (cases "i < length T")
    case False
    then have "i \<notin> set us" using D(8) by auto
    then have t': "t = new_track (dets1 ! (ds ! (i - length T)))" "i - length T < length ds"
      using i ts6 ts4(1) False by (auto simp: nth_append)
    then have "ds ! (i - length T) \<in> set ds" by simp
    with feat have "length (feature (dets1 ! (ds ! (i - length T)))) = fd" by blast
    from new_track_ok [OF p this] t'(1) show ?thesis by simp
  next
    case iT: True
    then have t4: "t = (if i \<in> set us then MarkMiss p (ts4 ! i) else ts4 ! i)" using i ts6 ts4(1) by (auto simp: nth_append)
    have id3: "to_track_id (ts3 ! i) = to_track_id (T ! i)" using D(4,6) [OF iT] by auto
    show ?thesis
    proof (cases "i \<in> snd ` set ps")
      case True
      then have "i \<notin> set us" using D(7) by auto
      with t4 ts4(2) iT True id3 show ?thesis by (metis nth_mem)
    next
      case False
      then have ts4i: "ts4 ! i = ts3 ! i" using ts4(2) iT by auto
      have "i \<in> set us \<Longrightarrow> ts3 ! i = ts2 ! i" using D(9) [of i] by simp
      then have or: "t = ts2 ! i \<or> t = MarkMiss p (ts2 ! i)" using t4 ts4i D(6) [OF iT] by auto
      have "state (ts2 ! i) = TENTATIVE \<longrightarrow> t = MarkMiss p (ts2 ! i)"
        using D(5,10) [OF iT] False t4 ts4i \<open>i \<in> set us \<Longrightarrow> ts3 ! i = ts2 ! i\<close> by auto
      from survivor [OF D(3) [OF iT] or this t(2)] show ?thesis using D(4) [OF iT] iT by (metis nth_mem)
    qed
  qed
qed

text \<open>What comes out.\<close>

lemma frame_outputs:
  assumes mid: "middle p fd T (length detects) ps us ds ts2 ts3" and T: "\<forall>t\<in>set T. track_ok p fd t"
    and ids: "ids_ok next T" and dets: "list_all2 renormed (map (\<lambda>d. d\<lparr>feat_mold := - 1\<rparr>) detects) dets1"
  shows "frame_out T detects (map (\<lambda>(d, i). (dets1 ! d)\<lparr>track_id := to_track_id (ts3 ! i), detect_id := int d\<rparr>) ps @
    map (\<lambda>d. (dets1 ! d)\<lparr>track_id := - 1, detect_id := int d\<rparr>) ds)"
proof -
  note D = middleD [OF mid]
  let ?o1 = "map (\<lambda>(d, i). (dets1 ! d)\<lparr>track_id := to_track_id (ts3 ! i), detect_id := int d\<rparr>) ps"
    and ?o2 = "map (\<lambda>d. (dets1 ! d)\<lparr>track_id := - 1, detect_id := int d\<rparr>) ds"
  have id3: "to_track_id (ts3 ! i) = to_track_id (T ! i)" if "i < length T" for i using D(4,6) [OF that] by auto
  have ps: "i < length T" "d < length detects" if "(d, i) \<in> set ps" for d i
  proof -
    from that D(8) show "i < length T" by force
    from that have "d \<in> set_mset (mset (map fst ps) + mset ds)" by force
    then show "d < length detects" unfolding D(11) by simp
  qed
  have ds: "d < length detects" if "d \<in> set ds" for d
  proof -
    from that have "d \<in> set_mset (mset (map fst ps) + mset ds)" by simp
    then show ?thesis unfolding D(11) by simp
  qed
  have "map detect_id (?o1 @ ?o2) = map int (map fst ps @ ds)" by (simp add: comp_def split_beta)
  then have "mset (map detect_id (?o1 @ ?o2)) = image_mset int (mset (map fst ps) + mset ds)" by (simp only: mset_map mset_append)
  then have 1: "mset (map detect_id (?o1 @ ?o2)) = mset (map int [0..<length detects])" unfolding D(11) by simp
  have 2: "\<forall>x\<in>set (?o1 @ ?o2). \<exists>d<length detects. detect_id x = int d \<and> label x = label (detects ! d) \<and> score x = score (detects ! d) \<and>
      bbox x = bbox (detects ! d) \<and> feature x = feature (detects ! d)"
    using ps(2) ds renormed_data [OF dets] by fastforce
  have conf: "state (T ! i) = CONFIRMED" if "i < length T" "to_track_id (T ! i) \<noteq> - 1" for i
    using T that by (cases "state (T ! i)") (auto simp: track_ok_def track_mid_def)
  have 3: "\<forall>x\<in>set (?o1 @ ?o2). track_id x = - 1 \<or> (\<exists>t\<in>set T. state t = CONFIRMED \<and> to_track_id t = track_id x)"
    using ps(1) id3 conf by (fastforce intro: nth_mem)
  have "filter (\<lambda>i. 0 \<le> i) (map track_id ?o2) = []" by (auto simp: filter_empty_conv)
  moreover have "map track_id ?o1 = map (\<lambda>i. to_track_id (T ! i)) (map snd ps)" using ps(1) id3 by auto
  moreover have "distinct (filter (\<lambda>i. 0 \<le> i) (map (\<lambda>i. to_track_id (T ! i)) (map snd ps)))"
    using ids D(7,8) by (intro map_nth_distinct) (auto simp: ids_ok_def)
  ultimately have 4: "distinct (filter (\<lambda>i. 0 \<le> i) (map track_id (?o1 @ ?o2)))" by (simp only: map_append filter_append append_Nil2)
  show ?thesis unfolding frame_out_def using 1 2 3 4 by blast
qed


lemma marked_ids:
  assumes "length ys = length xs" "\<forall>i<length xs. ys ! i = (if i \<in> S then MarkMiss p (xs ! i) else xs ! i)"
  shows "map to_track_id ys = map to_track_id xs"
  using assms by (intro nth_equalityI) auto

lemma UpdateFrame_later:
  assumes ok: "tracker_ok fd fm" and feat: "\<forall>det\<in>set detects. length (feature det) = fd" and some: "fm_tracks fm \<noteq> []"
  shows "\<exists>fm' out. UpdateFrame detects fm = ret (fm', out) \<and> tracker_ok fd fm' \<and> frame_out (fm_tracks fm) detects out \<and> ids_kept fm fm'"
proof -
  let ?p = "fm_params fm" and ?T = "fm_tracks fm"
  have p: "params_ok ?p" and T: "\<forall>t\<in>set ?T. track_ok ?p fd t" and ids: "ids_ok (next_id fm) ?T" using ok by (simp_all add: tracker_ok_def)
  from frame_middle [OF T feat] obtain ts1 dets1 ts2 resF iou ts3 resI where M: "mapR predict_track ?T = ret ts1"
    "MatchCascade ?p (map (\<lambda>d. d\<lparr>feat_mold := - 1\<rparr>) detects) (filter (\<lambda>i. is_confirmed (?T ! i)) [0..<length ?T]) ts1 = ret (dets1, ts2, resF)"
    "foldR (chance ?p) (unmatched_tracks resF) (filter (\<lambda>i. \<not> is_confirmed (?T ! i)) [0..<length ?T], ts2) = ret (iou, ts3)"
    "MatchIou ?p dets1 ts3 (unmatched_detections resF) iou = ret resI"
    "list_all2 renormed (map (\<lambda>d. d\<lparr>feat_mold := - 1\<rparr>) detects) dets1"
    "middle ?p fd ?T (length detects) (matches resF @ matches resI) (unmatched_tracks resI) (unmatched_detections resI) ts2 ts3" by blast
  define ps us ds where "ps = matches resF @ matches resI" and "us = unmatched_tracks resI" and "ds = unmatched_detections resI"
  note mid = M(6) [folded ps_def us_def ds_def] and D = middleD [OF M(6) [folded ps_def us_def ds_def]]
  have dets: "length dets1 = length detects" using M(5) by (auto dest: list_all2_lengthD)
  have feat1: "\<forall>det\<in>set dets1. length (feature det) = fd"
    using renormed_data(4) [OF M(5)] feat dets by (metis in_set_conv_nth)
  have all: "set (map fst ps) \<union> set ds = {..<length detects}" using arg_cong [OF D(11), of set_mset] by (simp add: atLeast0LessThan)
  have tracks: "\<forall>(d, i)\<in>set ps. i < length ts3 \<and> d < length dets1 \<and> track_mid ?p fd (ts3 ! i)"
  proof clarify
    fix d i assume m: "(d, i) \<in> set ps"
    then have "i \<in> set (map snd ps @ us)" "d \<in> set (map fst ps)" by force+
    then show "i < length ts3 \<and> d < length dets1 \<and> track_mid ?p fd (ts3 ! i)"
      using D(2,8) D(9) [of i] D(3) [of i] all dets by auto
  qed
  have "map to_track_id ts3 = map to_track_id ?T" using D(2,4,6) by (intro nth_equalityI) fastforce+
  from ids_ok_keep [OF this ids] have ids3: "ids_ok (next_id fm) ts3" .
  from update_loop_ok [OF p ids3 _ tracks feat1, of "[]"] D(2,7) obtain ts4 next1 where U:
    "foldR (update_matched ?p dets1) ps (ts3, next_id fm, []) =
      ret (ts4, next1, map (\<lambda>(d, i). (dets1 ! d)\<lparr>track_id := to_track_id (ts3 ! i), detect_id := int d\<rparr>) ps)"
    "length ts4 = length ?T" "ids_ok next1 ts4" "next_id fm \<le> next1"
    "\<forall>i<length ?T. if i \<in> snd ` set ps
       then track_ok ?p fd (ts4 ! i) \<and> (to_track_id (ts4 ! i) = to_track_id (ts3 ! i) \<or> next_id fm \<le> to_track_id (ts4 ! i))
       else ts4 ! i = ts3 ! i" by auto
  let ?new = "map (\<lambda>d. new_track (dets1 ! d)) ds"
  have dlt: "\<forall>d\<in>set ds. d < length dets1" using all dets by auto
  have "\<forall>i\<in>set us. i < length (ts4 @ ?new)" using D(8) U(2) by auto
  from mark_miss_loop_ok [OF this, of ?p] obtain ts6 where K: "foldR (mark_miss_at ?p) us (ts4 @ ?new) = ret ts6"
    "length ts6 = length (ts4 @ ?new)"
    "\<forall>i<length (ts4 @ ?new). ts6 ! i = (if i \<in> set us then MarkMiss ?p ((ts4 @ ?new) ! i) else (ts4 @ ?new) ! i)" by blast
  let ?out = "map (\<lambda>(d, i). (dets1 ! d)\<lparr>track_id := to_track_id (ts3 ! i), detect_id := int d\<rparr>) ps @
    map (\<lambda>d. (dets1 ! d)\<lparr>track_id := - 1, detect_id := int d\<rparr>) ds"
  let ?fm = "fm\<lparr>fm_tracks := filter (alive ?p) ts6, next_id := next1\<rparr>"
  have run: "UpdateFrame detects fm = ret (?fm, ?out)"
    using some M(1-4) U(1) K(1) init_loop_ok [OF dlt] unfolding ps_def us_def ds_def
    by (simp add: UpdateFrame_def Let_def)
  have dsf: "\<forall>d\<in>set ds. length (feature (dets1 ! d)) = fd" using dlt feat1 by simp
  have after: "track_ok ?p fd t \<and> (state t = CONFIRMED \<longrightarrow> (\<exists>u\<in>set ?T. to_track_id u = to_track_id t) \<or> next_id fm \<le> to_track_id t)"
    if "t \<in> set ts6" "alive ?p t" for t
    by (rule frame_tracks [OF p mid dsf U(2,5) K(2,3) that])
  have "map to_track_id ts6 = map to_track_id (ts4 @ ?new)" by (rule marked_ids [OF K(2,3)])
  moreover have "ids_ok next1 (ts4 @ ?new)" using new_track_ok(2) [OF p refl] by (intro ids_ok_append [OF U(3)]) auto
  ultimately have "ids_ok next1 (filter (alive ?p) ts6)" by (intro ids_ok_filter ids_ok_keep [of ts6])
  then have "tracker_ok fd ?fm" using p after by (simp add: tracker_ok_def)
  moreover have "ids_kept fm ?fm" using after U(4) by (auto simp: ids_kept_def)
  ultimately show ?thesis using run frame_outputs [OF mid T ids M(5)] by blast
qed

lemma UpdateFrame_first:
  assumes ok: "tracker_ok fd fm" and feat: "\<forall>det\<in>set detects. length (feature det) = fd" and none: "fm_tracks fm = []"
  shows "\<exists>fm' out. UpdateFrame detects fm = ret (fm', out) \<and> tracker_ok fd fm' \<and> frame_out (fm_tracks fm) detects out \<and> ids_kept fm fm'"
proof -
  let ?p = "fm_params fm" and ?dets = "map (\<lambda>d. d\<lparr>feat_mold := - 1\<rparr>) detects"
  let ?fm = "fm\<lparr>fm_tracks := map new_track ?dets\<rparr>"
  let ?out = "map (\<lambda>d. (?dets ! d)\<lparr>track_id := - 1, detect_id := int d\<rparr>) [0..<length ?dets]"
  have run: "UpdateFrame detects fm = ret (?fm, ?out)" using none by (simp add: UpdateFrame_def Let_def first_frame_eq)
  have p: "params_ok ?p" and ids: "ids_ok (next_id fm) []" using ok none by (simp_all add: tracker_ok_def)
  have new: "track_ok ?p fd (new_track d)" if "d \<in> set ?dets" for d using that feat by (intro new_track_ok [OF p]) auto
  have "ids_ok (next_id fm) ([] @ map new_track ?dets)" using new_track_ok(2) [OF p refl] by (intro ids_ok_append [OF ids]) auto
  then have "tracker_ok fd ?fm" using p new by (auto simp: tracker_ok_def)
  moreover have "ids_kept fm ?fm" using new_track_ok(3) [OF p refl] by (auto simp: ids_kept_def)
  moreover have ids_out: "map detect_id ?out = map int [0..<length detects]" by simp
  have "frame_out (fm_tracks fm) detects ?out"
    unfolding frame_out_def
  proof (intro conjI)
    show "mset (map detect_id ?out) = mset (map int [0..<length detects])" by (simp only: ids_out)
  qed (auto simp: filter_empty_conv)
  ultimately show ?thesis using run by blast
qed

subsection \<open>Properties\<close>


lemma tracker_new_ok: "tracker_ok fd FeatureMatchTrack_new"
  by (simp add: tracker_ok_def FeatureMatchTrack_new_def params_ok_def ids_ok_def)


text \<open>A run of frames from a new tracker.\<close>

fun tracker_run :: "DetectObject list list \<Rightarrow> FeatureMatch \<Rightarrow> (FeatureMatch \<times> DetectObject list list) run" where
  "tracker_run [] fm = ret (fm, [])"
| "tracker_run (f # fs) fm =
     run_bind (UpdateFrame f fm) (\<lambda>(fm1, out). run_bind (tracker_run fs fm1) (\<lambda>(fm2, outs). ret (fm2, out # outs)))"

lemma tracker_run_ok:
  assumes "tracker_ok fd fm" "\<forall>f\<in>set fs. \<forall>det\<in>set f. length (feature det) = fd"
  shows "\<exists>fm' outs. tracker_run fs fm = ret (fm', outs) \<and> tracker_ok fd fm' \<and> fm_params fm' = fm_params fm \<and>
    list_all2 (\<lambda>f out. mset (map detect_id out) = mset (map int [0..<length f])) fs outs"
  using assms
proof (induction fs arbitrary: fm)
  case (Cons f fs)
  have f: "\<forall>det\<in>set f. length (feature det) = fd" using Cons.prems(2) by simp
  have "\<exists>fm1 out. UpdateFrame f fm = ret (fm1, out) \<and> tracker_ok fd fm1 \<and> frame_out (fm_tracks fm) f out \<and> ids_kept fm fm1"
    using UpdateFrame_first [OF Cons.prems(1) f] UpdateFrame_later [OF Cons.prems(1) f] by blast
  then obtain fm1 out where 1: "UpdateFrame f fm = ret (fm1, out)" "tracker_ok fd fm1" "frame_out (fm_tracks fm) f out" "ids_kept fm fm1"
    by blast
  then have p1: "fm_params fm1 = fm_params fm" by (simp add: ids_kept_def)
  from Cons.IH [OF 1(2)] Cons.prems(2) obtain fm' outs where "tracker_run fs fm1 = ret (fm', outs)" "tracker_ok fd fm'"
    "fm_params fm' = fm_params fm1" "list_all2 (\<lambda>f out. mset (map detect_id out) = mset (map int [0..<length f])) fs outs" by auto
  with 1 p1 show ?case by (simp add: frame_out_def)
qed simp

text \<open>C39. Tracks.  After any number of frames a tracker made by \<^verbatim>\<open>SetParams\<close> with sensible limits has run without a
  fault; every track it holds is tentative or confirmed; a confirmed track has an id, was matched in more
  than \<^verbatim>\<open>n_init\<close> frames counting the first, and no other track has its id; a tentative one was seen in the last frame; none was
  missed for more than \<^verbatim>\<open>max_age\<close> frames and none stores more than \<^verbatim>\<open>nn_budget\<close> features.\<close>

theorem tracker_tracks:
  assumes "0 \<le> mage" "1 \<le> ninit" "1 \<le> budget" "\<forall>f\<in>set fs. \<forall>det\<in>set f. length (feature det) = fd"
  shows "\<exists>fm outs. tracker_run fs (SetParams cosine budget iou mage ninit FeatureMatchTrack_new) = ret (fm, outs) \<and>
    distinct (map to_track_id (filter (\<lambda>t. state t = CONFIRMED) (fm_tracks fm))) \<and>
    (\<forall>t\<in>set (fm_tracks fm).
       time_since_last_update t \<le> mage \<and> length (features t) \<le> budget \<and>
       (state t = CONFIRMED \<and> 0 \<le> to_track_id t \<and> to_track_id t < next_id fm \<and> ninit < age t \<or>
        state t = TENTATIVE \<and> to_track_id t = - 1 \<and> age t \<le> ninit \<and> time_since_last_update t = 0))"
proof -
  let ?fm = "SetParams cosine budget iou mage ninit FeatureMatchTrack_new"
  have "tracker_ok fd ?fm"
    using assms(1-3) by (simp add: tracker_ok_def SetParams_def FeatureMatchTrack_new_def params_ok_def ids_ok_def)
  from tracker_run_ok [OF this assms(4)] obtain fm outs where
    r: "tracker_run fs ?fm = ret (fm, outs)" "tracker_ok fd fm" "fm_params fm = fm_params ?fm" by blast
  have p: "n_init (fm_params fm) = ninit" "max_age (fm_params fm) = mage" "nn_budget (fm_params fm) = budget"
    by (simp_all add: r(3) SetParams_def)
  have t: "track_ok (fm_params fm) fd t" "to_track_id t < next_id fm" if "t \<in> set (fm_tracks fm)" for t
    using r(2) that by (auto simp: tracker_ok_def ids_ok_def)
  have conf: "state t = CONFIRMED \<longleftrightarrow> 0 \<le> to_track_id t" if "t \<in> set (fm_tracks fm)" for t
    using t(1) [OF that] by (cases "state t") (auto simp: track_ok_def track_mid_def)
  have "filter (\<lambda>x. 0 \<le> x) (map to_track_id (fm_tracks fm)) = map to_track_id (filter (\<lambda>t. state t = CONFIRMED) (fm_tracks fm))"
    unfolding filter_map comp_def using conf by (intro arg_cong [of _ _ "map to_track_id"] filter_cong) auto
  then have "distinct (map to_track_id (filter (\<lambda>t. state t = CONFIRMED) (fm_tracks fm)))"
    using r(2) by (simp add: tracker_ok_def ids_ok_def)
  moreover have "time_since_last_update t \<le> mage \<and> length (features t) \<le> budget \<and>
      (state t = CONFIRMED \<and> 0 \<le> to_track_id t \<and> to_track_id t < next_id fm \<and> ninit < age t \<or>
       state t = TENTATIVE \<and> to_track_id t = - 1 \<and> age t \<le> ninit \<and> time_since_last_update t = 0)"
    if "t \<in> set (fm_tracks fm)" for t
    using t [OF that] p by (cases "state t") (auto simp: track_ok_def track_mid_def)
  ultimately show ?thesis using r(1) by blast
qed

subsection \<open>A run\<close>

definition demo_det :: "real \<Rightarrow> DetectObject" where
  "demo_det x = \<lparr>label = 0, score = 1, bbox = \<lparr>bb_x = x, bb_y = 0, bb_width = 1, bb_height = 1\<rparr>, track_id = - 1, detect_id = - 1,
     feature = [1, 0], feat_mold = - 1\<rparr>"


theorem tracker_tracks_witness:
  "\<exists>fm outs. tracker_run [[demo_det 0, demo_det 5], [demo_det 0]] (SetParams (1 / 5) 100 (7 / 10) 30 3 FeatureMatchTrack_new) = ret (fm, outs) \<and>
     distinct (map to_track_id (filter (\<lambda>t. state t = CONFIRMED) (fm_tracks fm)))"
  using tracker_tracks [of 30 3 100 "[[demo_det 0, demo_det 5], [demo_det 0]]" 2 "1 / 5" "7 / 10"]
  by (auto simp: demo_det_def)

end
