(* ===== verification/Spec2Isabelle.thy ===== *)
theory Spec2Isabelle
  imports Prelude Queues IdxManager Dag DagTopo DagDfs Frame EventBus Config Module Build DagView
    Transmit Flow FlowDemo FlowProps StdMap Source StartStop Timer Batcher InferRequest InferCache
    InferSession InferEngine ThreadPool InferServer Graph GraphBuild
    GraphOrder GraphDfs GraphWalk GraphNames CircularBuffer Profiler ProfilerProps Tracing TracingProps
    TraceJson TrackMatrix MatrixProps Hungarian HungarianProps Kalman KalmanProps TrackMatch
    MatchProps Tracker TrackerProps
begin

text \<open>
  A model of UNIStream, a C++ framework that runs a graph of processing modules over streams of
  frames.

  The program.  A pipeline (framework/src/unistream_pipeline.cpp) is built from a graph
  configuration: one module object per node, a 64-bit mask with one bit per module, and per
  non-head node a connector, which is an array of bounded queues (conveyors).  A source provides
  frames; each frame carries the mask of the modules it has passed.  Worker threads, one per
  conveyor, pop a frame, let the module process it and pass it on to those successors all of
  whose predecessors have passed the frame.  Frames whose mask is full are reported to the
  frame-done callback.  Events and stream messages travel over an event bus and a message queue.

  Theories and what they model.
    Prelude     faults, error results, folds, bit masks; the contracts (locales) fifo,
                bounded_fifo and slot_alloc.
    Queues      framework/include/util/unistream_queue.hpp, framework/src/conveyor.cpp and
                connector.cpp; the queues interpret fifo and bounded_fifo.
    IdxManager  class IdxManager (unistream_pipeline.cpp): stream and module indices; module
                indices interpret slot_alloc.
    Dag, DagTopo, DagDfs   class DAGAlgorithm (unistream_graph.cpp): edges, Kahn's algorithm,
                the depth-first iterator.
    Frame       UNIFrameInfo and the process-wide stream tables (unistream_frame.cpp).
    EventBus    unistream_eventbus.cpp, the pipeline's watcher and the stream message thread.
    Config      the JSON configuration objects (unistream_config.cpp); rapidjson's reader and
                writer are the parameters parse and write.
    Module      module identity, container and the class factory (unistream_module.cpp,
                unistream_module_pri.hpp).
    Build       BuildPipeline: CreateModules, GenerateModulesMask, CreateConnectors.  It reads the
                graph through a record GraphView of its iterators.
    DagView     the GraphView of a graph without subgraphs, from its DAGAlgorithm.
    Transmit    the frame path: ProvideData, TransmitData, the handlers, DoProcess and TaskLoop.
    Flow, FlowDemo, FlowProps   the concurrent run: worker threads, pushing threads and sources as
                one step relation, its invariant, a run of a two-module pipeline, and the
                delivery properties.

    StdMap      std::map as a sorted association list; the contract map_contract.
    Source      unistream_source.cpp: the handlers of a source module and their frames.
    StartStop   Pipeline::Start and Pipeline::Stop.

  Graphs with subgraphs (framework/src/unistream_graph.hpp): a graph holds module nodes and
  subgraphs, each built from a configuration file of its own.
    Graph       building a graph from its configuration: vertices, edges, subgraph files.
    GraphBuild  what a successful Init builds (graph_ok), and that its fuel is enough.
    GraphOrder  the properties of Init and TopoSort, and concrete graphs.
    GraphDfs    the depth-first iterator over the modules of all subgraphs, the search by name, and
                the reference dfs_nodes of the walk.
    GraphWalk, GraphNames   that the iterator visits dfs_nodes, and the properties of the walk and
                of full names.

  Profiling (framework/src/profiler).
    CircularBuffer   circular_buffer.hpp: the lock-free buffer of the tracer, with its atomic steps.
    Profiler    process_profiler.cpp and stream_profiler.cpp: start records, counters, latencies.
    ProfilerProps    the invariant of the counters, and that a trace replays to the live profile.
    Tracing     pipeline_tracer.cpp, module_profiler.cpp and pipeline_profiler.cpp.
    TracingProps     what GetTrace gives, and the profile of a time window.
    TraceJson   trace_serialize_helper.cpp: traces as JSON.

  The inference server (easydk/src/infer_server) batches requests of several sessions for a
  processor.
    Timer       util/timer.cpp: the thread that fires timer events in order.
    Batcher     util/batcher.h and core/priority.h: batches closed by size or timeout.
    InferRequest   core/request_ctrl: the countdown of a request.
    InferCache  core/cache.h: the package caches; both interpret the contract discard_contract.
    InferSession   session.h, session.cpp: the requests of a session and their responses in order.
    InferEngine    engine.cpp and the executor: task nodes, engines, the dispatch loop.
    ThreadPool  util/thread_pool: the priority pool, its workers, resizing and stopping.
    InferServer    infer_server.cpp: the executor map, sessions, Request and RequestSync.

  The tracker (modules/track/src/easytrack), floats as exact reals.
    TrackMatrix    matrix.cpp: matrices, and their inverse by decomposition and substitution.
    MatrixProps    shapes and elements, and that the inverse is one.
    Hungarian      hungarian.cpp: the assignment of least cost (Munkres).
    HungarianProps    that it ends and that its assignment is optimal.
    Kalman         kalmanfilter.cpp: prediction, projection, update and gating distances.
    KalmanProps    that the covariance stays symmetric and positive definite.
    TrackMatch     match.cpp, match.h, track_data_type.h: distances, overlaps of boxes, the assignment.
    MatchProps     bounds of the overlap, and that an assignment is a matching.
    Tracker        track_fm.cpp, easy_track.h: UpdateFrame with its two matching stages.
    TrackerProps   that no frame faults, every detection comes out once and no id is used twice.

  State.  A C++ object is a record with the same members, a map is a partial function, a 64-bit
  mask is a 64 word.  Every call takes the state and returns it updated.  A fatal log, a failed
  assertion, an out-of-range access, an undefined shift and a null dereference are values of the
  type fault.  Locks make each modelled operation one atomic step; a thread's loop is one
  definition per iteration, and blocking waits are their outcomes.

  Lemmas.  Queues and IdxManager prove the laws of the contracts.  DagTopo and DagDfs give the
  exact results of the sort and the walk and their termination.  Build and DagView show what a
  built pipeline looks like.  Flow proves an invariant that counts, for every node and frame, the
  places where the frame is; FlowProps reads the delivery guarantees off it.  GraphBuild shows that Init's result is well formed, GraphWalk that the
  iterator's state stands for what is left of dfs_nodes.  InferSession, InferEngine and ThreadPool
  each have an invariant over every interleaving of their atomic steps.  ProfilerProps and
  TracingProps keep each profiler equal to the replay of its own events.

  Bounds.  Loops over finite data are structural recursions; the topological sort terminates by
  the number of unsorted vertices, the depth-first walk by the vertices not yet visited.
  Graph_Init has fuel for the depth of nested subgraphs: two more than the number of real paths of
  configuration files is enough, as a path may not repeat.  The iterator over a graph has as fuel
  what is left of the walk of its DAG.  The assignment algorithm has fuel for its rounds: a round
  stars one more zero or covers one more row, so (min(rows, columns) + 1) * (rows + 2) is enough.

  Not modelled.  The profiling calls inside the frame path and the performance statistics of the
  inference server; logging, thread scheduling priorities and real time (clocks are arguments);
  rounding (durations and the tracker's floats are exact reals, where a quotient by zero is zero
  and not an infinity, so the tracker's statements speak about boxes of positive height; sizes
  computed in doubles are parameters; the tracker's ids do not wrap); and everything that talks to
  devices, networks, codecs or neural-network runtimes, that is the easydk buffer, codec, transform
  and model layers, the built-in modules (of the tracking module, all but its algorithm) and the
  samples.
\<close>

end
